(* ===== verification/Prelude.thy ===== *)
theory Prelude
  imports Main "HOL-Library.Monad_Syntax" "HOL-Library.Word"
begin

text \<open>
  Shared vocabulary of the development: C characters and C strings, blocks of memory with
  checked reads and writes, and the generic list and option facts the components use.

  A C computation is a value of type \<open>'a option\<close>. \<open>None\<close> is a fault: an access outside a
  block, a null pointer that is followed, an overflow of a signed integer, an \<open>assert\<close> that
  fails or a call of \<open>SEGFAULT()\<close>. A theorem that an operation returns \<open>Some\<close> is therefore a
  memory-safety theorem. A pointer is an \<open>option\<close> too, \<open>None\<close> being \<open>NULL\<close>.
\<close>

unbundle bit_operations_syntax

named_theorems mem_simps \<open>reads and writes that stay inside their block\<close>
named_theorems char_facts \<open>facts about single characters\<close>

section \<open>Characters\<close>

abbreviation NUL :: char where "NUL \<equiv> CHR 0x00"
abbreviation CR :: char where "CR \<equiv> CHR 0x0D"
abbreviation LF :: char where "LF \<equiv> CHR 0x0A"
abbreviation TAB :: char where "TAB \<equiv> CHR 0x09"

abbreviation uchar :: "char \<Rightarrow> nat" where "uchar c \<equiv> (of_char c :: nat)"

text \<open>The value of a plain \<open>char\<close>, which is signed on the platforms lighttpd is built for.\<close>

definition schar :: "char \<Rightarrow> int" where
  "schar c = (if uchar c < 128 then int (uchar c) else int (uchar c) - 256)"

lemma uchar_less: "uchar c < 256"
  by (rule nat_of_char_less_256)

lemma uchar_inject: "uchar a = uchar b \<longleftrightarrow> a = b"
  by (metis char_of_char)

lemma schar_inject [simp]: "schar a = schar b \<longleftrightarrow> a = b"
proof
  assume eq: "schar a = schar b"
  with uchar_less [of a] uchar_less [of b] have "uchar a = uchar b"
    by (simp add: schar_def del: nat_of_char_less_256 split: if_splits)
  then show "a = b" by (simp only: uchar_inject)
qed simp

lemma schar_bounds: "-128 \<le> schar c" "schar c < 128"
  using uchar_less [of c] by (simp_all add: schar_def del: nat_of_char_less_256)

section \<open>Memory blocks\<close>

text \<open>
  The contents of fresh memory are not determined by C: every allocation takes a function
  \<open>g\<close> that says what the allocator leaves there, and every theorem holds for all \<open>g\<close>.
\<close>

type_synonym junk = "nat \<Rightarrow> char"

definition c_malloc :: "junk \<Rightarrow> nat \<Rightarrow> char list" where
  "c_malloc g n = map g [0..<n]"

definition c_realloc :: "junk \<Rightarrow> char list \<Rightarrow> nat \<Rightarrow> char list" where
  "c_realloc g m n = take n m @ map g [length m..<n]"

definition mem_get :: "'a list \<Rightarrow> nat \<Rightarrow> 'a option" where
  "mem_get m i = (if i < length m then Some (m ! i) else None)"

definition mem_set :: "'a list \<Rightarrow> nat \<Rightarrow> 'a \<Rightarrow> 'a list option" where
  "mem_set m i c = (if i < length m then Some (m[i := c]) else None)"

text \<open>\<open>mem_copy m off s\<close> is \<open>memcpy\<close> of the bytes \<open>s\<close> to offset \<open>off\<close> of block \<open>m\<close>;
  \<open>mem_read s n\<close> is the source side of it, the first \<open>n\<close> bytes at \<open>s\<close>.\<close>

definition mem_copy :: "'a list \<Rightarrow> nat \<Rightarrow> 'a list \<Rightarrow> 'a list option" where
  "mem_copy m off s =
     (if off + length s \<le> length m
      then Some (take off m @ s @ drop (off + length s) m) else None)"

definition mem_read :: "'a list \<Rightarrow> nat \<Rightarrow> 'a list option" where
  "mem_read s n = (if n \<le> length s then Some (take n s) else None)"

lemma length_c_malloc [simp]: "length (c_malloc g n) = n"
  by (simp add: c_malloc_def)

lemma length_c_realloc [simp]: "length (c_realloc g m n) = n"
  by (simp add: c_realloc_def)

lemma take_c_realloc [simp]: "k \<le> length m \<Longrightarrow> k \<le> n \<Longrightarrow> take k (c_realloc g m n) = take k m"
  by (simp add: c_realloc_def)

lemma nth_c_realloc [simp]: "k < length m \<Longrightarrow> k < n \<Longrightarrow> c_realloc g m n ! k = m ! k"
  by (simp add: c_realloc_def nth_append)

lemma mem_get_ok [mem_simps]: "i < length m \<Longrightarrow> mem_get m i = Some (m ! i)"
  by (simp add: mem_get_def)

lemma mem_set_ok [mem_simps]: "i < length m \<Longrightarrow> mem_set m i c = Some (m[i := c])"
  by (simp add: mem_set_def)

lemma mem_copy_ok [mem_simps]:
  "off + length s \<le> length m \<Longrightarrow> mem_copy m off s = Some (take off m @ s @ drop (off + length s) m)"
  by (simp add: mem_copy_def)

lemma mem_read_ok [mem_simps]: "n \<le> length s \<Longrightarrow> mem_read s n = Some (take n s)"
  by (simp add: mem_read_def)

lemma mem_copy_append [mem_simps]:
  "length s \<le> length r \<Longrightarrow> mem_copy (t @ r) (length t) s = Some (t @ s @ drop (length s) r)"
  by (simp add: mem_copy_def)

lemma mem_copy_front [mem_simps]:
  "length s \<le> length r \<Longrightarrow> mem_copy r 0 s = Some (s @ drop (length s) r)"
  by (simp add: mem_copy_def)

lemma mem_set_append [mem_simps]: "mem_set (t @ x # r) (length t) c = Some (t @ c # r)"
  by (simp add: mem_set_def list_update_append)

lemma mem_get_append [mem_simps]: "mem_get (t @ x # r) (length t) = Some x"
  by (simp add: mem_get_def)

lemma mem_get_drop: "drop i m = x # r \<Longrightarrow> mem_get m i = Some x"
  by (metis drop_all list.distinct(1) mem_get_def not_less nth_via_drop)

lemma mem_copy_length: "mem_copy m off s = Some m' \<Longrightarrow> length m' = length m"
  by (auto simp: mem_copy_def split: if_splits)

lemma take_update_at [simp]: "take i (m[i := c]) = take i m"
  by simp

section \<open>C strings\<close>

text \<open>\<open>c_strlen m\<close> is \<open>strlen\<close> on the block \<open>m\<close>: a fault when the block holds no NUL.
  \<open>c_str m\<close> is the string it delimits.\<close>

fun c_strlen :: "char list \<Rightarrow> nat option" where
  "c_strlen [] = None"
| "c_strlen (c # cs) = (if c = NUL then Some 0 else map_option Suc (c_strlen cs))"

definition c_str :: "char list \<Rightarrow> char list" where
  "c_str m = takeWhile (\<lambda>c. c \<noteq> NUL) m"

lemma c_strlen_Some: "NUL \<in> set m \<Longrightarrow> c_strlen m = Some (length (c_str m))"
  by (induction m) (auto simp: c_str_def)

lemma c_strlen_terminated [simp]: "NUL \<notin> set s \<Longrightarrow> c_strlen (s @ NUL # r) = Some (length s)"
  by (induction s) auto

lemma c_str_terminated [simp]: "NUL \<notin> set s \<Longrightarrow> c_str (s @ NUL # r) = s"
  by (induction s) (auto simp: c_str_def)

lemma c_str_no_NUL: "NUL \<notin> set s \<Longrightarrow> c_str s = s"
  by (induction s) (auto simp: c_str_def)

lemma NUL_notin_c_str [simp]: "NUL \<notin> set (c_str m)"
  by (auto simp: c_str_def dest: set_takeWhileD)

text \<open>\<open>strcmp (a, b) == 0\<close>, reading both blocks up to the first difference or NUL.\<close>

fun c_streq :: "char list \<Rightarrow> char list \<Rightarrow> bool option" where
  "c_streq (a # as) (b # bs) =
     (if a \<noteq> b then Some False else if a = NUL then Some True else c_streq as bs)"
| "c_streq _ _ = None"

text \<open>\<open>strncmp (a, b, n) == 0\<close>.\<close>

fun c_strneq :: "nat \<Rightarrow> char list \<Rightarrow> char list \<Rightarrow> bool option" where
  "c_strneq 0 _ _ = Some True"
| "c_strneq (Suc n) (a # as) (b # bs) =
     (if a \<noteq> b then Some False else if a = NUL then Some True else c_strneq n as bs)"
| "c_strneq (Suc n) _ _ = None"

lemma c_streq_terminated:
  "NUL \<notin> set s \<Longrightarrow> NUL \<notin> set t \<Longrightarrow> c_streq (s @ NUL # r) (t @ NUL # q) = Some (s = t)"
proof (induction s arbitrary: t)
  case Nil
  then show ?case by (cases t) auto
next
  case (Cons a s)
  then show ?case by (cases t) auto
qed

lemma c_streq_refl: "NUL \<in> set m \<Longrightarrow> c_streq m m = Some True"
  by (induction m) auto

lemma c_streq_conv:
  "NUL \<in> set a \<Longrightarrow> NUL \<in> set b \<Longrightarrow> c_streq a b = Some (c_str a = c_str b)"
proof (induction a b rule: c_streq.induct)
  case (1 a as b bs)
  then show ?case by (auto simp: c_str_def)
qed auto

section \<open>Lists and options\<close>

lemma bind_eq_Some [simp]: "Option.bind m f = Some y \<longleftrightarrow> (\<exists>x. m = Some x \<and> f x = Some y)"
  by (cases m) auto

lemma take_Suc_snoc: "n < length m \<Longrightarrow> take (Suc n) m = take n m @ [m ! n]"
  by (rule take_Suc_conv_app_nth)

lemma take_butlast_used:
  "0 < u \<Longrightarrow> u \<le> length m \<Longrightarrow> m ! (u - 1) = x \<Longrightarrow> take u m = take (u - 1) m @ [x]"
  using take_Suc_snoc [of "u - 1" m] by simp

lemma list_update_append_at: "(xs @ y # ys)[length xs := z] = xs @ z # ys"
  by (simp add: list_update_append)

end
