(* ===== verification/Buffer.thy ===== *)
theory Buffer
  imports Prelude
begin

text \<open>
  The string buffer of lighttpd (\<open>src/lighttpd-1.4.20/src/buffer.c\<close>, \<open>buffer.h\<close>): the
  structure, its allocation policy, copying, appending and comparing. A buffer is the record
  of its three fields; a buffer argument that the code tests against \<open>NULL\<close> is an \<open>option\<close>.
  The operations return the C result code together with the buffer as it is afterwards.

  \<open>buffer_wf\<close> is the allocation invariant, kept by every operation; \<open>buffer_ok\<close> adds the
  terminating NUL that string buffers have. \<open>buf_abs\<close> is what a buffer means to its clients:
  \<open>None\<close> for \<open>used = 0\<close> and the string in front of the terminator otherwise. The lemmas say
  that each operation, on every buffer that satisfies the invariant and for every content of
  fresh memory, stays inside its block and has the effect its specification says.
\<close>

section \<open>The structure and its allocation\<close>

record buffer =
  b_ptr :: "char list option"
  b_used :: nat
  b_size :: nat

type_synonym bufp = "buffer option"
type_synonym bufres = "(int \<times> bufp) option"

definition buffer_init :: buffer where
  "buffer_init = \<lparr>b_ptr = None, b_used = 0, b_size = 0\<rparr>"

definition BUFFER_MAX_REUSE_SIZE :: nat where
  "BUFFER_MAX_REUSE_SIZE = 4 * 1024"

definition buffer_reset :: "bufp \<Rightarrow> bufp option" where
  "buffer_reset bp = (case bp of
     None \<Rightarrow> Some None
   | Some b \<Rightarrow>
       if b_size b > BUFFER_MAX_REUSE_SIZE then
         Some (Some (b\<lparr>b_ptr := None, b_size := 0, b_used := 0\<rparr>))
       else if b_size b \<noteq> 0 then do {
         m \<leftarrow> b_ptr b;
         m' \<leftarrow> mem_set m 0 NUL;
         Some (Some (b\<lparr>b_ptr := Some m', b_used := 0\<rparr>))
       }
       else Some (Some (b\<lparr>b_used := 0\<rparr>)))"

definition BUFFER_PIECE_SIZE :: nat where
  "BUFFER_PIECE_SIZE = 64"

text \<open>\<open>b->size += BUFFER_PIECE_SIZE - (b->size % BUFFER_PIECE_SIZE)\<close>\<close>

definition round_piece :: "nat \<Rightarrow> nat" where
  "round_piece n = n + (BUFFER_PIECE_SIZE - n mod BUFFER_PIECE_SIZE)"

definition buffer_prepare_copy :: "junk \<Rightarrow> bufp \<Rightarrow> nat \<Rightarrow> bufres" where
  "buffer_prepare_copy g bp n = (case bp of
     None \<Rightarrow> Some (-1, None)
   | Some b \<Rightarrow>
       if b_size b = 0 \<or> n > b_size b then
         Some (0, Some (b\<lparr>b_size := round_piece n, b_ptr := Some (c_malloc g (round_piece n)), b_used := 0\<rparr>))
       else Some (0, Some (b\<lparr>b_used := 0\<rparr>)))"

definition buffer_prepare_append :: "junk \<Rightarrow> bufp \<Rightarrow> nat \<Rightarrow> bufres" where
  "buffer_prepare_append g bp n = (case bp of
     None \<Rightarrow> Some (-1, None)
   | Some b \<Rightarrow>
       if b_size b = 0 then
         Some (0, Some (b\<lparr>b_size := round_piece n, b_ptr := Some (c_malloc g (round_piece n)), b_used := 0\<rparr>))
       else if b_used b + n > b_size b then do {
         m \<leftarrow> b_ptr b;
         Some (0, Some (b\<lparr>b_size := round_piece (b_size b + n),
                          b_ptr := Some (c_realloc g m (round_piece (b_size b + n)))\<rparr>))
       }
       else Some (0, bp))"

section \<open>Copying\<close>

definition buffer_copy_string :: "junk \<Rightarrow> bufp \<Rightarrow> char list option \<Rightarrow> bufres" where
  "buffer_copy_string g bp s = (case (s, bp) of
     (Some str, Some b) \<Rightarrow> do {
       l \<leftarrow> c_strlen str;
       (_, bp1) \<leftarrow> buffer_prepare_copy g bp (l + 1);
       b1 \<leftarrow> bp1;
       m \<leftarrow> b_ptr b1;
       src \<leftarrow> mem_read str (l + 1);
       m' \<leftarrow> mem_copy m 0 src;
       Some (0, Some (b1\<lparr>b_ptr := Some m', b_used := l + 1\<rparr>))
     }
   | _ \<Rightarrow> Some (-1, bp))"

definition buffer_copy_string_len :: "junk \<Rightarrow> bufp \<Rightarrow> char list option \<Rightarrow> nat \<Rightarrow> bufres" where
  "buffer_copy_string_len g bp s s_len = (case (s, bp) of
     (Some str, Some b) \<Rightarrow> do {
       (_, bp1) \<leftarrow> buffer_prepare_copy g bp (s_len + 1);
       b1 \<leftarrow> bp1;
       m \<leftarrow> b_ptr b1;
       src \<leftarrow> mem_read str s_len;
       m1 \<leftarrow> mem_copy m 0 src;
       m2 \<leftarrow> mem_set m1 s_len NUL;
       Some (0, Some (b1\<lparr>b_ptr := Some m2, b_used := s_len + 1\<rparr>))
     }
   | _ \<Rightarrow> Some (-1, bp))"

definition buffer_copy_string_buffer :: "junk \<Rightarrow> bufp \<Rightarrow> bufp \<Rightarrow> bufres" where
  "buffer_copy_string_buffer g bp src = (case src of
     None \<Rightarrow> Some (-1, bp)
   | Some sb \<Rightarrow>
       if b_used sb = 0 then do { b \<leftarrow> bp; Some (0, Some (b\<lparr>b_used := 0\<rparr>)) }
       else buffer_copy_string_len g bp (b_ptr sb) (b_used sb - 1))"

definition buffer_init_buffer :: "junk \<Rightarrow> bufp \<Rightarrow> bufp option" where
  "buffer_init_buffer g src = do {
     (_, b) \<leftarrow> buffer_copy_string_buffer g (Some buffer_init) src;
     Some b
   }"

definition buffer_init_string :: "junk \<Rightarrow> char list option \<Rightarrow> bufp option" where
  "buffer_init_string g str = do {
     (_, b) \<leftarrow> buffer_copy_string g (Some buffer_init) str;
     Some b
   }"

section \<open>Appending\<close>

text \<open>The three appending functions share their first steps: make room, and turn an unused
  buffer into an empty string (\<open>if (b->used == 0) b->used++;\<close>).\<close>

definition append_room :: "junk \<Rightarrow> buffer \<Rightarrow> nat \<Rightarrow> buffer option" where
  "append_room g b n = do {
     (_, bp1) \<leftarrow> buffer_prepare_append g (Some b) n;
     b1 \<leftarrow> bp1;
     Some (if b_used b1 = 0 then b1\<lparr>b_used := 1\<rparr> else b1)
   }"

definition buffer_append_string :: "junk \<Rightarrow> bufp \<Rightarrow> char list option \<Rightarrow> bufres" where
  "buffer_append_string g bp s = (case (s, bp) of
     (Some str, Some b) \<Rightarrow> do {
       l \<leftarrow> c_strlen str;
       b1 \<leftarrow> append_room g b (l + 1);
       m \<leftarrow> b_ptr b1;
       src \<leftarrow> mem_read str (l + 1);
       m' \<leftarrow> mem_copy m (b_used b1 - 1) src;
       Some (0, Some (b1\<lparr>b_ptr := Some m', b_used := b_used b1 + l\<rparr>))
     }
   | _ \<Rightarrow> Some (-1, bp))"

definition buffer_append_string_rfill :: "junk \<Rightarrow> bufp \<Rightarrow> char list option \<Rightarrow> nat \<Rightarrow> bufres" where
  "buffer_append_string_rfill g bp s maxlen = (case (s, bp) of
     (Some str, Some b) \<Rightarrow> do {
       l \<leftarrow> c_strlen str;
       b1 \<leftarrow> append_room g b (maxlen + 1);
       m \<leftarrow> b_ptr b1;
       src \<leftarrow> mem_read str l;
       m1 \<leftarrow> mem_copy m (b_used b1 - 1) src;
       m2 \<leftarrow> (if maxlen > l
              then mem_copy m1 (b_used b1 - 1 + l) (replicate (maxlen - l) CHR '' '')
              else Some m1);
       m3 \<leftarrow> mem_set m2 (b_used b1 + maxlen - 1) NUL;
       Some (0, Some (b1\<lparr>b_ptr := Some m3, b_used := b_used b1 + maxlen\<rparr>))
     }
   | _ \<Rightarrow> Some (-1, bp))"

definition buffer_append_string_len :: "junk \<Rightarrow> bufp \<Rightarrow> char list option \<Rightarrow> nat \<Rightarrow> bufres" where
  "buffer_append_string_len g bp s s_len = (case (s, bp) of
     (Some str, Some b) \<Rightarrow>
       if s_len = 0 then Some (0, bp)
       else do {
         b1 \<leftarrow> append_room g b (s_len + 1);
         m \<leftarrow> b_ptr b1;
         src \<leftarrow> mem_read str s_len;
         m1 \<leftarrow> mem_copy m (b_used b1 - 1) src;
         m2 \<leftarrow> mem_set m1 (b_used b1 + s_len - 1) NUL;
         Some (0, Some (b1\<lparr>b_ptr := Some m2, b_used := b_used b1 + s_len\<rparr>))
       }
   | _ \<Rightarrow> Some (-1, bp))"

definition buffer_append_string_buffer :: "junk \<Rightarrow> bufp \<Rightarrow> bufp \<Rightarrow> bufres" where
  "buffer_append_string_buffer g bp src = (case src of
     None \<Rightarrow> Some (-1, bp)
   | Some sb \<Rightarrow>
       if b_used sb = 0 then Some (0, bp)
       else buffer_append_string_len g bp (b_ptr sb) (b_used sb - 1))"

definition buffer_append_memory :: "junk \<Rightarrow> bufp \<Rightarrow> char list option \<Rightarrow> nat \<Rightarrow> bufres" where
  "buffer_append_memory g bp s s_len = (case (s, bp) of
     (Some str, Some b) \<Rightarrow>
       if s_len = 0 then Some (0, bp)
       else do {
         (_, bp1) \<leftarrow> buffer_prepare_append g bp s_len;
         b1 \<leftarrow> bp1;
         m \<leftarrow> b_ptr b1;
         src \<leftarrow> mem_read str s_len;
         m1 \<leftarrow> mem_copy m (b_used b1) src;
         Some (0, Some (b1\<lparr>b_ptr := Some m1, b_used := b_used b1 + s_len\<rparr>))
       }
   | _ \<Rightarrow> Some (-1, bp))"

definition buffer_copy_memory :: "junk \<Rightarrow> bufp \<Rightarrow> char list option \<Rightarrow> nat \<Rightarrow> bufres" where
  "buffer_copy_memory g bp s s_len = (case (s, bp) of
     (Some str, Some b) \<Rightarrow> buffer_append_memory g (Some (b\<lparr>b_used := 0\<rparr>)) s s_len
   | _ \<Rightarrow> Some (-1, bp))"

text \<open>\<open>BUFFER_APPEND_SLASH\<close>\<close>

definition BUFFER_APPEND_SLASH :: "junk \<Rightarrow> buffer \<Rightarrow> buffer option" where
  "BUFFER_APPEND_SLASH g b =
     (if b_used b > 1 then do {
        m \<leftarrow> b_ptr b;
        c \<leftarrow> mem_get m (b_used b - 2);
        (if c \<noteq> CHR ''/'' then do {
           (_, bp) \<leftarrow> buffer_append_string_len g (Some b) (Some ''/'') 1;
           bp
         }
         else Some b)
      }
      else Some b)"

section \<open>Searching and comparing\<close>

definition buffer_is_empty :: "bufp \<Rightarrow> bool" where
  "buffer_is_empty bp = (case bp of None \<Rightarrow> True | Some b \<Rightarrow> b_used b = 0)"

definition buffer_is_equal :: "buffer \<Rightarrow> buffer \<Rightarrow> bool option" where
  "buffer_is_equal a b =
     (if b_used a \<noteq> b_used b then Some False
      else if b_used a = 0 then Some True
      else do { ma \<leftarrow> b_ptr a; mb \<leftarrow> b_ptr b; c_streq ma mb })"

definition buffer_is_equal_string :: "buffer \<Rightarrow> char list \<Rightarrow> nat \<Rightarrow> bool option" where
  "buffer_is_equal_string a s b_len =
     buffer_is_equal a \<lparr>b_ptr = Some s, b_used = b_len + 1, b_size = 0\<rparr>"

text \<open>The loop of \<open>buffer_search_string_len\<close>: the first offset from \<open>i\<close> on, below \<open>lim\<close>, at
  which \<open>memcmp\<close> finds the first \<open>len\<close> bytes of the needle.\<close>

function search_loop :: "char list \<Rightarrow> char list \<Rightarrow> nat \<Rightarrow> nat \<Rightarrow> nat \<Rightarrow> nat option option" where
  "search_loop m needle len i lim =
     (if i < lim then do {
        w \<leftarrow> mem_read (drop i m) len;
        p \<leftarrow> mem_read needle len;
        (if w = p then Some (Some i) else search_loop m needle len (Suc i) lim)
      }
      else Some None)"
  by pat_completeness auto
termination
  by (relation "measure (\<lambda>(m, needle, len, i, lim). lim - i)") auto

declare search_loop.simps [simp del]

definition buffer_search_string_len :: "buffer \<Rightarrow> char list option \<Rightarrow> nat \<Rightarrow> nat option option" where
  "buffer_search_string_len b needle len =
     (if len = 0 then Some None
      else case needle of
        None \<Rightarrow> Some None
      | Some nd \<Rightarrow>
          if b_used b < len then Some None
          else do {
            m \<leftarrow> b_ptr b;
            search_loop m nd len 0 (b_used b - len)
          })"

text \<open>The second test of \<open>b1->used - 1 < len || b1->used - 1 < len\<close> repeats the first one;
  the length of \<open>b2\<close> is not tested.\<close>

definition buffer_is_equal_right_len :: "buffer \<Rightarrow> buffer \<Rightarrow> nat \<Rightarrow> bool option" where
  "buffer_is_equal_right_len b1 b2 len =
     (if len = 0 then Some True
      else if b_used b1 = 0 \<or> b_used b2 = 0 then Some False
      else if b_used b1 - 1 < len \<or> b_used b1 - 1 < len then Some False
      else do {
        m1 \<leftarrow> b_ptr b1;
        m2 \<leftarrow> b_ptr b2;
        (if b_used b2 - 1 < len then None
         else c_strneq len (drop (b_used b1 - 1 - len) m1) (drop (b_used b2 - 1 - len) m2))
      })"

section \<open>Invariants and meaning\<close>

definition buffer_wf :: "buffer \<Rightarrow> bool" where
  "buffer_wf b = (case b_ptr b of
     None \<Rightarrow> b_size b = 0 \<and> b_used b = 0
   | Some m \<Rightarrow> 0 < b_size b \<and> length m = b_size b \<and> b_used b \<le> b_size b)"

definition buffer_ok :: "buffer \<Rightarrow> bool" where
  "buffer_ok b = (buffer_wf b \<and>
     (case b_ptr b of
        None \<Rightarrow> True
      | Some m \<Rightarrow> b_used b = 0 \<or> m ! (b_used b - 1) = NUL))"

type_synonym bstr = "string option"

definition buf_abs :: "buffer \<Rightarrow> bstr" where
  "buf_abs b = (if b_used b = 0 then None else map_option (take (b_used b - 1)) (b_ptr b))"

text \<open>The string of a buffer, with an unused buffer read as the empty string.\<close>

definition bs_str :: "bstr \<Rightarrow> string" where
  "bs_str bs = (case bs of None \<Rightarrow> [] | Some s \<Rightarrow> s)"

definition bs_append :: "bstr \<Rightarrow> string \<Rightarrow> bstr" where
  "bs_append bs s = (if s = [] then bs else Some (bs_str bs @ s))"

definition bs_append_buffer :: "bstr \<Rightarrow> bstr \<Rightarrow> bstr" where
  "bs_append_buffer bs src = bs_append bs (bs_str src)"

lemma bs_str_simps [simp]: "bs_str None = []" "bs_str (Some s) = s"
  by (simp_all add: bs_str_def)

lemma bs_str_append [simp]: "bs_str (bs_append bs s) = bs_str bs @ s"
  by (simp add: bs_append_def)

lemma buffer_ok_wf: "buffer_ok b \<Longrightarrow> buffer_wf b"
  by (simp add: buffer_ok_def)

lemma buffer_okI:
  assumes "b_ptr b = Some (t @ NUL # r)" "b_used b = length t + 1" "b_size b = length t + 1 + length r"
  shows "buffer_ok b" "buf_abs b = Some t"
  using assms by (simp_all add: buffer_ok_def buffer_wf_def buf_abs_def)

lemma buffer_okE:
  assumes "buffer_ok b" "b_used b > 0"
  obtains t r where "b_ptr b = Some (t @ NUL # r)" "b_used b = length t + 1"
    "b_size b = length t + 1 + length r" "buf_abs b = Some t"
proof -
  from assms obtain m where m: "b_ptr b = Some m" "length m = b_size b" "b_used b \<le> b_size b"
    and nul: "m ! (b_used b - 1) = NUL"
    by (auto simp: buffer_ok_def buffer_wf_def split: option.splits)
  let ?t = "take (b_used b - 1) m" and ?r = "drop (b_used b) m"
  from m assms(2) nul have eq: "m = ?t @ NUL # ?r"
    using id_take_nth_drop [of "b_used b - 1" m] by simp
  have len: "length ?t = b_used b - 1" "length ?r = b_size b - b_used b"
    using m(2,3) assms(2) by simp_all
  show thesis
  proof (rule that)
    show "b_ptr b = Some (?t @ NUL # ?r)"
      using m(1) eq by argo
    show "b_used b = length ?t + 1" "b_size b = length ?t + 1 + length ?r"
      using len m(3) assms(2) by simp_all
    show "buf_abs b = Some ?t"
      using m(1) assms(2) by (simp add: buf_abs_def)
  qed
qed

lemma buf_abs_SomeE:
  assumes "buffer_ok b" "buf_abs b = Some t"
  obtains r where "b_ptr b = Some (t @ NUL # r)" "b_used b = length t + 1"
    "b_size b = length t + 1 + length r"
proof -
  have "b_used b > 0"
    using assms(2) by (cases "b_used b") (simp_all add: buf_abs_def)
  then show thesis
    using buffer_okE [OF assms(1)] assms(2) that by (metis option.inject)
qed

lemma b_used_conv:
  assumes "buffer_ok b"
  shows "b_used b = (case buf_abs b of None \<Rightarrow> 0 | Some t \<Rightarrow> length t + 1)"
proof (cases "buf_abs b")
  case None
  then show ?thesis
    using assms by (auto simp: buf_abs_def buffer_ok_def buffer_wf_def split: option.splits if_splits)
next
  case (Some t)
  then show ?thesis using buf_abs_SomeE [OF assms Some] by simp
qed

lemma buf_abs_None_iff: "buffer_wf b \<Longrightarrow> buf_abs b = None \<longleftrightarrow> b_used b = 0"
  by (auto simp: buf_abs_def buffer_wf_def split: option.splits)

lemma buffer_init_ok: "buffer_ok buffer_init" "buf_abs buffer_init = None"
  by (simp_all add: buffer_ok_def buffer_wf_def buffer_init_def buf_abs_def)

lemma round_piece_greater: "n < round_piece n"
  by (simp add: round_piece_def BUFFER_PIECE_SIZE_def)

lemma round_piece_multiple: "round_piece n mod BUFFER_PIECE_SIZE = 0"
  unfolding round_piece_def BUFFER_PIECE_SIZE_def by presburger

section \<open>Allocation\<close>

lemma buffer_reset_spec:
  assumes "buffer_wf b"
  shows "\<exists>b'. buffer_reset (Some b) = Some (Some b') \<and> buffer_ok b' \<and> buf_abs b' = None"
proof (cases "b_ptr b")
  case None
  with assms show ?thesis
    by (auto simp: buffer_reset_def buffer_wf_def buffer_ok_def buf_abs_def)
next
  case (Some m)
  with assms show ?thesis
    by (auto simp: buffer_reset_def buffer_wf_def buffer_ok_def buf_abs_def mem_simps)
qed

lemma prepare_copy_spec:
  assumes "buffer_wf b"
  obtains b' m where "buffer_prepare_copy g (Some b) n = Some (0, Some b')"
    "b_ptr b' = Some m" "length m = b_size b'" "b_used b' = 0" "n \<le> b_size b'" "0 < b_size b'"
proof (cases "b_size b = 0 \<or> n > b_size b")
  case True
  then show thesis
    using that round_piece_greater [of n] by (simp add: buffer_prepare_copy_def less_imp_le)
next
  case False
  with assms obtain m where "b_ptr b = Some m" "length m = b_size b"
    by (auto simp: buffer_wf_def split: option.splits)
  with False show thesis
    using that by (simp add: buffer_prepare_copy_def)
qed

lemma prepare_append_spec:
  assumes "buffer_wf b"
  obtains b' m where "buffer_prepare_append g (Some b) n = Some (0, Some b')"
    "b_ptr b' = Some m" "length m = b_size b'" "b_used b' = b_used b"
    "b_used b + n \<le> b_size b'" "0 < b_size b'"
    "take (b_used b) m = take (b_used b) (the (b_ptr b))"
proof (cases "b_ptr b")
  case None
  with assms show thesis
    using that round_piece_greater [of n]
    by (simp add: buffer_prepare_append_def buffer_wf_def less_imp_le)
next
  case (Some m)
  with assms have wf: "length m = b_size b" "0 < b_size b" "b_used b \<le> b_size b"
    by (simp_all add: buffer_wf_def)
  show thesis
  proof (cases "b_used b + n > b_size b")
    case True
    have "b_size b + n < round_piece (b_size b + n)" by (rule round_piece_greater)
    with True Some wf show thesis
      using that by (simp add: buffer_prepare_append_def)
  next
    case False
    with Some wf show thesis
      using that by (simp add: buffer_prepare_append_def)
  qed
qed

lemma append_room_spec:
  assumes "buffer_ok b"
  obtains b' r where "append_room g b n = Some b'"
    "b_ptr b' = Some (bs_str (buf_abs b) @ r)" "b_used b' = length (bs_str (buf_abs b)) + 1"
    "b_size b' = length (bs_str (buf_abs b)) + length r" "n \<le> length r" "0 < b_size b'"
proof -
  obtain b1 m where p: "buffer_prepare_append g (Some b) n = Some (0, Some b1)"
    "b_ptr b1 = Some m" "length m = b_size b1" "b_used b1 = b_used b"
    "b_used b + n \<le> b_size b1" "0 < b_size b1"
    "take (b_used b) m = take (b_used b) (the (b_ptr b))"
    using prepare_append_spec [OF buffer_ok_wf [OF assms]] by blast
  show thesis
  proof (cases "b_used b = 0")
    case True
    then have "buf_abs b = None" by (simp add: buf_abs_def)
    with True p show thesis
      using that [of "b1\<lparr>b_used := 1\<rparr>" m] by (simp add: append_room_def)
  next
    case False
    then have "b_used b > 0" by simp
    then obtain t r where b: "b_ptr b = Some (t @ NUL # r)" "b_used b = length t + 1" "buf_abs b = Some t"
      using buffer_okE [OF assms] by blast
    have "take (length t) m = t"
    proof -
      have "take (length t) m = take (length t) (take (b_used b) m)"
        using b(2) by simp
      also have "\<dots> = take (length t) (take (b_used b) (the (b_ptr b)))"
        by (simp only: p(7))
      also have "\<dots> = t"
        using b by simp
      finally show ?thesis .
    qed
    then obtain r' where "m = t @ r'"
      by (metis append_take_drop_id)
    with False p b show thesis
      using that [of b1 r'] by (simp add: append_room_def)
  qed
qed

section \<open>What the string operations do\<close>

lemma buffer_copy_string_len_spec:
  assumes "buffer_wf b" "n \<le> length s"
  shows "\<exists>b'. buffer_copy_string_len g (Some b) (Some s) n = Some (0, Some b') \<and>
    buffer_ok b' \<and> buf_abs b' = Some (take n s)"
proof -
  obtain b1 m where p: "buffer_prepare_copy g (Some b) (n + 1) = Some (0, Some b1)"
    "b_ptr b1 = Some m" "length m = b_size b1" "n + 1 \<le> b_size b1"
    using prepare_copy_spec [OF assms(1)] by metis
  obtain x r where r: "drop n m = x # r"
    using p(3,4) by (cases "drop n m") auto
  then have "length m = n + 1 + length r"
    using p(3,4) by (metis Suc_eq_plus1 add.assoc add_leD1 le_add_diff_inverse length_Cons
        length_drop plus_1_eq_Suc add.commute)
  with p r assms(2) have "buffer_copy_string_len g (Some b) (Some s) n =
      Some (0, Some (b1\<lparr>b_ptr := Some (take n s @ NUL # r), b_used := n + 1\<rparr>))"
    using mem_set_append [of "take n s" x r NUL]
    by (simp add: buffer_copy_string_len_def mem_simps)
  moreover have "b_size b1 = n + 1 + length r"
    using p(3) \<open>length m = n + 1 + length r\<close> by simp
  ultimately show ?thesis
    using buffer_okI [of "b1\<lparr>b_ptr := Some (take n s @ NUL # r), b_used := n + 1\<rparr>" "take n s" r] assms(2)
    by simp
qed

lemma buffer_copy_string_spec:
  assumes "buffer_wf b" "NUL \<notin> set s"
  shows "\<exists>b'. buffer_copy_string g (Some b) (Some (s @ NUL # q)) = Some (0, Some b') \<and>
    buffer_ok b' \<and> buf_abs b' = Some s"
proof -
  obtain b1 m where p: "buffer_prepare_copy g (Some b) (length s + 1) = Some (0, Some b1)"
    "b_ptr b1 = Some m" "length m = b_size b1" "length s + 1 \<le> b_size b1"
    using prepare_copy_spec [OF assms(1)] by metis
  let ?b = "b1\<lparr>b_ptr := Some (s @ NUL # drop (length s + 1) m), b_used := length s + 1\<rparr>"
  from p assms(2) have "buffer_copy_string g (Some b) (Some (s @ NUL # q)) = Some (0, Some ?b)"
    using mem_copy_front [of "s @ [NUL]" m]
    by (simp add: buffer_copy_string_def mem_simps)
  then show ?thesis
    using buffer_okI [of ?b s "drop (length s + 1) m"] p by simp
qed

lemma buffer_append_string_len_spec:
  assumes "buffer_ok b" "n \<le> length s"
  shows "\<exists>b'. buffer_append_string_len g (Some b) (Some s) n = Some (0, Some b') \<and>
    buffer_ok b' \<and> buf_abs b' = bs_append (buf_abs b) (take n s)"
proof (cases "n = 0")
  case True
  with assms(1) show ?thesis by (simp add: buffer_append_string_len_def bs_append_def)
next
  case False
  let ?t = "bs_str (buf_abs b)"
  obtain b1 r where p: "append_room g b (n + 1) = Some b1"
    "b_ptr b1 = Some (?t @ r)" "b_used b1 = length ?t + 1"
    "b_size b1 = length ?t + length r" "n + 1 \<le> length r"
    using append_room_spec [OF assms(1)] by metis
  obtain x q where q: "drop n r = x # q" "length r = n + 1 + length q"
    using p(5) by (cases "drop n r") (auto dest: arg_cong [where f = length])
  let ?b = "b1\<lparr>b_ptr := Some ((?t @ take n s) @ NUL # q), b_used := length (?t @ take n s) + 1\<rparr>"
  have "buffer_append_string_len g (Some b) (Some s) n = Some (0, Some ?b)"
    using False p q assms(2) mem_set_append [of "?t @ take n s" x q NUL]
    by (simp add: buffer_append_string_len_def mem_simps)
  then show ?thesis
    using buffer_okI [of ?b "?t @ take n s" q] p q assms(2) False
    by (auto simp: bs_append_def)
qed

lemma buffer_append_string_spec:
  assumes "buffer_ok b" "NUL \<notin> set s"
  shows "\<exists>b'. buffer_append_string g (Some b) (Some (s @ NUL # q)) = Some (0, Some b') \<and>
    buffer_ok b' \<and> buf_abs b' = Some (bs_str (buf_abs b) @ s)"
proof -
  let ?t = "bs_str (buf_abs b)"
  obtain b1 r where p: "append_room g b (length s + 1) = Some b1"
    "b_ptr b1 = Some (?t @ r)" "b_used b1 = length ?t + 1"
    "b_size b1 = length ?t + length r" "length s + 1 \<le> length r"
    using append_room_spec [OF assms(1)] by metis
  let ?b = "b1\<lparr>b_ptr := Some ((?t @ s) @ NUL # drop (length s + 1) r), b_used := length (?t @ s) + 1\<rparr>"
  have "buffer_append_string g (Some b) (Some (s @ NUL # q)) = Some (0, Some ?b)"
    using p assms(2) mem_copy_append [of "s @ [NUL]" r ?t]
    by (simp add: buffer_append_string_def mem_simps)
  then show ?thesis
    using buffer_okI [of ?b "?t @ s" "drop (length s + 1) r"] p by simp
qed

lemma buffer_append_string_rfill_spec:
  assumes "buffer_ok b" "NUL \<notin> set s" "length s \<le> maxlen"
  shows "\<exists>b'. buffer_append_string_rfill g (Some b) (Some (s @ NUL # q)) maxlen = Some (0, Some b') \<and>
    buffer_ok b' \<and>
    buf_abs b' = Some (bs_str (buf_abs b) @ s @ replicate (maxlen - length s) CHR '' '')"
proof -
  let ?t = "bs_str (buf_abs b)"
  let ?f = "replicate (maxlen - length s) CHR '' ''"
  obtain b1 r where p: "append_room g b (maxlen + 1) = Some b1"
    "b_ptr b1 = Some (?t @ r)" "b_used b1 = length ?t + 1"
    "b_size b1 = length ?t + length r" "maxlen + 1 \<le> length r"
    using append_room_spec [OF assms(1)] by metis
  obtain x z where z: "drop maxlen r = x # z" "length r = maxlen + 1 + length z"
    using p(5) by (cases "drop maxlen r") (auto dest: arg_cong [where f = length])
  have fill: "(if length s < maxlen
      then mem_copy (?t @ s @ drop (length s) r) (length ?t + length s) ?f
      else Some (?t @ s @ drop (length s) r)) = Some ((?t @ s @ ?f) @ x # z)"
    using assms(3) p(5) z mem_copy_append [of ?f "drop (length s) r" "?t @ s"] by auto
  have set: "mem_set ((?t @ s @ ?f) @ x # z) (length ?t + maxlen) NUL = Some ((?t @ s @ ?f) @ NUL # z)"
    using mem_set_append [of "?t @ s @ ?f" x z NUL] assms(3) by simp
  let ?b = "b1\<lparr>b_ptr := Some ((?t @ s @ ?f) @ NUL # z), b_used := length (?t @ s @ ?f) + 1\<rparr>"
  have "buffer_append_string_rfill g (Some b) (Some (s @ NUL # q)) maxlen = Some (0, Some ?b)"
    using p assms(2,3) fill set z(1)
    by (simp add: buffer_append_string_rfill_def mem_simps list_update_append)
  then show ?thesis
    using buffer_okI [of ?b "?t @ s @ ?f" z] p z assms(3) by simp
qed

lemma buffer_copy_string_buffer_spec:
  assumes "buffer_wf b" "buffer_ok src"
  shows "\<exists>b'. buffer_copy_string_buffer g (Some b) (Some src) = Some (0, Some b') \<and>
    buffer_wf b' \<and> (buffer_ok b \<longrightarrow> buffer_ok b') \<and> buf_abs b' = buf_abs src"
proof (cases "b_used src = 0")
  case True
  with assms(1) show ?thesis
    by (auto simp: buffer_copy_string_buffer_def buffer_wf_def buffer_ok_def buf_abs_def split: option.splits)
next
  case False
  then obtain t r where s: "b_ptr src = Some (t @ NUL # r)" "b_used src = length t + 1" "buf_abs src = Some t"
    using buffer_okE [OF assms(2)] by (metis gr0I)
  have "\<exists>b'. buffer_copy_string_len g (Some b) (Some (t @ NUL # r)) (length t) = Some (0, Some b') \<and>
      buffer_ok b' \<and> buf_abs b' = Some (take (length t) (t @ NUL # r))"
    by (rule buffer_copy_string_len_spec [OF assms(1)]) simp
  with s False show ?thesis
    by (auto simp: buffer_copy_string_buffer_def buffer_ok_wf)
qed

lemma buffer_append_string_buffer_spec:
  assumes "buffer_ok b" "buffer_ok src"
  shows "\<exists>b'. buffer_append_string_buffer g (Some b) (Some src) = Some (0, Some b') \<and>
    buffer_ok b' \<and> buf_abs b' = bs_append_buffer (buf_abs b) (buf_abs src)"
proof (cases "b_used src = 0")
  case True
  with assms(1) show ?thesis
    by (simp add: buffer_append_string_buffer_def buf_abs_def bs_append_buffer_def bs_append_def)
next
  case False
  then obtain t r where s: "b_ptr src = Some (t @ NUL # r)" "b_used src = length t + 1" "buf_abs src = Some t"
    using buffer_okE [OF assms(2)] by (metis gr0I)
  have "\<exists>b'. buffer_append_string_len g (Some b) (Some (t @ NUL # r)) (length t) = Some (0, Some b') \<and>
      buffer_ok b' \<and> buf_abs b' = bs_append (buf_abs b) (take (length t) (t @ NUL # r))"
    by (rule buffer_append_string_len_spec [OF assms(1)]) simp
  with s False show ?thesis
    by (auto simp: buffer_append_string_buffer_def bs_append_buffer_def)
qed

lemma buffer_append_memory_spec:
  assumes "buffer_wf b" "n \<le> length s" "0 < n"
  shows "\<exists>b' m. buffer_append_memory g (Some b) (Some s) n = Some (0, Some b') \<and> buffer_wf b' \<and>
    b_ptr b' = Some m \<and> b_used b' = b_used b + n \<and>
    take (b_used b') m = take (b_used b) (the (b_ptr b)) @ take n s"
proof -
  obtain b1 m where p: "buffer_prepare_append g (Some b) n = Some (0, Some b1)"
    "b_ptr b1 = Some m" "length m = b_size b1" "b_used b1 = b_used b"
    "b_used b + n \<le> b_size b1" "0 < b_size b1"
    "take (b_used b) m = take (b_used b) (the (b_ptr b))"
    using prepare_append_spec [OF assms(1)] by blast
  moreover have "b_used b \<le> length (the (b_ptr b))"
    using assms(1) by (auto simp: buffer_wf_def split: option.splits)
  ultimately show ?thesis
    using assms(2,3) by (simp add: buffer_append_memory_def buffer_wf_def mem_simps)
qed

section \<open>Appending a slash, comparing and searching\<close>

lemma BUFFER_APPEND_SLASH_spec:
  assumes "buffer_ok b"
  shows "\<exists>b'. BUFFER_APPEND_SLASH g b = Some b' \<and> buffer_ok b' \<and>
    buf_abs b' = (case buf_abs b of
        None \<Rightarrow> None
      | Some t \<Rightarrow> Some (if t = [] \<or> last t = CHR ''/'' then t else t @ ''/''))"
proof (cases "b_used b > 1")
  case False
  show ?thesis
  proof (cases "b_used b = 0")
    case True
    with assms show ?thesis by (simp add: BUFFER_APPEND_SLASH_def buf_abs_def)
  next
    case False
    then obtain t r where "b_used b = length t + 1" "buf_abs b = Some t"
      using buffer_okE [OF assms] by (metis gr0I)
    with \<open>\<not> 1 < b_used b\<close> assms show ?thesis by (simp add: BUFFER_APPEND_SLASH_def)
  qed
next
  case True
  then obtain t r where b: "b_ptr b = Some (t @ NUL # r)" "b_used b = length t + 1" "buf_abs b = Some t"
    using buffer_okE [OF assms] by (metis less_trans zero_less_one)
  from True b have t: "t \<noteq> []" by auto
  then have get: "mem_get (t @ NUL # r) (length t - 1) = Some (last t)"
    by (simp add: mem_get_def nth_append last_conv_nth)
  obtain b' where "buffer_append_string_len g (Some b) (Some ''/'') 1 = Some (0, Some b')"
    "buffer_ok b'" "buf_abs b' = bs_append (buf_abs b) (take 1 ''/'')"
    using buffer_append_string_len_spec [OF assms, of 1 "''/''" g] by auto
  with True b t get assms show ?thesis
    by (simp add: BUFFER_APPEND_SLASH_def bs_append_def)
qed

lemma buffer_is_equal_spec:
  assumes "buffer_ok a" "buffer_ok b"
  shows "buffer_is_equal a b =
    Some (b_used a = b_used b \<and> c_str (bs_str (buf_abs a)) = c_str (bs_str (buf_abs b)))"
proof (cases "b_used a = b_used b \<and> b_used a \<noteq> 0")
  case False
  then show ?thesis by (auto simp: buffer_is_equal_def buf_abs_def)
next
  case True
  then obtain s q where a: "b_ptr a = Some (s @ NUL # q)" "buf_abs a = Some s"
    using buffer_okE [OF assms(1)] by (metis gr0I)
  from True obtain t r where b: "b_ptr b = Some (t @ NUL # r)" "buf_abs b = Some t"
    using buffer_okE [OF assms(2)] by (metis gr0I)
  have "c_str (u @ NUL # v) = c_str u" for u v
    by (induction u) (auto simp: c_str_def)
  with True a b show ?thesis
    by (simp add: buffer_is_equal_def c_streq_conv)
qed

lemma buffer_is_equal_strings:
  assumes "buffer_ok a" "buffer_ok b" "NUL \<notin> set (bs_str (buf_abs a))" "NUL \<notin> set (bs_str (buf_abs b))"
  shows "buffer_is_equal a b = Some (buf_abs a = buf_abs b)"
  using assms by (auto simp: buffer_is_equal_spec b_used_conv c_str_no_NUL split: option.splits)

lemma search_loop_spec:
  assumes "i < lim \<Longrightarrow> lim + len \<le> length m + 1" "len \<le> length nd"
  shows "search_loop m nd len i lim =
    Some (find (\<lambda>k. take len (drop k m) = take len nd) [i..<lim])"
  using assms
proof (induction m nd len i lim rule: search_loop.induct)
  case (1 m nd len i lim)
  show ?case
  proof (cases "i < lim")
    case True
    with 1 have "len \<le> length (drop i m)" by simp
    with True 1 show ?thesis
      by (simp add: search_loop.simps [of m nd len i lim] mem_simps upt_conv_Cons)
  next
    case False
    then show ?thesis by (simp add: search_loop.simps [of m nd len i lim])
  qed
qed

lemma buffer_search_string_len_spec:
  assumes "buffer_ok b" "0 < len" "len \<le> length nd"
  shows "buffer_search_string_len b (Some nd) len =
    Some (find (\<lambda>k. take len (drop k (bs_str (buf_abs b))) = take len nd)
           [0..<b_used b - len])"
proof (cases "b_used b < len")
  case True
  with assms show ?thesis by (simp add: buffer_search_string_len_def)
next
  case False
  with assms(2) obtain t r where b: "b_ptr b = Some (t @ NUL # r)" "b_used b = length t + 1" "buf_abs b = Some t"
    using buffer_okE [OF assms(1)] by (metis gr0I not_less_iff_gr_or_eq)
  have "search_loop (t @ NUL # r) nd len 0 (b_used b - len) =
      Some (find (\<lambda>k. take len (drop k (t @ NUL # r)) = take len nd) [0..<b_used b - len])"
    by (rule search_loop_spec) (use assms(3) b False in auto)
  moreover have "find (\<lambda>k. take len (drop k (t @ NUL # r)) = take len nd) [0..<b_used b - len] =
      find (\<lambda>k. take len (drop k t) = take len nd) [0..<b_used b - len]"
    by (rule find_cong) (use b in auto)
  ultimately show ?thesis
    using False assms(2) b by (simp add: buffer_search_string_len_def)
qed

text \<open>The right-hand comparison is correct when the second buffer is long enough; otherwise the
  code compares from an address in front of the second block.\<close>

lemma c_strneq_full:
  "n \<le> length a \<Longrightarrow> n \<le> length b \<Longrightarrow> NUL \<notin> set (take n a) \<Longrightarrow>
    c_strneq n a b = Some (take n a = take n b)"
  by (induction n a b rule: c_strneq.induct) auto

lemma buffer_is_equal_right_len_spec:
  assumes "buffer_ok b1" "buffer_ok b2" "buf_abs b1 = Some s" "buf_abs b2 = Some t"
    and "NUL \<notin> set s" "len \<le> length t"
  shows "buffer_is_equal_right_len b1 b2 len =
    Some (len \<le> length s \<and> drop (length s - len) s = drop (length t - len) t)"
proof -
  obtain q where b1: "b_ptr b1 = Some (s @ NUL # q)" "b_used b1 = length s + 1"
    using buf_abs_SomeE [OF assms(1,3)] .
  obtain r where b2: "b_ptr b2 = Some (t @ NUL # r)" "b_used b2 = length t + 1"
    using buf_abs_SomeE [OF assms(2,4)] .
  show ?thesis
  proof (cases "len \<le> length s")
    case True
    with b1 b2 assms(5,6) show ?thesis
      using c_strneq_full [of len "drop (length s - len) (s @ NUL # q)" "drop (length t - len) (t @ NUL # r)"]
      by (auto simp: buffer_is_equal_right_len_def dest: in_set_dropD)
  next
    case False
    with b1 b2 show ?thesis by (auto simp: buffer_is_equal_right_len_def)
  qed
qed

lemma buffer_is_equal_right_len_fault:
  assumes "buffer_ok b1" "buffer_ok b2" "buf_abs b1 = Some s" "buf_abs b2 = Some t"
    and "length t < len" "len \<le> length s"
  shows "buffer_is_equal_right_len b1 b2 len = None"
proof -
  obtain q where b1: "b_ptr b1 = Some (s @ NUL # q)" "b_used b1 = length s + 1"
    using buf_abs_SomeE [OF assms(1,3)] .
  obtain r where b2: "b_ptr b2 = Some (t @ NUL # r)" "b_used b2 = length t + 1"
    using buf_abs_SomeE [OF assms(2,4)] .
  from b1 b2 assms(5,6) show ?thesis by (simp add: buffer_is_equal_right_len_def)
qed

section \<open>Arrays of buffers\<close>

text \<open>\<open>buffer_array\<close>: a growing array of buffer pointers whose buffers are kept for reuse. The
  buffer that \<open>buffer_array_append_get_buffer\<close> returns is named by its index.\<close>

record buffer_array =
  ba_ptr :: "bufp list option"
  ba_used :: nat
  ba_size :: nat

definition buffer_array_init :: buffer_array where
  "buffer_array_init = \<lparr>ba_ptr = None, ba_used = 0, ba_size = 0\<rparr>"

fun ba_reset_loop :: "nat \<Rightarrow> bufp list \<Rightarrow> bufp list option" where
  "ba_reset_loop 0 cells = Some cells"
| "ba_reset_loop (Suc n) [] = None"
| "ba_reset_loop (Suc n) (c # cs) = do {
     c' \<leftarrow> buffer_reset c;
     cs' \<leftarrow> ba_reset_loop n cs;
     Some (c' # cs')
   }"

definition buffer_array_reset :: "buffer_array option \<Rightarrow> buffer_array option option" where
  "buffer_array_reset bp = (case bp of
     None \<Rightarrow> Some None
   | Some b \<Rightarrow> do {
       cells \<leftarrow> (case ba_ptr b of
                   None \<Rightarrow> (if ba_used b = 0 then Some None else None)
                 | Some p \<Rightarrow> map_option Some (ba_reset_loop (ba_used b) p));
       Some (Some (b\<lparr>ba_ptr := cells, ba_used := 0\<rparr>))
     })"

text \<open>The first half of \<open>buffer_array_append_get_buffer\<close> makes room for one more pointer.\<close>

definition ba_grow :: "buffer_array \<Rightarrow> buffer_array option" where
  "ba_grow b =
     (if ba_size b = 0 then
        Some (b\<lparr>ba_size := 16, ba_ptr := Some (replicate 16 None)\<rparr>)
      else if ba_size b = ba_used b then do {
        p \<leftarrow> ba_ptr b;
        Some (b\<lparr>ba_size := ba_size b + 16, ba_ptr := Some (take (ba_used b) p @ replicate 16 None)\<rparr>)
      }
      else Some b)"

definition buffer_array_append_get_buffer :: "buffer_array \<Rightarrow> (nat \<times> buffer_array) option" where
  "buffer_array_append_get_buffer b = do {
     b1 \<leftarrow> ba_grow b;
     p \<leftarrow> ba_ptr b1;
     cell \<leftarrow> mem_get p (ba_used b1);
     p' \<leftarrow> mem_set p (ba_used b1)
             (Some ((case cell of None \<Rightarrow> buffer_init | Some c \<Rightarrow> c)\<lparr>b_used := 0\<rparr>));
     Some (ba_used b1, b1\<lparr>ba_ptr := Some p', ba_used := ba_used b1 + 1\<rparr>)
   }"

definition buffer_array_wf :: "buffer_array \<Rightarrow> bool" where
  "buffer_array_wf b = (case ba_ptr b of
     None \<Rightarrow> ba_size b = 0 \<and> ba_used b = 0
   | Some p \<Rightarrow> 0 < ba_size b \<and> length p = ba_size b \<and> ba_used b \<le> ba_size b \<and>
       list_all (\<lambda>c. case c of None \<Rightarrow> True | Some x \<Rightarrow> buffer_wf x) p)"

lemma buffer_wf_unused: "buffer_wf b \<Longrightarrow> buffer_ok (b\<lparr>b_used := 0\<rparr>)"
  by (auto simp: buffer_wf_def buffer_ok_def split: option.splits)

lemma ba_reset_loop_spec:
  assumes "n \<le> length p" "list_all (\<lambda>c. case c of None \<Rightarrow> True | Some x \<Rightarrow> buffer_wf x) p"
  shows "\<exists>p'. ba_reset_loop n p = Some p' \<and> length p' = length p \<and> drop n p' = drop n p \<and>
    list_all (\<lambda>c. case c of None \<Rightarrow> True | Some x \<Rightarrow> buffer_wf x) p'"
  using assms
proof (induction n p rule: ba_reset_loop.induct)
  case (3 n c cs)
  obtain c' where "buffer_reset c = Some c'" "case c' of None \<Rightarrow> True | Some x \<Rightarrow> buffer_wf x"
  proof (cases c)
    case None
    then show thesis using that by (simp add: buffer_reset_def)
  next
    case (Some x)
    then show thesis
      using that buffer_reset_spec [of x] 3(3) by (auto simp: buffer_ok_wf)
  qed
  with 3 show ?case by auto
qed auto

lemma ba_grow_spec:
  assumes "buffer_array_wf b"
  obtains b1 q where "ba_grow b = Some b1" "ba_ptr b1 = Some q" "ba_used b1 = ba_used b"
    "ba_size b1 = length q" "ba_used b < length q"
    "list_all (\<lambda>c. case c of None \<Rightarrow> True | Some x \<Rightarrow> buffer_wf x) q"
    "take (ba_used b) q = take (ba_used b) (case ba_ptr b of None \<Rightarrow> [] | Some p \<Rightarrow> p)"
proof (cases "ba_ptr b")
  case None
  with assms show thesis
    using that [of "b\<lparr>ba_size := 16, ba_ptr := Some (replicate 16 None)\<rparr>" "replicate 16 None"]
    by (simp add: ba_grow_def buffer_array_wf_def list_all_iff)
next
  case (Some p)
  with assms have wf: "length p = ba_size b" "0 < ba_size b" "ba_used b \<le> ba_size b"
    "list_all (\<lambda>c. case c of None \<Rightarrow> True | Some x \<Rightarrow> buffer_wf x) p"
    by (simp_all add: buffer_array_wf_def)
  show thesis
  proof (cases "ba_size b = ba_used b")
    case True
    let ?q = "p @ replicate 16 None"
    have "ba_grow b = Some (b\<lparr>ba_size := ba_size b + 16, ba_ptr := Some ?q\<rparr>)"
      using True wf(1,2) Some by (simp add: ba_grow_def)
    then show thesis
      by (rule that [of _ ?q]) (use True wf Some in \<open>simp_all add: list_all_iff\<close>)
  next
    case False
    then have "ba_grow b = Some b"
      using wf(2) by (simp add: ba_grow_def)
    then show thesis
      by (rule that [of _ p]) (use False wf Some in simp_all)
  qed
qed

lemma buffer_array_append_get_buffer_spec:
  assumes "buffer_array_wf b"
  shows "\<exists>b' p' x. buffer_array_append_get_buffer b = Some (ba_used b, b') \<and> buffer_array_wf b' \<and>
    ba_used b' = ba_used b + 1 \<and> ba_ptr b' = Some p' \<and>
    p' ! ba_used b = Some x \<and> buffer_ok x \<and> buf_abs x = None \<and>
    take (ba_used b) p' = take (ba_used b) (case ba_ptr b of None \<Rightarrow> [] | Some p \<Rightarrow> p)"
proof -
  obtain b1 q where g: "ba_grow b = Some b1" "ba_ptr b1 = Some q" "ba_used b1 = ba_used b"
    "ba_size b1 = length q" "ba_used b < length q"
    and all: "list_all (\<lambda>c. case c of None \<Rightarrow> True | Some x \<Rightarrow> buffer_wf x) q"
    and tq: "take (ba_used b) q = take (ba_used b) (case ba_ptr b of None \<Rightarrow> [] | Some p \<Rightarrow> p)"
    using ba_grow_spec [OF assms] by metis
  define x where "x = (case q ! ba_used b of None \<Rightarrow> buffer_init | Some c \<Rightarrow> c)\<lparr>b_used := 0\<rparr>"
  have "case q ! ba_used b of None \<Rightarrow> True | Some x \<Rightarrow> buffer_wf x"
    using all g(5) by (simp add: list_all_length)
  then have x: "buffer_ok x" "buf_abs x = None"
    using buffer_init_ok(1)
    by (auto simp: x_def buf_abs_def buffer_wf_unused buffer_ok_wf split: option.splits)
  let ?b = "b1\<lparr>ba_ptr := Some (q[ba_used b := Some x]), ba_used := ba_used b + 1\<rparr>"
  have "buffer_array_append_get_buffer b = Some (ba_used b, ?b)"
    using g by (simp add: buffer_array_append_get_buffer_def x_def mem_simps)
  moreover have "buffer_array_wf ?b"
    using g all x(1) buffer_ok_wf by (auto simp: buffer_array_wf_def list_all_length nth_list_update)
  ultimately show ?thesis
    using g x tq by auto
qed

section \<open>The interface of a string buffer\<close>

fun write_all :: "('b \<Rightarrow> string \<Rightarrow> 'b option) \<Rightarrow> 'b \<Rightarrow> string list \<Rightarrow> 'b option" where
  "write_all app b [] = Some b"
| "write_all app b (s # ss) = do { b1 \<leftarrow> app b s; write_all app b1 ss }"

text \<open>What the rest of the server relies on: \<open>copy\<close> sets the string of a buffer, \<open>app\<close> extends
  it, and neither fails on a buffer that is \<open>ok\<close>.\<close>

locale string_buffer =
  fixes ok :: "'b \<Rightarrow> bool" and meaning :: "'b \<Rightarrow> bstr"
    and copy :: "'b \<Rightarrow> string \<Rightarrow> 'b option" and app :: "'b \<Rightarrow> string \<Rightarrow> 'b option"
  assumes copy_law: "ok b \<Longrightarrow> \<exists>b'. copy b s = Some b' \<and> ok b' \<and> meaning b' = Some s"
    and append_law: "ok b \<Longrightarrow> \<exists>b'. app b s = Some b' \<and> ok b' \<and> meaning b' = bs_append (meaning b) s"
begin

lemma write_all_law:
  assumes "ok b"
  shows "\<exists>b'. write_all app b ss = Some b' \<and> ok b' \<and> meaning b' = foldl bs_append (meaning b) ss"
  using assms
proof (induction ss arbitrary: b)
  case (Cons s ss)
  obtain b1 where "app b s = Some b1" "ok b1" "meaning b1 = bs_append (meaning b) s"
    using append_law [OF Cons.prems] by blast
  with Cons.IH [of b1] show ?case by simp
qed simp

lemma copy_write_all_law:
  assumes "ok b"
  shows "\<exists>b'. (copy b s \<bind> (\<lambda>b1. write_all app b1 ss)) = Some b' \<and> ok b' \<and>
    meaning b' = Some (s @ concat ss)"
proof -
  have fold: "foldl bs_append (Some t) ss = Some (t @ concat ss)" for t
    by (induction ss arbitrary: t) (auto simp: bs_append_def)
  obtain b1 where "copy b s = Some b1" "ok b1" "meaning b1 = Some s"
    using copy_law [OF assms] by blast
  with write_all_law [of b1 ss] show ?thesis by (simp add: fold)
qed

end

definition buf_copy :: "junk \<Rightarrow> buffer \<Rightarrow> string \<Rightarrow> buffer option" where
  "buf_copy g b s = do { (_, bp) \<leftarrow> buffer_copy_string_len g (Some b) (Some s) (length s); bp }"

definition buf_append :: "junk \<Rightarrow> buffer \<Rightarrow> string \<Rightarrow> buffer option" where
  "buf_append g b s = do { (_, bp) \<leftarrow> buffer_append_string_len g (Some b) (Some s) (length s); bp }"

interpretation sb: string_buffer buffer_ok buf_abs "buf_copy g" "buf_append g" for g
proof
  fix b s assume ok: "buffer_ok b"
  show "\<exists>b'. buf_copy g b s = Some b' \<and> buffer_ok b' \<and> buf_abs b' = Some s"
    using buffer_copy_string_len_spec [OF buffer_ok_wf [OF ok], of "length s" s g]
    by (auto simp: buf_copy_def)
  show "\<exists>b'. buf_append g b s = Some b' \<and> buffer_ok b' \<and> buf_abs b' = bs_append (buf_abs b) s"
    using buffer_append_string_len_spec [OF ok, of "length s" s g]
    by (auto simp: buf_append_def)
qed

section \<open>Properties\<close>

text \<open>A buffer that holds a given string in a block of exactly its size, for the examples.\<close>

definition mkbuf :: "string \<Rightarrow> buffer" where
  "mkbuf s = \<lparr>b_ptr = Some (s @ [NUL]), b_used = length s + 1, b_size = length s + 1\<rparr>"

lemma mkbuf_ok [simp]: "buffer_ok (mkbuf s)" "buffer_wf (mkbuf s)" "buf_abs (mkbuf s) = Some s"
  by (simp_all add: mkbuf_def buffer_ok_def buffer_wf_def buf_abs_def)

text \<open>C32. Composing a string in a buffer, a copy followed by any number of appends, is safe and
  exact: from every buffer that satisfies the invariant, whatever fresh memory contains, no step
  leaves its block, the invariant holds again and the buffer holds the concatenation.\<close>

theorem buffer_compose:
  assumes "buffer_ok b"
  shows "\<exists>b'. (buf_copy g b s \<bind> (\<lambda>b1. write_all (buf_append g) b1 ss)) = Some b' \<and> buffer_ok b' \<and>
    buf_abs b' = Some (s @ concat ss)"
  using assms by (rule sb.copy_write_all_law)

theorem buffer_compose_witness:
  "\<exists>b'. (buf_copy (\<lambda>_. CHR ''x'') (mkbuf ''old'') ''GET '' \<bind>
      (\<lambda>b1. write_all (buf_append (\<lambda>_. CHR ''x'')) b1 [''/index'', ''.html''])) = Some b' \<and>
    buffer_ok b' \<and> buf_abs b' = Some ''GET /index.html''"
  using buffer_compose [of "mkbuf ''old''" "\<lambda>_. CHR ''x''" "''GET ''" "[''/index'', ''.html'']"] by simp

text \<open>Appending one buffer to another refines concatenation of what they mean, with the
  special role of an unused buffer: nothing is appended and the target stays as it is.\<close>

theorem buffer_append_buffer_refines:
  assumes "buffer_ok b" "buffer_ok src"
  shows "\<exists>b'. buffer_append_string_buffer g (Some b) (Some src) = Some (0, Some b') \<and> buffer_ok b' \<and>
    buf_abs b' = (case buf_abs src of None \<Rightarrow> buf_abs b | Some t \<Rightarrow>
      if t = [] then buf_abs b else Some (bs_str (buf_abs b) @ t))"
  using buffer_append_string_buffer_spec [OF assms, of g]
  by (auto simp: bs_append_buffer_def bs_append_def split: option.splits)

theorem buffer_append_buffer_refines_witness:
  "\<exists>b'. buffer_append_string_buffer (\<lambda>_. NUL) (Some (mkbuf ''ab'')) (Some (mkbuf ''cd'')) = Some (0, Some b') \<and>
    buffer_ok b' \<and> buf_abs b' = Some ''abcd''"
  using buffer_append_buffer_refines [of "mkbuf ''ab''" "mkbuf ''cd''" "\<lambda>_. NUL"] by simp

text \<open>\<open>buffer_search_string_len\<close> returns the first offset at which the needle occurs in the
  string of the buffer, and nothing when it does not occur; it never reads outside the block.\<close>

theorem buffer_search_first:
  assumes "buffer_ok b" "buf_abs b = Some s" "nd \<noteq> []" "length nd \<le> length s"
  shows "buffer_search_string_len b (Some nd) (length nd) =
    Some (find (\<lambda>k. take (length nd) (drop k s) = nd) [0..<length s + 1 - length nd])"
  using buffer_search_string_len_spec [OF assms(1), of "length nd" nd] b_used_conv [OF assms(1)] assms
  by simp

theorem buffer_search_first_witness:
  "buffer_search_string_len (mkbuf ''abcbc'') (Some ''bc'') 2 = Some (Some 1)"
  using buffer_search_first [of "mkbuf ''abcbc''" "''abcbc''" "''bc''"] by (simp add: upt_rec numeral_2_eq_2)

end
