(* ===== verification/Caseless.thy ===== *)
theory Caseless
  imports Buffer
begin

text \<open>
  Character classes (\<open>light_isdigit\<close> and its relatives, \<open>buffer_to_lower\<close>, \<open>buffer_to_upper\<close>)
  and the case-insensitive comparison \<open>buffer_caseless_compare\<close> of \<open>buffer.c\<close>, on which the
  arrays of the server sort their keys. The comparison has a word-at-a-time fast path whose use
  depends on the alignment of the two pointers; the lemmas show that alignment never changes the
  result, that the result is zero exactly for strings equal up to ASCII case, and on which
  strings the comparison is a total preorder.
\<close>

section \<open>Character classes\<close>

definition light_isdigit :: "int \<Rightarrow> bool" where
  "light_isdigit c = (c \<ge> 48 \<and> c \<le> 57)"

definition light_isxdigit :: "int \<Rightarrow> bool" where
  "light_isxdigit c = (if light_isdigit c then True else (let c = c OR 32 in c \<ge> 97 \<and> c \<le> 102))"

definition light_isalpha :: "int \<Rightarrow> bool" where
  "light_isalpha c = (let c = c OR 32 in c \<ge> 97 \<and> c \<le> 122)"

definition light_isalnum :: "int \<Rightarrow> bool" where
  "light_isalnum c = (light_isdigit c \<or> light_isalpha c)"

text \<open>\<open>*c |= 32\<close> and \<open>*c &= ~32\<close> on a \<open>char\<close>.\<close>

definition char_or32 :: "char \<Rightarrow> char" where
  "char_or32 c = char_of (uchar c OR 32)"

definition char_and_not32 :: "char \<Rightarrow> char" where
  "char_and_not32 c = char_of (uchar c AND 223)"

definition is_upper :: "char \<Rightarrow> bool" where
  "is_upper c = (schar c \<ge> 65 \<and> schar c \<le> 90)"

definition is_lower :: "char \<Rightarrow> bool" where
  "is_lower c = (schar c \<ge> 97 \<and> schar c \<le> 122)"

definition lower_char :: "char \<Rightarrow> char" where
  "lower_char c = (if is_upper c then char_or32 c else c)"

definition upper_char :: "char \<Rightarrow> char" where
  "upper_char c = (if is_lower c then char_and_not32 c else c)"

text \<open>The loop \<open>for (c = b->ptr; *c; c++)\<close> of \<open>buffer_to_lower\<close> and \<open>buffer_to_upper\<close>, with the
  change of one character as the parameter \<open>f\<close>.\<close>

fun case_loop :: "(char \<Rightarrow> char) \<Rightarrow> char list \<Rightarrow> char list option" where
  "case_loop f [] = None"
| "case_loop f (c # cs) = (if c = NUL then Some (c # cs) else map_option (Cons (f c)) (case_loop f cs))"

definition buffer_to_lower :: "buffer \<Rightarrow> buffer option" where
  "buffer_to_lower b =
     (if b_used b = 0 then Some b
      else do { m \<leftarrow> b_ptr b; m' \<leftarrow> case_loop lower_char m; Some (b\<lparr>b_ptr := Some m'\<rparr>) })"

definition buffer_to_upper :: "buffer \<Rightarrow> buffer option" where
  "buffer_to_upper b =
     (if b_used b = 0 then Some b
      else do { m \<leftarrow> b_ptr b; m' \<leftarrow> case_loop upper_char m; Some (b\<lparr>b_ptr := Some m'\<rparr>) })"

section \<open>The comparison\<close>

text \<open>One round of the byte loop on two characters: the value \<open>a1 - b1\<close> it would return, 0 when
  it goes on.\<close>

definition cmp_char :: "char \<Rightarrow> char \<Rightarrow> int" where
  "cmp_char a b =
     (let a1 = schar a; b1 = schar b in
      if a1 = b1 then 0
      else if (a1 \<ge> 65 \<and> a1 \<le> 90) \<and> (b1 \<ge> 97 \<and> b1 \<le> 122) then (a1 OR 32) - b1
      else if (a1 \<ge> 97 \<and> a1 \<le> 122) \<and> (b1 \<ge> 65 \<and> b1 \<le> 90) then a1 - (b1 OR 32)
      else a1 - b1)"

text \<open>The fast path: words of eight bytes are skipped while they are equal.\<close>

function word_skip :: "char list \<Rightarrow> char list \<Rightarrow> nat \<Rightarrow> nat \<Rightarrow> nat" where
  "word_skip a b ndx max_ndx =
     (if ndx < max_ndx \<and> take 8 (drop ndx a) = take 8 (drop ndx b)
      then word_skip a b (ndx + 8) max_ndx else ndx)"
  by pat_completeness auto
termination
  by (relation "measure (\<lambda>(a, b, ndx, max_ndx). max_ndx - ndx)") auto

function byte_cmp :: "char list \<Rightarrow> char list \<Rightarrow> nat \<Rightarrow> nat \<Rightarrow> int" where
  "byte_cmp a b ndx max_ndx =
     (if ndx < max_ndx then
        (let d = cmp_char (a ! ndx) (b ! ndx) in
         if d \<noteq> 0 then d else byte_cmp a b (Suc ndx) max_ndx)
      else 0)"
  by pat_completeness auto
termination
  by (relation "measure (\<lambda>(a, b, ndx, max_ndx). max_ndx - ndx)") auto

declare word_skip.simps [simp del] byte_cmp.simps [simp del]

text \<open>\<open>return (a_len - b_len)\<close>: a \<open>size_t\<close> difference converted to \<open>int\<close>.\<close>

definition int_of_size_diff :: "nat \<Rightarrow> nat \<Rightarrow> int" where
  "int_of_size_diff m n = signed_take_bit 31 (int m - int n)"

text \<open>\<open>aligned\<close> says whether both pointers are multiples of \<open>sizeof(size_t)\<close>; the two lists are
  the \<open>a_len\<close> and \<open>b_len\<close> bytes the call is about.\<close>

definition buffer_caseless_compare :: "bool \<Rightarrow> char list \<Rightarrow> char list \<Rightarrow> int" where
  "buffer_caseless_compare aligned a b =
     (let max_ndx = min (length a) (length b);
          ndx = (if aligned then word_skip a b 0 (max_ndx - max_ndx mod 8) else 0);
          d = byte_cmp a b ndx max_ndx
      in if d \<noteq> 0 then d
         else if length a = length b then 0
         else int_of_size_diff (length a) (length b))"

text \<open>The comparison without the fast path, by recursion on the strings.\<close>

fun casecmp :: "char list \<Rightarrow> char list \<Rightarrow> int" where
  "casecmp (a # as) (b # bs) = (if cmp_char a b \<noteq> 0 then cmp_char a b else casecmp as bs)"
| "casecmp as bs = int (length as) - int (length bs)"

section \<open>Facts about characters\<close>

lemma int_or_32: "(x::int) OR 32 = (if odd (x div 32) then x else x + 32)"
  using set_bit_eq [of 5 x] by (simp add: set_bit_eq_or push_bit_eq_mult bit_iff_odd)

lemma nat_or_32: "(x::nat) OR 32 = (if odd (x div 32) then x else x + 32)"
  using set_bit_eq [of 5 x] by (simp add: set_bit_eq_or push_bit_eq_mult bit_iff_odd)

lemma light_isalpha_iff: "light_isalpha c \<longleftrightarrow> 65 \<le> c \<and> c \<le> 90 \<or> 97 \<le> c \<and> c \<le> 122"
  unfolding light_isalpha_def Let_def int_or_32 by (auto; presburger)

lemma light_isxdigit_iff:
  "light_isxdigit c \<longleftrightarrow> 48 \<le> c \<and> c \<le> 57 \<or> 65 \<le> c \<and> c \<le> 70 \<or> 97 \<le> c \<and> c \<le> 102"
proof -
  have "97 \<le> c OR 32 \<and> c OR 32 \<le> 102 \<longleftrightarrow> 65 \<le> c \<and> c \<le> 70 \<or> 97 \<le> c \<and> c \<le> 102"
    unfolding int_or_32 by (auto; presburger)
  then show ?thesis by (auto simp: light_isxdigit_def light_isdigit_def Let_def)
qed

lemma or32_upper: "65 \<le> x \<Longrightarrow> x \<le> 90 \<Longrightarrow> (x::int) OR 32 = x + 32"
proof -
  assume "65 \<le> x" "x \<le> 90"
  then have "x div 32 = 2" by simp
  then show ?thesis by (simp add: int_or_32)
qed

lemma nat_or32_upper: "65 \<le> x \<Longrightarrow> x \<le> 90 \<Longrightarrow> (x::nat) OR 32 = x + 32"
proof -
  assume "65 \<le> x" "x \<le> 90"
  then have "x div 32 = 2" by (intro div_nat_eqI) simp_all
  then show ?thesis by (simp add: nat_or_32)
qed

lemma is_upper_iff: "is_upper c \<longleftrightarrow> 65 \<le> uchar c \<and> uchar c \<le> 90"
  using uchar_less [of c] by (auto simp: is_upper_def schar_def simp del: nat_of_char_less_256)

lemma is_lower_iff: "is_lower c \<longleftrightarrow> 97 \<le> uchar c \<and> uchar c \<le> 122"
  using uchar_less [of c] by (auto simp: is_lower_def schar_def simp del: nat_of_char_less_256)

lemma uchar_char_or32: "is_upper c \<Longrightarrow> uchar (char_or32 c) = uchar c + 32"
proof -
  assume "is_upper c"
  then have c: "65 \<le> uchar c" "uchar c \<le> 90"
    by (simp_all add: is_upper_iff)
  then have "uchar c OR 32 = uchar c + 32"
    by (rule nat_or32_upper)
  with c(2) show ?thesis by (simp add: char_or32_def)
qed

lemma uchar_lower_char: "uchar (lower_char c) = (if is_upper c then uchar c + 32 else uchar c)"
  by (simp add: lower_char_def uchar_char_or32)

lemma schar_lower_char: "schar (lower_char c) = (if is_upper c then schar c + 32 else schar c)"
  by (simp add: schar_def uchar_lower_char) (simp add: is_upper_iff)

lemma lower_char_NUL [simp]: "lower_char c = NUL \<longleftrightarrow> c = NUL"
proof -
  have "lower_char c = NUL \<longleftrightarrow> uchar (lower_char c) = uchar NUL" by (simp only: uchar_inject)
  also have "\<dots> \<longleftrightarrow> uchar c = uchar NUL" by (simp add: uchar_lower_char is_upper_iff)
  finally show ?thesis by (simp only: uchar_inject)
qed

text \<open>A character is \<^emph>\<open>regular\<close> unless it lies between \<open>Z\<close> and \<open>a\<close>: the six characters
  \<open>[ \ ] ^ _ `\<close> sort between the upper-case and the lower-case letters.\<close>

definition regular_char :: "char \<Rightarrow> bool" where
  "regular_char c = (\<not> (91 \<le> uchar c \<and> uchar c \<le> 96))"

text \<open>\<open>cmp_char\<close> with the bit operations replaced by the addition they are.\<close>

lemma cmp_char_alt:
  "cmp_char a b =
     (if is_upper a \<and> is_lower b then schar a + 32 - schar b
      else if is_lower a \<and> is_upper b then schar a - (schar b + 32)
      else schar a - schar b)"
proof (cases "is_upper a \<and> is_lower b \<or> is_lower a \<and> is_upper b")
  case True
  then have "schar a \<noteq> schar b" by (auto simp: is_upper_def is_lower_def simp del: schar_inject)
  with True show ?thesis
    by (auto simp: cmp_char_def Let_def is_upper_def is_lower_def or32_upper simp del: schar_inject)
next
  case False
  then show ?thesis
    by (auto simp: cmp_char_def Let_def is_upper_def is_lower_def simp del: schar_inject)
qed

lemma cmp_char_zero: "cmp_char a b = 0 \<longleftrightarrow> lower_char a = lower_char b"
proof -
  have "lower_char a = lower_char b \<longleftrightarrow> schar (lower_char a) = schar (lower_char b)" by simp
  also have "\<dots> \<longleftrightarrow> cmp_char a b = 0"
    unfolding schar_lower_char cmp_char_alt is_upper_def is_lower_def by (simp del: schar_inject) linarith
  finally show ?thesis by simp
qed

lemma cmp_char_antisym: "cmp_char b a = - cmp_char a b"
  by (auto simp: cmp_char_alt is_upper_def is_lower_def)

lemma cmp_char_regular:
  assumes "regular_char a" "regular_char b"
  shows "sgn (cmp_char a b) = sgn (schar (lower_char a) - schar (lower_char b))"
proof -
  have r: "schar c < 91 \<or> schar c > 96" if "regular_char c" for c
    using that uchar_less [of c] by (auto simp: regular_char_def schar_def simp del: nat_of_char_less_256)
  show ?thesis
    using r [OF assms(1)] r [OF assms(2)]
    unfolding cmp_char_alt schar_lower_char is_upper_def is_lower_def sgn_if
    by (auto simp del: schar_inject)
qed

section \<open>The comparison\<close>

lemma byte_cmp_drop:
  assumes "max_ndx = min (length a) (length b)" "ndx \<le> max_ndx"
  shows "(if byte_cmp a b ndx max_ndx \<noteq> 0 then byte_cmp a b ndx max_ndx
      else int (length a) - int (length b)) = casecmp (drop ndx a) (drop ndx b)"
  using assms
proof (induction a b ndx max_ndx rule: byte_cmp.induct)
  case (1 a b ndx max_ndx)
  show ?case
  proof (cases "ndx < max_ndx")
    case True
    with 1(2) have "drop ndx a = a ! ndx # drop (Suc ndx) a" "drop ndx b = b ! ndx # drop (Suc ndx) b"
      by (simp_all add: Cons_nth_drop_Suc)
    moreover have "byte_cmp a b ndx max_ndx =
        (if cmp_char (a ! ndx) (b ! ndx) \<noteq> 0 then cmp_char (a ! ndx) (b ! ndx) else byte_cmp a b (Suc ndx) max_ndx)"
      using True by (subst byte_cmp.simps) (simp add: Let_def)
    ultimately show ?thesis
      using 1(1) [OF True refl _ 1(2)] True by (simp split: if_splits)
  next
    case False
    with 1 have "drop ndx a = [] \<or> drop ndx b = []" "ndx = max_ndx" by auto
    then have "casecmp (drop ndx a) (drop ndx b) = int (length (drop ndx a)) - int (length (drop ndx b))"
      by (cases "drop ndx a"; cases "drop ndx b") auto
    moreover have "byte_cmp a b ndx max_ndx = 0"
      using False by (subst byte_cmp.simps) simp
    ultimately show ?thesis
      using 1(2,3) by (simp add: of_nat_diff)
  qed
qed

text \<open>The fast path only skips bytes that are equal.\<close>

lemma word_skip_equal:
  assumes "lim \<le> min (length a) (length b)" "8 dvd ndx" "8 dvd lim" "take ndx a = take ndx b" "ndx \<le> lim"
  shows "take (word_skip a b ndx lim) a = take (word_skip a b ndx lim) b \<and> word_skip a b ndx lim \<le> lim"
  using assms
proof (induction a b ndx lim rule: word_skip.induct)
  case (1 a b ndx lim)
  show ?case
  proof (cases "ndx < lim \<and> take 8 (drop ndx a) = take 8 (drop ndx b)")
    case True
    then have "take (ndx + 8) a = take (ndx + 8) b"
      using 1(5) by (simp add: take_add)
    moreover have "ndx + 8 \<le> lim"
      using True 1(3,4) by (auto elim!: dvdE)
    ultimately show ?thesis
      using True 1 by (simp add: word_skip.simps [of a b ndx lim])
  next
    case False
    then have "word_skip a b ndx lim = ndx" by (subst word_skip.simps) auto
    with 1(5,6) show ?thesis by simp
  qed
qed

lemma casecmp_skip: "take n a = take n b \<Longrightarrow> n \<le> min (length a) (length b) \<Longrightarrow>
    casecmp (drop n a) (drop n b) = casecmp a b"
proof (induction n arbitrary: a b)
  case (Suc n)
  then show ?case by (cases a; cases b) (auto simp: cmp_char_zero)
qed simp

lemma int_of_size_diff_small:
  assumes "m < 2 ^ 31" "n < 2 ^ 31"
  shows "int_of_size_diff m n = int m - int n"
  unfolding int_of_size_diff_def
  by (rule signed_take_bit_int_eq_self) (use assms in auto)

lemma buffer_caseless_compare_casecmp:
  assumes "length a < 2 ^ 31" "length b < 2 ^ 31"
  shows "buffer_caseless_compare aligned a b = casecmp a b"
proof -
  let ?max = "min (length a) (length b)"
  let ?lim = "?max - ?max mod 8"
  define ndx where "ndx = (if aligned then word_skip a b 0 ?lim else 0)"
  have lim: "8 dvd ?lim" "?lim \<le> ?max" by (simp_all add: dvd_minus_mod del: min.bounded_iff)
  have "take ndx a = take ndx b \<and> ndx \<le> ?max"
  proof (cases aligned)
    case True
    have skip: "take (word_skip a b 0 ?lim) a = take (word_skip a b 0 ?lim) b \<and> word_skip a b 0 ?lim \<le> ?lim"
      by (rule word_skip_equal) (use lim in \<open>simp_all del: min.bounded_iff\<close>)
    have "word_skip a b 0 ?lim \<le> ?max"
      using skip lim(2) by (blast intro: le_trans)
    with True skip show ?thesis
      by (simp only: ndx_def if_True)
  next
    case False
    then show ?thesis by (simp add: ndx_def)
  qed
  then have "casecmp (drop ndx a) (drop ndx b) = casecmp a b" "ndx \<le> ?max"
    using casecmp_skip by blast+
  moreover have "buffer_caseless_compare aligned a b =
      (if byte_cmp a b ndx ?max \<noteq> 0 then byte_cmp a b ndx ?max else int (length a) - int (length b))"
    using int_of_size_diff_small [OF assms]
    by (simp add: buffer_caseless_compare_def Let_def ndx_def)
  ultimately show ?thesis
    using byte_cmp_drop [of ?max a b ndx] by simp
qed

lemma casecmp_zero_iff: "casecmp a b = 0 \<longleftrightarrow> map lower_char a = map lower_char b"
  by (induction a b rule: casecmp.induct) (auto simp: cmp_char_zero)

lemma casecmp_antisym: "casecmp b a = - casecmp a b"
proof (induction a arbitrary: b)
  case Nil
  show ?case by (cases b) simp_all
next
  case (Cons x a)
  then show ?case using cmp_char_antisym [of _ x] by (cases b) simp_all
qed

text \<open>On regular strings the sign is that of the lexicographic comparison of the lower-case
  character values, a shorter string coming before its extensions.\<close>

definition regular_str :: "string \<Rightarrow> bool" where
  "regular_str s = list_all regular_char s"

fun lexcmp :: "int list \<Rightarrow> int list \<Rightarrow> int" where
  "lexcmp (a # as) (b # bs) = (if a < b then -1 else if b < a then 1 else lexcmp as bs)"
| "lexcmp as bs = sgn (int (length as) - int (length bs))"

definition ckey :: "string \<Rightarrow> int list" where
  "ckey s = map (\<lambda>c. schar (lower_char c)) s"

lemma sgn_casecmp:
  "regular_str a \<Longrightarrow> regular_str b \<Longrightarrow> sgn (casecmp a b) = lexcmp (ckey a) (ckey b)"
proof (induction a b rule: casecmp.induct)
  case (1 a as b bs)
  have s: "sgn (cmp_char a b) = sgn (schar (lower_char a) - schar (lower_char b))"
    using 1(2,3) by (intro cmp_char_regular) (auto simp: regular_str_def)
  show ?case
  proof (cases "cmp_char a b = 0")
    case True
    with 1 show ?thesis by (simp add: regular_str_def ckey_def cmp_char_zero)
  next
    case False
    with s show ?thesis by (auto simp: ckey_def sgn_if split: if_splits)
  qed
qed (auto simp: ckey_def)

lemma lexcmp_trans: "lexcmp a b < 0 \<Longrightarrow> lexcmp b c < 0 \<Longrightarrow> lexcmp a c < 0"
proof (induction a arbitrary: b c)
  case Nil
  then show ?case by (cases b; cases c) (auto split: if_splits)
next
  case (Cons x a)
  then obtain y b' where b: "b = y # b'" by (cases b) auto
  with Cons.prems obtain z c' where "c = z # c'" by (cases c) auto
  with b Cons show ?case by (auto split: if_splits)
qed

lemma lexcmp_zero: "lexcmp a b = 0 \<longleftrightarrow> a = b"
  by (induction a b rule: lexcmp.induct) (auto simp: sgn_if)

section \<open>Case conversion in place\<close>

lemma case_loop_terminated:
  assumes "NUL \<notin> set s"
  shows "case_loop f (s @ NUL # r) = Some (map f s @ NUL # r)"
  using assms by (induction s) auto

lemma buffer_to_lower_spec:
  assumes "buffer_ok b" "buf_abs b = Some s" "NUL \<notin> set s"
  shows "\<exists>b'. buffer_to_lower b = Some b' \<and> buffer_ok b' \<and> buf_abs b' = Some (map lower_char s)"
proof -
  obtain r where b: "b_ptr b = Some (s @ NUL # r)" "b_used b = length s + 1" "b_size b = length s + 1 + length r"
    using buf_abs_SomeE [OF assms(1,2)] .
  let ?b = "b\<lparr>b_ptr := Some (map lower_char s @ NUL # r)\<rparr>"
  have "buffer_to_lower b = Some ?b"
    using b assms(3) by (simp add: buffer_to_lower_def case_loop_terminated)
  then show ?thesis
    using buffer_okI [of ?b "map lower_char s" r] b by simp
qed

lemma buffer_to_upper_spec:
  assumes "buffer_ok b" "buf_abs b = Some s" "NUL \<notin> set s"
  shows "\<exists>b'. buffer_to_upper b = Some b' \<and> buffer_ok b' \<and> buf_abs b' = Some (map upper_char s)"
proof -
  obtain r where b: "b_ptr b = Some (s @ NUL # r)" "b_used b = length s + 1" "b_size b = length s + 1 + length r"
    using buf_abs_SomeE [OF assms(1,2)] .
  let ?b = "b\<lparr>b_ptr := Some (map upper_char s @ NUL # r)\<rparr>"
  have "buffer_to_upper b = Some ?b"
    using b assms(3) by (simp add: buffer_to_upper_def case_loop_terminated)
  then show ?thesis
    using buffer_okI [of ?b "map upper_char s" r] b by simp
qed

section \<open>Properties\<close>

text \<open>The optimised comparison, which skips equal machine words and compares case-insensitively
  only from the first different word on, computes the plain character-by-character comparison, aligned
  or not, for all strings below two gigabytes.\<close>

theorem caseless_compare_reference:
  assumes "length a < 2 ^ 31" "length b < 2 ^ 31"
  shows "buffer_caseless_compare aligned a b = casecmp a b"
  using assms by (rule buffer_caseless_compare_casecmp)

theorem caseless_compare_reference_witness:
  "buffer_caseless_compare True ''Content-Length'' ''content-lengthy'' = -1"
  using caseless_compare_reference [of "''Content-Length''" "''content-lengthy''" True]
  by (simp add: cmp_char_def schar_def)

text \<open>The comparison is not an order on arbitrary keys: \<open>A\<close> is below \<open>_\<close>, \<open>_\<close> is below \<open>a\<close>,
  and yet \<open>A\<close> and \<open>a\<close> compare equal.\<close>

theorem caseless_compare_not_transitive:
  "buffer_caseless_compare al ''A'' ''_'' < 0 \<and> buffer_caseless_compare al ''_'' ''a'' < 0 \<and>
   buffer_caseless_compare al ''A'' ''a'' = 0"
  by (simp add: buffer_caseless_compare_casecmp cmp_char_def schar_def)

end
