(* ===== verification/Numbers.thy ===== *)
theory Numbers
  imports Caseless
begin

text \<open>
  Numbers in buffers (\<open>buffer.c\<close>): decimal output (\<open>LI_ltostr\<close>, \<open>buffer_append_long\<close> and the
  \<open>off_t\<close> variants), hexadecimal output (\<open>buffer_append_long_hex\<close>, \<open>buffer_copy_string_hex\<close>)
  and single hexadecimal digits (\<open>int2hex\<close>, \<open>hex2int\<close>). The loops work on the memory block, as
  in the code; the lemmas show what is in the block afterwards and that the numbers can be read
  back from it.
\<close>

section \<open>Digits\<close>

definition hex_chars :: string where
  "hex_chars = ''0123456789abcdef''"

definition hexc :: "nat \<Rightarrow> char" where
  "hexc n = hex_chars ! (n mod 16)"

definition int2hex :: "char \<Rightarrow> char" where
  "int2hex c = hexc (uchar c)"

text \<open>\<open>hex2int\<close> works on an \<open>unsigned char\<close>: every assignment wraps at 256.\<close>

definition hex2int :: "8 word \<Rightarrow> 8 word" where
  "hex2int hex =
     (let h1 = hex - 48;
          h2 = (if h1 > 9 then ((h1 + 48 - 1) OR 0x20) - 97 + 11 else h1)
      in if h2 > 15 then 0xFF else h2)"

definition digitc :: "nat \<Rightarrow> char" where
  "digitc d = char_of (48 + d)"

section \<open>Decimal output\<close>

function ltostr_loop :: "char list \<Rightarrow> nat \<Rightarrow> nat \<Rightarrow> (char list \<times> nat \<times> nat) option" where
  "ltostr_loop m e val =
     (if val > 9 then do {
        m' \<leftarrow> mem_set m e (digitc (val mod 10));
        ltostr_loop m' (e + 1) (val div 10)
      }
      else Some (m, e, val))"
  by pat_completeness auto
termination
  by (relation "measure (\<lambda>(m, e, val). val)") auto

function swap_loop :: "char list \<Rightarrow> nat \<Rightarrow> nat \<Rightarrow> char list option" where
  "swap_loop m i j =
     (if i < j then do {
        x \<leftarrow> mem_get m j;
        y \<leftarrow> mem_get m i;
        m1 \<leftarrow> mem_set m j y;
        m2 \<leftarrow> mem_set m1 i x;
        swap_loop m2 (i + 1) (j - 1)
      }
      else Some m)"
  by pat_completeness auto
termination
  by (relation "measure (\<lambda>(m, i, j). j)") auto

declare ltostr_loop.simps [simp del] swap_loop.simps [simp del]

text \<open>The digits of a non-negative number from \<open>start\<close> on: first in reverse order, then the
  terminator, then the swap. The result is \<open>end - start\<close> with the block.\<close>

definition ltostr_digits :: "char list \<Rightarrow> nat \<Rightarrow> nat \<Rightarrow> (nat \<times> char list) option" where
  "ltostr_digits m start val = do {
     (m, end, val) \<leftarrow> ltostr_loop m start val;
     m \<leftarrow> mem_set m end (digitc val);
     m \<leftarrow> mem_set m (end + 1) NUL;
     m \<leftarrow> swap_loop m start end;
     Some (end - start, m)
   }"

text \<open>\<open>LI_ltostr m off val\<close> writes at offset \<open>off\<close> of block \<open>m\<close> and returns the length. A
  \<open>long\<close> has 64 bits, so \<open>-val\<close> is undefined for the smallest one.\<close>

definition LI_ltostr :: "char list \<Rightarrow> nat \<Rightarrow> int \<Rightarrow> (nat \<times> char list) option" where
  "LI_ltostr m off val =
     (if val < 0 then
        (if val = - (2 ^ 63) then None
         else do {
           m \<leftarrow> mem_set m off CHR ''-'';
           (len, m) \<leftarrow> ltostr_digits m (off + 1) (nat (- val));
           Some (2 + len, m)
         })
      else do {
        (len, m) \<leftarrow> ltostr_digits m off (nat val);
        Some (1 + len, m)
      })"

definition buffer_append_long :: "junk \<Rightarrow> bufp \<Rightarrow> int \<Rightarrow> bufres" where
  "buffer_append_long g bp val = (case bp of
     None \<Rightarrow> Some (-1, None)
   | Some b \<Rightarrow> do {
       b1 \<leftarrow> append_room g b 32;
       m \<leftarrow> b_ptr b1;
       (len, m') \<leftarrow> LI_ltostr m (b_used b1 - 1) val;
       Some (0, Some (b1\<lparr>b_ptr := Some m', b_used := b_used b1 + len\<rparr>))
     })"

definition buffer_copy_long :: "junk \<Rightarrow> bufp \<Rightarrow> int \<Rightarrow> bufres" where
  "buffer_copy_long g bp val = (case bp of
     None \<Rightarrow> Some (-1, None)
   | Some b \<Rightarrow> buffer_append_long g (Some (b\<lparr>b_used := 0\<rparr>)) val)"

text \<open>\<open>buffer_append_off_t\<close> repeats the body of \<open>LI_ltostr\<close> for an \<open>off_t\<close>, which also has 64
  bits.\<close>

definition buffer_append_off_t :: "junk \<Rightarrow> bufp \<Rightarrow> int \<Rightarrow> bufres" where
  "buffer_append_off_t g bp val = (case bp of
     None \<Rightarrow> Some (-1, None)
   | Some b \<Rightarrow> do {
       b1 \<leftarrow> append_room g b 32;
       m \<leftarrow> b_ptr b1;
       (len, m) \<leftarrow>
         (if val < 0 then
            (if val = - (2 ^ 63) then None
             else do {
               m \<leftarrow> mem_set m (b_used b1 - 1) CHR ''-'';
               (len, m) \<leftarrow> ltostr_digits m (b_used b1) (nat (- val));
               Some (2 + len, m)
             })
          else do {
            (len, m) \<leftarrow> ltostr_digits m (b_used b1 - 1) (nat val);
            Some (1 + len, m)
          });
       Some (0, Some (b1\<lparr>b_ptr := Some m, b_used := b_used b1 + len\<rparr>))
     })"

definition buffer_copy_off_t :: "junk \<Rightarrow> bufp \<Rightarrow> int \<Rightarrow> bufres" where
  "buffer_copy_off_t g bp val = (case bp of
     None \<Rightarrow> Some (-1, None)
   | Some b \<Rightarrow> buffer_append_off_t g (Some (b\<lparr>b_used := 0\<rparr>)) val)"

section \<open>Hexadecimal output\<close>

text \<open>The number of \<open>copy >>= 4\<close> steps until \<open>copy\<close> is 0, and the number of digits made of it:
  at least one, rounded up to an even number.\<close>

fun hex_shift :: "nat \<Rightarrow> nat" where
  "hex_shift copy = (if copy = 0 then 0 else Suc (hex_shift (copy div 16)))"

declare hex_shift.simps [simp del]

definition hex_digits :: "nat \<Rightarrow> nat" where
  "hex_digits value =
     (let shift = hex_shift value;
          shift = (if shift = 0 then shift + 1 else shift)
      in if odd shift then shift + 1 else shift)"

text \<open>The writing loop; \<open>shift\<close> counts digits, the code counts bits (\<open>shift <<= 2\<close>).\<close>

fun hex_loop :: "char list \<Rightarrow> nat \<Rightarrow> nat \<Rightarrow> nat \<Rightarrow> (char list \<times> nat) option" where
  "hex_loop m pos 0 value = Some (m, pos)"
| "hex_loop m pos (Suc shift) value = do {
     m' \<leftarrow> mem_set m pos (hexc (drop_bit (4 * shift) value));
     hex_loop m' (pos + 1) shift value
   }"

definition buffer_append_long_hex :: "junk \<Rightarrow> buffer \<Rightarrow> nat \<Rightarrow> bufres" where
  "buffer_append_long_hex g b value = do {
     b1 \<leftarrow> append_room g b (hex_digits value + 1);
     m \<leftarrow> b_ptr b1;
     (m, buf) \<leftarrow> hex_loop m (b_used b1 - 1) (hex_digits value) value;
     m \<leftarrow> mem_set m buf NUL;
     Some (0, Some (b1\<lparr>b_ptr := Some m, b_used := b_used b1 + hex_digits value\<rparr>))
   }"

fun copy_hex_loop :: "char list \<Rightarrow> nat \<Rightarrow> char list \<Rightarrow> (char list \<times> nat) option" where
  "copy_hex_loop m used [] = Some (m, used)"
| "copy_hex_loop m used (c # cs) = do {
     m1 \<leftarrow> mem_set m used (hexc (uchar c div 16));
     m2 \<leftarrow> mem_set m1 (used + 1) (hexc (uchar c));
     copy_hex_loop m2 (used + 2) cs
   }"

text \<open>\<open>size_t\<close> has 64 bits: the overflow protection compares a product that may wrap.\<close>

definition buffer_copy_string_hex :: "junk \<Rightarrow> buffer \<Rightarrow> char list \<Rightarrow> nat \<Rightarrow> bufres" where
  "buffer_copy_string_hex g b inp in_len =
     (if (in_len * 2) mod 2 ^ 64 < in_len then Some (-1, Some b)
      else do {
        (_, bp1) \<leftarrow> buffer_prepare_copy g (Some b) (in_len * 2 + 1);
        b1 \<leftarrow> bp1;
        m \<leftarrow> b_ptr b1;
        src \<leftarrow> mem_read inp in_len;
        (m, used) \<leftarrow> copy_hex_loop m (b_used b1) src;
        m \<leftarrow> mem_set m used NUL;
        Some (0, Some (b1\<lparr>b_ptr := Some m, b_used := used + 1\<rparr>))
      })"

section \<open>What the decimal loops leave in memory\<close>

text \<open>The decimal representation as a specification, and its reader.\<close>

fun dec_nat :: "nat \<Rightarrow> string" where
  "dec_nat n = (if n \<le> 9 then [digitc n] else dec_nat (n div 10) @ [digitc (n mod 10)])"

declare dec_nat.simps [simp del]

definition dec_int :: "int \<Rightarrow> string" where
  "dec_int v = (if v < 0 then CHR ''-'' # dec_nat (nat (- v)) else dec_nat (nat v))"

lemma ltostr_loop_spec:
  assumes "length (dec_nat v) \<le> length r"
  shows "\<exists>ds d. ltostr_loop (t @ r) (length t) v = Some (t @ ds @ drop (length ds) r, length t + length ds, d) \<and>
    dec_nat v = digitc d # rev ds"
  using assms
proof (induction v arbitrary: t r rule: dec_nat.induct)
  case (1 v)
  show ?case
  proof (cases "v \<le> 9")
    case True
    then show ?thesis
      by (intro exI [of _ "[]"] exI [of _ v])
        (simp add: ltostr_loop.simps [of _ _ v] dec_nat.simps [of v])
  next
    case False
    then have dec: "dec_nat v = dec_nat (v div 10) @ [digitc (v mod 10)]"
      by (subst dec_nat.simps) simp
    with 1(2) obtain x r' where r: "r = x # r'" "length (dec_nat (v div 10)) \<le> length r'"
      by (cases r) auto
    then obtain ds d where IH: "ltostr_loop ((t @ [digitc (v mod 10)]) @ r') (length (t @ [digitc (v mod 10)])) (v div 10) =
        Some ((t @ [digitc (v mod 10)]) @ ds @ drop (length ds) r', length (t @ [digitc (v mod 10)]) + length ds, d)"
      "dec_nat (v div 10) = digitc d # rev ds"
      using 1(1) [OF False, of r' "t @ [digitc (v mod 10)]"] by blast
    have "ltostr_loop (t @ r) (length t) v =
        ltostr_loop (t @ digitc (v mod 10) # r') (Suc (length t)) (v div 10)"
      using False r by (subst ltostr_loop.simps) (simp add: mem_simps)
    with IH dec r show ?thesis
      by (intro exI [of _ "digitc (v mod 10) # ds"] exI [of _ d]) simp
  qed
qed

lemma swap_loop_rev:
  "s \<noteq> [] \<Longrightarrow> swap_loop (t @ s @ r) (length t) (length t + length s - 1) = Some (t @ rev s @ r)"
proof (induction "length s" arbitrary: s t r rule: less_induct)
  case less
  show ?case
  proof (cases "length s \<le> 1")
    case True
    with less(2) obtain x where "s = [x]" by (cases s) auto
    then show ?thesis by (simp add: swap_loop.simps)
  next
    case False
    then obtain x u y where s: "s = x # u @ [y]"
      by (metis append_butlast_last_id butlast.simps(2) last_ConsL last_ConsR le_numeral_extra(4)
          length_0_conv length_Cons list.exhaust list.size(3) One_nat_def le0)
    have "swap_loop (t @ s @ r) (length t) (length t + length s - 1) =
        swap_loop ((t @ [y]) @ u @ x # r) (length (t @ [y])) (length (t @ [y]) + length u - 1)"
    proof -
      have "mem_get (t @ s @ r) (length t + length s - 1) = Some y"
        using mem_get_append [of "t @ x # u" y r] s by simp
      moreover have "mem_get (t @ s @ r) (length t) = Some x"
        using s by (simp add: mem_simps)
      moreover have "mem_set (t @ s @ r) (length t + length s - 1) x = Some (t @ x # u @ x # r)"
        using mem_set_append [of "t @ x # u" y r x] s by simp
      moreover have "mem_set (t @ x # u @ x # r) (length t) y = Some (t @ y # u @ x # r)"
        by (simp add: mem_simps)
      ultimately show ?thesis
        using s by (subst swap_loop.simps) simp
    qed
    also have "\<dots> = Some ((t @ [y]) @ rev u @ x # r)"
    proof (cases "u = []")
      case True
      then show ?thesis by (simp add: swap_loop.simps)
    next
      case False
      then show ?thesis using less(1) [of u "t @ [y]" "x # r"] s by simp
    qed
    finally show ?thesis using s by simp
  qed
qed

lemma ltostr_digits_spec:
  assumes "length (dec_nat v) + 1 \<le> length r"
  shows "ltostr_digits (t @ r) (length t) v =
    Some (length (dec_nat v) - 1, t @ dec_nat v @ NUL # drop (length (dec_nat v) + 1) r)"
proof -
  obtain ds d where l: "ltostr_loop (t @ r) (length t) v = Some (t @ ds @ drop (length ds) r, length t + length ds, d)"
    and dec: "dec_nat v = digitc d # rev ds"
    using ltostr_loop_spec [of v r t] assms by auto
  from assms dec obtain x y q where q: "drop (length ds) r = x # y # q"
    by (cases "drop (length ds) r"; cases "tl (drop (length ds) r)")
      (auto dest: arg_cong [where f = length])
  then have q': "q = drop (length ds + 2) r"
    by (metis drop_drop drop_Suc_Cons drop0 numeral_2_eq_2 add.commute)
  let ?s = "ds @ [digitc d]"
  have "mem_set (t @ ds @ x # y # q) (length t + length ds) (digitc d) = Some (t @ ds @ digitc d # y # q)"
    using mem_set_append [of "t @ ds" x "y # q" "digitc d"] by simp
  moreover have "mem_set (t @ ds @ digitc d # y # q) (length t + length ds + 1) NUL = Some (t @ ?s @ NUL # q)"
    using mem_set_append [of "t @ ds @ [digitc d]" y q NUL] by simp
  moreover have "swap_loop (t @ ?s @ NUL # q) (length t) (length t + length ds) = Some (t @ rev ?s @ NUL # q)"
    using swap_loop_rev [of ?s t "NUL # q"] by simp
  ultimately show ?thesis
    using l q dec q' by (simp add: ltostr_digits_def)
qed

lemma LI_ltostr_spec:
  assumes "- (2 ^ 63) < val" "length (dec_int val) + 1 \<le> length r"
  shows "LI_ltostr (t @ r) (length t) val =
    Some (length (dec_int val), t @ dec_int val @ NUL # drop (length (dec_int val) + 1) r)"
proof (cases "val < 0")
  case True
  let ?d = "dec_nat (nat (- val))"
  from True assms(2) obtain x r' where r: "r = x # r'" "length ?d + 1 \<le> length r'"
    by (cases r) (auto simp: dec_int_def)
  have "ltostr_digits ((t @ ''-'') @ r') (length (t @ ''-'')) (nat (- val)) =
      Some (length ?d - 1, (t @ ''-'') @ ?d @ NUL # drop (length ?d + 1) r')"
    using r(2) by (rule ltostr_digits_spec)
  moreover have "length ?d > 0" by (subst dec_nat.simps) simp
  ultimately show ?thesis
    using True assms(1) r by (simp add: LI_ltostr_def mem_simps dec_int_def)
next
  case False
  have "length (dec_nat (nat val)) > 0" by (subst dec_nat.simps) simp
  with False assms(2) show ?thesis
    using ltostr_digits_spec [of "nat val" r t] by (simp add: LI_ltostr_def dec_int_def)
qed

lemma dec_nat_length: "n < 10 ^ Suc k \<Longrightarrow> length (dec_nat n) \<le> Suc k"
proof (induction k arbitrary: n)
  case 0
  then show ?case by (simp add: dec_nat.simps)
next
  case (Suc k)
  show ?case
  proof (cases "n \<le> 9")
    case True
    then show ?thesis by (simp add: dec_nat.simps [of n])
  next
    case False
    from Suc.prems have "n div 10 < 10 ^ Suc k"
      by (simp add: less_mult_imp_div_less)
    then have "length (dec_nat (n div 10)) \<le> Suc k" by (rule Suc.IH)
    with False show ?thesis by (simp add: dec_nat.simps [of n])
  qed
qed

lemma dec_int_length:
  assumes "- (2 ^ 63) < v" "v < 2 ^ 63"
  shows "length (dec_int v) \<le> 20"
proof -
  have "nat (- v) < 10 ^ Suc 18" "nat v < 10 ^ Suc 18"
    using assms by auto
  then have "length (dec_nat (nat (- v))) \<le> Suc 18" "length (dec_nat (nat v)) \<le> Suc 18"
    using dec_nat_length by blast+
  then show ?thesis by (simp add: dec_int_def)
qed

lemma buffer_append_long_spec:
  assumes "buffer_ok b" "- (2 ^ 63) < v" "v < 2 ^ 63"
  shows "\<exists>b'. buffer_append_long g (Some b) v = Some (0, Some b') \<and>
    buffer_ok b' \<and> buf_abs b' = Some (bs_str (buf_abs b) @ dec_int v)"
proof -
  let ?t = "bs_str (buf_abs b)" and ?n = "length (dec_int v)"
  obtain b1 r where p: "append_room g b 32 = Some b1"
    "b_ptr b1 = Some (?t @ r)" "b_used b1 = length ?t + 1"
    "b_size b1 = length ?t + length r" "32 \<le> length r"
    using append_room_spec [OF assms(1)] by metis
  have n: "?n \<le> 20" by (rule dec_int_length [OF assms(2,3)])
  with p(5) have "LI_ltostr (?t @ r) (length ?t) v = Some (?n, ?t @ dec_int v @ NUL # drop (?n + 1) r)"
    using assms(2) by (intro LI_ltostr_spec) auto
  then have "buffer_append_long g (Some b) v =
      Some (0, Some (b1\<lparr>b_ptr := Some ((?t @ dec_int v) @ NUL # drop (?n + 1) r), b_used := length (?t @ dec_int v) + 1\<rparr>))"
    using p by (simp add: buffer_append_long_def)
  then show ?thesis
    using buffer_okI [of "b1\<lparr>b_ptr := Some ((?t @ dec_int v) @ NUL # drop (?n + 1) r), b_used := length (?t @ dec_int v) + 1\<rparr>"
        "?t @ dec_int v" "drop (?n + 1) r"] p n by simp
qed

lemma buffer_copy_long_spec:
  assumes "buffer_wf b" "- (2 ^ 63) < v" "v < 2 ^ 63"
  shows "\<exists>b'. buffer_copy_long g (Some b) v = Some (0, Some b') \<and>
    buffer_ok b' \<and> buf_abs b' = Some (dec_int v)"
  using buffer_append_long_spec [OF buffer_wf_unused [OF assms(1)] assms(2,3), of g]
  by (simp add: buffer_copy_long_def buf_abs_def)

text \<open>The two copies of the conversion agree.\<close>

lemma buffer_append_off_t_eq: "buffer_append_off_t g bp v = buffer_append_long g bp v"
proof (cases bp)
  case None
  then show ?thesis by (simp add: buffer_append_off_t_def buffer_append_long_def)
next
  case (Some b)
  have used: "append_room g b 32 = Some b1 \<Longrightarrow> b_used b1 > 0" for b1
    by (auto simp: append_room_def split: if_splits dest: arg_cong [where f = b_used])
  show ?thesis
  proof (cases "append_room g b 32")
    case None
    with Some show ?thesis by (simp add: buffer_append_off_t_def buffer_append_long_def)
  next
    case (Some b1)
    then obtain k where "b_used b1 = Suc k" using used by (cases "b_used b1") auto
    with Some \<open>bp = Some b\<close> show ?thesis
      by (cases "v < 0"; cases "v = - (2 ^ 63)")
        (simp_all add: buffer_append_off_t_def buffer_append_long_def LI_ltostr_def)
  qed
qed

lemma buffer_copy_off_t_eq: "buffer_copy_off_t g bp v = buffer_copy_long g bp v"
  by (simp add: buffer_copy_off_t_def buffer_copy_long_def buffer_append_off_t_eq split: option.split)

section \<open>Reading numbers back\<close>

text \<open>\<open>digits_value\<close> reads a digit string the way \<open>strtol (s, NULL, 10)\<close> does.\<close>

definition digits_value :: "string \<Rightarrow> nat" where
  "digits_value s = foldl (\<lambda>a c. a * 10 + (uchar c - 48)) 0 s"

lemma uchar_digitc: "d \<le> 9 \<Longrightarrow> uchar (digitc d) = 48 + d"
  by (simp add: digitc_def)

lemma digits_value_dec_nat: "digits_value (dec_nat n) = n"
proof (induction n rule: dec_nat.induct)
  case (1 n)
  show ?case
  proof (cases "n \<le> 9")
    case True
    then show ?thesis by (simp add: dec_nat.simps [of n] digits_value_def uchar_digitc)
  next
    case False
    have "n mod 10 \<le> 9" by simp
    with False 1 show ?thesis
      by (simp add: dec_nat.simps [of n] digits_value_def uchar_digitc)
  qed
qed

lemma dec_nat_digits: "list_all (\<lambda>c. light_isdigit (schar c)) (dec_nat n)"
proof (induction n rule: dec_nat.induct)
  case (1 n)
  have digit: "light_isdigit (schar (digitc d))" if "d \<le> 9" for d
    using that uchar_digitc [OF that] by (simp add: light_isdigit_def schar_def)
  have "n mod 10 \<le> 9" by simp
  with 1 digit show ?case by (subst dec_nat.simps) auto
qed

lemma dec_nat_inject: "dec_nat m = dec_nat n \<longleftrightarrow> m = n"
  by (metis digits_value_dec_nat)

lemma hex2int_spec:
  assumes "0 \<le> k" "k < 256"
  shows "unat (hex2int (of_int k)) =
    nat (if 48 \<le> k \<and> k \<le> 57 then k - 48
         else if 65 \<le> k \<and> k \<le> 70 then k - 55
         else if 97 \<le> k \<and> k \<le> 102 then k - 87
         else 255)"
proof -
  have "list_all (\<lambda>k::int. unat (hex2int (of_int k)) =
     nat (if 48 \<le> k \<and> k \<le> 57 then k - 48
          else if 65 \<le> k \<and> k \<le> 70 then k - 55
          else if 97 \<le> k \<and> k \<le> 102 then k - 87
          else 255)) [0..255]"
    by (simp add: hex2int_def upto_rec1 Let_def)
  moreover have "k \<in> set [0..255]" using assms by simp
  ultimately show ?thesis unfolding list_all_iff by blast
qed

text \<open>The value of a hexadecimal digit as the code reads it.\<close>

definition hexv :: "char \<Rightarrow> nat" where
  "hexv c = unat (hex2int (of_nat (uchar c)))"

lemma hexv_char:
  "hexv c =
    (if 48 \<le> uchar c \<and> uchar c \<le> 57 then uchar c - 48
     else if 65 \<le> uchar c \<and> uchar c \<le> 70 then uchar c - 55
     else if 97 \<le> uchar c \<and> uchar c \<le> 102 then uchar c - 87
     else 255)"
  using hex2int_spec [of "int (uchar c)"] by (simp add: hexv_def nat_diff_distrib)

lemma hexc_cases: "hexc n \<in> set hex_chars"
  by (simp add: hexc_def hex_chars_def nth_Cons' )

lemma hexv_hexc: "hexv (hexc n) = n mod 16"
proof -
  have "list_all (\<lambda>k::nat. hexv (hex_chars ! k) = k) [0,1,2,3,4,5,6,7,8,9,10,11,12,13,14,15]"
    by (simp add: hexv_char hex_chars_def)
  moreover have "n mod 16 \<in> set [0,1,2,3,4,5,6,7,8,9,10,11,12,13,14,15]"
  proof -
    have "n mod 16 < 16" by simp
    then show ?thesis by simp presburger
  qed
  ultimately show ?thesis unfolding list_all_iff hexc_def by blast
qed

definition hex_value :: "string \<Rightarrow> nat" where
  "hex_value s = foldl (\<lambda>a c. a * 16 + hexv c) 0 s"

text \<open>The \<open>n\<close> low hexadecimal digits of a number.\<close>

definition hex_str :: "nat \<Rightarrow> nat \<Rightarrow> string" where
  "hex_str n v = map (\<lambda>k. hexc (drop_bit (4 * k) v)) (rev [0..<n])"

lemma length_hex_str [simp]: "length (hex_str n v) = n"
  by (simp add: hex_str_def)

lemma hex_str_Suc: "hex_str (Suc n) v = hexc (drop_bit (4 * n) v) # hex_str n v"
  by (simp add: hex_str_def)

lemma hex_loop_spec:
  "n \<le> length r \<Longrightarrow> hex_loop (t @ r) (length t) n v = Some (t @ hex_str n v @ drop n r, length t + n)"
proof (induction n arbitrary: t r)
  case 0
  then show ?case by (simp add: hex_str_def)
next
  case (Suc n)
  then obtain x q where r: "r = x # q" by (cases r) auto
  let ?d = "hexc (drop_bit (4 * n) v)"
  have "hex_loop ((t @ [?d]) @ q) (length (t @ [?d])) n v =
      Some ((t @ [?d]) @ hex_str n v @ drop n q, length (t @ [?d]) + n)"
    using Suc.prems r by (intro Suc.IH) simp
  with r show ?case by (simp add: mem_simps hex_str_Suc)
qed

lemma hex_str_snoc: "hex_str (Suc n) v = hex_str n (v div 16) @ [hexc v]"
proof -
  have "rev [0..<Suc n] = map Suc (rev [0..<n]) @ [0]"
    by (metis map_Suc_upt rev.simps(2) rev_map upt_conv_Cons zero_less_Suc)
  moreover have "drop_bit (4 * Suc k) v = drop_bit (4 * k) (v div 16)" for k
    by (simp add: drop_bit_eq_div power_add div_mult2_eq mult.commute)
  ultimately show ?thesis by (simp add: hex_str_def)
qed

lemma hex_value_hex_str: "hex_value (hex_str n v) = v mod 16 ^ n"
proof (induction n arbitrary: v)
  case 0
  then show ?case by (simp add: hex_value_def hex_str_def)
next
  case (Suc n)
  have "hex_value (hex_str (Suc n) v) = hex_value (hex_str n (v div 16)) * 16 + v mod 16"
    by (simp add: hex_str_snoc hex_value_def hexv_hexc)
  also have "\<dots> = (v div 16) mod 16 ^ n * 16 + v mod 16"
    by (simp only: Suc.IH)
  also have "\<dots> = v mod (16 * 16 ^ n)"
    by (simp add: mod_mult2_eq)
  finally show ?case by simp
qed

lemma hex_shift_bound: "v < 16 ^ hex_shift v"
proof (induction v rule: hex_shift.induct)
  case (1 v)
  show ?case
  proof (cases "v = 0")
    case True
    then show ?thesis by (simp add: hex_shift.simps)
  next
    case False
    with 1 have "v div 16 < 16 ^ hex_shift (v div 16)" by simp
    then have "v < 16 * 16 ^ hex_shift (v div 16)" by (simp add: div_less_iff_less_mult mult.commute)
    with False show ?thesis by (subst hex_shift.simps) simp
  qed
qed

lemma hex_digits_bound: "v < 16 ^ hex_digits v"
proof -
  have "hex_shift v \<le> hex_digits v" by (simp add: hex_digits_def Let_def)
  then have "(16::nat) ^ hex_shift v \<le> 16 ^ hex_digits v" by (simp add: power_increasing)
  with hex_shift_bound [of v] show ?thesis by (rule less_le_trans)
qed

lemma hex_digits_even: "even (hex_digits v)" "2 \<le> hex_digits v"
  by (auto simp: hex_digits_def Let_def elim!: oddE)

lemma buffer_append_long_hex_spec:
  assumes "buffer_ok b"
  shows "\<exists>b'. buffer_append_long_hex g b v = Some (0, Some b') \<and>
    buffer_ok b' \<and> buf_abs b' = Some (bs_str (buf_abs b) @ hex_str (hex_digits v) v)"
proof -
  let ?t = "bs_str (buf_abs b)" and ?n = "hex_digits v"
  obtain b1 r where p: "append_room g b (?n + 1) = Some b1"
    "b_ptr b1 = Some (?t @ r)" "b_used b1 = length ?t + 1"
    "b_size b1 = length ?t + length r" "?n + 1 \<le> length r"
    using append_room_spec [OF assms] by metis
  obtain x q where q: "drop ?n r = x # q" "length r = ?n + 1 + length q"
    using p(5) by (cases "drop ?n r") (auto dest: arg_cong [where f = length])
  let ?s = "?t @ hex_str ?n v"
  let ?b = "b1\<lparr>b_ptr := Some (?s @ NUL # q), b_used := length ?s + 1\<rparr>"
  have "hex_loop (?t @ r) (length ?t) ?n v = Some (?s @ x # q, length ?s)"
    using hex_loop_spec [of ?n r ?t v] p(5) q(1) by simp
  then have "buffer_append_long_hex g b v = Some (0, Some ?b)"
    using p mem_set_append [of ?s x q NUL] by (simp add: buffer_append_long_hex_def)
  then show ?thesis
    using buffer_okI [of ?b ?s q] p q by simp
qed

lemma copy_hex_loop_spec:
  "2 * length s \<le> length r \<Longrightarrow> copy_hex_loop (t @ r) (length t) s =
     Some (t @ concat (map (\<lambda>c. [hexc (uchar c div 16), hexc (uchar c)]) s) @ drop (2 * length s) r,
           length t + 2 * length s)"
proof (induction s arbitrary: t r)
  case Nil
  then show ?case by simp
next
  case (Cons c s)
  then obtain x y q where r: "r = x # y # q"
    by (cases r; cases "tl r") auto
  let ?h = "[hexc (uchar c div 16), hexc (uchar c)]"
  have "mem_set (t @ hexc (uchar c div 16) # y # q) (length t + 1) (hexc (uchar c)) = Some (t @ ?h @ q)"
    using mem_set_append [of "t @ [hexc (uchar c div 16)]" y q "hexc (uchar c)"] by simp
  moreover have "copy_hex_loop ((t @ ?h) @ q) (length (t @ ?h)) s =
     Some ((t @ ?h) @ concat (map (\<lambda>c. [hexc (uchar c div 16), hexc (uchar c)]) s) @ drop (2 * length s) q,
           length (t @ ?h) + 2 * length s)"
    using Cons.prems r by (intro Cons.IH) simp
  ultimately show ?case using r by (simp add: mem_simps)
qed

lemma buffer_copy_string_hex_spec:
  assumes "buffer_wf b" "n \<le> length s" "n < 2 ^ 63"
  shows "\<exists>b'. buffer_copy_string_hex g b s n = Some (0, Some b') \<and> buffer_ok b' \<and>
    buf_abs b' = Some (concat (map (\<lambda>c. [hexc (uchar c div 16), hexc (uchar c)]) (take n s)))"
proof -
  let ?h = "concat (map (\<lambda>c. [hexc (uchar c div 16), hexc (uchar c)]) (take n s))"
  have len: "length ?h = 2 * n"
    using assms(2) by (simp add: length_concat comp_def sum_list_triv)
  obtain b1 m where p: "buffer_prepare_copy g (Some b) (n * 2 + 1) = Some (0, Some b1)"
    "b_ptr b1 = Some m" "length m = b_size b1" "b_used b1 = 0" "n * 2 + 1 \<le> b_size b1"
    using prepare_copy_spec [OF assms(1)] by metis
  obtain x q where q: "drop (2 * n) m = x # q" "length m = 2 * n + 1 + length q"
    using p(3,5) by (cases "drop (2 * n) m") (auto dest: arg_cong [where f = length])
  have "copy_hex_loop m 0 (take n s) = Some (?h @ x # q, 2 * n)"
    using copy_hex_loop_spec [of "take n s" m "[]"] assms(2) p(3,5) q(1) by simp
  moreover have "mem_set (?h @ x # q) (2 * n) NUL = Some (?h @ NUL # q)"
    using mem_set_append [of ?h x q NUL] len by simp
  moreover have "\<not> (n * 2) mod 2 ^ 64 < n"
    using assms(3) by simp
  ultimately have "buffer_copy_string_hex g b s n =
      Some (0, Some (b1\<lparr>b_ptr := Some (?h @ NUL # q), b_used := 2 * n + 1\<rparr>))"
    using p assms(2) by (simp add: buffer_copy_string_hex_def mem_simps del: power_numeral)
  then show ?thesis
    using buffer_okI [of "b1\<lparr>b_ptr := Some (?h @ NUL # q), b_used := 2 * n + 1\<rparr>" ?h q] p q len by simp
qed

section \<open>Properties\<close>

text \<open>Every 64-bit number except \<open>LONG_MIN\<close> is appended as its decimal digits, inside the 32
  bytes the code reserves, and reading the digits back gives the number.\<close>

theorem append_long_roundtrip:
  assumes "buffer_ok b" "- (2 ^ 63) < v" "v < 2 ^ 63"
  shows "\<exists>b' ds. buffer_append_long g (Some b) v = Some (0, Some b') \<and> buffer_ok b' \<and>
    buf_abs b' = Some (bs_str (buf_abs b) @ (if v < 0 then ''-'' else []) @ ds) \<and>
    list_all (\<lambda>c. light_isdigit (schar c)) ds \<and> int (digits_value ds) = \<bar>v\<bar>"
proof -
  obtain b' where "buffer_append_long g (Some b) v = Some (0, Some b')" "buffer_ok b'"
    "buf_abs b' = Some (bs_str (buf_abs b) @ dec_int v)"
    using buffer_append_long_spec [OF assms] by blast
  then show ?thesis
    by (intro exI [of _ b'] exI [of _ "dec_nat (nat \<bar>v\<bar>)"])
      (auto simp: dec_int_def dec_nat_digits digits_value_dec_nat abs_if)
qed

theorem append_long_roundtrip_witness:
  "\<exists>b' ds. buffer_append_long (\<lambda>_. NUL) (Some (mkbuf ''n='')) (-42) = Some (0, Some b') \<and> buffer_ok b' \<and>
    buf_abs b' = Some (''n=-'' @ ds) \<and> list_all (\<lambda>c. light_isdigit (schar c)) ds \<and> digits_value ds = 42"
  using append_long_roundtrip [of "mkbuf ''n=''" "-42" "\<lambda>_. NUL"] by auto

text \<open>Chunk sizes: \<open>buffer_append_long_hex\<close> appends an even number of at least two hexadecimal
  digits that denote exactly the number.\<close>

theorem append_long_hex_roundtrip:
  assumes "buffer_ok b"
  shows "\<exists>b' ds. buffer_append_long_hex g b v = Some (0, Some b') \<and> buffer_ok b' \<and>
    buf_abs b' = Some (bs_str (buf_abs b) @ ds) \<and> even (length ds) \<and> 2 \<le> length ds \<and> hex_value ds = v"
  using buffer_append_long_hex_spec [OF assms, of g v] hex_digits_bound [of v] hex_digits_even [of v]
  by (auto simp: hex_value_hex_str intro!: exI [of _ "hex_str (hex_digits v) v"])

theorem append_long_hex_roundtrip_witness:
  "\<exists>b' ds. buffer_append_long_hex (\<lambda>_. NUL) (mkbuf []) 4660 = Some (0, Some b') \<and> buffer_ok b' \<and>
    buf_abs b' = Some ds \<and> even (length ds) \<and> 2 \<le> length ds \<and> hex_value ds = 4660"
  using append_long_hex_roundtrip [of "mkbuf []" "\<lambda>_. NUL" 4660] by simp

end
