(* ===== verification/Etag.thy ===== *)
theory Etag
  imports Numbers
begin

text \<open>
  The entity tags of \<open>etag.c\<close>, on the meanings of buffers: \<open>etag_create\<close> writes the chosen fields of the file
  status, \<open>etag_mutate\<close> turns a tag into the quoted hash that is sent, \<open>etag_is_equal\<close> compares. The file
  status is the part of \<open>struct stat\<close> that the server reads, with the type bits of \<open>st_mode\<close>.

  The lemmas show that, with all fields chosen, the tag determines inode, size and modification time.
\<close>

section \<open>File status\<close>

record file_stat =
  st_mode :: int
  st_ino :: int
  st_size :: int
  st_mtime :: int

definition S_ISREG :: "int \<Rightarrow> bool" where
  "S_ISREG m = (m AND 61440 = 32768)"

definition S_ISDIR :: "int \<Rightarrow> bool" where
  "S_ISDIR m = (m AND 61440 = 16384)"

definition S_ISLNK :: "int \<Rightarrow> bool" where
  "S_ISLNK m = (m AND 61440 = 40960)"

section \<open>Tags\<close>

definition ETAG_USE_INODE :: nat where "ETAG_USE_INODE = 1"
definition ETAG_USE_MTIME :: nat where "ETAG_USE_MTIME = 2"
definition ETAG_USE_SIZE :: nat where "ETAG_USE_SIZE = 4"

definition etag_is_equal :: "bstr option \<Rightarrow> string \<Rightarrow> int" where
  "etag_is_equal etag matches = (case etag of
     Some (Some s) \<Rightarrow> if c_str s = c_str matches then 1 else 0
   | _ \<Rightarrow> 0)"

definition etag_create :: "bstr \<Rightarrow> file_stat \<Rightarrow> nat \<Rightarrow> bstr" where
  "etag_create etag st flags =
     (if flags = 0 then etag
      else
        (let b0 = None;
             b1 = (if flags AND ETAG_USE_INODE \<noteq> 0 then bs_append (bs_append b0 (dec_int (st_ino st))) ''-'' else b0);
             b2 = (if flags AND ETAG_USE_SIZE \<noteq> 0 then bs_append (bs_append b1 (dec_int (st_size st))) ''-'' else b1)
         in if flags AND ETAG_USE_MTIME \<noteq> 0 then bs_append b2 (dec_int (st_mtime st)) else b2))"

text \<open>The loop runs to \<open>etag->used\<close>, so over the terminating NUL as well.\<close>

fun mutate_loop :: "32 word \<Rightarrow> char list \<Rightarrow> 32 word" where
  "mutate_loop h [] = h"
| "mutate_loop h (c # cs) = mutate_loop ((push_bit 5 h XOR drop_bit 27 h) XOR word_of_int (schar c)) cs"

definition etag_mutate :: "bstr \<Rightarrow> bstr" where
  "etag_mutate etag =
     (let h = mutate_loop 0 (case etag of None \<Rightarrow> [] | Some s \<Rightarrow> s @ [NUL]);
          mut = Some [CHR 0x22]
      in bs_append (bs_append mut (dec_int (uint h))) [CHR 0x22])"

section \<open>What a tag determines\<close>

lemma split_at_first:
  "x \<notin> set a \<Longrightarrow> x \<notin> set b \<Longrightarrow> a @ x # r = b @ x # r' \<Longrightarrow> a = b \<and> r = r'"
proof (induction a arbitrary: b)
  case Nil
  then show ?case by (cases b) auto
next
  case (Cons c a)
  then show ?case by (cases b) auto
qed

lemma digit_no_minus: "light_isdigit (schar c) \<Longrightarrow> c \<noteq> CHR ''-''"
  by (auto simp: light_isdigit_def schar_def)

lemma minus_notin_dec_nat: "CHR ''-'' \<notin> set (dec_nat n)"
  using dec_nat_digits [of n] digit_no_minus by (auto simp: list_all_iff)

lemma dec_int_nonneg: "0 \<le> v \<Longrightarrow> CHR ''-'' \<notin> set (dec_int v)"
  by (simp add: dec_int_def minus_notin_dec_nat)

lemma dec_nat_not_Nil: "dec_nat n \<noteq> []"
  by (subst dec_nat.simps) simp

lemma dec_int_not_Nil: "dec_int v \<noteq> []"
  by (simp add: dec_int_def dec_nat_not_Nil)

lemma dec_int_inject: "dec_int a = dec_int b \<longleftrightarrow> a = b"
proof
  assume eq: "dec_int a = dec_int b"
  have "a < 0 \<longleftrightarrow> b < 0"
    using eq minus_notin_dec_nat [of "nat a"] minus_notin_dec_nat [of "nat b"] by (auto simp: dec_int_def split: if_splits) (metis list.set_intros(1))+
  with eq show "a = b" by (auto simp: dec_int_def dec_nat_inject split: if_splits)
qed simp

lemma etag_create_all:
  "etag_create etag st 7 = Some (dec_int (st_ino st) @ CHR ''-'' # dec_int (st_size st) @ CHR ''-'' # dec_int (st_mtime st))"
  by (simp add: etag_create_def ETAG_USE_INODE_def ETAG_USE_MTIME_def ETAG_USE_SIZE_def bs_append_def dec_int_not_Nil Let_def)

text \<open>One step of the hash rotates by five bits, which can be undone.\<close>

lemma rotate_inject:
  fixes h :: "32 word"
  assumes "push_bit 5 h XOR drop_bit 27 h = push_bit 5 k XOR drop_bit 27 k"
  shows "h = k"
proof -
  have undo: "drop_bit 5 (push_bit 5 x XOR drop_bit 27 x) XOR push_bit 27 (push_bit 5 x XOR drop_bit 27 x) = x" for x :: "32 word"
    by (rule bit_word_eqI) (auto simp: bit_simps)
  from undo [of h] undo [of k] assms show ?thesis by simp
qed

lemma xor_cancel:
  fixes a b c :: "32 word"
  shows "a XOR c = b XOR c \<longleftrightarrow> a = b" "c XOR a = c XOR b \<longleftrightarrow> a = b"
proof -
  show *: "a XOR c = b XOR c \<longleftrightarrow> a = b" for a b c :: "32 word"
  proof
    assume "a XOR c = b XOR c"
    then have "(a XOR c) XOR c = (b XOR c) XOR c" by simp
    then show "a = b" by (simp add: xor.assoc)
  qed simp
  show "c XOR a = c XOR b \<longleftrightarrow> a = b" using * [of a c b] by (simp add: xor.commute)
qed

lemma mutate_loop_append: "mutate_loop h (s @ t) = mutate_loop (mutate_loop h s) t"
  by (induction h s rule: mutate_loop.induct) simp_all

lemma mutate_loop_inject: "mutate_loop h s = mutate_loop k s \<Longrightarrow> h = k"
proof (induction s arbitrary: h k)
  case (Cons c s)
  from Cons.IH [of "(push_bit 5 h XOR drop_bit 27 h) XOR word_of_int (schar c)" "(push_bit 5 k XOR drop_bit 27 k) XOR word_of_int (schar c)"] Cons.prems
  have "push_bit 5 h XOR drop_bit 27 h = push_bit 5 k XOR drop_bit 27 k" by (simp add: xor_cancel)
  then show ?case by (rule rotate_inject)
qed simp

lemma schar_word_inject: "(word_of_int (schar a) :: 32 word) = word_of_int (schar b) \<longleftrightarrow> a = b"
proof
  assume "(word_of_int (schar a) :: 32 word) = word_of_int (schar b)"
  then have "schar a mod 2 ^ 32 = schar b mod 2 ^ 32"
    by (simp add: word_of_int_eq_iff take_bit_eq_mod)
  then have "2 ^ 32 dvd schar a - schar b" by (simp add: mod_eq_dvd_iff)
  moreover have "\<bar>schar a - schar b\<bar> < 2 ^ 32" using schar_bounds [of a] schar_bounds [of b] by simp
  ultimately have "schar a - schar b = 0" using dvd_imp_le_int [of "schar a - schar b" "2 ^ 32"] by auto
  then show "a = b" by simp
qed simp

lemma mutate_one_char:
  assumes "mutate_loop h (s @ a # t) = mutate_loop h (s @ b # t)"
  shows "a = b"
  using mutate_loop_inject [OF assms [unfolded mutate_loop_append mutate_loop.simps]] by (simp add: xor_cancel schar_word_inject)

lemma etag_mutate_form:
  "etag_mutate (Some s) = Some (CHR 0x22 # dec_int (uint (mutate_loop 0 (s @ [NUL]))) @ [CHR 0x22])"
  by (simp add: etag_mutate_def bs_append_def dec_int_not_Nil Let_def)

text \<open>With inode, size and modification time chosen, the tag determines the three fields: two files (with
  non-negative inode and size) have the same tag only if they agree in all of them. The tag that is sent is a quoted
  number, and it changes when one character of the tag changes.\<close>

theorem etag_determines:
  "(0 \<le> st_ino a \<and> 0 \<le> st_size a \<and> 0 \<le> st_ino b \<and> 0 \<le> st_size b \<longrightarrow>
     (etag_create e a 7 = etag_create f b 7 \<longleftrightarrow> st_ino a = st_ino b \<and> st_size a = st_size b \<and> st_mtime a = st_mtime b)) \<and>
   (etag_mutate (Some (s @ x # t)) = etag_mutate (Some (s @ y # t)) \<longleftrightarrow> x = y) \<and>
   (\<exists>v. 0 \<le> v \<and> v < 2 ^ 32 \<and> etag_mutate (Some s) = Some (CHR 0x22 # dec_int v @ [CHR 0x22]))"
proof (intro conjI impI)
  assume nn: "0 \<le> st_ino a \<and> 0 \<le> st_size a \<and> 0 \<le> st_ino b \<and> 0 \<le> st_size b"
  show "etag_create e a 7 = etag_create f b 7 \<longleftrightarrow> st_ino a = st_ino b \<and> st_size a = st_size b \<and> st_mtime a = st_mtime b"
  proof
    assume "etag_create e a 7 = etag_create f b 7"
    then have eq: "dec_int (st_ino a) @ CHR ''-'' # dec_int (st_size a) @ CHR ''-'' # dec_int (st_mtime a) =
      dec_int (st_ino b) @ CHR ''-'' # dec_int (st_size b) @ CHR ''-'' # dec_int (st_mtime b)" unfolding etag_create_all by simp
    have 1: "dec_int (st_ino a) = dec_int (st_ino b) \<and>
      dec_int (st_size a) @ CHR ''-'' # dec_int (st_mtime a) = dec_int (st_size b) @ CHR ''-'' # dec_int (st_mtime b)"
      using nn by (intro split_at_first [OF _ _ eq] dec_int_nonneg) simp_all
    moreover have "dec_int (st_size a) = dec_int (st_size b) \<and> dec_int (st_mtime a) = dec_int (st_mtime b)"
      using nn by (intro split_at_first [OF _ _ conjunct2 [OF 1]] dec_int_nonneg) simp_all
    ultimately show "st_ino a = st_ino b \<and> st_size a = st_size b \<and> st_mtime a = st_mtime b" by (simp add: dec_int_inject)
  qed (simp add: etag_create_all)
next
  show "etag_mutate (Some (s @ x # t)) = etag_mutate (Some (s @ y # t)) \<longleftrightarrow> x = y"
    using mutate_one_char [of 0 s x "t @ [NUL]" y] by (auto simp: etag_mutate_form dec_int_inject word_uint_eq_iff)
next
  have "0 \<le> uint (mutate_loop 0 (s @ [NUL]))" "uint (mutate_loop 0 (s @ [NUL])) < 2 ^ 32"
    using uint_lt2p [of "mutate_loop 0 (s @ [NUL])"] by simp_all
  then show "\<exists>v. 0 \<le> v \<and> v < 2 ^ 32 \<and> etag_mutate (Some s) = Some (CHR 0x22 # dec_int v @ [CHR 0x22])"
    unfolding etag_mutate_form by blast
qed

theorem etag_determines_witness:
  "etag_create None \<lparr>st_mode = 32768, st_ino = 7, st_size = 10, st_mtime = 99\<rparr> 7 \<noteq>
   etag_create None \<lparr>st_mode = 32768, st_ino = 7, st_size = 10, st_mtime = 100\<rparr> 7"
  using etag_determines [of "\<lparr>st_mode = 32768, st_ino = 7, st_size = 10, st_mtime = 99\<rparr>"
      "\<lparr>st_mode = 32768, st_ino = 7, st_size = 10, st_mtime = 100\<rparr>" None None "[]" "CHR ''a''" "[]" "CHR ''b''"] by simp

end
