(* ===== verification/ArrayData.thy ===== *)
theory ArrayData
  imports Buffer Numbers
begin

text \<open>
  The elements of lighttpd's arrays (\<open>array.h\<close>, \<open>data_string.c\<close>, \<open>data_count.c\<close>,
  \<open>data_integer.c\<close>, \<open>data_fastcgi.c\<close>). A \<open>data_unset\<close> is a key, the flag \<open>is_index_key\<close> and a
  payload; the function pointers of the C structure are the constructor of the payload, and a
  call through one of them is a function by cases on it. A data_string whose \<open>insert_dup\<close> is
  \<open>data_response_insert_dup\<close> is \<open>DResponse\<close>.

  From here on a buffer is represented by its meaning \<open>buf_abs\<close>, of type \<open>bstr\<close>: the lemmas of
  \<open>Buffer\<close> say what each buffer operation does to it. \<open>string_dup_bufs\<close> and
  \<open>response_dup_bufs\<close> are the two \<open>insert_dup\<close> functions on real buffers, and the lemmas
  after them show that they do on buffers what the model does on their meanings.
\<close>

section \<open>Elements\<close>

record data_fastcgi =
  fc_host :: bstr
  fc_port :: nat
  fc_disable_ts :: int
  fc_is_disabled :: int
  fc_balance :: nat
  fc_usage :: int
  fc_last_used_ndx :: int

datatype payload =
    DString bstr
  | DResponse bstr
  | DCount int
  | DInteger int
  | DFastcgi data_fastcgi

record data_unset =
  du_key :: bstr
  du_is_index_key :: bool
  du_val :: payload

datatype data_type_t =
  TYPE_UNSET | TYPE_STRING | TYPE_COUNT | TYPE_ARRAY | TYPE_INTEGER | TYPE_FASTCGI | TYPE_CONFIG

fun payload_type :: "payload \<Rightarrow> data_type_t" where
  "payload_type (DString _) = TYPE_STRING"
| "payload_type (DResponse _) = TYPE_STRING"
| "payload_type (DCount _) = TYPE_COUNT"
| "payload_type (DInteger _) = TYPE_INTEGER"
| "payload_type (DFastcgi _) = TYPE_FASTCGI"

definition data_string_init :: data_unset where
  "data_string_init = \<lparr>du_key = None, du_is_index_key = False, du_val = DString None\<rparr>"

definition data_response_init :: data_unset where
  "data_response_init = data_string_init\<lparr>du_val := DResponse None\<rparr>"

definition data_count_init :: data_unset where
  "data_count_init = \<lparr>du_key = None, du_is_index_key = False, du_val = DCount 1\<rparr>"

definition data_integer_init :: data_unset where
  "data_integer_init = \<lparr>du_key = None, du_is_index_key = False, du_val = DInteger 0\<rparr>"

definition data_fastcgi_init :: data_unset where
  "data_fastcgi_init = \<lparr>du_key = None, du_is_index_key = False,
     du_val = DFastcgi \<lparr>fc_host = None, fc_port = 0, fc_disable_ts = 0, fc_is_disabled = 0,
                        fc_balance = 0, fc_usage = 0, fc_last_used_ndx = 0\<rparr>\<rparr>"

section \<open>copy\<close>

text \<open>\<open>data_string_copy\<close> serves both kinds of strings and builds its result with
  \<open>data_string_init\<close>, so the copy of a response element merges like a plain string.\<close>

definition data_string_copy :: "data_unset \<Rightarrow> bstr \<Rightarrow> data_unset" where
  "data_string_copy src v = data_string_init
     \<lparr>du_key := du_key src, du_val := DString v, du_is_index_key := du_is_index_key src\<rparr>"

definition data_count_copy :: "data_unset \<Rightarrow> int \<Rightarrow> data_unset" where
  "data_count_copy src n = data_count_init
     \<lparr>du_key := du_key src, du_val := DCount n, du_is_index_key := du_is_index_key src\<rparr>"

definition data_integer_copy :: "data_unset \<Rightarrow> int \<Rightarrow> data_unset" where
  "data_integer_copy src n = data_integer_init
     \<lparr>du_key := du_key src, du_is_index_key := du_is_index_key src, du_val := DInteger n\<rparr>"

text \<open>Only the host is copied; port, counters and flags start afresh.\<close>

definition data_fastcgi_copy :: "data_unset \<Rightarrow> data_fastcgi \<Rightarrow> data_unset" where
  "data_fastcgi_copy src f = data_fastcgi_init
     \<lparr>du_key := du_key src,
      du_val := (case du_val data_fastcgi_init of
                   DFastcgi f0 \<Rightarrow> DFastcgi (f0\<lparr>fc_host := fc_host f\<rparr>) | v \<Rightarrow> v),
      du_is_index_key := du_is_index_key src\<rparr>"

definition du_copy :: "data_unset \<Rightarrow> data_unset" where
  "du_copy src = (case du_val src of
     DString v \<Rightarrow> data_string_copy src v
   | DResponse v \<Rightarrow> data_string_copy src v
   | DCount n \<Rightarrow> data_count_copy src n
   | DInteger n \<Rightarrow> data_integer_copy src n
   | DFastcgi f \<Rightarrow> data_fastcgi_copy src f)"

section \<open>reset\<close>

text \<open>No \<open>reset\<close> touches \<open>is_index_key\<close>.\<close>

fun reset_payload :: "payload \<Rightarrow> payload" where
  "reset_payload (DString _) = DString None"
| "reset_payload (DResponse _) = DResponse None"
| "reset_payload (DCount _) = DCount 0"
| "reset_payload (DInteger _) = DInteger 0"
| "reset_payload (DFastcgi f) = DFastcgi (f\<lparr>fc_host := None\<rparr>)"

definition du_reset :: "data_unset \<Rightarrow> data_unset" where
  "du_reset du = du\<lparr>du_key := None, du_val := reset_payload (du_val du)\<rparr>"

section \<open>\<open>insert_dup\<close>\<close>

definition data_string_insert_dup :: "bstr \<Rightarrow> bstr \<Rightarrow> bstr" where
  "data_string_insert_dup dst src = (case dst of
     Some _ \<Rightarrow> bs_append_buffer (bs_append dst '', '') src
   | None \<Rightarrow> src)"

definition data_response_insert_dup :: "bstr \<Rightarrow> bstr \<Rightarrow> bstr \<Rightarrow> bstr" where
  "data_response_insert_dup key dst src = (case dst of
     Some _ \<Rightarrow> bs_append_buffer (bs_append (bs_append_buffer (bs_append dst [CR, LF]) key) '': '') src
   | None \<Rightarrow> src)"

definition INT_MAX :: int where
  "INT_MAX = 2 ^ 31 - 1"

definition data_count_insert_dup :: "int \<Rightarrow> int \<Rightarrow> int option" where
  "data_count_insert_dup dst src =
     (if - INT_MAX - 1 \<le> dst + src \<and> dst + src \<le> INT_MAX then Some (dst + src) else None)"

text \<open>\<open>str->insert_dup(a->data[ndx], str)\<close>: the function is that of the new element. The caller
  has compared the two types; a string function on anything but a string is a fault.\<close>

definition du_insert_dup :: "data_unset \<Rightarrow> data_unset \<Rightarrow> data_unset option" where
  "du_insert_dup dst src = (case (du_val src, du_val dst) of
     (DString v, DString w) \<Rightarrow> Some (dst\<lparr>du_val := DString (data_string_insert_dup w v)\<rparr>)
   | (DString v, DResponse w) \<Rightarrow> Some (dst\<lparr>du_val := DResponse (data_string_insert_dup w v)\<rparr>)
   | (DResponse v, DString w) \<Rightarrow> Some (dst\<lparr>du_val := DString (data_response_insert_dup (du_key dst) w v)\<rparr>)
   | (DResponse v, DResponse w) \<Rightarrow> Some (dst\<lparr>du_val := DResponse (data_response_insert_dup (du_key dst) w v)\<rparr>)
   | (DCount m, DCount n) \<Rightarrow> map_option (\<lambda>k. dst\<lparr>du_val := DCount k\<rparr>) (data_count_insert_dup n m)
   | (DInteger _, DInteger _) \<Rightarrow> Some dst
   | (DFastcgi _, DFastcgi _) \<Rightarrow> Some dst
   | _ \<Rightarrow> None)"

section \<open>The string elements on real buffers\<close>

definition string_dup_bufs :: "junk \<Rightarrow> buffer \<Rightarrow> buffer \<Rightarrow> buffer option" where
  "string_dup_bufs g dst src =
     (if b_used dst \<noteq> 0 then do {
        (_, d1) \<leftarrow> buffer_append_string_len g (Some dst) (Some '', '') 2;
        (_, d2) \<leftarrow> buffer_append_string_buffer g d1 (Some src);
        d2
      }
      else do {
        (_, d1) \<leftarrow> buffer_copy_string_buffer g (Some dst) (Some src);
        d1
      })"

definition response_dup_bufs :: "junk \<Rightarrow> buffer \<Rightarrow> buffer \<Rightarrow> buffer \<Rightarrow> buffer option" where
  "response_dup_bufs g key dst src =
     (if b_used dst \<noteq> 0 then do {
        (_, d1) \<leftarrow> buffer_append_string_len g (Some dst) (Some [CR, LF]) 2;
        (_, d2) \<leftarrow> buffer_append_string_buffer g d1 (Some key);
        (_, d3) \<leftarrow> buffer_append_string_len g d2 (Some '': '') 2;
        (_, d4) \<leftarrow> buffer_append_string_buffer g d3 (Some src);
        d4
      }
      else do {
        (_, d1) \<leftarrow> buffer_copy_string_buffer g (Some dst) (Some src);
        d1
      })"

lemma copy_string_buffer_ok:
  assumes "buffer_ok dst" "buffer_ok src"
  obtains b where "buffer_copy_string_buffer g (Some dst) (Some src) = Some (0, Some b)"
    "buffer_ok b" "buf_abs b = buf_abs src"
  using buffer_copy_string_buffer_spec [OF buffer_ok_wf [OF assms(1)] assms(2), of g] assms(1) by blast

lemma append_const_ok:
  assumes "buffer_ok dst"
  obtains b where "buffer_append_string_len g (Some dst) (Some s) (length s) = Some (0, Some b)"
    "buffer_ok b" "buf_abs b = bs_append (buf_abs dst) s"
  using buffer_append_string_len_spec [OF assms, of "length s" s g] by auto

lemma append_buffer_ok:
  assumes "buffer_ok dst" "buffer_ok src"
  obtains b where "buffer_append_string_buffer g (Some dst) (Some src) = Some (0, Some b)"
    "buffer_ok b" "buf_abs b = bs_append_buffer (buf_abs dst) (buf_abs src)"
  using buffer_append_string_buffer_spec [OF assms, of g] by blast

lemma string_dup_bufs_spec:
  assumes "buffer_ok dst" "buffer_ok src"
  shows "\<exists>b. string_dup_bufs g dst src = Some b \<and> buffer_ok b \<and>
    buf_abs b = data_string_insert_dup (buf_abs dst) (buf_abs src)"
proof (cases "b_used dst = 0")
  case True
  obtain b where "buffer_copy_string_buffer g (Some dst) (Some src) = Some (0, Some b)"
    "buffer_ok b" "buf_abs b = buf_abs src"
    using copy_string_buffer_ok [OF assms] .
  with True assms buf_abs_None_iff [of dst] show ?thesis
    by (auto simp: string_dup_bufs_def data_string_insert_dup_def buffer_ok_wf)
next
  case False
  obtain d1 where d1: "buffer_append_string_len g (Some dst) (Some '', '') 2 = Some (0, Some d1)"
    "buffer_ok d1" "buf_abs d1 = bs_append (buf_abs dst) '', ''"
    using append_const_ok [OF assms(1), of g "'', ''"] by (auto simp: numeral_2_eq_2)
  obtain d2 where "buffer_append_string_buffer g (Some d1) (Some src) = Some (0, Some d2)"
    "buffer_ok d2" "buf_abs d2 = bs_append_buffer (buf_abs d1) (buf_abs src)"
    using append_buffer_ok [OF d1(2) assms(2)] by blast
  with d1 False buf_abs_None_iff [OF buffer_ok_wf [OF assms(1)]] show ?thesis
    by (auto simp: string_dup_bufs_def data_string_insert_dup_def split: option.splits)
qed

lemma response_dup_bufs_spec:
  assumes "buffer_ok key" "buffer_ok dst" "buffer_ok src"
  shows "\<exists>b. response_dup_bufs g key dst src = Some b \<and> buffer_ok b \<and>
    buf_abs b = data_response_insert_dup (buf_abs key) (buf_abs dst) (buf_abs src)"
proof (cases "b_used dst = 0")
  case True
  obtain b where "buffer_copy_string_buffer g (Some dst) (Some src) = Some (0, Some b)"
    "buffer_ok b" "buf_abs b = buf_abs src"
    using copy_string_buffer_ok [OF assms(2,3)] .
  with True assms buf_abs_None_iff [of dst] show ?thesis
    by (auto simp: response_dup_bufs_def data_response_insert_dup_def buffer_ok_wf)
next
  case False
  obtain d1 where d1: "buffer_append_string_len g (Some dst) (Some [CR, LF]) 2 = Some (0, Some d1)"
    "buffer_ok d1" "buf_abs d1 = bs_append (buf_abs dst) [CR, LF]"
    using append_const_ok [OF assms(2), of g "[CR, LF]"] by (auto simp: numeral_2_eq_2)
  obtain d2 where d2: "buffer_append_string_buffer g (Some d1) (Some key) = Some (0, Some d2)"
    "buffer_ok d2" "buf_abs d2 = bs_append_buffer (buf_abs d1) (buf_abs key)"
    using append_buffer_ok [OF d1(2) assms(1)] by blast
  obtain d3 where d3: "buffer_append_string_len g (Some d2) (Some '': '') 2 = Some (0, Some d3)"
    "buffer_ok d3" "buf_abs d3 = bs_append (buf_abs d2) '': ''"
    using append_const_ok [OF d2(2), of g "'': ''"] by (auto simp: numeral_2_eq_2)
  obtain d4 where "buffer_append_string_buffer g (Some d3) (Some src) = Some (0, Some d4)"
    "buffer_ok d4" "buf_abs d4 = bs_append_buffer (buf_abs d3) (buf_abs src)"
    using append_buffer_ok [OF d3(2) assms(3)] by blast
  with d1 d2 d3 False buf_abs_None_iff [OF buffer_ok_wf [OF assms(2)]] show ?thesis
    by (auto simp: response_dup_bufs_def data_response_insert_dup_def split: option.splits)
qed

section \<open>Facts about elements\<close>

lemma du_copy_key [simp]: "du_key (du_copy du) = du_key du"
  by (simp add: du_copy_def data_string_copy_def data_count_copy_def data_integer_copy_def
      data_fastcgi_copy_def split: payload.splits)

lemma du_insert_dup_key: "du_insert_dup dst src = Some d \<Longrightarrow> du_key d = du_key dst"
  by (auto simp: du_insert_dup_def split: payload.splits)

lemma du_insert_dup_type:
  "du_insert_dup dst src = Some d \<Longrightarrow> payload_type (du_val d) = payload_type (du_val dst)"
  by (auto simp: du_insert_dup_def split: payload.splits)

end
