(* ===== verification/Array.thy ===== *)
theory Array
  imports ArrayData Caseless
begin

text \<open>
  The associative array of lighttpd (\<open>array.c\<close>), which holds headers, the environment and the
  configuration. Elements stay where they are inserted (\<open>data\<close>); \<open>sorted\<close> lists their indices
  in the order of the keys, which \<open>buffer_caseless_compare\<close> defines, and \<open>array_get_index\<close> is a
  binary search over it with a step that is halved from \<open>next_power_of_2 / 2\<close> down to 0.

  The state is the record of the C fields. A slot of \<open>data\<close> that is \<open>NULL\<close> is \<open>None\<close>; following
  it is a fault. Entries of \<open>sorted\<close> that were never written hold an arbitrary number. The flag
  \<open>al\<close> says whether the key that is looked up is aligned for the fast path of the comparison
  (keys in buffers come from \<open>malloc\<close> and are).

  The comparison is an order only on keys without the characters between \<open>Z\<close> and \<open>a\<close>. The
  locale \<open>key_order\<close> states what the search needs of a comparison; it is interpreted with the
  code's comparison on such keys. \<open>array_ok\<close> is the invariant, and \<open>array_lookup\<close> the map an
  array stands for: the search finds an element exactly when the map has the key, and inserting
  changes the map at that key only. The locale \<open>elem_store\<close> is the interface the users of an
  array rely on, interpreted with \<open>array_insert_unique\<close> and \<open>array_get_element\<close>.
\<close>

section \<open>State and operations\<close>

record array =
  a_data :: "data_unset option list"
  a_sorted :: "nat list"
  a_used :: nat
  a_size :: nat
  a_unique_ndx :: nat
  a_next_power_of_2 :: nat
  a_is_weakref :: bool

definition array_init :: array where
  "array_init = \<lparr>a_data = [], a_sorted = [], a_used = 0, a_size = 0, a_unique_ndx = 0,
     a_next_power_of_2 = 1, a_is_weakref = False\<rparr>"

definition array_init_array :: "array \<Rightarrow> array option" where
  "array_init_array src = do {
     d \<leftarrow> mem_read (a_data src) (a_size src);
     s \<leftarrow> mem_read (a_sorted src) (a_size src);
     Some (array_init\<lparr>a_used := a_used src, a_size := a_size src,
       a_next_power_of_2 := a_next_power_of_2 src, a_unique_ndx := a_unique_ndx src,
       a_data := map (map_option du_copy) d, a_sorted := s\<rparr>)
   }"

text \<open>\<open>for (i = 0; i < a->used; i++) a->data[i]->reset(a->data[i]);\<close>\<close>

fun reset_loop :: "nat \<Rightarrow> data_unset option list \<Rightarrow> data_unset option list option" where
  "reset_loop 0 d = Some d"
| "reset_loop (Suc n) (Some du # d) = map_option (\<lambda>d'. Some (du_reset du) # d') (reset_loop n d)"
| "reset_loop (Suc n) _ = None"

definition array_reset :: "array option \<Rightarrow> array option option" where
  "array_reset ap = (case ap of
     None \<Rightarrow> Some None
   | Some a \<Rightarrow> do {
       d \<leftarrow> (if a_is_weakref a then Some (a_data a) else reset_loop (a_used a) (a_data a));
       Some (Some (a\<lparr>a_data := d, a_used := 0\<rparr>))
     })"

definition array_pop :: "array \<Rightarrow> (data_unset option \<times> array) option" where
  "array_pop a =
     (if a_used a = 0 then None
      else do {
        du \<leftarrow> mem_get (a_data a) (a_used a - 1);
        d \<leftarrow> mem_set (a_data a) (a_used a - 1) None;
        Some (du, a\<lparr>a_used := a_used a - 1, a_data := d\<rparr>)
      })"

text \<open>The bytes of a key buffer: \<open>key->used\<close> bytes at \<open>key->ptr\<close>.\<close>

definition key_bytes :: "bstr \<Rightarrow> char list" where
  "key_bytes k = (case k of None \<Rightarrow> [] | Some s \<Rightarrow> s @ [NUL])"

text \<open>\<open>a->data[a->sorted[pos]]\<close>, and its comparison with the key.\<close>

definition sorted_elem :: "array \<Rightarrow> nat \<Rightarrow> (nat \<times> data_unset) option" where
  "sorted_elem a pos = do {
     ndx \<leftarrow> mem_get (a_sorted a) pos;
     slot \<leftarrow> mem_get (a_data a) ndx;
     du \<leftarrow> slot;
     Some (ndx, du)
   }"

function search_index :: "bool \<Rightarrow> array \<Rightarrow> char list \<Rightarrow> nat \<Rightarrow> int \<Rightarrow> (int \<times> int) option" where
  "search_index al a key i pos =
     (if 0 \<le> pos \<and> pos < int (a_used a) then do {
        (ndx, du) \<leftarrow> sorted_elem a (nat pos);
        (let cmp = buffer_caseless_compare al key (key_bytes (du_key du)) in
         if cmp = 0 then Some (int ndx, pos)
         else
           (let pos' = (if cmp < 0 then pos - int i else pos + int i) in
            if i = 0 then Some (-1, pos') else search_index al a key (i div 2) pos'))
      }
      else
        (let pos' = (if pos < 0 then pos + int i else pos - int i) in
         if i = 0 then Some (-1, pos') else search_index al a key (i div 2) pos'))"
  by pat_completeness auto
termination
  by (relation "measure (\<lambda>(al, a, key, i, pos). i)") auto

declare search_index.simps [simp del]

text \<open>The index of the element (or \<open>-1\<close>) and the final value of \<open>pos\<close>, which is stored through
  \<open>rndx\<close> when that is not \<open>NULL\<close>. A \<open>NULL\<close> key returns before \<open>pos\<close> is stored: the caller's
  variable keeps the value \<open>pos0\<close>.\<close>

definition array_get_index :: "bool \<Rightarrow> array \<Rightarrow> char list option \<Rightarrow> int \<Rightarrow> (int \<times> int) option" where
  "array_get_index al a key pos0 = (case key of
     None \<Rightarrow> Some (-1, pos0)
   | Some k \<Rightarrow> search_index al a k (a_next_power_of_2 a div 2) (int (a_next_power_of_2 a div 2)))"

definition array_get_element :: "bool \<Rightarrow> array \<Rightarrow> string \<Rightarrow> data_unset option option" where
  "array_get_element al a key = do {
     (ndx, _) \<leftarrow> array_get_index al a (Some (key @ [NUL])) 0;
     (if ndx \<noteq> -1 then mem_get (a_data a) (nat ndx) else Some None)
   }"

definition array_get_unused_element :: "array \<Rightarrow> (data_unset option \<times> array) option" where
  "array_get_unused_element a =
     (if a_size a = 0 then Some (None, a)
      else if a_used a = a_size a then Some (None, a)
      else do {
        slot \<leftarrow> mem_get (a_data a) (a_used a);
        (case slot of
           None \<Rightarrow> Some (None, a)
         | Some ds \<Rightarrow> do {
             d \<leftarrow> mem_set (a_data a) (a_used a) None;
             Some (Some ds, a\<lparr>a_data := d\<rparr>)
           })
      })"

text \<open>Room for one more element: 16 slots at a time, the new ones \<open>NULL\<close>.\<close>

definition array_grow :: "(nat \<Rightarrow> nat) \<Rightarrow> array \<Rightarrow> array" where
  "array_grow gs a =
     (if a_size a = 0 then
        a\<lparr>a_size := 16, a_data := replicate 16 None, a_sorted := map gs [0..<16]\<rparr>
      else if a_size a = a_used a then
        a\<lparr>a_size := a_size a + 16,
          a_data := take (a_used a) (a_data a) @ replicate 16 None,
          a_sorted := a_sorted a @ map gs [a_size a..<a_size a + 16]\<rparr>
      else a)"

text \<open>\<open>memmove(a->sorted + (pos + 1), a->sorted + pos, (ndx - pos) * sizeof(*a->sorted));
  a->sorted[pos] = ndx;\<close>\<close>

definition shift_in :: "nat list \<Rightarrow> nat \<Rightarrow> nat \<Rightarrow> nat list option" where
  "shift_in s pos ndx = do {
     s1 \<leftarrow> (if pos \<noteq> ndx then do {
              mv \<leftarrow> mem_read (drop pos s) (ndx - pos);
              mem_copy s (pos + 1) mv
            }
            else Some s);
     mem_set s1 pos ndx
   }"

text \<open>\<open>if (str->key->used == 0 || str->is_index_key) \<dots>\<close>: an element without a key gets the next
  unused number as its key.\<close>

definition unique_key :: "array \<Rightarrow> data_unset \<Rightarrow> array \<times> data_unset" where
  "unique_key a str =
     (if du_key str = None \<or> du_is_index_key str
      then (a\<lparr>a_unique_ndx := a_unique_ndx a + 1\<rparr>,
            str\<lparr>du_key := Some (dec_int (int (a_unique_ndx a))), du_is_index_key := True\<rparr>)
      else (a, str))"

text \<open>\<open>if (pos != ndx && ((pos < 0) || buffer_caseless_compare(\<dots>) > 0)) pos++;\<close>\<close>

definition insert_pos :: "array \<Rightarrow> data_unset \<Rightarrow> int \<Rightarrow> nat \<Rightarrow> int option" where
  "insert_pos a str pos ndx =
     (if pos \<noteq> int ndx then
        (if pos < 0 then Some (pos + 1)
         else do {
           (_, du) \<leftarrow> sorted_elem a (nat pos);
           Some (if buffer_caseless_compare True (key_bytes (du_key str)) (key_bytes (du_key du)) > 0
                 then pos + 1 else pos)
         })
      else Some pos)"

text \<open>The second half of \<open>array_insert_unique\<close>: the key is not there, \<open>pos\<close> is where the search
  ended.\<close>

definition insert_at :: "(nat \<Rightarrow> nat) \<Rightarrow> array \<Rightarrow> data_unset \<Rightarrow> int \<Rightarrow> array option" where
  "insert_at gs a0 str pos = do {
     let a = array_grow gs a0;
     let ndx = a_used a;
     d \<leftarrow> mem_set (a_data a) ndx (Some str);
     let a1 = a\<lparr>a_data := d, a_used := a_used a + 1\<rparr>;
     pos1 \<leftarrow> insert_pos a1 str pos ndx;
     (if pos1 < 0 \<or> int ndx < pos1 then None
      else do {
        s \<leftarrow> shift_in (a_sorted a1) (nat pos1) ndx;
        Some (a1\<lparr>a_sorted := s,
          a_next_power_of_2 := (if a_next_power_of_2 a1 = ndx then a_next_power_of_2 a1 * 2
                                else a_next_power_of_2 a1)\<rparr>)
      })
   }"

definition array_insert_unique :: "(nat \<Rightarrow> nat) \<Rightarrow> array \<Rightarrow> data_unset \<Rightarrow> (int \<times> array) option" where
  "array_insert_unique gs a0 str0 = (case unique_key a0 str0 of (a, str) \<Rightarrow> do {
     (ndx, pos) \<leftarrow> array_get_index True a (Some (key_bytes (du_key str))) 0;
     (if ndx \<noteq> -1 then do {
        slot \<leftarrow> mem_get (a_data a) (nat ndx);
        du \<leftarrow> slot;
        (if payload_type (du_val du) = payload_type (du_val str) then do {
           du' \<leftarrow> du_insert_dup du str;
           d \<leftarrow> mem_set (a_data a) (nat ndx) (Some du');
           Some (0, a\<lparr>a_data := d\<rparr>)
         }
         else Some (0, a))
      }
      else if int (a_used a) + 1 > INT_MAX then Some (-1, a)
      else do {
        a' \<leftarrow> insert_at gs a str pos;
        Some (0, a')
      })
   })"

definition array_replace :: "(nat \<Rightarrow> nat) \<Rightarrow> array \<Rightarrow> data_unset \<Rightarrow> (data_unset option \<times> array) option" where
  "array_replace gs a du = do {
     (ndx, _) \<leftarrow> array_get_index True a (case du_key du of None \<Rightarrow> None | Some s \<Rightarrow> Some (s @ [NUL])) 0;
     (if ndx = -1 then do {
        (_, a') \<leftarrow> array_insert_unique gs a du;
        Some (None, a')
      }
      else do {
        old \<leftarrow> mem_get (a_data a) (nat ndx);
        d \<leftarrow> mem_set (a_data a) (nat ndx) (Some du);
        Some (old, a\<lparr>a_data := d\<rparr>)
      })
   }"

fun max_key_loop :: "nat \<Rightarrow> nat \<Rightarrow> data_unset option list \<Rightarrow> nat option" where
  "max_key_loop 0 maxlen _ = Some maxlen"
| "max_key_loop (Suc n) maxlen (Some du # d) = do {
     k \<leftarrow> du_key du;
     l \<leftarrow> c_strlen (k @ [NUL]);
     max_key_loop n (if l > maxlen then l else maxlen) d
   }"
| "max_key_loop (Suc n) _ _ = None"

definition array_get_max_key_length :: "array \<Rightarrow> nat option" where
  "array_get_max_key_length a = max_key_loop (a_used a) 0 (a_data a)"

section \<open>Orders for the search\<close>

text \<open>What the binary search needs of its comparison: an antisymmetric, transitive comparison
  in which equal keys compare alike, on the keys that are \<open>ok\<close>.\<close>

locale key_order =
  fixes ok :: "'k \<Rightarrow> bool" and cmp :: "'k \<Rightarrow> 'k \<Rightarrow> int"
  assumes cmp_antisym: "ok a \<Longrightarrow> ok b \<Longrightarrow> sgn (cmp b a) = - sgn (cmp a b)"
    and cmp_trans: "ok a \<Longrightarrow> ok b \<Longrightarrow> ok c \<Longrightarrow> cmp a b < 0 \<Longrightarrow> cmp b c < 0 \<Longrightarrow> cmp a c < 0"
    and cmp_zero: "ok a \<Longrightarrow> ok b \<Longrightarrow> ok c \<Longrightarrow> cmp a b = 0 \<Longrightarrow> sgn (cmp a c) = sgn (cmp b c)"
begin

abbreviation ascending :: "'k list \<Rightarrow> bool" where
  "ascending ks \<equiv> sorted_wrt (\<lambda>a b. cmp a b < 0) ks"

text \<open>The place of a key in an ascending list, in half steps: \<open>2 * i\<close> when it is the \<open>i\<close>-th key,
  \<open>2 * i - 1\<close> when it belongs in front of the \<open>i\<close>-th.\<close>

lemma place_exists:
  assumes "ok k" "list_all ok ks" "ascending ks"
  shows "\<exists>T. -1 \<le> T \<and> T \<le> 2 * int (length ks) - 1 \<and>
    (\<forall>i < length ks. sgn (cmp k (ks ! i)) = sgn (T - 2 * int i))"
  using assms(2,3)
proof (induction ks)
  case Nil
  show ?case by (rule exI [of _ "-1"]) simp
next
  case (Cons x ks)
  consider "cmp k x < 0" | "cmp k x = 0" | "cmp k x > 0" by linarith
  then show ?case
  proof cases
    case 1
    have "sgn (cmp k y) = -1" if "y \<in> set ks" for y
      using that Cons.prems 1 cmp_trans [of k x y] assms(1) by (auto simp: list_all_iff)
    with 1 have "\<forall>i < length (x # ks). sgn (cmp k ((x # ks) ! i)) = sgn (-1 - 2 * int i)"
      by (auto simp: nth_Cons split: nat.splits)
    then show ?thesis by (intro exI [of _ "-1"]) simp
  next
    case 2
    have "sgn (cmp k y) = -1" if "y \<in> set ks" for y
      using that Cons.prems 2 cmp_zero [of k x y] assms(1) by (auto simp: list_all_iff)
    with 2 have "\<forall>i < length (x # ks). sgn (cmp k ((x # ks) ! i)) = sgn (0 - 2 * int i)"
      by (auto simp: nth_Cons split: nat.splits)
    then show ?thesis by (intro exI [of _ 0]) simp
  next
    case 3
    from Cons obtain T where T: "-1 \<le> T" "T \<le> 2 * int (length ks) - 1"
      "\<forall>i < length ks. sgn (cmp k (ks ! i)) = sgn (T - 2 * int i)" by auto
    have "sgn (cmp k ((x # ks) ! i)) = sgn (T + 2 - 2 * int i)" if "i < length (x # ks)" for i
      using that T 3 by (cases i) auto
    with T show ?thesis by (intro exI [of _ "T + 2"]) simp
  qed
qed

lemma insert_ascending:
  assumes "ok k" "list_all ok ks" "ascending ks" "g \<le> length ks"
    and "\<forall>i < length ks. sgn (cmp k (ks ! i)) = sgn (2 * int g - 1 - 2 * int i)"
  shows "ascending (take g ks @ k # drop g ks)"
proof -
  have "cmp x k < 0" if "x \<in> set (take g ks)" for x
  proof -
    from that obtain i where i: "i < g" "i < length ks" "x = ks ! i" by (auto simp: in_set_conv_nth)
    with assms(5) have "sgn (cmp k x) = 1" by simp
    then have "sgn (cmp x k) = -1" using cmp_antisym [of k x] assms(1,2) i by (simp add: list_all_length)
    then show ?thesis by (simp add: sgn_if split: if_splits)
  qed
  moreover have "cmp k x < 0" if "x \<in> set (drop g ks)" for x
  proof -
    from that obtain j where "j < length (drop g ks)" "x = drop g ks ! j" by (auto simp: in_set_conv_nth)
    then obtain i where i: "g \<le> i" "i < length ks" "x = ks ! i"
      using that [of "g + j"] assms(4) by simp
    with assms(5) have "sgn (cmp k x) = -1" by simp
    then show ?thesis by (simp add: sgn_if split: if_splits)
  qed
  moreover have "ascending (take g ks @ drop g ks)" using assms(3) by simp
  then have "ascending (take g ks) \<and> ascending (drop g ks) \<and> (\<forall>x \<in> set (take g ks). \<forall>y \<in> set (drop g ks). cmp x y < 0)"
    unfolding sorted_wrt_append .
  ultimately show ?thesis by (auto simp: sorted_wrt_append)
qed

end

text \<open>The comparison of the code on keys it orders.\<close>

definition bytes_ok :: "char list \<Rightarrow> bool" where
  "bytes_ok k = (regular_str k \<and> length k < 2 ^ 31)"

interpretation ko: key_order bytes_ok "buffer_caseless_compare al" for al
proof
  fix a b c :: "char list"
  assume ok: "bytes_ok a" "bytes_ok b"
  then have s: "sgn (buffer_caseless_compare al a b) = lexcmp (ckey a) (ckey b)"
    "sgn (buffer_caseless_compare al b a) = lexcmp (ckey b) (ckey a)"
    by (simp_all add: bytes_ok_def buffer_caseless_compare_casecmp sgn_casecmp)
  show "sgn (buffer_caseless_compare al b a) = - sgn (buffer_caseless_compare al a b)"
    using ok by (simp add: bytes_ok_def buffer_caseless_compare_casecmp casecmp_antisym [of a b] sgn_minus)
  assume c: "bytes_ok c"
  then have t: "sgn (buffer_caseless_compare al b c) = lexcmp (ckey b) (ckey c)"
    "sgn (buffer_caseless_compare al a c) = lexcmp (ckey a) (ckey c)"
    using ok by (simp_all add: bytes_ok_def buffer_caseless_compare_casecmp sgn_casecmp)
  show "buffer_caseless_compare al a c < 0"
    if "buffer_caseless_compare al a b < 0" "buffer_caseless_compare al b c < 0"
    using that s(1) t lexcmp_trans [of "ckey a" "ckey b" "ckey c"] by (metis sgn_less)
  show "sgn (buffer_caseless_compare al a c) = sgn (buffer_caseless_compare al b c)"
    if "buffer_caseless_compare al a b = 0"
    using that s(1) t lexcmp_zero [of "ckey a" "ckey b"] by simp
qed

section \<open>The search\<close>

text \<open>The distance to the place of the key, in half steps, is below \<open>4 * i\<close> in every round with
  step \<open>i\<close>: this is what makes the halving search find every key although the array's length is
  no power of two.\<close>

lemma search_index_spec:
  assumes "\<And>p. p < a_used a \<Longrightarrow> sorted_elem a p = Some (f p, d p)"
    and "\<And>p. p < a_used a \<Longrightarrow>
      sgn (buffer_caseless_compare al key (key_bytes (du_key (d p)))) = sgn (T - 2 * int p)"
    and "-1 \<le> T" "T \<le> 2 * int (a_used a) - 1"
    and "i = 0 \<or> (\<exists>j. i = 2 ^ j)" "\<bar>2 * pos - T\<bar> \<le> max (4 * int i - 1) 1"
  shows "(even T \<longrightarrow> search_index al a key i pos = Some (int (f (nat (T div 2))), T div 2)) \<and>
    (odd T \<longrightarrow> (\<exists>p. search_index al a key i pos = Some (-1, p) \<and> (2 * p = T - 1 \<or> 2 * p = T + 1)))"
  using assms(5,6)
proof (induction i arbitrary: pos rule: less_induct)
  case (less i)
  let ?in = "0 \<le> pos \<and> pos < int (a_used a)"
  let ?c = "buffer_caseless_compare al key (key_bytes (du_key (d (nat pos))))"
  define pos' where "pos' = (if 2 * pos > T then pos - int i else pos + int i)"
  have half: "i div 2 = 0 \<or> (\<exists>j. i div 2 = 2 ^ j)" "i \<noteq> 0 \<Longrightarrow> i = 1 \<or> 2 * (i div 2) = i"
  proof -
    have *: "i = 0 \<or> i = 1 \<or> (\<exists>j. i = 2 * 2 ^ j)"
      using less.prems(1) by (metis power_0 power_Suc not0_implies_Suc)
    then show "i div 2 = 0 \<or> (\<exists>j. i div 2 = 2 ^ j)" by auto
    from * show "i \<noteq> 0 \<Longrightarrow> i = 1 \<or> 2 * (i div 2) = i" by auto
  qed
  have sgn_c: "?in \<Longrightarrow> sgn ?c = sgn (T - 2 * pos)" using assms(2) [of "nat pos"] by (simp add: nat_less_iff)
  have el: "?in \<Longrightarrow> sorted_elem a (nat pos) = Some (f (nat pos), d (nat pos))"
    using assms(1) [of "nat pos"] by (simp add: nat_less_iff)
  show ?case
  proof (cases "2 * pos = T")
    case True
    then have "?in" using assms(3,4) by auto
    with True sgn_c have "?c = 0" by (simp add: sgn_0_0)
    with \<open>?in\<close> True el show ?thesis
      by (subst search_index.simps) auto
  next
    case False
    have step: "search_index al a key i pos =
        (if i = 0 then Some (-1, pos') else search_index al a key (i div 2) pos')"
    proof (cases "?in")
      case True
      with sgn_c False have "?c \<noteq> 0" "?c < 0 \<longleftrightarrow> 2 * pos > T"
        by (auto simp: sgn_if split: if_splits)
      with True el show ?thesis
        by (subst search_index.simps) (simp add: pos'_def Let_def)
    next
      case out: False
      then have "pos < 0 \<longleftrightarrow> \<not> 2 * pos > T" using assms(3,4) False by auto
      with out show ?thesis by (subst search_index.simps) (auto simp: pos'_def Let_def)
    qed
    show ?thesis
    proof (cases "i = 0")
      case True
      then have "\<bar>2 * pos - T\<bar> \<le> 1" "pos' = pos" using less.prems(2) by (simp_all add: pos'_def)
      with False have "2 * pos = T - 1 \<or> 2 * pos = T + 1" by arith
      moreover from this have "odd T" by presburger
      ultimately show ?thesis using step True \<open>pos' = pos\<close> by simp
    next
      case ne: False
      have "\<bar>2 * pos' - T\<bar> \<le> max (4 * int (i div 2) - 1) 1"
      proof -
        from half(2) [OF ne] have "i = 1 \<or> 4 * int (i div 2) = 2 * int i" by auto
        with less.prems(2) False ne show ?thesis unfolding pos'_def by (auto split: if_splits)
      qed
      with less.IH [OF _ half(1), of pos'] ne step show ?thesis by simp
    qed
  qed
qed

section \<open>The invariant and the list of elements\<close>

definition key_ok :: "string \<Rightarrow> bool" where
  "key_ok s = (regular_str s \<and> length s + 1 < 2 ^ 31)"

definition elem_ok :: "data_unset \<Rightarrow> bool" where
  "elem_ok du = (case du_key du of None \<Rightarrow> False | Some s \<Rightarrow> key_ok s)"

definition is_pow2 :: "nat \<Rightarrow> bool" where
  "is_pow2 n = (\<exists>j \<le> n. n = 2 ^ j)"

text \<open>The elements in the order of insertion, and the keys in the order of \<open>sorted\<close>.\<close>

definition elems :: "array \<Rightarrow> data_unset list" where
  "elems a = map the (take (a_used a) (a_data a))"

definition sorted_keys :: "array \<Rightarrow> char list list" where
  "sorted_keys a = map (\<lambda>i. key_bytes (du_key (elems a ! i))) (take (a_used a) (a_sorted a))"

definition array_ok :: "array \<Rightarrow> bool" where
  "array_ok a = (length (a_data a) = a_size a \<and> length (a_sorted a) = a_size a \<and>
     a_used a \<le> a_size a \<and> is_pow2 (a_next_power_of_2 a) \<and> a_used a \<le> a_next_power_of_2 a \<and>
     list_all (\<lambda>slot. slot \<noteq> None) (take (a_used a) (a_data a)) \<and>
     list_all elem_ok (elems a) \<and>
     distinct (take (a_used a) (a_sorted a)) \<and>
     list_all (\<lambda>i. i < a_used a) (take (a_used a) (a_sorted a)) \<and>
     sorted_wrt (\<lambda>k l. casecmp k l < 0) (sorted_keys a))"

definition same_key :: "string \<Rightarrow> data_unset \<Rightarrow> bool" where
  "same_key k du = (case du_key du of None \<Rightarrow> False | Some s \<Rightarrow> map lower_char s = map lower_char k)"

text \<open>What an array means: the element with the key, case aside.\<close>

definition array_lookup :: "array \<Rightarrow> string \<Rightarrow> data_unset option" where
  "array_lookup a k = find (same_key k) (elems a)"

lemma is_pow2_iff: "is_pow2 n \<longleftrightarrow> (\<exists>j. n = 2 ^ j)"
  by (auto simp: is_pow2_def)

lemma is_pow2_double: "is_pow2 n \<Longrightarrow> is_pow2 (n * 2)"
  unfolding is_pow2_iff by (metis mult.commute power_Suc)

lemma is_pow2_pos: "is_pow2 n \<Longrightarrow> 0 < n"
  by (auto simp: is_pow2_def)

lemma length_elems: "array_ok a \<Longrightarrow> length (elems a) = a_used a"
  by (simp add: array_ok_def elems_def)

lemma array_data_nth: "array_ok a \<Longrightarrow> i < a_used a \<Longrightarrow> a_data a ! i = Some (elems a ! i)"
  by (auto simp: array_ok_def elems_def list_all_length)

lemma array_data_take: "array_ok a \<Longrightarrow> take (a_used a) (a_data a) = map Some (elems a)"
  by (rule nth_equalityI) (auto simp: length_elems array_data_nth, simp_all add: array_ok_def)

lemma elem_ok_nth: "array_ok a \<Longrightarrow> i < a_used a \<Longrightarrow> elem_ok (elems a ! i)"
  by (simp add: array_ok_def list_all_length elems_def)

lemma regular_NUL [simp]: "regular_str (s @ [NUL]) = regular_str s"
  by (simp add: regular_str_def regular_char_def)

lemma bytes_ok_key [simp]: "bytes_ok (s @ [NUL]) = key_ok s"
  by (simp add: bytes_ok_def key_ok_def)

lemma elem_ok_key: "elem_ok du \<Longrightarrow> \<exists>s. du_key du = Some s \<and> key_ok s"
  by (auto simp: elem_ok_def split: option.splits)

lemma elem_ok_bytes: "elem_ok du \<Longrightarrow> bytes_ok (key_bytes (du_key du))"
  by (auto dest!: elem_ok_key simp: key_bytes_def)

lemma compare_bytes:
  "bytes_ok k \<Longrightarrow> bytes_ok l \<Longrightarrow> buffer_caseless_compare al k l = casecmp k l"
  by (simp add: bytes_ok_def buffer_caseless_compare_casecmp)

lemma sorted_keys_ok:
  assumes "array_ok a"
  shows "list_all bytes_ok (sorted_keys a)" "length (sorted_keys a) = a_used a"
    "sorted_wrt (\<lambda>k l. buffer_caseless_compare al k l < 0) (sorted_keys a)"
proof -
  have "elem_ok (elems a ! i)" if "i \<in> set (take (a_used a) (a_sorted a))" for i
    using that assms elem_ok_nth [OF assms] by (simp add: array_ok_def list_all_iff)
  then show *: "list_all bytes_ok (sorted_keys a)"
    by (auto simp: sorted_keys_def list_all_iff intro!: elem_ok_bytes)
  show "length (sorted_keys a) = a_used a" using assms by (simp add: sorted_keys_def array_ok_def)
  have "sorted_wrt (\<lambda>k l. casecmp k l < 0) (sorted_keys a)" using assms by (simp add: array_ok_def)
  then show "sorted_wrt (\<lambda>k l. buffer_caseless_compare al k l < 0) (sorted_keys a)"
    by (rule sorted_wrt_mono_rel [rotated]) (use * in \<open>simp add: compare_bytes list_all_iff\<close>)
qed

lemma sorted_elem_ok:
  assumes "array_ok a" "p < a_used a"
  shows "sorted_elem a p = Some (a_sorted a ! p, elems a ! (a_sorted a ! p))" "a_sorted a ! p < a_used a"
    "key_bytes (du_key (elems a ! (a_sorted a ! p))) = sorted_keys a ! p"
proof -
  show lt: "a_sorted a ! p < a_used a" using assms by (simp add: array_ok_def list_all_length)
  moreover have "p < length (a_sorted a)" "a_used a \<le> length (a_data a)" using assms by (simp_all add: array_ok_def)
  ultimately show "sorted_elem a p = Some (a_sorted a ! p, elems a ! (a_sorted a ! p))"
    using assms by (simp add: sorted_elem_def mem_get_def array_data_nth)
  show "key_bytes (du_key (elems a ! (a_sorted a ! p))) = sorted_keys a ! p"
    using assms by (simp add: sorted_keys_def array_ok_def)
qed

lemma sorted_surj:
  assumes "array_ok a" "i < a_used a"
  obtains p where "p < a_used a" "a_sorted a ! p = i"
proof -
  let ?s = "take (a_used a) (a_sorted a)"
  have s: "distinct ?s" "set ?s \<subseteq> {..<a_used a}" "length ?s = a_used a"
    using assms(1) by (auto simp: array_ok_def list_all_iff)
  then have "set ?s = {..<a_used a}" by (intro card_subset_eq) (simp_all add: distinct_card)
  with assms(2) obtain p where "p < length ?s" "?s ! p = i" by (metis in_set_conv_nth lessThan_iff)
  with s that show thesis by simp
qed

text \<open>The result of the search, by whether an element has the key.\<close>

lemma array_get_index_spec:
  assumes "array_ok a" "key_ok k"
  obtains (found) n p where "array_get_index al a (Some (k @ [NUL])) p0 = Some (int n, p)"
      "n < a_used a" "same_key k (elems a ! n)" "\<forall>m < a_used a. same_key k (elems a ! m) \<longrightarrow> m = n"
  | (missing) g p where "array_get_index al a (Some (k @ [NUL])) p0 = Some (-1, p)"
      "\<forall>m < a_used a. \<not> same_key k (elems a ! m)" "g \<le> a_used a" "p = int g - 1 \<or> p = int g"
      "\<forall>i < a_used a. sgn (casecmp (k @ [NUL]) (sorted_keys a ! i)) = sgn (2 * int g - 1 - 2 * int i)"
proof -
  let ?k = "k @ [NUL]" and ?h = "a_next_power_of_2 a div 2"
  have kok: "bytes_ok ?k" using assms(2) by simp
  obtain T where T: "-1 \<le> T" "T \<le> 2 * int (a_used a) - 1"
    and sg: "\<forall>i < a_used a. sgn (buffer_caseless_compare al ?k (sorted_keys a ! i)) = sgn (T - 2 * int i)"
    using ko.place_exists [OF kok sorted_keys_ok(1) sorted_keys_ok(3), OF assms(1,1)] sorted_keys_ok(2) [OF assms(1)] by auto
  have p2: "is_pow2 (a_next_power_of_2 a)" "a_used a \<le> a_next_power_of_2 a" using assms(1) by (simp_all add: array_ok_def)
  then obtain j where j: "a_next_power_of_2 a = 2 ^ j" by (auto simp: is_pow2_iff)
  have h: "?h = 0 \<or> (\<exists>j. ?h = 2 ^ j)" using j by (cases j) auto
  have bound: "\<bar>2 * int ?h - T\<bar> \<le> max (4 * int ?h - 1) 1"
  proof (cases j)
    case (Suc n)
    define P :: int where "P = 2 ^ n"
    have "int (a_used a) \<le> int (2 * 2 ^ n)" using Suc p2(2) j by (simp only: of_nat_le_iff power_Suc)
    then have "int (a_used a) \<le> 2 * P" "1 \<le> P" by (simp_all add: P_def)
    moreover have "int ?h = P" using Suc j by (simp add: P_def)
    ultimately show ?thesis using T by arith
  qed (use T p2(2) j in auto)
  note search = search_index_spec [of a "\<lambda>p. a_sorted a ! p" "\<lambda>p. elems a ! (a_sorted a ! p)" al ?k T,
      OF sorted_elem_ok(1) [OF assms(1)] _ T h bound]
  have same: "same_key k (elems a ! (a_sorted a ! p)) \<longleftrightarrow> T = 2 * int p" if "p < a_used a" for p
  proof -
    have e: "elem_ok (elems a ! (a_sorted a ! p))" using assms(1) that by (intro elem_ok_nth sorted_elem_ok(2))
    then obtain s where s: "du_key (elems a ! (a_sorted a ! p)) = Some s" "key_ok s" using elem_ok_key by blast
    then have "sorted_keys a ! p = s @ [NUL]"
      using sorted_elem_ok(3) [OF assms(1) that] by (simp add: key_bytes_def)
    then have "buffer_caseless_compare al ?k (sorted_keys a ! p) = 0 \<longleftrightarrow> map lower_char k = map lower_char s"
      using kok s(2) by (simp add: compare_bytes casecmp_zero_iff)
    with sg that s(1) show ?thesis by (auto simp: same_key_def) (metis diff_gt_0_iff_gt eq_iff_diff_eq_0 sgn_0_0)+
  qed
  have res: "(even T \<longrightarrow> array_get_index al a (Some ?k) p0 = Some (int (a_sorted a ! nat (T div 2)), T div 2)) \<and>
    (odd T \<longrightarrow> (\<exists>p. array_get_index al a (Some ?k) p0 = Some (-1, p) \<and> (2 * p = T - 1 \<or> 2 * p = T + 1)))"
    unfolding array_get_index_def option.case
    using sg sorted_elem_ok(3) [OF assms(1)] by (intro search) simp_all
  show thesis
  proof (cases "even T")
    case True
    let ?t = "nat (T div 2)"
    have t: "?t < a_used a" "T = 2 * int ?t" using True T by auto
    show thesis
    proof (rule found)
      show "array_get_index al a (Some ?k) p0 = Some (int (a_sorted a ! ?t), T div 2)" using res True by simp
      show "a_sorted a ! ?t < a_used a" using sorted_elem_ok(2) [OF assms(1) t(1)] .
      show "same_key k (elems a ! (a_sorted a ! ?t))" using same t by blast
      show "\<forall>m < a_used a. same_key k (elems a ! m) \<longrightarrow> m = a_sorted a ! ?t"
        using sorted_surj [OF assms(1)] same t(2) by (metis mult_cancel_left of_nat_eq_iff zero_neq_numeral)
    qed
  next
    case False
    let ?g = "nat ((T + 1) div 2)"
    have "(T + 1) div 2 * 2 = T + 1" using False by presburger
    with T have g: "?g \<le> a_used a" "T = 2 * int ?g - 1" by auto
    from res False obtain p where p: "array_get_index al a (Some ?k) p0 = Some (-1, p)" "2 * p = T - 1 \<or> 2 * p = T + 1" by blast
    show thesis
    proof (rule missing)
      show "array_get_index al a (Some ?k) p0 = Some (-1, p)" by (rule p(1))
      show "\<forall>m < a_used a. \<not> same_key k (elems a ! m)"
        using sorted_surj [OF assms(1)] same False by (metis dvd_triv_left)
      show "?g \<le> a_used a" by (rule g)
      show "p = int ?g - 1 \<or> p = int ?g" using p(2) g(2) by auto
      show "\<forall>i < a_used a. sgn (casecmp ?k (sorted_keys a ! i)) = sgn (2 * int ?g - 1 - 2 * int i)"
        using sg g(2) kok sorted_keys_ok(1,2) [OF assms(1)] by (simp add: compare_bytes list_all_length)
    qed
  qed
qed

lemma lookup_found:
  assumes "array_ok a" "n < a_used a" "same_key k (elems a ! n)"
    and "\<forall>m < a_used a. same_key k (elems a ! m) \<longrightarrow> m = n"
  shows "array_lookup a k = Some (elems a ! n)"
proof -
  have "\<forall>j < n. \<not> same_key k (elems a ! j)" using assms(2,4) by (metis less_trans nat_neq_iff)
  with assms(2,3) length_elems [OF assms(1)] show ?thesis
    unfolding array_lookup_def find_Some_iff by (intro exI [of _ n]) simp
qed

lemma lookup_missing:
  assumes "array_ok a" "\<forall>m < a_used a. \<not> same_key k (elems a ! m)"
  shows "array_lookup a k = None"
  unfolding array_lookup_def find_None_iff
  using assms length_elems [OF assms(1)] by (metis in_set_conv_nth)

lemma array_get_element_spec:
  assumes "array_ok a" "key_ok k"
  shows "array_get_element al a k = Some (array_lookup a k)"
  using assms
proof (cases rule: array_get_index_spec [where al = al and ?p0.0 = 0])
  case (found n p)
  have "n < length (a_data a)" using found(2) assms(1) by (simp add: array_ok_def)
  with found(1,2) show ?thesis
    using assms(1) lookup_found [OF assms(1) found(2-4)]
    by (simp add: array_get_element_def mem_get_def array_data_nth)
next
  case (missing g p)
  then show ?thesis using lookup_missing [OF assms(1)] by (simp add: array_get_element_def)
qed

section \<open>Insertion\<close>

text \<open>The reference: in the list of elements, merge with the element that has the key, or add
  the new element at the end.\<close>

fun put_elem :: "string \<Rightarrow> data_unset \<Rightarrow> data_unset list \<Rightarrow> data_unset list option" where
  "put_elem k str [] = Some [str]"
| "put_elem k str (du # es) =
     (if same_key k du then
        (if payload_type (du_val du) = payload_type (du_val str)
         then map_option (\<lambda>d. d # es) (du_insert_dup du str) else Some (du # es))
      else map_option ((#) du) (put_elem k str es))"

lemma put_elem_missing: "list_all (\<lambda>du. \<not> same_key k du) es \<Longrightarrow> put_elem k str es = Some (es @ [str])"
  by (induction es) auto

lemma put_elem_found:
  assumes "n < length es" "same_key k (es ! n)" "\<forall>m < n. \<not> same_key k (es ! m)"
  shows "put_elem k str es =
    (if payload_type (du_val (es ! n)) = payload_type (du_val str)
     then map_option (\<lambda>d. es[n := d]) (du_insert_dup (es ! n) str) else Some es)"
  using assms
proof (induction es arbitrary: n)
  case (Cons du es)
  show ?case
  proof (cases n)
    case 0
    with Cons.prems show ?thesis by (cases "du_insert_dup du str") auto
  next
    case (Suc m)
    have "put_elem k str es =
      (if payload_type (du_val (es ! m)) = payload_type (du_val str)
       then map_option (\<lambda>d. es[m := d]) (du_insert_dup (es ! m) str) else Some es)"
      using Cons.prems Suc by (intro Cons.IH) auto
    moreover have "\<not> same_key k du" using Cons.prems(3) Suc by auto
    ultimately show ?thesis using Suc by (cases "du_insert_dup (es ! m) str") auto
  qed
qed simp

lemma shift_in_spec:
  assumes "g \<le> n" "n < length s"
  shows "shift_in s g n = Some (take g s @ n # drop g (take n s) @ drop (Suc n) s)"
proof -
  have s: "s = take g s @ drop g (take n s) @ [s ! n] @ drop (Suc n) s"
    using assms by (metis (no_types, lifting) append.assoc append_take_drop_id id_take_nth_drop append_Cons append_Nil take_take min.absorb1)
  define x y z where "x = take g s" and "y = drop g (take n s)" and "z = drop (Suc n) s"
  have len: "length x = g" "length y = n - g" using assms by (auto simp: x_def y_def)
  have s': "s = x @ y @ s ! n # z" using s by (simp add: x_def y_def z_def)
  show ?thesis
  proof (cases "g = n")
    case True
    then show ?thesis
      using assms by (simp add: shift_in_def mem_set_def) (metis upd_conv_take_nth_drop)
  next
    case False
    obtain w y' where y': "y = w # y'" using len(2) False assms(1) by (cases y) auto
    have "mem_read (drop g s) (n - g) = Some y"
      using len by (subst s') (simp add: mem_read_def)
    moreover have "mem_copy s (g + 1) y = Some (x @ w # y @ z)"
      using mem_copy_append [of y "y' @ s ! n # z" "x @ [w]"] len y' by (subst s') (simp add: Suc_eq_plus1 [symmetric])
    moreover have "mem_set (x @ w # y @ z) g n = Some (x @ n # y @ z)"
      using mem_set_append [of x w "y @ z" n] len by simp
    ultimately show ?thesis using False by (simp add: shift_in_def x_def y_def z_def)
  qed
qed

lemma array_grow_ok:
  fixes gs :: "nat \<Rightarrow> nat"
  assumes "array_ok a"
  defines "b \<equiv> array_grow gs a"
  shows "array_ok b" "elems b = elems a" "sorted_keys b = sorted_keys a" "a_used b = a_used a"
    "a_used b < a_size b" "a_next_power_of_2 b = a_next_power_of_2 a"
    "take (a_used a) (a_sorted b) = take (a_used a) (a_sorted a)"
proof -
  have len: "length (a_data a) = a_size a" "length (a_sorted a) = a_size a" "a_used a \<le> a_size a"
    using assms(1) by (simp_all add: array_ok_def)
  show u: "a_used b = a_used a" "a_next_power_of_2 b = a_next_power_of_2 a" "a_used b < a_size b"
    using len by (auto simp: b_def array_grow_def)
  have d: "take (a_used a) (a_data b) = take (a_used a) (a_data a)"
    using len by (auto simp: b_def array_grow_def)
  show s: "take (a_used a) (a_sorted b) = take (a_used a) (a_sorted a)"
    using len by (auto simp: b_def array_grow_def)
  show e: "elems b = elems a" by (simp add: elems_def u d)
  show k: "sorted_keys b = sorted_keys a" by (simp add: sorted_keys_def u s e)
  have "length (a_data b) = a_size b" "length (a_sorted b) = a_size b"
    using len by (auto simp: b_def array_grow_def)
  then show "array_ok b" using assms(1) u unfolding array_ok_def by (simp add: d s e k)
qed

lemma distinct_insert_mid:
  assumes "distinct (A @ B)" "list_all (\<lambda>i. i < n) (A @ B)"
  shows "distinct (A @ n # B)" "list_all (\<lambda>i. i < Suc n) (A @ n # B)"
  using assms by (auto simp: list_all_iff less_Suc_eq)

text \<open>An insertion in the middle of \<open>sorted\<close> keeps the invariant and adds the element at the
  end.\<close>

lemma array_ok_insert:
  assumes "array_ok a" "a_used a < a_size a" "elem_ok str" "g \<le> a_used a"
    and "\<forall>i < a_used a. sgn (casecmp (key_bytes (du_key str)) (sorted_keys a ! i)) = sgn (2 * int g - 1 - 2 * int i)"
    and "s = take g (a_sorted a) @ a_used a # drop g (take (a_used a) (a_sorted a)) @ r" "length s = a_size a"
    and "p = (if a_next_power_of_2 a = a_used a then a_next_power_of_2 a * 2 else a_next_power_of_2 a)"
  defines "b \<equiv> a\<lparr>a_data := (a_data a)[a_used a := Some str], a_used := a_used a + 1, a_sorted := s, a_next_power_of_2 := p\<rparr>"
  shows "array_ok b" "elems b = elems a @ [str]"
proof -
  let ?n = "a_used a" and ?S = "take (a_used a) (a_sorted a)"
  have len: "length (a_data a) = a_size a" "length (a_sorted a) = a_size a" using assms(1) by (simp_all add: array_ok_def)
  have tk: "take (?n + 1) ((a_data a)[?n := Some str]) = take ?n (a_data a) @ [Some str]"
    using len assms(2) by (simp add: take_Suc_conv_app_nth)
  show e: "elems b = elems a @ [str]" using tk by (simp add: elems_def b_def)
  have S: "take (?n + 1) s = take g ?S @ ?n # drop g ?S" and lS: "length ?S = ?n"
    using assms(2,4,6) len by (simp_all add: min_absorb1 Suc_diff_le)
  have kn: "key_bytes (du_key (elems b ! ?n)) = key_bytes (du_key str)"
    and ki: "i < ?n \<Longrightarrow> elems b ! i = elems a ! i" for i
    using length_elems [OF assms(1)] by (simp_all add: e nth_append)
  have lt: "list_all (\<lambda>i. i < ?n) ?S" "distinct ?S" using assms(1) by (simp_all add: array_ok_def)
  have keys: "map (\<lambda>i. key_bytes (du_key (elems b ! i))) xs = map (\<lambda>i. key_bytes (du_key (elems a ! i))) xs"
    if "set xs \<subseteq> set ?S" for xs
    using that lt(1) ki by (auto simp: list_all_iff)
  have sk: "sorted_keys b = take g (sorted_keys a) @ key_bytes (du_key str) # drop g (sorted_keys a)"
  proof -
    have "sorted_keys b = map (\<lambda>i. key_bytes (du_key (elems b ! i))) (take g ?S @ ?n # drop g ?S)"
      using S by (simp add: sorted_keys_def b_def)
    also have "\<dots> = map (\<lambda>i. key_bytes (du_key (elems a ! i))) (take g ?S) @ key_bytes (du_key str) #
        map (\<lambda>i. key_bytes (du_key (elems a ! i))) (drop g ?S)"
      using keys [OF set_take_subset] keys [OF set_drop_subset] kn by simp
    finally show ?thesis by (simp add: sorted_keys_def take_map drop_map)
  qed
  have bk: "bytes_ok (key_bytes (du_key str))" using assms(3) by (rule elem_ok_bytes)
  have "sorted_wrt (\<lambda>k l. buffer_caseless_compare True k l < 0) (sorted_keys b)"
    unfolding sk
  proof (rule ko.insert_ascending)
    show "\<forall>i < length (sorted_keys a). sgn (buffer_caseless_compare True (key_bytes (du_key str)) (sorted_keys a ! i)) =
        sgn (2 * int g - 1 - 2 * int i)"
      using assms(5) bk sorted_keys_ok(1,2) [OF assms(1)] by (simp add: compare_bytes list_all_length)
  qed (use bk sorted_keys_ok [OF assms(1)] assms(4) in simp_all)
  moreover have "list_all bytes_ok (sorted_keys b)"
    unfolding sk using bk sorted_keys_ok(1) [OF assms(1)]
    by (auto simp: list_all_iff dest: in_set_takeD in_set_dropD)
  ultimately have asc: "sorted_wrt (\<lambda>k l. casecmp k l < 0) (sorted_keys b)"
    by (auto intro: sorted_wrt_mono_rel [rotated] simp: compare_bytes list_all_iff)
  have p2: "is_pow2 p" "?n + 1 \<le> p"
    using assms(1,8) is_pow2_pos [of "a_next_power_of_2 a"] by (auto simp: array_ok_def is_pow2_double)
  have all: "list_all (\<lambda>slot. slot \<noteq> None) (take (?n + 1) ((a_data a)[?n := Some str]))"
    unfolding tk using assms(1) by (simp add: array_ok_def)
  have perm: "distinct (take (?n + 1) s)" "list_all (\<lambda>i. i < ?n + 1) (take (?n + 1) s)"
    unfolding S using distinct_insert_mid [of "take g ?S" "drop g ?S" ?n] lt
    by (simp_all only: append_take_drop_id Suc_eq_plus1)
  have "list_all elem_ok (elems b)" using assms(1,3) by (simp add: e array_ok_def)
  then show "array_ok b"
    using len assms(2,7) p2 all perm asc unfolding array_ok_def by (simp add: b_def)
qed

lemma insert_at_spec:
  assumes "array_ok a" "elem_ok str" "g \<le> a_used a" "pos = int g - 1 \<or> pos = int g"
    and "\<forall>i < a_used a. sgn (casecmp (key_bytes (du_key str)) (sorted_keys a ! i)) = sgn (2 * int g - 1 - 2 * int i)"
  shows "\<exists>b. insert_at gs a str pos = Some b \<and> array_ok b \<and> elems b = elems a @ [str]"
proof -
  let ?a = "array_grow gs a" and ?n = "a_used a" and ?k = "key_bytes (du_key str)"
  note g = array_grow_ok [OF assms(1), of gs]
  have len: "length (a_data ?a) = a_size ?a" "length (a_sorted ?a) = a_size ?a" using g(1) by (simp_all add: array_ok_def)
  define a1 where "a1 = ?a\<lparr>a_data := (a_data ?a)[?n := Some str], a_used := Suc ?n\<rparr>"
  have bk: "bytes_ok ?k" using assms(2) by (rule elem_ok_bytes)
  have pos1: "insert_pos a1 str pos ?n = Some (int g)"
  proof (cases "pos = int ?n \<or> pos < 0")
    case True
    with assms(3,4) show ?thesis by (auto simp: insert_pos_def)
  next
    case False
    then have p: "nat pos < ?n" using assms(3,4) by auto
    note e = sorted_elem_ok [OF g(1), of "nat pos", unfolded g(4), OF p]
    have "sorted_elem a1 (nat pos) = Some (a_sorted ?a ! nat pos, elems a ! (a_sorted ?a ! nat pos))"
      using e g(2) by (auto simp: sorted_elem_def a1_def mem_get_def split: if_splits)
    moreover have "sgn (buffer_caseless_compare True ?k (key_bytes (du_key (elems a ! (a_sorted ?a ! nat pos))))) =
        sgn (2 * int g - 1 - 2 * pos)"
      using e(3) assms(5) p bk False sorted_keys_ok(1,2) [OF assms(1)] g(2,3)
      by (simp add: compare_bytes list_all_length)
    ultimately show ?thesis using assms(4) False by (auto simp: insert_pos_def sgn_if split: if_splits)
  qed
  have sh: "shift_in (a_sorted ?a) g ?n = Some (take g (a_sorted ?a) @ ?n # drop g (take ?n (a_sorted ?a)) @ drop (Suc ?n) (a_sorted ?a))"
    using assms(3) g(4,5) len by (intro shift_in_spec) simp_all
  let ?s = "take g (a_sorted ?a) @ ?n # drop g (take ?n (a_sorted ?a)) @ drop (Suc ?n) (a_sorted ?a)"
  let ?p = "if a_next_power_of_2 ?a = a_used ?a then a_next_power_of_2 ?a * 2 else a_next_power_of_2 ?a"
  have "length ?s = a_size ?a" using assms(3) g(4,5) len by simp
  with array_ok_insert [OF g(1,5) assms(2) _ _ _ _ refl, of g ?s "drop (Suc ?n) (a_sorted ?a)"] assms(3,5) g
  have "array_ok (a1\<lparr>a_sorted := ?s, a_next_power_of_2 := ?p\<rparr>)" "elems (a1\<lparr>a_sorted := ?s, a_next_power_of_2 := ?p\<rparr>) = elems a @ [str]"
    by (simp_all add: a1_def)
  moreover have "insert_at gs a str pos = Some (a1\<lparr>a_sorted := ?s, a_next_power_of_2 := ?p\<rparr>)"
    using pos1 sh g(4,5) len assms(3) unfolding insert_at_def Let_def
    by (simp add: mem_set_def flip: a1_def) (simp add: a1_def)
  ultimately show ?thesis by blast
qed

lemma casecmp_less_cong:
  assumes "map lower_char a = map lower_char a'" "map lower_char b = map lower_char b'"
    and "regular_str a" "regular_str a'" "regular_str b" "regular_str b'"
  shows "casecmp a b < 0 \<longleftrightarrow> casecmp a' b' < 0"
proof -
  have ck: "ckey x = map schar (map lower_char x)" for x by (simp add: ckey_def)
  have "sgn (casecmp a b) = sgn (casecmp a' b')"
    using assms by (simp only: sgn_casecmp ck)
  then show ?thesis by (simp add: sgn_if split: if_splits)
qed

text \<open>An element can be exchanged for one with the same key, case aside.\<close>

lemma array_ok_update:
  assumes "array_ok a" "n < a_used a" "elem_ok du"
    and "map lower_char (the (du_key du)) = map lower_char (the (du_key (elems a ! n)))"
  defines "b \<equiv> a\<lparr>a_data := (a_data a)[n := Some du]\<rparr>"
  shows "array_ok b" "elems b = (elems a)[n := du]"
proof -
  have tk: "take (a_used a) ((a_data a)[n := Some du]) = (take (a_used a) (a_data a))[n := Some du]"
    by (simp add: take_update_swap)
  show e: "elems b = (elems a)[n := du]" by (simp add: elems_def b_def tk map_update)
  have oke: "list_all elem_ok (elems b)"
    using assms(1,3) by (auto simp: e array_ok_def list_all_iff dest: set_update_subset_insert [THEN subsetD])
  have lt: "list_all (\<lambda>i. i < a_used a) (take (a_used a) (a_sorted a))" using assms(1) by (simp add: array_ok_def)
  have key: "map lower_char (key_bytes (du_key (elems b ! i))) = map lower_char (key_bytes (du_key (elems a ! i)))"
    "regular_str (key_bytes (du_key (elems b ! i)))" "regular_str (key_bytes (du_key (elems a ! i)))"
    if "i < a_used a" for i
  proof -
    have "elem_ok (elems b ! i)" "elem_ok (elems a ! i)"
      using that oke elem_ok_nth [OF assms(1)] length_elems [OF assms(1)] by (auto simp: e list_all_length)
    moreover have "map lower_char (the (du_key (elems b ! i))) = map lower_char (the (du_key (elems a ! i)))"
      using that assms(2,4) length_elems [OF assms(1)] by (cases "i = n") (simp_all add: e)
    ultimately show "map lower_char (key_bytes (du_key (elems b ! i))) = map lower_char (key_bytes (du_key (elems a ! i)))"
      "regular_str (key_bytes (du_key (elems b ! i)))" "regular_str (key_bytes (du_key (elems a ! i)))"
      by (auto dest!: elem_ok_key simp: key_bytes_def key_ok_def)
  qed
  have sn: "i < a_used a \<Longrightarrow> a_sorted a ! i < a_used a" for i
    using lt assms(1) by (simp add: list_all_length array_ok_def)
  have "sorted_wrt (\<lambda>k l. casecmp k l < 0) (sorted_keys a)" using assms(1) by (simp add: array_ok_def)
  then have "sorted_wrt (\<lambda>k l. casecmp k l < 0) (sorted_keys b)"
    using casecmp_less_cong [OF key(1) key(1) key(2) key(3) key(2) key(3), OF sn sn sn sn sn sn]
    by (simp add: sorted_wrt_iff_nth_less sorted_keys_def b_def)
  moreover have "list_all (\<lambda>slot. slot \<noteq> None) (take (a_used a) ((a_data a)[n := Some du]))"
    unfolding tk using assms(1) by (auto simp: array_ok_def list_all_iff dest: set_update_subset_insert [THEN subsetD])
  ultimately show "array_ok b" using assms(1) oke unfolding array_ok_def by (simp add: b_def)
qed

lemma unique_key_ok:
  assumes "array_ok a" "unique_key a str = (a1, str1)"
  shows "array_ok a1" "elems a1 = elems a" "a_used a1 = a_used a"
  using assms by (auto simp: unique_key_def array_ok_def elems_def sorted_keys_def split: if_splits)

lemma array_insert_unique_spec:
  assumes "array_ok a" "unique_key a str = (a1, str1)" "du_key str1 = Some k" "key_ok k"
    and "int (a_used a) + 1 \<le> INT_MAX"
  shows "case put_elem k str1 (elems a) of
      None \<Rightarrow> array_insert_unique gs a str = None
    | Some es \<Rightarrow> \<exists>b. array_insert_unique gs a str = Some (0, b) \<and> array_ok b \<and> elems b = es"
proof -
  note u = unique_key_ok [OF assms(1,2)]
  have key: "key_bytes (du_key str1) = k @ [NUL]" using assms(3) by (simp add: key_bytes_def)
  show ?thesis
    using u(1) assms(4)
  proof (cases rule: array_get_index_spec [where al = True and ?p0.0 = 0])
    case (found n p)
    let ?e = "elems a ! n"
    have n: "n < length (a_data a1)" "n < length (elems a)" "a_data a1 ! n = Some ?e"
      using found(2) u length_elems [OF u(1)] array_data_nth [OF u(1) found(2)] by (auto simp: array_ok_def)
    have first: "\<forall>m < n. \<not> same_key k (elems a ! m)"
      using found(2,4) u(2) by (metis less_trans nat_neq_iff)
    have put: "put_elem k str1 (elems a) = (if payload_type (du_val ?e) = payload_type (du_val str1)
       then map_option (\<lambda>d. (elems a)[n := d]) (du_insert_dup ?e str1) else Some (elems a))"
      using found(3) u(2) n(2) first by (intro put_elem_found) simp_all
    have upd: "array_ok (a1\<lparr>a_data := (a_data a1)[n := Some d]\<rparr>)"
      "elems (a1\<lparr>a_data := (a_data a1)[n := Some d]\<rparr>) = (elems a)[n := d]"
      if "du_insert_dup ?e str1 = Some d" for d
      using array_ok_update [OF u(1) found(2), of d] elem_ok_nth [OF u(1) found(2)] du_insert_dup_key [OF that] u(2)
      by (simp_all add: elem_ok_def)
    show ?thesis
      using found(1) n upd u unfolding put
      by (cases "du_insert_dup ?e str1")
        (simp_all add: array_insert_unique_def assms(2) key mem_get_def mem_set_def)
  next
    case (missing g p)
    have "list_all (\<lambda>du. \<not> same_key k du) (elems a)"
      using missing(2) u length_elems [OF u(1)] by (simp add: list_all_length)
    then have put: "put_elem k str1 (elems a) = Some (elems a @ [str1])" by (rule put_elem_missing)
    have "elem_ok str1" using assms(3,4) by (simp add: elem_ok_def)
    with insert_at_spec [OF u(1) _ missing(3,4), of str1 gs] missing(5) key
    obtain b where "insert_at gs a1 str1 p = Some b" "array_ok b" "elems b = elems a @ [str1]"
      using u(2) by auto
    then show ?thesis
      using missing(1) assms(5) u(3) unfolding put
      by (simp add: array_insert_unique_def assms(2) key)
  qed
qed

section \<open>The other operations\<close>

lemma array_init_ok: "array_ok array_init" "elems array_init = []" "a_used array_init = 0"
  by (simp_all add: array_ok_def array_init_def elems_def sorted_keys_def is_pow2_iff exI [of _ 0])

lemma array_init_array_spec:
  assumes "array_ok a"
  shows "\<exists>b. array_init_array a = Some b \<and> array_ok b \<and> elems b = map du_copy (elems a)"
proof -
  let ?b = "array_init\<lparr>a_used := a_used a, a_size := a_size a, a_next_power_of_2 := a_next_power_of_2 a,
    a_unique_ndx := a_unique_ndx a, a_data := map (map_option du_copy) (a_data a), a_sorted := a_sorted a\<rparr>"
  have len: "length (a_data a) = a_size a" "length (a_sorted a) = a_size a" using assms by (simp_all add: array_ok_def)
  then have b: "array_init_array a = Some ?b" by (simp add: array_init_array_def mem_read_def)
  have e: "elems ?b = map du_copy (elems a)"
    using assms by (auto simp: elems_def take_map array_ok_def list_all_iff)
  have lt: "list_all (\<lambda>i. i < a_used a) (take (a_used a) (a_sorted a))" using assms by (simp add: array_ok_def)
  have "sorted_keys ?b = sorted_keys a"
    using lt length_elems [OF assms] by (auto simp: sorted_keys_def e list_all_iff)
  moreover have "list_all elem_ok (elems ?b)" using assms by (simp add: e array_ok_def list_all_iff elem_ok_def)
  moreover have "list_all (\<lambda>slot. slot \<noteq> None) (take (a_used a) (map (map_option du_copy) (a_data a)))"
    using assms by (simp add: take_map array_ok_def list_all_iff)
  ultimately have "array_ok ?b" using assms unfolding array_ok_def by simp
  with b e show ?thesis by blast
qed

lemma reset_loop_ok:
  "list_all (\<lambda>slot. slot \<noteq> None) (take n d) \<Longrightarrow> n \<le> length d \<Longrightarrow> \<exists>d'. reset_loop n d = Some d' \<and> length d' = length d"
proof (induction n arbitrary: d)
  case (Suc n)
  then obtain y l where "d = Some y # l" by (cases d) auto
  with Suc.IH [of l] Suc.prems show ?case by fastforce
qed simp

lemma array_reset_spec:
  assumes "array_ok a"
  shows "\<exists>b. array_reset (Some a) = Some (Some b) \<and> array_ok b \<and> elems b = []"
proof -
  obtain d where "(if a_is_weakref a then Some (a_data a) else reset_loop (a_used a) (a_data a)) = Some d"
    "length d = length (a_data a)"
    using assms reset_loop_ok [of "a_used a" "a_data a"] by (cases "a_is_weakref a") (auto simp: array_ok_def)
  then show ?thesis
    using assms by (simp add: array_reset_def array_ok_def elems_def sorted_keys_def)
qed

lemma array_get_unused_element_spec:
  assumes "array_ok a"
  shows "\<exists>slot b. array_get_unused_element a = Some (slot, b) \<and> array_ok b \<and> elems b = elems a \<and> a_used b = a_used a \<and>
    a_next_power_of_2 b = a_next_power_of_2 a"
proof -
  have "array_ok (a\<lparr>a_data := (a_data a)[a_used a := None]\<rparr>)"
    using assms by (simp add: array_ok_def elems_def sorted_keys_def)
  then show ?thesis
    using assms by (auto simp: array_get_unused_element_def mem_get_def mem_set_def elems_def array_ok_def split: option.splits)
qed

lemma array_replace_spec:
  assumes "array_ok a" "du_key du = Some k" "key_ok k" "\<not> du_is_index_key du" "int (a_used a) + 1 \<le> INT_MAX"
  shows "\<exists>b. array_replace gs a du = Some (array_lookup a k, b) \<and> array_ok b \<and>
    (case array_lookup a k of
       None \<Rightarrow> elems b = elems a @ [du]
     | Some _ \<Rightarrow> \<exists>n < a_used a. same_key k (elems a ! n) \<and> elems b = (elems a)[n := du])"
  using assms(1,3)
proof (cases rule: array_get_index_spec [where al = True and ?p0.0 = 0])
  case (found n p)
  have lk: "array_lookup a k = Some (elems a ! n)" using lookup_found [OF assms(1) found(2-4)] .
  have "elem_ok du" using assms(2,3) by (simp add: elem_ok_def)
  moreover have "map lower_char (the (du_key du)) = map lower_char (the (du_key (elems a ! n)))"
    using found(3) assms(2) by (auto simp: same_key_def split: option.splits)
  ultimately have ok: "array_ok (a\<lparr>a_data := (a_data a)[n := Some du]\<rparr>)"
    "elems (a\<lparr>a_data := (a_data a)[n := Some du]\<rparr>) = (elems a)[n := du]"
    by (rule array_ok_update [OF assms(1) found(2)])+
  let ?b = "a\<lparr>a_data := (a_data a)[n := Some du]\<rparr>"
  have n: "n < length (a_data a)" "a_data a ! n = Some (elems a ! n)"
    using found(2) assms(1) array_data_nth [OF assms(1)] by (auto simp: array_ok_def)
  have res: "array_replace gs a du = Some (Some (elems a ! n), ?b)"
    using found(1) n assms(2) by (simp add: array_replace_def mem_get_def mem_set_def)
  from lk res ok found(2,3) show ?thesis by auto
next
  case (missing g p)
  have "list_all (\<lambda>du. \<not> same_key k du) (elems a)"
    using missing(2) length_elems [OF assms(1)] by (simp add: list_all_length)
  then have "put_elem k du (elems a) = Some (elems a @ [du])" by (rule put_elem_missing)
  with array_insert_unique_spec [OF assms(1) _ assms(2,3,5), where gs = gs and str = du] assms(2,4)
  obtain b where "array_insert_unique gs a du = Some (0, b)" "array_ok b" "elems b = elems a @ [du]"
    by (auto simp: unique_key_def)
  with missing(1) lookup_missing [OF assms(1) missing(2)] assms(2) show ?thesis
    by (simp add: array_replace_def)
qed

lemma max_key_loop_ok:
  assumes "list_all (\<lambda>du. \<exists>k. du_key du = Some k \<and> NUL \<notin> set k) es"
  shows "max_key_loop (length es) m (map Some es @ r) = Some (foldl max m (map (\<lambda>du. length (the (du_key du))) es))"
  using assms
proof (induction es arbitrary: m)
  case (Cons du es)
  then obtain k where "du_key du = Some k" "NUL \<notin> set k" by auto
  with Cons show ?case by (simp add: max_def max.commute)
qed simp

lemma array_get_max_key_length_spec:
  assumes "array_ok a" "\<forall>du \<in> set (elems a). NUL \<notin> set (the (du_key du))"
  shows "array_get_max_key_length a = Some (foldl max 0 (map (\<lambda>du. length (the (du_key du))) (elems a)))"
proof -
  have "a_data a = map Some (elems a) @ drop (a_used a) (a_data a)"
    using array_data_take [OF assms(1)] append_take_drop_id [of "a_used a" "a_data a"] by simp
  moreover have "list_all (\<lambda>du. \<exists>k. du_key du = Some k \<and> NUL \<notin> set k) (elems a)"
    using assms elem_ok_key by (fastforce simp: array_ok_def list_all_iff)
  ultimately show ?thesis
    using max_key_loop_ok [of "elems a" 0 "drop (a_used a) (a_data a)"] length_elems [OF assms(1)]
    by (simp add: array_get_max_key_length_def)
qed

section \<open>Safety for arbitrary keys\<close>

text \<open>Requests may contain keys the comparison does not order. \<open>array_safe\<close> is the part of the
  invariant that survives them: the search then finds what it finds, but every access stays inside
  the tables.\<close>

definition is_text :: "data_unset \<Rightarrow> bool" where
  "is_text du = (payload_type (du_val du) = TYPE_STRING)"

definition array_safe :: "array \<Rightarrow> bool" where
  "array_safe a = (length (a_data a) = a_size a \<and> length (a_sorted a) = a_size a \<and>
     a_used a \<le> a_size a \<and> is_pow2 (a_next_power_of_2 a) \<and>
     list_all (\<lambda>slot. case slot of None \<Rightarrow> False | Some du \<Rightarrow> is_text du) (take (a_used a) (a_data a)) \<and>
     list_all (\<lambda>slot. case slot of None \<Rightarrow> True | Some du \<Rightarrow> is_text du) (a_data a) \<and>
     list_all (\<lambda>i. i < a_used a) (take (a_used a) (a_sorted a)))"

lemma array_safe_nth:
  assumes "array_safe a" "i < a_used a"
  obtains du where "a_data a ! i = Some du" "is_text du" "i < length (a_data a)"
proof -
  have "i < length (a_data a)" using assms by (simp add: array_safe_def)
  moreover have "case a_data a ! i of None \<Rightarrow> False | Some du \<Rightarrow> is_text du"
    using assms by (simp add: array_safe_def list_all_length)
  ultimately show thesis using that by (auto split: option.splits)
qed

lemma sorted_elem_safe:
  assumes "array_safe a" "p < a_used a"
  shows "\<exists>ndx du. sorted_elem a p = Some (ndx, du) \<and> ndx < a_used a"
proof -
  have lt: "a_sorted a ! p < a_used a" "p < length (a_sorted a)"
    using assms by (simp_all add: array_safe_def list_all_length)
  obtain du where "a_data a ! (a_sorted a ! p) = Some du" "a_sorted a ! p < length (a_data a)"
    using array_safe_nth [OF assms(1) lt(1)] by metis
  with lt show ?thesis by (simp add: sorted_elem_def mem_get_def)
qed

lemma search_index_safe:
  assumes "array_safe a" "i = 0 \<or> (\<exists>j. i = 2 ^ j)"
    and "- max 1 (2 * int i) \<le> pos" "pos \<le> int (a_used a) + max 0 (2 * int i - 1)"
  shows "\<exists>n p. search_index al a key i pos = Some (n, p) \<and> (n = -1 \<or> (0 \<le> n \<and> n < int (a_used a))) \<and>
    -1 \<le> p \<and> p \<le> int (a_used a)"
  using assms(2-4)
proof (induction i arbitrary: pos rule: less_induct)
  case (less i)
  have pw: "i = 0 \<or> i = 1 \<or> (\<exists>j. i = 2 * 2 ^ j)"
    using less.prems(1) by (metis power_0 power_Suc not0_implies_Suc)
  have half: "i div 2 = 0 \<or> (\<exists>j. i div 2 = 2 ^ j)" using pw by auto
  have two: "i = 0 \<or> i = 1 \<or> 2 * int (i div 2) = int i" using pw by auto
  have rec: "\<exists>n p. (if i = 0 then Some (-1, q) else search_index al a key (i div 2) q) = Some (n, p) \<and>
      (n = -1 \<or> (0 \<le> n \<and> n < int (a_used a))) \<and> -1 \<le> p \<and> p \<le> int (a_used a)"
    if "- max 1 (int i) \<le> q" "q \<le> int (a_used a) + max 0 (int i - 1)" for q
  proof (cases "i = 0")
    case False
    have "- max 1 (2 * int (i div 2)) \<le> q" "q \<le> int (a_used a) + max 0 (2 * int (i div 2) - 1)"
      using that two False by auto
    with less.IH [OF _ half] False show ?thesis by simp
  qed (use that in auto)
  show ?case
  proof (cases "0 \<le> pos \<and> pos < int (a_used a)")
    case True
    then obtain ndx du where e: "sorted_elem a (nat pos) = Some (ndx, du)" "ndx < a_used a"
      using sorted_elem_safe [OF assms(1), of "nat pos"] by (auto simp: nat_less_iff)
    have "- max 1 (int i) \<le> pos - int i" "pos - int i \<le> int (a_used a) + max 0 (int i - 1)"
      "- max 1 (int i) \<le> pos + int i" "pos + int i \<le> int (a_used a) + max 0 (int i - 1)"
      using True by auto
    with rec [of "pos - int i"] rec [of "pos + int i"] e True show ?thesis
      by (subst search_index.simps) (auto simp: Let_def)
  next
    case False
    have "pos < 0 \<Longrightarrow> - max 1 (int i) \<le> pos + int i \<and> pos + int i \<le> int (a_used a) + max 0 (int i - 1)"
      "\<not> pos < 0 \<Longrightarrow> - max 1 (int i) \<le> pos - int i \<and> pos - int i \<le> int (a_used a) + max 0 (int i - 1)"
      using False less.prems(2,3) by auto
    with rec [of "pos - int i"] rec [of "pos + int i"] False show ?thesis
      by (subst search_index.simps) (cases "pos < 0"; auto simp: Let_def)
  qed
qed

lemma array_get_index_safe:
  assumes "array_safe a"
  shows "\<exists>n p. array_get_index al a (Some k) p0 = Some (n, p) \<and> (n = -1 \<or> (0 \<le> n \<and> n < int (a_used a))) \<and>
    -1 \<le> p \<and> p \<le> int (a_used a)"
proof -
  let ?h = "a_next_power_of_2 a div 2"
  obtain j where j: "a_next_power_of_2 a = 2 ^ j" using assms by (auto simp: array_safe_def is_pow2_iff)
  have "?h = 0 \<or> (\<exists>j. ?h = 2 ^ j)" using j by (cases j) auto
  then show ?thesis
    unfolding array_get_index_def option.case by (intro search_index_safe [OF assms]) auto
qed

lemma array_get_element_safe:
  assumes "array_safe a"
  shows "\<exists>r. array_get_element al a k = Some r \<and> (case r of None \<Rightarrow> True | Some du \<Rightarrow> is_text du)"
proof -
  obtain n p where n: "array_get_index al a (Some (k @ [NUL])) 0 = Some (n, p)" "n = -1 \<or> 0 \<le> n \<and> n < int (a_used a)"
    using array_get_index_safe [OF assms, of al "k @ [NUL]" 0] by blast
  show ?thesis
  proof (cases "n = -1")
    case False
    then obtain du where "a_data a ! nat n = Some du" "is_text du" "nat n < length (a_data a)"
      using array_safe_nth [OF assms, of "nat n"] n(2) by (auto simp: nat_less_iff)
    with n(1) False show ?thesis by (simp add: array_get_element_def mem_get_def)
  qed (use n in \<open>simp add: array_get_element_def\<close>)
qed

lemma array_safe_update:
  assumes "array_safe a" "i < a_size a" "is_text du"
  shows "array_safe (a\<lparr>a_data := (a_data a)[i := Some du]\<rparr>)"
  using assms by (auto simp: array_safe_def list_all_length nth_list_update split: option.splits)

lemma list_all_insert_mid: "list_all (\<lambda>i. i < n) (A @ B) \<Longrightarrow> list_all (\<lambda>i. i < Suc n) (A @ n # B)"
  by (auto simp: list_all_iff less_Suc_eq)

lemma shift_in_safe:
  assumes "array_safe a" "a_used a < a_size a" "g \<le> a_used a"
  obtains s where "shift_in (a_sorted a) g (a_used a) = Some s" "length s = a_size a"
    "list_all (\<lambda>i. i < Suc (a_used a)) (take (Suc (a_used a)) s)"
proof -
  let ?n = "a_used a" and ?S = "take (a_used a) (a_sorted a)"
  let ?s = "take g (a_sorted a) @ ?n # drop g ?S @ drop (Suc ?n) (a_sorted a)"
  have len: "length (a_sorted a) = a_size a" and lt: "list_all (\<lambda>i. i < ?n) ?S" using assms by (simp_all add: array_safe_def)
  have "take (Suc ?n) ?s = take g ?S @ ?n # drop g ?S"
    using assms(2,3) len by (simp add: min_absorb1 Suc_diff_le)
  moreover have "list_all (\<lambda>i. i < Suc ?n) (take g ?S @ ?n # drop g ?S)"
    using lt list_all_insert_mid [of ?n "take g ?S" "drop g ?S"] by (simp only: append_take_drop_id)
  moreover have "shift_in (a_sorted a) g ?n = Some ?s" using assms(2,3) len by (intro shift_in_spec) simp_all
  moreover have "length ?s = a_size a" using assms(2,3) len by simp
  ultimately show thesis using that by metis
qed

lemma array_grow_safe:
  assumes "array_safe a"
  shows "array_safe (array_grow gs a)" "a_used (array_grow gs a) = a_used a" "a_used a < a_size (array_grow gs a)"
proof -
  have len: "length (a_data a) = a_size a" "length (a_sorted a) = a_size a" "a_used a \<le> a_size a"
    using assms by (simp_all add: array_safe_def)
  show "a_used (array_grow gs a) = a_used a" "a_used a < a_size (array_grow gs a)"
    using len by (auto simp: array_grow_def)
  show "array_safe (array_grow gs a)"
    using assms by (auto simp: array_safe_def array_grow_def list_all_iff)
qed

lemma insert_at_safe:
  assumes "array_safe a" "is_text str" "-1 \<le> pos" "pos \<le> int (a_used a)"
  shows "\<exists>b. insert_at gs a str pos = Some b \<and> array_safe b \<and> a_used b = a_used a + 1 \<and> a_data b ! a_used a = Some str"
proof -
  let ?a = "array_grow gs a" and ?n = "a_used a"
  note g = array_grow_safe [OF assms(1), of gs]
  have len: "length (a_data ?a) = a_size ?a" using g(1) by (simp add: array_safe_def)
  define a1 where "a1 = ?a\<lparr>a_data := (a_data ?a)[?n := Some str], a_used := Suc ?n\<rparr>"
  have "\<exists>h. insert_pos a1 str pos ?n = Some (int h) \<and> h \<le> ?n"
  proof (cases "pos = int ?n \<or> pos < 0")
    case True
    with assms(3) show ?thesis by (auto simp: insert_pos_def intro: exI [of _ 0])
  next
    case False
    then have p: "nat pos < a_used ?a" using assms(4) g(2) by auto
    then obtain ndx du where e: "sorted_elem ?a (nat pos) = Some (ndx, du)" "ndx < a_used ?a"
      using sorted_elem_safe [OF g(1)] by blast
    then have "sorted_elem a1 (nat pos) = Some (ndx, du)"
      using g(2) by (auto simp: sorted_elem_def a1_def mem_get_def split: if_splits)
    then have "insert_pos a1 str pos ?n = Some (pos + 1) \<or> insert_pos a1 str pos ?n = Some pos"
      using False by (simp add: insert_pos_def)
    then show ?thesis
      using False assms(4) by (elim disjE) (auto intro: exI [of _ "nat (pos + 1)"] exI [of _ "nat pos"])
  qed
  then obtain h where h: "insert_pos a1 str pos ?n = Some (int h)" "h \<le> ?n" by blast
  obtain s where s: "shift_in (a_sorted ?a) h ?n = Some s" "length s = a_size ?a"
    "list_all (\<lambda>i. i < Suc ?n) (take (Suc ?n) s)"
    using shift_in_safe [OF g(1), of h] g h by auto
  let ?p = "if a_next_power_of_2 ?a = ?n then a_next_power_of_2 ?a * 2 else a_next_power_of_2 ?a"
  have tk: "take (Suc ?n) ((a_data ?a)[?n := Some str]) = take ?n (a_data ?a) @ [Some str]"
    using len g(3) by (simp add: take_Suc_conv_app_nth)
  have "array_safe (a1\<lparr>a_sorted := s, a_next_power_of_2 := ?p\<rparr>)"
    using array_safe_update [OF g(1), of ?n str] assms(2) g s tk
    by (auto simp: array_safe_def a1_def dest: is_pow2_double)
  moreover have "insert_at gs a str pos = Some (a1\<lparr>a_sorted := s, a_next_power_of_2 := ?p\<rparr>)"
    using h s g len unfolding insert_at_def Let_def
    by (simp add: mem_set_def flip: a1_def) (simp add: a1_def)
  ultimately show ?thesis using len g(3) by (simp add: a1_def)
qed

lemma du_insert_dup_text:
  "is_text du \<Longrightarrow> is_text str \<Longrightarrow> \<exists>d. du_insert_dup du str = Some d \<and> is_text d"
  by (auto simp: is_text_def du_insert_dup_def split: payload.splits)

lemma unique_key_safe:
  assumes "unique_key a str = (a1, str1)"
  shows "array_safe a1 = array_safe a" "a_used a1 = a_used a" "is_text str1 = is_text str" "\<exists>k. du_key str1 = Some k"
  using assms by (auto simp: unique_key_def array_safe_def is_text_def split: if_splits)

text \<open>The outcome of an insertion: the element was added at the end, or merged into another one, or
  refused because the table is full.\<close>

lemma array_insert_safe:
  assumes "array_safe a" "is_text str"
  shows "\<exists>r b. array_insert_unique gs a str = Some (r, b) \<and> array_safe b \<and>
    (a_used b = a_used a \<or> a_used b = a_used a + 1)"
proof -
  obtain a1 str1 where u: "unique_key a str = (a1, str1)" by (cases "unique_key a str")
  note us = unique_key_safe [OF u]
  have sa: "array_safe a1" and t1: "is_text str1" using us assms by simp_all
  obtain n p where n: "array_get_index True a1 (Some (key_bytes (du_key str1))) 0 = Some (n, p)"
    "n = -1 \<or> 0 \<le> n \<and> n < int (a_used a1)" "-1 \<le> p" "p \<le> int (a_used a1)"
    using array_get_index_safe [OF sa, of True "key_bytes (du_key str1)" 0] by blast
  show ?thesis
  proof (cases "n = -1")
    case True
    with insert_at_safe [OF sa t1 n(3,4), of gs] n(1) us sa show ?thesis
      by (cases "int (a_used a1) + 1 > INT_MAX") (auto simp: array_insert_unique_def u)
  next
    case False
    then obtain du where du: "a_data a1 ! nat n = Some du" "is_text du" "nat n < length (a_data a1)"
      using array_safe_nth [OF sa, of "nat n"] n(2) by (auto simp: nat_less_iff)
    obtain d where d: "du_insert_dup du str1 = Some d" "is_text d" using du_insert_dup_text [OF du(2) t1] by blast
    have "nat n < a_size a1" using du(3) sa by (simp add: array_safe_def)
    with array_safe_update [OF sa _ d(2)] du d t1 n(1) False us show ?thesis
      by (simp add: array_insert_unique_def u mem_get_def mem_set_def is_text_def)
  qed
qed

lemma array_unused_safe:
  assumes "array_safe a"
  shows "\<exists>slot b. array_get_unused_element a = Some (slot, b) \<and> array_safe b \<and> a_used b = a_used a \<and>
    (case slot of None \<Rightarrow> True | Some du \<Rightarrow> is_text du)"
proof -
  have "array_safe (a\<lparr>a_data := (a_data a)[a_used a := None]\<rparr>)"
    using assms by (auto simp: array_safe_def list_all_iff dest!: set_update_subset_insert [THEN subsetD])
  moreover have "a_used a < a_size a \<Longrightarrow> case a_data a ! a_used a of None \<Rightarrow> True | Some du \<Rightarrow> is_text du"
    using assms by (simp add: array_safe_def list_all_length)
  moreover have len: "length (a_data a) = a_size a" "a_used a \<le> a_size a" using assms by (simp_all add: array_safe_def)
  ultimately show ?thesis
    using assms by (cases "a_data a ! a_used a") (auto simp: array_get_unused_element_def mem_get_def mem_set_def)
qed

lemma reset_loop_text:
  assumes "list_all (\<lambda>slot. case slot of None \<Rightarrow> False | Some du \<Rightarrow> is_text du) (take n d)" "n \<le> length d"
    and "list_all (\<lambda>slot. case slot of None \<Rightarrow> True | Some du \<Rightarrow> is_text du) d"
  shows "\<exists>d'. reset_loop n d = Some d' \<and> length d' = length d \<and>
    list_all (\<lambda>slot. case slot of None \<Rightarrow> True | Some du \<Rightarrow> is_text du) d'"
  using assms
proof (induction n arbitrary: d)
  case (Suc n)
  then obtain y l where d: "d = Some y # l" "is_text y" by (cases d) (auto split: option.splits)
  moreover have "is_text (du_reset y)"
    using d(2) by (cases "du_val y") (auto simp: is_text_def du_reset_def)
  ultimately show ?case using Suc.IH [of l] Suc.prems by fastforce
qed simp

lemma array_reset_safe:
  assumes "array_safe a"
  shows "\<exists>b. array_reset (Some a) = Some (Some b) \<and> array_safe b \<and> a_used b = 0"
proof -
  obtain d where "(if a_is_weakref a then Some (a_data a) else reset_loop (a_used a) (a_data a)) = Some d"
    "length d = length (a_data a)" "list_all (\<lambda>slot. case slot of None \<Rightarrow> True | Some du \<Rightarrow> is_text du) d"
    using assms reset_loop_text [of "a_used a" "a_data a"] by (cases "a_is_weakref a") (auto simp: array_safe_def)
  then show ?thesis using assms by (simp add: array_reset_def array_safe_def)
qed

lemma array_init_safe: "array_safe array_init"
  by (simp add: array_safe_def array_init_def is_pow2_iff exI [of _ 0])

section \<open>The interface of a store of named elements\<close>

fun insert_all :: "('s \<Rightarrow> 'd \<Rightarrow> (int \<times> 's) option) \<Rightarrow> 's \<Rightarrow> 'd list \<Rightarrow> 's option" where
  "insert_all ins s [] = Some s"
| "insert_all ins s (d # ds) = do { (_, s1) \<leftarrow> ins s d; insert_all ins s1 ds }"

text \<open>What the users of an array rely on. \<open>inv n s\<close> is a store with room for \<open>n\<close> more elements,
  \<open>merge\<close> what happens to two elements of the same name.\<close>

locale elem_store =
  fixes inv :: "nat \<Rightarrow> 's \<Rightarrow> bool" and get :: "'s \<Rightarrow> string \<Rightarrow> 'd option option"
    and ins :: "'s \<Rightarrow> 'd \<Rightarrow> (int \<times> 's) option" and name :: "'d \<Rightarrow> string"
    and ok :: "'d \<Rightarrow> bool" and okname :: "string \<Rightarrow> bool" and merge :: "'d \<Rightarrow> 'd \<Rightarrow> 'd"
    and norm :: "string \<Rightarrow> string"
  assumes ins_inv: "inv (Suc n) s \<Longrightarrow> ok d \<Longrightarrow> \<exists>s'. ins s d = Some (0, s') \<and> inv n s'"
    and get_total: "inv n s \<Longrightarrow> okname k \<Longrightarrow> \<exists>r. get s k = Some r"
    and get_ins: "inv (Suc n) s \<Longrightarrow> ok d \<Longrightarrow> okname k \<Longrightarrow> ins s d = Some (0, s') \<Longrightarrow> get s k = Some r \<Longrightarrow>
      get s' k = Some (if norm k = norm (name d)
        then Some (case r of None \<Rightarrow> d | Some e \<Rightarrow> merge e d) else r)"
begin

text \<open>After any sequence of insertions the store holds, under every name, the elements of that
  name merged in the order in which they came.\<close>

lemma insert_all_get:
  assumes "inv (length ds + n) s" "list_all ok ds" "okname k" "get s k = Some r"
  shows "\<exists>s'. insert_all ins s ds = Some s' \<and> inv n s' \<and>
    get s' k = Some (foldl (\<lambda>r d. Some (case r of None \<Rightarrow> d | Some e \<Rightarrow> merge e d)) r
      (filter (\<lambda>d. norm k = norm (name d)) ds))"
  using assms
proof (induction ds arbitrary: s r)
  case (Cons d ds)
  from Cons.prems obtain s1 where s1: "ins s d = Some (0, s1)" "inv (length ds + n) s1"
    using ins_inv [of "length ds + n" s d] by auto
  have "get s1 k = Some (if norm k = norm (name d) then Some (case r of None \<Rightarrow> d | Some e \<Rightarrow> merge e d) else r)"
    using Cons.prems s1(1) by (intro get_ins [of "length ds + n" s d]) simp_all
  with Cons.IH [OF s1(2)] Cons.prems s1(1) show ?case by (auto split: if_splits)
qed simp

end

text \<open>The instance: arrays of plain strings, as the headers of a request are.\<close>

definition is_string :: "data_unset \<Rightarrow> bool" where
  "is_string du = (case du_val du of DString _ \<Rightarrow> True | _ \<Rightarrow> False)"

definition header_ok :: "data_unset \<Rightarrow> bool" where
  "header_ok du = (elem_ok du \<and> \<not> du_is_index_key du \<and> is_string du)"

definition header_array :: "nat \<Rightarrow> array \<Rightarrow> bool" where
  "header_array n a = (array_ok a \<and> list_all is_string (elems a) \<and> int (a_used a + n) \<le> INT_MAX)"

definition merge_headers :: "data_unset \<Rightarrow> data_unset \<Rightarrow> data_unset" where
  "merge_headers e d = (case (du_val e, du_val d) of
     (DString w, DString v) \<Rightarrow> e\<lparr>du_val := DString (data_string_insert_dup w v)\<rparr>
   | _ \<Rightarrow> e)"

lemma same_key_val [simp]: "same_key k (du\<lparr>du_val := x\<rparr>) = same_key k du"
  by (simp add: same_key_def)

lemma put_elem_string:
  assumes "list_all is_string es" "is_string str"
  shows "\<exists>es'. put_elem k str es = Some es' \<and> list_all is_string es' \<and> length es' \<le> length es + 1 \<and>
    (du_key str = Some k \<longrightarrow> find (same_key k') es' =
      (if map lower_char k' = map lower_char k
       then Some (case find (same_key k') es of None \<Rightarrow> str | Some e \<Rightarrow> merge_headers e str)
       else find (same_key k') es))"
  using assms
proof (induction es)
  case Nil
  then show ?case by (auto simp: same_key_def)
next
  case (Cons du es)
  obtain v w where vw: "du_val du = DString w" "du_val str = DString v"
    using Cons.prems by (auto simp: is_string_def split: payload.splits)
  show ?case
  proof (cases "same_key k du")
    case True
    then have "same_key k' du \<longleftrightarrow> map lower_char k' = map lower_char k"
      by (auto simp: same_key_def split: option.splits)
    with True vw Cons.prems show ?thesis
      by (auto simp: du_insert_dup_def merge_headers_def is_string_def)
  next
    case False
    then have "map lower_char k' = map lower_char k \<Longrightarrow> \<not> same_key k' du"
      by (auto simp: same_key_def split: option.splits)
    with Cons False show ?thesis by auto
  qed
qed

interpretation headers: elem_store header_array "array_get_element al" "array_insert_unique gs"
    "\<lambda>d. the (du_key d)" header_ok key_ok merge_headers "map lower_char" for al gs
proof
  fix n a d k r a'
  have step: "\<exists>es b. put_elem s d (elems a) = Some es \<and> array_insert_unique gs a d = Some (0, b) \<and>
      array_ok b \<and> elems b = es \<and> list_all is_string es \<and> length es \<le> length (elems a) + 1 \<and>
      find (same_key k) es = (if map lower_char k = map lower_char s
       then Some (case find (same_key k) (elems a) of None \<Rightarrow> d | Some e \<Rightarrow> merge_headers e d)
       else find (same_key k) (elems a))"
    if "header_array (Suc n) a" "header_ok d" "du_key d = Some s" for s
  proof -
    have ok: "array_ok a" "list_all is_string (elems a)" "int (a_used a) + 1 \<le> INT_MAX" "is_string d" "key_ok s"
      "unique_key a d = (a, d)"
      using that by (auto simp: header_array_def header_ok_def elem_ok_def unique_key_def)
    with array_insert_unique_spec [OF ok(1,6) that(3) ok(5,3), where gs = gs]
      put_elem_string [OF ok(2,4), of s k] that(3) show ?thesis by fastforce
  qed
  assume inv: "header_array (Suc n) a" and hd: "header_ok d"
  obtain s where s: "du_key d = Some s" using hd elem_ok_key by (auto simp: header_ok_def)
  from step [OF inv hd s] obtain es b where b: "array_insert_unique gs a d = Some (0, b)" "array_ok b" "elems b = es"
    "list_all is_string es" "length es \<le> length (elems a) + 1"
    "find (same_key k) es = (if map lower_char k = map lower_char s
       then Some (case find (same_key k) (elems a) of None \<Rightarrow> d | Some e \<Rightarrow> merge_headers e d)
       else find (same_key k) (elems a))"
    by blast
  have "a_used b \<le> a_used a + 1" using b length_elems [of a] length_elems [of b] inv by (simp add: header_array_def)
  with b inv have "header_array n b" by (simp add: header_array_def)
  with b(1) show "\<exists>s'. array_insert_unique gs a d = Some (0, s') \<and> header_array n s'" by blast
  assume "key_ok k" "array_insert_unique gs a d = Some (0, a')" "array_get_element al a k = Some r"
  with b s inv array_get_element_spec [of a k al] array_get_element_spec [of b k al]
  show "array_get_element al a' k = Some (if map lower_char k = map lower_char (the (du_key d))
        then Some (case r of None \<Rightarrow> d | Some e \<Rightarrow> merge_headers e d) else r)"
    by (simp add: array_lookup_def header_array_def)
qed (auto simp: header_array_def array_get_element_spec)

section \<open>Properties\<close>

definition string_elem :: "string \<Rightarrow> string \<Rightarrow> data_unset" where
  "string_elem k v = data_string_init\<lparr>du_key := Some k, du_val := DString (Some v)\<rparr>"

lemma string_elem_simps [simp]:
  "du_key (string_elem k v) = Some k" "du_val (string_elem k v) = DString (Some v)"
  "\<not> du_is_index_key (string_elem k v)"
  by (simp_all add: string_elem_def data_string_init_def)

text \<open>The halving search is complete and correct on every array that satisfies the invariant:
  \<open>array_get_element\<close> follows no null pointer, reads no index outside the tables, and returns the
  element whose key equals the given one, case aside, exactly when there is one.\<close>

theorem array_search_correct:
  assumes "array_ok a" "key_ok k"
  shows "array_get_element al a k = Some (find (same_key k) (elems a))"
  using array_get_element_spec [OF assms] by (simp add: array_lookup_def)

theorem array_search_correct_witness:
  "array_get_element True array_init ''Host'' = Some None"
  using array_search_correct [of array_init "''Host''" True]
  by (simp add: array_init_ok key_ok_def regular_str_def regular_char_def)

text \<open>C31. \<open>array_insert_unique\<close> refines the reference on the list of elements, for an element that has a key, is not marked as
  an index key, and whose key (like those in the array) is shorter than 2 ^ 31 and has none of the characters between \<open>Z\<close> and \<open>a\<close>
  (among them the underscore and the brackets), which the comparison does not order; and with room for one more element below
  \<open>INT_MAX\<close>. An element whose key is present is merged into the present one (or ignored when the types differ), another one is added
  at the end; the invariant holds again. The only fault is the overflow of a counter.\<close>

theorem array_insert_refines:
  assumes "array_ok a" "du_key str = Some k" "\<not> du_is_index_key str" "key_ok k" "int (a_used a) + 1 \<le> INT_MAX"
  shows "case put_elem k str (elems a) of
      None \<Rightarrow> array_insert_unique gs a str = None
    | Some es \<Rightarrow> \<exists>b. array_insert_unique gs a str = Some (0, b) \<and> array_ok b \<and> elems b = es"
  using assms by (intro array_insert_unique_spec [where ?a1.0 = a]) (simp_all add: unique_key_def)

theorem array_insert_refines_witness:
  "\<exists>b. array_insert_unique (\<lambda>_. 0) array_init (string_elem ''Host'' ''h'') = Some (0, b) \<and> array_ok b \<and>
    elems b = [string_elem ''Host'' ''h'']"
  using array_insert_refines [of array_init "string_elem ''Host'' ''h''" "''Host''" "\<lambda>_. 0"]
  by (simp add: array_init_ok key_ok_def regular_str_def regular_char_def INT_MAX_def)

text \<open>C30. A header array behaves as a map from names, case aside, to values, for names that are shorter than 2 ^ 31 and have none of the characters between
  \<open>Z\<close> and \<open>a\<close> (among them the underscore and the brackets), which the comparison does not order: after inserting any
  sequence of at most \<open>INT_MAX\<close> string elements with such names, not marked as index keys, into an empty array, looking up such a name gives the values inserted under
  it joined by a comma and a space in the order of insertion, and nothing when there was none.\<close>

theorem headers_joined_in_order:
  assumes "list_all header_ok ds" "int (length ds) \<le> INT_MAX" "key_ok k"
  shows "\<exists>a. insert_all (array_insert_unique gs) array_init ds = Some a \<and>
    array_get_element al a k =
      Some (foldl (\<lambda>r d. Some (case r of None \<Rightarrow> d | Some e \<Rightarrow> merge_headers e d)) None
        (filter (\<lambda>d. map lower_char k = map lower_char (the (du_key d))) ds))"
proof -
  have "header_array (length ds + 0) array_init"
    using assms(2) array_init_ok by (simp add: header_array_def array_init_def)
  moreover have "array_get_element al array_init k = Some None"
    using array_get_element_spec [OF array_init_ok(1) assms(3)] by (simp add: array_lookup_def array_init_ok)
  ultimately show ?thesis
    using headers.insert_all_get [of ds 0 array_init k al None gs] assms(1,3) by blast
qed

theorem headers_joined_in_order_witness:
  "\<exists>a. insert_all (array_insert_unique (\<lambda>_. 0)) array_init
      [string_elem ''Accept'' ''x'', string_elem ''Host'' ''h'', string_elem ''ACCEPT'' ''y''] = Some a \<and>
    array_get_element False a ''accept'' = Some (Some (string_elem ''Accept'' ''x, y''))"
proof -
  let ?ds = "[string_elem ''Accept'' ''x'', string_elem ''Host'' ''h'', string_elem ''ACCEPT'' ''y'']"
  have same: "map lower_char ''Accept'' = ''accept''" "map lower_char ''ACCEPT'' = ''accept''"
    "map lower_char ''accept'' = ''accept''" "map lower_char ''Host'' = ''host''" by code_simp+
  have "list_all header_ok ?ds" "key_ok ''accept''"
    by (simp_all add: header_ok_def elem_ok_def is_string_def key_ok_def regular_str_def regular_char_def)
  moreover have "merge_headers (string_elem ''Accept'' ''x'') (string_elem ''ACCEPT'' ''y'') = string_elem ''Accept'' ''x, y''"
    by (simp add: merge_headers_def data_string_insert_dup_def bs_append_def bs_append_buffer_def string_elem_def)
  ultimately show ?thesis
    using headers_joined_in_order [of ?ds "''accept''" "\<lambda>_. 0" False] same by (simp add: INT_MAX_def)
qed

text \<open>\<open>array_pop\<close> leaves \<open>sorted\<close> alone: after inserting \<open>b\<close> and \<open>a\<close> and popping one element,
  the index of the popped element is still in \<open>sorted\<close>, and looking up \<open>b\<close> follows the null pointer
  the pop left behind.\<close>

theorem array_pop_stale:
  "(do { a \<leftarrow> insert_all (array_insert_unique (\<lambda>_. 0)) array_init [string_elem ''b'' ''1'', string_elem ''a'' ''2''];
         (_, a') \<leftarrow> array_pop a;
         array_get_element True a' ''b'' }) = None"
  by code_simp

text \<open>No reset clears \<open>is_index_key\<close>: an element that was inserted without a key, is taken again from the
  unused part of the array after \<open>array_reset\<close> and is given the key \<open>Host\<close>, is stored under a number.\<close>

theorem index_key_survives_reset:
  "(do { (_, a) \<leftarrow> array_insert_unique (\<lambda>_. 0) array_init ((string_elem ''x'' ''v'')\<lparr>du_key := None\<rparr>);
         ap \<leftarrow> array_reset (Some a);
         a1 \<leftarrow> ap;
         (e, a2) \<leftarrow> array_get_unused_element a1;
         el \<leftarrow> e;
         (_, a3) \<leftarrow> array_insert_unique (\<lambda>_. 0) a2 (el\<lparr>du_key := Some ''Host'', du_val := DString (Some ''h'')\<rparr>);
         array_get_element True a3 ''Host'' }) = Some None"
  by code_simp

end
