(* ===== verification/SplayTree.thy ===== *)
theory SplayTree
  imports Prelude
begin

text \<open>
  The splay trees of \<open>splaytree.c\<close>, the index of the stat cache: top-down splaying with a size field
  in every node, insertion, deletion and search by rank. The tree is a datatype; the two trees
  that \<open>splaytree_splay\<close> collects under its local node \<open>N\<close> are the lists of the nodes that were linked
  to them, oldest first, and the loops that correct the size fields run over these lists.
  \<open>compare(i, j)\<close> is the subtraction on \<open>int\<close>, with the wrap-around of the machine.

  The lemmas show that splaying keeps the contents and the sizes, finds the key when the comparison
  does not overflow, and that insertion and deletion implement a finite map.
\<close>

section \<open>Trees\<close>

datatype 'v splay_tree = Null | Node "'v splay_tree" int 'v int "'v splay_tree"

definition splaytree_size :: "'v splay_tree \<Rightarrow> int" where
  "splaytree_size t = (case t of Null \<Rightarrow> 0 | Node _ _ _ s _ \<Rightarrow> s)"

definition compare_key :: "int \<Rightarrow> int \<Rightarrow> int" where
  "compare_key i j = signed_take_bit 31 (i - j)"

text \<open>The loop: \<open>L\<close> are the nodes linked left with their left subtrees, \<open>R\<close> those linked right with
  their right subtrees.\<close>

type_synonym 'v left_link = "'v splay_tree \<times> int \<times> 'v \<times> int"
type_synonym 'v right_link = "int \<times> 'v \<times> int \<times> 'v splay_tree"

type_synonym 'v splay_state = "'v splay_tree \<times> 'v left_link list \<times> 'v right_link list \<times> int \<times> int"

text \<open>One round: \<open>Inl\<close> is \<open>break\<close>.\<close>

fun step_left :: "int \<Rightarrow> 'v splay_state \<Rightarrow> 'v splay_state + 'v splay_state" where
  "step_left i (Node (Node yl yk yd ys yr) k d s r, L, R, ls, rs) =
     (if compare_key i yk < 0 then
        (let t' = Node yr k d (splaytree_size yr + splaytree_size r + 1) r in
         if yl = Null then Inl (Node yl yk yd ys t', L, R, ls, rs)
         else Inr (yl, L, R @ [(yk, yd, ys, t')], ls, rs + (1 + splaytree_size t')))
      else Inr (Node yl yk yd ys yr, L, R @ [(k, d, s, r)], ls, rs + (1 + splaytree_size r)))"
| "step_left i st = Inl st"

fun step_right :: "int \<Rightarrow> 'v splay_state \<Rightarrow> 'v splay_state + 'v splay_state" where
  "step_right i (Node l k d s (Node yl yk yd ys yr), L, R, ls, rs) =
     (if compare_key i yk > 0 then
        (let t' = Node l k d (splaytree_size l + splaytree_size yl + 1) yl in
         if yr = Null then Inl (Node t' yk yd ys yr, L, R, ls, rs)
         else Inr (yr, L @ [(t', yk, yd, ys)], R, ls + (1 + splaytree_size t'), rs))
      else Inr (Node yl yk yd ys yr, L @ [(l, k, d, s)], R, ls + (1 + splaytree_size l), rs))"
| "step_right i st = Inl st"

fun splay_step :: "int \<Rightarrow> 'v splay_state \<Rightarrow> 'v splay_state + 'v splay_state" where
  "splay_step i (Null, r) = Inl (Null, r)"
| "splay_step i (Node l k d s r, rest) =
     (if compare_key i k < 0 then step_left i (Node l k d s r, rest)
      else if compare_key i k > 0 then step_right i (Node l k d s r, rest)
      else Inl (Node l k d s r, rest))"

lemma step_left_size: "step_left i st = Inr st' \<Longrightarrow> size (fst st') < size (fst st)"
  by (induction i st rule: step_left.induct) (auto simp: Let_def split: if_splits)

lemma step_right_size: "step_right i st = Inr st' \<Longrightarrow> size (fst st') < size (fst st)"
  by (induction i st rule: step_right.induct) (auto simp: Let_def split: if_splits)

lemma splay_step_size: "splay_step i st = Inr st' \<Longrightarrow> size (fst st') < size (fst st)"
  by (induction i st rule: splay_step.induct) (auto split: if_splits dest: step_left_size step_right_size)

function splay_loop :: "int \<Rightarrow> 'v splay_state \<Rightarrow> 'v splay_state" where
  "splay_loop i st = (case splay_step i st of Inl st' \<Rightarrow> st' | Inr st' \<Rightarrow> splay_loop i st')"
  by pat_completeness auto
termination
  by (relation "measure (\<lambda>(i, st). size (fst st))") (auto dest: splay_step_size)

declare splay_loop.simps [simp del]

text \<open>The chains with corrected sizes, ending in the subtree of the new root.\<close>

fun left_chain :: "'v left_link list \<Rightarrow> int \<Rightarrow> 'v splay_tree \<Rightarrow> 'v splay_tree" where
  "left_chain [] l_size tail = tail"
| "left_chain ((l, k, d, s) # L) l_size tail = Node l k d l_size (left_chain L (l_size - (1 + splaytree_size l)) tail)"

fun right_chain :: "'v right_link list \<Rightarrow> int \<Rightarrow> 'v splay_tree \<Rightarrow> 'v splay_tree" where
  "right_chain [] r_size tail = tail"
| "right_chain ((k, d, s, r) # R) r_size tail = Node (right_chain R (r_size - (1 + splaytree_size r)) tail) k d r_size r"

definition splaytree_splay :: "'v splay_tree \<Rightarrow> int \<Rightarrow> 'v splay_tree" where
  "splaytree_splay t i = (case splay_loop i (t, [], [], 0, 0) of (t', L, R, ls, rs) \<Rightarrow>
     (case t' of
        Null \<Rightarrow> Null
      | Node l k d s r \<Rightarrow>
          (let l_size = ls + splaytree_size l; r_size = rs + splaytree_size r in
           Node (left_chain L l_size l) k d (l_size + r_size + 1) (right_chain R r_size r))))"

definition new_node :: "'v splay_tree \<Rightarrow> int \<Rightarrow> 'v \<Rightarrow> 'v splay_tree \<Rightarrow> 'v splay_tree" where
  "new_node l i d r = Node l i d (1 + splaytree_size l + splaytree_size r) r"

definition splaytree_insert :: "'v splay_tree \<Rightarrow> int \<Rightarrow> 'v \<Rightarrow> 'v splay_tree" where
  "splaytree_insert t i d = (case splaytree_splay t i of
     Null \<Rightarrow> new_node Null i d Null
   | Node l k e s r \<Rightarrow>
       if compare_key i k = 0 then Node l k e s r
       else if compare_key i k < 0 then new_node l i d (Node Null k e (1 + splaytree_size r) r)
       else new_node (Node l k e (1 + splaytree_size l) Null) i d r)"

text \<open>\<open>x->right = t->right\<close> overwrites the right subtree of \<open>x\<close>.\<close>

definition splaytree_delete :: "'v splay_tree \<Rightarrow> int \<Rightarrow> 'v splay_tree" where
  "splaytree_delete t i = (case splaytree_splay t i of
     Null \<Rightarrow> Null
   | Node l k d s r \<Rightarrow>
       if compare_key i k = 0 then
         (case (if l = Null then r
                else (case splaytree_splay l i of Null \<Rightarrow> Null | Node xl xk xd xs xr \<Rightarrow> Node xl xk xd xs r)) of
            Null \<Rightarrow> Null
          | Node xl xk xd xs xr \<Rightarrow> Node xl xk xd (splaytree_size t - 1) xr)
       else Node l k d s r)"

text \<open>The loop of \<open>find_rank\<close>; running into \<open>NULL\<close> would be a fault.\<close>

fun rank_loop :: "int \<Rightarrow> 'v splay_tree \<Rightarrow> 'v splay_tree option" where
  "rank_loop n Null = None"
| "rank_loop n (Node l k d s r) =
     (let lsize = splaytree_size l in
      if n < lsize then rank_loop n l
      else if n > lsize then rank_loop (n - lsize - 1) r
      else Some (Node l k d s r))"

definition find_rank :: "int \<Rightarrow> 'v splay_tree \<Rightarrow> 'v splay_tree option option" where
  "find_rank n t = (if n < 0 \<or> n \<ge> splaytree_size t then Some None else map_option Some (rank_loop n t))"

section \<open>Contents and sizes\<close>

fun inorder :: "'v splay_tree \<Rightarrow> (int \<times> 'v) list" where
  "inorder Null = []"
| "inorder (Node l k d s r) = inorder l @ (k, d) # inorder r"

fun size_ok :: "'v splay_tree \<Rightarrow> bool" where
  "size_ok Null = True"
| "size_ok (Node l k d s r) = (size_ok l \<and> size_ok r \<and> s = int (length (inorder (Node l k d s r))))"

lemma splaytree_size_Node: "splaytree_size (Node l k d s r) = s"
  by (simp add: splaytree_size_def)

lemma size_ok_size: "size_ok t \<Longrightarrow> splaytree_size t = int (length (inorder t))"
  by (cases t) (auto simp: splaytree_size_def)

definition lefts :: "'v left_link list \<Rightarrow> (int \<times> 'v) list" where
  "lefts L = concat (map (\<lambda>(l, k, d, s). inorder l @ [(k, d)]) L)"

definition rights :: "'v right_link list \<Rightarrow> (int \<times> 'v) list" where
  "rights R = concat (map (\<lambda>(k, d, s, r). (k, d) # inorder r) (rev R))"

lemma lefts_simps [simp]: "lefts [] = []" "lefts ((l, k, d, s) # L) = inorder l @ (k, d) # lefts L" "lefts (L @ L') = lefts L @ lefts L'"
  by (simp_all add: lefts_def)

lemma rights_simps [simp]: "rights [] = []" "rights (R @ R') = rights R' @ rights R"
  "rights [(k, d, s, r)] = (k, d) # inorder r"
  by (simp_all add: rights_def)

text \<open>Invariants of the loop are invariants of a round.\<close>

lemma splay_loop_invariant:
  assumes "I st" "\<And>st st'. I st \<Longrightarrow> splay_step i st = Inr st' \<Longrightarrow> I st'" "\<And>st st'. I st \<Longrightarrow> splay_step i st = Inl st' \<Longrightarrow> Q st'"
  shows "Q (splay_loop i st)"
  using assms(1)
proof (induction "size (fst st)" arbitrary: st rule: less_induct)
  case less
  show ?case
  proof (cases "splay_step i st")
    case (Inl st')
    then show ?thesis using assms(3) [OF less.prems] by (subst splay_loop.simps) simp
  next
    case (Inr st')
    then show ?thesis using less.hyps [of st'] splay_step_size [OF Inr] assms(2) [OF less.prems Inr]
      by (subst splay_loop.simps) simp
  qed
qed

definition contents :: "'v splay_state \<Rightarrow> (int \<times> 'v) list" where
  "contents st = (case st of (t, L, R, _, _) \<Rightarrow> lefts L @ inorder t @ rights R)"

definition root_sizes :: "'v splay_tree \<Rightarrow> bool" where
  "root_sizes t = (case t of Null \<Rightarrow> False | Node l _ _ _ r \<Rightarrow> size_ok l \<and> size_ok r)"

definition links_ok :: "'v splay_state \<Rightarrow> bool" where
  "links_ok st = (case st of (t, L, R, ls, rs) \<Rightarrow> list_all (\<lambda>(l, _). size_ok l) L \<and> list_all (\<lambda>(_, _, _, r). size_ok r) R \<and>
     ls = int (length (lefts L)) \<and> rs = int (length (rights R)))"

lemma step_left_contents:
  "case step_left i st of Inl st' \<Rightarrow> contents st' = contents st | Inr st' \<Rightarrow> contents st' = contents st"
  by (cases "(i, st)" rule: step_left.cases) (simp_all add: Let_def contents_def)

lemma step_right_contents:
  "case step_right i st of Inl st' \<Rightarrow> contents st' = contents st | Inr st' \<Rightarrow> contents st' = contents st"
  by (cases "(i, st)" rule: step_right.cases) (simp_all add: Let_def contents_def)

lemma splay_step_contents:
  "case splay_step i st of Inl st' \<Rightarrow> contents st' = contents st | Inr st' \<Rightarrow> contents st' = contents st"
  using step_left_contents [of st i] step_right_contents [of st i]
  by (cases "(i, st)" rule: splay_step.cases) simp_all

lemma step_left_sizes:
  "size_ok (fst st) \<Longrightarrow> links_ok st \<Longrightarrow> fst st \<noteq> Null \<Longrightarrow>
   (case step_left i st of Inl st' \<Rightarrow> root_sizes (fst st') \<and> links_ok st' | Inr st' \<Rightarrow> size_ok (fst st') \<and> links_ok st' \<and> fst st' \<noteq> Null)"
  by (cases "(i, st)" rule: step_left.cases)
    (simp_all add: Let_def links_ok_def root_sizes_def size_ok_size splaytree_size_Node)

lemma step_right_sizes:
  "size_ok (fst st) \<Longrightarrow> links_ok st \<Longrightarrow> fst st \<noteq> Null \<Longrightarrow>
   (case step_right i st of Inl st' \<Rightarrow> root_sizes (fst st') \<and> links_ok st' | Inr st' \<Rightarrow> size_ok (fst st') \<and> links_ok st' \<and> fst st' \<noteq> Null)"
  by (cases "(i, st)" rule: step_right.cases)
    (simp_all add: Let_def links_ok_def root_sizes_def size_ok_size splaytree_size_Node)

lemma splay_step_sizes:
  "size_ok (fst st) \<Longrightarrow> links_ok st \<Longrightarrow> fst st \<noteq> Null \<Longrightarrow>
   (case splay_step i st of Inl st' \<Rightarrow> root_sizes (fst st') \<and> links_ok st' | Inr st' \<Rightarrow> size_ok (fst st') \<and> links_ok st' \<and> fst st' \<noteq> Null)"
  using step_left_sizes [of st i] step_right_sizes [of st i]
  by (cases "(i, st)" rule: splay_step.cases) (simp_all add: root_sizes_def)

lemma splay_loop_contents: "contents (splay_loop i st) = contents st"
proof (rule splay_loop_invariant [where I = "\<lambda>s. contents s = contents st"])
  fix s s' :: "'a splay_state"
  assume "contents s = contents st"
  then show "splay_step i s = Inr s' \<Longrightarrow> contents s' = contents st" "splay_step i s = Inl s' \<Longrightarrow> contents s' = contents st"
    using splay_step_contents [of s i] by simp_all
qed simp

lemma splay_loop_sizes:
  assumes "size_ok t" "t \<noteq> Null"
  shows "root_sizes (fst (splay_loop i (t, [], [], 0, 0))) \<and> links_ok (splay_loop i (t, [], [], 0, 0))"
proof (rule splay_loop_invariant [where I = "\<lambda>s. size_ok (fst s) \<and> links_ok s \<and> fst s \<noteq> Null"])
  show "size_ok (fst (t, [], [], 0, 0)) \<and> links_ok (t, [], [], 0, 0) \<and> fst (t, [], [], 0, 0) \<noteq> Null"
    using assms by (simp add: links_ok_def)
next
  fix st st' :: "'a splay_state"
  assume "size_ok (fst st) \<and> links_ok st \<and> fst st \<noteq> Null"
  then have "case splay_step i st of Inl st' \<Rightarrow> root_sizes (fst st') \<and> links_ok st' | Inr st' \<Rightarrow> size_ok (fst st') \<and> links_ok st' \<and> fst st' \<noteq> Null"
    using splay_step_sizes [of st i] by blast
  then show "splay_step i st = Inr st' \<Longrightarrow> size_ok (fst st') \<and> links_ok st' \<and> fst st' \<noteq> Null"
    and "splay_step i st = Inl st' \<Longrightarrow> root_sizes (fst st') \<and> links_ok st'" by simp_all
qed

lemma left_chain_ok:
  assumes "list_all (\<lambda>(l, _). size_ok l) L" "size_ok tail" "n = int (length (lefts L @ inorder tail))"
  shows "inorder (left_chain L n tail) = lefts L @ inorder tail \<and> size_ok (left_chain L n tail)"
  using assms
proof (induction L arbitrary: n)
  case (Cons x L)
  obtain l k d s where x: "x = (l, k, d, s)" by (cases x)
  with Cons show ?case by (simp add: size_ok_size)
qed simp

lemma right_chain_ok:
  assumes "list_all (\<lambda>(_, _, _, r). size_ok r) R" "size_ok tail" "n = int (length (inorder tail @ rights R))"
  shows "inorder (right_chain R n tail) = inorder tail @ rights R \<and> size_ok (right_chain R n tail)"
  using assms
proof (induction R arbitrary: n)
  case (Cons x R)
  obtain k d s r where x: "x = (k, d, s, r)" by (cases x)
  have "rights (x # R) = rights R @ rights [x]" by (simp add: rights_def)
  with Cons x show ?case by (simp add: size_ok_size)
qed simp

lemma splay_inorder_size:
  assumes "size_ok t"
  shows "inorder (splaytree_splay t i) = inorder t" "size_ok (splaytree_splay t i)" "splaytree_splay t i = Null \<longleftrightarrow> t = Null"
proof -
  obtain t' L R ls rs where e: "splay_loop i (t, [], [], 0, 0) = (t', L, R, ls, rs)" by (metis prod_cases5)
  have c: "lefts L @ inorder t' @ rights R = inorder t"
    using splay_loop_contents [of i "(t, [], [], 0, 0)"] e by (simp add: contents_def)
  have "inorder (splaytree_splay t i) = inorder t \<and> size_ok (splaytree_splay t i) \<and> (splaytree_splay t i = Null \<longleftrightarrow> t = Null)"
  proof (cases "t = Null")
    case True
    then show ?thesis by (simp add: splaytree_splay_def splay_loop.simps)
  next
    case False
    then have rs: "root_sizes t'" "links_ok (t', L, R, ls, rs)" using splay_loop_sizes [OF assms False, of i] e by auto
    then obtain l k d s r where t': "t' = Node l k d s r" "size_ok l" "size_ok r" by (cases t') (auto simp: root_sizes_def)
    have lk: "list_all (\<lambda>(l, _). size_ok l) L" "list_all (\<lambda>(_, _, _, r). size_ok r) R"
      "ls + splaytree_size l = int (length (lefts L @ inorder l))" "rs + splaytree_size r = int (length (inorder r @ rights R))"
      using rs(2) t' by (auto simp: links_ok_def size_ok_size)
    have "length (inorder t) = length (lefts L @ inorder l) + length (inorder r @ rights R) + 1"
      using arg_cong [OF c, of length] t'(1) by simp
    with left_chain_ok [OF lk(1) t'(2) lk(3)] right_chain_ok [OF lk(2) t'(3) lk(4)] c t' e lk(3,4) False
    show ?thesis by (simp add: splaytree_splay_def Let_def)
  qed
  then show "inorder (splaytree_splay t i) = inorder t" "size_ok (splaytree_splay t i)" "splaytree_splay t i = Null \<longleftrightarrow> t = Null" by auto
qed

section \<open>Searching\<close>

text \<open>Keys for which the comparison does not overflow.\<close>

definition key_range :: "int \<Rightarrow> bool" where
  "key_range k = (0 \<le> k \<and> k < 2 ^ 31)"

lemma compare_key_range: "key_range i \<Longrightarrow> key_range k \<Longrightarrow> compare_key i k = i - k"
  unfolding compare_key_def key_range_def by (rule signed_take_bit_int_eq_self) auto

definition bst :: "'v splay_tree \<Rightarrow> bool" where
  "bst t = (sorted_wrt (<) (map fst (inorder t)) \<and> list_all (\<lambda>x. key_range (fst x)) (inorder t))"

definition around :: "int \<Rightarrow> 'v splay_state \<Rightarrow> bool" where
  "around i st = (case st of (t, L, R, _, _) \<Rightarrow> list_all (\<lambda>x. fst x < i) (lefts L) \<and> list_all (\<lambda>x. i < fst x) (rights R))"

definition searching :: "int \<Rightarrow> 'v splay_state \<Rightarrow> bool" where
  "searching i st = (key_range i \<and> around i st \<and> bst (fst st))"

definition found :: "int \<Rightarrow> 'v splay_state \<Rightarrow> bool" where
  "found i st = (around i st \<and> bst (fst st) \<and>
     (case fst st of Null \<Rightarrow> True | Node l k d s r \<Rightarrow> (i < k \<longrightarrow> l = Null) \<and> (k < i \<longrightarrow> r = Null)))"

lemma bst_Node:
  "bst (Node l k d s r) \<longleftrightarrow> bst l \<and> bst r \<and> key_range k \<and> (\<forall>x \<in> set (inorder l). fst x < k) \<and> (\<forall>x \<in> set (inorder r). k < fst x)"
  by (auto simp: bst_def sorted_wrt_append list_all_iff) fastforce

lemma bst_Null [simp]: "bst Null"
  by (simp add: bst_def)

lemma step_left_found:
  assumes "searching i st" "case fst st of Null \<Rightarrow> False | Node _ k _ _ _ \<Rightarrow> i < k"
  shows "case step_left i st of Inl st' \<Rightarrow> found i st' | Inr st' \<Rightarrow> searching i st'"
proof (cases "(i, st)" rule: step_left.cases)
  case (1 j yl yk yd ys yr k d s r L R ls rs)
  have *: "key_range i" "key_range yk" "i < k" "yk < k" "bst yl" "bst yr" "bst r" "key_range k" "\<forall>x \<in> set (inorder yl). fst x < yk"
    "\<forall>x \<in> set (inorder yr). yk < fst x \<and> fst x < k" "\<forall>x \<in> set (inorder r). k < fst x"
    "list_all (\<lambda>x. fst x < i) (lefts L)" "list_all (\<lambda>x. i < fst x) (rights R)"
    using assms 1 by (auto simp: searching_def around_def bst_Node)
  then have cmp: "compare_key i yk = i - yk" by (intro compare_key_range)
  show ?thesis
  proof (cases "i < yk")
    case True
    with * cmp 1 show ?thesis by (auto simp: Let_def searching_def found_def around_def list_all_iff bst_Node)
  next
    case False
    with * cmp 1 show ?thesis by (auto simp: Let_def searching_def around_def list_all_iff bst_Node)
  qed
qed (use assms in \<open>auto simp: searching_def found_def around_def bst_Node\<close>)

lemma step_right_found:
  assumes "searching i st" "case fst st of Null \<Rightarrow> False | Node _ k _ _ _ \<Rightarrow> k < i"
  shows "case step_right i st of Inl st' \<Rightarrow> found i st' | Inr st' \<Rightarrow> searching i st'"
proof (cases "(i, st)" rule: step_right.cases)
  case (1 j l k d s yl yk yd ys yr L R ls rs)
  have *: "key_range i" "key_range yk" "k < i" "k < yk" "bst yl" "bst yr" "bst l" "key_range k" "\<forall>x \<in> set (inorder yr). yk < fst x"
    "\<forall>x \<in> set (inorder yl). k < fst x \<and> fst x < yk" "\<forall>x \<in> set (inorder l). fst x < k"
    "list_all (\<lambda>x. fst x < i) (lefts L)" "list_all (\<lambda>x. i < fst x) (rights R)"
    using assms 1 by (auto simp: searching_def around_def bst_Node)
  then have cmp: "compare_key i yk = i - yk" by (intro compare_key_range)
  show ?thesis
  proof (cases "yk < i")
    case True
    with * cmp 1 show ?thesis by (auto simp: Let_def searching_def found_def around_def list_all_iff bst_Node)
  next
    case False
    with * cmp 1 show ?thesis by (auto simp: Let_def searching_def around_def list_all_iff bst_Node)
  qed
qed (use assms in \<open>auto simp: searching_def found_def around_def bst_Node\<close>)

lemma splay_step_found:
  assumes "searching i st"
  shows "case splay_step i st of Inl st' \<Rightarrow> found i st' | Inr st' \<Rightarrow> searching i st'"
proof (cases "fst st")
  case Null
  then show ?thesis using assms by (cases st) (simp add: searching_def found_def)
next
  case (Node l k d s r)
  then obtain rest where st: "st = (Node l k d s r, rest)" by (cases st) simp
  then have "compare_key i k = i - k" using assms by (intro compare_key_range) (auto simp: searching_def bst_def)
  with step_left_found [OF assms] step_right_found [OF assms] st assms show ?thesis
    by (cases "i < k"; cases "k < i") (auto simp: searching_def found_def)
qed

lemma splay_loop_found:
  assumes "bst t" "key_range i"
  shows "found i (splay_loop i (t, [], [], 0, 0))"
proof (rule splay_loop_invariant [where I = "searching i"])
  show "searching i (t, [], [], 0, 0)" using assms by (simp add: searching_def around_def)
next
  fix s s' :: "'a splay_state"
  assume "searching i s"
  from splay_step_found [OF this] show "splay_step i s = Inr s' \<Longrightarrow> searching i s'" "splay_step i s = Inl s' \<Longrightarrow> found i s'" by simp_all
qed

definition tree_ok :: "'v splay_tree \<Rightarrow> bool" where
  "tree_ok t = (size_ok t \<and> bst t)"

lemma splay_tree_ok: "tree_ok t \<Longrightarrow> tree_ok (splaytree_splay t i)"
  using splay_inorder_size [of t i] by (simp add: tree_ok_def bst_def)

lemma left_chain_contents: "inorder (left_chain L n tail) = lefts L @ inorder tail"
  by (induction L n tail rule: left_chain.induct) auto

lemma right_chain_contents: "inorder (right_chain R n tail) = inorder tail @ rights R"
proof (induction R n tail rule: right_chain.induct)
  case (2 k d s r R n tail)
  have "rights ((k, d, s, r) # R) = rights R @ (k, d) # inorder r" by (simp add: rights_def)
  with 2 show ?case by simp
qed simp

text \<open>The key splits the tree at the root.\<close>

lemma splay_split:
  assumes "bst t" "key_range i" "splaytree_splay t i = Node l k d s r"
  shows "\<forall>x \<in> set (inorder l). fst x < i" "\<forall>x \<in> set (inorder r). i < fst x"
proof -
  obtain t' L R ls rs where e: "splay_loop i (t, [], [], 0, 0) = (t', L, R, ls, rs)" by (metis prod_cases5)
  then obtain l' s' r' where t': "t' = Node l' k d s' r'" "l = left_chain L (ls + splaytree_size l') l'"
    "r = right_chain R (rs + splaytree_size r') r'"
    using assms(3) by (cases t') (auto simp: splaytree_splay_def Let_def)
  have f: "found i (t', L, R, ls, rs)" using splay_loop_found [OF assms(1,2)] e by simp
  then have "\<forall>x \<in> set (lefts L). fst x < i" "\<forall>x \<in> set (rights R). i < fst x" "bst t'" "i < k \<longrightarrow> l' = Null" "k < i \<longrightarrow> r' = Null"
    using t'(1) by (auto simp: found_def around_def list_all_iff)
  moreover from this(3) have "\<forall>x \<in> set (inorder l'). fst x < k" "\<forall>x \<in> set (inorder r'). k < fst x" using t'(1) by (auto simp: bst_Node)
  ultimately show "\<forall>x \<in> set (inorder l). fst x < i" "\<forall>x \<in> set (inorder r). i < fst x"
    using t'(2,3) by (cases i k rule: linorder_cases; force simp: left_chain_contents right_chain_contents)+
qed

text \<open>When every key is smaller, the largest one comes to the root.\<close>

definition rightmost :: "int \<Rightarrow> 'v splay_state \<Rightarrow> bool" where
  "rightmost i st = (case st of (t, L, R, _, _) \<Rightarrow> R = [] \<and> (case t of Null \<Rightarrow> True | Node l k d s r \<Rightarrow> r = Null))"

lemma splay_step_rightmost:
  assumes "\<forall>x \<in> set (inorder (fst st)). compare_key i (fst x) > 0" "fst (snd (snd st)) = []"
  shows "case splay_step i st of Inl st' \<Rightarrow> rightmost i st'
    | Inr st' \<Rightarrow> (\<forall>x \<in> set (inorder (fst st')). compare_key i (fst x) > 0) \<and> fst (snd (snd st')) = []"
proof (cases "fst st")
  case Null
  then show ?thesis using assms by (cases st) (auto simp: rightmost_def)
next
  case (Node l k d s r)
  obtain L R ls rs where st: "st = (Node l k d s r, L, R, ls, rs)" using Node by (cases st) auto
  show ?thesis using assms unfolding st by (cases r) (simp_all add: rightmost_def Let_def)
qed

lemma splay_rightmost:
  assumes "\<forall>x \<in> set (inorder t). compare_key i (fst x) > 0" "splaytree_splay t i = Node l k d s r"
  shows "r = Null"
proof -
  have "rightmost i (splay_loop i (t, [], [], 0, 0))"
  proof (rule splay_loop_invariant [where I = "\<lambda>st. (\<forall>x \<in> set (inorder (fst st)). compare_key i (fst x) > 0) \<and> fst (snd (snd st)) = []"])
    fix s s' :: "'a splay_state"
    assume "(\<forall>x \<in> set (inorder (fst s)). compare_key i (fst x) > 0) \<and> fst (snd (snd s)) = []"
    then have "case splay_step i s of Inl st' \<Rightarrow> rightmost i st'
      | Inr st' \<Rightarrow> (\<forall>x \<in> set (inorder (fst st')). compare_key i (fst x) > 0) \<and> fst (snd (snd st')) = []"
      using splay_step_rightmost by blast
    then show "splay_step i s = Inr s' \<Longrightarrow> (\<forall>x \<in> set (inorder (fst s')). compare_key i (fst x) > 0) \<and> fst (snd (snd s')) = []"
      "splay_step i s = Inl s' \<Longrightarrow> rightmost i s'" by simp_all
  qed (use assms(1) in simp)
  moreover obtain t' L R ls rs where e: "splay_loop i (t, [], [], 0, 0) = (t', L, R, ls, rs)" by (metis prod_cases5)
  ultimately show ?thesis using assms(2) by (cases t') (auto simp: splaytree_splay_def rightmost_def Let_def)
qed

section \<open>Insertion and deletion\<close>

definition lookup :: "'v splay_tree \<Rightarrow> int \<Rightarrow> 'v option" where
  "lookup t = map_of (inorder t)"

lemma splay_lookup: "tree_ok t \<Longrightarrow> lookup (splaytree_splay t i) = lookup t"
  using splay_inorder_size [of t i] by (simp add: tree_ok_def lookup_def)

lemma map_of_small: "\<forall>x \<in> set xs. fst x < i \<or> i < (fst x :: int) \<Longrightarrow> map_of xs i = None"
  by (induction xs) auto

lemma lookup_Node:
  assumes "\<forall>x \<in> set (inorder l). fst x < i" "\<forall>x \<in> set (inorder r). i < fst x"
  shows "lookup (Node l k d s r) i = (if k = i then Some d else None)"
proof -
  have "map_of (inorder l) i = None" "map_of (inorder r) i = None" using assms by (auto intro!: map_of_small)
  then show ?thesis by (simp add: lookup_def map_add_def)
qed

lemma splay_lookup_root:
  assumes "tree_ok t" "key_range i" "splaytree_splay t i = Node l k d s r"
  shows "lookup t i = (if k = i then Some d else None)"
  using lookup_Node [OF splay_split [OF _ assms(2,3)], of k d s] splay_lookup [OF assms(1), of i] assms by (simp add: tree_ok_def)

lemma insert_ok:
  assumes "tree_ok t" "key_range i"
  shows "tree_ok (splaytree_insert t i d)" "lookup (splaytree_insert t i d) = (if lookup t i = None then (lookup t)(i \<mapsto> d) else lookup t)"
proof -
  have "tree_ok (splaytree_insert t i d) \<and> lookup (splaytree_insert t i d) = (if lookup t i = None then (lookup t)(i \<mapsto> d) else lookup t)"
  proof (cases "splaytree_splay t i")
    case Null
    then have "t = Null" using splay_inorder_size(3) [of t i] assms(1) by (simp add: tree_ok_def)
    with Null assms(2) show ?thesis
      by (auto simp: splaytree_insert_def new_node_def tree_ok_def bst_Node lookup_def splaytree_size_def)
  next
    case (Node l k e s r)
    note sp = splay_split [OF _ assms(2) Node]
    have ok: "tree_ok (Node l k e s r)" and lk: "lookup t = lookup (Node l k e s r)"
      using splay_tree_ok [OF assms(1), of i] splay_lookup [OF assms(1), of i] Node by simp_all
    have split: "\<forall>x \<in> set (inorder l). fst x < i" "\<forall>x \<in> set (inorder r). i < fst x" using sp assms(1) by (simp_all add: tree_ok_def)
    have cmp: "compare_key i k = i - k" using ok assms(2) by (intro compare_key_range) (auto simp: tree_ok_def bst_Node)
    have root: "lookup t i = (if k = i then Some e else None)" using splay_lookup_root [OF assms Node] .
    consider "k = i" | "i < k" | "k < i" by linarith
    then show ?thesis
    proof cases
      case 1
      with Node cmp root lk ok show ?thesis by (simp add: splaytree_insert_def)
    next
      case 2
      then have "splaytree_insert t i d = new_node l i d (Node Null k e (1 + splaytree_size r) r)"
        using Node cmp by (simp add: splaytree_insert_def)
      moreover have "tree_ok (new_node l i d (Node Null k e (1 + splaytree_size r) r))"
        using ok split assms(2) 2 by (auto simp: tree_ok_def new_node_def bst_Node size_ok_size splaytree_size_Node)
      moreover have "map_of (inorder l) i = None" using split by (auto intro!: map_of_small)
      then have "lookup (new_node l i d (Node Null k e (1 + splaytree_size r) r)) = (lookup t)(i \<mapsto> d)"
        using lk 2 by (auto simp: lookup_def new_node_def map_add_def fun_eq_iff split: option.splits)
      ultimately show ?thesis using root 2 by simp
    next
      case 3
      then have "splaytree_insert t i d = new_node (Node l k e (1 + splaytree_size l) Null) i d r"
        using Node cmp by (simp add: splaytree_insert_def)
      moreover have "tree_ok (new_node (Node l k e (1 + splaytree_size l) Null) i d r)"
        using ok split assms(2) 3 by (auto simp: tree_ok_def new_node_def bst_Node size_ok_size splaytree_size_Node)
      moreover have "map_of (inorder l) i = None" using split by (auto intro!: map_of_small)
      then have "lookup (new_node (Node l k e (1 + splaytree_size l) Null) i d r) = (lookup t)(i \<mapsto> d)"
        using lk 3 by (auto simp: lookup_def new_node_def map_add_def fun_eq_iff split: option.splits)
      ultimately show ?thesis using root 3 by simp
    qed
  qed
  then show "tree_ok (splaytree_insert t i d)" "lookup (splaytree_insert t i d) = (if lookup t i = None then (lookup t)(i \<mapsto> d) else lookup t)"
    by auto
qed

text \<open>Deletion leaves the contents around the key.\<close>

lemma delete_inorder:
  assumes "tree_ok t" "key_range i" "splaytree_splay t i = Node l i d s r"
  shows "inorder (splaytree_delete t i) = inorder l @ inorder r" "size_ok (splaytree_delete t i)"
proof -
  have ok: "tree_ok (Node l i d s r)" using splay_tree_ok [OF assms(1), of i] assms(3) by simp
  then have sz: "size_ok l" "size_ok r" "bst l" "key_range i" by (auto simp: tree_ok_def bst_Node)
  have split: "\<forall>x \<in> set (inorder l). fst x < i" using splay_split(1) [OF _ assms(2,3)] assms(1) by (simp add: tree_ok_def)
  have "inorder t = inorder l @ (i, d) # inorder r"
    using splay_inorder_size(1) [of t i] assms(1,3) by (simp add: tree_ok_def)
  then have ts: "splaytree_size t - 1 = int (length (inorder l @ inorder r))"
    using size_ok_size [of t] assms(1) by (simp add: tree_ok_def)
  have cmp: "compare_key i i = 0" by (simp add: compare_key_def)
  have "inorder (splaytree_delete t i) = inorder l @ inorder r \<and> size_ok (splaytree_delete t i)"
  proof (cases "l = Null")
    case True
    then show ?thesis using assms(3) cmp sz ts by (cases r) (auto simp: splaytree_delete_def)
  next
    case False
    then obtain xl xk xd xs xr where x: "splaytree_splay l i = Node xl xk xd xs xr"
      using splay_inorder_size(3) [OF sz(1), of i] by (cases "splaytree_splay l i") auto
    have "compare_key i (fst y) > 0" if y: "y \<in> set (inorder l)" for y
    proof -
      have "key_range (fst y)" using sz(3) y by (auto simp: bst_def list_all_iff)
      then show ?thesis using compare_key_range [OF assms(2)] split y by simp
    qed
    then have "xr = Null" using splay_rightmost [OF _ x] by blast
    moreover have "inorder l = inorder xl @ (xk, xd) # inorder xr" "size_ok xl"
      using splay_inorder_size(1,2) [OF sz(1), of i] x by auto
    ultimately show ?thesis using assms(3) cmp False x sz ts by (simp add: splaytree_delete_def)
  qed
  then show "inorder (splaytree_delete t i) = inorder l @ inorder r" "size_ok (splaytree_delete t i)" by auto
qed

lemma delete_ok:
  assumes "tree_ok t" "key_range i"
  shows "tree_ok (splaytree_delete t i) \<and> lookup (splaytree_delete t i) = (lookup t)(i := None)"
proof (cases "splaytree_splay t i")
  case Null
  then have "t = Null" using splay_inorder_size(3) [of t i] assms(1) by (simp add: tree_ok_def)
  with Null show ?thesis by (auto simp: splaytree_delete_def tree_ok_def lookup_def)
next
  case (Node l k d s r)
  have ok: "tree_ok (Node l k d s r)" and lk: "lookup t = lookup (Node l k d s r)"
    using splay_tree_ok [OF assms(1), of i] splay_lookup [OF assms(1), of i] Node by simp_all
  have split: "\<forall>x \<in> set (inorder l). fst x < i" "\<forall>x \<in> set (inorder r). i < fst x"
    using splay_split [OF _ assms(2) Node] assms(1) by (simp_all add: tree_ok_def)
  have cmp: "compare_key i k = i - k" using ok assms(2) by (intro compare_key_range) (auto simp: tree_ok_def bst_Node)
  show ?thesis
  proof (cases "k = i")
    case True
    note del = delete_inorder [OF assms Node [unfolded True]]
    have "bst (splaytree_delete t i)"
      using ok split True unfolding bst_def del(1) by (fastforce simp: tree_ok_def bst_def sorted_wrt_append list_all_iff)
    moreover have "map_of (inorder l) i = None" "map_of (inorder r) i = None" using split by (auto intro!: map_of_small)
    then have "lookup (splaytree_delete t i) = (lookup t)(i := None)"
      using lk True unfolding lookup_def del(1) by (auto simp: map_add_def fun_eq_iff split: option.splits)
    ultimately show ?thesis using del(2) by (simp add: tree_ok_def)
  next
    case False
    then have "lookup t i = None" using splay_lookup_root [OF assms Node] by simp
    then have "(lookup t)(i := None) = lookup t" by (auto simp: fun_eq_iff)
    with False Node cmp ok lk show ?thesis by (simp add: splaytree_delete_def)
  qed
qed

lemma rank_loop_ok:
  "size_ok t \<Longrightarrow> 0 \<le> n \<Longrightarrow> n < int (length (inorder t)) \<Longrightarrow>
   \<exists>l k d s r. rank_loop n t = Some (Node l k d s r) \<and> inorder t ! nat n = (k, d)"
proof (induction n t rule: rank_loop.induct)
  case (2 n l k d s r)
  have sl: "splaytree_size l = int (length (inorder l))" using 2(3) by (simp add: size_ok_size)
  consider "n < int (length (inorder l))" | "n = int (length (inorder l))" | "n > int (length (inorder l))" by linarith
  then show ?case
  proof cases
    case 1
    with 2(1) [OF refl] 2(3-5) sl show ?thesis by (auto simp: nth_append nat_less_iff)
  next
    case 2
    with sl show ?thesis by (auto simp: nth_append)
  next
    case 3
    then have n: "0 \<le> n - int (length (inorder l)) - 1" "n - int (length (inorder l)) - 1 < int (length (inorder r))"
      "nat n - length (inorder l) = Suc (nat (n - int (length (inorder l)) - 1))" "\<not> nat n < length (inorder l)"
      using 2(5) by auto
    with 2(2) [OF refl] 2(3) sl 3 show ?thesis by (simp add: nth_append)
  qed
qed simp

section \<open>The interface of a finite map\<close>

text \<open>What the stat cache relies on: inserting never replaces, deleting removes, and both keep the
  invariant.\<close>

locale key_map =
  fixes inv :: "'t \<Rightarrow> bool"
    and look :: "'t \<Rightarrow> 'k \<Rightarrow> 'v option"
    and ins :: "'t \<Rightarrow> 'k \<Rightarrow> 'v \<Rightarrow> 't"
    and del :: "'t \<Rightarrow> 'k \<Rightarrow> 't"
    and dom_ok :: "'k \<Rightarrow> bool"
  assumes ins_inv: "inv t \<Longrightarrow> dom_ok k \<Longrightarrow> inv (ins t k v)"
    and ins_look: "inv t \<Longrightarrow> dom_ok k \<Longrightarrow> look (ins t k v) = (if look t k = None then (look t)(k \<mapsto> v) else look t)"
    and del_inv: "inv t \<Longrightarrow> dom_ok k \<Longrightarrow> inv (del t k)"
    and del_look: "inv t \<Longrightarrow> dom_ok k \<Longrightarrow> look (del t k) = (look t)(k := None)"
begin

lemma replace_law:
  assumes "inv t" "dom_ok k"
  shows "look (ins (del t k) k v) = (look t)(k \<mapsto> v)"
  using assms by (simp add: ins_look del_look del_inv)

lemma ins_all:
  assumes "inv t" "list_all (\<lambda>(k, v). dom_ok k) kvs"
  shows "inv (foldl (\<lambda>t (k, v). ins t k v) t kvs) \<and> look (foldl (\<lambda>t (k, v). ins t k v) t kvs) = map_of kvs ++ look t"
  using assms
proof (induction kvs arbitrary: t)
  case (Cons kv kvs)
  obtain k v where kv: "kv = (k, v)" by (cases kv)
  have "inv (ins t k v)" using Cons.prems kv by (auto intro: ins_inv)
  from Cons.IH [OF this] Cons.prems kv show ?case
    by (cases "look t k") (auto simp: ins_look map_add_def fun_eq_iff split: option.splits)
qed simp

end

interpretation st: key_map tree_ok lookup splaytree_insert splaytree_delete key_range
  by unfold_locales (simp_all add: insert_ok delete_ok)

section \<open>Properties\<close>

text \<open>A history of calls, and the same history on a finite map where an insertion keeps what is there.\<close>

datatype 'v tree_call = Splay int | Insert int 'v | Delete int

fun call_key :: "'v tree_call \<Rightarrow> int" where
  "call_key (Splay i) = i"
| "call_key (Insert i d) = i"
| "call_key (Delete i) = i"

fun run_call :: "'v splay_tree \<Rightarrow> 'v tree_call \<Rightarrow> 'v splay_tree" where
  "run_call t (Splay i) = splaytree_splay t i"
| "run_call t (Insert i d) = splaytree_insert t i d"
| "run_call t (Delete i) = splaytree_delete t i"

fun map_call :: "(int \<rightharpoonup> 'v) \<Rightarrow> 'v tree_call \<Rightarrow> (int \<rightharpoonup> 'v)" where
  "map_call m (Splay i) = m"
| "map_call m (Insert i d) = (if m i = None then m(i \<mapsto> d) else m)"
| "map_call m (Delete i) = m(i := None)"

lemma run_call_ok:
  assumes "tree_ok t" "key_range (call_key c)"
  shows "tree_ok (run_call t c) \<and> lookup (run_call t c) = map_call (lookup t) c"
  using assms by (cases c) (simp_all add: splay_tree_ok splay_lookup st.ins_inv st.ins_look st.del_inv st.del_look)

lemma run_calls_ok:
  "tree_ok t \<Longrightarrow> list_all (\<lambda>c. key_range (call_key c)) cs \<Longrightarrow>
   tree_ok (foldl run_call t cs) \<and> lookup (foldl run_call t cs) = foldl map_call (lookup t) cs"
proof (induction cs arbitrary: t)
  case (Cons c cs)
  with run_call_ok [of t c] show ?case by simp
qed simp

lemma tree_ok_Null: "tree_ok Null"
  by (simp add: tree_ok_def bst_def)

lemma tree_ok_size: "tree_ok t \<Longrightarrow> splaytree_size t = int (card (dom (lookup t)))"
proof -
  assume "tree_ok t"
  then have "distinct (map fst (inorder t))" "size_ok t"
    by (auto simp: tree_ok_def bst_def strict_sorted_iff)
  then show ?thesis
    by (simp add: lookup_def dom_map_of_conv_image_fst size_ok_size distinct_card flip: set_map)
qed

text \<open>C27. Every history of splaying, inserting and deleting that starts with the empty tree, on keys from 0 to
  \<open>2^31 - 1\<close>, implements a finite map: the tree then is a search tree with correct sizes that holds exactly
  what the history leaves in the map (an insertion does not replace, a deletion of an absent key changes
  nothing), its size field counts the entries, and splaying for a key brings the entry of that key to
  the root if there is one and another one otherwise.\<close>

theorem splaytree_refines_map:
  assumes "list_all (\<lambda>c. key_range (call_key c)) cs" "t = foldl run_call Null cs"
  shows "tree_ok t \<and> lookup t = foldl map_call Map.empty cs \<and> splaytree_size t = int (card (dom (lookup t))) \<and>
    (key_range i \<longrightarrow> (case splaytree_splay t i of
        Null \<Rightarrow> lookup t = Map.empty
      | Node l k d s r \<Rightarrow> lookup t k = Some d \<and> (lookup t i = (if k = i then Some d else None))))"
proof -
  have ok: "tree_ok t" "lookup t = foldl map_call Map.empty cs"
    using run_calls_ok [OF tree_ok_Null assms(1)] assms(2) by (simp_all add: lookup_def)
  have "case splaytree_splay t i of
        Null \<Rightarrow> lookup t = Map.empty
      | Node l k d s r \<Rightarrow> lookup t k = Some d \<and> (lookup t i = (if k = i then Some d else None))"
    if "key_range i"
  proof (cases "splaytree_splay t i")
    case Null
    then show ?thesis using splay_lookup [OF ok(1), of i] by (simp add: lookup_def)
  next
    case (Node l k d s r)
    have "bst (splaytree_splay t i)" using splay_tree_ok [OF ok(1), of i] unfolding tree_ok_def by blast
    then have "lookup (Node l k d s r) k = Some d" unfolding Node by (simp add: lookup_Node bst_Node)
    then show ?thesis using splay_lookup [OF ok(1), of i] splay_lookup_root [OF ok(1) that Node] Node by simp
  qed
  with ok tree_ok_size [OF ok(1)] show ?thesis by blast
qed

theorem splaytree_refines_map_witness:
  "lookup (foldl run_call Null [Insert 5 ''a'', Insert 9 ''b'', Insert 5 ''d'', Delete 9, Splay 7]) = [5 \<mapsto> ''a'']"
proof -
  have "list_all (\<lambda>c. key_range (call_key c)) [Insert 5 ''a'', Insert 9 ''b'', Insert 5 ''d'', Delete 9, Splay 7]" by code_simp
  from splaytree_refines_map [OF this refl, of 5] have "lookup (foldl run_call Null [Insert 5 ''a'', Insert 9 ''b'', Insert 5 ''d'', Delete 9, Splay 7])
    = foldl map_call Map.empty [Insert 5 ''a'', Insert 9 ''b'', Insert 5 ''d'', Delete 9, Splay 7]" by blast
  then show ?thesis by (simp only:) (auto simp: fun_eq_iff)
qed

text \<open>Splaying for any key, also one for which the comparison overflows, keeps the sequence of the
  entries and the correctness of all size fields, and gives the empty tree only for the empty tree; the node
  that \<open>find_rank\<close> returns afterwards is the entry at that position of the sequence, \<open>NULL\<close> outside of it.\<close>

theorem splay_keeps_sequence:
  assumes "size_ok t"
  shows "inorder (splaytree_splay t i) = inorder t \<and> size_ok (splaytree_splay t i) \<and>
    (splaytree_splay t i = Null \<longleftrightarrow> t = Null) \<and>
    (case find_rank n (splaytree_splay t i) of
       None \<Rightarrow> False
     | Some None \<Rightarrow> n < 0 \<or> int (length (inorder t)) \<le> n
     | Some (Some nd) \<Rightarrow> 0 \<le> n \<and> n < int (length (inorder t)) \<and>
         (\<exists>l k d s r. nd = Node l k d s r \<and> inorder t ! nat n = (k, d)))"
proof -
  note sp = splay_inorder_size [OF assms, of i]
  have "splaytree_size (splaytree_splay t i) = int (length (inorder t))" using sp(1,2) by (simp add: size_ok_size)
  then show ?thesis using sp rank_loop_ok [OF sp(2), of n] by (auto simp: find_rank_def)
qed

theorem splay_keeps_sequence_witness:
  "inorder (splaytree_splay (foldl run_call Null [Insert 5 ''a'', Insert 9 ''b'', Insert 2 ''c'']) 9) = [(2, ''c''), (5, ''a''), (9, ''b'')]"
proof -
  have "size_ok (foldl run_call Null [Insert 5 ''a'', Insert 9 ''b'', Insert 2 ''c''])" by code_simp
  from splay_keeps_sequence [OF this, of 9 0]
  have "inorder (splaytree_splay (foldl run_call Null [Insert 5 ''a'', Insert 9 ''b'', Insert 2 ''c'']) 9)
    = inorder (foldl run_call Null [Insert 5 ''a'', Insert 9 ''b'', Insert 2 ''c''])" by blast
  also have "\<dots> = [(2, ''c''), (5, ''a''), (9, ''b'')]" by code_simp
  finally show ?thesis .
qed

text \<open>The comparison is a subtraction on \<open>int\<close>, not the order the comment at it promises: with keys of both
  signs it wraps around, and after the insertion of 0, 1431655765 and -1431655766 the entry of 0 is in
  the tree but splaying for 0 does not bring it to the root, so that a second insertion of 0 adds a duplicate.\<close>

theorem splay_compare_overflow:
  "(let t = foldl run_call Null [Insert 0 ''a'', Insert 1431655765 ''b'', Insert (- 1431655766) ''c'']; u = splaytree_insert t 0 ''d'' in
    lookup t 0 = Some ''a'' \<and> (case splaytree_splay t 0 of Null \<Rightarrow> False | Node l k d s r \<Rightarrow> k \<noteq> 0) \<and>
    length (filter (\<lambda>x. fst x = 0) (inorder u)) = 2 \<and> splaytree_size u = 4)"
  by code_simp

end
