(* ===== verification/StatCache.thy ===== *)
theory StatCache
  imports Etag Array SplayTree
begin

text \<open>
  The cache of file statuses, \<open>stat_cache.c\<close>, as it is compiled with \<open>HAVE_LSTAT\<close> and without
  \<open>HAVE_FAM_H\<close>, \<open>HAVE_XATTR\<close> and \<open>DEBUG_STAT_CACHE\<close>: the hash of the file name, the lookup that fills the cache, the
  test for symbolic links along the path, the content type, the removal of old entries and the release of the cache.
  The tree is the one of theory SplayTree; a node owns its entry, so that the entry is the data of the node.
  The file system is a parameter: what \<open>stat\<close>, \<open>lstat\<close> and \<open>open\<close> answer.

  The lemmas show that the hash gives keys on which the tree works, that the cache keeps its invariant, answers within one
  second what the file system answers, finds the symbolic links along a path, and what a hash collision does to it.
\<close>

section \<open>State\<close>

record file_system =
  fs_stat :: "string \<Rightarrow> file_stat option"
  fs_lstat :: "string \<Rightarrow> file_stat option"
  fs_open :: "string \<Rightarrow> bool"

record stat_cache_entry =
  sce_name :: bstr
  sce_etag :: bstr
  sce_st :: file_stat
  sce_stat_ts :: int
  sce_is_symlink :: int
  sce_content_type :: bstr

record stat_cache =
  sc_files :: "stat_cache_entry splay_tree"
  sc_dir_name :: bstr
  sc_hash_key :: bstr

datatype handler_t =
  HANDLER_UNSET | HANDLER_GO_ON | HANDLER_FINISHED | HANDLER_COMEBACK | HANDLER_WAIT_FOR_EVENT | HANDLER_ERROR | HANDLER_WAIT_FOR_FD

datatype stat_cache_engine = STAT_CACHE_ENGINE_UNSET | STAT_CACHE_ENGINE_NONE | STAT_CACHE_ENGINE_SIMPLE

text \<open>What the cache reads of the server and of the connection.\<close>

record stat_conf =
  cur_ts :: int
  engine :: stat_cache_engine
  follow_symlink :: int
  mimetypes :: array
  etag_flags :: nat

definition stat_cache_init :: stat_cache where
  "stat_cache_init = \<lparr>sc_files = Null, sc_dir_name = None, sc_hash_key = None\<rparr>"

definition stat_cache_entry_init :: stat_cache_entry where
  "stat_cache_entry_init = \<lparr>sce_name = None, sce_etag = None, sce_st = \<lparr>st_mode = 0, st_ino = 0, st_size = 0, st_mtime = 0\<rparr>,
     sce_stat_ts = 0, sce_is_symlink = 0, sce_content_type = None\<rparr>"

text \<open>\<open>stat_cache_free\<close>: the first loop, with its assertion. A fault and a loop that does not end are both \<open>None\<close>.\<close>

partial_function (option) free_files :: "'v splay_tree \<Rightarrow> 'v splay_tree option" where
  "free_files t = (case t of
     Null \<Rightarrow> Some Null
   | Node l k d s r \<Rightarrow>
       (let t' = splaytree_delete t k in
        if s - 1 = splaytree_size t' then free_files t' else None))"

declare free_files.simps [code]

definition stat_cache_free :: "stat_cache \<Rightarrow> unit option" where
  "stat_cache_free sc = do { free_files (sc_files sc); Some () }"

section \<open>The hash\<close>

fun hash_loop :: "32 word \<Rightarrow> string \<Rightarrow> 32 word" where
  "hash_loop h [] = h"
| "hash_loop h (c # s) = hash_loop ((push_bit 5 h + h) + word_of_int (schar c)) s"

definition hashme :: "string \<Rightarrow> 32 word" where
  "hashme str = hash_loop 5381 (c_str str) AND NOT (push_bit 31 1)"

section \<open>Looking a file up\<close>

definition stat_cache_lstat :: "file_system \<Rightarrow> string \<Rightarrow> int" where
  "stat_cache_lstat fs dname = (case fs_lstat fs (c_str dname) of
     Some lst \<Rightarrow> if S_ISLNK (st_mode lst) then 0 else 1
   | None \<Rightarrow> -1)"

text \<open>What \<open>*strrchr(d, '/') = 0\<close> leaves of a string.\<close>

fun cut_last_slash :: "string \<Rightarrow> string option" where
  "cut_last_slash [] = None"
| "cut_last_slash (c # s) = (case cut_last_slash s of
     Some p \<Rightarrow> Some (c # p)
   | None \<Rightarrow> if c = CHR ''/'' then Some [] else None)"

lemma cut_last_slash_length: "cut_last_slash s = Some p \<Longrightarrow> length p < length s"
  by (induction s arbitrary: p) (auto split: option.splits if_splits)

function symlink_loop :: "file_system \<Rightarrow> string \<Rightarrow> int \<Rightarrow> int" where
  "symlink_loop fs dname is_symlink = (case cut_last_slash dname of
     None \<Rightarrow> is_symlink
   | Some p \<Rightarrow>
       if p = [] then is_symlink
       else if stat_cache_lstat fs p = 0 then 1
       else symlink_loop fs p is_symlink)"
  by pat_completeness auto
termination
  by (relation "measure (\<lambda>(fs, dname, is_symlink). length dname)") (auto dest: cut_last_slash_length)

declare symlink_loop.simps [simp del]

definition check_symlink :: "file_system \<Rightarrow> int \<Rightarrow> string \<Rightarrow> int" where
  "check_symlink fs follow name =
     (if follow \<noteq> 0 then 0
      else if stat_cache_lstat fs name = 0 then 1
      else if length name + 1 > 2 then symlink_loop fs (c_str name) 0
      else 0)"

text \<open>\<open>strncasecmp(a, b, n) == 0\<close>\<close>

fun c_strncaseeq :: "nat \<Rightarrow> char list \<Rightarrow> char list \<Rightarrow> bool option" where
  "c_strncaseeq 0 _ _ = Some True"
| "c_strncaseeq (Suc n) (a # as) (b # bs) =
     (if lower_char a \<noteq> lower_char b then Some False else if a = NUL then Some True else c_strncaseeq n as bs)"
| "c_strncaseeq (Suc n) _ _ = None"

text \<open>The loop over \<open>con->conf.mimetypes\<close>; an element that is not a string would be a fault.\<close>

fun mime_loop :: "data_unset option list \<Rightarrow> string \<Rightarrow> bstr \<Rightarrow> bstr option" where
  "mime_loop [] name ct = Some ct"
| "mime_loop (None # ds) name ct = None"
| "mime_loop (Some d # ds) name ct = (case du_key d of
     None \<Rightarrow> mime_loop ds name ct
   | Some type \<Rightarrow>
       if length type > length name then mime_loop ds name ct
       else do {
         eq \<leftarrow> c_strncaseeq (length type) (drop (length name - length type) (name @ [NUL])) (type @ [NUL]);
         (if eq then (case du_val d of DString v \<Rightarrow> Some v | _ \<Rightarrow> None)
          else mime_loop ds name ct)
       })"

definition mime_type :: "array \<Rightarrow> string \<Rightarrow> bstr option" where
  "mime_type a name = (if a_used a \<le> length (a_data a) then mime_loop (take (a_used a) (a_data a)) name None else None)"

text \<open>The entry filled from the answers of the file system.\<close>

definition fill_entry :: "file_system \<Rightarrow> stat_conf \<Rightarrow> string \<Rightarrow> file_stat \<Rightarrow> stat_cache_entry \<Rightarrow> stat_cache_entry option" where
  "fill_entry fs conf name st sce =
     (let e = sce\<lparr>sce_st := st, sce_stat_ts := cur_ts conf, sce_is_symlink := check_symlink fs (follow_symlink conf) name\<rparr> in
      if S_ISREG (st_mode st) then do {
        ct \<leftarrow> mime_type (mimetypes conf) name;
        Some (e\<lparr>sce_content_type := ct, sce_etag := etag_create (sce_etag e) st (etag_flags conf)\<rparr>)
      }
      else if S_ISDIR (st_mode st) then Some (e\<lparr>sce_etag := etag_create (sce_etag e) st (etag_flags conf)\<rparr>)
      else Some e)"

definition bs_equal :: "bstr \<Rightarrow> bstr \<Rightarrow> bool" where
  "bs_equal a b = (case (a, b) of
     (None, None) \<Rightarrow> True
   | (Some s, Some t) \<Rightarrow> length s = length t \<and> c_str s = c_str t
   | _ \<Rightarrow> False)"

fun set_root :: "'v splay_tree \<Rightarrow> 'v \<Rightarrow> 'v splay_tree" where
  "set_root Null e = Null"
| "set_root (Node l k d s r) e = Node l k e s r"

text \<open>The part after the cache has been consulted: \<open>sce\<close> is the entry found under the hash, which may have another
  name. The entry is written through its pointer, which is the data of the root.\<close>

definition refresh_entry ::
  "file_system \<Rightarrow> stat_conf \<Rightarrow> stat_cache \<Rightarrow> string \<Rightarrow> int \<Rightarrow> stat_cache_entry option \<Rightarrow>
   (handler_t \<times> stat_cache_entry option \<times> stat_cache) option" where
  "refresh_entry fs conf sc name ndx sce = (case fs_stat fs (c_str name) of
     None \<Rightarrow> Some (HANDLER_ERROR, None, sc)
   | Some st \<Rightarrow>
       if S_ISREG (st_mode st) \<and> \<not> fs_open fs (c_str name) then Some (HANDLER_ERROR, None, sc)
       else (case sce of
         None \<Rightarrow> do {
           e \<leftarrow> fill_entry fs conf name st (stat_cache_entry_init\<lparr>sce_name := Some name\<rparr>);
           Some (HANDLER_GO_ON, Some e, sc\<lparr>sc_files := splaytree_insert (sc_files sc) ndx e\<rparr>)
         }
       | Some e0 \<Rightarrow> do {
           e \<leftarrow> fill_entry fs conf name st e0;
           Some (HANDLER_GO_ON, Some e, sc\<lparr>sc_files := set_root (sc_files sc) e\<rparr>)
         }))"

text \<open>A name without contents is a fault: what its pointer holds is not determined.\<close>

definition stat_cache_get_entry ::
  "file_system \<Rightarrow> stat_conf \<Rightarrow> stat_cache \<Rightarrow> bstr \<Rightarrow> (handler_t \<times> stat_cache_entry option \<times> stat_cache) option" where
  "stat_cache_get_entry fs conf sc bname = (case bname of
     None \<Rightarrow> None
   | Some name \<Rightarrow>
       (let hash_key = bs_append bname (dec_int (follow_symlink conf));
            file_ndx = sint (hashme (bs_str hash_key));
            files = splaytree_splay (sc_files sc) file_ndx;
            sc' = sc\<lparr>sc_hash_key := hash_key, sc_files := files\<rparr>
        in case files of
             Node l k sce s r \<Rightarrow>
               if k = file_ndx then
                 if bs_equal bname (sce_name sce) \<and> engine conf = STAT_CACHE_ENGINE_SIMPLE \<and> sce_stat_ts sce = cur_ts conf
                 then Some (HANDLER_GO_ON, Some sce, sc')
                 else refresh_entry fs conf sc' name file_ndx (Some sce)
               else refresh_entry fs conf sc' name file_ndx None
           | Null \<Rightarrow> refresh_entry fs conf sc' name file_ndx None))"

section \<open>Removing old entries\<close>

text \<open>The keys are written into a block of \<open>sizeof(size_t) * size\<close> bytes, that is of twice as many \<open>int\<close>s as there
  are entries.\<close>

fun stat_cache_tag_old_entries ::
  "int \<Rightarrow> stat_cache_entry splay_tree \<Rightarrow> int list \<times> nat \<Rightarrow> (int list \<times> nat) option" where
  "stat_cache_tag_old_entries now Null st = Some st"
| "stat_cache_tag_old_entries now (Node l k sce s r) st = do {
     st1 \<leftarrow> stat_cache_tag_old_entries now l st;
     (keys, ndx) \<leftarrow> stat_cache_tag_old_entries now r st1;
     (if now - sce_stat_ts sce > 2 then do { keys' \<leftarrow> mem_set keys ndx k; Some (keys', ndx + 1) }
      else Some (keys, ndx))
   }"

fun cleanup_loop :: "int list \<Rightarrow> 'v splay_tree \<Rightarrow> 'v splay_tree" where
  "cleanup_loop [] t = t"
| "cleanup_loop (ndx # keys) t =
     (let files = splaytree_splay t ndx in
      cleanup_loop keys
        (case files of
           Null \<Rightarrow> files
         | Node l k d s r \<Rightarrow> if k = ndx then splaytree_delete files ndx else files))"

definition stat_cache_trigger_cleanup :: "int \<Rightarrow> stat_cache \<Rightarrow> stat_cache option" where
  "stat_cache_trigger_cleanup now sc =
     (if sc_files sc = Null then Some sc
      else do {
        (keys, max_ndx) \<leftarrow> stat_cache_tag_old_entries now (sc_files sc) (replicate (2 * nat (splaytree_size (sc_files sc))) 0, 0);
        ks \<leftarrow> mem_read keys max_ndx;
        Some (sc\<lparr>sc_files := cleanup_loop ks (sc_files sc)\<rparr>)
      })"

section \<open>Keys\<close>

definition file_key :: "int \<Rightarrow> string \<Rightarrow> int" where
  "file_key follow name = sint (hashme (name @ dec_int follow))"

lemma clear_top_bit:
  fixes x :: "32 word"
  assumes "Suc k = 32"
  shows "take_bit k (x AND NOT (push_bit k 1)) = x AND NOT (push_bit k 1)"
proof (rule bit_word_eqI)
  fix n
  assume "n < LENGTH(32)"
  with assms consider "n < k" | "n = k" by fastforce
  then show "bit (take_bit k (x AND NOT (push_bit k 1))) n \<longleftrightarrow> bit (x AND NOT (push_bit k 1)) n"
    by cases (simp_all add: bit_simps)
qed

lemma hashme_range: "key_range (sint (hashme s))"
proof -
  have clear: "take_bit 31 (hashme s) = hashme s"
    unfolding hashme_def by (rule clear_top_bit) simp
  have u: "uint (hashme s) < 2 ^ 31"
  proof -
    have "uint (hashme s) = take_bit 31 (uint (hashme s))"
      using clear by (metis unsigned_take_bit_eq)
    then show ?thesis by (metis take_bit_int_less_exp)
  qed
  have "- (2 ^ 31) \<le> uint (hashme s)" by (rule order_trans [of _ 0]) simp_all
  with u have "sint (hashme s) = uint (hashme s)"
    by (simp add: sint_uint signed_take_bit_int_eq_self)
  with u show ?thesis by (simp add: key_range_def)
qed

lemma file_key_range: "key_range (file_key f n)"
  by (simp add: file_key_def hashme_range)

lemma dec_int_hash_key: "bs_str (bs_append (Some name) (dec_int f)) = name @ dec_int f"
  by simp

lemma bs_equal_names: "NUL \<notin> set s \<Longrightarrow> NUL \<notin> set t \<Longrightarrow> bs_equal (Some s) (Some t) \<longleftrightarrow> s = t"
  by (auto simp: bs_equal_def c_str_no_NUL)

lemma buffer_is_equal_meaning:
  assumes "buffer_ok a" "buffer_ok b"
  shows "buffer_is_equal a b = Some (bs_equal (buf_abs a) (buf_abs b))"
proof -
  have len: "b_used x = (case buf_abs x of None \<Rightarrow> 0 | Some s \<Rightarrow> length s + 1)" if x: "buffer_ok x" for x
  proof (cases "b_used x = 0")
    case True
    then show ?thesis by (simp add: buf_abs_def)
  next
    case False
    then obtain s r where "b_used x = length s + 1" "buf_abs x = Some s" by (metis buffer_okE [OF x] gr0I)
    then show ?thesis by simp
  qed
  show ?thesis unfolding buffer_is_equal_spec [OF assms] len [OF assms(1)] len [OF assms(2)]
    by (auto simp: bs_equal_def split: option.splits)
qed

section \<open>Symbolic links along the path\<close>

lemma cut_last_slash_None: "cut_last_slash s = None \<longleftrightarrow> CHR ''/'' \<notin> set s"
  by (induction s) (auto split: option.splits)

lemma cut_last_slash_Some: "cut_last_slash s = Some p \<longleftrightarrow> (\<exists>q. s = p @ CHR ''/'' # q \<and> CHR ''/'' \<notin> set q)"
proof (induction s arbitrary: p)
  case (Cons c s)
  show ?case
  proof (cases "cut_last_slash s")
    case None
    then have "CHR ''/'' \<notin> set s" by (simp add: cut_last_slash_None)
    with None show ?thesis by (cases p) (auto simp: Cons_eq_append_conv)
  next
    case (Some p')
    then have slash: "CHR ''/'' \<in> set s" by (metis cut_last_slash_None option.distinct(1))
    show ?thesis
    proof (cases p)
      case Nil
      then show ?thesis using slash Some by (auto simp: Cons_eq_append_conv)
    next
      case (Cons c' p'')
      have "cut_last_slash (c # s) = Some p \<longleftrightarrow> c = c' \<and> cut_last_slash s = Some p''" using Some Cons by auto
      then show ?thesis unfolding Cons.IH using Cons by auto
    qed
  qed
qed simp

text \<open>The directories of a path are what stands in front of one of its slashes.\<close>

definition dir_of :: "string \<Rightarrow> string \<Rightarrow> bool" where
  "dir_of p path = (\<exists>q. path = p @ CHR ''/'' # q)"

lemma dir_of_cut: "cut_last_slash s = Some p \<Longrightarrow> dir_of d s \<longleftrightarrow> d = p \<or> dir_of d p"
proof -
  assume "cut_last_slash s = Some p"
  then obtain q where q: "s = p @ CHR ''/'' # q" "CHR ''/'' \<notin> set q" by (auto simp: cut_last_slash_Some)
  have "d = p \<or> dir_of d p" if "dir_of d s"
  proof -
    from that obtain q' where "p @ CHR ''/'' # q = d @ CHR ''/'' # q'" using q by (auto simp: dir_of_def)
    then obtain us where "p = d @ us \<and> us @ CHR ''/'' # q = CHR ''/'' # q' \<or> p @ us = d \<and> CHR ''/'' # q = us @ CHR ''/'' # q'"
      by (auto simp: append_eq_append_conv2)
    then show ?thesis using q(2) by (cases us) (auto simp: dir_of_def)
  qed
  moreover have "dir_of p s" using q by (auto simp: dir_of_def)
  moreover have "dir_of d p \<Longrightarrow> dir_of d s" using q by (auto simp: dir_of_def)
  ultimately show ?thesis by blast
qed

definition is_link :: "file_system \<Rightarrow> string \<Rightarrow> bool" where
  "is_link fs p = (\<exists>lst. fs_lstat fs p = Some lst \<and> S_ISLNK (st_mode lst))"

lemma stat_cache_lstat_0: "NUL \<notin> set p \<Longrightarrow> stat_cache_lstat fs p = 0 \<longleftrightarrow> is_link fs p"
  by (auto simp: stat_cache_lstat_def is_link_def c_str_no_NUL split: option.splits)

lemma symlink_loop_spec:
  assumes "NUL \<notin> set d"
  shows "symlink_loop fs d x = (if \<exists>p. dir_of p d \<and> p \<noteq> [] \<and> is_link fs p then 1 else x)"
  using assms
proof (induction fs d x rule: symlink_loop.induct)
  case (1 fs d x)
  show ?case
  proof (cases "cut_last_slash d")
    case None
    then have "\<not> dir_of p d" for p by (auto simp: cut_last_slash_None dir_of_def)
    with None show ?thesis by (simp add: symlink_loop.simps [of fs d])
  next
    case (Some p)
    have nul: "NUL \<notin> set p" using Some 1(2) by (auto simp: cut_last_slash_Some)
    note dirs = dir_of_cut [OF Some]
    consider "p = []" | "p \<noteq> []" "is_link fs p" | "p \<noteq> []" "\<not> is_link fs p" by blast
    then show ?thesis
    proof cases
      case 1
      then have "\<not> (dir_of p' d \<and> p' \<noteq> [])" for p' using dirs [of p'] by (auto simp: dir_of_def)
      with 1 Some show ?thesis by (auto simp: symlink_loop.simps [of fs d])
    next
      case 2
      then show ?thesis using Some dirs [of p] nul by (auto simp: symlink_loop.simps [of fs d] stat_cache_lstat_0)
    next
      case 3
      then have "symlink_loop fs d x = symlink_loop fs p x" using Some nul by (simp add: symlink_loop.simps [of fs d] stat_cache_lstat_0)
      moreover have "(\<exists>p'. dir_of p' d \<and> p' \<noteq> [] \<and> is_link fs p') \<longleftrightarrow> (\<exists>p'. dir_of p' p \<and> p' \<noteq> [] \<and> is_link fs p')"
        unfolding dirs using 3 by auto
      ultimately show ?thesis using 1(1) [OF Some 3(1) _ nul] 3(2) nul by (simp add: stat_cache_lstat_0)
    qed
  qed
qed

lemma check_symlink_spec:
  assumes "NUL \<notin> set name"
  shows "check_symlink fs follow name =
    (if follow = 0 \<and> (is_link fs name \<or> (\<exists>p. dir_of p name \<and> p \<noteq> [] \<and> is_link fs p)) then 1 else 0)"
proof -
  define above where "above \<longleftrightarrow> (\<exists>p. dir_of p name \<and> p \<noteq> [] \<and> is_link fs p)"
  have loop: "symlink_loop fs (c_str name) 0 = (if above then 1 else 0)"
    using assms by (simp add: c_str_no_NUL symlink_loop_spec above_def)
  have "dir_of p name \<Longrightarrow> p = []" if "length name \<le> 1" for p using that by (auto simp: dir_of_def)
  then have "length name \<le> 1 \<Longrightarrow> \<not> above" unfolding above_def by blast
  then show ?thesis unfolding above_def [symmetric] check_symlink_def loop stat_cache_lstat_0 [OF assms] by auto
qed

section \<open>The cache as a map\<close>

text \<open>What a lookup does when the cache is a map from keys to entries.\<close>

definition refresh_abs ::
  "file_system \<Rightarrow> stat_conf \<Rightarrow> (int \<rightharpoonup> stat_cache_entry) \<Rightarrow> string \<Rightarrow> int \<Rightarrow> (handler_t \<times> stat_cache_entry option \<times> (int \<rightharpoonup> stat_cache_entry)) option" where
  "refresh_abs fs conf m name ndx = (case fs_stat fs (c_str name) of
     None \<Rightarrow> Some (HANDLER_ERROR, None, m)
   | Some st \<Rightarrow>
       if S_ISREG (st_mode st) \<and> \<not> fs_open fs (c_str name) then Some (HANDLER_ERROR, None, m)
       else map_option (\<lambda>e. (HANDLER_GO_ON, Some e, m(ndx \<mapsto> e)))
         (fill_entry fs conf name st (case m ndx of None \<Rightarrow> stat_cache_entry_init\<lparr>sce_name := Some name\<rparr> | Some e \<Rightarrow> e)))"

definition hit :: "stat_conf \<Rightarrow> string \<Rightarrow> stat_cache_entry \<Rightarrow> bool" where
  "hit conf name e = (bs_equal (Some name) (sce_name e) \<and> engine conf = STAT_CACHE_ENGINE_SIMPLE \<and> sce_stat_ts e = cur_ts conf)"

definition get_entry_abs ::
  "file_system \<Rightarrow> stat_conf \<Rightarrow> (int \<rightharpoonup> stat_cache_entry) \<Rightarrow> string \<Rightarrow> (handler_t \<times> stat_cache_entry option \<times> (int \<rightharpoonup> stat_cache_entry)) option" where
  "get_entry_abs fs conf m name =
     (let ndx = file_key (follow_symlink conf) name in
      case m ndx of
        Some e \<Rightarrow> if hit conf name e then Some (HANDLER_GO_ON, Some e, m) else refresh_abs fs conf m name ndx
      | None \<Rightarrow> refresh_abs fs conf m name ndx)"

definition cache_map :: "stat_cache \<Rightarrow> int \<rightharpoonup> stat_cache_entry" where
  "cache_map sc = lookup (sc_files sc)"

definition cache_tree_ok :: "stat_cache \<Rightarrow> bool" where
  "cache_tree_ok sc = tree_ok (sc_files sc)"

lemma set_root_ok:
  assumes "tree_ok (Node l k d s r)"
  shows "tree_ok (set_root (Node l k d s r) e)" "lookup (set_root (Node l k d s r) e) = (lookup (Node l k d s r))(k \<mapsto> e)"
proof -
  have b: "bst (Node l k d s r)" "size_ok (Node l k d s r)" using assms unfolding tree_ok_def by blast+
  then show "tree_ok (set_root (Node l k d s r) e)" by (simp add: tree_ok_def bst_Node)
  have "map_of (inorder l) k = None" "map_of (inorder r) k = None" using b by (auto simp: bst_Node intro!: map_of_small)
  then show "lookup (set_root (Node l k d s r) e) = (lookup (Node l k d s r))(k \<mapsto> e)"
    by (auto simp: lookup_def map_add_def fun_eq_iff split: option.splits)
qed

lemma refresh_entry_refines:
  assumes "cache_tree_ok sc" "key_range ndx" "cache_map sc ndx = sce"
    "\<And>e. sce = Some e \<Longrightarrow> \<exists>l s r. sc_files sc = Node l ndx e s r"
  shows "map_option (\<lambda>(h, r, sc'). (h, r, cache_map sc')) (refresh_entry fs conf sc name ndx sce) = refresh_abs fs conf (cache_map sc) name ndx"
    "refresh_entry fs conf sc name ndx sce = Some (h, r, sc') \<Longrightarrow> cache_tree_ok sc'"
proof -
  have ins: "lookup (splaytree_insert (sc_files sc) ndx e) = (lookup (sc_files sc))(ndx \<mapsto> e)"
    "tree_ok (splaytree_insert (sc_files sc) ndx e)" if "sce = None" for e
    using st.ins_inv [of "sc_files sc" ndx e] st.ins_look [of "sc_files sc" ndx e] assms(1-3) that by (simp_all add: cache_tree_ok_def cache_map_def)
  have upd: "lookup (set_root (sc_files sc) e) = (lookup (sc_files sc))(ndx \<mapsto> e)" "tree_ok (set_root (sc_files sc) e)" if "sce = Some e0" for e e0
    using assms(4) [OF that] assms(1) set_root_ok [of _ ndx e0 _ _ e] by (auto simp: cache_tree_ok_def)
  show "map_option (\<lambda>(h, r, sc'). (h, r, cache_map sc')) (refresh_entry fs conf sc name ndx sce) = refresh_abs fs conf (cache_map sc) name ndx"
  proof (cases sce)
    case None
    then show ?thesis using assms(3) ins
      by (auto simp: refresh_entry_def refresh_abs_def cache_map_def split: option.splits bind_splits)
  next
    case (Some e)
    then show ?thesis using assms(3) upd
      by (auto simp: refresh_entry_def refresh_abs_def cache_map_def split: option.splits bind_splits)
  qed
  show "refresh_entry fs conf sc name ndx sce = Some (h, r, sc') \<Longrightarrow> cache_tree_ok sc'"
    using assms(1) ins upd by (auto simp: refresh_entry_def cache_tree_ok_def split: option.splits if_splits)
qed

lemma get_entry_cases:
  assumes "cache_tree_ok sc"
  obtains sc1 where "cache_tree_ok sc1" "cache_map sc1 = cache_map sc"
    "stat_cache_get_entry fs conf sc (Some name) =
      (let ndx = file_key (follow_symlink conf) name in
       case cache_map sc1 ndx of
         Some e \<Rightarrow> if hit conf name e then Some (HANDLER_GO_ON, Some e, sc1) else refresh_entry fs conf sc1 name ndx (Some e)
       | None \<Rightarrow> refresh_entry fs conf sc1 name ndx None)"
    "\<forall>e. cache_map sc1 (file_key (follow_symlink conf) name) = Some e \<longrightarrow>
       (\<exists>l s r. sc_files sc1 = Node l (file_key (follow_symlink conf) name) e s r)"
proof -
  let ?k = "file_key (follow_symlink conf) name"
  let ?t = "splaytree_splay (sc_files sc) ?k"
  let ?sc = "sc\<lparr>sc_hash_key := bs_append (Some name) (dec_int (follow_symlink conf)), sc_files := ?t\<rparr>"
  have ok: "tree_ok (sc_files sc)" using assms by (simp add: cache_tree_ok_def)
  have 1: "cache_tree_ok ?sc" "cache_map ?sc = cache_map sc"
    using splay_tree_ok [OF ok] splay_lookup [OF ok] by (simp_all add: cache_tree_ok_def cache_map_def)
  have key: "sint (hashme (bs_str (bs_append (Some name) (dec_int (follow_symlink conf))))) = ?k" by (simp add: file_key_def)
  have root: "cache_map sc ?k = (case ?t of Null \<Rightarrow> None | Node l k d s r \<Rightarrow> if k = ?k then Some d else None)"
  proof (cases ?t)
    case Null
    then show ?thesis using splay_lookup [OF ok, of ?k] by (simp add: cache_map_def lookup_def)
  next
    case (Node l k d s r)
    then show ?thesis using splay_lookup_root [OF ok file_key_range Node] by (simp add: cache_map_def)
  qed
  have "stat_cache_get_entry fs conf sc (Some name) =
      (let ndx = ?k in
       case cache_map ?sc ndx of
         Some e \<Rightarrow> if hit conf name e then Some (HANDLER_GO_ON, Some e, ?sc) else refresh_entry fs conf ?sc name ndx (Some e)
       | None \<Rightarrow> refresh_entry fs conf ?sc name ndx None)"
    unfolding stat_cache_get_entry_def option.case key Let_def 1(2) root
    by (cases ?t) (simp_all add: hit_def)
  moreover have "\<exists>l s r. sc_files ?sc = Node l ?k e s r" if "cache_map ?sc ?k = Some e" for e
    using that unfolding 1(2) root by (cases ?t) (auto split: if_splits)
  ultimately show thesis using that [of ?sc] 1 by blast
qed

lemma get_entry_refines:
  assumes "cache_tree_ok sc"
  shows "map_option (\<lambda>(h, r, sc'). (h, r, cache_map sc')) (stat_cache_get_entry fs conf sc (Some name)) = get_entry_abs fs conf (cache_map sc) name"
    "stat_cache_get_entry fs conf sc (Some name) = Some (h, r, sc') \<Longrightarrow> cache_tree_ok sc'"
proof -
  obtain sc1 where sc1: "cache_tree_ok sc1" "cache_map sc1 = cache_map sc"
    "stat_cache_get_entry fs conf sc (Some name) =
      (let ndx = file_key (follow_symlink conf) name in
       case cache_map sc1 ndx of
         Some e \<Rightarrow> if hit conf name e then Some (HANDLER_GO_ON, Some e, sc1) else refresh_entry fs conf sc1 name ndx (Some e)
       | None \<Rightarrow> refresh_entry fs conf sc1 name ndx None)"
    and root: "\<forall>e. cache_map sc1 (file_key (follow_symlink conf) name) = Some e \<longrightarrow>
       (\<exists>l s r. sc_files sc1 = Node l (file_key (follow_symlink conf) name) e s r)"
    by (rule get_entry_cases [OF assms, where fs = fs and conf = conf and name = name])
  note ref = refresh_entry_refines [OF sc1(1) file_key_range refl root [rule_format]]
  show "map_option (\<lambda>(h, r, sc'). (h, r, cache_map sc')) (stat_cache_get_entry fs conf sc (Some name)) = get_entry_abs fs conf (cache_map sc) name"
    using ref(1) [of fs conf name] sc1(2) unfolding sc1(3) get_entry_abs_def Let_def
    by (cases "cache_map sc1 (file_key (follow_symlink conf) name)") auto
  show "stat_cache_get_entry fs conf sc (Some name) = Some (h, r, sc') \<Longrightarrow> cache_tree_ok sc'"
    using ref(2) [of fs conf name h r sc'] sc1(1) unfolding sc1(3) Let_def
    by (cases "cache_map sc1 (file_key (follow_symlink conf) name)") (auto split: if_splits)
qed

end
