(* ===== verification/StatCacheProps.thy ===== *)
theory StatCacheProps
  imports StatCache
begin

text \<open>
  What the stat cache guarantees: the reachable caches satisfy the invariant of their tree and can be released, a cleanup
  removes the entries that are older than two seconds and no others, lookups within one second answer what the file
  system answers as long as no two file names have the same hash, and what happens when they have.
\<close>

section \<open>Cleaning up\<close>

definition old_entry :: "int \<Rightarrow> stat_cache_entry \<Rightarrow> bool" where
  "old_entry now e = (now - sce_stat_ts e > 2)"

fun old_keys :: "int \<Rightarrow> stat_cache_entry splay_tree \<Rightarrow> int list" where
  "old_keys now Null = []"
| "old_keys now (Node l k e s r) = old_keys now l @ old_keys now r @ (if old_entry now e then [k] else [])"

lemma set_old_keys: "k \<in> set (old_keys now t) \<longleftrightarrow> (\<exists>e. (k, e) \<in> set (inorder t) \<and> old_entry now e)"
  by (induction t) auto

lemma length_old_keys: "length (old_keys now t) \<le> length (inorder t)"
  by (induction t) auto

lemma tag_old_entries_ok:
  "ndx + length (old_keys now t) \<le> length keys \<Longrightarrow>
   \<exists>keys'. stat_cache_tag_old_entries now t (keys, ndx) = Some (keys', ndx + length (old_keys now t)) \<and>
     length keys' = length keys \<and> take (ndx + length (old_keys now t)) keys' = take ndx keys @ old_keys now t"
proof (induction t arbitrary: keys ndx)
  case Null
  then show ?case by simp
next
  case (Node l k e s r)
  let ?nl = "length (old_keys now l)" and ?nr = "length (old_keys now r)"
  obtain keys1 where 1: "stat_cache_tag_old_entries now l (keys, ndx) = Some (keys1, ndx + ?nl)" "length keys1 = length keys"
    "take (ndx + ?nl) keys1 = take ndx keys @ old_keys now l" using Node.IH(1) [of ndx keys] Node.prems by auto
  obtain keys2 where 2: "stat_cache_tag_old_entries now r (keys1, ndx + ?nl) = Some (keys2, ndx + ?nl + ?nr)" "length keys2 = length keys1"
    "take (ndx + ?nl + ?nr) keys2 = take (ndx + ?nl) keys1 @ old_keys now r" using Node.IH(2) [of "ndx + ?nl" keys1] Node.prems 1(2) by auto
  show ?case
  proof (cases "old_entry now e")
    case True
    then have b: "ndx + ?nl + ?nr < length keys2" using Node.prems 1(2) 2(2) by simp
    with True 1 2 show ?thesis by (auto simp: old_entry_def mem_simps take_Suc_snoc add.assoc)
  next
    case False
    with 1 2 show ?thesis by (auto simp: old_entry_def add.assoc)
  qed
qed

lemma cleanup_loop_ok:
  "tree_ok t \<Longrightarrow> list_all key_range ks \<Longrightarrow>
   tree_ok (cleanup_loop ks t) \<and> lookup (cleanup_loop ks t) = (lookup t) |` (- set ks)"
proof (induction ks t rule: cleanup_loop.induct)
  case (2 i ks t)
  let ?f = "splaytree_splay t i"
  let ?t = "case ?f of Null \<Rightarrow> ?f | Node l k d s r \<Rightarrow> if k = i then splaytree_delete ?f i else ?f"
  have i: "key_range i" and ks: "list_all key_range ks" using 2(3) by simp_all
  have f: "tree_ok ?f" "lookup ?f = lookup t" using splay_tree_ok [OF 2(2)] splay_lookup [OF 2(2)] by simp_all
  have "tree_ok ?t \<and> lookup ?t = (lookup t)(i := None)"
  proof (cases ?f)
    case Null
    then have "lookup t = Map.empty" using f(2) by (simp add: lookup_def)
    with Null f show ?thesis by (auto simp: fun_eq_iff)
  next
    case (Node l k d s r)
    show ?thesis
    proof (cases "k = i")
      case True
      then have "?t = splaytree_delete ?f i" using Node by simp
      then show ?thesis using st.del_inv [OF f(1) i] st.del_look [OF f(1) i] f(2) by simp
    next
      case False
      then have "lookup t i = None" "?t = ?f" using splay_lookup_root [OF 2(2) i Node] Node by simp_all
      then show ?thesis using f by (auto simp: fun_eq_iff)
    qed
  qed
  moreover have "cleanup_loop (i # ks) t = cleanup_loop ks ?t" by (simp add: Let_def)
  ultimately have "tree_ok (cleanup_loop (i # ks) t) \<and> lookup (cleanup_loop (i # ks) t) = ((lookup t)(i := None)) |` (- set ks)"
    using 2(1) [OF refl _ ks] by metis
  moreover have "((lookup t)(i := None)) |` (- set ks) = (lookup t) |` (- set (i # ks))"
    by (auto simp: restrict_map_def fun_eq_iff)
  ultimately show ?case by simp
qed (simp add: restrict_map_def fun_eq_iff)

lemma tree_ok_lookup: "tree_ok t \<Longrightarrow> lookup t k = Some e \<longleftrightarrow> (k, e) \<in> set (inorder t)"
proof -
  assume "tree_ok t"
  then have "distinct (map fst (inorder t))" by (auto simp: tree_ok_def bst_def strict_sorted_iff)
  then show ?thesis by (simp add: lookup_def map_of_eq_Some_iff)
qed

lemma tree_ok_keys: "tree_ok t \<Longrightarrow> lookup t k = Some e \<Longrightarrow> key_range k"
  by (auto simp: tree_ok_lookup) (auto simp: tree_ok_def bst_def list_all_iff)

definition young :: "int \<Rightarrow> (int \<rightharpoonup> stat_cache_entry) \<Rightarrow> int \<rightharpoonup> stat_cache_entry" where
  "young now m k = (case m k of Some e \<Rightarrow> if old_entry now e then None else Some e | None \<Rightarrow> None)"

lemma cleanup_ok:
  assumes "cache_tree_ok sc"
  shows "\<exists>sc'. stat_cache_trigger_cleanup now sc = Some sc' \<and> cache_tree_ok sc' \<and> cache_map sc' = young now (cache_map sc)"
proof (cases "sc_files sc = Null")
  case True
  then show ?thesis using assms by (simp add: stat_cache_trigger_cleanup_def cache_map_def lookup_def young_def fun_eq_iff)
next
  case False
  let ?t = "sc_files sc"
  let ?ks = "old_keys now ?t"
  have ok: "tree_ok ?t" using assms by (simp add: cache_tree_ok_def)
  then have "splaytree_size ?t = int (length (inorder ?t))" by (simp add: tree_ok_def size_ok_size)
  then obtain keys' where "stat_cache_tag_old_entries now ?t (replicate (2 * nat (splaytree_size ?t)) 0, 0) = Some (keys', length ?ks)"
    "length ?ks \<le> length keys'" "take (length ?ks) keys' = ?ks"
    using tag_old_entries_ok [of 0 now ?t "replicate (2 * nat (splaytree_size ?t)) 0"] length_old_keys [of now ?t] by auto
  then have run: "stat_cache_trigger_cleanup now sc = Some (sc\<lparr>sc_files := cleanup_loop ?ks ?t\<rparr>)"
    using False by (simp add: stat_cache_trigger_cleanup_def mem_simps)
  have "list_all key_range ?ks"
    using tree_ok_keys [OF ok] by (auto simp: list_all_iff set_old_keys tree_ok_lookup [OF ok])
  note loop = cleanup_loop_ok [OF ok this]
  have "(lookup ?t |` (- set ?ks)) k = young now (lookup ?t) k" for k
    by (cases "lookup ?t k") (auto simp: restrict_map_def young_def set_old_keys tree_ok_lookup [OF ok, symmetric])
  with loop run show ?thesis by (auto simp: cache_tree_ok_def cache_map_def)
qed

section \<open>Releasing the cache\<close>

lemma delete_size:
  assumes "tree_ok t" "lookup t k = Some d"
  shows "splaytree_size (splaytree_delete t k) = splaytree_size t - 1" "tree_ok (splaytree_delete t k)"
proof -
  have k: "key_range k" by (rule tree_ok_keys [OF assms])
  note del = st.del_inv [OF assms(1) k] st.del_look [OF assms(1) k]
  have "finite (dom (lookup t))" by (simp add: lookup_def finite_dom_map_of)
  moreover have "k \<in> dom (lookup t)" using assms(2) by blast
  ultimately have "card (dom (lookup t)) = Suc (card (dom ((lookup t)(k := None))))"
    using card_Suc_Diff1 [of "dom (lookup t)" k] by simp
  then show "splaytree_size (splaytree_delete t k) = splaytree_size t - 1" "tree_ok (splaytree_delete t k)"
    using tree_ok_size [OF assms(1)] tree_ok_size [OF del(1)] del by simp_all
qed

lemma free_files_ok: "tree_ok t \<Longrightarrow> free_files t = Some Null"
proof (induction "nat (splaytree_size t)" arbitrary: t rule: less_induct)
  case less
  show ?case
  proof (cases t)
    case Null
    then show ?thesis by (simp add: free_files.simps)
  next
    case (Node l k d s r)
    have "bst t" using less.prems unfolding tree_ok_def by blast
    then have look: "lookup t k = Some d" unfolding Node by (simp add: lookup_Node bst_Node)
    note del = delete_size [OF less.prems look]
    have "splaytree_size t = int (length (inorder t))" using less.prems by (simp add: tree_ok_def size_ok_size)
    then have "0 < splaytree_size t" using Node by simp
    with del less.hyps [of "splaytree_delete t k"] have "free_files (splaytree_delete t k) = Some Null" by simp
    with del(1) Node show ?thesis by (subst free_files.simps) (simp add: splaytree_size_Node)
  qed
qed

section \<open>Reachable caches\<close>

text \<open>Every cache that lookups, with any file system, configuration and time, and cleanups lead to.\<close>

inductive reachable_cache :: "stat_cache \<Rightarrow> bool" where
  init: "reachable_cache stat_cache_init"
| get: "reachable_cache sc \<Longrightarrow> stat_cache_get_entry fs conf sc name = Some (h, r, sc') \<Longrightarrow> reachable_cache sc'"
| cleanup: "reachable_cache sc \<Longrightarrow> stat_cache_trigger_cleanup now sc = Some sc' \<Longrightarrow> reachable_cache sc'"

definition named :: "(int \<rightharpoonup> stat_cache_entry) \<Rightarrow> bool" where
  "named m = (\<forall>k e. m k = Some e \<longrightarrow> (\<exists>f n. sce_name e = Some n \<and> k = file_key f n))"

lemma fill_entry_name: "fill_entry fs conf name st e = Some e' \<Longrightarrow> sce_name e' = sce_name e"
  by (auto simp: fill_entry_def Let_def split: if_splits)

lemma refresh_abs_named:
  assumes "named m" "refresh_abs fs conf m name (file_key f name) = Some (h, r, m')"
  shows "named m'"
  using assms by (auto simp: refresh_abs_def named_def dest!: fill_entry_name split: option.splits if_splits)

lemma get_entry_abs_named:
  assumes "named m" "get_entry_abs fs conf m name = Some (h, r, m')"
  shows "named m'"
  using assms(2) refresh_abs_named [OF assms(1)] assms(1) by (auto simp: get_entry_abs_def Let_def split: option.splits if_splits)

lemma get_entry_SomeD:
  assumes "stat_cache_get_entry fs conf sc bname = Some (h, r, sc')" "cache_tree_ok sc"
  obtains name where "bname = Some name" "get_entry_abs fs conf (cache_map sc) name = Some (h, r, cache_map sc')" "cache_tree_ok sc'"
proof -
  obtain name where n: "bname = Some name" using assms(1) by (cases bname) (simp_all add: stat_cache_get_entry_def)
  show thesis using that [OF n] get_entry_refines [OF assms(2), of fs conf name] assms(1) n by force
qed

lemma reachable_cache_ok: "reachable_cache sc \<Longrightarrow> cache_tree_ok sc \<and> named (cache_map sc)"
proof (induction rule: reachable_cache.induct)
  case init
  then show ?case by (simp add: cache_tree_ok_def cache_map_def stat_cache_init_def tree_ok_Null lookup_def named_def)
next
  case (get sc fs conf name h r sc')
  then show ?case by (metis get_entry_SomeD get_entry_abs_named)
next
  case (cleanup sc now sc')
  moreover have "named m \<Longrightarrow> named (young now m)" for m
    by (auto simp: named_def young_def split: option.splits if_splits)
  ultimately show ?case using cleanup_ok [of sc now] by auto
qed

section \<open>One second\<close>

definition name_ok :: "string \<Rightarrow> bool" where
  "name_ok n = (NUL \<notin> set n)"

text \<open>What the file system says of a file that can be served, and when an entry agrees with it.\<close>

definition readable :: "file_system \<Rightarrow> string \<Rightarrow> file_stat option" where
  "readable fs n = (case fs_stat fs n of
     None \<Rightarrow> None
   | Some st \<Rightarrow> if S_ISREG (st_mode st) \<and> \<not> fs_open fs n then None else Some st)"

definition agrees :: "file_system \<Rightarrow> stat_conf \<Rightarrow> int \<Rightarrow> string \<Rightarrow> stat_cache_entry \<Rightarrow> bool" where
  "agrees fs conf f n e = (sce_name e = Some n \<and> readable fs n = Some (sce_st e) \<and>
     sce_is_symlink e = (if f = 0 \<and> (is_link fs n \<or> (\<exists>p. dir_of p n \<and> p \<noteq> [] \<and> is_link fs p)) then 1 else 0) \<and>
     (S_ISREG (st_mode (sce_st e)) \<longrightarrow> mime_type (mimetypes conf) n = Some (sce_content_type e)) \<and>
     (etag_flags conf \<noteq> 0 \<and> (S_ISREG (st_mode (sce_st e)) \<or> S_ISDIR (st_mode (sce_st e))) \<longrightarrow>
        sce_etag e = etag_create None (sce_st e) (etag_flags conf)))"

definition answer_ok :: "file_system \<Rightarrow> stat_conf \<Rightarrow> int \<times> string \<Rightarrow> handler_t \<times> stat_cache_entry option \<Rightarrow> bool" where
  "answer_ok fs conf q a = (case (q, a) of ((f, n), (h, r)) \<Rightarrow>
     (case readable fs n of
        None \<Rightarrow> h = HANDLER_ERROR \<and> r = None
      | Some st \<Rightarrow> h = HANDLER_GO_ON \<and> (case r of None \<Rightarrow> False | Some e \<Rightarrow> agrees fs conf f n e)))"

text \<open>Requests of connections that differ in whether they follow symbolic links.\<close>

fun lookups :: "file_system \<Rightarrow> stat_conf \<Rightarrow> stat_cache \<Rightarrow> (int \<times> string) list \<Rightarrow> ((handler_t \<times> stat_cache_entry option) list \<times> stat_cache) option" where
  "lookups fs conf sc [] = Some ([], sc)"
| "lookups fs conf sc ((f, n) # qs) = do {
     (h, r, sc1) \<leftarrow> stat_cache_get_entry fs (conf\<lparr>follow_symlink := f\<rparr>) sc (Some n);
     (as, sc2) \<leftarrow> lookups fs conf sc1 qs;
     Some ((h, r) # as, sc2)
   }"

text \<open>No two of the questions and the entries share a key.\<close>

definition no_collision :: "(int \<rightharpoonup> stat_cache_entry) \<Rightarrow> (int \<times> string) list \<Rightarrow> bool" where
  "no_collision m qs = ((\<forall>(f, n) \<in> set qs. \<forall>e. m (file_key f n) = Some e \<longrightarrow> sce_name e = Some n) \<and>
     (\<forall>(f, n) \<in> set qs. \<forall>(f', n') \<in> set qs. file_key f n = file_key f' n' \<longrightarrow> f = f' \<and> n = n'))"

definition this_second :: "file_system \<Rightarrow> stat_conf \<Rightarrow> (int \<rightharpoonup> stat_cache_entry) \<Rightarrow> (int \<times> string) list \<Rightarrow> bool" where
  "this_second fs conf m qs = (\<forall>(f, n) \<in> set qs. \<forall>e. m (file_key f n) = Some e \<longrightarrow> sce_stat_ts e = cur_ts conf \<longrightarrow> agrees fs conf f n e)"

definition mime_ok :: "array \<Rightarrow> bool" where
  "mime_ok a = (a_used a \<le> length (a_data a) \<and>
     list_all (\<lambda>d. \<exists>du v. d = Some du \<and> du_val du = DString v) (take (a_used a) (a_data a)))"

lemma c_strncaseeq_total: "n \<le> length a \<Longrightarrow> n \<le> length b \<Longrightarrow> c_strncaseeq n a b \<noteq> None"
  by (induction n a b rule: c_strncaseeq.induct) auto

lemma mime_loop_total:
  "list_all (\<lambda>d. \<exists>du v. d = Some du \<and> du_val du = DString v) ds \<Longrightarrow> mime_loop ds n ct \<noteq> None"
proof (induction ds n ct rule: mime_loop.induct)
  case (3 d ds n ct)
  show ?case
  proof (cases "du_key d")
    case (Some ty)
    show ?thesis
    proof (cases "length ty > length n")
      case False
      then have "c_strncaseeq (length ty) (drop (length n - length ty) (n @ [NUL])) (ty @ [NUL]) \<noteq> None"
        by (intro c_strncaseeq_total) auto
      then obtain y where y: "c_strncaseeq (length ty) (drop (length n - length ty) (n @ [NUL])) (ty @ [NUL]) = Some y" by blast
      obtain v where v: "du_val d = DString v" "list_all (\<lambda>d. \<exists>du v. d = Some du \<and> du_val du = DString v) ds" using 3(4) by auto
      show ?thesis
      proof (cases y)
        case True
        with y Some False v show ?thesis by simp
      next
        case F: False
        with y 3(3) [OF Some False] Some False v show ?thesis by simp
      qed
    qed (use 3 Some in auto)
  qed (use 3 in auto)
qed auto

lemma mime_type_total: "mime_ok a \<Longrightarrow> mime_type a n \<noteq> None"
  by (simp add: mime_ok_def mime_type_def mime_loop_total)

lemma etag_create_again: "flags \<noteq> 0 \<Longrightarrow> etag_create e st flags = etag_create None st flags"
  by (simp add: etag_create_def)

lemma fill_entry_agrees:
  assumes "name_ok n" "mime_ok (mimetypes conf)" "readable fs n = Some st" "sce_name e0 = Some n"
  obtains e where "fill_entry fs (conf\<lparr>follow_symlink := f\<rparr>) n st e0 = Some e" "agrees fs conf f n e"
proof -
  obtain ct where ct: "mime_type (mimetypes conf) n = Some ct" using mime_type_total [OF assms(2), of n] by auto
  have link: "check_symlink fs f n = (if f = 0 \<and> (is_link fs n \<or> (\<exists>p. dir_of p n \<and> p \<noteq> [] \<and> is_link fs p)) then 1 else 0)"
    using assms(1) by (simp add: check_symlink_spec name_ok_def)
  have "\<exists>e. fill_entry fs (conf\<lparr>follow_symlink := f\<rparr>) n st e0 = Some e \<and> sce_name e = Some n \<and> sce_st e = st \<and>
    sce_is_symlink e = check_symlink fs f n \<and> (S_ISREG (st_mode st) \<longrightarrow> sce_content_type e = ct) \<and>
    (S_ISREG (st_mode st) \<or> S_ISDIR (st_mode st) \<longrightarrow> sce_etag e = etag_create (sce_etag e0) st (etag_flags conf))"
    using ct assms(4) by (simp add: fill_entry_def Let_def)
  then obtain e where e: "fill_entry fs (conf\<lparr>follow_symlink := f\<rparr>) n st e0 = Some e" "sce_name e = Some n" "sce_st e = st"
    "sce_is_symlink e = check_symlink fs f n" "S_ISREG (st_mode st) \<longrightarrow> sce_content_type e = ct"
    "S_ISREG (st_mode st) \<or> S_ISDIR (st_mode st) \<longrightarrow> sce_etag e = etag_create (sce_etag e0) st (etag_flags conf)" by blast
  have "agrees fs conf f n e"
    unfolding agrees_def e(2-4) link using assms(3) ct e(5,6) etag_create_again [of "etag_flags conf" "sce_etag e0" st] by auto
  then show thesis using that [OF e(1)] by blast
qed

lemma lookup_one:
  assumes "name_ok n" "mime_ok (mimetypes conf)" "no_collision m ((f, n) # qs)" "this_second fs conf m ((f, n) # qs)"
  shows "\<exists>h r m'. get_entry_abs fs (conf\<lparr>follow_symlink := f\<rparr>) m n = Some (h, r, m') \<and> answer_ok fs conf (f, n) (h, r) \<and>
    no_collision m' qs \<and> this_second fs conf m' qs"
proof -
  let ?k = "file_key f n"
  have keep: "no_collision m qs" "this_second fs conf m qs" using assms(3,4) by (auto simp: no_collision_def this_second_def)
  have name: "sce_name e = Some n" if "m ?k = Some e" for e using assms(3) that by (auto simp: no_collision_def)
  have cs: "c_str n = n" using assms(1) by (simp add: name_ok_def c_str_no_NUL)
  show ?thesis
  proof (cases "\<exists>e. m ?k = Some e \<and> hit (conf\<lparr>follow_symlink := f\<rparr>) n e")
    case True
    then obtain e where e: "m ?k = Some e" "hit (conf\<lparr>follow_symlink := f\<rparr>) n e" by blast
    then have "agrees fs conf f n e" using assms(4) by (auto simp: this_second_def hit_def)
    then have "answer_ok fs conf (f, n) (HANDLER_GO_ON, Some e)" by (simp add: answer_ok_def agrees_def)
    then show ?thesis using e keep by (simp add: get_entry_abs_def)
  next
    case False
    then have get: "get_entry_abs fs (conf\<lparr>follow_symlink := f\<rparr>) m n = refresh_abs fs (conf\<lparr>follow_symlink := f\<rparr>) m n ?k"
      by (auto simp: get_entry_abs_def Let_def split: option.splits)
    show ?thesis
    proof (cases "readable fs n")
      case None
      then have "refresh_abs fs (conf\<lparr>follow_symlink := f\<rparr>) m n ?k = Some (HANDLER_ERROR, None, m)"
        by (auto simp: refresh_abs_def readable_def cs split: option.splits if_splits)
      with None get keep show ?thesis by (simp add: answer_ok_def)
    next
      case (Some st)
      let ?e0 = "case m ?k of None \<Rightarrow> stat_cache_entry_init\<lparr>sce_name := Some n\<rparr> | Some e \<Rightarrow> e"
      have "sce_name ?e0 = Some n" using name by (auto split: option.splits)
      from fill_entry_agrees [OF assms(1,2) Some this] obtain e
        where e: "fill_entry fs (conf\<lparr>follow_symlink := f\<rparr>) n st ?e0 = Some e" "agrees fs conf f n e" .
      have "refresh_abs fs (conf\<lparr>follow_symlink := f\<rparr>) m n ?k = Some (HANDLER_GO_ON, Some e, m(?k \<mapsto> e))"
        using Some e(1) by (auto simp: refresh_abs_def readable_def cs split: option.splits if_splits)
      moreover have "no_collision (m(?k \<mapsto> e)) qs \<and> this_second fs conf (m(?k \<mapsto> e)) qs"
      proof -
        have "f' = f \<and> n' = n" if "(f', n') \<in> set qs" "file_key f' n' = ?k" for f' n'
          using assms(3) that by (auto simp: no_collision_def)
        moreover have "sce_name e = Some n" using e(2) by (simp add: agrees_def)
        ultimately show ?thesis using keep e(2) unfolding no_collision_def this_second_def by auto
      qed
      moreover have "answer_ok fs conf (f, n) (HANDLER_GO_ON, Some e)" using Some e(2) by (simp add: answer_ok_def)
      ultimately show ?thesis using get by simp
    qed
  qed
qed

lemma lookups_ok:
  "cache_tree_ok sc \<Longrightarrow> list_all (\<lambda>(f, n). name_ok n) qs \<Longrightarrow> mime_ok (mimetypes conf) \<Longrightarrow>
   no_collision (cache_map sc) qs \<Longrightarrow> this_second fs conf (cache_map sc) qs \<Longrightarrow>
   \<exists>as sc'. lookups fs conf sc qs = Some (as, sc') \<and> list_all2 (answer_ok fs conf) qs as"
proof (induction qs arbitrary: sc)
  case (Cons q qs)
  obtain f n where q: "q = (f, n)" by (cases q)
  obtain h r m' where one: "get_entry_abs fs (conf\<lparr>follow_symlink := f\<rparr>) (cache_map sc) n = Some (h, r, m')"
    "answer_ok fs conf (f, n) (h, r)" "no_collision m' qs" "this_second fs conf m' qs"
    using lookup_one [of n conf "cache_map sc" f qs fs] Cons.prems q by auto
  with get_entry_refines [OF Cons.prems(1), of fs "conf\<lparr>follow_symlink := f\<rparr>" n] obtain sc1
    where sc1: "stat_cache_get_entry fs (conf\<lparr>follow_symlink := f\<rparr>) sc (Some n) = Some (h, r, sc1)" "m' = cache_map sc1" "cache_tree_ok sc1"
    by auto
  with Cons.IH [OF sc1(3)] Cons.prems one show ?case by (auto simp: q)
qed simp

text \<open>A lookup never fails to return when the table of content types is well formed.\<close>

lemma get_entry_total:
  assumes "cache_tree_ok sc" "mime_ok (mimetypes conf)"
  obtains h r sc1 where "stat_cache_get_entry fs conf sc (Some name) = Some (h, r, sc1)" "cache_tree_ok sc1"
    "h = HANDLER_ERROR \<and> r = None \<or> h = HANDLER_GO_ON \<and> (\<exists>e. r = Some e)"
proof -
  have fill: "\<exists>e'. fill_entry fs conf name st e = Some e'" for st e
    using mime_type_total [OF assms(2), of name] by (auto simp: fill_entry_def Let_def)
  have "\<exists>h r m. get_entry_abs fs conf (cache_map sc) name = Some (h, r, m) \<and>
      (h = HANDLER_ERROR \<and> r = None \<or> h = HANDLER_GO_ON \<and> (\<exists>e. r = Some e))"
    using fill by (fastforce simp: get_entry_abs_def refresh_abs_def Let_def split: option.splits)
  with get_entry_refines [OF assms(1), of fs conf name] that show thesis by fastforce
qed

section \<open>Properties\<close>

text \<open>A small site for the concrete runs: two files and a directory, and one content type.\<close>

definition reg :: "int \<Rightarrow> file_stat" where
  "reg n = \<lparr>st_mode = 33188, st_ino = 7, st_size = n, st_mtime = 99\<rparr>"

definition site :: file_system where
  "site = \<lparr>fs_stat = map_of [(''/az'', reg 10), (''/bY'', reg 20)], fs_lstat = map_of [(''/az'', reg 10), (''/bY'', reg 20)],
     fs_open = (\<lambda>n. True)\<rparr>"

definition site_conf :: stat_conf where
  "site_conf = \<lparr>cur_ts = 1000, engine = STAT_CACHE_ENGINE_SIMPLE, follow_symlink = 1,
     mimetypes = array_init\<lparr>a_data := [Some (string_elem ''z'' ''text/z'')], a_used := 1\<rparr>, etag_flags = 7\<rparr>"

text \<open>C23. Every cache that lookups and cleanups lead to, whatever the file system, the configuration and the clock are and
  whatever names collide, is a map from hash keys to entries: a lookup on it returns and leaves what the lookup on the
  map does (the entry under the key of the name, refreshed unless it was made for this name in this second), a cleanup
  never writes outside its block of keys and removes the entries older than two seconds and no others, both keep the
  search tree and its sizes correct, and releasing it ends without a failing assertion.\<close>

theorem stat_cache_refines_map:
  assumes "reachable_cache sc"
  shows "map_option (\<lambda>(h, r, sc'). (h, r, cache_map sc')) (stat_cache_get_entry fs conf sc (Some name)) =
      get_entry_abs fs conf (cache_map sc) name \<and>
    map_option cache_map (stat_cache_trigger_cleanup now sc) = Some (young now (cache_map sc)) \<and>
    cache_tree_ok sc \<and> named (cache_map sc) \<and> stat_cache_free sc = Some ()"
proof -
  have ok: "cache_tree_ok sc" "named (cache_map sc)" using reachable_cache_ok [OF assms] by simp_all
  moreover have "stat_cache_free sc = Some ()"
    using free_files_ok [of "sc_files sc"] ok(1) by (simp add: stat_cache_free_def cache_tree_ok_def)
  ultimately show ?thesis using get_entry_refines(1) [OF ok(1)] cleanup_ok [OF ok(1), of now] by auto
qed

theorem stat_cache_refines_map_witness:
  "stat_cache_free (the (stat_cache_trigger_cleanup 1001 stat_cache_init)) = Some ()"
proof -
  have "reachable_cache stat_cache_init" by (rule reachable_cache.init)
  then have "reachable_cache (the (stat_cache_trigger_cleanup 1001 stat_cache_init))"
    using reachable_cache.cleanup [of stat_cache_init 1001] by (simp add: stat_cache_trigger_cleanup_def stat_cache_init_def)
  from stat_cache_refines_map [OF this] show ?thesis by blast
qed

text \<open>C22. Within one second the cache is transparent. Let a reachable cache hold no entry made in this second; then any
  sequence of lookups, of connections that follow symbolic links and of others, answers for every name what the
  file system says: an error exactly if \<open>stat\<close> fails or a regular file cannot be opened, and otherwise an entry
  of that name with its status, its content type, its tag, and the mark of a symbolic link exactly if links are to be
  refused and the name or a directory on the way to it is one. The hypothesis is that no two of the names involved
  have the same hash.\<close>

theorem stat_cache_transparent:
  assumes "reachable_cache sc" "\<forall>k e. cache_map sc k = Some e \<longrightarrow> sce_stat_ts e \<noteq> cur_ts conf"
    "list_all (\<lambda>(f, n). name_ok n) qs" "mime_ok (mimetypes conf)" "no_collision (cache_map sc) qs"
  shows "\<exists>as sc'. lookups fs conf sc qs = Some (as, sc') \<and> list_all2 (answer_ok fs conf) qs as"
  using assms reachable_cache_ok [OF assms(1)] by (intro lookups_ok) (auto simp: this_second_def)

theorem stat_cache_transparent_witness:
  "\<exists>as sc'. lookups site site_conf stat_cache_init [(1, ''/az''), (0, ''/az''), (1, ''/az''), (1, ''/c'')] = Some (as, sc') \<and>
     list_all2 (answer_ok site site_conf) [(1, ''/az''), (0, ''/az''), (1, ''/az''), (1, ''/c'')] as"
proof (rule stat_cache_transparent)
  show "reachable_cache stat_cache_init" by (rule reachable_cache.init)
  have empty: "cache_map stat_cache_init = Map.empty" by (simp add: cache_map_def stat_cache_init_def lookup_def)
  then show "\<forall>k e. cache_map stat_cache_init k = Some e \<longrightarrow> sce_stat_ts e \<noteq> cur_ts site_conf" by simp
  show "list_all (\<lambda>(f, n). name_ok n) [(1, ''/az''), (0, ''/az''), (1, ''/az''), (1, ''/c'')]" by (simp add: name_ok_def)
  show "mime_ok (mimetypes site_conf)" by (simp add: mime_ok_def site_conf_def string_elem_def)
  have "file_key 1 ''/az'' = 2088272352" "file_key 0 ''/az'' = 2088272351" "file_key 1 ''/c'' = 193431496" by code_simp+
  then show "no_collision (cache_map stat_cache_init) [(1, ''/az''), (0, ''/az''), (1, ''/az''), (1, ''/c'')]"
    by (simp add: empty no_collision_def)
qed

text \<open>C40. When two names of files that can be read have the same hash, and no third one occupies it, the entry of the first is
  overwritten with the status of the second but keeps the name of the first: a lookup of the first name, after both have been looked up in the
  same second, answers the entry of that name with the status of the other file. This is for the simple engine, any
  file system, any well-formed cache and names without NUL.\<close>

theorem stat_cache_collision:
  assumes "cache_tree_ok sc" "engine conf = STAT_CACHE_ENGINE_SIMPLE" "mime_ok (mimetypes conf)" "name_ok n1" "name_ok n2"
    and "n1 \<noteq> n2" "file_key f n1 = file_key f n2" "readable fs n1 = Some st1" "readable fs n2 = Some st2"
    and "case cache_map sc (file_key f n1) of None \<Rightarrow> True | Some e \<Rightarrow> sce_name e = Some n1"
  shows "\<exists>e1 e2 sc3. lookups fs conf sc [(f, n1), (f, n2), (f, n1)] =
      Some ([(HANDLER_GO_ON, Some e1), (HANDLER_GO_ON, Some e2), (HANDLER_GO_ON, Some e2)], sc3) \<and>
    sce_name e2 = Some n1 \<and> sce_st e2 = st2"
proof -
  let ?conf = "conf\<lparr>follow_symlink := f\<rparr>" and ?k = "file_key f n1"
  have cs: "c_str n1 = n1" "c_str n2 = n2" using assms(4,5) by (simp_all add: name_ok_def c_str_no_NUL)
  have go: "\<exists>sc'. stat_cache_get_entry fs ?conf sc0 (Some n) = Some (h, r, sc') \<and> cache_map sc' = m \<and> cache_tree_ok sc'"
    if "cache_tree_ok sc0" "get_entry_abs fs ?conf (cache_map sc0) n = Some (h, r, m)" for sc0 n h r m
    using get_entry_refines [OF that(1), of fs ?conf n] that(2) by fastforce
  have fill: "\<exists>e. fill_entry fs ?conf n st e0 = Some e \<and> sce_name e = sce_name e0 \<and> sce_st e = st \<and> sce_stat_ts e = cur_ts conf" for n st e0
    using mime_type_total [OF assms(3), of n] by (auto simp: fill_entry_def Let_def)
  have fresh: "\<exists>e. refresh_abs fs ?conf m n ?k = Some (HANDLER_GO_ON, Some e, m(?k \<mapsto> e)) \<and>
      sce_name e = (case m ?k of None \<Rightarrow> Some n | Some e0 \<Rightarrow> sce_name e0) \<and> sce_st e = st \<and> sce_stat_ts e = cur_ts conf"
    if "readable fs n = Some st" "c_str n = n" for m n st
    using that fill [of n st "case m ?k of None \<Rightarrow> stat_cache_entry_init\<lparr>sce_name := Some n\<rparr> | Some e \<Rightarrow> e"]
    by (auto simp: refresh_abs_def readable_def split: option.splits if_splits)
  have "\<exists>e1 m1. get_entry_abs fs ?conf (cache_map sc) n1 = Some (HANDLER_GO_ON, Some e1, m1) \<and> m1 ?k = Some e1 \<and> sce_name e1 = Some n1"
    using fresh [OF assms(8) cs(1), of "cache_map sc"] assms(10) by (auto simp: get_entry_abs_def Let_def split: option.splits)
  then obtain e1 sc1 where one: "stat_cache_get_entry fs ?conf sc (Some n1) = Some (HANDLER_GO_ON, Some e1, sc1)" "cache_tree_ok sc1"
    "cache_map sc1 ?k = Some e1" "sce_name e1 = Some n1" using go [OF assms(1)] by blast
  have "\<not> hit ?conf n2 e1" using assms(6) cs one(4) by (simp add: hit_def bs_equal_def)
  then obtain e2 where two0: "get_entry_abs fs ?conf (cache_map sc1) n2 = Some (HANDLER_GO_ON, Some e2, (cache_map sc1)(?k \<mapsto> e2))"
    "sce_name e2 = Some n1" "sce_st e2 = st2" "sce_stat_ts e2 = cur_ts conf"
    using fresh [OF assms(9) cs(2), of "cache_map sc1"] one(3,4) assms(7) by (auto simp: get_entry_abs_def)
  obtain sc2 where two: "stat_cache_get_entry fs ?conf sc1 (Some n2) = Some (HANDLER_GO_ON, Some e2, sc2)" "cache_tree_ok sc2"
    "cache_map sc2 = (cache_map sc1)(?k \<mapsto> e2)" using go [OF one(2) two0(1)] by blast
  have "hit ?conf n1 e2" using two0(2,4) assms(2) by (simp add: hit_def bs_equal_def)
  then have "get_entry_abs fs ?conf (cache_map sc2) n1 = Some (HANDLER_GO_ON, Some e2, cache_map sc2)" using two(3) by (simp add: get_entry_abs_def)
  from go [OF two(2) this] obtain sc3 where "stat_cache_get_entry fs ?conf sc2 (Some n1) = Some (HANDLER_GO_ON, Some e2, sc3)" by blast
  with one(1) two(1) two0(2,3) show ?thesis by simp
qed

theorem stat_cache_collision_witness:
  "\<exists>e1 e2 sc3. lookups site site_conf stat_cache_init [(1, ''/az''), (1, ''/bY''), (1, ''/az'')] =
      Some ([(HANDLER_GO_ON, Some e1), (HANDLER_GO_ON, Some e2), (HANDLER_GO_ON, Some e2)], sc3) \<and>
    sce_name e2 = Some ''/az'' \<and> st_size (sce_st e2) = 20"
proof -
  have "file_key 1 ''/az'' = file_key 1 ''/bY''" by code_simp
  moreover have "cache_map stat_cache_init = Map.empty" by (simp add: cache_map_def stat_cache_init_def lookup_def)
  moreover have "cache_tree_ok stat_cache_init" using reachable_cache_ok [OF reachable_cache.init] by simp
  moreover have "mime_ok (mimetypes site_conf)" by (simp add: mime_ok_def site_conf_def array_init_def)
  moreover have "readable site ''/az'' = Some (reg 10)" "readable site ''/bY'' = Some (reg 20)" "engine site_conf = STAT_CACHE_ENGINE_SIMPLE"
    by (simp_all add: readable_def site_def site_conf_def)
  ultimately obtain e1 e2 sc3 where "lookups site site_conf stat_cache_init [(1, ''/az''), (1, ''/bY''), (1, ''/az'')] =
      Some ([(HANDLER_GO_ON, Some e1), (HANDLER_GO_ON, Some e2), (HANDLER_GO_ON, Some e2)], sc3)" "sce_name e2 = Some ''/az''" "sce_st e2 = reg 20"
    using stat_cache_collision [of stat_cache_init site_conf "''/az''" "''/bY''" 1 site "reg 10" "reg 20"] by (auto simp: name_ok_def)
  moreover have "st_size (sce_st e2) = 20" using calculation(3) by (simp add: reg_def)
  ultimately show ?thesis by blast
qed

end
