(* ===== verification/RequestHost.thy ===== *)
theory RequestHost
  imports Array
begin

text \<open>
  The three helpers of \<open>request.c\<close>: \<open>request_check_hostname\<close>, which validates the \<open>Host\<close> header,
  \<open>http_request_split_value\<close>, which splits a header value at commas, and
  \<open>request_uri_is_valid_char\<close>. A buffer is read as the block of its \<open>used\<close> bytes. The lemmas show
  that the host check never leaves that block, that what it accepts has no empty label and no
  character that could separate path components, and when splitting is safe.
\<close>

section \<open>The host name\<close>

text \<open>The loop over an IPv6 address, from the character after the bracket on: \<open>Inl ()\<close> is
  \<open>return -1\<close>, \<open>Inr\<close> the rest that starts with \<open>]\<close> or the terminator.\<close>

fun ipv6_scan :: "nat \<Rightarrow> char list \<Rightarrow> (unit + char list) option" where
  "ipv6_scan colon_cnt [] = None"
| "ipv6_scan colon_cnt (c # cs) =
     (if c = NUL \<or> c = CHR '']'' then Some (Inr (c # cs))
      else if c = CHR '':'' then
        (if colon_cnt + 1 > 7 then Some (Inl ()) else ipv6_scan (colon_cnt + 1) cs)
      else if \<not> light_isxdigit (schar c) then Some (Inl ())
      else ipv6_scan colon_cnt cs)"

text \<open>\<open>for (; *c; c++) if (!light_isdigit(*c)) return -1;\<close>\<close>

fun port_scan :: "char list \<Rightarrow> bool option" where
  "port_scan [] = None"
| "port_scan (c # cs) =
     (if c = NUL then Some True
      else if \<not> light_isdigit (schar c) then Some False
      else port_scan cs)"

definition check_ipv6 :: "char list \<Rightarrow> int option" where
  "check_ipv6 m = do {
     r \<leftarrow> ipv6_scan 0 (drop 1 m);
     (case r of
        Inl _ \<Rightarrow> Some (-1)
      | Inr rest \<Rightarrow> do {
          c \<leftarrow> mem_get rest 0;
          (if c = NUL then Some (-1)
           else do {
             c1 \<leftarrow> mem_get rest 1;
             (if c1 = CHR '':'' then do {
                okp \<leftarrow> port_scan (drop 2 rest);
                Some (if okp then 0 else -1)
              }
              else Some 0)
           })
        })
   }"

datatype host_stage = DOMAINLABEL | TOPLABEL

record host_state =
  hs_stage :: host_stage
  hs_label_len :: nat
  hs_is_ip :: int
  hs_level :: nat

text \<open>One character of the scan from the right, by stage; \<open>None\<close> inside is \<open>return -1\<close>. The
  argument \<open>nx\<close> is \<open>host->ptr[i+1]\<close>.\<close>

definition toplabel_step :: "nat \<Rightarrow> nat \<Rightarrow> char \<Rightarrow> char \<Rightarrow> host_state \<Rightarrow> host_state option" where
  "toplabel_step host_len i c nx st =
     (if c = CHR ''.'' then
        (if i \<noteq> host_len - 1 then
           (if hs_label_len st = 0 then None
            else if hs_is_ip st = 0 \<and> \<not> light_isalpha (schar nx) then None
            else
              (let ip = (if hs_is_ip st = 0 then 0
                         else if \<not> light_isdigit (schar nx) then 0
                         else 1)
               in if hs_is_ip st \<noteq> 0 \<and> light_isdigit (schar nx) \<and> nx = CHR ''-'' then None
                  else Some (st\<lparr>hs_is_ip := ip, hs_stage := DOMAINLABEL, hs_label_len := 0,
                               hs_level := hs_level st + 1\<rparr>)))
         else if i = 0 then None
         else Some st)
      else if i = 0 then
        (if \<not> light_isalpha (schar c) then None
         else Some (st\<lparr>hs_label_len := hs_label_len st + 1\<rparr>))
      else if c \<noteq> CHR ''-'' \<and> \<not> light_isalnum (schar c) then None
      else
        (let st1 = (if hs_is_ip st = -1 \<and> \<not> light_isdigit (schar c) then st\<lparr>hs_is_ip := 0\<rparr> else st)
         in Some (st1\<lparr>hs_label_len := hs_label_len st1 + 1\<rparr>)))"

definition domainlabel_step :: "nat \<Rightarrow> char \<Rightarrow> char \<Rightarrow> host_state \<Rightarrow> host_state option" where
  "domainlabel_step i c nx st =
     (if hs_is_ip st = 1 then
        (if c = CHR ''.'' then
           (if hs_label_len st = 0 then None
            else Some (st\<lparr>hs_label_len := 0, hs_level := hs_level st + 1\<rparr>))
         else if \<not> light_isdigit (schar c) then None
         else Some (st\<lparr>hs_label_len := hs_label_len st + 1\<rparr>))
      else
        (if c = CHR ''.'' then
           (if hs_label_len st = 0 then None
            else if nx = CHR ''-'' then None
            else Some (st\<lparr>hs_label_len := 0, hs_level := hs_level st + 1\<rparr>))
         else if i = 0 then
           (if \<not> light_isalnum (schar c) then None
            else Some (st\<lparr>hs_label_len := hs_label_len st + 1\<rparr>))
         else if c \<noteq> CHR ''-'' \<and> \<not> light_isalnum (schar c) then None
         else Some (st\<lparr>hs_label_len := hs_label_len st + 1\<rparr>)))"

text \<open>\<open>for (i = host_len - 1; i + 1 > 0; i--)\<close>, with \<open>n = i + 1\<close>.\<close>

fun host_scan :: "char list \<Rightarrow> nat \<Rightarrow> nat \<Rightarrow> host_state \<Rightarrow> host_state option option" where
  "host_scan m host_len 0 st = Some (Some st)"
| "host_scan m host_len (Suc i) st = do {
     c \<leftarrow> mem_get m i;
     nx \<leftarrow> mem_get m (i + 1);
     (case (case hs_stage st of
              TOPLABEL \<Rightarrow> toplabel_step host_len i c nx st
            | DOMAINLABEL \<Rightarrow> domainlabel_step i c nx st) of
        None \<Rightarrow> Some None
      | Some st1 \<Rightarrow> host_scan m host_len i st1)
   }"

text \<open>\<open>memchr(host->ptr, ':', host_len)\<close>\<close>

definition find_colon :: "string \<Rightarrow> nat option" where
  "find_colon s = (let k = length (takeWhile (\<lambda>c. c \<noteq> CHR '':'') s) in if k < length s then Some k else None)"

definition host_init :: host_state where
  "host_init = \<lparr>hs_stage = TOPLABEL, hs_label_len = 0, hs_is_ip = -1, hs_level = 0\<rparr>"

text \<open>The check of a name or IPv4 address, after the port has been looked at.\<close>

definition check_name :: "char list \<Rightarrow> nat \<Rightarrow> int option" where
  "check_name m host_len0 =
     (if host_len0 = 0 then Some (-1)
      else do {
        c \<leftarrow> mem_get m (host_len0 - 1);
        let host_len = (if c = CHR ''.'' then host_len0 - 1 else host_len0);
        r \<leftarrow> host_scan m host_len host_len host_init;
        (case r of
           None \<Rightarrow> Some (-1)
         | Some st \<Rightarrow>
             if hs_is_ip st = 1 \<and> hs_level st \<noteq> 3 then Some (-1)
             else if hs_label_len st = 0 then Some (-1)
             else Some 0)
      })"

definition request_check_hostname :: "bstr option \<Rightarrow> int option" where
  "request_check_hostname host = (case host of
     None \<Rightarrow> Some 0
   | Some None \<Rightarrow> Some 0
   | Some (Some s) \<Rightarrow> do {
       let m = s @ [NUL];
       c0 \<leftarrow> mem_get m 0;
       (if c0 = CHR ''['' then check_ipv6 m
        else
          (case find_colon s of
             None \<Rightarrow> check_name m (length s)
           | Some k \<Rightarrow> do {
               okp \<leftarrow> port_scan (drop (k + 1) m);
               (if \<not> okp then Some (-1) else check_name m k)
             }))
     })"

section \<open>Splitting a value\<close>

definition is_ws :: "char \<Rightarrow> bool" where
  "is_ws c = (c = CHR '' '' \<or> c = TAB)"

text \<open>\<open>for (; (*s == ' ' || *s == '\t') && i < b->used - 1; i++, s++);\<close>\<close>

function skip_ws :: "char list \<Rightarrow> nat \<Rightarrow> nat \<Rightarrow> nat option" where
  "skip_ws m lim i = do {
     c \<leftarrow> mem_get m i;
     (if is_ws c \<and> i < lim then skip_ws m lim (i + 1) else Some i)
   }"
  by pat_completeness auto
termination
  by (relation "measure (\<lambda>(m, lim, i). lim - i)") auto

declare skip_ws.simps [simp del]

text \<open>\<open>for (; *s != ',' && i < b->used - 1; i++, s++);\<close>\<close>

function find_comma :: "char list \<Rightarrow> nat \<Rightarrow> nat \<Rightarrow> nat option" where
  "find_comma m lim i = do {
     c \<leftarrow> mem_get m i;
     (if c \<noteq> CHR '','' \<and> i < lim then find_comma m lim (i + 1) else Some i)
   }"
  by pat_completeness auto
termination
  by (relation "measure (\<lambda>(m, lim, i). lim - i)") auto

declare find_comma.simps [simp del]

text \<open>\<open>for (; (*end == ' ' || *end == '\t') && end > start; end--);\<close>\<close>

fun trim_end :: "char list \<Rightarrow> nat \<Rightarrow> nat \<Rightarrow> nat option" where
  "trim_end m start e = do {
     c \<leftarrow> mem_get m e;
     (if is_ws c \<and> e > start then trim_end m start (e - 1) else Some e)
   }"

declare trim_end.simps [simp del]

text \<open>Writing through \<open>ds->value\<close>, where \<open>ds\<close> came from a cast to \<open>data_string *\<close>.\<close>

definition ds_set_value :: "data_unset \<Rightarrow> string \<Rightarrow> data_unset option" where
  "ds_set_value ds v = (case du_val ds of
     DString _ \<Rightarrow> Some (ds\<lparr>du_val := DString (Some v)\<rparr>)
   | DResponse _ \<Rightarrow> Some (ds\<lparr>du_val := DResponse (Some v)\<rparr>)
   | _ \<Rightarrow> None)"

definition ds_value :: "data_unset \<Rightarrow> bstr option" where
  "ds_value ds = (case du_val ds of DString v \<Rightarrow> Some v | DResponse v \<Rightarrow> Some v | _ \<Rightarrow> None)"

definition unused_or_new :: "array \<Rightarrow> (data_unset \<times> array) option" where
  "unused_or_new a = do {
     (slot, a1) \<leftarrow> array_get_unused_element a;
     Some (case slot of None \<Rightarrow> data_string_init | Some ds \<Rightarrow> ds, a1)
   }"

text \<open>The body of \<open>case 1\<close>: the value from \<open>start\<close> to the comma or the end at \<open>e\<close>. With \<open>e = 0\<close>
  the pointer \<open>end\<close> is one in front of the block and is read.\<close>

definition split_one :: "(nat \<Rightarrow> nat) \<Rightarrow> char list \<Rightarrow> nat \<Rightarrow> nat \<Rightarrow> array \<Rightarrow> array option" where
  "split_one gs m start e vals =
     (if e = 0 then None
      else do {
        en \<leftarrow> trim_end m start (e - 1);
        (ds, vals1) \<leftarrow> unused_or_new vals;
        v \<leftarrow> mem_read (drop start m) (en + 1 - start);
        ds1 \<leftarrow> ds_set_value ds v;
        (_, vals2) \<leftarrow> array_insert_unique gs vals1 ds1;
        Some vals2
      })"

lemma skip_ws_le: "skip_ws m lim i = Some j \<Longrightarrow> i \<le> j"
proof (induction m lim i rule: skip_ws.induct)
  case (1 m lim i)
  then show ?case
    by (subst (asm) (2) skip_ws.simps) (fastforce split: if_splits)
qed

lemma find_comma_le: "find_comma m lim i = Some j \<Longrightarrow> i \<le> j \<and> j < length m \<and> (m ! j = CHR '','' \<or> lim \<le> j)"
proof (induction m lim i rule: find_comma.induct)
  case (1 m lim i)
  then show ?case
    by (subst (asm) (2) find_comma.simps) (fastforce simp: mem_get_def split: if_splits)
qed

function split_loop :: "(nat \<Rightarrow> nat) \<Rightarrow> char list \<Rightarrow> nat \<Rightarrow> nat \<Rightarrow> nat \<Rightarrow> array \<Rightarrow> array option" where
  "split_loop gs m lim state i vals =
     (if i < lim then
        (if state = 0 then do {
           j \<leftarrow> skip_ws m lim i;
           split_loop gs m lim 1 j vals
         }
         else if state = 1 then do {
           e \<leftarrow> find_comma m lim i;
           vals1 \<leftarrow> split_one gs m i e vals;
           c \<leftarrow> mem_get m e;
           (if c = CHR '','' then split_loop gs m lim 0 (e + 1) vals1
            else split_loop gs m lim 2 e vals1)
         }
         else split_loop gs m lim state (i + 1) vals)
      else Some vals)"
  by pat_completeness auto
termination
  by (relation "measure (\<lambda>(gs, m, lim, state, i, vals). 2 * (lim - i) + (if state = 0 then 1 else 0))")
    (auto dest!: skip_ws_le find_comma_le simp: mem_get_def split: if_splits)

declare split_loop.simps [simp del]

definition http_request_split_value :: "(nat \<Rightarrow> nat) \<Rightarrow> array \<Rightarrow> bstr \<Rightarrow> array option" where
  "http_request_split_value gs vals b = (case b of
     None \<Rightarrow> Some vals
   | Some s \<Rightarrow> split_loop gs (s @ [NUL]) (length s) 0 0 vals)"

section \<open>Characters of a URI\<close>

definition request_uri_is_valid_char :: "char \<Rightarrow> bool" where
  "request_uri_is_valid_char c = (\<not> uchar c \<le> 32 \<and> uchar c \<noteq> 127 \<and> uchar c \<noteq> 255)"

section \<open>The host check is total\<close>

lemma port_scan_total: "NUL \<in> set cs \<Longrightarrow> \<exists>b. port_scan cs = Some b"
  by (induction cs) auto

lemma ipv6_scan_total:
  "NUL \<in> set cs \<Longrightarrow> ipv6_scan n cs = Some (Inl ()) \<or>
     (\<exists>c r. ipv6_scan n cs = Some (Inr (c # r)) \<and> (c = NUL \<or> c = CHR '']'' \<and> NUL \<in> set r))"
  by (induction cs arbitrary: n) auto

lemma check_ipv6_total:
  assumes "NUL \<in> set (drop 1 m)"
  shows "check_ipv6 m = Some 0 \<or> check_ipv6 m = Some (-1)"
  using ipv6_scan_total [OF assms, of 0]
proof (elim disjE exE conjE)
  fix c r assume r: "ipv6_scan 0 (drop 1 m) = Some (Inr (c # r))" "c = CHR '']''" "NUL \<in> set r"
  then obtain d ds where ds: "r = d # ds" by (cases r) auto
  show ?thesis
  proof (cases "d = CHR '':''")
    case True
    with r ds obtain b where "port_scan ds = Some b" using port_scan_total [of ds] by auto
    with r ds True show ?thesis by (simp add: check_ipv6_def mem_get_def)
  qed (use r ds in \<open>simp add: check_ipv6_def mem_get_def\<close>)
qed (simp_all add: check_ipv6_def mem_get_def)

lemma host_scan_total: "n < length m \<Longrightarrow> \<exists>r. host_scan m hl n st = Some r"
  by (induction m hl n st rule: host_scan.induct) (auto simp: mem_get_def split: option.splits host_stage.splits)

definition name_len :: "char list \<Rightarrow> nat \<Rightarrow> nat" where
  "name_len m k = (if m ! (k - 1) = CHR ''.'' then k - 1 else k)"

lemma check_name_eq:
  assumes "k < length m" "k \<noteq> 0"
  shows "check_name m k = do {
     r \<leftarrow> host_scan m (name_len m k) (name_len m k) host_init;
     (case r of
        None \<Rightarrow> Some (-1)
      | Some st \<Rightarrow>
          if hs_is_ip st = 1 \<and> hs_level st \<noteq> 3 then Some (-1)
          else if hs_label_len st = 0 then Some (-1)
          else Some 0) }"
proof -
  have "mem_get m (k - 1) = Some (m ! (k - 1))" using assms(1) by (simp add: mem_get_def)
  with assms(2) show ?thesis by (simp only: check_name_def name_len_def Let_def bind.bind_lunit if_False)
qed

lemma check_name_total:
  assumes "k < length m"
  shows "check_name m k = Some 0 \<or> check_name m k = Some (-1)"
proof (cases "k = 0")
  case False
  have "name_len m k < length m" using assms by (auto simp: name_len_def)
  then obtain r where "host_scan m (name_len m k) (name_len m k) host_init = Some r" using host_scan_total by blast
  then show ?thesis using check_name_eq [OF assms False] by (cases r) auto
qed (simp add: check_name_def)

lemma find_colon_lt: "find_colon s = Some k \<Longrightarrow> k < length s \<and> s ! k = CHR '':'' \<and> CHR '':'' \<notin> set (take k s)"
proof -
  assume a: "find_colon s = Some k"
  then have k: "k = length (takeWhile (\<lambda>c. c \<noteq> CHR '':'') s)" "k < length s"
    by (auto simp: find_colon_def Let_def split: if_splits)
  moreover have "s ! k = CHR '':''" using nth_length_takeWhile [of "\<lambda>c. c \<noteq> CHR '':''" s] k by simp
  moreover have "take k s = takeWhile (\<lambda>c. c \<noteq> CHR '':'') s" unfolding k(1) by (rule takeWhile_eq_take [symmetric])
  ultimately show ?thesis by (auto dest: set_takeWhileD)
qed

lemma request_check_hostname_total:
  "request_check_hostname host = Some 0 \<or> request_check_hostname host = Some (-1)"
proof (cases "\<exists>s. host = Some (Some s)")
  case True
  then obtain s where s: "host = Some (Some s)" by blast
  show ?thesis
  proof (cases "mem_get (s @ [NUL]) 0 = Some (CHR ''['')")
    case True
    then have "NUL \<in> set (drop 1 (s @ [NUL]))" by (cases s) (auto simp: mem_get_def)
    from check_ipv6_total [OF this] True show ?thesis by (simp add: request_check_hostname_def s Let_def)
  next
    case False
    moreover obtain c where "mem_get (s @ [NUL]) 0 = Some c" by (simp add: mem_get_def)
    ultimately have eq: "request_check_hostname host = (case find_colon s of
        None \<Rightarrow> check_name (s @ [NUL]) (length s)
      | Some k \<Rightarrow> do { okp \<leftarrow> port_scan (drop (k + 1) (s @ [NUL])); (if \<not> okp then Some (-1) else check_name (s @ [NUL]) k) })"
      by (simp add: request_check_hostname_def s Let_def)
    show ?thesis
    proof (cases "find_colon s")
      case None
      with eq check_name_total [of "length s" "s @ [NUL]"] show ?thesis by simp
    next
      case (Some k)
      then have k: "k < length s" using find_colon_lt by blast
      then obtain b where "port_scan (drop (k + 1) (s @ [NUL])) = Some b"
        using port_scan_total [of "drop (k + 1) (s @ [NUL])"] by auto
      with eq Some k check_name_total [of k "s @ [NUL]"] show ?thesis by simp
    qed
  qed
qed (auto simp: request_check_hostname_def split: option.splits)

section \<open>What the host check accepts\<close>

definition host_char :: "char \<Rightarrow> bool" where
  "host_char c = (c = CHR ''.'' \<or> c = CHR ''-'' \<or> light_isalnum (schar c))"

definition no_double_dot :: "string \<Rightarrow> bool" where
  "no_double_dot h = (\<forall>i. i + 1 < length h \<longrightarrow> \<not> (h ! i = CHR ''.'' \<and> h ! (i + 1) = CHR ''.''))"

lemma step_char:
  "toplabel_step hl i c nx st = Some st1 \<Longrightarrow> host_char c"
  "domainlabel_step i c nx st = Some st1 \<Longrightarrow> host_char c"
  by (auto simp: toplabel_step_def domainlabel_step_def host_char_def light_isalnum_def Let_def split: if_splits)

lemma step_dot:
  "toplabel_step hl i CHR ''.'' nx st = Some st1 \<Longrightarrow>
     (i = hl - 1 \<and> i \<noteq> 0 \<and> st1 = st) \<or> (i \<noteq> hl - 1 \<and> hs_label_len st \<noteq> 0 \<and> hs_label_len st1 = 0)"
  "domainlabel_step i CHR ''.'' nx st = Some st1 \<Longrightarrow> hs_label_len st \<noteq> 0 \<and> hs_label_len st1 = 0"
  by (auto simp: toplabel_step_def domainlabel_step_def Let_def split: if_splits)

lemma host_scan_sound:
  assumes "host_scan m hl n st = Some (Some st')" "hs_label_len st' \<noteq> 0" "n \<le> hl" "hl < length m"
    and "hs_stage st = TOPLABEL \<Longrightarrow> n = hl \<Longrightarrow> hs_label_len st = 0"
  shows "list_all host_char (take n m) \<and> no_double_dot (take n m) \<and>
    (n = 0 \<longrightarrow> hs_label_len st \<noteq> 0) \<and> (0 < n \<longrightarrow> m ! 0 \<noteq> CHR ''.'') \<and>
    (hs_label_len st = 0 \<longrightarrow> 0 < n \<longrightarrow> (hs_stage st = DOMAINLABEL \<or> n < hl) \<longrightarrow> m ! (n - 1) \<noteq> CHR ''.'')"
  using assms
proof (induction m hl n st rule: host_scan.induct)
  case (1 m hl st)
  then show ?case by (simp add: no_double_dot_def)
next
  case (2 m hl i st)
  let ?c = "m ! i" and ?nx = "m ! Suc i"
  have len: "i < length m" "i + 1 < length m" using 2(4,5) by simp_all
  obtain st1 where step: "(case hs_stage st of TOPLABEL \<Rightarrow> toplabel_step hl i ?c ?nx st
        | DOMAINLABEL \<Rightarrow> domainlabel_step i ?c ?nx st) = Some st1"
    and rec: "host_scan m hl i st1 = Some (Some st')"
    using 2(2) len by (auto simp: mem_get_def split: option.splits)
  have c: "host_char ?c" using step step_char by (auto split: host_stage.splits)
  have dot: "?c = CHR ''.'' \<Longrightarrow> hs_label_len st1 = 0 \<and>
      (hs_label_len st \<noteq> 0 \<or> (hs_stage st = TOPLABEL \<and> i = hl - 1 \<and> i \<noteq> 0))"
    using step step_dot(1) [of hl i ?nx st st1] step_dot(2) [of i ?nx st st1] 2(4,6) by (auto split: host_stage.splits)
  have IH: "list_all host_char (take i m) \<and> no_double_dot (take i m) \<and>
    (i = 0 \<longrightarrow> hs_label_len st1 \<noteq> 0) \<and> (0 < i \<longrightarrow> m ! 0 \<noteq> CHR ''.'') \<and>
    (hs_label_len st1 = 0 \<longrightarrow> 0 < i \<longrightarrow> (hs_stage st1 = DOMAINLABEL \<or> i < hl) \<longrightarrow> m ! (i - 1) \<noteq> CHR ''.'')"
    using 2(3,4,5) len by (intro 2(1) [OF _ _ step rec]) (auto simp: mem_get_def)
  have tk: "take (Suc i) m = take i m @ [?c]" using len(1) by (rule take_Suc_conv_app_nth)
  have "no_double_dot (take (Suc i) m)"
    unfolding no_double_dot_def
  proof (intro allI impI notI)
    fix j assume j: "j + 1 < length (take (Suc i) m)"
      and dd: "take (Suc i) m ! j = CHR ''.'' \<and> take (Suc i) m ! (j + 1) = CHR ''.''"
    show False
    proof (cases "j + 1 < i")
      case True
      with IH dd len show False by (auto simp: no_double_dot_def)
    next
      case False
      then have "j + 1 = i" using j len by simp
      with dd have "?c = CHR ''.''" "m ! (i - 1) = CHR ''.''" "0 < i" by auto
      with dot IH 2(4) show False by simp
    qed
  qed
  moreover have "list_all host_char (take (Suc i) m)" using IH c by (simp add: tk)
  moreover have "m ! 0 \<noteq> CHR ''.''" using IH dot by (cases "i = 0") auto
  moreover have "hs_label_len st = 0 \<longrightarrow> (hs_stage st = DOMAINLABEL \<or> Suc i < hl) \<longrightarrow> ?c \<noteq> CHR ''.''"
    using dot by auto
  ultimately show ?case by simp
qed

lemma check_name_sound:
  assumes "check_name m k = Some 0" "k < length m"
  shows "0 < k \<and> (\<exists>h. (take k m = h \<or> take k m = h @ ''.'') \<and> h \<noteq> [] \<and> hd h \<noteq> CHR ''.'' \<and>
    list_all host_char h \<and> no_double_dot h)"
proof -
  let ?hl = "name_len m k"
  have k: "k \<noteq> 0" using assms(1) by (cases "k = 0") (simp_all add: check_name_def)
  then obtain st where st: "host_scan m ?hl ?hl host_init = Some (Some st)" "hs_label_len st \<noteq> 0"
    using assms check_name_eq [OF assms(2) k] by (auto split: option.splits if_splits)
  have hl: "?hl < length m" using assms(2) by (auto simp: name_len_def)
  note sound = host_scan_sound [OF st order.refl hl]
  have "?hl \<noteq> 0" using sound by (auto simp: host_init_def)
  moreover have "m \<noteq> []" using hl by auto
  with \<open>?hl \<noteq> 0\<close> have "take ?hl m \<noteq> []" "hd (take ?hl m) = m ! 0"
    using hl hd_conv_nth [of "take ?hl m"] by (auto simp del: hd_take)
  moreover have "take k m = take ?hl m \<or> take k m = take ?hl m @ ''.''"
    using k assms(2) take_Suc_snoc [of "k - 1" m] by (auto simp: name_len_def)
  ultimately show ?thesis using sound k by (intro conjI exI [of _ "take ?hl m"]) (auto simp: host_init_def)
qed

lemma port_scan_sound: "NUL \<notin> set p \<Longrightarrow> port_scan (p @ NUL # r) = Some True \<Longrightarrow> list_all (\<lambda>c. light_isdigit (schar c)) p"
  by (induction p) (auto split: if_splits)

section \<open>Splitting is safe unless the value starts with a comma\<close>

lemma skip_ws_ok: "lim < length m \<Longrightarrow> i \<le> lim \<Longrightarrow> \<exists>j. skip_ws m lim i = Some j \<and> i \<le> j \<and> j \<le> lim"
proof (induction m lim i rule: skip_ws.induct)
  case (1 m lim i)
  then have c: "mem_get m i = Some (m ! i)" by (simp add: mem_get_def)
  show ?case
  proof (cases "is_ws (m ! i) \<and> i < lim")
    case True
    with 1(1) [OF c True] 1(2) obtain j where "skip_ws m lim (i + 1) = Some j" "i + 1 \<le> j" "j \<le> lim" by auto
    with c True show ?thesis by (subst skip_ws.simps) auto
  next
    case False
    with c 1(3) show ?thesis by (subst skip_ws.simps) auto
  qed
qed

lemma find_comma_ok:
  "lim < length m \<Longrightarrow> i \<le> lim \<Longrightarrow> \<exists>j. find_comma m lim i = Some j \<and> i \<le> j \<and> j \<le> lim \<and> (m ! i = CHR '','' \<or> i < lim \<longrightarrow> m ! i = CHR '','' \<or> i < j)"
proof (induction m lim i rule: find_comma.induct)
  case (1 m lim i)
  then have c: "mem_get m i = Some (m ! i)" by (simp add: mem_get_def)
  show ?case
  proof (cases "m ! i \<noteq> CHR '','' \<and> i < lim")
    case True
    with 1(1) [OF c True] 1(2) obtain j where "find_comma m lim (i + 1) = Some j" "i + 1 \<le> j" "j \<le> lim" by auto
    with c True show ?thesis by (subst find_comma.simps) auto
  next
    case False
    with c 1(3) show ?thesis by (subst find_comma.simps) auto
  qed
qed

lemma trim_end_ok: "e < length m \<Longrightarrow> \<exists>en. trim_end m start e = Some en \<and> en \<le> e"
proof (induction m start e rule: trim_end.induct)
  case (1 m start e)
  then have c: "mem_get m e = Some (m ! e)" by (simp add: mem_get_def)
  show ?case
  proof (cases "is_ws (m ! e) \<and> e > start")
    case True
    have "e - 1 < length m" using 1(2) by arith
    from 1(1) [OF c True this] obtain en where "trim_end m start (e - 1) = Some en" "en \<le> e - 1" by blast
    with c True show ?thesis by (subst trim_end.simps) auto
  next
    case False
    with c show ?thesis by (subst trim_end.simps) auto
  qed
qed

lemma ds_set_value_text: "is_text ds \<Longrightarrow> \<exists>d. ds_set_value ds v = Some d \<and> is_text d \<and> du_key d = du_key ds \<and>
    du_is_index_key d = du_is_index_key ds \<and> ds_value d = Some (Some v)"
  by (cases "du_val ds") (auto simp: ds_set_value_def ds_value_def is_text_def)

lemma unused_or_new_safe:
  assumes "array_safe a"
  shows "\<exists>ds b. unused_or_new a = Some (ds, b) \<and> array_safe b \<and> a_used b = a_used a \<and> is_text ds"
proof -
  obtain slot b where "array_get_unused_element a = Some (slot, b)" "array_safe b" "a_used b = a_used a"
    "case slot of None \<Rightarrow> True | Some du \<Rightarrow> is_text du"
    using array_unused_safe [OF assms] by blast
  then show ?thesis
    by (cases slot) (simp_all add: unused_or_new_def is_text_def data_string_init_def)
qed

lemma split_one_safe:
  assumes "array_safe vals" "0 < e" "e < length m" "start \<le> e"
  shows "\<exists>v. split_one gs m start e vals = Some v \<and> array_safe v"
proof -
  obtain en where en: "trim_end m start (e - 1) = Some en" "en \<le> e - 1"
    using trim_end_ok [of "e - 1" m start] assms(3) less_imp_diff_less by blast
  obtain ds b where ds: "unused_or_new vals = Some (ds, b)" "array_safe b" "is_text ds"
    using unused_or_new_safe [OF assms(1)] by blast
  have "en + 1 - start \<le> length (drop start m)" using en assms by simp
  then have rd: "mem_read (drop start m) (en + 1 - start) = Some (take (en + 1 - start) (drop start m))" by (rule mem_read_ok)
  obtain d where d: "ds_set_value ds (take (en + 1 - start) (drop start m)) = Some d" "is_text d"
    using ds_set_value_text [OF ds(3)] by blast
  with array_insert_safe [OF ds(2), of d gs] en ds rd assms(2) show ?thesis
    by (fastforce simp: split_one_def)
qed

lemma split_loop_safe:
  assumes "array_safe vals" "lim < length m" "i \<le> lim" "i = 0 \<longrightarrow> 0 < lim \<longrightarrow> m ! 0 \<noteq> CHR '',''"
  shows "\<exists>v. split_loop gs m lim state i vals = Some v \<and> array_safe v"
  using assms
proof (induction gs m lim state i vals rule: split_loop.induct)
  case (1 gs m lim state i vals)
  consider "\<not> i < lim" | "i < lim" "state = 0" | "i < lim" "state = 1" | "i < lim" "state \<noteq> 0" "state \<noteq> 1" by auto
  then show ?case
  proof cases
    case 1
    then show ?thesis using \<open>array_safe vals\<close> by (subst split_loop.simps) simp
  next
    case 2
    obtain j where j: "skip_ws m lim i = Some j" "i \<le> j" "j \<le> lim" using skip_ws_ok [OF \<open>lim < length m\<close> \<open>i \<le> lim\<close>] by blast
    with 1(1) [OF 2 j(1)] 1(5-8) 2 show ?thesis by (subst split_loop.simps) auto
  next
    case 3
    obtain e where e: "find_comma m lim i = Some e" "i \<le> e" "e \<le> lim" "m ! i = CHR '','' \<or> i < e"
      using find_comma_ok [OF \<open>lim < length m\<close> \<open>i \<le> lim\<close>] 3(1) by blast
    have pos: "0 < e" using e 1(8) 3(1) by (cases "i = 0") auto
    obtain v where v: "split_one gs m i e vals = Some v" "array_safe v"
      using split_one_safe [OF 1(5) pos, of m i gs] e 1(6) by auto
    have c: "mem_get m e = Some (m ! e)" using e(3) 1(6) by (simp add: mem_get_def)
    have "m ! e = CHR '','' \<Longrightarrow> e \<noteq> lim \<or> e + 1 \<le> lim \<or> True" by simp
    show ?thesis
    proof (cases "m ! e = CHR '','' \<and> e < lim")
      case True
      with 1(2) [OF 3(1) _ 3(2) e(1) v(1) c] 1(6) 3 e v c show ?thesis by (subst split_loop.simps) auto
    next
      case False
      then have "e = lim" using e(3) find_comma_le [OF e(1)] by auto
      then have "split_loop gs m lim s' e' v = Some v" if "lim \<le> e'" for s' e' using that by (subst split_loop.simps) simp
      with \<open>e = lim\<close> v c e(1) 3 show ?thesis by (subst split_loop.simps) simp
    qed
  next
    case 4
    with 1(4) 1(5-8) show ?thesis by (subst split_loop.simps) auto
  qed
qed

lemma http_request_split_value_safe:
  assumes "array_safe vals" "s = [] \<or> hd s \<noteq> CHR '',''"
  shows "\<exists>v. http_request_split_value gs vals (Some s) = Some v \<and> array_safe v"
  unfolding http_request_split_value_def option.case
  using assms by (intro split_loop_safe) (auto simp: nth_append hd_conv_nth)

section \<open>Properties\<close>

text \<open>The host check is total and memory-safe: on every header value, whatever bytes it
  contains, it returns 0 or -1 without leaving the buffer.\<close>

theorem hostname_check_total:
  "request_check_hostname host = Some 0 \<or> request_check_hostname host = Some (-1)"
  by (rule request_check_hostname_total)

text \<open>C35. What the host check accepts, IPv6 literals aside, is safe to build a path from: a non-empty
  name that does not start with a dot, made of letters, digits, dots and hyphens, without two
  neighbouring dots except possibly as its last two characters, optionally followed by a colon and
  digits. In particular it contains no slash.\<close>

theorem hostname_accepted_shape:
  assumes "request_check_hostname (Some (Some s)) = Some 0" "NUL \<notin> set s" "s \<noteq> []" "hd s \<noteq> CHR ''[''"
  shows "\<exists>h port. s = h @ port \<and> (port = [] \<or> (\<exists>p. port = CHR '':'' # p \<and> list_all (\<lambda>c. light_isdigit (schar c)) p)) \<and>
    h \<noteq> [] \<and> hd h \<noteq> CHR ''.'' \<and> list_all host_char h \<and>
    (\<forall>i. i + 2 < length h \<longrightarrow> \<not> (h ! i = CHR ''.'' \<and> h ! (i + 1) = CHR ''.''))"
proof -
  let ?m = "s @ [NUL]"
  have m0: "mem_get ?m 0 = Some (hd s)" using assms(3) by (simp add: mem_get_def nth_append hd_conv_nth)
  have res: "(case find_colon s of None \<Rightarrow> check_name ?m (length s)
     | Some k \<Rightarrow> do { okp \<leftarrow> port_scan (drop (k + 1) ?m); (if \<not> okp then Some (-1) else check_name ?m k) }) = Some 0"
    using assms(1,4) m0 by (simp add: request_check_hostname_def Let_def)
  obtain k port where k: "check_name ?m k = Some 0" "k \<le> length s" "s = take k s @ port"
    and port: "port = [] \<or> (\<exists>p. port = CHR '':'' # p \<and> list_all (\<lambda>c. light_isdigit (schar c)) p)"
  proof (cases "find_colon s")
    case None
    with res that [of "length s" "[]"] show ?thesis by simp
  next
    case (Some k)
    note fc = find_colon_lt [OF Some]
    then have dr: "drop k s = CHR '':'' # drop (Suc k) s" by (metis Cons_nth_drop_Suc)
    have ps: "port_scan (drop (Suc k) s @ [NUL]) = Some True" "check_name ?m k = Some 0"
      using res Some fc by (auto split: if_splits)
    have "NUL \<notin> set (drop (Suc k) s)" using assms(2) by (meson in_set_dropD)
    then have dig: "list_all (\<lambda>c. light_isdigit (schar c)) (drop (Suc k) s)"
      using port_scan_sound ps(1) by blast
    show ?thesis
    proof (rule that [of k "drop k s"])
      show "drop k s = [] \<or> (\<exists>p. drop k s = CHR '':'' # p \<and> list_all (\<lambda>c. light_isdigit (schar c)) p)"
        using dig dr by blast
    qed (use fc ps in auto)
  qed
  define t where "t = take k s"
  have "take k ?m = t" using k(2) by (simp add: t_def)
  with check_name_sound [OF k(1)] k(2)
  obtain h where h: "t = h \<or> t = h @ ''.''" "h \<noteq> []" "hd h \<noteq> CHR ''.''" "list_all host_char h" "no_double_dot h"
    by auto
  have "list_all host_char t" "t \<noteq> []" "hd t \<noteq> CHR ''.''"
    using h by (auto simp: host_char_def)
  moreover have "\<forall>i. i + 2 < length t \<longrightarrow> \<not> (t ! i = CHR ''.'' \<and> t ! (i + 1) = CHR ''.'')"
    using h(1,5) by (auto simp: no_double_dot_def nth_append)
  ultimately show ?thesis using k(3) port unfolding t_def by blast
qed

theorem hostname_accepted_shape_witness:
  "\<exists>h port. ''www.example.org:80'' = h @ port \<and> (port = [] \<or> (\<exists>p. port = CHR '':'' # p \<and> list_all (\<lambda>c. light_isdigit (schar c)) p)) \<and>
    h \<noteq> [] \<and> hd h \<noteq> CHR ''.'' \<and> list_all host_char h \<and>
    (\<forall>i. i + 2 < length h \<longrightarrow> \<not> (h ! i = CHR ''.'' \<and> h ! (i + 1) = CHR ''.''))"
proof -
  have "request_check_hostname (Some (Some ''www.example.org:80'')) = Some 0" by code_simp
  from hostname_accepted_shape [OF this] show ?thesis by simp
qed

text \<open>Where the check is more liberal than the grammar it quotes: anything may follow the
  bracket of an IPv6 literal, and a name may end in two dots.\<close>

theorem hostname_check_gaps:
  "request_check_hostname (Some (Some ''[::1]/../x'')) = Some 0 \<and>
   request_check_hostname (Some (Some ''a..'')) = Some 0"
  by code_simp

text \<open>Splitting a header value at commas is memory-safe for every value that does not start with
  a comma, and returns a well-formed array.\<close>

theorem split_value_safe:
  assumes "array_safe vals" "s = [] \<or> hd s \<noteq> CHR '',''"
  shows "\<exists>v. http_request_split_value gs vals (Some s) = Some v \<and> array_safe v"
  using assms by (rule http_request_split_value_safe)

theorem split_value_safe_witness:
  "\<exists>v. http_request_split_value (\<lambda>_. 0) array_init (Some ''keep-alive, TE'') = Some v \<and> array_safe v"
  using split_value_safe [OF array_init_safe, of "''keep-alive, TE''" "\<lambda>_. 0"] by simp

text \<open>A value that starts with a comma makes the splitter read the byte in front of the buffer.\<close>

theorem split_value_leading_comma:
  "http_request_split_value gs vals (Some (CHR '','' # s)) = None"
proof -
  have "skip_ws (CHR '','' # s @ [NUL]) (Suc (length s)) 0 = Some 0"
    by (subst skip_ws.simps) (simp add: mem_get_def is_ws_def)
  moreover have "find_comma (CHR '','' # s @ [NUL]) (Suc (length s)) 0 = Some 0"
    by (subst find_comma.simps) (simp add: mem_get_def)
  ultimately have "split_loop gs (CHR '','' # s @ [NUL]) (Suc (length s)) 1 0 vals = None"
    by (subst split_loop.simps) (simp add: split_one_def)
  with \<open>skip_ws _ _ _ = _\<close> show ?thesis
    by (simp add: http_request_split_value_def) (subst split_loop.simps, simp)
qed

end
