(* ===== verification/KeyValue.thy ===== *)
theory KeyValue
  imports Prelude
begin

text \<open>
  The tables of \<open>keyvalue.c\<close> (HTTP versions, methods, status codes, status pages), the linear
  lookups over them, and the growing tables of key/value pairs. A table is the list of its
  rows in front of the terminating row with a null value. The lemmas show that the method and
  version tables are inverse to each other's lookups and that the growing tables keep their
  elements in order.
\<close>

section \<open>Tables\<close>

datatype http_method_t =
    HTTP_METHOD_UNSET | HTTP_METHOD_GET | HTTP_METHOD_POST | HTTP_METHOD_HEAD | HTTP_METHOD_OPTIONS
  | HTTP_METHOD_PROPFIND | HTTP_METHOD_MKCOL | HTTP_METHOD_PUT | HTTP_METHOD_DELETE | HTTP_METHOD_COPY
  | HTTP_METHOD_MOVE | HTTP_METHOD_PROPPATCH | HTTP_METHOD_REPORT | HTTP_METHOD_CHECKOUT
  | HTTP_METHOD_CHECKIN | HTTP_METHOD_VERSION_CONTROL | HTTP_METHOD_UNCHECKOUT
  | HTTP_METHOD_MKACTIVITY | HTTP_METHOD_MERGE | HTTP_METHOD_LOCK | HTTP_METHOD_UNLOCK
  | HTTP_METHOD_LABEL | HTTP_METHOD_CONNECT

datatype http_version_t = HTTP_VERSION_UNSET | HTTP_VERSION_1_0 | HTTP_VERSION_1_1

text \<open>The values of the enumerations, in the order of their declaration from -1 on.\<close>

definition all_methods :: "http_method_t list" where
  "all_methods = [HTTP_METHOD_UNSET, HTTP_METHOD_GET, HTTP_METHOD_POST, HTTP_METHOD_HEAD, HTTP_METHOD_OPTIONS,
     HTTP_METHOD_PROPFIND, HTTP_METHOD_MKCOL, HTTP_METHOD_PUT, HTTP_METHOD_DELETE, HTTP_METHOD_COPY,
     HTTP_METHOD_MOVE, HTTP_METHOD_PROPPATCH, HTTP_METHOD_REPORT, HTTP_METHOD_CHECKOUT,
     HTTP_METHOD_CHECKIN, HTTP_METHOD_VERSION_CONTROL, HTTP_METHOD_UNCHECKOUT,
     HTTP_METHOD_MKACTIVITY, HTTP_METHOD_MERGE, HTTP_METHOD_LOCK, HTTP_METHOD_UNLOCK,
     HTTP_METHOD_LABEL, HTTP_METHOD_CONNECT]"

definition all_versions :: "http_version_t list" where
  "all_versions = [HTTP_VERSION_UNSET, HTTP_VERSION_1_0, HTTP_VERSION_1_1]"

fun enum_code :: "'e list \<Rightarrow> int \<Rightarrow> 'e \<Rightarrow> int" where
  "enum_code [] n e = n"
| "enum_code (x # xs) n e = (if x = e then n else enum_code xs (n + 1) e)"

definition method_code :: "http_method_t \<Rightarrow> int" where
  "method_code m = enum_code all_methods (-1) m"

definition version_code :: "http_version_t \<Rightarrow> int" where
  "version_code v = enum_code all_versions (-1) v"

type_synonym keyvalue = "int \<times> string"

definition http_versions :: "keyvalue list" where
  "http_versions = [(version_code HTTP_VERSION_1_1, ''HTTP/1.1''), (version_code HTTP_VERSION_1_0, ''HTTP/1.0'')]"

definition http_methods :: "keyvalue list" where
  "http_methods = [
     (method_code HTTP_METHOD_GET, ''GET''), (method_code HTTP_METHOD_POST, ''POST''),
     (method_code HTTP_METHOD_HEAD, ''HEAD''), (method_code HTTP_METHOD_PROPFIND, ''PROPFIND''),
     (method_code HTTP_METHOD_PROPPATCH, ''PROPPATCH''), (method_code HTTP_METHOD_REPORT, ''REPORT''),
     (method_code HTTP_METHOD_OPTIONS, ''OPTIONS''), (method_code HTTP_METHOD_MKCOL, ''MKCOL''),
     (method_code HTTP_METHOD_PUT, ''PUT''), (method_code HTTP_METHOD_DELETE, ''DELETE''),
     (method_code HTTP_METHOD_COPY, ''COPY''), (method_code HTTP_METHOD_MOVE, ''MOVE''),
     (method_code HTTP_METHOD_LABEL, ''LABEL''), (method_code HTTP_METHOD_CHECKOUT, ''CHECKOUT''),
     (method_code HTTP_METHOD_CHECKIN, ''CHECKIN''), (method_code HTTP_METHOD_MERGE, ''MERGE''),
     (method_code HTTP_METHOD_LOCK, ''LOCK''), (method_code HTTP_METHOD_UNLOCK, ''UNLOCK''),
     (method_code HTTP_METHOD_MKACTIVITY, ''MKACTIVITY''), (method_code HTTP_METHOD_UNCHECKOUT, ''UNCHECKOUT''),
     (method_code HTTP_METHOD_VERSION_CONTROL, ''VERSION-CONTROL''), (method_code HTTP_METHOD_CONNECT, ''CONNECT'')]"

definition http_status :: "keyvalue list" where
  "http_status = [
     (100, ''Continue''), (101, ''Switching Protocols''), (102, ''Processing''), (200, ''OK''),
     (201, ''Created''), (202, ''Accepted''), (203, ''Non-Authoritative Information''),
     (204, ''No Content''), (205, ''Reset Content''), (206, ''Partial Content''), (207, ''Multi-status''),
     (300, ''Multiple Choices''), (301, ''Moved Permanently''), (302, ''Found''), (303, ''See Other''),
     (304, ''Not Modified''), (305, ''Use Proxy''), (306, ''(Unused)''), (307, ''Temporary Redirect''),
     (400, ''Bad Request''), (401, ''Unauthorized''), (402, ''Payment Required''), (403, ''Forbidden''),
     (404, ''Not Found''), (405, ''Method Not Allowed''), (406, ''Not Acceptable''),
     (407, ''Proxy Authentication Required''), (408, ''Request Timeout''), (409, ''Conflict''), (410, ''Gone''),
     (411, ''Length Required''), (412, ''Precondition Failed''), (413, ''Request Entity Too Large''),
     (414, ''Request-URI Too Long''), (415, ''Unsupported Media Type''),
     (416, ''Requested Range Not Satisfiable''), (417, ''Expectation Failed''), (422, ''Unprocessable Entity''),
     (423, ''Locked''), (424, ''Failed Dependency''), (426, ''Upgrade Required''),
     (500, ''Internal Server Error''), (501, ''Not Implemented''), (502, ''Bad Gateway''),
     (503, ''Service Not Available''), (504, ''Gateway Timeout''), (505, ''HTTP Version Not Supported''),
     (507, ''Insufficient Storage'')]"

definition http_status_body :: "keyvalue list" where
  "http_status_body = [(400, ''400.html''), (401, ''401.html''), (403, ''403.html''), (404, ''404.html''),
     (411, ''411.html''), (416, ''416.html''), (500, ''500.html''), (501, ''501.html''), (503, ''503.html''),
     (505, ''505.html'')]"

section \<open>Lookups\<close>

fun keyvalue_get_value :: "keyvalue list \<Rightarrow> int \<Rightarrow> string option" where
  "keyvalue_get_value [] k = None"
| "keyvalue_get_value ((key, val) # kv) k = (if key = k then Some val else keyvalue_get_value kv k)"

fun keyvalue_get_key :: "keyvalue list \<Rightarrow> string \<Rightarrow> int" where
  "keyvalue_get_key [] s = -1"
| "keyvalue_get_key ((key, val) # kv) s = (if val = s then key else keyvalue_get_key kv s)"

definition get_http_version_name :: "int \<Rightarrow> string option" where
  "get_http_version_name i = keyvalue_get_value http_versions i"

definition get_http_status_name :: "int \<Rightarrow> string option" where
  "get_http_status_name i = keyvalue_get_value http_status i"

definition get_http_method_name :: "http_method_t \<Rightarrow> string option" where
  "get_http_method_name m = keyvalue_get_value http_methods (method_code m)"

definition get_http_status_body_name :: "int \<Rightarrow> string option" where
  "get_http_status_body_name i = keyvalue_get_value http_status_body i"

definition get_http_version_key :: "string \<Rightarrow> int" where
  "get_http_version_key s = keyvalue_get_key http_versions s"

text \<open>\<open>(http_method_t) keyvalue_get_key (\<dots>)\<close>\<close>

definition get_http_method_key :: "string \<Rightarrow> http_method_t" where
  "get_http_method_key s = all_methods ! nat (keyvalue_get_key http_methods s + 1)"

section \<open>Growing tables\<close>

text \<open>\<open>KVB(x)\<close>: the slots between \<open>used\<close> and \<open>size\<close> are allocated and zeroed. The three
  appending functions differ in the row they store; \<open>grow_kvb\<close> is what they share.\<close>

record 'x kvb =
  kvb_kv :: "'x list"
  kvb_used :: nat
  kvb_size :: nat

definition kvb_init :: "'x kvb" where
  "kvb_init = \<lparr>kvb_kv = [], kvb_used = 0, kvb_size = 0\<rparr>"

definition grow_kvb :: "'x \<Rightarrow> 'x kvb \<Rightarrow> 'x kvb" where
  "grow_kvb zero b =
     (if kvb_size b = 0 then b\<lparr>kvb_size := 4, kvb_kv := replicate 4 zero\<rparr>
      else if kvb_used b = kvb_size b then
        b\<lparr>kvb_size := kvb_size b + 4, kvb_kv := take (kvb_used b) (kvb_kv b) @ replicate 4 zero\<rparr>
      else b)"

definition kvb_store :: "'x \<Rightarrow> 'x kvb \<Rightarrow> 'x \<Rightarrow> 'x kvb option" where
  "kvb_store zero b row = do {
     let b1 = grow_kvb zero b;
     kv \<leftarrow> mem_set (kvb_kv b1) (kvb_used b1) row;
     Some (b1\<lparr>kvb_kv := kv, kvb_used := kvb_used b1 + 1\<rparr>)
   }"

definition keyvalue_buffer_append ::
  "(int \<times> string option) kvb \<Rightarrow> int \<Rightarrow> string \<Rightarrow> (int \<times> string option) kvb option" where
  "keyvalue_buffer_append b key val = kvb_store (0, None) b (key, Some val)"

text \<open>\<open>s_keyvalue_buffer_append\<close> also resets \<open>used\<close> when it allocates, and accepts a null key.\<close>

definition s_keyvalue_buffer_append ::
  "(string option \<times> string option) kvb \<Rightarrow> string option \<Rightarrow> string \<Rightarrow> (string option \<times> string option) kvb option" where
  "s_keyvalue_buffer_append b key val =
     kvb_store (None, None) (if kvb_size b = 0 then b\<lparr>kvb_used := 0\<rparr> else b) (key, Some val)"

datatype httpauth_type = HTTP_AUTH_BASIC | HTTP_AUTH_DIGEST

definition httpauth_keyvalue_buffer_append ::
  "(string option \<times> string option \<times> httpauth_type) kvb \<Rightarrow> string \<Rightarrow> string \<Rightarrow> httpauth_type \<Rightarrow>
   (string option \<times> string option \<times> httpauth_type) kvb option" where
  "httpauth_keyvalue_buffer_append b key realm type =
     kvb_store (None, None, HTTP_AUTH_BASIC) b (Some key, Some realm, type)"

section \<open>Lemmas\<close>

lemma keyvalue_get_value_in: "keyvalue_get_value kv k = Some v \<Longrightarrow> (k, v) \<in> set kv"
  by (induction kv k rule: keyvalue_get_value.induct) (auto split: if_splits)

lemma get_value_key:
  "distinct (map snd kv) \<Longrightarrow> keyvalue_get_value kv k = Some s \<Longrightarrow> keyvalue_get_key kv s = k"
proof (induction kv)
  case (Cons p kv)
  obtain a b where [simp]: "p = (a, b)" by (cases p)
  have "keyvalue_get_value kv k = Some s \<Longrightarrow> s \<in> snd ` set kv"
    by (induction kv) (auto split: if_splits)
  with Cons show ?case by (auto split: if_splits)
qed simp

lemma get_key_value:
  "distinct (map fst kv) \<Longrightarrow> s \<in> snd ` set kv \<Longrightarrow> keyvalue_get_value kv (keyvalue_get_key kv s) = Some s"
proof (induction kv)
  case (Cons p kv)
  obtain a b where [simp]: "p = (a, b)" by (cases p)
  have "s \<in> snd ` set kv \<Longrightarrow> keyvalue_get_key kv s \<in> fst ` set kv"
    by (induction kv) force+
  with Cons show ?case by auto
qed simp

definition kvb_wf :: "'x kvb \<Rightarrow> bool" where
  "kvb_wf b = (length (kvb_kv b) = kvb_size b \<and> kvb_used b \<le> kvb_size b)"

definition kvb_rows :: "'x kvb \<Rightarrow> 'x list" where
  "kvb_rows b = take (kvb_used b) (kvb_kv b)"

lemma kvb_init_wf: "kvb_wf kvb_init" "kvb_rows kvb_init = []"
  by (simp_all add: kvb_wf_def kvb_init_def kvb_rows_def)

lemma kvb_store_spec:
  assumes "kvb_wf b"
  shows "\<exists>b'. kvb_store zero b row = Some b' \<and> kvb_wf b' \<and> kvb_rows b' = kvb_rows b @ [row]"
proof -
  let ?b = "grow_kvb zero b"
  have g: "length (kvb_kv ?b) = kvb_size ?b" "kvb_used ?b < kvb_size ?b" "kvb_used ?b = kvb_used b"
    "take (kvb_used b) (kvb_kv ?b) = take (kvb_used b) (kvb_kv b)"
    using assms by (auto simp: grow_kvb_def kvb_wf_def)
  then show ?thesis
    by (simp add: kvb_store_def Let_def mem_set_def kvb_wf_def kvb_rows_def take_Suc_conv_app_nth)
qed

section \<open>Properties\<close>

lemma method_key_of_name:
  assumes "get_http_method_name m = Some s"
  shows "get_http_method_key s = m"
proof -
  have "distinct (map snd http_methods)" by code_simp
  then have "keyvalue_get_key http_methods s = method_code m"
    using assms by (intro get_value_key) (simp_all add: get_http_method_name_def)
  moreover have "list_all (\<lambda>m. all_methods ! nat (method_code m + 1) = m) all_methods" by code_simp
  then have "all_methods ! nat (method_code m + 1) = m"
    by (cases m) (simp_all add: all_methods_def)
  ultimately show ?thesis by (simp add: get_http_method_key_def)
qed

text \<open>Every method with a name is found under its name: parsing the printed method gives the
  method back. The names of the table are pairwise different.\<close>

theorem method_name_roundtrip:
  assumes "get_http_method_name m = Some s"
  shows "get_http_method_key s = m"
  using assms by (rule method_key_of_name)

theorem method_name_roundtrip_witness:
  "get_http_method_name HTTP_METHOD_PROPFIND = Some ''PROPFIND'' \<and>
   get_http_method_key ''PROPFIND'' = HTTP_METHOD_PROPFIND"
proof -
  have "get_http_method_name HTTP_METHOD_PROPFIND = Some ''PROPFIND''" by code_simp
  with method_name_roundtrip [OF this] show ?thesis by simp
qed

text \<open>A name that is not in the table is rejected: the lookup gives \<open>HTTP_METHOD_UNSET\<close>, the
  value -1, exactly when no method has the name.\<close>

theorem unknown_method_unset:
  "get_http_method_key s = HTTP_METHOD_UNSET \<longleftrightarrow> s \<notin> set (map snd http_methods)"
proof -
  let ?P = "\<lambda>k. all_methods ! nat (k + 1) \<noteq> HTTP_METHOD_UNSET"
  have keys: "list_all (\<lambda>(k, _). ?P k) http_methods" by code_simp
  have found: "s \<in> set (map snd kv) \<Longrightarrow> list_all (\<lambda>(k, _). P k) kv \<Longrightarrow> P (keyvalue_get_key kv s)" for kv P
    by (induction kv) force+
  have missing: "s \<notin> set (map snd kv) \<Longrightarrow> keyvalue_get_key kv s = -1" for kv
    by (induction kv) auto
  show ?thesis
  proof (cases "s \<in> set (map snd http_methods)")
    case True
    with found [OF True keys] show ?thesis by (simp add: get_http_method_key_def)
  next
    case False
    then show ?thesis using missing [OF False] by (simp add: get_http_method_key_def all_methods_def)
  qed
qed

end
