(* ===== verification/Request.thy ===== *)
theory Request
  imports RequestHost KeyValue
begin

text \<open>
  The request parser \<open>http_request_parse\<close> and \<open>http_request_header_finished\<close> of \<open>request.c\<close>. The
  records hold the fields of \<open>server\<close>, \<open>connection\<close> and \<open>request\<close> that the parser reads or writes;
  calls of the log are left out. The parser works in place on the block of \<open>con->parse_request\<close>,
  which the model keeps as a list with checked accesses, and on the local variables of the C
  function, the fields of \<open>hparse\<close>. Pointers into the block are offsets.

  \<open>http_host\<close>, \<open>http_range\<close> and the like point into an element of the header array: a \<open>vref\<close> is the
  slot of that element and a flag that says whether the pointer may still be followed. A pointer to
  the characters of a value is lost when a continuation line is appended to the value, because the
  block may move; a pointer to an element is lost when the element is merged into another one and
  freed. Following a lost pointer is a fault.
\<close>

section \<open>Numbers of the C library\<close>

definition c_isspace :: "char \<Rightarrow> bool" where
  "c_isspace c = (uchar c = 32 \<or> (9 \<le> uchar c \<and> uchar c \<le> 13))"

definition c_isdigit :: "char \<Rightarrow> bool" where
  "c_isdigit c = (48 \<le> uchar c \<and> uchar c \<le> 57)"

text \<open>Sign, digits and rest of the number at the start of a string; \<open>strtol\<close> and \<open>strtoul\<close> for base
  10 saturate, and point to the start of the string when there is no digit.\<close>

definition scan_num :: "string \<Rightarrow> (bool \<times> nat \<times> string) option" where
  "scan_num s =
     (let t = dropWhile c_isspace s;
          neg = (t \<noteq> [] \<and> hd t = CHR ''-'');
          u = (if t \<noteq> [] \<and> (hd t = CHR ''-'' \<or> hd t = CHR ''+'') then tl t else t);
          ds = takeWhile c_isdigit u
      in if ds = [] then None else Some (neg, digits_value ds, dropWhile c_isdigit u))"

definition c_strtol :: "string \<Rightarrow> int \<times> string" where
  "c_strtol s = (case scan_num s of
     None \<Rightarrow> (0, s)
   | Some (neg, n, rest) \<Rightarrow>
       (if neg then max (- (2 ^ 63)) (- int n) else min (2 ^ 63 - 1) (int n), rest))"

definition c_strtoul :: "string \<Rightarrow> nat \<times> string" where
  "c_strtoul s = (case scan_num s of
     None \<Rightarrow> (0, s)
   | Some (neg, n, rest) \<Rightarrow>
       (if n \<ge> 2 ^ 64 then 2 ^ 64 - 1 else if neg then (2 ^ 64 - n) mod 2 ^ 64 else n, rest))"

lemma c_strtoul_code [code]: "c_strtoul s = (case scan_num s of
     None \<Rightarrow> (0, s)
   | Some (neg, n, rest) \<Rightarrow>
       (if int n \<ge> 2 ^ 64 then 2 ^ 64 - 1 else if neg then (2 ^ 64 - n) mod 2 ^ 64 else n, rest))"
proof -
  have "(int n \<ge> 2 ^ 64) = (n \<ge> 2 ^ 64)" for n by simp
  then show ?thesis unfolding c_strtoul_def by presburger
qed

text \<open>The assignment of a \<open>long\<close> to an \<open>int\<close>.\<close>

definition int_of_long :: "int \<Rightarrow> int" where
  "int_of_long v = signed_take_bit 31 v"

section \<open>State\<close>

datatype vref = VRef nat bool

record request =
  rq_request :: bstr
  rq_uri :: bstr
  rq_orig_uri :: bstr
  rq_http_method :: http_method_t
  rq_http_version :: http_version_t
  rq_request_line :: bstr
  rq_http_host :: "vref option"
  rq_http_range :: "vref option"
  rq_http_content_type :: "vref option"
  rq_http_if_modified_since :: "vref option"
  rq_http_if_none_match :: "vref option"
  rq_headers :: array
  rq_content_length :: nat

record connection =
  co_request :: request
  co_parse_request :: bstr
  co_request_count :: nat
  co_keep_alive :: bool
  co_response_keep_alive :: bool
  co_http_status :: int
  co_header_len :: nat
  co_allow_http11 :: bool

record server =
  sv_max_request_size :: nat
  sv_split_vals :: array

datatype conn_hdr = HTTP_CONNECTION_UNSET | HTTP_CONNECTION_KEEPALIVE | HTTP_CONNECTION_CLOSE

abbreviation upd_request :: "(request \<Rightarrow> request) \<Rightarrow> connection \<Rightarrow> connection" where
  "upd_request f con \<equiv> con\<lparr>co_request := f (co_request con)\<rparr>"

text \<open>The two shapes of an error return: with and without \<open>con->response.keep_alive = 0\<close>.\<close>

definition fail_close :: "int \<Rightarrow> connection \<Rightarrow> connection" where
  "fail_close status con = con\<lparr>co_http_status := status, co_response_keep_alive := False, co_keep_alive := False\<rparr>"

definition fail :: "int \<Rightarrow> connection \<Rightarrow> connection" where
  "fail status con = con\<lparr>co_http_status := status, co_keep_alive := False\<rparr>"

section \<open>The request line\<close>

text \<open>\<open>HTTP/\<close> major \<open>.\<close> minor, after the test for \<open>HTTP/\<close>: \<open>None\<close> is \<open>invalid_version\<close>.\<close>

definition parse_version :: "string \<Rightarrow> (int \<times> int) option" where
  "parse_version major =
     (let before = takeWhile (\<lambda>c. c \<noteq> CHR ''.'') major;
          after = drop (length before + 1) major
      in if CHR ''.'' \<notin> set major \<or> before = [] \<or> after = [] then None
         else
           (case (c_strtol before, c_strtol after) of
              ((ma, e1), (mi, e2)) \<Rightarrow>
                if e1 \<noteq> [] \<or> e2 \<noteq> [] then None else Some (int_of_long ma, int_of_long mi)))"

text \<open>The version of the request: \<open>Inl\<close> is an error return.\<close>

definition set_version :: "string \<Rightarrow> connection \<Rightarrow> connection + connection" where
  "set_version proto con =
     (if take 5 proto = ''HTTP/'' then
        (case parse_version (drop 5 proto) of
           None \<Rightarrow> Inl (fail 400 con)
         | Some (major_num, minor_num) \<Rightarrow>
             if major_num = 1 \<and> minor_num = 1 then
               Inr (upd_request (\<lambda>r. r\<lparr>rq_http_version :=
                      (if co_allow_http11 con then HTTP_VERSION_1_1 else HTTP_VERSION_1_0)\<rparr>) con)
             else if major_num = 1 \<and> minor_num = 0 then
               Inr (upd_request (\<lambda>r. r\<lparr>rq_http_version := HTTP_VERSION_1_0\<rparr>) con)
             else Inl (con\<lparr>co_http_status := 505\<rparr>))
      else Inl (fail 400 con))"

text \<open>\<open>strchr (s, c)\<close> as an offset.\<close>

definition c_strchr :: "string \<Rightarrow> char \<Rightarrow> nat option" where
  "c_strchr s c = (let k = length (takeWhile (\<lambda>d. d \<noteq> c) s) in if k < length s then Some k else None)"

text \<open>The URI between the two spaces, without the host part of an absolute one. A negative length
  would be a fault.\<close>

definition set_uri :: "char list \<Rightarrow> nat \<Rightarrow> nat \<Rightarrow> connection \<Rightarrow> connection option" where
  "set_uri m uri proto con = do {
     let u = c_str (drop uri m);
     let start = (if take 7 u = ''http://'' then
                    (case c_strchr (drop 7 u) CHR ''/'' of None \<Rightarrow> uri | Some k \<Rightarrow> uri + 7 + k)
                  else uri);
     (if proto < start + 1 then None
      else do {
        v \<leftarrow> mem_read (drop start m) (proto - start - 1);
        Some (upd_request (\<lambda>r. r\<lparr>rq_uri := Some v\<rparr>) con)
      })
   }"

text \<open>What happens at the end of the request line, at offset \<open>i\<close>: \<open>Inl\<close> is \<open>return 0\<close>.\<close>

definition request_line_end ::
  "char list \<Rightarrow> nat \<Rightarrow> nat \<Rightarrow> nat \<Rightarrow> nat \<Rightarrow> nat \<Rightarrow> connection \<Rightarrow> (connection + connection \<times> char list) option" where
  "request_line_end m i first stage meth uri con0 = do {
     m1 \<leftarrow> mem_set m i NUL;
     m2 \<leftarrow> mem_set m1 (i + 1) NUL;
     line \<leftarrow> mem_read m2 i;
     let con = upd_request (\<lambda>r. r\<lparr>rq_request_line := Some line\<rparr>) con0;
     (if stage \<noteq> 2 then Some (Inl (fail_close 400 con))
      else if uri = 0 \<or> first = 0 then None
      else do {
        m3 \<leftarrow> mem_set m2 (uri - 1) NUL;
        m4 \<leftarrow> mem_set m3 (first - 1) NUL;
        let r = get_http_method_key (c_str (drop meth m4));
        (if r = HTTP_METHOD_UNSET then Some (Inl (fail_close 501 con))
         else
           (case set_version (c_str (drop first m4)) (upd_request (\<lambda>q. q\<lparr>rq_http_method := r\<rparr>) con) of
              Inl con1 \<Rightarrow> Some (Inl con1)
            | Inr con1 \<Rightarrow> do {
                con2 \<leftarrow> set_uri m4 uri first con1;
                (if list_all request_uri_is_valid_char (bs_str (rq_uri (co_request con2)))
                 then Some (Inr ((upd_request (\<lambda>q. q\<lparr>rq_orig_uri := rq_uri q\<rparr>) con2)\<lparr>co_http_status := 0\<rparr>, m4))
                 else Some (Inl (fail 400 con2)))
              }))
      })
   }"

text \<open>The first loop. \<open>Inl\<close> is \<open>return 0\<close>, \<open>Inr (con, m, i, first)\<close> the state after the loop.\<close>

function request_line_loop ::
  "char list \<Rightarrow> nat \<Rightarrow> nat \<Rightarrow> nat \<Rightarrow> nat \<Rightarrow> nat \<Rightarrow> nat \<Rightarrow> connection \<Rightarrow>
   (connection + connection \<times> char list \<times> nat \<times> nat) option" where
  "request_line_loop m used i first stage meth uri con =
     (if i < used then do {
        c \<leftarrow> mem_get m i;
        (if c = CR then do {
           c1 \<leftarrow> mem_get m (i + 1);
           (if c1 = LF then do {
              r \<leftarrow> request_line_end m i first stage meth uri con;
              (case r of
                 Inl con1 \<Rightarrow> Some (Inl con1)
               | Inr (con1, m1) \<Rightarrow> Some (Inr (con1, m1, i + 2, i + 2)))
            }
            else request_line_loop m used (i + 1) first stage meth uri con)
         }
         else if c = CHR '' '' then
           (if stage = 0 then request_line_loop m used (i + 1) (i + 1) 1 first uri con
            else if stage = 1 then request_line_loop m used (i + 1) (i + 1) 2 meth first con
            else Some (Inl (fail_close 400 con)))
         else request_line_loop m used (i + 1) first stage meth uri con)
      }
      else Some (Inr (con, m, i, first)))"
  by pat_completeness auto
termination
  by (relation "measure (\<lambda>(m, used, i, first, stage, meth, uri, con). used - i)") auto

declare request_line_loop.simps [simp del]

section \<open>Header fields with a meaning\<close>

datatype hdr_kind =
    H_CONNECTION | H_CONTENT_LENGTH | H_CONTENT_TYPE | H_EXPECT | H_HOST | H_IF_MODIFIED_SINCE
  | H_IF_NONE_MATCH | H_RANGE | H_OTHER

text \<open>The sorted list of names the parser looks for.\<close>

definition hdr_names :: "(string \<times> hdr_kind) list" where
  "hdr_names = [(''Connection'', H_CONNECTION), (''Content-Length'', H_CONTENT_LENGTH),
     (''Content-Type'', H_CONTENT_TYPE), (''Expect'', H_EXPECT), (''Host'', H_HOST),
     (''If-Modified-Since'', H_IF_MODIFIED_SINCE), (''If-None-Match'', H_IF_NONE_MATCH), (''Range'', H_RANGE)]"

text \<open>\<open>if (0 == (cmp = \<dots>)) \<dots> else if (cmp > 0 && 0 == (cmp = \<dots>)) \<dots>\<close>: the next name is tried only
  while the key sorts behind the last one. \<open>al\<close> says which of the literals are aligned.\<close>

fun match_hdr :: "(string \<Rightarrow> bool) \<Rightarrow> string \<Rightarrow> (string \<times> hdr_kind) list \<Rightarrow> hdr_kind" where
  "match_hdr al key [] = H_OTHER"
| "match_hdr al key ((name, k) # names) =
     (let cmp = buffer_caseless_compare (al name) key name in
      if cmp = 0 then k else if cmp > 0 then match_hdr al key names else H_OTHER)"

text \<open>The values of a \<open>Connection\<close> header, up to the first one that is known.\<close>

fun connection_vals :: "(string \<Rightarrow> bool) \<Rightarrow> nat \<Rightarrow> data_unset option list \<Rightarrow> conn_hdr \<Rightarrow> conn_hdr option" where
  "connection_vals al 0 _ ka = Some ka"
| "connection_vals al (Suc n) (Some du # d) ka = do {
     v \<leftarrow> ds_value du;
     (if buffer_caseless_compare (al ''keep-alive'') (bs_str v) ''keep-alive'' = 0 then Some HTTP_CONNECTION_KEEPALIVE
      else if buffer_caseless_compare (al ''close'') (bs_str v) ''close'' = 0 then Some HTTP_CONNECTION_CLOSE
      else connection_vals al n d ka)
   }"
| "connection_vals al (Suc n) _ ka = None"

section \<open>The local state of the header loop\<close>

record hparse =
  hp_m :: "char list"
  hp_i :: nat
  hp_first :: nat
  hp_is_key :: bool
  hp_key_len :: nat
  hp_is_ws_after_key :: bool
  hp_value :: "nat option"
  hp_key :: "nat option"
  hp_in_folding :: bool
  hp_con_length_set :: bool
  hp_keep_alive_set :: conn_hdr
  hp_done :: bool
  hp_con :: connection
  hp_srv :: server

text \<open>A step either returns from \<open>http_request_parse\<close> (\<open>Inl\<close>) or goes on.\<close>

type_synonym hstep = "((connection \<times> server) + hparse) option"

abbreviation hp_return :: "hparse \<Rightarrow> connection \<Rightarrow> hstep" where
  "hp_return st con \<equiv> Some (Inl (con, hp_srv st))"

definition vref_value :: "array \<Rightarrow> vref \<Rightarrow> bstr option" where
  "vref_value a r = (case r of VRef n valid \<Rightarrow>
     if valid then do {
       slot \<leftarrow> mem_get (a_data a) n;
       du \<leftarrow> slot;
       ds_value du
     }
     else None)"

text \<open>\<open>array_insert_unique(con->request.headers, ds)\<close>, and the pointer to the inserted element.\<close>

definition insert_header :: "(nat \<Rightarrow> nat) \<Rightarrow> connection \<Rightarrow> data_unset \<Rightarrow> (vref \<times> connection) option" where
  "insert_header gs con ds = do {
     let n = a_used (rq_headers (co_request con));
     (_, h) \<leftarrow> array_insert_unique gs (rq_headers (co_request con)) ds;
     Some (VRef n (a_used h = n + 1), upd_request (\<lambda>r. r\<lparr>rq_headers := h\<rparr>) con)
   }"

text \<open>The error returns of a header field: the element is inserted so that it is not leaked.\<close>

definition insert_return :: "(nat \<Rightarrow> nat) \<Rightarrow> hparse \<Rightarrow> connection \<Rightarrow> data_unset \<Rightarrow> hstep" where
  "insert_return gs st con ds = do {
     (_, con1) \<leftarrow> insert_header gs con ds;
     hp_return st con1
   }"

definition insert_go :: "(nat \<Rightarrow> nat) \<Rightarrow> hparse \<Rightarrow> data_unset \<Rightarrow> (vref \<Rightarrow> request \<Rightarrow> request) \<Rightarrow> hstep" where
  "insert_go gs st ds point = do {
     (ref, con1) \<leftarrow> insert_header gs (hp_con st) ds;
     Some (Inr (st\<lparr>hp_con := upd_request (point ref) con1\<rparr>))
   }"

section \<open>One header field\<close>

definition handle_connection :: "(string \<Rightarrow> bool) \<Rightarrow> (nat \<Rightarrow> nat) \<Rightarrow> hparse \<Rightarrow> data_unset \<Rightarrow> hstep" where
  "handle_connection al gs st ds = do {
     vp \<leftarrow> array_reset (Some (sv_split_vals (hp_srv st)));
     vals0 \<leftarrow> vp;
     v \<leftarrow> ds_value ds;
     vals \<leftarrow> http_request_split_value gs vals0 v;
     ka \<leftarrow> connection_vals al (a_used vals) (a_data vals) (hp_keep_alive_set st);
     insert_go gs (st\<lparr>hp_srv := (hp_srv st)\<lparr>sv_split_vals := vals\<rparr>, hp_keep_alive_set := ka\<rparr>) ds (\<lambda>_ r. r)
   }"

definition handle_content_length :: "(nat \<Rightarrow> nat) \<Rightarrow> hparse \<Rightarrow> data_unset \<Rightarrow> hstep" where
  "handle_content_length gs st ds =
     (if hp_con_length_set st then insert_return gs st (fail 400 (hp_con st)) ds
      else do {
        vb \<leftarrow> ds_value ds;
        v \<leftarrow> vb;
        (if \<not> list_all c_isdigit v then insert_return gs st (fail 400 (hp_con st)) ds
         else
           (case c_strtoul (c_str v) of (r, err) \<Rightarrow>
              if err = [] then
                insert_go gs (st\<lparr>hp_con_length_set := True\<rparr>) ds (\<lambda>_ q. q\<lparr>rq_content_length := r\<rparr>)
              else insert_return gs st (fail 400 (hp_con st)) ds))
      })"

definition handle_content_type :: "(nat \<Rightarrow> nat) \<Rightarrow> hparse \<Rightarrow> data_unset \<Rightarrow> hstep" where
  "handle_content_type gs st ds =
     (if rq_http_content_type (co_request (hp_con st)) = None
      then insert_go gs st ds (\<lambda>ref q. q\<lparr>rq_http_content_type := Some ref\<rparr>)
      else insert_return gs st (fail 400 (hp_con st)) ds)"

definition handle_host :: "(nat \<Rightarrow> nat) \<Rightarrow> hparse \<Rightarrow> data_unset \<Rightarrow> hstep" where
  "handle_host gs st ds =
     (if rq_http_host (co_request (hp_con st)) = None
      then insert_go gs st ds (\<lambda>ref q. q\<lparr>rq_http_host := Some ref\<rparr>)
      else insert_return gs st (fail 400 (hp_con st)) ds)"

text \<open>A second \<open>If-Modified-Since\<close> is dropped when \<open>strcasecmp\<close> finds it equal to the first.\<close>

definition handle_if_modified_since :: "(nat \<Rightarrow> nat) \<Rightarrow> hparse \<Rightarrow> data_unset \<Rightarrow> hstep" where
  "handle_if_modified_since gs st ds =
     (case rq_http_if_modified_since (co_request (hp_con st)) of
        None \<Rightarrow> insert_go gs st ds (\<lambda>ref q. q\<lparr>rq_http_if_modified_since := Some ref\<rparr>)
      | Some ref \<Rightarrow> do {
          old \<leftarrow> vref_value (rq_headers (co_request (hp_con st))) ref;
          new \<leftarrow> ds_value ds;
          (if map lower_char (c_str (bs_str old)) = map lower_char (c_str (bs_str new))
           then Some (Inr st)
           else insert_return gs st (fail 400 (hp_con st)) ds)
        })"

definition handle_if_none_match :: "(nat \<Rightarrow> nat) \<Rightarrow> hparse \<Rightarrow> data_unset \<Rightarrow> hstep" where
  "handle_if_none_match gs st ds =
     (if rq_http_if_none_match (co_request (hp_con st)) = None
      then insert_go gs st ds (\<lambda>ref q. q\<lparr>rq_http_if_none_match := Some ref\<rparr>)
      else insert_return gs st (fail 400 (hp_con st)) ds)"

definition handle_range :: "(nat \<Rightarrow> nat) \<Rightarrow> hparse \<Rightarrow> data_unset \<Rightarrow> hstep" where
  "handle_range gs st ds =
     (if rq_http_range (co_request (hp_con st)) = None then do {
        v \<leftarrow> ds_value ds;
        let t = c_str (bs_str v);
        (if map lower_char (take 6 t) = ''bytes='' \<and> CHR ''-'' \<in> set (drop 6 t)
         then insert_go gs st ds (\<lambda>ref q. q\<lparr>rq_http_range := Some ref\<rparr>)
         else insert_go gs st ds (\<lambda>_ q. q))
      }
      else insert_return gs st (fail 400 (hp_con st)) ds)"

definition handle_header :: "(string \<Rightarrow> bool) \<Rightarrow> (nat \<Rightarrow> nat) \<Rightarrow> hparse \<Rightarrow> data_unset \<Rightarrow> hstep" where
  "handle_header al gs st ds =
     (case match_hdr al (bs_str (du_key ds)) hdr_names of
        H_CONNECTION \<Rightarrow> handle_connection al gs st ds
      | H_CONTENT_LENGTH \<Rightarrow> handle_content_length gs st ds
      | H_CONTENT_TYPE \<Rightarrow> handle_content_type gs st ds
      | H_EXPECT \<Rightarrow> insert_return gs st (fail 417 (hp_con st)) ds
      | H_HOST \<Rightarrow> handle_host gs st ds
      | H_IF_MODIFIED_SINCE \<Rightarrow> handle_if_modified_since gs st ds
      | H_IF_NONE_MATCH \<Rightarrow> handle_if_none_match gs st ds
      | H_RANGE \<Rightarrow> handle_range gs st ds
      | H_OTHER \<Rightarrow> insert_go gs st ds (\<lambda>_ q. q))"

section \<open>The end of a header line\<close>

text \<open>\<open>for (; s_len > 0 && (value[s_len - 1] == ' ' || value[s_len - 1] == '\t'); s_len--);\<close>\<close>

fun strip_len :: "char list \<Rightarrow> nat \<Rightarrow> nat \<Rightarrow> nat option" where
  "strip_len m v 0 = Some 0"
| "strip_len m v (Suc n) = do {
     c \<leftarrow> mem_get m (v + n);
     (if is_ws c then strip_len m v n else Some (Suc n))
   }"

text \<open>Pointers to the characters of the element in slot \<open>n\<close> are lost.\<close>

definition lose_chars :: "nat \<Rightarrow> vref option \<Rightarrow> vref option" where
  "lose_chars n r = (case r of Some (VRef k valid) \<Rightarrow> Some (VRef k (valid \<and> k \<noteq> n)) | None \<Rightarrow> None)"

definition lose_value :: "nat \<Rightarrow> request \<Rightarrow> request" where
  "lose_value n r = r\<lparr>rq_http_range := lose_chars n (rq_http_range r),
     rq_http_content_type := lose_chars n (rq_http_content_type r),
     rq_http_if_modified_since := lose_chars n (rq_http_if_modified_since r),
     rq_http_if_none_match := lose_chars n (rq_http_if_none_match r)\<rparr>"

text \<open>A continuation line is appended to the value of the last key, when there is an element.\<close>

definition fold_line :: "hparse \<Rightarrow> nat \<Rightarrow> hstep" where
  "fold_line st v =
     (case hp_key st of
        None \<Rightarrow> hp_return st (fail_close 400 (hp_con st))
      | Some key \<Rightarrow>
          if hp_key_len st = 0 then hp_return st (fail_close 400 (hp_con st))
          else do {
            kb \<leftarrow> mem_read (drop key (hp_m st)) (hp_key_len st);
            let h = rq_headers (co_request (hp_con st));
            (ndx, _) \<leftarrow> array_get_index True h (Some (c_str kb @ [NUL])) 0;
            (if ndx = -1 then Some (Inr st)
             else do {
               slot \<leftarrow> mem_get (a_data h) (nat ndx);
               ds \<leftarrow> slot;
               old \<leftarrow> ds_value ds;
               l \<leftarrow> c_strlen (drop v (hp_m st));
               ds' \<leftarrow> ds_set_value ds (bs_str old @ take l (drop v (hp_m st)));
               d \<leftarrow> mem_set (a_data h) (nat ndx) (Some ds');
               Some (Inr (st\<lparr>hp_con := upd_request (\<lambda>r. lose_value (nat ndx) (r\<lparr>rq_headers := h\<lparr>a_data := d\<rparr>\<rparr>))
                               (hp_con st)\<rparr>))
             })
          })"

definition plain_line :: "(string \<Rightarrow> bool) \<Rightarrow> (nat \<Rightarrow> nat) \<Rightarrow> hparse \<Rightarrow> nat \<Rightarrow> hstep" where
  "plain_line al gs st0 v = do {
     let st1 = st0\<lparr>hp_key := Some (hp_first st0)\<rparr>;
     s_len \<leftarrow> strip_len (hp_m st1) v (hp_i st1 - v);
     m \<leftarrow> mem_set (hp_m st1) (v + s_len) NUL;
     let st = st1\<lparr>hp_m := m\<rparr>;
     (if s_len > 0 then do {
        (ds, h) \<leftarrow> unused_or_new (rq_headers (co_request (hp_con st)));
        k \<leftarrow> mem_read (drop (hp_first st) m) (hp_key_len st);
        val \<leftarrow> mem_read (drop v m) s_len;
        ds1 \<leftarrow> ds_set_value (ds\<lparr>du_key := Some k\<rparr>) val;
        handle_header al gs (st\<lparr>hp_con := upd_request (\<lambda>r. r\<lparr>rq_headers := h\<rparr>) (hp_con st)\<rparr>) ds1
      }
      else Some (Inr st))
   }"

text \<open>\<open>i++; first = i + 1; is_key = 1; value = 0; in_folding = 0\<close>\<close>

definition next_line :: "hparse \<Rightarrow> hparse" where
  "next_line st = st\<lparr>hp_i := hp_i st + 1, hp_first := hp_i st + 2, hp_is_key := True,
     hp_value := None, hp_in_folding := False\<rparr>"

definition header_line_end :: "(string \<Rightarrow> bool) \<Rightarrow> (nat \<Rightarrow> nat) \<Rightarrow> hparse \<Rightarrow> hstep" where
  "header_line_end al gs st0 = do {
     m1 \<leftarrow> mem_set (hp_m st0) (hp_i st0) NUL;
     m2 \<leftarrow> mem_set m1 (hp_i st0 + 1) NUL;
     v \<leftarrow> hp_value st0;
     let st = st0\<lparr>hp_m := m2\<rparr>;
     r \<leftarrow> (if hp_in_folding st then fold_line st v else plain_line al gs st v);
     Some (map_sum id next_line r)
   }"

section \<open>One character of the header\<close>

definition is_separator :: "char \<Rightarrow> bool" where
  "is_separator c = (c \<in> set ''()<>@,;/[]?={}'' \<or> c = CHR 0x5C \<or> c = CHR 0x22)"

definition is_ctl :: "char \<Rightarrow> bool" where
  "is_ctl c = ((uchar c < 32 \<and> c \<noteq> TAB \<and> c \<noteq> CR) \<or> uchar c = 127)"

text \<open>From offset \<open>j\<close> on: skip white space up to the colon. \<open>None\<close> inside is any other character.\<close>

function ws_to_colon :: "char list \<Rightarrow> nat \<Rightarrow> nat option option" where
  "ws_to_colon m j = do {
     c \<leftarrow> mem_get m j;
     (if is_ws c then ws_to_colon m (j + 1)
      else if c = CHR '':'' then Some (Some j)
      else Some None)
   }"
  by pat_completeness auto
termination
  by (relation "measure (\<lambda>(m, j). length m - j)") (auto simp: mem_get_def split: if_splits)

declare ws_to_colon.simps [simp del]

definition key_step :: "hparse \<Rightarrow> char \<Rightarrow> hstep" where
  "key_step st c =
     (if c = CHR '':'' then
        Some (Inr (st\<lparr>hp_is_key := False, hp_value := Some (hp_i st + 1),
          hp_key_len := (if \<not> hp_is_ws_after_key st then hp_i st - hp_first st else hp_key_len st),
          hp_is_ws_after_key := False\<rparr>))
      else if is_separator c then hp_return st (fail_close 400 (hp_con st))
      else if is_ws c then
        (if hp_i st = hp_first st then
           Some (Inr (st\<lparr>hp_is_key := False, hp_in_folding := True, hp_value := Some (hp_i st)\<rparr>))
         else do {
           let st1 = st\<lparr>hp_key_len := hp_i st - hp_first st\<rparr>;
           r \<leftarrow> ws_to_colon (hp_m st) (hp_i st + 1);
           (case r of
              Some q \<Rightarrow> Some (Inr (st1\<lparr>hp_i := q - 1\<rparr>))
            | None \<Rightarrow> hp_return st1 (fail_close 400 (hp_con st1)))
         })
      else if c = CR then do {
        c1 \<leftarrow> mem_get (hp_m st) (hp_i st + 1);
        (if c1 = LF \<and> hp_i st = hp_first st then do {
           m1 \<leftarrow> mem_set (hp_m st) (hp_i st) NUL;
           m2 \<leftarrow> mem_set m1 (hp_i st + 1) NUL;
           Some (Inr (st\<lparr>hp_m := m2, hp_i := hp_i st + 1, hp_done := True\<rparr>))
         }
         else hp_return st (fail_close 400 (hp_con st)))
      }
      else if is_ctl c then hp_return st (fail_close 400 (hp_con st))
      else Some (Inr st))"

definition value_step :: "(string \<Rightarrow> bool) \<Rightarrow> (nat \<Rightarrow> nat) \<Rightarrow> hparse \<Rightarrow> char \<Rightarrow> hstep" where
  "value_step al gs st c =
     (if c = CR then do {
        c1 \<leftarrow> mem_get (hp_m st) (hp_i st + 1);
        (if c1 = LF then header_line_end al gs st
         else hp_return st (fail_close 400 (hp_con st)))
      }
      else
        (let st1 = (if is_ws c \<and> hp_value st = Some (hp_i st) then st\<lparr>hp_value := Some (hp_i st + 1)\<rparr> else st)
         in if 0 \<le> schar c \<and> schar c < 32 then hp_return st1 (fail 400 (hp_con st1))
            else Some (Inr st1)))"

definition header_step :: "(string \<Rightarrow> bool) \<Rightarrow> (nat \<Rightarrow> nat) \<Rightarrow> hparse \<Rightarrow> hstep" where
  "header_step al gs st = do {
     c \<leftarrow> mem_get (hp_m st) (hp_i st);
     (if hp_is_key st then key_step st c else value_step al gs st c)
   }"

text \<open>A step never moves backwards, so that the loop ends.\<close>

lemma ws_to_colon_ge: "ws_to_colon m j = Some (Some q) \<Longrightarrow> j \<le> q"
proof (induction m j rule: ws_to_colon.induct)
  case (1 m j)
  then show ?case by (subst (asm) (2) ws_to_colon.simps) (fastforce split: if_splits)
qed

lemma insert_go_i: "insert_go gs st ds f = Some (Inr st') \<Longrightarrow> hp_i st' = hp_i st"
  by (auto simp: insert_go_def)

lemma insert_return_not_Inr [simp]: "insert_return gs st con ds \<noteq> Some (Inr st')"
  by (auto simp: insert_return_def)

lemmas handle_defs = handle_connection_def handle_content_length_def handle_content_type_def handle_host_def
  handle_if_modified_since_def handle_if_none_match_def handle_range_def

lemma handle_header_i: "handle_header al gs st ds = Some (Inr st') \<Longrightarrow> hp_i st' = hp_i st"
  by (auto simp: handle_header_def handle_defs Let_def split: hdr_kind.splits if_splits option.splits prod.splits
      dest!: insert_go_i)

lemma fold_line_i: "fold_line st v = Some (Inr st') \<Longrightarrow> hp_i st' = hp_i st"
  by (auto simp: fold_line_def Let_def split: if_splits option.splits)

lemma plain_line_i: "plain_line al gs st v = Some (Inr st') \<Longrightarrow> hp_i st' = hp_i st"
  by (auto simp: plain_line_def Let_def split: if_splits dest!: handle_header_i)

lemma map_sum_Inr: "map_sum id f r = Inr y \<longleftrightarrow> (\<exists>x. r = Inr x \<and> y = f x)"
  by (cases r) auto

lemma header_line_end_i:
  "header_line_end al gs st = Some (Inr st') \<Longrightarrow> hp_i st' = hp_i st + 1"
  by (auto simp: header_line_end_def next_line_def map_sum_Inr Let_def split: if_splits
      dest!: fold_line_i plain_line_i)

lemma header_step_i: "header_step al gs st = Some (Inr st') \<Longrightarrow> hp_i st \<le> hp_i st'"
  by (auto simp: header_step_def key_step_def value_step_def Let_def split: if_splits option.splits
      dest!: header_line_end_i ws_to_colon_ge)

text \<open>\<open>for (; i < con->parse_request->used && !done; i++)\<close>\<close>

function header_loop :: "(string \<Rightarrow> bool) \<Rightarrow> (nat \<Rightarrow> nat) \<Rightarrow> nat \<Rightarrow> hparse \<Rightarrow> hstep" where
  "header_loop al gs used st =
     (if hp_i st < used \<and> \<not> hp_done st then
        (case header_step al gs st of
           None \<Rightarrow> None
         | Some (Inl ret) \<Rightarrow> Some (Inl ret)
         | Some (Inr st1) \<Rightarrow> header_loop al gs used (st1\<lparr>hp_i := hp_i st1 + 1\<rparr>))
      else Some (Inr st))"
  by pat_completeness auto
termination
  by (relation "measure (\<lambda>(al, gs, used, st). used - hp_i st)") (auto dest!: header_step_i)

declare header_loop.simps [simp del]

section \<open>After the headers\<close>

text \<open>Keep-alive and the host; \<open>Inl\<close> is \<open>return 0\<close>.\<close>

definition check_host :: "hparse \<Rightarrow> (connection + connection) option" where
  "check_host st =
     (let con = hp_con st; rq = co_request con in do {
        host \<leftarrow> (case rq_http_host rq of
                   None \<Rightarrow> Some None
                 | Some ref \<Rightarrow> map_option Some (vref_value (rq_headers rq) ref));
        let con1 = con\<lparr>co_keep_alive :=
                     (if rq_http_version rq = HTTP_VERSION_1_1 then hp_keep_alive_set st \<noteq> HTTP_CONNECTION_CLOSE
                      else hp_keep_alive_set st = HTTP_CONNECTION_KEEPALIVE)\<rparr>;
        (if rq_http_version rq = HTTP_VERSION_1_1 \<and> (host = None \<or> host = Some None)
         then Some (Inl (fail_close 400 con1))
         else do {
           ok \<leftarrow> request_check_hostname host;
           (if host \<noteq> None \<and> ok \<noteq> 0 then Some (Inl (fail_close 400 con1)) else Some (Inr con1))
         })
      })"

definition SSIZE_MAX :: nat where
  "SSIZE_MAX = 2 ^ 63 - 1"

lemma SSIZE_MAX_code [code_unfold]: "(n > SSIZE_MAX) = (int n > 2 ^ 63 - 1)"
  by (simp add: SSIZE_MAX_def)

text \<open>The length of the body: the result of \<open>http_request_parse\<close>.\<close>

definition check_length :: "server \<Rightarrow> bool \<Rightarrow> connection \<Rightarrow> int \<times> connection" where
  "check_length srv con_length_set con =
     (let rq = co_request con; len = rq_content_length rq in
      if (rq_http_method rq = HTTP_METHOD_GET \<or> rq_http_method rq = HTTP_METHOD_HEAD) \<and> con_length_set \<and> len \<noteq> 0
      then (0, fail 400 con)
      else if rq_http_method rq = HTTP_METHOD_POST \<and> \<not> con_length_set then (0, fail 411 con)
      else if con_length_set then
        (if len > SSIZE_MAX then (0, fail 413 con)
         else if sv_max_request_size srv \<noteq> 0 \<and> len div 1024 > sv_max_request_size srv then (0, fail 413 con)
         else if len \<noteq> 0 then (1, con)
         else (0, con))
      else (0, con))"

definition post_process :: "hparse \<Rightarrow> (int \<times> connection \<times> server) option" where
  "post_process st0 = do {
     let st = st0\<lparr>hp_con := (hp_con st0)\<lparr>co_header_len := hp_i st0\<rparr>\<rparr>;
     r \<leftarrow> check_host st;
     (case r of
        Inl con \<Rightarrow> Some (0, con, hp_srv st)
      | Inr con \<Rightarrow>
          (case check_length (hp_srv st) (hp_con_length_set st) con of
             (res, con1) \<Rightarrow> Some (res, con1, hp_srv st)))
   }"

section \<open>The parser\<close>

text \<open>The copy of the request the parser works on: an empty line left over from the body of the
  previous request on the connection is skipped.\<close>

definition fill_parse_request :: "connection \<Rightarrow> connection option" where
  "fill_parse_request con =
     (if co_request_count con > 1 then do {
        t \<leftarrow> rq_request (co_request con);
        let m = t @ [NUL];
        c0 \<leftarrow> mem_get m 0;
        (if c0 = CR then do {
           c1 \<leftarrow> mem_get m 1;
           Some (con\<lparr>co_parse_request := (if c1 = LF then Some (drop 2 t) else rq_request (co_request con))\<rparr>)
         }
         else Some (con\<lparr>co_parse_request := rq_request (co_request con)\<rparr>))
      }
      else Some (con\<lparr>co_parse_request := rq_request (co_request con)\<rparr>))"

text \<open>The local variables in front of the header loop.\<close>

definition hparse_init :: "char list \<Rightarrow> nat \<Rightarrow> nat \<Rightarrow> connection \<Rightarrow> server \<Rightarrow> hparse" where
  "hparse_init m i first con srv = \<lparr>hp_m = m, hp_i = i, hp_first = first, hp_is_key = True,
     hp_key_len = 0, hp_is_ws_after_key = False, hp_value = None, hp_key = None,
     hp_in_folding = False, hp_con_length_set = False, hp_keep_alive_set = HTTP_CONNECTION_UNSET,
     hp_done = False, hp_con = con, hp_srv = srv\<rparr>"

definition http_request_parse ::
  "(string \<Rightarrow> bool) \<Rightarrow> (nat \<Rightarrow> nat) \<Rightarrow> server \<Rightarrow> connection \<Rightarrow> (int \<times> connection \<times> server) option" where
  "http_request_parse al gs srv con0 = do {
     con \<leftarrow> fill_parse_request con0;
     let m = key_bytes (co_parse_request con);
     let used = length m;
     r \<leftarrow> request_line_loop m used 0 0 0 0 0 con;
     (case r of
        Inl con1 \<Rightarrow> Some (0, con1, srv)
      | Inr (con1, m1, i, first) \<Rightarrow>
          if rq_uri (co_request con1) = Some [] then Some (0, fail_close 400 con1, srv)
          else do {
            h \<leftarrow> header_loop al gs used (hparse_init m1 i first con1 srv);
            (case h of
               Inl (con2, srv2) \<Rightarrow> Some (0, con2, srv2)
             | Inr st \<Rightarrow> post_process st)
          })
   }"

text \<open>\<open>http_request_header_finished\<close>: an empty line at the end, or anywhere in front of the first NUL.\<close>

definition http_request_header_finished :: "connection \<Rightarrow> bool option" where
  "http_request_header_finished con = (case rq_request (co_request con) of
     None \<Rightarrow> Some False
   | Some t \<Rightarrow>
       if length t + 1 < 5 then Some False
       else do {
         w \<leftarrow> mem_read (drop (length t - 4) t) 4;
         Some (w = [CR, LF, CR, LF] \<or>
           (\<exists>k < length (c_str t). take 4 (drop k (c_str t)) = [CR, LF, CR, LF]))
       })"

end
