(* ===== verification/Chunk.thy ===== *)
theory Chunk
  imports Array
begin

text \<open>
  The chunk queues of \<open>chunk.c\<close>: the pieces of memory and of files that wait to be sent or read.
  Chunks are nodes of a heap and the queue links them with \<open>first\<close>, \<open>last\<close>, \<open>unused\<close> and \<open>next\<close>
  pointers, which the model keeps: a pointer is the index of a node, a freed node cannot be followed
  any more. The heap also records the effects on the operating system, the files that \<open>unlink\<close>
  removed, the descriptors closed and the areas unmapped. Loops over the links are partial
  functions: a queue whose links form a cycle would not terminate.

  \<open>queue_inv\<close> is the invariant, that the two chains are disjoint and acyclic and that \<open>last\<close> and the
  counter agree with them; \<open>rep\<close> relates a queue to the list of its pieces, and every operation is
  shown to do on the pointers what its specification does on the list.
\<close>

section \<open>Chunks and queues\<close>

datatype chunk_type = UNUSED_CHUNK | MEM_CHUNK | FILE_CHUNK

record chunk =
  ck_type :: chunk_type
  ck_mem :: bstr
  ck_file_name :: bstr
  ck_file_start :: int
  ck_file_length :: int
  ck_file_fd :: int
  ck_mmap_start :: "nat option"
  ck_mmap_offset :: int
  ck_mmap_length :: int
  ck_is_temp :: bool
  ck_offset :: int
  ck_next :: "nat option"

record chunkqueue =
  cq_first :: "nat option"
  cq_last :: "nat option"
  cq_unused :: "nat option"
  cq_unused_chunks :: nat
  cq_tempdirs :: "array option"
  cq_bytes_in :: int
  cq_bytes_out :: int

record world =
  w_heap :: "chunk option list"
  w_unlinked :: "string list"
  w_closed :: "int list"
  w_unmapped :: "nat list"

definition chunk_at :: "world \<Rightarrow> nat \<Rightarrow> chunk option" where
  "chunk_at w a = (if a < length (w_heap w) then w_heap w ! a else None)"

definition chunk_put :: "world \<Rightarrow> nat \<Rightarrow> chunk \<Rightarrow> world option" where
  "chunk_put w a c = do {
     _ \<leftarrow> chunk_at w a;
     Some (w\<lparr>w_heap := (w_heap w)[a := Some c]\<rparr>)
   }"

definition chunkqueue_init :: chunkqueue where
  "chunkqueue_init = \<lparr>cq_first = None, cq_last = None, cq_unused = None, cq_unused_chunks = 0, cq_tempdirs = None,
     cq_bytes_in = 0, cq_bytes_out = 0\<rparr>"

definition fresh_chunk :: chunk where
  "fresh_chunk = \<lparr>ck_type = UNUSED_CHUNK, ck_mem = None, ck_file_name = None, ck_file_start = 0, ck_file_length = 0,
     ck_file_fd = -1, ck_mmap_start = None, ck_mmap_offset = 0, ck_mmap_length = 0, ck_is_temp = False, ck_offset = 0, ck_next = None\<rparr>"

lemma fresh_chunk_next [simp]: "ck_next fresh_chunk = None"
  by (simp add: fresh_chunk_def)

definition chunk_init :: "world \<Rightarrow> nat \<times> world" where
  "chunk_init w = (length (w_heap w), w\<lparr>w_heap := w_heap w @ [Some fresh_chunk]\<rparr>)"

definition chunk_free :: "world \<Rightarrow> nat \<Rightarrow> world option" where
  "chunk_free w a = do {
     _ \<leftarrow> chunk_at w a;
     Some (w\<lparr>w_heap := (w_heap w)[a := None]\<rparr>)
   }"

text \<open>\<open>chunk_reset\<close> leaves \<open>is_temp\<close> as it is.\<close>

definition chunk_reset :: "world \<Rightarrow> nat \<Rightarrow> world option" where
  "chunk_reset w a = do {
     c \<leftarrow> chunk_at w a;
     let w1 = (if ck_is_temp c then
                 (case ck_file_name c of None \<Rightarrow> w | Some n \<Rightarrow> w\<lparr>w_unlinked := w_unlinked w @ [c_str n]\<rparr>)
               else w);
     let w2 = (if ck_file_fd c \<noteq> -1 then w1\<lparr>w_closed := w_closed w1 @ [ck_file_fd c]\<rparr> else w1);
     let w3 = (case ck_mmap_start c of None \<Rightarrow> w2 | Some p \<Rightarrow> w2\<lparr>w_unmapped := w_unmapped w2 @ [p]\<rparr>);
     chunk_put w3 a (c\<lparr>ck_mem := None, ck_file_name := None, ck_file_fd := -1, ck_mmap_start := None\<rparr>)
   }"

section \<open>Operations\<close>

partial_function (option) free_loop :: "world \<Rightarrow> nat option \<Rightarrow> world option" where
  "free_loop w p = (case p of None \<Rightarrow> Some w
     | Some a \<Rightarrow> do {
         c \<leftarrow> chunk_at w a;
         w1 \<leftarrow> chunk_free w a;
         free_loop w1 (ck_next c)
       })"

definition chunkqueue_free :: "world \<Rightarrow> chunkqueue option \<Rightarrow> world option" where
  "chunkqueue_free w cq = (case cq of None \<Rightarrow> Some w
     | Some q \<Rightarrow> do {
         w1 \<leftarrow> free_loop w (cq_first q);
         free_loop w1 (cq_unused q)
       })"

definition chunkqueue_get_unused_chunk :: "world \<Rightarrow> chunkqueue \<Rightarrow> (nat \<times> world \<times> chunkqueue) option" where
  "chunkqueue_get_unused_chunk w q = (case cq_unused q of
     None \<Rightarrow> (case chunk_init w of (a, w1) \<Rightarrow> Some (a, w1, q))
   | Some a \<Rightarrow> do {
       c \<leftarrow> chunk_at w a;
       w1 \<leftarrow> chunk_put w a (c\<lparr>ck_next := None\<rparr>);
       Some (a, w1, q\<lparr>cq_unused := ck_next c, cq_unused_chunks := cq_unused_chunks q - 1\<rparr>)
     })"

definition chunkqueue_prepend_chunk :: "world \<Rightarrow> chunkqueue \<Rightarrow> nat \<Rightarrow> (world \<times> chunkqueue) option" where
  "chunkqueue_prepend_chunk w q a = do {
     c \<leftarrow> chunk_at w a;
     w1 \<leftarrow> chunk_put w a (c\<lparr>ck_next := cq_first q\<rparr>);
     Some (w1, q\<lparr>cq_first := Some a, cq_last := (if cq_last q = None then Some a else cq_last q)\<rparr>)
   }"

definition chunkqueue_append_chunk :: "world \<Rightarrow> chunkqueue \<Rightarrow> nat \<Rightarrow> (world \<times> chunkqueue) option" where
  "chunkqueue_append_chunk w q a = do {
     w1 \<leftarrow> (case cq_last q of
        None \<Rightarrow> Some w
      | Some l \<Rightarrow> do { c \<leftarrow> chunk_at w l; chunk_put w l (c\<lparr>ck_next := Some a\<rparr>) });
     Some (w1, q\<lparr>cq_last := Some a, cq_first := (if cq_first q = None then Some a else cq_first q)\<rparr>)
   }"

text \<open>Take a chunk, fill it in and put it at the end or in front.\<close>

definition append_new :: "world \<Rightarrow> chunkqueue \<Rightarrow> (chunk \<Rightarrow> chunk) \<Rightarrow> (nat \<times> world \<times> chunkqueue) option" where
  "append_new w q f = do {
     (a, w1, q1) \<leftarrow> chunkqueue_get_unused_chunk w q;
     c \<leftarrow> chunk_at w1 a;
     w2 \<leftarrow> chunk_put w1 a (f c);
     (w3, q3) \<leftarrow> chunkqueue_append_chunk w2 q1 a;
     Some (a, w3, q3)
   }"

definition prepend_new :: "world \<Rightarrow> chunkqueue \<Rightarrow> (chunk \<Rightarrow> chunk) \<Rightarrow> (nat \<times> world \<times> chunkqueue) option" where
  "prepend_new w q f = do {
     (a, w1, q1) \<leftarrow> chunkqueue_get_unused_chunk w q;
     c \<leftarrow> chunk_at w1 a;
     w2 \<leftarrow> chunk_put w1 a (f c);
     (w3, q3) \<leftarrow> chunkqueue_prepend_chunk w2 q1 a;
     Some (a, w3, q3)
   }"

abbreviation no_addr :: "(nat \<times> world \<times> chunkqueue) option \<Rightarrow> (world \<times> chunkqueue) option" where
  "no_addr r \<equiv> map_option snd r"

definition chunkqueue_append_file :: "world \<Rightarrow> chunkqueue \<Rightarrow> bstr \<Rightarrow> int \<Rightarrow> int \<Rightarrow> (world \<times> chunkqueue) option" where
  "chunkqueue_append_file w q fn offset len =
     (if len = 0 then Some (w, q)
      else no_addr (append_new w q (\<lambda>c. c\<lparr>ck_type := FILE_CHUNK, ck_file_name := fn, ck_file_start := offset,
             ck_file_length := len, ck_offset := 0\<rparr>)))"

definition chunkqueue_append_buffer :: "world \<Rightarrow> chunkqueue \<Rightarrow> bstr \<Rightarrow> (world \<times> chunkqueue) option" where
  "chunkqueue_append_buffer w q mem =
     (if mem = None then Some (w, q)
      else no_addr (append_new w q (\<lambda>c. c\<lparr>ck_type := MEM_CHUNK, ck_offset := 0, ck_mem := mem\<rparr>)))"

text \<open>Here the chunk takes the caller's buffer itself, whose later changes are not followed.\<close>

definition chunkqueue_append_buffer_weak :: "world \<Rightarrow> chunkqueue \<Rightarrow> bstr \<Rightarrow> (world \<times> chunkqueue) option" where
  "chunkqueue_append_buffer_weak w q mem =
     (if mem = None then Some (w, q)
      else no_addr (append_new w q (\<lambda>c. c\<lparr>ck_type := MEM_CHUNK, ck_offset := 0, ck_mem := mem\<rparr>)))"

definition chunkqueue_prepend_buffer :: "world \<Rightarrow> chunkqueue \<Rightarrow> bstr \<Rightarrow> (world \<times> chunkqueue) option" where
  "chunkqueue_prepend_buffer w q mem =
     (if mem = None then Some (w, q)
      else no_addr (prepend_new w q (\<lambda>c. c\<lparr>ck_type := MEM_CHUNK, ck_offset := 0, ck_mem := mem\<rparr>)))"

definition chunkqueue_append_mem :: "world \<Rightarrow> chunkqueue \<Rightarrow> char list \<Rightarrow> nat \<Rightarrow> (world \<times> chunkqueue) option" where
  "chunkqueue_append_mem w q mem len =
     (if len = 0 then Some (w, q)
      else do {
        s \<leftarrow> mem_read mem (len - 1);
        no_addr (append_new w q (\<lambda>c. c\<lparr>ck_type := MEM_CHUNK, ck_offset := 0, ck_mem := Some s\<rparr>))
      })"

text \<open>The two functions that hand out the buffer of a new chunk return the chunk.\<close>

definition chunkqueue_get_prepend_buffer :: "world \<Rightarrow> chunkqueue \<Rightarrow> (nat \<times> world \<times> chunkqueue) option" where
  "chunkqueue_get_prepend_buffer w q = prepend_new w q (\<lambda>c. c\<lparr>ck_type := MEM_CHUNK, ck_offset := 0, ck_mem := None\<rparr>)"

definition chunkqueue_get_append_buffer :: "world \<Rightarrow> chunkqueue \<Rightarrow> (nat \<times> world \<times> chunkqueue) option" where
  "chunkqueue_get_append_buffer w q = append_new w q (\<lambda>c. c\<lparr>ck_type := MEM_CHUNK, ck_offset := 0, ck_mem := None\<rparr>)"

definition chunkqueue_set_tempdirs :: "chunkqueue option \<Rightarrow> array option \<Rightarrow> int \<times> chunkqueue option" where
  "chunkqueue_set_tempdirs cq tempdirs = (case cq of None \<Rightarrow> (-1, None)
     | Some q \<Rightarrow> (0, Some (q\<lparr>cq_tempdirs := tempdirs\<rparr>)))"

text \<open>\<open>mkstemp\<close> is a parameter: for a template it gives a descriptor or -1 and the name it wrote over
  the template. \<open>tempdir_loop\<close> returns the last name, descriptor, and whether a file was created.\<close>

definition bs_slash :: "bstr \<Rightarrow> bstr" where
  "bs_slash b = (case b of None \<Rightarrow> None
     | Some s \<Rightarrow> if s \<noteq> [] \<and> last s \<noteq> CHR ''/'' then Some (s @ ''/'') else Some s)"

fun tempdir_loop ::
  "(string \<Rightarrow> int \<times> string) \<Rightarrow> data_unset option list \<Rightarrow> nat \<Rightarrow> string \<Rightarrow> int \<Rightarrow> (string \<times> int \<times> bool) option" where
  "tempdir_loop mkstemp d 0 name fd = Some (name, fd, False)"
| "tempdir_loop mkstemp (Some du # d) (Suc n) name fd = do {
     v \<leftarrow> (case du_val du of DString v \<Rightarrow> Some v | DResponse v \<Rightarrow> Some v | _ \<Rightarrow> None);
     let t = bs_str (bs_append (bs_slash v) ''lighttpd-upload-XXXXXX'');
     (case mkstemp t of (fd', name') \<Rightarrow>
        if fd' \<noteq> -1 then Some (name', fd', True) else tempdir_loop mkstemp d n name' fd')
   }"
| "tempdir_loop mkstemp _ (Suc n) name fd = None"

definition chunkqueue_get_append_tempfile ::
  "(string \<Rightarrow> int \<times> string) \<Rightarrow> world \<Rightarrow> chunkqueue \<Rightarrow> (nat \<times> world \<times> chunkqueue) option" where
  "chunkqueue_get_append_tempfile mkstemp w q = do {
     let template = ''/var/tmp/lighttpd-upload-XXXXXX'';
     (name, fd, created) \<leftarrow> (case cq_tempdirs q of
        Some dirs \<Rightarrow>
          if a_used dirs \<noteq> 0 then tempdir_loop mkstemp (a_data dirs) (a_used dirs) template (-1)
          else (case mkstemp template of (fd, name) \<Rightarrow> Some (name, fd, fd \<noteq> -1))
      | None \<Rightarrow> (case mkstemp template of (fd, name) \<Rightarrow> Some (name, fd, fd \<noteq> -1)));
     append_new w q (\<lambda>c. c\<lparr>ck_type := FILE_CHUNK, ck_offset := 0, ck_file_fd := fd,
       ck_is_temp := (created \<or> ck_is_temp c), ck_file_name := Some name, ck_file_length := 0\<rparr>)
   }"

text \<open>\<open>c->mem->used ? c->mem->used - 1 : 0\<close> and \<open>c->file.length\<close>\<close>

definition chunk_length :: "chunk \<Rightarrow> int" where
  "chunk_length c = (case ck_type c of
     MEM_CHUNK \<Rightarrow> int (length (bs_str (ck_mem c))) | FILE_CHUNK \<Rightarrow> ck_file_length c | UNUSED_CHUNK \<Rightarrow> 0)"

partial_function (option) length_loop :: "world \<Rightarrow> nat option \<Rightarrow> int \<Rightarrow> int option" where
  "length_loop w p len = (case p of None \<Rightarrow> Some len
     | Some a \<Rightarrow> do { c \<leftarrow> chunk_at w a; length_loop w (ck_next c) (len + chunk_length c) })"

definition chunkqueue_length :: "world \<Rightarrow> chunkqueue \<Rightarrow> int option" where
  "chunkqueue_length w q = length_loop w (cq_first q) 0"

partial_function (option) written_loop :: "world \<Rightarrow> nat option \<Rightarrow> int \<Rightarrow> int option" where
  "written_loop w p len = (case p of None \<Rightarrow> Some len
     | Some a \<Rightarrow> do {
         c \<leftarrow> chunk_at w a;
         written_loop w (ck_next c) (len + (if ck_type c = UNUSED_CHUNK then 0 else ck_offset c))
       })"

definition chunkqueue_written :: "world \<Rightarrow> chunkqueue \<Rightarrow> int option" where
  "chunkqueue_written w q = written_loop w (cq_first q) 0"

definition chunkqueue_is_empty :: "chunkqueue \<Rightarrow> bool" where
  "chunkqueue_is_empty q = (cq_first q = None)"

definition chunk_finished :: "chunk \<Rightarrow> bool" where
  "chunk_finished c = (case ck_type c of
     MEM_CHUNK \<Rightarrow> (case ck_mem c of None \<Rightarrow> True | Some s \<Rightarrow> ck_offset c = int (length s))
   | FILE_CHUNK \<Rightarrow> ck_offset c = ck_file_length c
   | UNUSED_CHUNK \<Rightarrow> False)"

partial_function (option) chunkqueue_remove_finished_chunks :: "world \<Rightarrow> chunkqueue \<Rightarrow> (world \<times> chunkqueue) option" where
  "chunkqueue_remove_finished_chunks w q = (case cq_first q of None \<Rightarrow> Some (w, q)
     | Some a \<Rightarrow> do {
         c \<leftarrow> chunk_at w a;
         (if \<not> chunk_finished c then Some (w, q)
          else do {
            w1 \<leftarrow> chunk_reset w a;
            c1 \<leftarrow> chunk_at w1 a;
            let q1 = q\<lparr>cq_first := ck_next c1, cq_last := (if cq_last q = Some a then None else cq_last q)\<rparr>;
            (if cq_unused_chunks q > 4 then do {
               w2 \<leftarrow> chunk_free w1 a;
               chunkqueue_remove_finished_chunks w2 q1
             }
             else do {
               w2 \<leftarrow> chunk_put w1 a (c1\<lparr>ck_next := cq_unused q\<rparr>);
               chunkqueue_remove_finished_chunks w2
                 (q1\<lparr>cq_unused := Some a, cq_unused_chunks := cq_unused_chunks q + 1\<rparr>)
             })
          })
       })"

definition mark_written :: "chunk \<Rightarrow> chunk" where
  "mark_written c = (case ck_type c of
     MEM_CHUNK \<Rightarrow> c\<lparr>ck_offset := (case ck_mem c of None \<Rightarrow> -1 | Some s \<Rightarrow> int (length s))\<rparr>
   | FILE_CHUNK \<Rightarrow> c\<lparr>ck_offset := ck_file_length c\<rparr>
   | UNUSED_CHUNK \<Rightarrow> c)"

partial_function (option) mark_loop :: "world \<Rightarrow> nat option \<Rightarrow> world option" where
  "mark_loop w p = (case p of None \<Rightarrow> Some w
     | Some a \<Rightarrow> do {
         c \<leftarrow> chunk_at w a;
         w1 \<leftarrow> chunk_put w a (mark_written c);
         mark_loop w1 (ck_next c)
       })"

definition chunkqueue_reset :: "world \<Rightarrow> chunkqueue \<Rightarrow> (world \<times> chunkqueue) option" where
  "chunkqueue_reset w q = do {
     w1 \<leftarrow> mark_loop w (cq_first q);
     (w2, q2) \<leftarrow> chunkqueue_remove_finished_chunks w1 q;
     Some (w2, q2\<lparr>cq_bytes_in := 0, cq_bytes_out := 0\<rparr>)
   }"

declare free_loop.simps [code] length_loop.simps [code] written_loop.simps [code] mark_loop.simps [code]
  chunkqueue_remove_finished_chunks.simps [code]

section \<open>Chains of chunks\<close>

fun chain :: "world \<Rightarrow> nat option \<Rightarrow> nat list \<Rightarrow> bool" where
  "chain w p [] = (p = None)"
| "chain w p (a # as) = (p = Some a \<and> (case chunk_at w a of None \<Rightarrow> False | Some c \<Rightarrow> chain w (ck_next c) as))"

definition queue_inv :: "world \<Rightarrow> chunkqueue \<Rightarrow> nat list \<Rightarrow> nat list \<Rightarrow> bool" where
  "queue_inv w q as us = (chain w (cq_first q) as \<and> chain w (cq_unused q) us \<and> distinct (as @ us) \<and>
     cq_last q = (if as = [] then None else Some (last as)) \<and> cq_unused_chunks q = length us \<and> length us \<le> 5)"

lemma chunk_put_Some:
  assumes "chunk_at w a = Some c0"
  shows "chunk_put w a c = Some (w\<lparr>w_heap := (w_heap w)[a := Some c]\<rparr>)"
    "chunk_at (w\<lparr>w_heap := (w_heap w)[a := Some c]\<rparr>) b = (if b = a then Some c else chunk_at w b)"
  using assms by (auto simp: chunk_put_def chunk_at_def split: if_splits)

lemma chunk_free_Some:
  assumes "chunk_at w a = Some c0"
  shows "chunk_free w a = Some (w\<lparr>w_heap := (w_heap w)[a := None]\<rparr>)"
    "chunk_at (w\<lparr>w_heap := (w_heap w)[a := None]\<rparr>) b = (if b = a then None else chunk_at w b)"
  using assms by (auto simp: chunk_free_def chunk_at_def split: if_splits)

lemma chain_frame: "(\<And>a. a \<in> set as \<Longrightarrow> chunk_at w' a = chunk_at w a) \<Longrightarrow> chain w' p as = chain w p as"
  by (induction as arbitrary: p) (auto split: option.splits)

lemma chain_frameI: "chain w p as \<Longrightarrow> \<forall>a \<in> set as. chunk_at w' a = chunk_at w a \<Longrightarrow> chain w' p as"
  using chain_frame [of as w' w p] by blast

lemma chain_head: "chain w p as \<Longrightarrow> (case as of [] \<Rightarrow> p = None | a # _ \<Rightarrow> p = Some a)"
  by (cases as) auto

lemma chain_mem: "chain w p as \<Longrightarrow> a \<in> set as \<Longrightarrow> \<exists>c. chunk_at w a = Some c"
  by (induction as arbitrary: p) (auto split: option.splits)

text \<open>Linking one more chunk behind the last one.\<close>

lemma chain_snoc:
  assumes "chain w p as" "as \<noteq> []" "distinct as" "a \<notin> set as" "chunk_at w a = Some c" "ck_next c = None"
    and "chunk_at w (last as) = Some l"
    and "\<And>b. chunk_at w' b = (if b = last as then Some (l\<lparr>ck_next := Some a\<rparr>) else chunk_at w b)"
  shows "chain w' p (as @ [a])"
  using assms
proof (induction as arbitrary: p)
  case (Cons x xs)
  show ?case
  proof (cases "xs = []")
    case True
    with Cons.prems show ?thesis by (auto split: option.splits)
  next
    case False
    then have "x \<noteq> last xs" using Cons.prems(3) by auto
    with Cons False show ?thesis by (auto split: option.splits)
  qed
qed simp

section \<open>Pieces\<close>

text \<open>What a queue stands for: the list of its pieces, with the number of octets already sent.\<close>

datatype piece = PMem bstr int | PFile bstr int int int | PUnused

definition piece_of :: "chunk \<Rightarrow> piece" where
  "piece_of c = (case ck_type c of
     MEM_CHUNK \<Rightarrow> PMem (ck_mem c) (ck_offset c)
   | FILE_CHUNK \<Rightarrow> PFile (ck_file_name c) (ck_file_start c) (ck_file_length c) (ck_offset c)
   | UNUSED_CHUNK \<Rightarrow> PUnused)"

definition pieces :: "world \<Rightarrow> nat list \<Rightarrow> piece list" where
  "pieces w as = map (\<lambda>a. case chunk_at w a of None \<Rightarrow> PUnused | Some c \<Rightarrow> piece_of c) as"

definition rep :: "world \<Rightarrow> chunkqueue \<Rightarrow> piece list \<Rightarrow> bool" where
  "rep w q ps = (\<exists>as us. queue_inv w q as us \<and> pieces w as = ps)"

lemma piece_of_next [simp]: "piece_of (c\<lparr>ck_next := n\<rparr>) = piece_of c"
  by (simp add: piece_of_def cong: chunk_type.case_cong)

lemma pieces_cong:
  "(\<And>a. a \<in> set as \<Longrightarrow> map_option piece_of (chunk_at w' a) = map_option piece_of (chunk_at w a)) \<Longrightarrow> pieces w' as = pieces w as"
  by (fastforce simp: pieces_def split: option.splits)

lemma pieces_Cons: "chunk_at w a = Some c \<Longrightarrow> pieces w (a # as) = piece_of c # pieces w as"
  by (simp add: pieces_def)

section \<open>The primitives keep the invariant\<close>

text \<open>The chunk at \<open>a\<close> has been taken and is in no chain.\<close>

definition taken :: "world \<Rightarrow> nat \<Rightarrow> nat list \<Rightarrow> bool" where
  "taken w a as = (a \<notin> set as \<and> (case chunk_at w a of None \<Rightarrow> False | Some c \<Rightarrow> ck_next c = None))"

lemma get_unused_ok:
  assumes "queue_inv w q as us"
  shows "\<exists>a w1 q1 us1. chunkqueue_get_unused_chunk w q = Some (a, w1, q1) \<and> queue_inv w1 q1 as us1 \<and>
    taken w1 a (as @ us1) \<and> pieces w1 as = pieces w as"
proof (cases us)
  case Nil
  let ?a = "length (w_heap w)" and ?w = "w\<lparr>w_heap := w_heap w @ [Some fresh_chunk]\<rparr>"
  have at: "chunk_at ?w b = (if b = ?a then Some fresh_chunk else chunk_at w b)" for b
    by (auto simp: chunk_at_def nth_append)
  have new: "?a \<notin> set as" using chain_mem [of w "cq_first q" as ?a] assms by (auto simp: queue_inv_def chunk_at_def)
  then have ch: "chain ?w (cq_first q) as = chain w (cq_first q) as" "pieces ?w as = pieces w as"
    by (auto intro!: chain_frame pieces_cong simp: at)
  have "chunkqueue_get_unused_chunk w q = Some (?a, ?w, q)"
    using assms Nil by (simp add: chunkqueue_get_unused_chunk_def queue_inv_def chunk_init_def)
  moreover have "queue_inv ?w q as []" "taken ?w ?a (as @ [])"
    using assms Nil ch new by (auto simp: queue_inv_def taken_def at)
  ultimately show ?thesis using ch by blast
next
  case (Cons a us')
  then obtain c where c: "cq_unused q = Some a" "chunk_at w a = Some c" "chain w (ck_next c) us'"
    using assms by (auto simp: queue_inv_def split: option.splits)
  let ?w = "w\<lparr>w_heap := (w_heap w)[a := Some (c\<lparr>ck_next := None\<rparr>)]\<rparr>"
  note put = chunk_put_Some [OF c(2)]
  have out: "a \<notin> set as" "a \<notin> set us'" using assms Cons by (auto simp: queue_inv_def)
  then have ch: "chain ?w p as = chain w p as" "chain ?w p us' = chain w p us'" "pieces ?w as = pieces w as" for p
    by (auto intro!: chain_frame pieces_cong simp: put)
  have "chunkqueue_get_unused_chunk w q = Some (a, ?w, q\<lparr>cq_unused := ck_next c, cq_unused_chunks := cq_unused_chunks q - 1\<rparr>)"
    using c put by (simp add: chunkqueue_get_unused_chunk_def)
  moreover have "queue_inv ?w (q\<lparr>cq_unused := ck_next c, cq_unused_chunks := cq_unused_chunks q - 1\<rparr>) as us'"
    using assms Cons ch c by (auto simp: queue_inv_def)
  moreover have "taken ?w a (as @ us')" using out by (simp add: taken_def put)
  ultimately show ?thesis using ch by blast
qed

lemma append_chunk_ok:
  assumes "queue_inv w q as us" "taken w a (as @ us)"
  shows "\<exists>w1 q1. chunkqueue_append_chunk w q a = Some (w1, q1) \<and> queue_inv w1 q1 (as @ [a]) us \<and>
    pieces w1 (as @ [a]) = pieces w (as @ [a])"
proof -
  obtain c where c: "chunk_at w a = Some c" "ck_next c = None" "a \<notin> set as" "a \<notin> set us"
    using assms(2) by (auto simp: taken_def split: option.splits)
  have q: "chain w (cq_first q) as" "chain w (cq_unused q) us" "distinct (as @ us)" using assms(1) by (auto simp: queue_inv_def)
  show ?thesis
  proof (cases "as = []")
    case True
    with assms c q show ?thesis by (auto simp: chunkqueue_append_chunk_def queue_inv_def)
  next
    case False
    then have "last as \<in> set as" by simp
    then obtain l where l: "chunk_at w (last as) = Some l" using chain_mem [OF q(1)] by blast
    let ?w = "w\<lparr>w_heap := (w_heap w)[last as := Some (l\<lparr>ck_next := Some a\<rparr>)]\<rparr>"
    note put = chunk_put_Some [OF l]
    have "chain ?w (cq_first q) (as @ [a])"
      using chain_snoc [OF q(1) False _ c(3,1,2) l put(2)] q(3) by simp
    moreover have "last as \<notin> set us" using \<open>last as \<in> set as\<close> q(3) by auto
    then have "chain ?w p us = chain w p us" for p by (intro chain_frame) (auto simp: put(2))
    then have "chain ?w (cq_unused q) us" using q(2) by simp
    moreover have "pieces ?w (as @ [a]) = pieces w (as @ [a])" by (rule pieces_cong) (auto simp: put(2) l)
    moreover have "cq_first q \<noteq> None" using chain_head [OF q(1)] False by (auto split: list.splits)
    ultimately show ?thesis using assms False l put c by (auto simp: chunkqueue_append_chunk_def queue_inv_def)
  qed
qed

lemma prepend_chunk_ok:
  assumes "queue_inv w q as us" "taken w a (as @ us)"
  shows "\<exists>w1 q1. chunkqueue_prepend_chunk w q a = Some (w1, q1) \<and> queue_inv w1 q1 (a # as) us \<and>
    pieces w1 (a # as) = pieces w (a # as)"
proof -
  obtain c where c: "chunk_at w a = Some c" "ck_next c = None" "a \<notin> set as" "a \<notin> set us"
    using assms(2) by (auto simp: taken_def split: option.splits)
  let ?w = "w\<lparr>w_heap := (w_heap w)[a := Some (c\<lparr>ck_next := cq_first q\<rparr>)]\<rparr>"
  note put = chunk_put_Some [OF c(1)]
  have "chain ?w p as = chain w p as" "chain ?w p us = chain w p us" for p
    using c by (auto intro!: chain_frame simp: put(2))
  moreover have "pieces ?w (a # as) = pieces w (a # as)" by (rule pieces_cong) (auto simp: put(2) c)
  ultimately show ?thesis using assms c put by (auto simp: chunkqueue_prepend_chunk_def queue_inv_def)
qed

text \<open>Filling in the chunk that was taken.\<close>

lemma fill_chunk_ok:
  assumes "queue_inv w q as us" "taken w a (as @ us)" "\<And>c. ck_next (f c) = ck_next c"
  shows "\<exists>c w1. chunk_at w a = Some c \<and> chunk_put w a (f c) = Some w1 \<and> queue_inv w1 q as us \<and> taken w1 a (as @ us) \<and>
    pieces w1 as = pieces w as \<and> pieces w1 [a] = [piece_of (f c)]"
proof -
  obtain c where c: "chunk_at w a = Some c" "ck_next c = None" "a \<notin> set as" "a \<notin> set us"
    using assms(2) by (auto simp: taken_def split: option.splits)
  let ?w = "w\<lparr>w_heap := (w_heap w)[a := Some (f c)]\<rparr>"
  note put = chunk_put_Some [OF c(1)]
  have "chain ?w p as = chain w p as" "chain ?w p us = chain w p us" "pieces ?w as = pieces w as" for p
    using c by (auto intro!: chain_frame pieces_cong simp: put(2))
  then show ?thesis
    using assms c put by (auto simp: queue_inv_def taken_def pieces_def)
qed

lemma append_new_ok:
  assumes "queue_inv w q as us" "\<And>c. ck_next (f c) = ck_next c"
  shows "\<exists>a w1 q1 us1 c. append_new w q f = Some (a, w1, q1) \<and> queue_inv w1 q1 (as @ [a]) us1 \<and>
    pieces w1 (as @ [a]) = pieces w as @ [piece_of (f c)]"
proof -
  obtain a w1 q1 us1 where g: "chunkqueue_get_unused_chunk w q = Some (a, w1, q1)" "queue_inv w1 q1 as us1"
    "taken w1 a (as @ us1)" "pieces w1 as = pieces w as" using get_unused_ok [OF assms(1)] by blast
  obtain c w2 where f: "chunk_at w1 a = Some c" "chunk_put w1 a (f c) = Some w2" "queue_inv w2 q1 as us1" "taken w2 a (as @ us1)"
    "pieces w2 as = pieces w1 as" "pieces w2 [a] = [piece_of (f c)]" using fill_chunk_ok [OF g(2,3) assms(2)] by blast
  obtain w3 q3 where "chunkqueue_append_chunk w2 q1 a = Some (w3, q3)" "queue_inv w3 q3 (as @ [a]) us1"
    "pieces w3 (as @ [a]) = pieces w2 (as @ [a])" using append_chunk_ok [OF f(3,4)] by blast
  moreover have "pieces w2 (as @ [a]) = pieces w2 as @ pieces w2 [a]" by (simp add: pieces_def)
  ultimately show ?thesis using g f by (auto simp: append_new_def)
qed

lemma prepend_new_ok:
  assumes "queue_inv w q as us" "\<And>c. ck_next (f c) = ck_next c"
  shows "\<exists>a w1 q1 us1 c. prepend_new w q f = Some (a, w1, q1) \<and> queue_inv w1 q1 (a # as) us1 \<and>
    pieces w1 (a # as) = piece_of (f c) # pieces w as"
proof -
  obtain a w1 q1 us1 where g: "chunkqueue_get_unused_chunk w q = Some (a, w1, q1)" "queue_inv w1 q1 as us1"
    "taken w1 a (as @ us1)" "pieces w1 as = pieces w as" using get_unused_ok [OF assms(1)] by blast
  obtain c w2 where f: "chunk_at w1 a = Some c" "chunk_put w1 a (f c) = Some w2" "queue_inv w2 q1 as us1" "taken w2 a (as @ us1)"
    "pieces w2 as = pieces w1 as" "pieces w2 [a] = [piece_of (f c)]" using fill_chunk_ok [OF g(2,3) assms(2)] by blast
  obtain w3 q3 where "chunkqueue_prepend_chunk w2 q1 a = Some (w3, q3)" "queue_inv w3 q3 (a # as) us1"
    "pieces w3 (a # as) = pieces w2 (a # as)" using prepend_chunk_ok [OF f(3,4)] by blast
  moreover have "pieces w2 (a # as) = pieces w2 [a] @ pieces w2 as" by (simp add: pieces_def)
  ultimately show ?thesis using g f by (auto simp: prepend_new_def)
qed

section \<open>The operations on pieces\<close>

lemma rep_append:
  assumes "rep w q ps" "\<And>c. ck_next (f c) = ck_next c" "\<And>c. piece_of (f c) = p"
  shows "\<exists>w1 q1. no_addr (append_new w q f) = Some (w1, q1) \<and> rep w1 q1 (ps @ [p])"
  using assms append_new_ok [of w q _ _ f] unfolding rep_def by fastforce

lemma rep_prepend:
  assumes "rep w q ps" "\<And>c. ck_next (f c) = ck_next c" "\<And>c. piece_of (f c) = p"
  shows "\<exists>w1 q1. no_addr (prepend_new w q f) = Some (w1, q1) \<and> rep w1 q1 (p # ps)"
  using assms prepend_new_ok [of w q _ _ f] unfolding rep_def by fastforce

lemma rep_init: "rep w chunkqueue_init []"
  by (auto simp: rep_def queue_inv_def chunkqueue_init_def pieces_def)

lemma append_mem_rep:
  assumes "rep w q ps" "len - 1 \<le> length mem"
  shows "\<exists>w1 q1. chunkqueue_append_mem w q mem len = Some (w1, q1) \<and>
    rep w1 q1 (if len = 0 then ps else ps @ [PMem (Some (take (len - 1) mem)) 0])"
  using assms rep_append [OF assms(1), of "\<lambda>c. c\<lparr>ck_type := MEM_CHUNK, ck_offset := 0, ck_mem := Some (take (len - 1) mem)\<rparr>"
      "PMem (Some (take (len - 1) mem)) 0"]
  by (auto simp: chunkqueue_append_mem_def mem_read_def piece_of_def)

lemma append_buffer_rep:
  assumes "rep w q ps"
  shows "\<exists>w1 q1. chunkqueue_append_buffer w q mem = Some (w1, q1) \<and> rep w1 q1 (if mem = None then ps else ps @ [PMem mem 0])"
  using assms rep_append [OF assms(1), of "\<lambda>c. c\<lparr>ck_type := MEM_CHUNK, ck_offset := 0, ck_mem := mem\<rparr>" "PMem mem 0"]
  by (auto simp: chunkqueue_append_buffer_def piece_of_def)

lemma append_buffer_weak_rep:
  assumes "rep w q ps"
  shows "\<exists>w1 q1. chunkqueue_append_buffer_weak w q mem = Some (w1, q1) \<and> rep w1 q1 (if mem = None then ps else ps @ [PMem mem 0])"
  using append_buffer_rep [OF assms] by (simp add: chunkqueue_append_buffer_weak_def chunkqueue_append_buffer_def)

lemma prepend_buffer_rep:
  assumes "rep w q ps"
  shows "\<exists>w1 q1. chunkqueue_prepend_buffer w q mem = Some (w1, q1) \<and> rep w1 q1 (if mem = None then ps else PMem mem 0 # ps)"
  using assms rep_prepend [OF assms(1), of "\<lambda>c. c\<lparr>ck_type := MEM_CHUNK, ck_offset := 0, ck_mem := mem\<rparr>" "PMem mem 0"]
  by (auto simp: chunkqueue_prepend_buffer_def piece_of_def)

lemma append_file_rep:
  assumes "rep w q ps"
  shows "\<exists>w1 q1. chunkqueue_append_file w q fn offset len = Some (w1, q1) \<and>
    rep w1 q1 (if len = 0 then ps else ps @ [PFile fn offset len 0])"
  using assms rep_append [OF assms(1), of "\<lambda>c. c\<lparr>ck_type := FILE_CHUNK, ck_file_name := fn, ck_file_start := offset,
             ck_file_length := len, ck_offset := 0\<rparr>" "PFile fn offset len 0"]
  by (auto simp: chunkqueue_append_file_def piece_of_def)

text \<open>The loops that only read.\<close>

definition piece_length :: "piece \<Rightarrow> int" where
  "piece_length p = (case p of PMem b _ \<Rightarrow> int (length (bs_str b)) | PFile _ _ len _ \<Rightarrow> len | PUnused \<Rightarrow> 0)"

definition piece_offset :: "piece \<Rightarrow> int" where
  "piece_offset p = (case p of PMem _ off \<Rightarrow> off | PFile _ _ _ off \<Rightarrow> off | PUnused \<Rightarrow> 0)"

lemma piece_length_of [simp]: "piece_length (piece_of c) = chunk_length c"
  by (cases "ck_type c") (simp_all add: piece_of_def piece_length_def chunk_length_def)

lemma piece_offset_of [simp]: "piece_offset (piece_of c) = (if ck_type c = UNUSED_CHUNK then 0 else ck_offset c)"
  by (cases "ck_type c") (simp_all add: piece_of_def piece_offset_def)

lemma length_loop_chain: "chain w p as \<Longrightarrow> length_loop w p n = Some (n + sum_list (map piece_length (pieces w as)))"
proof (induction as arbitrary: p n)
  case (Cons a as)
  then show ?case by (subst length_loop.simps) (auto simp: pieces_def split: option.splits)
qed (subst length_loop.simps, simp add: pieces_def)

lemma written_loop_chain: "chain w p as \<Longrightarrow> written_loop w p n = Some (n + sum_list (map piece_offset (pieces w as)))"
proof (induction as arbitrary: p n)
  case (Cons a as)
  then show ?case by (subst written_loop.simps) (auto simp: pieces_def split: option.splits)
qed (subst written_loop.simps, simp add: pieces_def)

lemma length_rep: "rep w q ps \<Longrightarrow> chunkqueue_length w q = Some (sum_list (map piece_length ps))"
  by (auto simp: rep_def queue_inv_def chunkqueue_length_def length_loop_chain)

lemma written_rep: "rep w q ps \<Longrightarrow> chunkqueue_written w q = Some (sum_list (map piece_offset ps))"
  by (auto simp: rep_def queue_inv_def chunkqueue_written_def written_loop_chain)

lemma is_empty_rep: "rep w q ps \<Longrightarrow> chunkqueue_is_empty q \<longleftrightarrow> ps = []"
  by (auto simp: rep_def queue_inv_def chunkqueue_is_empty_def pieces_def dest!: chain_head split: list.splits)

text \<open>The loop that removes what has been sent.\<close>

definition piece_finished :: "piece \<Rightarrow> bool" where
  "piece_finished p = (case p of
     PMem b off \<Rightarrow> (case b of None \<Rightarrow> True | Some s \<Rightarrow> off = int (length s))
   | PFile _ _ len off \<Rightarrow> off = len
   | PUnused \<Rightarrow> False)"

lemma piece_finished_of [simp]: "piece_finished (piece_of c) = chunk_finished c"
  by (cases "ck_type c") (simp_all add: piece_of_def piece_finished_def chunk_finished_def)

lemma chunk_reset_Some:
  assumes "chunk_at w a = Some c"
  shows "\<exists>w1 c1. chunk_reset w a = Some w1 \<and> ck_next c1 = ck_next c \<and> (\<forall>b. chunk_at w1 b = (if b = a then Some c1 else chunk_at w b))"
proof -
  define w3 where "w3 = (let w1 = (if ck_is_temp c then
                 (case ck_file_name c of None \<Rightarrow> w | Some n \<Rightarrow> w\<lparr>w_unlinked := w_unlinked w @ [c_str n]\<rparr>)
               else w);
     w2 = (if ck_file_fd c \<noteq> -1 then w1\<lparr>w_closed := w_closed w1 @ [ck_file_fd c]\<rparr> else w1)
     in (case ck_mmap_start c of None \<Rightarrow> w2 | Some p \<Rightarrow> w2\<lparr>w_unmapped := w_unmapped w2 @ [p]\<rparr>))"
  have "w_heap w3 = w_heap w" by (simp add: w3_def Let_def split: option.splits)
  then have at: "chunk_at w3 b = chunk_at w b" for b by (simp add: chunk_at_def)
  let ?c = "c\<lparr>ck_mem := None, ck_file_name := None, ck_file_fd := -1, ck_mmap_start := None\<rparr>"
  have "chunk_reset w a = chunk_put w3 a ?c" using assms by (simp add: chunk_reset_def w3_def Let_def)
  moreover have "chunk_at w3 a = Some c" using assms at by simp
  note put = chunk_put_Some [OF this]
  ultimately show ?thesis by (intro exI [of _ "w3\<lparr>w_heap := (w_heap w3)[a := Some ?c]\<rparr>"] exI [of _ ?c]) (simp add: put at)
qed

text \<open>Moving the first chunk to the unused ones, or freeing it.\<close>

lemma drop_first_ok:
  assumes "queue_inv w q (a # as) us" "chunk_at w a = Some c"
  shows "\<exists>w1 c1. chunk_reset w a = Some w1 \<and> chunk_at w1 a = Some c1 \<and>
    (let q1 = q\<lparr>cq_first := ck_next c1, cq_last := (if cq_last q = Some a then None else cq_last q)\<rparr> in
     \<exists>w2 q2 us2. (if cq_unused_chunks q > 4 then map_option (\<lambda>w2. (w2, q1)) (chunk_free w1 a)
       else map_option (\<lambda>w2. (w2, q1\<lparr>cq_unused := Some a, cq_unused_chunks := cq_unused_chunks q + 1\<rparr>))
              (chunk_put w1 a (c1\<lparr>ck_next := cq_unused q\<rparr>))) = Some (w2, q2) \<and>
     queue_inv w2 q2 as us2 \<and> pieces w2 as = pieces w as)"
proof -
  obtain w1 c1 where r: "chunk_reset w a = Some w1" "ck_next c1 = ck_next c" "\<And>b. chunk_at w1 b = (if b = a then Some c1 else chunk_at w b)"
    using chunk_reset_Some [OF assms(2)] by blast
  have at: "chunk_at w1 a = Some c1" using r(3) by simp
  have out: "a \<notin> set as" "a \<notin> set us" "distinct (as @ us)" using assms(1) by (auto simp: queue_inv_def)
  have same: "chain w' p as = chain w p as" "chain w' p us = chain w p us" "pieces w' as = pieces w as"
    if "\<And>b. b \<noteq> a \<Longrightarrow> chunk_at w' b = chunk_at w b" for w' p
    using out that by (auto intro!: chain_frame pieces_cong) metis+
  have last: "(if cq_last q = Some a then None else cq_last q) = (if as = [] then None else Some (last as))"
    using assms(1) out(1) by (auto simp: queue_inv_def)
  let ?q = "q\<lparr>cq_first := ck_next c1, cq_last := (if cq_last q = Some a then None else cq_last q)\<rparr>"
  show ?thesis
  proof (cases "cq_unused_chunks q > 4")
    case True
    let ?w = "w1\<lparr>w_heap := (w_heap w1)[a := None]\<rparr>"
    note fr = chunk_free_Some [OF at]
    have "chunk_at ?w b = chunk_at w b" if "b \<noteq> a" for b using that by (simp add: fr(2) r(3))
    note same' = same [OF this]
    have "queue_inv ?w ?q as us" using assms same' last out r(2) by (auto simp: queue_inv_def)
    then show ?thesis using r(1) at True fr(1) same' by (auto simp: Let_def)
  next
    case False
    let ?w = "w1\<lparr>w_heap := (w_heap w1)[a := Some (c1\<lparr>ck_next := cq_unused q\<rparr>)]\<rparr>"
    note put = chunk_put_Some [OF at]
    have "chunk_at ?w b = chunk_at w b" if "b \<noteq> a" for b using that by (simp add: put(2) r(3))
    note same' = same [OF this]
    have "queue_inv ?w (?q\<lparr>cq_unused := Some a, cq_unused_chunks := cq_unused_chunks q + 1\<rparr>) as (a # us)"
      using assms same' last out r(2) False by (auto simp: queue_inv_def put(2))
    then show ?thesis using r(1) at False put(1) same' by (auto simp: Let_def)
  qed
qed

lemma remove_finished_ok:
  assumes "queue_inv w q as us"
  shows "\<exists>w1 q1 as1 us1. chunkqueue_remove_finished_chunks w q = Some (w1, q1) \<and> queue_inv w1 q1 as1 us1 \<and>
    pieces w1 as1 = dropWhile piece_finished (pieces w as)"
  using assms
proof (induction as arbitrary: w q us)
  case Nil
  then have "chunkqueue_remove_finished_chunks w q = Some (w, q)"
    by (subst chunkqueue_remove_finished_chunks.simps) (simp add: queue_inv_def)
  with Nil show ?case by (auto simp: pieces_def)
next
  case (Cons a as)
  then obtain c where c: "cq_first q = Some a" "chunk_at w a = Some c" by (auto simp: queue_inv_def split: option.splits)
  show ?case
  proof (cases "chunk_finished c")
    case False
    then have "chunkqueue_remove_finished_chunks w q = Some (w, q)"
      by (subst chunkqueue_remove_finished_chunks.simps) (simp add: c)
    with Cons.prems False c show ?thesis by (auto simp: pieces_def)
  next
    case True
    obtain w1 c1 w2 q2 us2 where d: "chunk_reset w a = Some w1" "chunk_at w1 a = Some c1"
      "(if cq_unused_chunks q > 4 then map_option (\<lambda>w2. (w2, q\<lparr>cq_first := ck_next c1, cq_last := (if cq_last q = Some a then None else cq_last q)\<rparr>)) (chunk_free w1 a)
       else map_option (\<lambda>w2. (w2, q\<lparr>cq_first := ck_next c1, cq_last := (if cq_last q = Some a then None else cq_last q),
              cq_unused := Some a, cq_unused_chunks := cq_unused_chunks q + 1\<rparr>))
              (chunk_put w1 a (c1\<lparr>ck_next := cq_unused q\<rparr>))) = Some (w2, q2)"
      "queue_inv w2 q2 as us2" "pieces w2 as = pieces w as"
      using drop_first_ok [OF Cons.prems c(2)] by (auto simp: Let_def)
    have "chunkqueue_remove_finished_chunks w q = chunkqueue_remove_finished_chunks w2 q2"
      using c True d(1-3) by (subst chunkqueue_remove_finished_chunks.simps) (auto simp: Let_def split: if_splits)
    with Cons.IH [OF d(4)] d(5) True c show ?thesis by (simp add: pieces_Cons)
  qed
qed

lemma remove_finished_rep:
  "rep w q ps \<Longrightarrow> \<exists>w1 q1. chunkqueue_remove_finished_chunks w q = Some (w1, q1) \<and> rep w1 q1 (dropWhile piece_finished ps)"
  unfolding rep_def using remove_finished_ok by blast

text \<open>Marking everything as sent, and freeing a queue.\<close>

lemma mark_loop_chain:
  assumes "chain w p as" "distinct as"
  shows "\<exists>w1. mark_loop w p = Some w1 \<and>
    (\<forall>b. chunk_at w1 b = (if b \<in> set as then map_option mark_written (chunk_at w b) else chunk_at w b))"
  using assms
proof (induction as arbitrary: w p)
  case Nil
  then show ?case by (subst mark_loop.simps) simp
next
  case (Cons a as)
  then obtain c where c: "p = Some a" "chunk_at w a = Some c" "chain w (ck_next c) as" by (auto split: option.splits)
  let ?w = "w\<lparr>w_heap := (w_heap w)[a := Some (mark_written c)]\<rparr>"
  note put = chunk_put_Some [OF c(2)]
  have "chain ?w (ck_next c) as" by (rule chain_frameI [OF c(3)]) (use Cons.prems(2) in \<open>auto simp: put(2)\<close>)
  then obtain w1 where w1: "mark_loop ?w (ck_next c) = Some w1"
    "\<forall>b. chunk_at w1 b = (if b \<in> set as then map_option mark_written (chunk_at ?w b) else chunk_at ?w b)"
    using Cons.IH [of ?w "ck_next c"] Cons.prems(2) by auto
  have "mark_loop w p = Some w1" using c put w1(1) by (subst mark_loop.simps) simp
  with w1(2) c Cons.prems(2) show ?case by (auto simp: put(2))
qed

lemma free_loop_chain:
  assumes "chain w p as" "distinct as"
  shows "\<exists>w1. free_loop w p = Some w1 \<and> (\<forall>b. chunk_at w1 b = (if b \<in> set as then None else chunk_at w b))"
  using assms
proof (induction as arbitrary: w p)
  case Nil
  then show ?case by (subst free_loop.simps) simp
next
  case (Cons a as)
  then obtain c where c: "p = Some a" "chunk_at w a = Some c" "chain w (ck_next c) as" by (auto split: option.splits)
  let ?w = "w\<lparr>w_heap := (w_heap w)[a := None]\<rparr>"
  note fr = chunk_free_Some [OF c(2)]
  have "chain ?w (ck_next c) as" by (rule chain_frameI [OF c(3)]) (use Cons.prems(2) in \<open>auto simp: fr(2)\<close>)
  then obtain w1 where w1: "free_loop ?w (ck_next c) = Some w1"
    "\<forall>b. chunk_at w1 b = (if b \<in> set as then None else chunk_at ?w b)"
    using Cons.IH [of ?w "ck_next c"] Cons.prems(2) by auto
  have "free_loop w p = Some w1" using c fr w1(1) by (subst free_loop.simps) simp
  with w1(2) c Cons.prems(2) show ?case by (auto simp: fr(2))
qed

lemma ck_next_mark [simp]: "ck_next (mark_written c) = ck_next c"
  by (simp add: mark_written_def split: chunk_type.splits)

lemma chain_map: "(\<And>a. a \<in> set as \<Longrightarrow> map_option ck_next (chunk_at w' a) = map_option ck_next (chunk_at w a)) \<Longrightarrow>
    chain w' p as = chain w p as"
proof (induction as arbitrary: p)
  case (Cons a as)
  have "map_option ck_next (chunk_at w' a) = map_option ck_next (chunk_at w a)" using Cons.prems by simp
  with Cons show ?case by (cases "chunk_at w a"; cases "chunk_at w' a") auto
qed simp

lemma mark_written_finished: "ck_type c \<noteq> UNUSED_CHUNK \<Longrightarrow> piece_finished (piece_of (mark_written c))"
  by (cases "ck_type c") (auto simp: mark_written_def chunk_finished_def split: option.splits)

lemma mark_loop_ok:
  assumes "queue_inv w q as us" "PUnused \<notin> set (pieces w as)"
  shows "\<exists>w1. mark_loop w (cq_first q) = Some w1 \<and> queue_inv w1 q as us \<and> list_all piece_finished (pieces w1 as)"
proof -
  have q: "chain w (cq_first q) as" "chain w (cq_unused q) us" "distinct (as @ us)" using assms by (auto simp: queue_inv_def)
  obtain w1 where w1: "mark_loop w (cq_first q) = Some w1"
    "\<forall>b. chunk_at w1 b = (if b \<in> set as then map_option mark_written (chunk_at w b) else chunk_at w b)"
    using mark_loop_chain [OF q(1)] q(3) by auto
  have "chain w1 p as = chain w p as" "chain w1 p us = chain w p us" for p
    using w1(2) q(3) by (auto intro!: chain_map simp: option.map_comp comp_def)
  then have "queue_inv w1 q as us" using assms(1) by (simp add: queue_inv_def)
  moreover have "piece_finished (case chunk_at w1 a of None \<Rightarrow> PUnused | Some c \<Rightarrow> piece_of c)" if a: "a \<in> set as" for a
  proof -
    obtain c where c: "chunk_at w a = Some c" using chain_mem [OF q(1) a] by blast
    then have "piece_of c \<in> set (pieces w as)" using a by (force simp: pieces_def)
    then have "ck_type c \<noteq> UNUSED_CHUNK" using assms(2) by (auto simp: piece_of_def)
    with mark_written_finished [OF this] c a w1(2) show ?thesis by simp
  qed
  ultimately show ?thesis using w1(1) by (auto simp: pieces_def list_all_iff)
qed

lemma reset_rep:
  assumes "rep w q ps" "PUnused \<notin> set ps"
  shows "\<exists>w1 q1. chunkqueue_reset w q = Some (w1, q1) \<and> rep w1 q1 [] \<and> cq_bytes_in q1 = 0 \<and> cq_bytes_out q1 = 0"
proof -
  obtain as us where as: "queue_inv w q as us" "pieces w as = ps" using assms(1) by (auto simp: rep_def)
  obtain w1 where w1: "mark_loop w (cq_first q) = Some w1" "queue_inv w1 q as us" "list_all piece_finished (pieces w1 as)"
    using mark_loop_ok [OF as(1)] as(2) assms(2) by auto
  obtain w2 q2 as2 us2 where r: "chunkqueue_remove_finished_chunks w1 q = Some (w2, q2)" "queue_inv w2 q2 as2 us2"
    "pieces w2 as2 = dropWhile piece_finished (pieces w1 as)" using remove_finished_ok [OF w1(2)] by blast
  have "pieces w2 as2 = []" using r(3) w1(3) by (simp add: list_all_iff)
  moreover have "queue_inv w2 (q2\<lparr>cq_bytes_in := 0, cq_bytes_out := 0\<rparr>) as2 us2" using r(2) by (simp add: queue_inv_def)
  ultimately have "rep w2 (q2\<lparr>cq_bytes_in := 0, cq_bytes_out := 0\<rparr>) []" unfolding rep_def by blast
  then show ?thesis using w1(1) r(1) by (simp add: chunkqueue_reset_def)
qed

lemma free_ok:
  assumes "queue_inv w q as us"
  shows "\<exists>w1. chunkqueue_free w (Some q) = Some w1 \<and>
    (\<forall>b. chunk_at w1 b = (if b \<in> set (as @ us) then None else chunk_at w b))"
proof -
  have q: "chain w (cq_first q) as" "chain w (cq_unused q) us" "distinct as" "distinct us" "set as \<inter> set us = {}"
    using assms by (auto simp: queue_inv_def)
  obtain w1 where w1: "free_loop w (cq_first q) = Some w1" "\<forall>b. chunk_at w1 b = (if b \<in> set as then None else chunk_at w b)"
    using free_loop_chain [OF q(1,3)] by blast
  have "chain w1 (cq_unused q) us" by (rule chain_frameI [OF q(2)]) (use q(5) w1(2) in auto)
  from free_loop_chain [OF this q(4)] w1 show ?thesis by (auto simp: chunkqueue_free_def)
qed

section \<open>Reachable queues\<close>

definition well_linked :: "world \<Rightarrow> chunkqueue \<Rightarrow> bool" where
  "well_linked w q = (\<exists>as us. queue_inv w q as us)"

lemma append_new_linked:
  assumes "well_linked w q" "append_new w q f = Some (a, w1, q1)" "\<And>c. ck_next (f c) = ck_next c"
  shows "well_linked w1 q1"
  using assms append_new_ok [of w q _ _ f] unfolding well_linked_def by fastforce

lemma prepend_new_linked:
  assumes "well_linked w q" "prepend_new w q f = Some (a, w1, q1)" "\<And>c. ck_next (f c) = ck_next c"
  shows "well_linked w1 q1"
  using assms prepend_new_ok [of w q _ _ f] unfolding well_linked_def by fastforce

lemma remove_finished_linked:
  "well_linked w q \<Longrightarrow> chunkqueue_remove_finished_chunks w q = Some (w1, q1) \<Longrightarrow> well_linked w1 q1"
  using remove_finished_ok unfolding well_linked_def by fastforce

lemma heap_update_linked:
  assumes "well_linked w q" "\<And>b. map_option ck_next (chunk_at w1 b) = map_option ck_next (chunk_at w b)"
  shows "well_linked w1 q"
  using assms chain_map [of _ w1 w] by (simp add: well_linked_def queue_inv_def)

lemma reset_linked:
  assumes "well_linked w q" "chunkqueue_reset w q = Some (w1, q1)"
  shows "well_linked w1 q1"
proof -
  obtain as us where as: "chain w (cq_first q) as" "distinct as" using assms(1) by (auto simp: well_linked_def queue_inv_def)
  obtain w2 q2 where r: "mark_loop w (cq_first q) = Some w2" "chunkqueue_remove_finished_chunks w2 q = Some (w1, q2)"
    "q1 = q2\<lparr>cq_bytes_in := 0, cq_bytes_out := 0\<rparr>"
    using assms(2) by (auto simp: chunkqueue_reset_def)
  have "map_option ck_next (chunk_at w2 b) = map_option ck_next (chunk_at w b)" for b
    using mark_loop_chain [OF as] r(1) by (auto simp: option.map_comp comp_def)
  then have "well_linked w2 q" by (rule heap_update_linked [OF assms(1)])
  with remove_finished_linked r(2,3) show ?thesis by (force simp: well_linked_def queue_inv_def)
qed

text \<open>One call of an operation, or an assignment to a chunk by the code that reads and writes it: the
  network layer advances \<open>offset\<close>, the users of \<open>chunkqueue_get_append_buffer\<close> fill \<open>mem\<close>.\<close>

inductive queue_step :: "world \<times> chunkqueue \<Rightarrow> world \<times> chunkqueue \<Rightarrow> bool" where
  append_file: "chunkqueue_append_file w q fn off len = Some s \<Longrightarrow> queue_step (w, q) s"
| append_buffer: "chunkqueue_append_buffer w q mem = Some s \<Longrightarrow> queue_step (w, q) s"
| append_buffer_weak: "chunkqueue_append_buffer_weak w q mem = Some s \<Longrightarrow> queue_step (w, q) s"
| prepend_buffer: "chunkqueue_prepend_buffer w q mem = Some s \<Longrightarrow> queue_step (w, q) s"
| append_mem: "chunkqueue_append_mem w q m len = Some s \<Longrightarrow> queue_step (w, q) s"
| get_append: "chunkqueue_get_append_buffer w q = Some (a, s) \<Longrightarrow> queue_step (w, q) s"
| get_prepend: "chunkqueue_get_prepend_buffer w q = Some (a, s) \<Longrightarrow> queue_step (w, q) s"
| get_tempfile: "chunkqueue_get_append_tempfile mkstemp w q = Some (a, s) \<Longrightarrow> queue_step (w, q) s"
| tempdirs: "chunkqueue_set_tempdirs (Some q) d = (r, Some q1) \<Longrightarrow> queue_step (w, q) (w, q1)"
| remove_finished: "chunkqueue_remove_finished_chunks w q = Some s \<Longrightarrow> queue_step (w, q) s"
| reset: "chunkqueue_reset w q = Some s \<Longrightarrow> queue_step (w, q) s"
| assign: "chunk_at w a = Some c \<Longrightarrow> ck_next c1 = ck_next c \<Longrightarrow> chunk_put w a c1 = Some w1 \<Longrightarrow> queue_step (w, q) (w1, q)"

inductive reachable_queue :: "world \<times> chunkqueue \<Rightarrow> bool" where
  start: "reachable_queue (w, chunkqueue_init)"
| step: "reachable_queue s \<Longrightarrow> queue_step s s1 \<Longrightarrow> reachable_queue s1"

lemmas append_defs = chunkqueue_append_file_def chunkqueue_append_buffer_def chunkqueue_append_buffer_weak_def
  chunkqueue_append_mem_def chunkqueue_get_append_buffer_def

lemma queue_step_linked:
  assumes "queue_step s s1" "well_linked (fst s) (snd s)"
  shows "well_linked (fst s1) (snd s1)"
  using assms
proof (induction rule: queue_step.induct)
  case (prepend_buffer w q mem s)
  then show ?case by (cases s) (auto simp: chunkqueue_prepend_buffer_def split: if_splits elim!: prepend_new_linked)
next
  case (get_prepend w q a s)
  then show ?case by (cases s) (auto simp: chunkqueue_get_prepend_buffer_def elim!: prepend_new_linked)
next
  case (get_tempfile mkstemp w q a s)
  then obtain f where "append_new w q f = Some (a, s)" "\<And>c. ck_next (f c) = ck_next c"
    by (auto simp: chunkqueue_get_append_tempfile_def Let_def)
  with get_tempfile show ?case by (cases s) (auto elim!: append_new_linked)
next
  case (tempdirs q d r q1 w)
  then have "queue_inv w q1 as us = queue_inv w q as us" for as us by (auto simp: chunkqueue_set_tempdirs_def queue_inv_def)
  with tempdirs show ?case by (simp add: well_linked_def)
next
  case (remove_finished w q s)
  then show ?case by (cases s) (auto elim!: remove_finished_linked)
next
  case (reset w q s)
  then show ?case by (cases s) (auto elim!: reset_linked)
next
  case (assign w a c c1 w1 q)
  have "map_option ck_next (chunk_at w1 b) = map_option ck_next (chunk_at w b)" for b
    using chunk_put_Some [OF assign(1), of c1] assign(1-3) by auto
  with assign(4) show ?case by (auto intro: heap_update_linked)
next
  case (append_file w q fn off len s)
  then show ?case by (cases s) (auto simp: append_defs split: if_splits elim!: append_new_linked)
next
  case (append_buffer w q mem s)
  then show ?case by (cases s) (auto simp: append_defs split: if_splits elim!: append_new_linked)
next
  case (append_buffer_weak w q mem s)
  then show ?case by (cases s) (auto simp: append_defs split: if_splits elim!: append_new_linked)
next
  case (append_mem w q m len s)
  then show ?case by (cases s) (auto simp: append_defs split: if_splits elim!: append_new_linked)
next
  case (get_append w q a s)
  then show ?case by (cases s) (auto simp: append_defs elim!: append_new_linked)
qed

lemma reachable_linked: "reachable_queue s \<Longrightarrow> well_linked (fst s) (snd s)"
proof (induction rule: reachable_queue.induct)
  case (start w)
  have "queue_inv w chunkqueue_init [] []" by (simp add: queue_inv_def chunkqueue_init_def)
  then show ?case by (auto simp: well_linked_def)
next
  case (step s s1)
  then show ?case using queue_step_linked by blast
qed

lemma linked_rep: "well_linked w q \<longleftrightarrow> (\<exists>ps. rep w q ps)"
  by (auto simp: well_linked_def rep_def)

section \<open>The interface of a queue\<close>

text \<open>What the producers of output rely on: adding an item adds its pieces at the end, and removing
  what has been sent drops a prefix of finished pieces.\<close>

datatype 'x event = Add 'x | Sent

fun add_all :: "('s \<Rightarrow> 'x \<Rightarrow> 's option) \<Rightarrow> 's \<Rightarrow> 'x list \<Rightarrow> 's option" where
  "add_all add s [] = Some s"
| "add_all add s (x # xs) = do { s1 \<leftarrow> add s x; add_all add s1 xs }"

fun run_events :: "('s \<Rightarrow> 'x \<Rightarrow> 's option) \<Rightarrow> ('s \<Rightarrow> 's option) \<Rightarrow> 's \<Rightarrow> 'x event list \<Rightarrow> 's option" where
  "run_events add drp s [] = Some s"
| "run_events add drp s (Add x # es) = do { s1 \<leftarrow> add s x; run_events add drp s1 es }"
| "run_events add drp s (Sent # es) = do { s1 \<leftarrow> drp s; run_events add drp s1 es }"

locale piece_queue =
  fixes holds :: "'s \<Rightarrow> 'p list \<Rightarrow> bool"
    and add :: "'s \<Rightarrow> 'x \<Rightarrow> 's option"
    and pcs :: "'x \<Rightarrow> 'p list"
    and ok :: "'x \<Rightarrow> bool"
    and drop_done :: "'s \<Rightarrow> 's option"
    and over :: "'p \<Rightarrow> bool"
  assumes add_law: "holds s ps \<Longrightarrow> ok x \<Longrightarrow> \<exists>s1. add s x = Some s1 \<and> holds s1 (ps @ pcs x)"
    and drop_law: "holds s ps \<Longrightarrow> \<exists>s1. drop_done s = Some s1 \<and> holds s1 (dropWhile over ps)"
begin

lemma add_all_law:
  "holds s ps \<Longrightarrow> list_all ok xs \<Longrightarrow> \<exists>s1. add_all add s xs = Some s1 \<and> holds s1 (ps @ concat (map pcs xs))"
proof (induction xs arbitrary: s ps)
  case (Cons x xs)
  then obtain s1 where s1: "add s x = Some s1" "holds s1 (ps @ pcs x)" using add_law by fastforce
  from Cons.IH [OF s1(2)] Cons.prems(2) s1(1) show ?case by auto
qed auto

text \<open>However additions and removals are interleaved, what is left at the end is the rest of what was
  added, in order, behind a prefix of finished pieces.\<close>

lemma run_law:
  assumes "holds s ps" "\<And>x. Add x \<in> set es \<Longrightarrow> ok x"
  shows "\<exists>s1 gone left. run_events add drop_done s es = Some s1 \<and> holds s1 left \<and> list_all over gone \<and>
    gone @ left = ps @ concat (map (\<lambda>e. case e of Add x \<Rightarrow> pcs x | Sent \<Rightarrow> []) es)"
  using assms
proof (induction es arbitrary: s ps)
  case (Cons e es)
  show ?case
  proof (cases e)
    case (Add x)
    then obtain s1 where s1: "add s x = Some s1" "holds s1 (ps @ pcs x)" using Cons.prems add_law by fastforce
    from Cons.IH [OF s1(2)] Cons.prems(2) s1(1) Add show ?thesis by auto
  next
    case Sent
    obtain s1 where s1: "drop_done s = Some s1" "holds s1 (dropWhile over ps)" using drop_law [OF Cons.prems(1)] by blast
    obtain s2 gone left where r: "run_events add drop_done s1 es = Some s2" "holds s2 left" "list_all over gone"
      "gone @ left = dropWhile over ps @ concat (map (\<lambda>e. case e of Add x \<Rightarrow> pcs x | Sent \<Rightarrow> []) es)"
      using Cons.IH [OF s1(2)] Cons.prems(2) by auto
    let ?g = "takeWhile over ps @ gone"
    have "?g @ left = ps @ concat (map (\<lambda>e. case e of Add x \<Rightarrow> pcs x | Sent \<Rightarrow> []) (e # es))"
      using r(4) Sent by simp
    moreover have "list_all over ?g" using r(3) by (auto simp: list_all_iff dest: set_takeWhileD)
    ultimately show ?thesis using r s1 Sent by (intro exI [of _ s2] exI [of _ ?g] exI [of _ left]) simp
  qed
qed (auto intro: exI [of _ "[]"])

end

definition holds_pieces :: "world \<times> chunkqueue \<Rightarrow> piece list \<Rightarrow> bool" where
  "holds_pieces s ps = rep (fst s) (snd s) ps"

definition queue_add_mem :: "world \<times> chunkqueue \<Rightarrow> string \<Rightarrow> (world \<times> chunkqueue) option" where
  "queue_add_mem s x = chunkqueue_append_mem (fst s) (snd s) x (length x + 1)"

definition queue_drop :: "world \<times> chunkqueue \<Rightarrow> (world \<times> chunkqueue) option" where
  "queue_drop s = chunkqueue_remove_finished_chunks (fst s) (snd s)"

interpretation mq: piece_queue holds_pieces queue_add_mem "\<lambda>x. [PMem (Some x) 0]" "\<lambda>_. True" queue_drop piece_finished
proof
  show "\<exists>s1. queue_add_mem s x = Some s1 \<and> holds_pieces s1 (ps @ [PMem (Some x) 0])" if "holds_pieces s ps" for s ps x
    using that append_mem_rep [of "fst s" "snd s" ps "length x + 1" x] by (auto simp: holds_pieces_def queue_add_mem_def)
  show "\<exists>s1. queue_drop s = Some s1 \<and> holds_pieces s1 (dropWhile piece_finished ps)" if "holds_pieces s ps" for s ps
    using that remove_finished_rep [of "fst s" "snd s" ps] by (auto simp: holds_pieces_def queue_drop_def)
qed

section \<open>Properties\<close>

text \<open>Writing to a chunk of the queue changes its piece only.\<close>

lemma put_in_queue:
  assumes "queue_inv w q (as @ [a]) us" "chunk_at w a = Some c" "ck_next c1 = ck_next c"
  shows "\<exists>w1. chunk_put w a c1 = Some w1 \<and> queue_inv w1 q (as @ [a]) us \<and> pieces w1 (as @ [a]) = pieces w as @ [piece_of c1]"
proof -
  let ?w = "w\<lparr>w_heap := (w_heap w)[a := Some c1]\<rparr>"
  note put = chunk_put_Some [OF assms(2), of c1]
  have "chain ?w p bs = chain w p bs" for p bs by (rule chain_map) (simp add: put(2) assms)
  then have "queue_inv ?w q (as @ [a]) us" using assms(1) by (simp add: queue_inv_def)
  moreover have "a \<notin> set as" using assms(1) by (simp add: queue_inv_def)
  then have "pieces ?w as = pieces w as" by (intro pieces_cong) (auto simp: put(2))
  ultimately show ?thesis using put by (auto simp: pieces_def)
qed

lemma put_in_front:
  assumes "queue_inv w q (a # as) us" "chunk_at w a = Some c" "ck_next c1 = ck_next c"
  shows "\<exists>w1. chunk_put w a c1 = Some w1 \<and> queue_inv w1 q (a # as) us \<and> pieces w1 (a # as) = piece_of c1 # pieces w as"
proof -
  let ?w = "w\<lparr>w_heap := (w_heap w)[a := Some c1]\<rparr>"
  note put = chunk_put_Some [OF assms(2), of c1]
  have "chain ?w p bs = chain w p bs" for p bs by (rule chain_map) (simp add: put(2) assms)
  then have "queue_inv ?w q (a # as) us" using assms(1) by (simp add: queue_inv_def del: chain.simps)
  moreover have "a \<notin> set as" using assms(1) by (simp add: queue_inv_def)
  then have "pieces ?w as = pieces w as" by (intro pieces_cong) (auto simp: put(2))
  ultimately show ?thesis using put by (auto simp: pieces_def)
qed

text \<open>A chunk that was handed out with an empty buffer: the queue holds it, and what the caller
  writes to the buffer is in the queue.\<close>

definition handed_out :: "world \<Rightarrow> nat \<Rightarrow> (world \<Rightarrow> bool) \<Rightarrow> string \<Rightarrow> bool" where
  "handed_out w a P s = (\<exists>c w1. chunk_at w a = Some c \<and> chunk_put w a (c\<lparr>ck_mem := Some s\<rparr>) = Some w1 \<and> P w1)"

lemma append_new_chunk:
  assumes "append_new w q f = Some (a, w1, q1)"
  shows "\<exists>c c0. chunk_at w1 a = Some c \<and> piece_of c = piece_of (f c0) \<and> ck_file_fd c = ck_file_fd (f c0) \<and>
    cq_bytes_in q1 = cq_bytes_in q \<and> cq_tempdirs q1 = cq_tempdirs q"
proof -
  obtain w2 q2 c0 w3 where r: "chunkqueue_get_unused_chunk w q = Some (a, w2, q2)" "chunk_at w2 a = Some c0" "chunk_put w2 a (f c0) = Some w3"
    "chunkqueue_append_chunk w3 q2 a = Some (w1, q1)" using assms by (auto simp: append_new_def)
  have "cq_bytes_in q2 = cq_bytes_in q" "cq_tempdirs q2 = cq_tempdirs q"
    using r(1) by (auto simp: chunkqueue_get_unused_chunk_def chunk_init_def split: option.splits)
  moreover have a3: "chunk_at w3 a = Some (f c0)" using r(3) chunk_put_Some [OF r(2), of "f c0"] by auto
  have "\<exists>c. chunk_at w1 a = Some c \<and> piece_of c = piece_of (f c0) \<and> ck_file_fd c = ck_file_fd (f c0)"
  proof (cases "cq_last q2")
    case None
    then show ?thesis using r(4) a3 by (auto simp: chunkqueue_append_chunk_def)
  next
    case (Some l)
    then obtain cl where cl: "chunk_at w3 l = Some cl" "chunk_put w3 l (cl\<lparr>ck_next := Some a\<rparr>) = Some w1"
      using r(4) by (auto simp: chunkqueue_append_chunk_def)
    then have "chunk_at w1 b = (if b = l then Some (cl\<lparr>ck_next := Some a\<rparr>) else chunk_at w3 b)" for b
      using chunk_put_Some [OF cl(1), of "cl\<lparr>ck_next := Some a\<rparr>"] by auto
    then show ?thesis using a3 cl(1) by (cases "l = a") auto
  qed
  moreover have "cq_bytes_in q1 = cq_bytes_in q2" "cq_tempdirs q1 = cq_tempdirs q2" using r(4) by (auto simp: chunkqueue_append_chunk_def)
  ultimately show ?thesis by auto
qed

lemma append_new_last:
  assumes "rep w q ps" "\<And>c. ck_next (f c) = ck_next c"
  shows "\<exists>a w1 q1 as us c c0. append_new w q f = Some (a, w1, q1) \<and> queue_inv w1 q1 (as @ [a]) us \<and>
    pieces w1 as = ps \<and> chunk_at w1 a = Some c \<and> piece_of c = piece_of (f c0) \<and> ck_file_fd c = ck_file_fd (f c0) \<and>
    cq_bytes_in q1 = cq_bytes_in q \<and> cq_tempdirs q1 = cq_tempdirs q"
proof -
  obtain as us where as: "queue_inv w q as us" "pieces w as = ps" using assms(1) by (auto simp: rep_def)
  obtain a w1 q1 us1 c0 where r: "append_new w q f = Some (a, w1, q1)" "queue_inv w1 q1 (as @ [a]) us1"
    "pieces w1 (as @ [a]) = pieces w as @ [piece_of (f c0)]" using append_new_ok [OF as(1), of f] assms(2) by blast
  have "chain w1 (cq_first q1) (as @ [a])" using r(2) by (simp add: queue_inv_def)
  from append_new_chunk [OF r(1)] obtain c c1 where c: "chunk_at w1 a = Some c" "piece_of c = piece_of (f c1)"
    "ck_file_fd c = ck_file_fd (f c1)" "cq_bytes_in q1 = cq_bytes_in q" "cq_tempdirs q1 = cq_tempdirs q" by blast
  moreover have "pieces w1 as = ps" using r(3) as(2) by (auto simp: pieces_def)
  ultimately show ?thesis using r(1,2) by blast
qed

lemma prepend_new_first:
  assumes "rep w q ps" "\<And>c. ck_next (f c) = ck_next c"
  shows "\<exists>a w1 q1 as us c c0. prepend_new w q f = Some (a, w1, q1) \<and> queue_inv w1 q1 (a # as) us \<and>
    pieces w1 as = ps \<and> chunk_at w1 a = Some c \<and> piece_of c = piece_of (f c0)"
proof -
  obtain as us where as: "queue_inv w q as us" "pieces w as = ps" using assms(1) by (auto simp: rep_def)
  obtain a w1 q1 us1 c0 where r: "prepend_new w q f = Some (a, w1, q1)" "queue_inv w1 q1 (a # as) us1"
    "pieces w1 (a # as) = piece_of (f c0) # pieces w as" using prepend_new_ok [OF as(1), of f] assms(2) by blast
  have "chain w1 (cq_first q1) (a # as)" using r(2) by (simp add: queue_inv_def)
  from chain_mem [OF this, of a] obtain c where "chunk_at w1 a = Some c" by auto
  moreover have "pieces w1 as = ps" "piece_of c = piece_of (f c0)" if "chunk_at w1 a = Some c" for c
    using r(3) as(2) that by (auto simp: pieces_def)
  ultimately show ?thesis using r(1,2) by blast
qed

lemma mem_piece: "piece_of c = PMem b off \<Longrightarrow> piece_of (c\<lparr>ck_mem := b1\<rparr>) = PMem b1 off"
  by (cases "ck_type c") (simp_all add: piece_of_def)

lemma get_append_buffer_rep:
  assumes "rep w q ps"
  shows "\<exists>a w1 q1. chunkqueue_get_append_buffer w q = Some (a, w1, q1) \<and> rep w1 q1 (ps @ [PMem None 0]) \<and>
    handed_out w1 a (\<lambda>w2. rep w2 q1 (ps @ [PMem (Some s) 0])) s"
proof -
  let ?f = "\<lambda>c::chunk. c\<lparr>ck_type := MEM_CHUNK, ck_offset := 0, ck_mem := None\<rparr>"
  obtain a w1 q1 as us c c0 where r: "append_new w q ?f = Some (a, w1, q1)" "queue_inv w1 q1 (as @ [a]) us"
    "pieces w1 as = ps" "chunk_at w1 a = Some c" "piece_of c = piece_of (?f c0)" using append_new_last [OF assms, of ?f] by fastforce
  then have c: "piece_of c = PMem None 0" by (simp add: piece_of_def)
  have "rep w1 q1 (ps @ [PMem None 0])" using r c by (auto simp: rep_def pieces_def)
  moreover obtain w2 where "chunk_put w1 a (c\<lparr>ck_mem := Some s\<rparr>) = Some w2" "queue_inv w2 q1 (as @ [a]) us"
    "pieces w2 (as @ [a]) = ps @ [PMem (Some s) 0]"
    using put_in_queue [OF r(2,4), of "c\<lparr>ck_mem := Some s\<rparr>"] r(3) mem_piece [OF c] by auto
  ultimately show ?thesis using r(1,4) by (auto simp: chunkqueue_get_append_buffer_def handed_out_def rep_def)
qed

lemma get_prepend_buffer_rep:
  assumes "rep w q ps"
  shows "\<exists>a w1 q1. chunkqueue_get_prepend_buffer w q = Some (a, w1, q1) \<and> rep w1 q1 (PMem None 0 # ps) \<and>
    handed_out w1 a (\<lambda>w2. rep w2 q1 (PMem (Some s) 0 # ps)) s"
proof -
  let ?f = "\<lambda>c::chunk. c\<lparr>ck_type := MEM_CHUNK, ck_offset := 0, ck_mem := None\<rparr>"
  obtain a w1 q1 as us c c0 where r: "prepend_new w q ?f = Some (a, w1, q1)" "queue_inv w1 q1 (a # as) us"
    "pieces w1 as = ps" "chunk_at w1 a = Some c" "piece_of c = piece_of (?f c0)" using prepend_new_first [OF assms, of ?f] by auto
  then have c: "piece_of c = PMem None 0" by (simp add: piece_of_def)
  have "pieces w1 (a # as) = PMem None 0 # ps" using r c by (simp add: pieces_def)
  then have "rep w1 q1 (PMem None 0 # ps)" using r(2) unfolding rep_def by blast
  moreover obtain w2 where "chunk_put w1 a (c\<lparr>ck_mem := Some s\<rparr>) = Some w2" "queue_inv w2 q1 (a # as) us"
    "pieces w2 (a # as) = PMem (Some s) 0 # ps"
    using put_in_front [OF r(2,4), of "c\<lparr>ck_mem := Some s\<rparr>"] r(3) mem_piece [OF c] by auto
  moreover then have "rep w2 q1 (PMem (Some s) 0 # ps)" unfolding rep_def by blast
  ultimately show ?thesis using r(1,4) by (auto simp: chunkqueue_get_prepend_buffer_def handed_out_def)
qed

text \<open>The directories for temporary files are strings: then there is a name for the file, and its descriptor is -1 only when
  \<open>mkstemp\<close> said so.\<close>

definition dirs_ok :: "chunkqueue \<Rightarrow> bool" where
  "dirs_ok q = (case cq_tempdirs q of None \<Rightarrow> True | Some dirs \<Rightarrow> array_safe dirs)"

lemma tempdir_loop_total:
  assumes "list_all (\<lambda>slot. case slot of None \<Rightarrow> False | Some du \<Rightarrow> is_text du) (take n d)" "n \<le> length d"
  shows "\<exists>name1 fd1 created. tempdir_loop mk d n name fd = Some (name1, fd1, created) \<and>
    (fd1 = -1 \<longrightarrow> n > 0 \<longrightarrow> (\<exists>t. fst (mk t) = -1))"
  using assms
proof (induction mk d n name fd rule: tempdir_loop.induct)
  case (2 mk du d n name fd)
  then have "is_text du" by simp
  then obtain v where v: "(case du_val du of DString v \<Rightarrow> Some v | DResponse v \<Rightarrow> Some v | _ \<Rightarrow> None) = Some v"
    by (cases "du_val du") (auto simp: is_text_def)
  obtain fd' name' where m: "mk (bs_str (bs_append (bs_slash v) ''lighttpd-upload-XXXXXX'')) = (fd', name')" by fastforce
  show ?case
  proof (cases "fd' = -1")
    case True
    then have "\<exists>name1 fd1 created. tempdir_loop mk d n name' fd' = Some (name1, fd1, created)" using 2(1) [OF v refl m [symmetric]] 2(2,3) by auto
    moreover have "fst (mk (bs_str (bs_append (bs_slash v) ''lighttpd-upload-XXXXXX''))) = -1" using m True by simp
    then have "\<exists>t. fst (mk t) = -1" by blast
    ultimately show ?thesis using v m True by simp
  qed (use v m in auto)
qed auto

lemma tempfile_name:
  assumes "dirs_ok q"
  obtains name fd created where "(case cq_tempdirs q of
        Some dirs \<Rightarrow>
          if a_used dirs \<noteq> 0 then tempdir_loop mk (a_data dirs) (a_used dirs) template (-1)
          else (case mk template of (fd, name) \<Rightarrow> Some (name, fd, fd \<noteq> -1))
      | None \<Rightarrow> (case mk template of (fd, name) \<Rightarrow> Some (name, fd, fd \<noteq> -1))) = Some (name, fd, created)"
    "fd = -1 \<longrightarrow> (\<exists>t. fst (mk t) = -1)"
proof (cases "\<exists>dirs. cq_tempdirs q = Some dirs \<and> a_used dirs \<noteq> 0")
  case True
  then obtain dirs where d: "cq_tempdirs q = Some dirs" "a_used dirs \<noteq> 0" by blast
  then have "list_all (\<lambda>slot. case slot of None \<Rightarrow> False | Some du \<Rightarrow> is_text du) (take (a_used dirs) (a_data dirs))"
    "a_used dirs \<le> length (a_data dirs)" using assms by (simp_all add: dirs_ok_def array_safe_def)
  from tempdir_loop_total [OF this, of mk template "-1"] d that show thesis by auto
next
  case False
  obtain fd name where m: "mk template = (fd, name)" by fastforce
  then have "fd = -1 \<longrightarrow> (\<exists>t. fst (mk t) = -1)" by (intro impI exI [of _ template]) simp
  then show thesis using that [of name fd "fd \<noteq> -1"] False m by (cases "cq_tempdirs q") auto
qed

lemma get_append_tempfile_new:
  assumes "rep w q ps" "dirs_ok q"
  obtains a w1 q1 as us c name start where "chunkqueue_get_append_tempfile mk w q = Some (a, w1, q1)" "queue_inv w1 q1 (as @ [a]) us"
    "pieces w1 as = ps" "chunk_at w1 a = Some c" "piece_of c = PFile (Some name) start 0 0" "ck_file_fd c = -1 \<longrightarrow> (\<exists>t. fst (mk t) = -1)"
    "cq_bytes_in q1 = cq_bytes_in q" "dirs_ok q1"
proof -
  define template where "template = ''/var/tmp/lighttpd-upload-XXXXXX''"
  obtain name fd created where t: "(case cq_tempdirs q of
        Some dirs \<Rightarrow>
          if a_used dirs \<noteq> 0 then tempdir_loop mk (a_data dirs) (a_used dirs) template (-1)
          else (case mk template of (fd, name) \<Rightarrow> Some (name, fd, fd \<noteq> -1))
      | None \<Rightarrow> (case mk template of (fd, name) \<Rightarrow> Some (name, fd, fd \<noteq> -1))) = Some (name, fd, created)"
    "fd = -1 \<longrightarrow> (\<exists>t. fst (mk t) = -1)" using tempfile_name [OF assms(2)] .
  let ?f = "\<lambda>c. c\<lparr>ck_type := FILE_CHUNK, ck_offset := 0, ck_file_fd := fd,
       ck_is_temp := (created \<or> ck_is_temp c), ck_file_name := Some name, ck_file_length := 0\<rparr>"
  obtain a w1 q1 as us c c0 where r: "append_new w q ?f = Some (a, w1, q1)" "queue_inv w1 q1 (as @ [a]) us"
    "pieces w1 as = ps" "chunk_at w1 a = Some c" "piece_of c = piece_of (?f c0)" "ck_file_fd c = ck_file_fd (?f c0)"
    "cq_bytes_in q1 = cq_bytes_in q" "cq_tempdirs q1 = cq_tempdirs q" using append_new_last [OF assms(1), of ?f] by auto
  have "chunkqueue_get_append_tempfile mk w q = Some (a, w1, q1)"
    unfolding chunkqueue_get_append_tempfile_def Let_def template_def [symmetric] t(1) using r(1) by simp
  then show thesis using that r t(2) assms(2) by (simp add: piece_of_def dirs_ok_def)
qed

lemma get_append_tempfile_rep:
  assumes "rep w q ps" "dirs_ok q"
  shows "\<exists>a w1 q1 name start. chunkqueue_get_append_tempfile mkstemp w q = Some (a, w1, q1) \<and>
    rep w1 q1 (ps @ [PFile (Some name) start 0 0])"
proof -
  obtain a w1 q1 as us c name start where t: "chunkqueue_get_append_tempfile mkstemp w q = Some (a, w1, q1)" "queue_inv w1 q1 (as @ [a]) us"
    "pieces w1 as = ps" "chunk_at w1 a = Some c" "piece_of c = PFile (Some name) start 0 0" using get_append_tempfile_new [OF assms] .
  then have "pieces w1 (as @ [a]) = ps @ [PFile (Some name) start 0 0]" by (simp add: pieces_def)
  with t(1,2) show ?thesis unfolding rep_def by blast
qed

text \<open>C2. Every operation that changes or measures a chunk queue does on the linked nodes what its
  specification does on the list of pieces, without following a dangling or \<open>NULL\<close> pointer:
  \<open>chunkqueue_append_mem\<close> (the first \<open>len - 1\<close> octets, nothing for \<open>len = 0\<close>), \<open>chunkqueue_append_buffer\<close>,
  \<open>chunkqueue_append_buffer_weak\<close> and \<open>chunkqueue_append_file\<close> add a piece at the end, and nothing for
  \<open>NULL\<close> and an empty file; \<open>chunkqueue_prepend_buffer\<close> adds in front; \<open>chunkqueue_get_append_buffer\<close> and
  \<open>chunkqueue_get_prepend_buffer\<close> add an empty piece at the end and in front and hand out the chunk
  whose buffer it is, so that what the caller writes to it is in the queue;
  \<open>chunkqueue_get_append_tempfile\<close> adds an empty file, provided the configured directories are strings;
  \<open>chunkqueue_remove_finished_chunks\<close> drops exactly the finished prefix; \<open>chunkqueue_reset\<close> empties a queue that has no
  chunk of type \<open>UNUSED_CHUNK\<close>; the length is the sum of the lengths, the octets written are the sum
  of the offsets, and a queue is empty when the list is. The length given to \<open>chunkqueue_append_mem\<close> must
  not pass the memory by more than the one octet for the terminating zero.\<close>

theorem chunkqueue_refines_list:
  assumes "rep w q ps" "len - 1 \<le> length s"
  shows "(\<exists>w1 q1. chunkqueue_append_mem w q s len = Some (w1, q1) \<and>
       rep w1 q1 (if len = 0 then ps else ps @ [PMem (Some (take (len - 1) s)) 0])) \<and>
    (\<exists>w1 q1. chunkqueue_append_buffer w q b = Some (w1, q1) \<and> rep w1 q1 (if b = None then ps else ps @ [PMem b 0])) \<and>
    (\<exists>w1 q1. chunkqueue_append_buffer_weak w q b = Some (w1, q1) \<and> rep w1 q1 (if b = None then ps else ps @ [PMem b 0])) \<and>
    (\<exists>w1 q1. chunkqueue_prepend_buffer w q b = Some (w1, q1) \<and> rep w1 q1 (if b = None then ps else PMem b 0 # ps)) \<and>
    (\<exists>w1 q1. chunkqueue_append_file w q fn off flen = Some (w1, q1) \<and>
       rep w1 q1 (if flen = 0 then ps else ps @ [PFile fn off flen 0])) \<and>
    (\<exists>a w1 q1. chunkqueue_get_append_buffer w q = Some (a, w1, q1) \<and> rep w1 q1 (ps @ [PMem None 0]) \<and>
       handed_out w1 a (\<lambda>w2. rep w2 q1 (ps @ [PMem (Some s) 0])) s) \<and>
    (\<exists>a w1 q1. chunkqueue_get_prepend_buffer w q = Some (a, w1, q1) \<and> rep w1 q1 (PMem None 0 # ps) \<and>
       handed_out w1 a (\<lambda>w2. rep w2 q1 (PMem (Some s) 0 # ps)) s) \<and>
    (dirs_ok q \<longrightarrow>
       (\<exists>a w1 q1 name start. chunkqueue_get_append_tempfile mkstemp w q = Some (a, w1, q1) \<and>
          rep w1 q1 (ps @ [PFile (Some name) start 0 0]))) \<and>
    (\<exists>w1 q1. chunkqueue_remove_finished_chunks w q = Some (w1, q1) \<and> rep w1 q1 (dropWhile piece_finished ps)) \<and>
    (PUnused \<notin> set ps \<longrightarrow> (\<exists>w1 q1. chunkqueue_reset w q = Some (w1, q1) \<and> rep w1 q1 [] \<and>
       cq_bytes_in q1 = 0 \<and> cq_bytes_out q1 = 0)) \<and>
    chunkqueue_length w q = Some (sum_list (map piece_length ps)) \<and>
    chunkqueue_written w q = Some (sum_list (map piece_offset ps)) \<and>
    (chunkqueue_is_empty q \<longleftrightarrow> ps = [])"
  by (intro conjI impI append_mem_rep append_buffer_rep append_buffer_weak_rep prepend_buffer_rep append_file_rep
      get_append_buffer_rep get_prepend_buffer_rep get_append_tempfile_rep remove_finished_rep reset_rep [OF assms(1)]
      length_rep [OF assms(1)] written_rep [OF assms(1)] is_empty_rep [OF assms(1)] assms)

theorem chunkqueue_refines_list_witness:
  "(\<exists>w1 q1. chunkqueue_append_mem \<lparr>w_heap = [], w_unlinked = [], w_closed = [], w_unmapped = []\<rparr> chunkqueue_init ''abc'' 3 =
     Some (w1, q1) \<and> rep w1 q1 [PMem (Some ''ab'') 0]) \<and>
   (\<exists>a w1 q1 name start. chunkqueue_get_append_tempfile (\<lambda>t. (7, t))
      \<lparr>w_heap = [], w_unlinked = [], w_closed = [], w_unmapped = []\<rparr> chunkqueue_init = Some (a, w1, q1) \<and>
      rep w1 q1 [PFile (Some name) start 0 0])"
  using chunkqueue_refines_list [OF rep_init [of "\<lparr>w_heap = [], w_unlinked = [], w_closed = [], w_unmapped = []\<rparr>"],
      of 3 "''abc''" None None 0 0 "\<lambda>t. (7, t)"]
  by (simp add: numeral_eq_Suc chunkqueue_init_def dirs_ok_def)

text \<open>C18. In every state a chunk queue can reach, whatever sequence of operations and of assignments to
  its chunks led there, the chain of chunks and the chain of unused chunks are acyclic and disjoint,
  \<open>last\<close> is the end of the chain, and at most five chunks are kept for reuse.\<close>

theorem chunkqueue_invariant:
  assumes "reachable_queue (w, q)"
  shows "\<exists>as us. chain w (cq_first q) as \<and> chain w (cq_unused q) us \<and> distinct (as @ us) \<and>
    cq_last q = (if as = [] then None else Some (last as)) \<and> cq_unused_chunks q = length us \<and> length us \<le> 5"
  using reachable_linked [OF assms] by (simp add: well_linked_def queue_inv_def)

theorem chunkqueue_invariant_witness:
  "\<exists>as us. chain \<lparr>w_heap = [], w_unlinked = [], w_closed = [], w_unmapped = []\<rparr> (cq_first chunkqueue_init) as \<and>
    chain \<lparr>w_heap = [], w_unlinked = [], w_closed = [], w_unmapped = []\<rparr> (cq_unused chunkqueue_init) us \<and> distinct (as @ us) \<and>
    cq_last chunkqueue_init = (if as = [] then None else Some (last as)) \<and>
    cq_unused_chunks chunkqueue_init = length us \<and> length us \<le> 5"
  using chunkqueue_invariant [OF reachable_queue.start [of "\<lparr>w_heap = [], w_unlinked = [], w_closed = [], w_unmapped = []\<rparr>"]] .

text \<open>However output is added and sent output is removed, what remains in the queue is what was
  added and not yet removed, in the order in which it was added; nothing that is not finished is ever
  dropped.\<close>

theorem chunkqueue_fifo:
  assumes "rep w q ps"
  shows "\<exists>w1 q1 gone left. run_events queue_add_mem queue_drop (w, q) es = Some (w1, q1) \<and> rep w1 q1 left \<and>
    list_all piece_finished gone \<and>
    gone @ left = ps @ concat (map (\<lambda>e. case e of Add x \<Rightarrow> [PMem (Some x) 0] | Sent \<Rightarrow> []) es)"
  using mq.run_law [of "(w, q)" ps es] assms by (fastforce simp: holds_pieces_def)

theorem chunkqueue_fifo_witness:
  "\<exists>w1 q1 gone left. run_events queue_add_mem queue_drop
      (\<lparr>w_heap = [], w_unlinked = [], w_closed = [], w_unmapped = []\<rparr>, chunkqueue_init) [Add ''ab'', Sent, Add ''c''] = Some (w1, q1) \<and>
    rep w1 q1 left \<and> list_all piece_finished gone \<and> gone @ left = [PMem (Some ''ab'') 0, PMem (Some ''c'') 0]"
  using chunkqueue_fifo [OF rep_init [of "\<lparr>w_heap = [], w_unlinked = [], w_closed = [], w_unmapped = []\<rparr>"],
      of "[Add ''ab'', Sent, Add ''c'']"] by simp

text \<open>C28. Resetting a queue terminates and leaves it empty with its counters at zero, and freeing it
  releases exactly its own chunks.\<close>

theorem chunkqueue_reset_free:
  assumes "queue_inv w q as us" "PUnused \<notin> set (pieces w as)"
  shows "(\<exists>w1 q1. chunkqueue_reset w q = Some (w1, q1) \<and> rep w1 q1 [] \<and> cq_bytes_in q1 = 0 \<and> cq_bytes_out q1 = 0) \<and>
    (\<exists>w1. chunkqueue_free w (Some q) = Some w1 \<and> (\<forall>b. chunk_at w1 b = (if b \<in> set (as @ us) then None else chunk_at w b)))"
  using reset_rep [of w q "pieces w as"] free_ok [OF assms(1)] assms by (auto simp: rep_def)

theorem chunkqueue_reset_free_witness:
  "\<exists>w1 q1. chunkqueue_reset \<lparr>w_heap = [Some (fresh_chunk\<lparr>ck_type := MEM_CHUNK, ck_mem := Some ''ab''\<rparr>)],
      w_unlinked = [], w_closed = [], w_unmapped = []\<rparr> (chunkqueue_init\<lparr>cq_first := Some 0, cq_last := Some 0\<rparr>) = Some (w1, q1) \<and>
    rep w1 q1 []"
proof -
  let ?w = "\<lparr>w_heap = [Some (fresh_chunk\<lparr>ck_type := MEM_CHUNK, ck_mem := Some ''ab''\<rparr>)], w_unlinked = [], w_closed = [], w_unmapped = []\<rparr>"
  have "queue_inv ?w (chunkqueue_init\<lparr>cq_first := Some 0, cq_last := Some 0\<rparr>) [0] []"
    by (simp add: queue_inv_def chunkqueue_init_def chunk_at_def)
  from chunkqueue_reset_free [OF this] show ?thesis by (auto simp: pieces_def chunk_at_def piece_of_def)
qed

text \<open>A chunk that once held a temporary file keeps the mark: when the queue reuses it for an
  ordinary file and that has been sent, the ordinary file is deleted.\<close>

theorem reused_chunk_unlinks:
  "map_option (w_unlinked \<circ> fst) (do {
     (a, w1, q1) \<leftarrow> chunkqueue_get_append_tempfile (\<lambda>t. (7, ''/tmp/upload''))
        \<lparr>w_heap = [], w_unlinked = [], w_closed = [], w_unmapped = []\<rparr> chunkqueue_init;
     (w2, q2) \<leftarrow> chunkqueue_reset w1 q1;
     (w3, q3) \<leftarrow> chunkqueue_append_file w2 q2 (Some ''/www/index.html'') 0 10;
     chunkqueue_reset w3 q3
   }) = Some [''/tmp/upload'', ''/www/index.html'']"
  by code_simp

end
