(* ===== verification/HttpChunk.thy ===== *)
theory HttpChunk
  imports Chunk
begin

text \<open>
  The output functions of \<open>http_chunk.c\<close>, which append to the write queue of a connection and wrap
  the data into HTTP chunks when the response uses the chunked transfer encoding. The connection is
  represented by its write queue and the flag \<open>chunked\<close>; \<open>srv->tmp_chunk_len\<close> is a scratch buffer
  that is filled anew by every call. \<open>dechunk\<close> is a decoder for the chunked encoding, and the main
  theorem says that it recovers the data from what was appended.
\<close>

section \<open>The functions\<close>

text \<open>\<open>for (i = 0; i < 8 && len; i++) len >>= 4;\<close> as the number of remaining rounds.\<close>

fun count_digits :: "nat \<Rightarrow> nat \<Rightarrow> nat" where
  "count_digits 0 len = 0"
| "count_digits (Suc n) len = (if len = 0 then 0 else Suc (count_digits n (len div 16)))"

definition hex_digit :: "nat \<Rightarrow> char" where
  "hex_digit d = char_of (d + (if d \<le> 9 then 48 else 87))"

text \<open>The digits are written from the last to the first.\<close>

fun write_digits :: "nat \<Rightarrow> nat \<Rightarrow> string" where
  "write_digits 0 len = []"
| "write_digits (Suc j) len = write_digits j (len div 16) @ [hex_digit (len mod 16)]"

definition chunk_len_line :: "nat \<Rightarrow> string" where
  "chunk_len_line len = (if len = 0 then ''0'' else write_digits (count_digits 8 len) len) @ [CR, LF]"

definition http_chunk_append_len :: "world \<Rightarrow> chunkqueue \<Rightarrow> nat \<Rightarrow> (world \<times> chunkqueue) option" where
  "http_chunk_append_len w q len = chunkqueue_append_buffer w q (Some (chunk_len_line len))"

text \<open>\<open>len\<close> is converted to \<open>size_t\<close>.\<close>

definition http_chunk_append_file ::
  "bool \<Rightarrow> world \<Rightarrow> chunkqueue \<Rightarrow> bstr \<Rightarrow> int \<Rightarrow> int \<Rightarrow> (world \<times> chunkqueue) option" where
  "http_chunk_append_file chunked w q fn offset len = do {
     (w1, q1) \<leftarrow> (if chunked then http_chunk_append_len w q (nat (len mod 2 ^ 64)) else Some (w, q));
     (w2, q2) \<leftarrow> chunkqueue_append_file w1 q1 fn offset len;
     (if chunked \<and> len > 0 then chunkqueue_append_mem w2 q2 [CR, LF, NUL] 3 else Some (w2, q2))
   }"

text \<open>\<open>mem->used - 1\<close> wraps around for an unused buffer.\<close>

definition http_chunk_append_buffer :: "bool \<Rightarrow> world \<Rightarrow> chunkqueue \<Rightarrow> bstr \<Rightarrow> (world \<times> chunkqueue) option" where
  "http_chunk_append_buffer chunked w q mem = do {
     (w1, q1) \<leftarrow> (if chunked then http_chunk_append_len w q (case mem of None \<Rightarrow> 2 ^ 64 - 1 | Some s \<Rightarrow> length s)
                  else Some (w, q));
     (w2, q2) \<leftarrow> chunkqueue_append_buffer w1 q1 mem;
     (if chunked \<and> mem \<noteq> None then chunkqueue_append_mem w2 q2 [CR, LF, NUL] 3 else Some (w2, q2))
   }"

definition http_chunk_append_mem :: "bool \<Rightarrow> world \<Rightarrow> chunkqueue \<Rightarrow> char list \<Rightarrow> nat \<Rightarrow> (world \<times> chunkqueue) option" where
  "http_chunk_append_mem chunked w q mem len =
     (if len = 0 then
        (if chunked then chunkqueue_append_mem w q (''0'' @ [CR, LF, CR, LF, NUL]) 6
         else chunkqueue_append_mem w q [NUL] 1)
      else do {
        (w1, q1) \<leftarrow> (if chunked then http_chunk_append_len w q (len - 1) else Some (w, q));
        (w2, q2) \<leftarrow> chunkqueue_append_mem w1 q1 mem len;
        (if chunked then chunkqueue_append_mem w2 q2 [CR, LF, NUL] 3 else Some (w2, q2))
      })"

definition http_chunkqueue_length :: "world \<Rightarrow> chunkqueue \<Rightarrow> int option" where
  "http_chunkqueue_length w q = chunkqueue_length w q"

section \<open>The length line\<close>

lemma count_digits_le: "len < 16 ^ n \<Longrightarrow> len < 16 ^ count_digits n len"
  by (induction n len rule: count_digits.induct) (auto simp: less_mult_imp_div_less mult.commute div_less_iff_less_mult)

lemma count_digits_full: "16 ^ n \<le> len \<Longrightarrow> count_digits n len = n"
proof (induction n arbitrary: len)
  case (Suc n)
  then have "16 ^ n \<le> len div 16" by (simp add: less_eq_div_iff_mult_less_eq mult.commute)
  with Suc show ?case by (cases "len = 0") auto
qed simp

lemma write_digits_mod: "write_digits j len = write_digits j (len mod 16 ^ j)"
proof (induction j arbitrary: len)
  case (Suc j)
  have "len mod 16 ^ Suc j mod 16 = len mod 16" by (simp add: mod_mod_cancel)
  moreover have "len mod 16 ^ Suc j div 16 = len div 16 mod 16 ^ j"
    using mod_mult2_eq [of len 16 "16 ^ j"] by simp
  ultimately show ?case using Suc [of "len div 16"] Suc [of "len mod 16 ^ Suc j div 16"] by simp
qed simp

lemma write_digits_max: "write_digits j (16 ^ j - 1) = replicate j (hex_digit 15)"
proof (induction j)
  case (Suc j)
  obtain k :: nat where k: "16 ^ j = Suc k" by (metis not0_implies_Suc power_not_zero zero_neq_numeral)
  then have "(16 ^ Suc j - 1) div 16 = 16 ^ j - (1::nat)" "(16 ^ Suc j - 1) mod 16 = (15::nat)" by simp_all
  then show ?case using Suc by (simp add: replicate_append_same)
qed simp

text \<open>Reading hexadecimal digits, as the receiver does.\<close>

definition hex_val :: "char \<Rightarrow> nat option" where
  "hex_val c = (let n = uchar c in
     if 48 \<le> n \<and> n \<le> 57 then Some (n - 48) else if 97 \<le> n \<and> n \<le> 102 then Some (n - 87)
     else if 65 \<le> n \<and> n \<le> 70 then Some (n - 55) else None)"

fun read_hex :: "nat \<Rightarrow> string \<Rightarrow> nat \<times> string" where
  "read_hex acc [] = (acc, [])"
| "read_hex acc (c # cs) = (case hex_val c of None \<Rightarrow> (acc, c # cs) | Some d \<Rightarrow> read_hex (acc * 16 + d) cs)"

lemma hex_val_digit [simp]: "d < 16 \<Longrightarrow> hex_val (hex_digit d) = Some d"
  by (auto simp: hex_val_def hex_digit_def Let_def)

lemma read_hex_write:
  "len < 16 ^ j \<Longrightarrow> read_hex acc (write_digits j len @ r) = read_hex (acc * 16 ^ j + len) r"
proof (induction j arbitrary: len acc r)
  case (Suc j)
  have "len div 16 < 16 ^ j" using Suc.prems by (simp add: less_mult_imp_div_less mult.commute)
  then have "read_hex acc (write_digits (Suc j) len @ r) = read_hex (acc * 16 ^ j + len div 16) (hex_digit (len mod 16) # r)"
    using Suc.IH [of "len div 16"] by simp
  also have "\<dots> = read_hex ((acc * 16 ^ j + len div 16) * 16 + len mod 16) r" by simp
  also have "(acc * 16 ^ j + len div 16) * 16 + len mod 16 = acc * 16 ^ Suc j + len"
    using div_mult_mod_eq [of len 16] by (simp add: algebra_simps)
  finally show ?case .
qed simp

lemma read_hex_line:
  assumes "len < 2 ^ 32"
  shows "read_hex 0 (chunk_len_line len @ r) = (len, [CR, LF] @ r)"
proof -
  have cr: "read_hex n ([CR, LF] @ r) = (n, [CR, LF] @ r)" for n by (simp add: hex_val_def Let_def)
  show ?thesis
  proof (cases "len = 0")
    case True
    have "hex_val CHR ''0'' = Some 0" by (simp add: hex_val_def Let_def)
    with True cr show ?thesis by (simp add: chunk_len_line_def)
  next
    case False
    have "len < 16 ^ count_digits 8 len" using assms by (intro count_digits_le) simp
    from read_hex_write [OF this, of 0 "[CR, LF] @ r"] False cr show ?thesis by (simp add: chunk_len_line_def)
  qed
qed

section \<open>A decoder\<close>

lemma read_hex_length: "read_hex acc s = (n, r) \<Longrightarrow> length r \<le> length s"
  by (induction acc s rule: read_hex.induct) (auto split: option.splits)

function dechunk :: "string \<Rightarrow> string list option" where
  "dechunk s = (case read_hex 0 s of (n, r) \<Rightarrow>
     if take 2 r \<noteq> [CR, LF] then None
     else
       (let body = drop 2 r in
        if n = 0 then (if body = [CR, LF] then Some [] else None)
        else if take 2 (drop n body) \<noteq> [CR, LF] then None
        else map_option (Cons (take n body)) (dechunk (drop (n + 2) body))))"
  by pat_completeness auto
termination
proof (relation "measure length", goal_cases)
  case (2 s n r)
  then have "r \<noteq> []" "length r \<le> length s" using read_hex_length [of 0 s n r] by auto
  with 2 show ?case by (cases s) auto
qed simp

declare dechunk.simps [simp del]

lemma dechunk_chunk:
  assumes "length x < 2 ^ 32" "x \<noteq> []"
  shows "dechunk (chunk_len_line (length x) @ x @ [CR, LF] @ rest) = map_option (Cons x) (dechunk rest)"
proof -
  have "read_hex 0 (chunk_len_line (length x) @ x @ [CR, LF] @ rest) = (length x, [CR, LF] @ x @ [CR, LF] @ rest)"
    using read_hex_line [OF assms(1)] by simp
  then show ?thesis using assms(2) by (subst dechunk.simps) (simp add: Let_def)
qed

lemma dechunk_end: "dechunk (''0'' @ [CR, LF, CR, LF]) = Some []"
  by code_simp

section \<open>What the write queue transmits\<close>

text \<open>The octets of a piece that are still to be sent; \<open>fs\<close> gives the contents of files.\<close>

definition piece_bytes :: "(string \<Rightarrow> string) \<Rightarrow> piece \<Rightarrow> string" where
  "piece_bytes fs p = (case p of
     PMem b off \<Rightarrow> drop (nat off) (bs_str b)
   | PFile name start len off \<Rightarrow> take (nat (len - off)) (drop (nat (start + off)) (fs (bs_str name)))
   | PUnused \<Rightarrow> [])"

definition stream :: "(string \<Rightarrow> string) \<Rightarrow> piece list \<Rightarrow> string" where
  "stream fs ps = concat (map (piece_bytes fs) ps)"

lemma stream_simps [simp]:
  "stream fs [] = []" "stream fs (ps @ rs) = stream fs ps @ stream fs rs"
  "stream fs (PMem (Some s) 0 # ps) = s @ stream fs ps"
  by (simp_all add: stream_def piece_bytes_def bs_str_def)

definition framed :: "string \<Rightarrow> piece list" where
  "framed x = [PMem (Some (chunk_len_line (length x))) 0, PMem (Some x) 0, PMem (Some [CR, LF]) 0]"

definition queue_add_chunk :: "world \<times> chunkqueue \<Rightarrow> string \<Rightarrow> (world \<times> chunkqueue) option" where
  "queue_add_chunk s x = http_chunk_append_mem True (fst s) (snd s) x (length x + 1)"

lemma append_mem_law:
  assumes "rep w q ps" "len - 1 \<le> length mem" "len \<noteq> 0"
  obtains w1 q1 where "chunkqueue_append_mem w q mem len = Some (w1, q1)" "rep w1 q1 (ps @ [PMem (Some (take (len - 1) mem)) 0])"
  using append_mem_rep [OF assms(1,2)] assms(3) by auto

lemma append_len_law:
  assumes "rep w q ps"
  obtains w1 q1 where "http_chunk_append_len w q len = Some (w1, q1)" "rep w1 q1 (ps @ [PMem (Some (chunk_len_line len)) 0])"
  using append_buffer_rep [OF assms, of "Some (chunk_len_line len)"] by (auto simp: http_chunk_append_len_def)

lemma append_chunk_law:
  assumes "rep w q ps"
  shows "\<exists>w1 q1. http_chunk_append_mem True w q x (length x + 1) = Some (w1, q1) \<and> rep w1 q1 (ps @ framed x)"
proof -
  obtain w1 q1 where 1: "http_chunk_append_len w q (length x) = Some (w1, q1)" "rep w1 q1 (ps @ [PMem (Some (chunk_len_line (length x))) 0])"
    using append_len_law [OF assms] by blast
  obtain w2 q2 where 2: "chunkqueue_append_mem w1 q1 x (length x + 1) = Some (w2, q2)"
    "rep w2 q2 (ps @ [PMem (Some (chunk_len_line (length x))) 0, PMem (Some x) 0])"
    using append_mem_law [OF 1(2), of "length x + 1" x] by auto
  obtain w3 q3 where 3: "chunkqueue_append_mem w2 q2 [CR, LF, NUL] 3 = Some (w3, q3)" "rep w3 q3 (ps @ framed x)"
    using append_mem_law [OF 2(2), of 3 "[CR, LF, NUL]"] by (auto simp: framed_def)
  show ?thesis using 1(1) 2(1) 3 by (simp add: http_chunk_append_mem_def)
qed

interpretation hq: piece_queue holds_pieces queue_add_chunk framed "\<lambda>_. True" queue_drop piece_finished
proof
  show "\<exists>s1. queue_add_chunk s x = Some s1 \<and> holds_pieces s1 (ps @ framed x)" if "holds_pieces s ps" for s ps x
    using that append_chunk_law [of "fst s" "snd s" ps x] by (auto simp: holds_pieces_def queue_add_chunk_def)
  show "\<exists>s1. queue_drop s = Some s1 \<and> holds_pieces s1 (dropWhile piece_finished ps)" if "holds_pieces s ps" for s ps
    using that by (rule mq.drop_law)
qed

lemma dechunk_stream:
  assumes "list_all (\<lambda>x. x \<noteq> [] \<and> length x < 2 ^ 32) xs"
  shows "dechunk (stream fs (concat (map framed xs)) @ ''0'' @ [CR, LF, CR, LF]) = Some xs"
  using assms
proof (induction xs)
  case Nil
  then show ?case using dechunk_end by simp
next
  case (Cons x xs)
  then have "dechunk (chunk_len_line (length x) @ x @ [CR, LF] @ stream fs (concat (map framed xs)) @ ''0'' @ [CR, LF, CR, LF]) =
    Some (x # xs)" using dechunk_chunk [of x] by simp
  then show ?case by (simp add: framed_def [of x])
qed

lemma final_chunk_law:
  assumes "rep w q ps"
  shows "\<exists>w1 q1. http_chunk_append_mem True w q m 0 = Some (w1, q1) \<and> rep w1 q1 (ps @ [PMem (Some (''0'' @ [CR, LF, CR, LF])) 0])"
  using append_mem_rep [OF assms, of 6 "''0'' @ [CR, LF, CR, LF, NUL]"] by (simp add: http_chunk_append_mem_def)

section \<open>Properties\<close>

text \<open>C17. The chunked encoding is right: when any sequence of non-empty bodies below four gigabytes is
  appended to an empty write queue, followed by the closing call, a decoder recovers exactly these bodies
  from the octets the queue transmits.\<close>

theorem chunked_roundtrip:
  assumes "rep w q []" "list_all (\<lambda>x. x \<noteq> [] \<and> length x < 2 ^ 32) xs"
  shows "\<exists>w1 q1 ps. (do { (w', q') \<leftarrow> add_all queue_add_chunk (w, q) xs; http_chunk_append_mem True w' q' m 0 }) = Some (w1, q1) \<and>
    rep w1 q1 ps \<and> dechunk (stream fs ps) = Some xs"
proof -
  obtain w1 q1 where a: "add_all queue_add_chunk (w, q) xs = Some (w1, q1)" "rep w1 q1 (concat (map framed xs))"
    using hq.add_all_law [of "(w, q)" "[]" xs] assms(1) by (auto simp: holds_pieces_def list_all_iff)
  from final_chunk_law [OF a(2), of m] a(1) dechunk_stream [OF assms(2), of fs] show ?thesis by fastforce
qed

theorem chunked_roundtrip_witness:
  "\<exists>w1 q1 ps. (do { (w', q') \<leftarrow> add_all queue_add_chunk
       (\<lparr>w_heap = [], w_unlinked = [], w_closed = [], w_unmapped = []\<rparr>, chunkqueue_init) [''hello'', ''w'']; http_chunk_append_mem True w' q' [] 0 }) = Some (w1, q1) \<and>
    rep w1 q1 ps \<and> dechunk (stream (\<lambda>_. []) ps) = Some [''hello'', ''w'']"
  by (rule chunked_roundtrip [OF rep_init]) simp

text \<open>The chunk header has at most eight digits: from four gigabytes on it announces the length
  modulo \<open>2^32\<close>.\<close>

theorem chunk_length_truncated:
  assumes "2 ^ 32 \<le> len"
  shows "read_hex 0 (chunk_len_line len) = (len mod 2 ^ 32, [CR, LF])"
proof -
  have "read_hex 0 (write_digits 8 (len mod 16 ^ 8) @ [CR, LF]) = (len mod 16 ^ 8, [CR, LF])"
    using read_hex_write [of "len mod 16 ^ 8" 8 0 "[CR, LF]"] by (simp add: hex_val_def Let_def)
  moreover have "chunk_len_line len = write_digits 8 (len mod 16 ^ 8) @ [CR, LF]"
    using count_digits_full [of 8 len] write_digits_mod [of 8 len] assms by (auto simp: chunk_len_line_def)
  ultimately show ?thesis by simp
qed

theorem chunk_length_truncated_witness: "read_hex 0 (chunk_len_line (2 ^ 32 + 5)) = (5, [CR, LF])"
  using chunk_length_truncated [of "2 ^ 32 + 5"] by simp

text \<open>Empty data is not guarded against: appending an empty buffer writes the chunk that ends the
  response, so that a decoder stops there, and an unused buffer announces a chunk of \<open>ffffffff\<close> octets
  without any.\<close>

theorem empty_buffer_chunks:
  assumes "rep w q ps"
  shows "(\<exists>w1 q1 rs. http_chunk_append_buffer True w q (Some []) = Some (w1, q1) \<and> rep w1 q1 (ps @ rs) \<and>
      dechunk (stream fs rs) = Some []) \<and>
    (\<exists>w1 q1. http_chunk_append_buffer True w q None = Some (w1, q1) \<and>
      rep w1 q1 (ps @ [PMem (Some (''ffffffff'' @ [CR, LF])) 0]))"
proof
  obtain w1 q1 where 1: "http_chunk_append_len w q 0 = Some (w1, q1)" "rep w1 q1 (ps @ [PMem (Some (chunk_len_line 0)) 0])"
    using append_len_law [OF assms] by blast
  obtain w2 q2 where 2: "chunkqueue_append_buffer w1 q1 (Some []) = Some (w2, q2)" "rep w2 q2 (ps @ [PMem (Some (chunk_len_line 0)) 0, PMem (Some []) 0])"
    using append_buffer_rep [OF 1(2), of "Some []"] by auto
  obtain w3 q3 where 3: "chunkqueue_append_mem w2 q2 [CR, LF, NUL] 3 = Some (w3, q3)"
    "rep w3 q3 (ps @ [PMem (Some (chunk_len_line 0)) 0, PMem (Some []) 0, PMem (Some [CR, LF]) 0])"
    using append_mem_law [OF 2(2), of 3 "[CR, LF, NUL]"] by auto
  have "dechunk (stream fs [PMem (Some (chunk_len_line 0)) 0, PMem (Some []) 0, PMem (Some [CR, LF]) 0]) = Some []"
    using dechunk_end by (simp add: chunk_len_line_def)
  with 1 2 3 show "\<exists>w1 q1 rs. http_chunk_append_buffer True w q (Some []) = Some (w1, q1) \<and> rep w1 q1 (ps @ rs) \<and>
      dechunk (stream fs rs) = Some []"
    by (intro exI [of _ w3] exI [of _ q3] exI [of _ "[PMem (Some (chunk_len_line 0)) 0, PMem (Some []) 0, PMem (Some [CR, LF]) 0]"])
      (simp add: http_chunk_append_buffer_def)
next
  obtain w1 q1 where 1: "http_chunk_append_len w q (2 ^ 64 - 1) = Some (w1, q1)"
    "rep w1 q1 (ps @ [PMem (Some (chunk_len_line (2 ^ 64 - 1))) 0])" using append_len_law [OF assms] by blast
  have "(2 ^ 64 - 1) mod 16 ^ 8 = (16 ^ 8 - 1 :: nat)" by simp
  then have "write_digits 8 (2 ^ 64 - 1) = replicate 8 (hex_digit 15)"
    using write_digits_mod [of 8 "2 ^ 64 - 1"] write_digits_max [of 8] by presburger
  also have "replicate 8 (hex_digit 15) = ''ffffffff''" by code_simp
  finally have "chunk_len_line (2 ^ 64 - 1) = ''ffffffff'' @ [CR, LF]"
    using count_digits_full [of 8 "2 ^ 64 - 1"] by (simp add: chunk_len_line_def)
  with 1 show "\<exists>w1 q1. http_chunk_append_buffer True w q None = Some (w1, q1) \<and>
      rep w1 q1 (ps @ [PMem (Some (''ffffffff'' @ [CR, LF])) 0])"
    by (simp add: http_chunk_append_buffer_def chunkqueue_append_buffer_def)
qed

theorem empty_buffer_chunks_witness:
  "\<exists>w1 q1. http_chunk_append_buffer True \<lparr>w_heap = [], w_unlinked = [], w_closed = [], w_unmapped = []\<rparr> chunkqueue_init None = Some (w1, q1) \<and>
      rep w1 q1 [PMem (Some (''ffffffff'' @ [CR, LF])) 0]"
  using empty_buffer_chunks [OF rep_init [of "\<lparr>w_heap = [], w_unlinked = [], w_closed = [], w_unmapped = []\<rparr>"], of "\<lambda>_. []"] by simp

end
