(* ===== verification/ConnPool.thy ===== *)
theory ConnPool
  imports Prelude
begin

text \<open>
  The lists of connections of the server: the pool \<open>srv->conns\<close> of \<open>connections.c\<close>, the list of jobs and the queue of
  connections that wait for a file descriptor of \<open>joblist.c\<close>, and the names of the states of \<open>connections-glue.c\<close>. A
  connection is known by its address; the block of pointers holds addresses, and \<open>ndx\<close>, the place of a connection in the
  pool, is kept for every address. The pool does not look at the rest of a connection, which is the type variable.

  The lemmas show that the pool is a set of open connections in which every one knows its place, and that the waiting
  queue is first in, first out.
\<close>

section \<open>States\<close>

datatype connection_state_t =
  CON_STATE_CONNECT | CON_STATE_REQUEST_START | CON_STATE_READ | CON_STATE_REQUEST_END | CON_STATE_READ_POST |
  CON_STATE_HANDLE_REQUEST | CON_STATE_RESPONSE_START | CON_STATE_WRITE | CON_STATE_RESPONSE_END | CON_STATE_ERROR | CON_STATE_CLOSE

fun connection_get_state :: "connection_state_t \<Rightarrow> string" where
  "connection_get_state CON_STATE_CONNECT = ''connect''"
| "connection_get_state CON_STATE_READ = ''read''"
| "connection_get_state CON_STATE_READ_POST = ''readpost''"
| "connection_get_state CON_STATE_WRITE = ''write''"
| "connection_get_state CON_STATE_CLOSE = ''close''"
| "connection_get_state CON_STATE_ERROR = ''error''"
| "connection_get_state CON_STATE_HANDLE_REQUEST = ''handle-req''"
| "connection_get_state CON_STATE_REQUEST_START = ''req-start''"
| "connection_get_state CON_STATE_REQUEST_END = ''req-end''"
| "connection_get_state CON_STATE_RESPONSE_START = ''resp-start''"
| "connection_get_state CON_STATE_RESPONSE_END = ''resp-end''"

fun connection_get_short_state :: "connection_state_t \<Rightarrow> string" where
  "connection_get_short_state CON_STATE_CONNECT = ''.''"
| "connection_get_short_state CON_STATE_READ = ''r''"
| "connection_get_short_state CON_STATE_READ_POST = ''R''"
| "connection_get_short_state CON_STATE_WRITE = ''W''"
| "connection_get_short_state CON_STATE_CLOSE = ''C''"
| "connection_get_short_state CON_STATE_ERROR = ''E''"
| "connection_get_short_state CON_STATE_HANDLE_REQUEST = ''h''"
| "connection_get_short_state CON_STATE_REQUEST_START = ''q''"
| "connection_get_short_state CON_STATE_REQUEST_END = ''Q''"
| "connection_get_short_state CON_STATE_RESPONSE_START = ''s''"
| "connection_get_short_state CON_STATE_RESPONSE_END = ''S''"

section \<open>Lists of connections\<close>

record connections =
  cs_ptr :: "nat list"
  cs_size :: nat
  cs_used :: nat

text \<open>\<open>g\<close> says what \<open>malloc\<close> and \<open>realloc\<close> leave in new places.\<close>

definition cs_grow :: "(nat \<Rightarrow> nat) \<Rightarrow> connections \<Rightarrow> connections" where
  "cs_grow g cs =
     (if cs_size cs = 0 then cs\<lparr>cs_size := 16, cs_ptr := map g [0..<16]\<rparr>
      else if cs_used cs = cs_size cs then
        cs\<lparr>cs_size := cs_size cs + 16, cs_ptr := take (cs_size cs + 16) (cs_ptr cs) @ map g [length (cs_ptr cs)..<cs_size cs + 16]\<rparr>
      else cs)"

definition cs_add :: "(nat \<Rightarrow> nat) \<Rightarrow> connections \<Rightarrow> nat \<Rightarrow> connections option" where
  "cs_add g cs con = (let cs1 = cs_grow g cs in do {
     p \<leftarrow> mem_set (cs_ptr cs1) (cs_used cs1) con;
     Some (cs1\<lparr>cs_ptr := p, cs_used := cs_used cs1 + 1\<rparr>)
   })"

definition joblist_append :: "(nat \<Rightarrow> nat) \<Rightarrow> connections \<Rightarrow> bool \<Rightarrow> nat \<Rightarrow> connections option" where
  "joblist_append g joblist in_joblist con = (if in_joblist then Some joblist else cs_add g joblist con)"

definition fdwaitqueue_append :: "(nat \<Rightarrow> nat) \<Rightarrow> connections \<Rightarrow> nat \<Rightarrow> connections option" where
  "fdwaitqueue_append g fdwaitqueue con = cs_add g fdwaitqueue con"

definition fdwaitqueue_unshift :: "connections \<Rightarrow> (nat option \<times> connections) option" where
  "fdwaitqueue_unshift q =
     (if cs_used q = 0 then Some (None, q)
      else do {
        con \<leftarrow> mem_get (cs_ptr q) 0;
        let used = cs_used q - 1;
        moved \<leftarrow> mem_read (drop 1 (cs_ptr q)) used;
        p \<leftarrow> mem_copy (cs_ptr q) 0 moved;
        Some (Some con, q\<lparr>cs_ptr := p, cs_used := used\<rparr>)
      })"

section \<open>The pool\<close>

text \<open>\<open>po_obj\<close> and \<open>po_ndx\<close> are the connections that have been allocated and their field \<open>ndx\<close>, by address.\<close>

record 'c pool =
  po_ptr :: "nat list"
  po_size :: nat
  po_used :: nat
  po_obj :: "'c list"
  po_ndx :: "int list"

definition pool_init :: "'c pool" where
  "pool_init = \<lparr>po_ptr = [], po_size = 0, po_used = 0, po_obj = [], po_ndx = []\<rparr>"

text \<open>The loops that fill the new part of the block with initialised connections.\<close>

definition pool_fill :: "'c \<Rightarrow> 'c pool \<Rightarrow> nat \<Rightarrow> nat \<Rightarrow> 'c pool" where
  "pool_fill con_init p lo sz =
     (let n = sz - lo; a = length (po_obj p) in
      p\<lparr>po_size := sz, po_ptr := take lo (po_ptr p) @ [a..<a + n], po_obj := po_obj p @ replicate n con_init,
        po_ndx := po_ndx p @ replicate n (-1)\<rparr>)"

definition pool_grow :: "'c \<Rightarrow> 'c pool \<Rightarrow> 'c pool" where
  "pool_grow con_init p =
     (if po_size p = 0 then pool_fill con_init p 0 128
      else if po_size p = po_used p then pool_fill con_init p (po_used p) (po_size p + 128)
      else p)"

definition connections_get_new_connection :: "'c \<Rightarrow> ('c \<Rightarrow> 'c option) \<Rightarrow> 'c pool \<Rightarrow> (nat \<times> 'c pool) option" where
  "connections_get_new_connection con_init con_reset p0 = (let p = pool_grow con_init p0 in do {
     a \<leftarrow> mem_get (po_ptr p) (po_used p);
     con \<leftarrow> mem_get (po_obj p) a;
     con' \<leftarrow> con_reset con;
     objs \<leftarrow> mem_set (po_obj p) a con';
     ndx \<leftarrow> mem_set (po_ndx p) a (int (po_used p));
     Some (a, p\<lparr>po_obj := objs, po_ndx := ndx, po_used := po_used p + 1\<rparr>)
   })"

text \<open>\<open>i\<close> is a \<open>size_t\<close>; \<open>conns->used - 1\<close> wraps when nothing is used, which no \<open>i\<close> equals then.\<close>

definition connection_del :: "'c pool \<Rightarrow> nat option \<Rightarrow> (int \<times> 'c pool) option" where
  "connection_del p con = (case con of
     None \<Rightarrow> Some (-1, p)
   | Some a \<Rightarrow> do {
       nd \<leftarrow> mem_get (po_ndx p) a;
       (if nd = -1 then Some (-1, p)
        else if nd < 0 \<or> po_used p = 0 then None
        else do {
          let i = nat nd;
          let l = po_used p - 1;
          p1 \<leftarrow> (if i \<noteq> l then do {
              temp \<leftarrow> mem_get (po_ptr p) i;
              other \<leftarrow> mem_get (po_ptr p) l;
              ptr1 \<leftarrow> mem_set (po_ptr p) i other;
              ptr2 \<leftarrow> mem_set ptr1 l temp;
              ndx1 \<leftarrow> mem_set (po_ndx p) other (int i);
              ndx2 \<leftarrow> mem_set ndx1 temp (-1);
              Some (p\<lparr>po_ptr := ptr2, po_ndx := ndx2\<rparr>)
            } else Some p);
          ndx3 \<leftarrow> mem_set (po_ndx p1) a (-1);
          Some (0, p1\<lparr>po_used := po_used p1 - 1, po_ndx := ndx3\<rparr>)
        })
     })"

section \<open>The waiting queue and the list of jobs\<close>

definition cs_ok :: "connections \<Rightarrow> bool" where
  "cs_ok cs = (length (cs_ptr cs) = cs_size cs \<and> cs_used cs \<le> cs_size cs)"

definition cs_list :: "connections \<Rightarrow> nat list" where
  "cs_list cs = take (cs_used cs) (cs_ptr cs)"

lemma cs_add_ok:
  assumes "cs_ok cs"
  shows "\<exists>cs'. cs_add g cs con = Some cs' \<and> cs_ok cs' \<and> cs_list cs' = cs_list cs @ [con]"
proof -
  let ?c = "cs_grow g cs"
  have c: "length (cs_ptr ?c) = cs_size ?c" "cs_used ?c = cs_used cs" "cs_used cs < cs_size ?c" "take (cs_used cs) (cs_ptr ?c) = cs_list cs"
    using assms by (auto simp: cs_grow_def cs_ok_def cs_list_def)
  then show ?thesis by (auto simp: cs_add_def Let_def mem_simps cs_ok_def cs_list_def take_Suc_snoc)
qed

lemma fdwaitqueue_unshift_ok:
  assumes "cs_ok q"
  shows "\<exists>r q'. fdwaitqueue_unshift q = Some (r, q') \<and> cs_ok q' \<and>
    (case cs_list q of [] \<Rightarrow> r = None \<and> q' = q | c # cs \<Rightarrow> r = Some c \<and> cs_list q' = cs)"
proof (cases "cs_used q = 0")
  case True
  then show ?thesis using assms by (simp add: fdwaitqueue_unshift_def cs_list_def)
next
  case False
  then obtain c cs u where q: "cs_ptr q = c # cs" "cs_used q = Suc u" "u \<le> length cs"
    using assms by (cases "cs_ptr q"; cases "cs_used q") (auto simp: cs_ok_def)
  then show ?thesis using assms by (auto simp: fdwaitqueue_unshift_def cs_ok_def cs_list_def mem_get_def mem_read_def mem_copy_def)
qed

section \<open>The invariant of the pool\<close>

definition pool_ok :: "'c pool \<Rightarrow> bool" where
  "pool_ok p = (length (po_ptr p) = po_size p \<and> po_used p \<le> po_size p \<and> length (po_ndx p) = length (po_obj p) \<and>
     distinct (po_ptr p) \<and> set (po_ptr p) = {..<length (po_obj p)} \<and>
     (\<forall>i < po_size p. po_ndx p ! (po_ptr p ! i) = (if i < po_used p then int i else -1)))"

definition open_conns :: "'c pool \<Rightarrow> nat set" where
  "open_conns p = set (take (po_used p) (po_ptr p))"

lemma pool_init_ok: "pool_ok pool_init" "open_conns pool_init = {}"
  by (auto simp: pool_ok_def pool_init_def open_conns_def)

lemma pool_ptr_less: "pool_ok p \<Longrightarrow> i < po_size p \<Longrightarrow> po_ptr p ! i < length (po_obj p)"
  by (metis lessThan_iff nth_mem pool_ok_def)

lemma open_conns_iff: "pool_ok p \<Longrightarrow> a \<in> open_conns p \<longleftrightarrow> (\<exists>i < po_used p. po_ptr p ! i = a)"
  by (auto simp: open_conns_def pool_ok_def in_set_conv_nth)

lemma pool_fill_ok:
  assumes "pool_ok p" "lo = po_size p" "lo \<le> sz"
  shows "pool_ok (pool_fill c p lo sz)" "take (po_used p) (po_ptr (pool_fill c p lo sz)) = take (po_used p) (po_ptr p)"
proof -
  let ?a = "length (po_obj p)"
  have len: "length (po_ptr p) = lo" "po_used p \<le> lo" "set (po_ptr p) = {..<?a}" "distinct (po_ptr p)"
    "length (po_ndx p) = ?a" using assms by (auto simp: pool_ok_def)
  have "po_ndx (pool_fill c p lo sz) ! (po_ptr (pool_fill c p lo sz) ! i) = (if i < po_used p then int i else -1)" if "i < sz" for i
  proof (cases "i < lo")
    case True
    then have "po_ptr p ! i < ?a" using pool_ptr_less [OF assms(1)] assms(2) by simp
    then show ?thesis using True assms len by (simp add: pool_fill_def Let_def nth_append pool_ok_def)
  next
    case False
    then have "\<not> ?a + i - lo < ?a" by arith
    then show ?thesis using False that len by (simp add: pool_fill_def Let_def nth_append)
  qed
  then show "pool_ok (pool_fill c p lo sz)"
    using len assms(3) by (auto simp: pool_ok_def pool_fill_def Let_def)
  show "take (po_used p) (po_ptr (pool_fill c p lo sz)) = take (po_used p) (po_ptr p)"
    using len by (simp add: pool_fill_def Let_def)
qed

lemma pool_grow_ok:
  assumes "pool_ok p"
  shows "pool_ok (pool_grow c p)" "open_conns (pool_grow c p) = open_conns p" "po_used (pool_grow c p) = po_used p"
    "po_used p < po_size (pool_grow c p)"
proof -
  have used: "po_used (pool_fill c p f s) = po_used p" "po_size (pool_fill c p f s) = s" for f s by (simp_all add: pool_fill_def Let_def)
  show "pool_ok (pool_grow c p)" "open_conns (pool_grow c p) = open_conns p" "po_used (pool_grow c p) = po_used p"
    "po_used p < po_size (pool_grow c p)"
    using assms pool_fill_ok [OF assms, of 0 128] pool_fill_ok [OF assms, of "po_used p" "po_size p + 128"] used
    by (auto simp: pool_grow_def open_conns_def pool_ok_def)
qed

lemma get_new_ok:
  assumes "pool_ok p" "\<And>c. con_reset c = Some (r c)"
  shows "\<exists>a p'. connections_get_new_connection con_init con_reset p = Some (a, p') \<and> pool_ok p' \<and> a \<notin> open_conns p \<and>
    open_conns p' = insert a (open_conns p) \<and> po_ndx p' ! a = int (po_used p) \<and> po_used p' = po_used p + 1"
proof -
  let ?p = "pool_grow con_init p"
  note g = pool_grow_ok [OF assms(1), of con_init]
  define a where "a = po_ptr ?p ! po_used p"
  have a: "a < length (po_obj ?p)" using pool_ptr_less [OF g(1,4)] by (simp add: a_def)
  let ?p' = "?p\<lparr>po_obj := (po_obj ?p)[a := r (po_obj ?p ! a)], po_ndx := (po_ndx ?p)[a := int (po_used p)], po_used := po_used p + 1\<rparr>"
  have p: "length (po_ptr ?p) = po_size ?p" "length (po_ndx ?p) = length (po_obj ?p)" "distinct (po_ptr ?p)"
    using g(1) by (auto simp: pool_ok_def)
  have run: "connections_get_new_connection con_init con_reset p = Some (a, ?p')"
    using a g(3,4) p by (simp add: connections_get_new_connection_def Let_def mem_simps assms(2) flip: a_def)
  have idx: "po_ptr ?p ! i = a \<longleftrightarrow> i = po_used p" if "i < po_size ?p" for i
    using that g(4) p by (simp add: a_def nth_eq_iff_index_eq)
  have "(po_ndx ?p)[a := int (po_used p)] ! (po_ptr ?p ! i) = (if i < po_used p + 1 then int i else -1)" if "i < po_size ?p" for i
    using that idx [OF that] g(1,3) a p by (cases "i = po_used p") (auto simp: pool_ok_def nth_list_update)
  then have ok: "pool_ok ?p'" using g(1,3,4) by (auto simp: pool_ok_def)
  have "a \<notin> open_conns p" using idx g by (auto simp: open_conns_iff [OF g(1)] simp flip: g(2))
  moreover have "open_conns ?p' = insert a (open_conns p)"
  proof -
    have "take (Suc (po_used p)) (po_ptr ?p) = take (po_used p) (po_ptr ?p) @ [a]" using g(4) p by (simp add: take_Suc_snoc a_def)
    then show ?thesis using g(2,3) by (simp add: open_conns_def)
  qed
  ultimately show ?thesis using run ok a p by auto
qed

lemma pool_ndx_inj: "pool_ok p \<Longrightarrow> a \<in> open_conns p \<Longrightarrow> \<exists>i < po_used p. po_ptr p ! i = a \<and> po_ndx p ! a = int i"
  by (auto simp: open_conns_iff pool_ok_def)

lemma swap_last_set:
  assumes "i < u" "u \<le> length xs" "distinct xs"
  shows "set (take (u - 1) (xs[i := xs ! (u - 1), u - 1 := xs ! i])) = set (take u xs) - {xs ! i}"
    "distinct (xs[i := xs ! (u - 1), u - 1 := xs ! i])" "set (xs[i := xs ! (u - 1), u - 1 := xs ! i]) = set xs"
proof -
  let ?ys = "xs[i := xs ! (u - 1), u - 1 := xs ! i]"
  have u: "u - 1 < length xs" "i < length xs" using assms by auto
  show "distinct ?ys" "set ?ys = set xs" using u assms(3) by (simp_all add: distinct_swap set_swap)
  have nth: "?ys ! j = (if j = i then xs ! (u - 1) else xs ! j)" if "j < u - 1" for j using that u by (auto simp: nth_list_update)
  show "set (take (u - 1) ?ys) = set (take u xs) - {xs ! i}" (is "?A = ?B")
  proof
    show "?A \<subseteq> ?B"
    proof
      fix y assume "y \<in> ?A"
      then obtain j where j: "j < u - 1" "y = ?ys ! j" using u by (auto simp: in_set_conv_nth)
      define k where "k = (if j = i then u - 1 else j)"
      have k: "k < u" "k \<noteq> i" "y = xs ! k" using j nth [OF j(1)] assms(1) by (auto simp: k_def)
      then have "y \<noteq> xs ! i" using assms u by (simp add: nth_eq_iff_index_eq)
      moreover have "y \<in> set (take u xs)" using k assms(2) by (auto simp: in_set_conv_nth intro!: exI [of _ k])
      ultimately show "y \<in> ?B" by simp
    qed
    show "?B \<subseteq> ?A"
    proof
      fix y assume "y \<in> ?B"
      then obtain j where j: "j < u" "y = xs ! j" "y \<noteq> xs ! i" using assms by (auto simp: in_set_conv_nth)
      then have "j \<noteq> i" by blast
      show "y \<in> ?A"
      proof (cases "j = u - 1")
        case True
        then have "i < u - 1" "?ys ! i = y" using j \<open>j \<noteq> i\<close> assms(1) nth [of i] by auto
        then show ?thesis using u by (auto simp: in_set_conv_nth intro!: exI [of _ i])
      next
        case False
        then have "j < u - 1" "?ys ! j = y" using j \<open>j \<noteq> i\<close> nth [of j] by auto
        then show ?thesis using u by (auto simp: in_set_conv_nth intro!: exI [of _ j])
      qed
    qed
  qed
qed

lemma connection_del_ok:
  assumes "pool_ok p" "a \<in> open_conns p"
  shows "\<exists>p'. connection_del p (Some a) = Some (0, p') \<and> pool_ok p' \<and> open_conns p' = open_conns p - {a} \<and>
    po_ndx p' ! a = -1 \<and> po_obj p' = po_obj p \<and> po_used p' = po_used p - 1"
proof -
  obtain i where i: "i < po_used p" "po_ptr p ! i = a" "po_ndx p ! a = int i" using pool_ndx_inj [OF assms] by blast
  let ?l = "po_used p - 1" and ?ptr = "(po_ptr p)[i := po_ptr p ! (po_used p - 1), po_used p - 1 := po_ptr p ! i]"
  let ?o = "po_ptr p ! ?l"
  have p: "length (po_ptr p) = po_size p" "po_used p \<le> po_size p" "length (po_ndx p) = length (po_obj p)" "distinct (po_ptr p)"
    "set (po_ptr p) = {..<length (po_obj p)}" using assms(1) by (auto simp: pool_ok_def)
  have less: "a < length (po_obj p)" "?o < length (po_obj p)" "i < po_size p" "?l < po_size p"
    using pool_ptr_less [OF assms(1)] i p(2) by auto
  let ?ndx = "(po_ndx p)[?o := int i, a := -1]"
  define p' where "p' = p\<lparr>po_ptr := ?ptr, po_ndx := ?ndx, po_used := ?l\<rparr>"
  have run: "connection_del p (Some a) = Some (0, p')"
  proof (cases "i = ?l")
    case True
    then have eq: "?ptr = po_ptr p" "?ndx = (po_ndx p)[a := -1]" using i(2) by auto
    have nd: "mem_get (po_ndx p) a = Some (int i)" "mem_set (po_ndx p) a (-1) = Some ((po_ndx p)[a := -1])"
      using i(3) less(1) p(3) by (simp_all add: mem_simps)
    show ?thesis unfolding p'_def eq using i(1) True by (simp add: connection_del_def nd Let_def del: of_nat_diff)
  next
    case False
    then have "?ndx[a := -1] = ?ndx" by simp
    then show ?thesis using False i p less by (simp add: connection_del_def p'_def mem_simps list_update_swap Let_def)
  qed
  note sw = swap_last_set [OF i(1) _ p(4)]
  have "?ndx ! (?ptr ! j) = (if j < ?l then int j else -1)" if "j < po_size p" for j
  proof -
    have inj: "po_ptr p ! j = po_ptr p ! k \<longleftrightarrow> j = k" if "k < po_size p" for k
      using that \<open>j < po_size p\<close> p(1,4) by (simp add: nth_eq_iff_index_eq)
    have old: "po_ndx p ! (po_ptr p ! j) = (if j < po_used p then int j else -1)" using assms(1) that by (simp add: pool_ok_def)
    consider "j = ?l" | "j = i" "i \<noteq> ?l" | "j \<noteq> ?l" "j \<noteq> i" by blast
    then show ?thesis
    proof cases
      case 1
      then show ?thesis using i(2) p less by simp
    next
      case 2
      then have "?ptr ! j = ?o" "?o \<noteq> a" "j < ?l" using i less p inj [of ?l] by (auto simp: nth_list_update)
      then show ?thesis using 2 p less by simp
    next
      case 3
      then have "?ptr ! j = po_ptr p ! j" "po_ptr p ! j \<noteq> a" "po_ptr p ! j \<noteq> ?o" "j < ?l \<longleftrightarrow> j < po_used p"
        using i less inj by (auto simp: nth_list_update)
      then show ?thesis using old by (metis nth_list_update_neq)
    qed
  qed
  then have "pool_ok p'" using sw p i by (auto simp: pool_ok_def p'_def)
  moreover have "open_conns p' = open_conns p - {a}" using sw p i by (auto simp: open_conns_def p'_def)
  moreover have "po_ndx p' ! a = -1" using less p by (simp add: p'_def)
  ultimately show ?thesis using run by (auto simp: p'_def)
qed

lemma connection_del_closed:
  assumes "pool_ok p" "a < length (po_obj p)" "a \<notin> open_conns p"
  shows "connection_del p (Some a) = Some (-1, p)"
proof -
  have "a \<in> set (po_ptr p)" using assms(1,2) by (simp add: pool_ok_def)
  then obtain i where i: "i < po_size p" "po_ptr p ! i = a" using assms(1) by (auto simp: pool_ok_def in_set_conv_nth)
  then have "\<not> i < po_used p" using assms by (auto simp: open_conns_iff)
  then have "po_ndx p ! a = -1" using assms(1) i by (auto simp: pool_ok_def)
  then show ?thesis using assms by (simp add: connection_del_def mem_get_def pool_ok_def)
qed

section \<open>Properties\<close>

text \<open>A history of opened and closed connections; a close of a connection that is not open is refused.\<close>

datatype pool_call = Open | Close nat

fun pool_run :: "'c \<Rightarrow> ('c \<Rightarrow> 'c option) \<Rightarrow> 'c pool \<Rightarrow> pool_call list \<Rightarrow> 'c pool option" where
  "pool_run ini rst p [] = Some p"
| "pool_run ini rst p (Open # cs) = do { (a, p1) \<leftarrow> connections_get_new_connection ini rst p; pool_run ini rst p1 cs }"
| "pool_run ini rst p (Close a # cs) =
     (if a < length (po_obj p) then do { (r, p1) \<leftarrow> connection_del p (Some a); pool_run ini rst p1 cs } else pool_run ini rst p cs)"

lemma pool_run_ok:
  assumes "pool_ok p" "\<And>c. rst c = Some (r c)"
  shows "\<exists>p'. pool_run ini rst p cs = Some p' \<and> pool_ok p'"
  using assms(1)
proof (induction cs arbitrary: p)
  case (Cons c cs)
  show ?case
  proof (cases c)
    case Open
    obtain a p1 where "connections_get_new_connection ini rst p = Some (a, p1)" "pool_ok p1"
      using get_new_ok [of p rst r ini] Cons.prems assms(2) by blast
    with Cons.IH [of p1] Open show ?thesis by simp
  next
    case (Close a)
    show ?thesis
    proof (cases "a \<in> open_conns p")
      case True
      then obtain p1 where "connection_del p (Some a) = Some (0, p1)" "pool_ok p1" using connection_del_ok [OF Cons.prems] by blast
      with Cons.IH [of p1] Cons.IH [OF Cons.prems] Close show ?thesis by simp
    next
      case False
      with Cons.IH [OF Cons.prems] Close connection_del_closed [OF Cons.prems] show ?thesis by simp
    qed
  qed
qed simp

text \<open>C16. In every pool that opening and closing connections leads to, opening one takes a connection that was not open
  and adds it, closing an open one removes exactly that one, and closing one that is not open changes nothing; the other
  connections stay open and every open connection knows its place: \<open>ndx\<close> is the place in the block where its pointer
  stands.\<close>

theorem pool_refines_set:
  assumes "pool_run ini (\<lambda>c. Some (r c)) pool_init cs = Some p"
  shows "(\<exists>a p'. connections_get_new_connection ini (\<lambda>c. Some (r c)) p = Some (a, p') \<and> a \<notin> open_conns p \<and>
      open_conns p' = insert a (open_conns p)) \<and>
    (\<forall>a \<in> open_conns p. \<exists>p'. connection_del p (Some a) = Some (0, p') \<and> open_conns p' = open_conns p - {a}) \<and>
    (\<forall>a < length (po_obj p). a \<notin> open_conns p \<longrightarrow> connection_del p (Some a) = Some (-1, p)) \<and>
    (\<forall>a \<in> open_conns p. \<exists>i < po_used p. po_ndx p ! a = int i \<and> po_ptr p ! i = a) \<and> card (open_conns p) = po_used p"
proof -
  have ok: "pool_ok p"
    using pool_run_ok [OF pool_init_ok(1), of "\<lambda>c. Some (r c)" r ini cs] assms by auto
  then have "card (open_conns p) = po_used p" by (simp add: open_conns_def pool_ok_def distinct_card)
  moreover have "\<exists>a p'. connections_get_new_connection ini (\<lambda>c. Some (r c)) p = Some (a, p') \<and> a \<notin> open_conns p \<and>
      open_conns p' = insert a (open_conns p)" using get_new_ok [OF ok, of "\<lambda>c. Some (r c)" r ini] by blast
  ultimately show ?thesis
    using connection_del_ok [OF ok] connection_del_closed [OF ok] pool_ndx_inj [OF ok] by blast
qed

theorem pool_refines_set_witness:
  "\<exists>p. pool_run (0::nat) (\<lambda>c. Some (c + 1)) pool_init [Open, Open, Open, Close 0] = Some p \<and> open_conns p = {1, 2} \<and>
     (\<exists>a p'. connections_get_new_connection 0 (\<lambda>c. Some (c + 1)) p = Some (a, p') \<and> a \<notin> {1, 2} \<and> open_conns p' = insert a {1, 2})"
proof -
  let ?r = "pool_run (0::nat) (\<lambda>c. Some (c + 1)) pool_init [Open, Open, Open, Close 0]"
  have "map_option (\<lambda>p. take (po_used p) (po_ptr p)) ?r = Some [2, 1]" by code_simp
  then obtain p where p: "?r = Some p" "take (po_used p) (po_ptr p) = [2, 1]" by auto
  then have "open_conns p = {1, 2}" by (auto simp: open_conns_def)
  with p(1) pool_refines_set [OF p(1)] show ?thesis by metis
qed

text \<open>The queue of connections that wait for a descriptor is first in, first out, and neither it nor the list of jobs
  writes outside its block. Nothing sets \<open>in_joblist\<close>, so the list of jobs gets a connection as often as it is appended.\<close>

theorem waiting_fifo:
  assumes "cs_ok q" "cs_ok j"
  shows "(\<exists>q1. fdwaitqueue_append g q con = Some q1 \<and> cs_ok q1 \<and> cs_list q1 = cs_list q @ [con]) \<and>
    (\<exists>r q1. fdwaitqueue_unshift q = Some (r, q1) \<and> cs_ok q1 \<and>
       (case cs_list q of [] \<Rightarrow> r = None \<and> q1 = q | c # cs \<Rightarrow> r = Some c \<and> cs_list q1 = cs)) \<and>
    (\<exists>j1 j2. joblist_append g j False con = Some j1 \<and> joblist_append g j1 False con = Some j2 \<and> cs_list j2 = cs_list j @ [con, con])"
proof -
  obtain j1 where j1: "cs_add g j con = Some j1" "cs_ok j1" "cs_list j1 = cs_list j @ [con]" using cs_add_ok [OF assms(2)] by blast
  obtain j2 where "cs_add g j1 con = Some j2" "cs_list j2 = cs_list j1 @ [con]" using cs_add_ok [OF j1(2)] by blast
  with j1 have "\<exists>j1 j2. joblist_append g j False con = Some j1 \<and> joblist_append g j1 False con = Some j2 \<and> cs_list j2 = cs_list j @ [con, con]"
    by (auto simp: joblist_append_def)
  then show ?thesis using cs_add_ok [OF assms(1), of g con] fdwaitqueue_unshift_ok [OF assms(1)] by (simp add: fdwaitqueue_append_def)
qed

end
