(* ===== verification/Conn.thy ===== *)
theory Conn
  imports RequestSafety HttpChunk StatCache ConnPool
begin

text \<open>
  The connection structure of \<open>base.h\<close> and the functions of \<open>connections.c\<close> that create it and prepare it for the next
  request. The fields that the request parser works on are the record of theory Request, \<open>c_core\<close>. Each of the three
  chunk queues has a heap of its own: no function moves a chunk from one queue to another, so the chunks of two queues are
  never the same. Plugin contexts, the cache of configuration conditions and the switches of the log are left out; the
  callbacks of the plugins are parameters, the fields of \<open>hooks\<close>.

  The lemmas show that a reset gives the same connection whatever the last request left in the fields of a request, and
  which fields survive.
\<close>

section \<open>The structure\<close>

type_synonym cqueue = "world \<times> chunkqueue"

record request_uri =
  uri_scheme :: bstr
  uri_authority :: bstr
  uri_path :: bstr
  uri_path_raw :: bstr
  uri_query :: bstr

record physical =
  ph_path :: bstr
  ph_basedir :: bstr
  ph_doc_root :: bstr
  ph_rel_path :: bstr
  ph_etag :: bstr

record specific_config =
  cf_mimetypes :: array
  cf_document_root :: bstr
  cf_server_name :: bstr
  cf_error_handler :: bstr
  cf_server_tag :: bstr
  cf_errorfile_prefix :: bstr
  cf_max_keep_alive_requests :: nat
  cf_max_keep_alive_idle :: nat
  cf_max_read_idle :: nat
  cf_max_write_idle :: nat
  cf_kbytes_per_second :: nat
  cf_global_kbytes_per_second :: nat
  cf_global_cnt :: nat
  cf_follow_symlink :: int
  cf_range_requests :: bool
  cf_is_ssl :: bool
  cf_allow_http11 :: bool
  cf_etag_use_inode :: bool
  cf_etag_use_mtime :: bool
  cf_etag_use_size :: bool
  cf_force_lowercase_filenames :: bool

text \<open>\<open>mode\<close> is \<open>DIRECT\<close>, which is 0, or the number of a plugin. \<open>transfer_encoding\<close> is an enumeration of two values
  that is used as a bit set: \<open>c_response_chunked\<close> is the bit \<open>HTTP_TRANSFER_ENCODING_CHUNKED\<close>. The bits of
  \<open>parsed_response\<close> are a natural number.\<close>

definition DIRECT :: int where "DIRECT = 0"

definition HTTP_STATUS :: nat where "HTTP_STATUS = 1"
definition HTTP_CONNECTION :: nat where "HTTP_CONNECTION = 2"
definition HTTP_CONTENT_LENGTH :: nat where "HTTP_CONTENT_LENGTH = 4"
definition HTTP_DATE :: nat where "HTTP_DATE = 8"
definition HTTP_LOCATION :: nat where "HTTP_LOCATION = 16"

record conn =
  c_core :: connection
  c_state :: connection_state_t
  c_read_idle_ts :: int
  c_close_timeout_ts :: int
  c_write_request_ts :: int
  c_request_start :: int
  c_connection_start :: int
  c_loops_per_request :: nat
  c_fd :: int
  c_fde_ndx :: int
  c_is_readable :: bool
  c_is_writable :: bool
  c_file_started :: bool
  c_file_finished :: bool
  c_got_response :: bool
  c_write_queue :: cqueue
  c_read_queue :: cqueue
  c_request_content_queue :: cqueue
  c_traffic_limit_reached :: bool
  c_bytes_written :: int
  c_bytes_written_cur_second :: int
  c_bytes_read :: int
  c_bytes_header :: int
  c_parsed_response :: nat
  c_uri :: request_uri
  c_physical :: physical
  c_pathinfo :: bstr
  c_response_headers :: array
  c_response_content_length :: int
  c_response_chunked :: bool
  c_environment :: array
  c_authed_user :: bstr
  c_mode :: int
  c_conf :: specific_config
  c_server_name :: bstr
  c_error_handler :: bstr
  c_error_handler_saved_status :: int
  c_in_error_handler :: bool
  c_etag_flags :: nat

abbreviation http_status_of :: "conn \<Rightarrow> int" where
  "http_status_of con \<equiv> co_http_status (c_core con)"

abbreviation set_status :: "int \<Rightarrow> conn \<Rightarrow> conn" where
  "set_status n con \<equiv> con\<lparr>c_core := (c_core con)\<lparr>co_http_status := n\<rparr>\<rparr>"

abbreviation keep_alive_of :: "conn \<Rightarrow> bool" where
  "keep_alive_of con \<equiv> co_keep_alive (c_core con)"

abbreviation no_keep_alive :: "conn \<Rightarrow> conn" where
  "no_keep_alive con \<equiv> con\<lparr>c_core := (c_core con)\<lparr>co_keep_alive := False\<rparr>\<rparr>"

abbreviation method_of :: "conn \<Rightarrow> http_method_t" where
  "method_of con \<equiv> rq_http_method (co_request (c_core con))"

abbreviation version_of :: "conn \<Rightarrow> http_version_t" where
  "version_of con \<equiv> rq_http_version (co_request (c_core con))"

abbreviation content_length_of :: "conn \<Rightarrow> nat" where
  "content_length_of con \<equiv> rq_content_length (co_request (c_core con))"

definition connection_set_state :: "conn \<Rightarrow> connection_state_t \<Rightarrow> conn" where
  "connection_set_state con state = con\<lparr>c_state := state\<rparr>"

section \<open>Creation and reset\<close>

definition config_setup_connection :: "specific_config \<Rightarrow> conn \<Rightarrow> conn" where
  "config_setup_connection s con = con
     \<lparr>c_core := (c_core con)\<lparr>co_allow_http11 := cf_allow_http11 s\<rparr>,
      c_conf := (c_conf con)\<lparr>cf_allow_http11 := cf_allow_http11 s, cf_mimetypes := cf_mimetypes s,
        cf_document_root := cf_document_root s, cf_max_keep_alive_requests := cf_max_keep_alive_requests s,
        cf_max_keep_alive_idle := cf_max_keep_alive_idle s, cf_max_read_idle := cf_max_read_idle s,
        cf_max_write_idle := cf_max_write_idle s, cf_error_handler := cf_error_handler s,
        cf_errorfile_prefix := cf_errorfile_prefix s, cf_follow_symlink := cf_follow_symlink s,
        cf_server_tag := cf_server_tag s, cf_kbytes_per_second := cf_kbytes_per_second s,
        cf_global_kbytes_per_second := cf_global_kbytes_per_second s, cf_global_cnt := cf_global_cnt s, cf_range_requests := cf_range_requests s,
        cf_force_lowercase_filenames := cf_force_lowercase_filenames s, cf_is_ssl := cf_is_ssl s,
        cf_etag_use_inode := cf_etag_use_inode s, cf_etag_use_mtime := cf_etag_use_mtime s,
        cf_etag_use_size := cf_etag_use_size s\<rparr>,
      c_server_name := cf_server_name s\<rparr>"

text \<open>What \<open>calloc\<close> and \<open>CLEAN\<close> leave: the enumerations have the value 0.\<close>

definition empty_world :: world where
  "empty_world = \<lparr>w_heap = [], w_unlinked = [], w_closed = [], w_unmapped = []\<rparr>"

definition no_config :: specific_config where
  "no_config = \<lparr>cf_mimetypes = array_init, cf_document_root = None, cf_server_name = None, cf_error_handler = None,
     cf_server_tag = None, cf_errorfile_prefix = None, cf_max_keep_alive_requests = 0, cf_max_keep_alive_idle = 0,
     cf_max_read_idle = 0, cf_max_write_idle = 0, cf_kbytes_per_second = 0,
     cf_global_kbytes_per_second = 0, cf_global_cnt = 0, cf_follow_symlink = 0, cf_range_requests = False, cf_is_ssl = False,
     cf_allow_http11 = False, cf_etag_use_inode = False, cf_etag_use_mtime = False, cf_etag_use_size = False,
     cf_force_lowercase_filenames = False\<rparr>"

definition request_init :: request where
  "request_init = \<lparr>rq_request = None, rq_uri = None, rq_orig_uri = None, rq_http_method = HTTP_METHOD_GET,
     rq_http_version = HTTP_VERSION_1_0, rq_request_line = None, rq_http_host = None, rq_http_range = None,
     rq_http_content_type = None, rq_http_if_modified_since = None, rq_http_if_none_match = None,
     rq_headers = array_init, rq_content_length = 0\<rparr>"

definition connection_init :: "array option \<Rightarrow> specific_config \<Rightarrow> conn option" where
  "connection_init upload_tempdirs conf0 = do {
     rcq \<leftarrow> snd (chunkqueue_set_tempdirs (Some chunkqueue_init) upload_tempdirs);
     Some (config_setup_connection conf0
       \<lparr>c_core = \<lparr>co_request = request_init, co_parse_request = None, co_request_count = 0, co_keep_alive = False,
          co_response_keep_alive = False, co_http_status = 0, co_header_len = 0, co_allow_http11 = False\<rparr>,
        c_state = CON_STATE_CONNECT, c_read_idle_ts = 0, c_close_timeout_ts = 0, c_write_request_ts = 0,
        c_request_start = 0, c_connection_start = 0, c_loops_per_request = 0, c_fd = 0, c_fde_ndx = -1, c_is_readable = False, c_is_writable = False,
        c_file_started = False, c_file_finished = False, c_got_response = False,
        c_write_queue = (empty_world, chunkqueue_init), c_read_queue = (empty_world, chunkqueue_init),
        c_request_content_queue = (empty_world, rcq), c_traffic_limit_reached = False, c_bytes_written = 0,
        c_bytes_written_cur_second = 0, c_bytes_read = 0, c_bytes_header = 0, c_parsed_response = 0,
        c_uri = \<lparr>uri_scheme = None, uri_authority = None, uri_path = None, uri_path_raw = None, uri_query = None\<rparr>,
        c_physical = \<lparr>ph_path = None, ph_basedir = None, ph_doc_root = None, ph_rel_path = None, ph_etag = None\<rparr>,
        c_pathinfo = None, c_response_headers = array_init, c_response_content_length = 0, c_response_chunked = False,
        c_environment = array_init, c_authed_user = None, c_mode = 0, c_conf = no_config, c_server_name = None,
        c_error_handler = None, c_error_handler_saved_status = 0, c_in_error_handler = False, c_etag_flags = 0\<rparr>)
   }"

definition array_clear :: "array \<Rightarrow> array option" where
  "array_clear a = do { r \<leftarrow> array_reset (Some a); r }"

text \<open>The assignments of \<open>connection_reset\<close> that do not touch an array or a queue.\<close>

definition reset_core :: "connection \<Rightarrow> array \<Rightarrow> connection" where
  "reset_core core headers = core
     \<lparr>co_request := (co_request core)\<lparr>rq_http_method := HTTP_METHOD_UNSET, rq_http_version := HTTP_VERSION_UNSET,
        rq_http_if_modified_since := None, rq_http_if_none_match := None, rq_uri := None, rq_request_line := None,
        rq_request := None, rq_orig_uri := None, rq_http_host := None, rq_http_range := None, rq_http_content_type := None,
        rq_content_length := 0, rq_headers := headers\<rparr>,
      co_parse_request := None, co_http_status := 0, co_response_keep_alive := False, co_header_len := 0\<rparr>"

definition connection_reset :: "(conn \<Rightarrow> conn) \<Rightarrow> specific_config \<Rightarrow> conn \<Rightarrow> conn option" where
  "connection_reset plugins_call_connection_reset conf0 con0 = do {
     let con = plugins_call_connection_reset con0;
     headers \<leftarrow> array_clear (rq_headers (co_request (c_core con)));
     rheaders \<leftarrow> array_clear (c_response_headers con);
     environment \<leftarrow> array_clear (c_environment con);
     wq \<leftarrow> chunkqueue_reset (fst (c_write_queue con)) (snd (c_write_queue con));
     rcq \<leftarrow> chunkqueue_reset (fst (c_request_content_queue con)) (snd (c_request_content_queue con));
     Some (config_setup_connection conf0 (con
       \<lparr>c_core := reset_core (c_core con) headers,
        c_is_readable := True, c_is_writable := True, c_file_finished := False, c_file_started := False,
        c_got_response := False, c_parsed_response := 0, c_bytes_written := 0, c_bytes_written_cur_second := 0,
        c_bytes_read := 0, c_bytes_header := 0, c_loops_per_request := 0, c_response_content_length := -1,
        c_response_chunked := False, c_mode := DIRECT,
        c_pathinfo := None,
        c_uri := \<lparr>uri_scheme = None, uri_authority = None, uri_path = None, uri_path_raw = None, uri_query = None\<rparr>,
        c_physical := \<lparr>ph_path = None, ph_basedir = None, ph_doc_root = None, ph_rel_path = None, ph_etag = None\<rparr>,
        c_authed_user := None, c_server_name := None, c_error_handler := None,
        c_response_headers := rheaders, c_environment := environment, c_write_queue := wq,
        c_request_content_queue := rcq, c_in_error_handler := False\<rparr>))
   }"

section \<open>The invariant of a connection\<close>

definition queue_ok :: "cqueue \<Rightarrow> bool" where
  "queue_ok s = (\<exists>ps. holds_pieces s ps \<and> PUnused \<notin> set ps)"

definition conn_ok :: "conn \<Rightarrow> bool" where
  "conn_ok con = (array_safe (rq_headers (co_request (c_core con))) \<and> array_safe (c_response_headers con) \<and>
     array_safe (c_environment con) \<and> queue_ok (c_write_queue con) \<and> queue_ok (c_read_queue con) \<and>
     queue_ok (c_request_content_queue con))"

lemma queue_okI: "holds_pieces s ps \<Longrightarrow> PUnused \<notin> set ps \<Longrightarrow> queue_ok s"
  by (auto simp: queue_ok_def)

lemma queue_okE:
  assumes "queue_ok s"
  obtains w q ps where "s = (w, q)" "rep w q ps" "PUnused \<notin> set ps"
  using assms by (cases s) (auto simp: queue_ok_def holds_pieces_def)

lemma holds_init: "holds_pieces (w, chunkqueue_init\<lparr>cq_tempdirs := d\<rparr>) []" "holds_pieces (w, chunkqueue_init) []"
  by (auto simp: holds_pieces_def rep_def queue_inv_def chunkqueue_init_def pieces_def)

lemma queue_reset_ok:
  assumes "queue_ok s"
  obtains s1 where "chunkqueue_reset (fst s) (snd s) = Some s1" "holds_pieces s1 []" "cq_bytes_in (snd s1) = 0"
proof -
  obtain w q ps where s: "s = (w, q)" "rep w q ps" "PUnused \<notin> set ps" using queue_okE [OF assms] by blast
  obtain w1 q1 where "chunkqueue_reset w q = Some (w1, q1)" "rep w1 q1 []" "cq_bytes_in q1 = 0"
    using reset_rep [OF s(2,3)] by blast
  with s(1) that [of "(w1, q1)"] show thesis by (simp add: holds_pieces_def)
qed

lemma array_clear_ok:
  assumes "array_safe a"
  obtains b where "array_clear a = Some b" "array_safe b" "a_used b = 0"
  using array_reset_safe [OF assms] that by (auto simp: array_clear_def)

lemma config_setup_simps [simp]:
  "rq_headers (co_request (c_core (config_setup_connection s con))) = rq_headers (co_request (c_core con))"
  "c_response_headers (config_setup_connection s con) = c_response_headers con"
  "c_environment (config_setup_connection s con) = c_environment con"
  "c_write_queue (config_setup_connection s con) = c_write_queue con"
  "c_read_queue (config_setup_connection s con) = c_read_queue con"
  "c_request_content_queue (config_setup_connection s con) = c_request_content_queue con"
  "c_state (config_setup_connection s con) = c_state con"
  "co_request (c_core (config_setup_connection s con)) = co_request (c_core con)"
  "co_http_status (c_core (config_setup_connection s con)) = co_http_status (c_core con)"
  "co_keep_alive (c_core (config_setup_connection s con)) = co_keep_alive (c_core con)"
  "c_mode (config_setup_connection s con) = c_mode con"
  "c_fd (config_setup_connection s con) = c_fd con"
  by (simp_all add: config_setup_connection_def)

lemma connection_init_ok: "\<exists>con. connection_init dirs conf0 = Some con \<and> conn_ok con"
  by (auto simp: connection_init_def chunkqueue_set_tempdirs_def conn_ok_def request_init_def array_init_safe
      intro: queue_okI [OF holds_init(1)] queue_okI [OF holds_init(2)])

text \<open>What a request left behind is gone after a reset: no header, no output, no body, no status.\<close>

definition clean :: "conn \<Rightarrow> bool" where
  "clean con = (a_used (rq_headers (co_request (c_core con))) = 0 \<and> a_used (c_response_headers con) = 0 \<and>
     a_used (c_environment con) = 0 \<and> holds_pieces (c_write_queue con) [] \<and> holds_pieces (c_request_content_queue con) [] \<and>
     cq_bytes_in (snd (c_request_content_queue con)) = 0 \<and> http_status_of con = 0 \<and> c_mode con = DIRECT \<and>
     method_of con = HTTP_METHOD_UNSET \<and> content_length_of con = 0 \<and> rq_uri (co_request (c_core con)) = None \<and>
     rq_http_host (co_request (c_core con)) = None \<and> rq_http_range (co_request (c_core con)) = None \<and>
     \<not> c_file_started con \<and> \<not> c_file_finished con \<and> c_parsed_response con = 0 \<and> uri_path (c_uri con) = None \<and>
     ph_path (c_physical con) = None \<and> c_authed_user con = None \<and> \<not> c_in_error_handler con)"

lemma connection_reset_ok:
  assumes "conn_ok (reset_hook con)"
  obtains con1 where "connection_reset reset_hook conf0 con = Some con1" "conn_ok con1" "clean con1"
    "c_read_queue con1 = c_read_queue (reset_hook con)" "keep_alive_of con1 = keep_alive_of (reset_hook con)"
    "c_state con1 = c_state (reset_hook con)" "c_fd con1 = c_fd (reset_hook con)"
proof -
  define c where "c = reset_hook con"
  have ok: "array_safe (rq_headers (co_request (c_core c)))" "array_safe (c_response_headers c)" "array_safe (c_environment c)"
    "queue_ok (c_write_queue c)" "queue_ok (c_read_queue c)" "queue_ok (c_request_content_queue c)"
    using assms by (simp_all add: conn_ok_def c_def)
  obtain h where h: "array_clear (rq_headers (co_request (c_core c))) = Some h" "array_safe h" "a_used h = 0"
    using array_clear_ok [OF ok(1)] .
  obtain r where r: "array_clear (c_response_headers c) = Some r" "array_safe r" "a_used r = 0" using array_clear_ok [OF ok(2)] .
  obtain e where e: "array_clear (c_environment c) = Some e" "array_safe e" "a_used e = 0" using array_clear_ok [OF ok(3)] .
  obtain wq where wq: "chunkqueue_reset (fst (c_write_queue c)) (snd (c_write_queue c)) = Some wq" "holds_pieces wq []"
    using queue_reset_ok [OF ok(4)] .
  obtain bq where bq: "chunkqueue_reset (fst (c_request_content_queue c)) (snd (c_request_content_queue c)) = Some bq"
    "holds_pieces bq []" "cq_bytes_in (snd bq) = 0" using queue_reset_ok [OF ok(6)] .
  obtain con1 where con1: "connection_reset reset_hook conf0 con = Some con1"
    by (simp add: connection_reset_def c_def [symmetric] Let_def h r e wq bq)
  then have "conn_ok con1" "clean con1" "c_read_queue con1 = c_read_queue c" "keep_alive_of con1 = keep_alive_of c"
    "c_state con1 = c_state c" "c_fd con1 = c_fd c"
    using h r e wq bq ok(5) queue_okI [OF wq(2)] queue_okI [OF bq(2)]
    by (auto simp: connection_reset_def c_def [symmetric] Let_def conn_ok_def clean_def reset_core_def config_setup_connection_def)
  with con1 that show thesis by (simp add: c_def)
qed

end
