(* ===== verification/ConnRead.thy ===== *)
theory ConnRead
  imports Conn
begin

text \<open>
  Reading a request: \<open>connection_handle_read\<close> and \<open>connection_handle_read_state\<close> of \<open>connections.c\<close>. A read from the
  socket fills one chunk of \<open>read_queue\<close>; in state \<open>CON_STATE_READ\<close> the queue is searched for the empty line that ends the
  header, which is copied to \<open>request.request\<close>; in state \<open>CON_STATE_READ_POST\<close> the body is moved to
  \<open>request_content_queue\<close>, into temporary files when it is longer than 64 KiB.

  The answers of the system calls are parameters. \<open>FIONREAD\<close> and \<open>read\<close> give a \<open>read_answer\<close>; the calls of \<open>mkstemp\<close>,
  \<open>open\<close> and \<open>write\<close> for the n-th chunk of the body are the fields of \<open>upload_os\<close>, and what was written to which
  descriptor is returned. The build is the one without OpenSSL.
\<close>

section \<open>Reading from the socket\<close>

datatype errno = EAGAIN | EINTR | ECONNRESET | EPIPE | EOTHER nat

text \<open>\<open>Read_bytes s full\<close>: \<open>read\<close> gave the octets \<open>s\<close>, none at the end of the stream, and they fill the buffer.\<close>

datatype read_answer = Ioctl_failed | Read_failed errno | Read_bytes string bool

definition connection_handle_read :: "read_answer \<Rightarrow> conn \<Rightarrow> (int \<times> conn) option" where
  "connection_handle_read ans con =
     (if cf_is_ssl (c_conf con) then Some (-1, con)
      else if ans = Ioctl_failed then Some (-1, con)
      else do {
        (a, w, q) \<leftarrow> chunkqueue_get_append_buffer (fst (c_read_queue con)) (snd (c_read_queue con));
        let con1 = con\<lparr>c_read_queue := (w, q)\<rparr>;
        (case ans of
           Ioctl_failed \<Rightarrow> None
         | Read_failed e \<Rightarrow>
             if e = EAGAIN then Some (0, con1\<lparr>c_is_readable := False\<rparr>)
             else if e = EINTR then Some (0, con1\<lparr>c_is_readable := True\<rparr>)
             else Some (-1, connection_set_state (con1\<lparr>c_is_readable := False\<rparr>) CON_STATE_ERROR)
         | Read_bytes s full \<Rightarrow>
             if s = [] then Some (-2, con1\<lparr>c_is_readable := False\<rparr>)
             else do {
               c \<leftarrow> chunk_at w a;
               w1 \<leftarrow> chunk_put w a (c\<lparr>ck_mem := Some s\<rparr>);
               Some (0, con1\<lparr>c_read_queue := (w1, q), c_is_readable := (c_is_readable con \<and> full),
                 c_bytes_read := c_bytes_read con + int (length s)\<rparr>)
             })
      })"

section \<open>Removing empty chunks\<close>

text \<open>A chunk is empty when \<open>mem->used\<close> is 0. After a chunk in the middle has been unlinked the loop goes on with the
  one behind it.\<close>

partial_function (option) purge_loop :: "world \<Rightarrow> chunkqueue \<Rightarrow> nat option \<Rightarrow> (world \<times> chunkqueue) option" where
  "purge_loop w q p = (case p of
     None \<Rightarrow> Some (w, q)
   | Some a \<Rightarrow> do {
       c \<leftarrow> chunk_at w a;
       (if cq_first q = Some a \<and> ck_mem c = None then do {
          w1 \<leftarrow> chunk_put w a (c\<lparr>ck_next := cq_unused q\<rparr>);
          purge_loop w1 (q\<lparr>cq_first := ck_next c, cq_last := (if ck_next c = None then None else cq_last q),
            cq_unused := Some a, cq_unused_chunks := cq_unused_chunks q + 1\<rparr>) (ck_next c)
        }
        else (case ck_next c of
          None \<Rightarrow> purge_loop w q None
        | Some b \<Rightarrow> do {
            fc \<leftarrow> chunk_at w b;
            (if ck_mem fc = None then do {
               w1 \<leftarrow> chunk_put w a (c\<lparr>ck_next := ck_next fc\<rparr>);
               w2 \<leftarrow> chunk_put w1 b (fc\<lparr>ck_next := cq_unused q\<rparr>);
               purge_loop w2 (q\<lparr>cq_unused := Some b, cq_unused_chunks := cq_unused_chunks q + 1,
                 cq_last := (if ck_next fc = None then Some a else cq_last q)\<rparr>) (ck_next fc)
             }
             else purge_loop w q (Some b))
          }))
     })"

section \<open>The end of the header\<close>

text \<open>The buffer \<open>b\<close> of both loops: what stands behind \<open>offset\<close>, \<open>None\<close> when \<open>used\<close> is 0.\<close>

definition chunk_rest :: "chunk \<Rightarrow> bstr option" where
  "chunk_rest c = (case ck_mem c of
     None \<Rightarrow> if ck_offset c = 0 then Some None else None
   | Some s \<Rightarrow> if 0 \<le> ck_offset c \<and> ck_offset c \<le> int (length s) then Some (Some (drop (nat (ck_offset c)) s)) else None)"

abbreviation CRLFCRLF :: string where "CRLFCRLF \<equiv> [CR, LF, CR, LF]"

text \<open>The loop over the characters of one buffer, from the position \<open>i\<close> on. \<open>ahead\<close> is the contents of the next chunk,
  if that is a chunk of memory with contents. The result says whether the end is in the next chunk, and the offset.\<close>

fun scan_buf :: "string option \<Rightarrow> nat \<Rightarrow> string \<Rightarrow> (bool \<times> nat) option" where
  "scan_buf ahead i [] = None"
| "scan_buf ahead i (ch # r) =
     (let have_chars = Suc (length r); missing_chars = 4 - have_chars in
      if ch = CR \<and> have_chars \<ge> 4 \<and> take 4 (ch # r) = CRLFCRLF then Some (False, i + 4)
      else if ch = CR \<and> have_chars < 4 \<and>
          (case ahead of
             None \<Rightarrow> False
           | Some m \<Rightarrow> length m + 1 > missing_chars \<and> ch # r = take have_chars CRLFCRLF \<and>
               take missing_chars m = drop have_chars CRLFCRLF)
        then Some (True, missing_chars)
      else scan_buf ahead (Suc i) r)"

partial_function (option) find_header :: "world \<Rightarrow> nat option \<Rightarrow> (nat \<times> nat) option option" where
  "find_header w p = (case p of
     None \<Rightarrow> Some None
   | Some a \<Rightarrow> do {
       c \<leftarrow> chunk_at w a;
       b \<leftarrow> chunk_rest c;
       ahead \<leftarrow> (case ck_next c of
          None \<Rightarrow> Some None
        | Some n \<Rightarrow> do { lc \<leftarrow> chunk_at w n; Some (if ck_type lc = MEM_CHUNK then ck_mem lc else None) });
       (case scan_buf ahead 0 (bs_str b) of
          Some (False, off) \<Rightarrow> Some (Some (a, off))
        | Some (True, off) \<Rightarrow> do { n \<leftarrow> ck_next c; Some (Some (n, off)) }
        | None \<Rightarrow> find_header w (ck_next c))
     })"

partial_function (option) copy_header ::
  "world \<Rightarrow> nat option \<Rightarrow> nat \<Rightarrow> nat \<Rightarrow> bstr \<Rightarrow> (world \<times> bstr) option" where
  "copy_header w p last_chunk last_offset req = (case p of
     None \<Rightarrow> Some (w, req)
   | Some a \<Rightarrow> do {
       c \<leftarrow> chunk_at w a;
       b \<leftarrow> chunk_rest c;
       (if a = last_chunk then do {
          s \<leftarrow> mem_read (bs_str b) last_offset;
          w1 \<leftarrow> chunk_put w a (c\<lparr>ck_offset := ck_offset c + int last_offset\<rparr>);
          Some (w1, bs_append_buffer req (Some s))
        }
        else do {
          w1 \<leftarrow> chunk_put w a (c\<lparr>ck_offset := (case ck_mem c of None \<Rightarrow> -1 | Some s \<Rightarrow> int (length s))\<rparr>);
          copy_header w1 (ck_next c) last_chunk last_offset (bs_append_buffer req b)
        })
     })"

declare purge_loop.simps [code] find_header.simps [code] copy_header.simps [code]

definition MAX_HEADER :: int where "MAX_HEADER = 64 * 1024"

definition read_header :: "conn \<Rightarrow> conn option" where
  "read_header con = do {
     let w = fst (c_read_queue con);
     let q = snd (c_read_queue con);
     f \<leftarrow> find_header w (cq_first q);
     (case f of
        Some (last_chunk, last_offset) \<Rightarrow> do {
          (w1, req) \<leftarrow> copy_header w (cq_first q) last_chunk last_offset None;
          let core = c_core con;
          Some (connection_set_state
            (con\<lparr>c_read_queue := (w1, q), c_core := core\<lparr>co_request := (co_request core)\<lparr>rq_request := req\<rparr>\<rparr>\<rparr>)
            CON_STATE_REQUEST_END)
        }
      | None \<Rightarrow> do {
          len \<leftarrow> chunkqueue_length w q;
          Some (if len > MAX_HEADER then connection_set_state (no_keep_alive (set_status 414 con)) CON_STATE_HANDLE_REQUEST
                else con)
        })
   }"

section \<open>The body\<close>

record upload_os =
  os_mkstemp :: "nat \<Rightarrow> string \<Rightarrow> int \<times> string"
  os_open :: "nat \<Rightarrow> string \<Rightarrow> int"
  os_write :: "nat \<Rightarrow> int \<Rightarrow> string \<Rightarrow> int"

definition close_chunk_fd :: "world \<Rightarrow> nat \<Rightarrow> chunk \<Rightarrow> world option" where
  "close_chunk_fd w a c = chunk_put (w\<lparr>w_closed := w_closed w @ [ck_file_fd c]\<rparr>) a (c\<lparr>ck_file_fd := -1\<rparr>)"

definition MAX_TEMPFILE :: int where "MAX_TEMPFILE = 1 * 1024 * 1024"

text \<open>The chunk the next part of the body goes to.\<close>

definition upload_chunk :: "upload_os \<Rightarrow> nat \<Rightarrow> cqueue \<Rightarrow> (nat \<times> cqueue) option" where
  "upload_chunk os n dst = (case dst of (w, q) \<Rightarrow>
     (case cq_last q of
        None \<Rightarrow> chunkqueue_get_append_tempfile (os_mkstemp os n) w q
      | Some l \<Rightarrow> do {
          c \<leftarrow> chunk_at w l;
          (if ck_type c = FILE_CHUNK \<and> ck_is_temp c \<and> ck_offset c = 0 then
             if ck_file_length c < MAX_TEMPFILE then
               if ck_file_fd c = -1 then do {
                 name \<leftarrow> ck_file_name c;
                 w1 \<leftarrow> chunk_put w l (c\<lparr>ck_file_fd := os_open os n (c_str name)\<rparr>);
                 Some (l, w1, q)
               }
               else Some (l, w, q)
             else do {
               w1 \<leftarrow> (if ck_file_fd c \<noteq> -1 then close_chunk_fd w l c else Some w);
               chunkqueue_get_append_tempfile (os_mkstemp os n) w1 q
             }
           else chunkqueue_get_append_tempfile (os_mkstemp os n) w q)
        }))"

text \<open>Storing \<open>bytes\<close>; \<open>Inl\<close> when that failed and the upload is denied. \<open>is_last\<close>: the body is complete now.\<close>

definition store_tempfile ::
  "upload_os \<Rightarrow> nat \<Rightarrow> bool \<Rightarrow> cqueue \<Rightarrow> string \<Rightarrow> (cqueue + cqueue \<times> (int \<times> string) list) option" where
  "store_tempfile os n is_last dst bytes = do {
     (a, w, q) \<leftarrow> upload_chunk os n dst;
     c \<leftarrow> chunk_at w a;
     (if ck_file_fd c = -1 then Some (Inl (w, q))
      else if os_write os n (ck_file_fd c) bytes \<noteq> int (length bytes) then do {
        w1 \<leftarrow> close_chunk_fd w a c;
        Some (Inl (w1, q))
      }
      else do {
        let c1 = c\<lparr>ck_file_length := ck_file_length c + int (length bytes)\<rparr>;
        w1 \<leftarrow> (if is_last then close_chunk_fd w a c1 else chunk_put w a c1);
        Some (Inr ((w1, q), [(ck_file_fd c, bytes)]))
      })
   }"

definition store_mem :: "cqueue \<Rightarrow> string \<Rightarrow> (cqueue + cqueue \<times> (int \<times> string) list) option" where
  "store_mem dst bytes = do {
     (a, w, q) \<leftarrow> chunkqueue_get_append_buffer (fst dst) (snd dst);
     c \<leftarrow> chunk_at w a;
     w1 \<leftarrow> chunk_put w a (c\<lparr>ck_mem := Some bytes\<rparr>);
     Some (Inr ((w1, q), []))
   }"

definition MAX_MEM_BODY :: int where "MAX_MEM_BODY = 64 * 1024"

definition to_read :: "int \<Rightarrow> chunk \<Rightarrow> string \<Rightarrow> int" where
  "to_read weWant c s = (let weHave = int (length s) - ck_offset c in if weHave > weWant then weWant else weHave)"

text \<open>\<open>cl\<close> is \<open>content_length\<close>, \<open>rw\<close> the heap of the read queue. The flag of the result says that the upload was denied.\<close>

partial_function (option) post_loop ::
  "upload_os \<Rightarrow> nat \<Rightarrow> int \<Rightarrow> nat option \<Rightarrow> world \<Rightarrow> cqueue \<Rightarrow> (int \<times> string) list \<Rightarrow>
   (bool \<times> world \<times> cqueue \<times> (int \<times> string) list) option" where
  "post_loop os n cl p rw dst log = (case p of
     None \<Rightarrow> Some (False, rw, dst, log)
   | Some a \<Rightarrow>
       if cq_bytes_in (snd dst) = cl then Some (False, rw, dst, log)
       else do {
         c \<leftarrow> chunk_at rw a;
         s \<leftarrow> ck_mem c;
         b \<leftarrow> chunk_rest c;
         let toRead = to_read (cl - cq_bytes_in (snd dst)) c s;
         bytes \<leftarrow> (if toRead < 0 then None else mem_read (bs_str b) (nat toRead));
         r \<leftarrow> (if cl > MAX_MEM_BODY then store_tempfile os n (cq_bytes_in (snd dst) + toRead = cl) dst bytes
               else store_mem dst bytes);
         (case r of
            Inl dst1 \<Rightarrow> Some (True, rw, dst1, log)
          | Inr (dst1, entry) \<Rightarrow> do {
              rw1 \<leftarrow> chunk_put rw a (c\<lparr>ck_offset := ck_offset c + toRead\<rparr>);
              post_loop os (Suc n) cl (ck_next c) rw1
                (fst dst1, (snd dst1)\<lparr>cq_bytes_in := cq_bytes_in (snd dst1) + toRead\<rparr>) (log @ entry)
            })
       })"

declare post_loop.simps [code]

definition read_post :: "upload_os \<Rightarrow> conn \<Rightarrow> (conn \<times> (int \<times> string) list) option" where
  "read_post os con = do {
     let q = snd (c_read_queue con);
     let cl = int (content_length_of con);
     (denied, rw, dst, log) \<leftarrow> post_loop os 0 cl (cq_first q) (fst (c_read_queue con)) (c_request_content_queue con) [];
     let con1 = con\<lparr>c_read_queue := (rw, q), c_request_content_queue := dst\<rparr>;
     let con2 = (if denied then connection_set_state (no_keep_alive (set_status 413 con1)) CON_STATE_HANDLE_REQUEST else con1);
     Some (if cq_bytes_in (snd dst) = cl then connection_set_state con2 CON_STATE_HANDLE_REQUEST else con2, log)
   }"

section \<open>The whole function\<close>

definition connection_handle_read_state ::
  "upload_os \<Rightarrow> int \<Rightarrow> read_answer \<Rightarrow> conn \<Rightarrow> (int \<times> conn \<times> (int \<times> string) list) option" where
  "connection_handle_read_state os cur ans con0 = do {
     let ostate = c_state con0;
     (r, con1) \<leftarrow> (if c_is_readable con0 then connection_handle_read ans (con0\<lparr>c_read_idle_ts := cur\<rparr>) else Some (0, con0));
     (if r = -1 then Some (-1, con1, [])
      else do {
        let is_closed = (r = -2);
        rq \<leftarrow> purge_loop (fst (c_read_queue con1)) (snd (c_read_queue con1)) (cq_first (snd (c_read_queue con1)));
        let con2 = con1\<lparr>c_read_queue := rq\<rparr>;
        (con3, log) \<leftarrow> (if ostate = CON_STATE_READ then map_option (\<lambda>con. (con, [])) (read_header con2)
          else if ostate = CON_STATE_READ_POST then read_post os con2
          else Some (con2, []));
        let con4 = (if is_closed \<and> ostate = c_state con3 then connection_set_state con3 CON_STATE_ERROR else con3);
        rq1 \<leftarrow> queue_drop (c_read_queue con4);
        Some (0, con4\<lparr>c_read_queue := rq1\<rparr>, log)
      })
   }"

section \<open>Queues of memory\<close>

text \<open>A piece of memory with its part that has been read and its rest.\<close>

definition mem_piece :: "string \<times> string \<Rightarrow> piece" where
  "mem_piece pr = (case pr of (pre, r) \<Rightarrow> PMem (Some (pre @ r)) (int (length pre)))"

definition rests :: "(string \<times> string) list \<Rightarrow> string" where
  "rests prs = concat (map snd prs)"

lemma rests_simps [simp]: "rests [] = []" "rests ((pre, r) # prs) = r @ rests prs" "rests (xs @ ys) = rests xs @ rests ys"
  by (simp_all add: rests_def)

lemma piece_of_mem: "piece_of c = mem_piece (pre, r) \<longleftrightarrow> ck_type c = MEM_CHUNK \<and> ck_mem c = Some (pre @ r) \<and> ck_offset c = int (length pre)"
  by (auto simp: piece_of_def mem_piece_def split: chunk_type.splits)

lemma mem_piece_neq [simp]: "mem_piece pr \<noteq> PUnused" "PUnused \<noteq> mem_piece pr"
  by (cases pr, simp add: mem_piece_def)+

lemma mem_piece_finished: "piece_finished (mem_piece (pre, r)) \<longleftrightarrow> r = []"
  by (simp add: mem_piece_def piece_finished_def)

lemma chunk_rest_mem: "piece_of c = mem_piece (pre, r) \<Longrightarrow> chunk_rest c = Some (Some r)"
  by (simp add: piece_of_mem chunk_rest_def)

text \<open>A chain whose first chunk is a piece of memory.\<close>

lemma chain_mem_Cons:
  assumes "chain w p (a # as)" "pieces w (a # as) = mem_piece (pre, r) # ps"
  obtains c where "p = Some a" "chunk_at w a = Some c" "piece_of c = mem_piece (pre, r)" "chain w (ck_next c) as" "pieces w as = ps"
  using assms by (auto simp: pieces_def split: option.splits)

section \<open>Removing the empty chunk at the end\<close>

lemma purge_none:
  assumes "chain w p as" "list_all (\<lambda>a. \<exists>c s. chunk_at w a = Some c \<and> ck_mem c = Some s) as"
  shows "purge_loop w q p = Some (w, q)"
  using assms
proof (induction as arbitrary: p)
  case Nil
  then show ?case by (subst purge_loop.simps) simp
next
  case (Cons a as)
  then obtain c s where c: "p = Some a" "chunk_at w a = Some c" "ck_mem c = Some s" "chain w (ck_next c) as"
    by (auto split: option.splits)
  have IH: "purge_loop w q (ck_next c) = Some (w, q)" using Cons.IH [OF c(4)] Cons.prems(2) by simp
  show ?case
  proof (cases as)
    case Nil
    with c IH show ?thesis by (subst purge_loop.simps) simp
  next
    case (Cons b bs)
    then obtain d t where "ck_next c = Some b" "chunk_at w b = Some d" "ck_mem d = Some t" using c(4) Cons.prems(2) by auto
    with c IH show ?thesis by (subst purge_loop.simps) simp
  qed
qed

lemma purge_last:
  assumes "chain w p (as @ [b])" "as \<noteq> []" "distinct (as @ [b])"
    and "list_all (\<lambda>a. \<exists>c s. chunk_at w a = Some c \<and> ck_mem c = Some s) as"
    and "chunk_at w b = Some d" "ck_mem d = None" "chunk_at w (last as) = Some l"
  shows "purge_loop w q p = Some
    (w\<lparr>w_heap := (w_heap w)[last as := Some (l\<lparr>ck_next := None\<rparr>), b := Some (d\<lparr>ck_next := cq_unused q\<rparr>)]\<rparr>,
     q\<lparr>cq_unused := Some b, cq_unused_chunks := cq_unused_chunks q + 1, cq_last := Some (last as)\<rparr>)"
  using assms
proof (induction as arbitrary: p)
  case (Cons a as)
  then obtain c s where c: "p = Some a" "chunk_at w a = Some c" "ck_mem c = Some s" "chain w (ck_next c) (as @ [b])"
    by (auto split: option.splits)
  show ?case
  proof (cases as)
    case Nil
    have n: "ck_next c = Some b" "ck_next d = None" "a \<noteq> b" "l = c" using c(2,4) Nil Cons.prems by auto
    let ?w = "w\<lparr>w_heap := (w_heap w)[a := Some (c\<lparr>ck_next := None\<rparr>)]\<rparr>"
    note put = chunk_put_Some [OF c(2), of "c\<lparr>ck_next := None\<rparr>"]
    have "chunk_at ?w b = Some d" using put(2) n(3) Cons.prems(5) by simp
    from chunk_put_Some(1) [OF this] put(1) c n Nil Cons.prems(5,6) show ?thesis
      by (subst purge_loop.simps) (subst purge_loop.simps, simp)
  next
    case (Cons a2 as2)
    then obtain d2 t where "ck_next c = Some a2" "chunk_at w a2 = Some d2" "ck_mem d2 = Some t"
      using c(4) Cons.prems(4) by (auto split: option.splits)
    moreover have "purge_loop w q (ck_next c) = Some
      (w\<lparr>w_heap := (w_heap w)[last as := Some (l\<lparr>ck_next := None\<rparr>), b := Some (d\<lparr>ck_next := cq_unused q\<rparr>)]\<rparr>,
       q\<lparr>cq_unused := Some b, cq_unused_chunks := cq_unused_chunks q + 1, cq_last := Some (last as)\<rparr>)"
      using Cons.IH [OF c(4)] Cons.prems Cons by simp
    ultimately show ?thesis using c Cons by (subst purge_loop.simps) simp
  qed
qed simp

lemma mem_chunks:
  assumes "pieces w as = map mem_piece prs"
  shows "list_all (\<lambda>a. \<exists>c s. chunk_at w a = Some c \<and> ck_mem c = Some s) as"
proof -
  have "\<exists>c s. chunk_at w a = Some c \<and> ck_mem c = Some s" if a: "a \<in> set as" for a
  proof -
    have "(case chunk_at w a of None \<Rightarrow> PUnused | Some c \<Rightarrow> piece_of c) \<in> set (pieces w as)" using a by (auto simp: pieces_def)
    then obtain pre r where "(case chunk_at w a of None \<Rightarrow> PUnused | Some c \<Rightarrow> piece_of c) = mem_piece (pre, r)"
      using assms by auto
    then show ?thesis by (cases "chunk_at w a") (auto simp: piece_of_mem)
  qed
  then show ?thesis by (simp add: list_all_iff)
qed

lemma chain_unlink_last:
  assumes "chain w p (as @ [b])" "as \<noteq> []" "distinct (as @ [b])" "chunk_at w (last as) = Some l"
    and "\<And>a. a \<in> set as \<Longrightarrow> chunk_at w' a = (if a = last as then Some (l\<lparr>ck_next := None\<rparr>) else chunk_at w a)"
  shows "chain w' p as"
  using assms
proof (induction as arbitrary: p)
  case (Cons a as)
  show ?case
  proof (cases "as = []")
    case True
    with Cons.prems show ?thesis by (auto split: option.splits)
  next
    case False
    then have "a \<noteq> last as" using Cons.prems(3) by auto
    with Cons False show ?thesis by (auto split: option.splits)
  qed
qed simp

lemma purge_empty_last:
  assumes "queue_inv w q (as @ [b]) us" "length us \<le> 4" "pieces w as = map mem_piece prs"
    and "chunk_at w b = Some d" "ck_mem d = None"
  shows "\<exists>w1 q1. purge_loop w q (cq_first q) = Some (w1, q1) \<and> rep w1 q1 (map mem_piece prs)"
proof (cases "as = []")
  case True
  let ?w = "w\<lparr>w_heap := (w_heap w)[b := Some (d\<lparr>ck_next := cq_unused q\<rparr>)]\<rparr>"
  let ?q = "q\<lparr>cq_first := None, cq_last := None, cq_unused := Some b, cq_unused_chunks := cq_unused_chunks q + 1\<rparr>"
  note put = chunk_put_Some [OF assms(4), of "d\<lparr>ck_next := cq_unused q\<rparr>"]
  have q: "cq_first q = Some b" "ck_next d = None" "chain w (cq_unused q) us" "b \<notin> set us"
    using assms(1,4) True by (auto simp: queue_inv_def)
  have "purge_loop w q (cq_first q) = Some (?w, ?q)"
    using q assms(4,5) put by (subst purge_loop.simps) (subst purge_loop.simps, simp)
  moreover have "chain ?w (cq_unused q) us" by (rule chain_frameI [OF q(3)]) (use q(4) put(2) in auto)
  then have "queue_inv ?w ?q [] (b # us)" using assms(1,2) q put(2) True by (auto simp: queue_inv_def)
  ultimately show ?thesis using assms(3) True by (auto simp: rep_def pieces_def)
next
  case False
  have q: "chain w (cq_first q) (as @ [b])" "distinct (as @ [b])" "chain w (cq_unused q) us" "set (as @ [b]) \<inter> set us = {}"
    using assms(1) by (auto simp: queue_inv_def)
  have la: "last as \<in> set as" using False by simp
  then obtain l where l: "chunk_at w (last as) = Some l" using chain_mem [OF q(1), of "last as"] by auto
  let ?w = "w\<lparr>w_heap := (w_heap w)[last as := Some (l\<lparr>ck_next := None\<rparr>), b := Some (d\<lparr>ck_next := cq_unused q\<rparr>)]\<rparr>"
  let ?q = "q\<lparr>cq_unused := Some b, cq_unused_chunks := cq_unused_chunks q + 1, cq_last := Some (last as)\<rparr>"
  have "b \<noteq> last as" using q(2) la by auto
  then have at: "chunk_at ?w x = (if x = b then Some (d\<lparr>ck_next := cq_unused q\<rparr>) else if x = last as then Some (l\<lparr>ck_next := None\<rparr>)
      else chunk_at w x)" for x
    using l assms(4) by (auto simp: chunk_at_def nth_list_update split: if_splits)
  have "chain ?w (cq_first q) as" by (rule chain_unlink_last [OF q(1) False q(2) l]) (use at q(2) in auto)
  moreover have "chain ?w (cq_unused q) us" by (rule chain_frameI [OF q(3)]) (use q(4) at la in auto)
  moreover have "pieces ?w as = pieces w as" by (rule pieces_cong) (use at l q(2) in auto)
  ultimately have "queue_inv ?w ?q as (b # us)" "pieces ?w as = map mem_piece prs"
    using assms(1-3) at False by (auto simp: queue_inv_def)
  then show ?thesis using purge_last [OF q(1) False q(2) mem_chunks [OF assms(3)] assms(4,5) l, of q] unfolding rep_def by blast
qed

section \<open>The header in the chunks\<close>

text \<open>What the search computes on the contents of the chunks: the index of the chunk in which the header ends, and the
  offset in it.\<close>

fun find_rests :: "string list \<Rightarrow> (nat \<times> nat) option" where
  "find_rests [] = None"
| "find_rests (r # rs) = (case scan_buf (case rs of [] \<Rightarrow> None | m # _ \<Rightarrow> Some m) 0 r of
     Some (False, off) \<Rightarrow> Some (0, off)
   | Some (True, off) \<Rightarrow> Some (1, off)
   | None \<Rightarrow> map_option (\<lambda>(i, off). (Suc i, off)) (find_rests rs))"

text \<open>Only the first chunk of the read queue has been read in part.\<close>

definition fresh_tail :: "(string \<times> string) list \<Rightarrow> bool" where
  "fresh_tail prs = list_all (\<lambda>(pre, r). pre = []) (tl prs)"

lemma scan_buf_ahead: "scan_buf ahead i r = Some (True, off) \<Longrightarrow> \<exists>m. ahead = Some m \<and> off \<le> length m \<and> 0 < off"
  by (induction r arbitrary: i) (auto simp: Let_def split: if_splits option.splits)

lemma find_header_chain:
  assumes "chain w p as" "pieces w as = map mem_piece prs" "fresh_tail prs"
  shows "find_header w p = Some (map_option (\<lambda>(i, off). (as ! i, off)) (find_rests (map snd prs)))"
  using assms
proof (induction as arbitrary: p prs)
  case Nil
  then have "p = None" "prs = []" by (simp_all add: pieces_def)
  then show ?case by (subst find_header.simps) simp
next
  case (Cons a as)
  then obtain pre r prs' where prs: "prs = (pre, r) # prs'" by (cases prs) (auto simp: pieces_def)
  obtain c where c: "p = Some a" "chunk_at w a = Some c" "piece_of c = mem_piece (pre, r)" "chain w (ck_next c) as"
    "pieces w as = map mem_piece prs'" using chain_mem_Cons [OF Cons.prems(1)] Cons.prems(2) prs by auto
  have tl: "list_all (\<lambda>(pre, r). pre = []) prs'" using Cons.prems(3) prs by (simp add: fresh_tail_def)
  then have IH: "find_header w (ck_next c) = Some (map_option (\<lambda>(i, off). (as ! i, off)) (find_rests (map snd prs')))"
    using Cons.IH [OF c(4,5)] by (cases prs') (simp_all add: fresh_tail_def)
  have ahead: "(case ck_next c of
          None \<Rightarrow> Some None
        | Some n \<Rightarrow> do { lc \<leftarrow> chunk_at w n; Some (if ck_type lc = MEM_CHUNK then ck_mem lc else None) }) =
      Some (case map snd prs' of [] \<Rightarrow> None | m # _ \<Rightarrow> Some m)"
  proof (cases as)
    case Nil
    with c(4,5) show ?thesis by (auto simp: pieces_def)
  next
    case (Cons a2 as2)
    then obtain r2 prs2 where "prs' = ([], r2) # prs2" using c(5) tl by (cases prs') (auto simp: pieces_def)
    with c(4,5) Cons show ?thesis by (auto simp: pieces_Cons piece_of_mem split: option.splits)
  qed
  show ?case
  proof (cases "scan_buf (case map snd prs' of [] \<Rightarrow> None | m # _ \<Rightarrow> Some m) 0 r")
    case None
    then show ?thesis using c(1,2) IH chunk_rest_mem [OF c(3)] ahead prs
      by (subst find_header.simps) (simp add: option.map_comp comp_def case_prod_unfold)
  next
    case (Some found)
    obtain n off where f: "found = (n, off)" by (cases found)
    have "as \<noteq> [] \<and> ck_next c = Some (as ! 0)" if n
    proof -
      have "prs' \<noteq> []" using scan_buf_ahead [of _ 0 r off] Some f that by (cases prs') auto
      then show ?thesis using c(4,5) by (cases as) (auto simp: pieces_def)
    qed
    with Some f show ?thesis using c(1,2) chunk_rest_mem [OF c(3)] ahead prs
      by (subst find_header.simps) (cases n; auto simp: nth_Cons')
  qed
qed

fun consume :: "nat \<Rightarrow> nat \<Rightarrow> (string \<times> string) list \<Rightarrow> (string \<times> string) list" where
  "consume i off [] = []"
| "consume 0 off ((pre, r) # prs) = (pre @ take off r, drop off r) # prs"
| "consume (Suc i) off ((pre, r) # prs) = (pre @ r, []) # consume i off prs"

fun consumed :: "nat \<Rightarrow> nat \<Rightarrow> string list \<Rightarrow> string" where
  "consumed i off [] = []"
| "consumed 0 off (r # rs) = take off r"
| "consumed (Suc i) off (r # rs) = r @ consumed i off rs"

lemma consumed_rest: "consumed i off (map snd prs) @ rests (consume i off prs) = rests prs"
  by (induction i off prs rule: consume.induct) simp_all

lemma bs_append_twice [simp]: "bs_append (bs_append b s) t = bs_append b (s @ t)"
  by (simp add: bs_append_def)

lemma chain_update:
  assumes "chunk_at w a = Some c" "ck_next c1 = ck_next c"
  shows "chain (w\<lparr>w_heap := (w_heap w)[a := Some c1]\<rparr>) p as = chain w p as"
  using chunk_put_Some(2) [OF assms(1), of c1] assms by (intro chain_map) auto

lemma pieces_update:
  assumes "chunk_at w a = Some c" "a \<notin> set as"
  shows "pieces (w\<lparr>w_heap := (w_heap w)[a := Some c1]\<rparr>) as = pieces w as"
  using chunk_put_Some(2) [OF assms(1), of c1] assms(2) by (intro pieces_cong) auto

text \<open>Two heaps with the same links.\<close>

definition same_links :: "world \<Rightarrow> world \<Rightarrow> bool" where
  "same_links w w1 = (\<forall>b. map_option ck_next (chunk_at w1 b) = map_option ck_next (chunk_at w b))"

lemma same_links_refl [simp]: "same_links w w"
  by (simp add: same_links_def)

lemma same_links_update:
  assumes "chunk_at w a = Some c" "ck_next c1 = ck_next c" "same_links (w\<lparr>w_heap := (w_heap w)[a := Some c1]\<rparr>) w1"
  shows "same_links w w1"
  using assms chunk_put_Some(2) [OF assms(1), of c1] by (auto simp: same_links_def)

lemma same_links_inv: "same_links w w1 \<Longrightarrow> queue_inv w1 q as us = queue_inv w q as us"
  using chain_map [of as w1 w] chain_map [of us w1 w] by (simp add: queue_inv_def same_links_def)

lemma copy_header_chain:
  assumes "chain w p as" "pieces w as = map mem_piece prs" "distinct as" "i < length prs" "off \<le> length (snd (prs ! i))"
  shows "\<exists>w1. copy_header w p (as ! i) off req = Some (w1, bs_append req (consumed i off (map snd prs))) \<and>
    same_links w w1 \<and> pieces w1 as = map mem_piece (consume i off prs) \<and> (\<forall>b. b \<notin> set as \<longrightarrow> chunk_at w1 b = chunk_at w b)"
  using assms
proof (induction as arbitrary: w p prs i req)
  case Nil
  then show ?case by (simp add: pieces_def)
next
  case (Cons a as)
  then obtain pre r prs' where prs: "prs = (pre, r) # prs'" by (cases prs) (auto simp: pieces_def)
  obtain c where c: "p = Some a" "chunk_at w a = Some c" "piece_of c = mem_piece (pre, r)" "chain w (ck_next c) as"
    "pieces w as = map mem_piece prs'" using chain_mem_Cons [OF Cons.prems(1)] Cons.prems(2) prs by auto
  have m: "ck_type c = MEM_CHUNK" "ck_mem c = Some (pre @ r)" "ck_offset c = int (length pre)" "a \<notin> set as"
    using c(3) Cons.prems(3) by (simp_all add: piece_of_mem)
  show ?case
  proof (cases i)
    case 0
    let ?c = "c\<lparr>ck_offset := ck_offset c + int off\<rparr>"
    let ?w = "w\<lparr>w_heap := (w_heap w)[a := Some ?c]\<rparr>"
    note put = chunk_put_Some [OF c(2), of ?c]
    have "off \<le> length r" using Cons.prems(5) 0 prs by simp
    then have "copy_header w p a off req = Some (?w, bs_append req (take off r))"
      using c(1,2) chunk_rest_mem [OF c(3)] put(1) by (subst copy_header.simps) (simp add: mem_read_def bs_append_buffer_def)
    moreover have "piece_of ?c = mem_piece (pre @ take off r, drop off r)" using m \<open>off \<le> length r\<close> by (simp add: piece_of_mem)
    then have "pieces ?w (a # as) = map mem_piece (consume 0 off prs)"
      using pieces_update [OF c(2) m(4), of ?c] put(2) c(5) prs by (simp add: pieces_Cons)
    moreover have "same_links w ?w" by (rule same_links_update [OF c(2), of ?c]) simp_all
    ultimately show ?thesis using 0 prs put(2) by auto
  next
    case (Suc j)
    let ?c = "c\<lparr>ck_offset := int (length (pre @ r))\<rparr>"
    let ?w = "w\<lparr>w_heap := (w_heap w)[a := Some ?c]\<rparr>"
    note put = chunk_put_Some [OF c(2), of ?c]
    have len: "length as = length prs'" using c(5) by (metis length_map pieces_def)
    then have ne: "a \<noteq> as ! j" using m(4) Suc Cons.prems(4) prs by auto
    have ch: "chain ?w (ck_next c) as" "pieces ?w as = map mem_piece prs'"
      using c(4,5) chain_update [OF c(2), of ?c] pieces_update [OF c(2) m(4), of ?c] by simp_all
    obtain w1 where w1: "copy_header ?w (ck_next c) (as ! j) off (bs_append req r) =
        Some (w1, bs_append (bs_append req r) (consumed j off (map snd prs')))"
      "same_links ?w w1" "pieces w1 as = map mem_piece (consume j off prs')" "\<forall>b. b \<notin> set as \<longrightarrow> chunk_at w1 b = chunk_at ?w b"
      using Cons.IH [OF ch, of j "bs_append req r"] Cons.prems(3-5) Suc prs by auto
    have "copy_header w p (as ! j) off req = copy_header ?w (ck_next c) (as ! j) off (bs_append req r)"
      using c(1,2) chunk_rest_mem [OF c(3)] put(1) ne m(2) by (subst copy_header.simps) (simp add: bs_append_buffer_def)
    moreover have "chunk_at w1 a = Some ?c" using w1(4) m(4) put(2) by simp
    moreover have "piece_of ?c = mem_piece (pre @ r, [])" using m by (simp add: piece_of_mem)
    ultimately show ?thesis using w1 Suc prs same_links_update [OF c(2) _ w1(2)] put(2) by (auto simp: pieces_Cons)
  qed
qed

section \<open>Where the header ends\<close>

text \<open>The length of the shortest prefix that ends with an empty line.\<close>

fun header_length :: "string \<Rightarrow> nat option" where
  "header_length [] = None"
| "header_length (c # s) = (if take 4 (c # s) = CRLFCRLF then Some 4 else map_option Suc (header_length s))"

lemma header_length_take:
  "header_length s = Some n \<Longrightarrow> 4 \<le> n \<and> n \<le> length s \<and> drop (n - 4) (take n s) = CRLFCRLF"
proof (induction s arbitrary: n)
  case (Cons c s)
  show ?case
  proof (cases "take 4 (c # s) = CRLFCRLF")
    case True
    then have "length (take 4 (c # s)) = 4" by (simp only:) simp
    then have "4 \<le> length (c # s)" by (simp only: length_take)
    with True Cons.prems show ?thesis by auto
  next
    case False
    with Cons obtain m where m: "header_length s = Some m" "n = Suc m" by auto
    have "n - 4 = Suc (m - 4)" using Cons.IH [OF m(1)] m(2) by arith
    with Cons.IH [OF m(1)] m(2) show ?thesis by simp
  qed
qed simp

lemma header_length_least: "header_length s = Some n \<Longrightarrow> k + 4 < n \<Longrightarrow> take 4 (drop k s) \<noteq> CRLFCRLF"
proof (induction s arbitrary: n k)
  case (Cons c s)
  then show ?case by (cases k) (auto split: if_splits)
qed simp

lemma header_length_none: "header_length s = None \<Longrightarrow> take 4 (drop k s) \<noteq> CRLFCRLF"
proof (induction s arbitrary: k)
  case (Cons c s)
  then show ?case by (cases k) (auto split: if_splits)
qed simp

lemma take4_split:
  assumes "length u < 4" "u \<noteq> []"
  shows "take 4 (u @ t) = CRLFCRLF \<longleftrightarrow> u = take (length u) CRLFCRLF \<and> take (4 - length u) t = drop (length u) CRLFCRLF"
proof -
  have "take 4 (u @ t) = u @ take (4 - length u) t" using assms(1) by simp
  moreover have "length u = length (take (length u) CRLFCRLF)" using assms(1) by simp
  then have "u @ v = take (length u) CRLFCRLF @ drop (length u) CRLFCRLF \<longleftrightarrow> u = take (length u) CRLFCRLF \<and> v = drop (length u) CRLFCRLF" for v
    by (rule append_eq_append_conv [OF disjI1])
  ultimately show ?thesis by (simp only: append_take_drop_id)
qed

text \<open>The scan of one chunk, with the stream \<open>t\<close> behind it, agrees with the specification when the next chunk has at
  least three octets or is the last one.\<close>

lemma scan_buf_spec:
  assumes "case ahead of None \<Rightarrow> t = [] | Some m \<Rightarrow> \<exists>t'. t = m @ t' \<and> (3 \<le> length m \<or> t' = [])"
  shows "header_length (r @ t) = (case scan_buf ahead i r of
     Some (False, off) \<Rightarrow> Some (off - i)
   | Some (True, off) \<Rightarrow> Some (length r + off)
   | None \<Rightarrow> map_option (\<lambda>n. length r + n) (header_length t)) \<and>
   (\<forall>off. scan_buf ahead i r = Some (False, off) \<longrightarrow> i \<le> off \<and> off - i \<le> length r)"
proof (induction r arbitrary: i)
  case Nil
  show ?case by (cases "header_length t") simp_all
next
  case (Cons ch r)
  let ?u = "ch # r"
  define B where "B = (case ahead of None \<Rightarrow> False
    | Some m \<Rightarrow> length m + 1 > 4 - Suc (length r) \<and> ch # r = take (Suc (length r)) CRLFCRLF \<and>
        take (4 - Suc (length r)) m = drop (Suc (length r)) CRLFCRLF)"
  have long: "take 4 (?u @ t) = take 4 ?u" if "4 \<le> Suc (length r)" using that by simp
  have short: "take 4 (?u @ t) = CRLFCRLF \<longleftrightarrow> ch = CR \<and> B" if lt: "Suc (length r) < 4"
  proof -
    have k: "4 - Suc (length r) \<le> 3" "0 < 4 - Suc (length r)" using lt by auto
    have split: "take 4 (?u @ t) = CRLFCRLF \<longleftrightarrow> ?u = take (Suc (length r)) CRLFCRLF \<and>
        take (4 - Suc (length r)) t = drop (Suc (length r)) CRLFCRLF"
      using take4_split [of ?u t] lt by simp
    have cr: "?u = take (Suc (length r)) CRLFCRLF \<Longrightarrow> ch = CR" by simp
    have dl: "length (drop (Suc (length r)) CRLFCRLF) = 4 - Suc (length r)" by simp
    show ?thesis
    proof (cases ahead)
      case None
      then have "length (take (4 - Suc (length r)) t) \<noteq> length (drop (Suc (length r)) CRLFCRLF)" using assms lt by simp
      then have "take (4 - Suc (length r)) t \<noteq> drop (Suc (length r)) CRLFCRLF" by (rule contrapos_nn) (simp only:)
      with split None show ?thesis by (simp only: B_def option.simps) blast
    next
      case (Some m)
      then obtain t' where t': "t = m @ t'" "3 \<le> length m \<or> t' = []" using assms by auto
      have "take (4 - Suc (length r)) t = drop (Suc (length r)) CRLFCRLF \<longleftrightarrow>
          length m + 1 > 4 - Suc (length r) \<and> take (4 - Suc (length r)) m = drop (Suc (length r)) CRLFCRLF"
      proof (cases "4 - Suc (length r) \<le> length m")
        case True
        with t' show ?thesis by simp
      next
        case False
        then have "t = m" using t' k by auto
        moreover have "length (take (4 - Suc (length r)) m) \<noteq> 4 - Suc (length r)" using False by simp
        ultimately show ?thesis using dl by metis
      qed
      with split cr Some show ?thesis by (simp only: B_def option.simps) blast
    qed
  qed
  have scan: "scan_buf ahead i ?u = (if take 4 (?u @ t) = CRLFCRLF
      then (if 4 \<le> Suc (length r) then Some (False, i + 4) else Some (True, 4 - Suc (length r))) else scan_buf ahead (Suc i) r)"
  proof -
    have "scan_buf ahead i ?u =
      (if ch = CR \<and> 4 \<le> Suc (length r) \<and> take 4 ?u = CRLFCRLF then Some (False, i + 4)
       else if ch = CR \<and> Suc (length r) < 4 \<and> B then Some (True, 4 - Suc (length r))
       else scan_buf ahead (Suc i) r)"
      by (simp only: scan_buf.simps Let_def B_def)
    moreover have "take 4 ?u = CRLFCRLF \<Longrightarrow> ch = CR" by simp
    ultimately show ?thesis using long short by (simp only: not_le [symmetric]) (cases "4 \<le> Suc (length r)"; simp only: simp_thms if_True if_False; metis)
  qed
  show ?case
  proof (cases "take 4 (?u @ t) = CRLFCRLF")
    case True
    then have "header_length (?u @ t) = Some 4" by simp
    with scan True show ?thesis by (simp only: if_True split: if_splits) auto
  next
    case False
    have hl: "header_length (?u @ t) = map_option Suc (header_length (r @ t))"
      using False by (simp only: header_length.simps append_Cons if_False)
    have step: "scan_buf ahead i ?u = scan_buf ahead (Suc i) r" using scan False by (simp only: if_False)
    show ?thesis unfolding hl step using Cons.IH [of "Suc i"]
      by (cases "header_length t") (auto simp: Suc_diff_le split: option.splits bool.splits)
  qed
qed

definition wide :: "string list \<Rightarrow> bool" where
  "wide rs = list_all (\<lambda>r. 3 \<le> length r) (butlast (tl rs))"

lemma find_rests_spec:
  assumes "wide rs"
  shows "header_length (concat rs) = map_option (\<lambda>(i, off). length (concat (take i rs)) + off) (find_rests rs)"
  using assms
proof (induction rs)
  case (Cons r rs)
  have "case (case rs of [] \<Rightarrow> None | m # _ \<Rightarrow> Some m) of None \<Rightarrow> concat rs = []
    | Some m \<Rightarrow> \<exists>t'. concat rs = m @ t' \<and> (3 \<le> length m \<or> t' = [])"
    using Cons.prems by (auto simp: wide_def split: list.splits if_splits)
  note scan = scan_buf_spec [OF this, of r 0]
  have "wide rs" using Cons.prems by (cases rs) (auto simp: wide_def split: list.splits if_splits)
  note IH = Cons.IH [OF this]
  show ?case
  proof (cases "scan_buf (case rs of [] \<Rightarrow> None | m # _ \<Rightarrow> Some m) 0 r")
    case None
    with scan IH show ?thesis by (auto simp: option.map_comp comp_def case_prod_unfold ac_simps intro!: option.map_cong)
  next
    case (Some f)
    with scan show ?thesis by (cases f) (auto split: bool.splits)
  qed
qed simp

lemma scan_buf_sound:
  assumes "scan_buf ahead i r = Some (n, off)"
  shows "if n then \<exists>u v m. r = u @ v \<and> ahead = Some m \<and> off \<le> length m \<and> v @ take off m = CRLFCRLF
    else i + 4 \<le> off \<and> off - i \<le> length r \<and> drop (off - i - 4) (take (off - i) r) = CRLFCRLF"
  using assms
proof (induction r arbitrary: i)
  case (Cons ch r)
  let ?k = "Suc (length r)"
  define A where "A = (ch = CR \<and> 4 \<le> ?k \<and> take 4 (ch # r) = CRLFCRLF)"
  define B where "B = (ch = CR \<and> ?k < 4 \<and> (case ahead of None \<Rightarrow> False
    | Some m \<Rightarrow> length m + 1 > 4 - ?k \<and> ch # r = take ?k CRLFCRLF \<and> take (4 - ?k) m = drop ?k CRLFCRLF))"
  have eq: "scan_buf ahead i (ch # r) = (if A then Some (False, i + 4) else if B then Some (True, 4 - ?k) else scan_buf ahead (Suc i) r)"
    by (simp only: scan_buf.simps Let_def A_def B_def)
  consider (here) "A" | (there) "\<not> A" "B" | (later) "\<not> A" "\<not> B" by blast
  then show ?case
  proof cases
    case here
    then have "n = False" "off = i + 4" using Cons.prems eq by simp_all
    with here show ?thesis by (simp add: A_def)
  next
    case there
    then have o': "n = True" "off = 4 - ?k" using Cons.prems eq by simp_all
    obtain m where m: "ahead = Some m" "length m + 1 > 4 - ?k" "ch # r = take ?k CRLFCRLF" "take (4 - ?k) m = drop ?k CRLFCRLF"
      using there(2) unfolding B_def by (cases ahead) (simp_all only: option.simps simp_thms, blast)
    from m(3,4) o'(2) have "(ch # r) @ take off m = CRLFCRLF" by (simp only: append_take_drop_id)
    moreover have "off \<le> length m" using m(2) o'(2) by linarith
    ultimately show ?thesis using m(1) o'(1) by (metis append_Nil)
  next
    case later
    then have later: "scan_buf ahead (Suc i) r = Some (n, off)" using Cons.prems eq by simp
    show ?thesis
    proof (cases n)
      case True
      then show ?thesis using Cons.IH [OF later] by (metis append_Cons)
    next
      case False
      then have h: "Suc i + 4 \<le> off" "off - Suc i \<le> length r" "drop (off - Suc i - 4) (take (off - Suc i) r) = CRLFCRLF"
        using Cons.IH [OF later] by auto
      have "off - i = Suc (off - Suc i)" "off - i - 4 = Suc (off - Suc i - 4)" using h(1) by arith+
      with h False show ?thesis by simp
    qed
  qed
qed simp

lemma find_rests_sound:
  assumes "find_rests rs = Some (i, off)"
  shows "i < length rs \<and> off \<le> length (rs ! i) \<and> (\<exists>h. consumed i off rs = h @ CRLFCRLF)"
  using assms
proof (induction rs arbitrary: i)
  case (Cons r rs)
  show ?case
  proof (cases "scan_buf (case rs of [] \<Rightarrow> None | m # _ \<Rightarrow> Some m) 0 r")
    case None
    then obtain j where "i = Suc j" "find_rests rs = Some (j, off)" using Cons.prems by auto
    with Cons.IH [of j] show ?thesis by auto
  next
    case (Some f)
    obtain n o' where f: "f = (n, o')" by (cases f)
    have off: "o' = off" "i = (if n then 1 else 0)" using Cons.prems Some f by (auto split: bool.splits)
    show ?thesis
    proof (cases n)
      case True
      with Some f off have "scan_buf (case rs of [] \<Rightarrow> None | m # _ \<Rightarrow> Some m) 0 r = Some (True, off)" by simp
      from scan_buf_sound [OF this] obtain u v m where "r = u @ v" "(case rs of [] \<Rightarrow> None | m # _ \<Rightarrow> Some m) = Some m"
        "off \<le> length m" "v @ take off m = CRLFCRLF" by auto
      then show ?thesis using off True by (cases rs) auto
    next
      case False
      then have "4 \<le> off" "off \<le> length r" "drop (off - 4) (take off r) = CRLFCRLF"
        using scan_buf_sound [of _ 0 r n off] Some f off by auto
      moreover then have "take off r = take (off - 4) (take off r) @ CRLFCRLF" by (metis append_take_drop_id)
      ultimately show ?thesis using off False by auto
    qed
  qed
qed simp

section \<open>The header state\<close>

definition unread :: "(string \<times> string) list \<Rightarrow> bool" where
  "unread prs = (fresh_tail prs \<and> list_all (\<lambda>(pre, r). r \<noteq> []) prs)"

text \<open>The read queue holds the octets \<open>t\<close>: every chunk is memory that has not been read to its end, and only the first
  one may have been read in part.\<close>

definition holds_unread :: "cqueue \<Rightarrow> (string \<times> string) list \<Rightarrow> bool" where
  "holds_unread s prs = (holds_pieces s (map mem_piece prs) \<and> unread prs)"

lemma drop_consumed:
  "dropWhile piece_finished (map mem_piece prs) = map mem_piece (dropWhile (\<lambda>(pre, r). r = []) prs)"
  by (induction prs) (auto simp: mem_piece_finished)

lemma rests_drop: "rests (dropWhile (\<lambda>(pre, r). r = []) prs) = rests prs"
  by (induction prs) auto

lemma drop_unread:
  assumes "list_all (\<lambda>(pre, r). r = []) xs" "unread ys"
  shows "unread (dropWhile (\<lambda>(pre, r). r = []) (xs @ ys))" "dropWhile (\<lambda>(pre, r). r = []) (xs @ ys) = ys"
proof -
  show "dropWhile (\<lambda>(pre, r). r = []) (xs @ ys) = ys"
    using assms by (cases ys) (auto simp: dropWhile_append1 list_all_iff unread_def split: prod.splits)
  with assms(2) show "unread (dropWhile (\<lambda>(pre, r). r = []) (xs @ ys))" by simp
qed

lemma consume_unread:
  assumes "unread prs" "i < length prs"
  shows "unread (dropWhile (\<lambda>(pre, r). r = []) (consume i off prs))"
  using assms
proof (induction i off prs rule: consume.induct)
  case (2 off pre r prs)
  then have "unread prs" "list_all (\<lambda>(pre, r). pre = []) prs"
    by (cases prs; simp add: unread_def fresh_tail_def)+
  then show ?case using drop_unread [of "[]" prs] by (auto simp: unread_def fresh_tail_def)
next
  case (3 i off pre r prs)
  then have "unread prs" by (cases prs) (auto simp: unread_def fresh_tail_def)
  with 3 show ?case by simp
qed simp

text \<open>What a read adds to the queue.\<close>

fun arrived :: "read_answer \<Rightarrow> (string \<times> string) list" where
  "arrived (Read_bytes s full) = (if s = [] then [] else [([], s)])"
| "arrived _ = []"

lemma pieces_append: "pieces w (xs @ ys) = pieces w xs @ pieces w ys"
  by (simp add: pieces_def)

lemma pieces_single: "pieces w [a] = [case chunk_at w a of None \<Rightarrow> PUnused | Some c \<Rightarrow> piece_of c]"
  by (simp add: pieces_def)

lemma append_new_room:
  "append_new w q f = Some (a, w1, q1) \<Longrightarrow> cq_unused_chunks q1 = cq_unused_chunks q - (if cq_unused q = None then 0 else 1)"
  by (auto simp: append_new_def chunkqueue_get_unused_chunk_def chunkqueue_append_chunk_def chunk_init_def split: option.splits)

lemma get_append_ok:
  assumes "rep w q ps"
  obtains a w1 q1 as us c where "chunkqueue_get_append_buffer w q = Some (a, w1, q1)" "queue_inv w1 q1 (as @ [a]) us"
    "length us \<le> 4" "pieces w1 as = ps" "chunk_at w1 a = Some c" "ck_type c = MEM_CHUNK" "ck_mem c = None" "ck_offset c = 0"
proof -
  let ?f = "\<lambda>c. c\<lparr>ck_type := MEM_CHUNK, ck_offset := 0, ck_mem := None\<rparr>"
  obtain as us where as: "queue_inv w q as us" "pieces w as = ps" using assms by (auto simp: rep_def)
  obtain a w1 q1 us1 c where n: "append_new w q ?f = Some (a, w1, q1)" "queue_inv w1 q1 (as @ [a]) us1"
    "pieces w1 (as @ [a]) = pieces w as @ [piece_of (?f c)]" using append_new_ok [OF as(1), of ?f] by auto
  have "cq_unused_chunks q = length us" "length us \<le> 5" "us = [] \<longleftrightarrow> cq_unused q = None"
    using as(1) by (auto simp: queue_inv_def dest: chain_head split: list.splits)
  moreover have "cq_unused_chunks q1 = length us1" using n(2) by (simp add: queue_inv_def)
  ultimately have "length us1 \<le> 4" using append_new_room [OF n(1)] by (cases us) auto
  moreover have p: "pieces w1 as = ps" "pieces w1 [a] = [PMem None 0]"
    using n(3) as(2) by (simp_all add: pieces_append pieces_single piece_of_def)
  obtain c1 where "chunk_at w1 a = Some c1" using chain_mem [of w1 "cq_first q1" "as @ [a]" a] n(2) by (auto simp: queue_inv_def)
  moreover then have "ck_type c1 = MEM_CHUNK \<and> ck_mem c1 = None \<and> ck_offset c1 = 0"
    using p(2) by (auto simp: pieces_def piece_of_def split: chunk_type.splits)
  ultimately show thesis using n(1,2) p(1) that [of a w1 q1 as us1 c1] by (simp add: chunkqueue_get_append_buffer_def)
qed

text \<open>Filling the chunk that was appended.\<close>

lemma fill_appended:
  assumes "queue_inv w q (as @ [a]) us" "pieces w as = ps" "chunk_at w a = Some c" "ck_type c = MEM_CHUNK" "ck_offset c = 0"
  shows "\<exists>w1. chunk_put w a (c\<lparr>ck_mem := Some s\<rparr>) = Some w1 \<and> queue_inv w1 q (as @ [a]) us \<and>
    pieces w1 (as @ [a]) = ps @ [mem_piece ([], s)]"
proof -
  let ?c = "c\<lparr>ck_mem := Some s\<rparr>"
  let ?w = "w\<lparr>w_heap := (w_heap w)[a := Some ?c]\<rparr>"
  note put = chunk_put_Some [OF assms(3), of ?c]
  have "same_links w ?w" by (rule same_links_update [OF assms(3), of ?c]) simp_all
  then have "queue_inv ?w q (as @ [a]) us" using assms(1) same_links_inv by blast
  moreover have "a \<notin> set as" using assms(1) by (simp add: queue_inv_def)
  then have "pieces ?w as = ps" using pieces_update [OF assms(3)] assms(2) by simp
  moreover have "pieces ?w [a] = [mem_piece ([], s)]" using put(2) assms(4,5) by (simp add: pieces_def piece_of_mem)
  ultimately show ?thesis using put(1) by (auto simp: pieces_def)
qed

lemma purge_mem:
  assumes "rep w q (map mem_piece prs)"
  shows "purge_loop w q (cq_first q) = Some (w, q)"
proof -
  obtain as us where as: "queue_inv w q as us" "pieces w as = map mem_piece prs" using assms by (auto simp: rep_def)
  then show ?thesis using purge_none [OF _ mem_chunks [OF as(2)]] by (simp add: queue_inv_def)
qed

text \<open>Reading and then removing the empty chunk that a read without octets leaves.\<close>

lemma handle_read_ok:
  assumes "holds_pieces (c_read_queue con) (map mem_piece prs)" "\<not> cf_is_ssl (c_conf con)"
    and "ans \<in> {Read_failed EAGAIN, Read_failed EINTR} \<or> (\<exists>s full. ans = Read_bytes s full)"
  obtains rqa rqb r b n where
    "connection_handle_read ans con = Some (r, con\<lparr>c_read_queue := rqa, c_is_readable := b, c_bytes_read := n\<rparr>)"
    "purge_loop (fst rqa) (snd rqa) (cq_first (snd rqa)) = Some rqb" "holds_pieces rqb (map mem_piece (prs @ arrived ans))"
    "r = (if \<exists>full. ans = Read_bytes [] full then -2 else 0)"
proof -
  obtain w q where wq: "c_read_queue con = (w, q)" "rep w q (map mem_piece prs)"
    using assms(1) by (cases "c_read_queue con") (simp add: holds_pieces_def)
  obtain a w1 q1 as us c where g: "chunkqueue_get_append_buffer w q = Some (a, w1, q1)" "queue_inv w1 q1 (as @ [a]) us"
    "length us \<le> 4" "pieces w1 as = map mem_piece prs" "chunk_at w1 a = Some c" "ck_type c = MEM_CHUNK" "ck_mem c = None"
    "ck_offset c = 0" using get_append_ok [OF wq(2)] .
  obtain w2 q2 where pu: "purge_loop w1 q1 (cq_first q1) = Some (w2, q2)" "rep w2 q2 (map mem_piece prs)"
    using purge_empty_last [OF g(2-5,7)] by blast
  show thesis
  proof (cases "\<exists>s full. ans = Read_bytes s full \<and> s \<noteq> []")
    case True
    then obtain s full where s: "ans = Read_bytes s full" "s \<noteq> []" by blast
    obtain w3 where w3: "chunk_put w1 a (c\<lparr>ck_mem := Some s\<rparr>) = Some w3" "queue_inv w3 q1 (as @ [a]) us"
      "pieces w3 (as @ [a]) = map mem_piece prs @ [mem_piece ([], s)]" using fill_appended [OF g(2,4,5,6,8), of s] by blast
    then have "rep w3 q1 (map mem_piece (prs @ arrived ans))" using s by (auto simp: rep_def)
    from this purge_mem [OF this] show thesis using assms(2) wq(1) g(1,5) s w3(1)
      by (intro that [where rqa = "(w3, q1)" and rqb = "(w3, q1)" and r = 0]) (auto simp: connection_handle_read_def holds_pieces_def)
  next
    case False
    then have "arrived ans = []" using assms(3) by auto
    with False show thesis using assms(2,3) wq(1) g(1) pu
      by (intro that [where rqa = "(w1, q1)" and rqb = "(w2, q2)" and b = "ans = Read_failed EINTR" and n = "c_bytes_read con"
          and r = "if \<exists>full. ans = Read_bytes [] full then -2 else 0"])
        (auto simp: connection_handle_read_def holds_pieces_def)
  qed
qed

lemma read_header_found:
  assumes "holds_pieces (c_read_queue con) (map mem_piece prs)" "unread prs" "find_rests (map snd prs) = Some (i, off)"
  obtains rq rq1 where "read_header con = Some (connection_set_state (con\<lparr>c_read_queue := rq,
      c_core := (c_core con)\<lparr>co_request := (co_request (c_core con))\<lparr>rq_request := Some (consumed i off (map snd prs))\<rparr>\<rparr>\<rparr>)
      CON_STATE_REQUEST_END)"
    "queue_drop rq = Some rq1" "holds_unread rq1 (dropWhile (\<lambda>(pre, r). r = []) (consume i off prs))"
proof -
  obtain w q where wq: "c_read_queue con = (w, q)" "rep w q (map mem_piece prs)"
    using assms(1) by (cases "c_read_queue con") (simp add: holds_pieces_def)
  obtain as us where as: "queue_inv w q as us" "pieces w as = map mem_piece prs" using wq(2) by (auto simp: rep_def)
  have ch: "chain w (cq_first q) as" "distinct as" using as(1) by (simp_all add: queue_inv_def)
  have so: "i < length prs" "off \<le> length (snd (prs ! i))" "\<exists>h. consumed i off (map snd prs) = h @ CRLFCRLF"
    using find_rests_sound [OF assms(3)] by auto
  have ft: "fresh_tail prs" using assms(2) by (simp add: unread_def)
  have f: "find_header w (cq_first q) = Some (Some (as ! i, off))" using find_header_chain [OF ch(1) as(2) ft] assms(3) by simp
  obtain w1 where w1: "copy_header w (cq_first q) (as ! i) off None = Some (w1, bs_append None (consumed i off (map snd prs)))"
    "same_links w w1" "pieces w1 as = map mem_piece (consume i off prs)"
    using copy_header_chain [OF ch(1) as(2) ch(2) so(1,2), of None] by blast
  have app: "bs_append None (consumed i off (map snd prs)) = Some (consumed i off (map snd prs))"
    using so(3) by (auto simp: bs_append_def)
  have "rep w1 q (map mem_piece (consume i off prs))" using w1(2,3) same_links_inv as(1) unfolding rep_def by blast
  from remove_finished_rep [OF this] obtain w2 q2 where "chunkqueue_remove_finished_chunks w1 q = Some (w2, q2)"
    "rep w2 q2 (map mem_piece (dropWhile (\<lambda>(pre, r). r = []) (consume i off prs)))" by (auto simp: drop_consumed)
  then show thesis using that [of "(w1, q)" "(w2, q2)"] wq(1) f w1(1) app consume_unread [OF assms(2) so(1), of off]
    by (auto simp: read_header_def Let_def queue_drop_def holds_unread_def holds_pieces_def)
qed

lemma read_header_missing:
  assumes "holds_pieces (c_read_queue con) (map mem_piece prs)" "unread prs" "find_rests (map snd prs) = None"
  shows "read_header con = Some
    (if int (length (concat (map (\<lambda>(pre, r). pre @ r) prs))) > MAX_HEADER
     then connection_set_state (no_keep_alive (set_status 414 con)) CON_STATE_HANDLE_REQUEST else con)"
    "\<exists>rq1. queue_drop (c_read_queue con) = Some rq1 \<and> holds_unread rq1 prs"
proof -
  obtain w q where wq: "c_read_queue con = (w, q)" "rep w q (map mem_piece prs)"
    using assms(1) by (cases "c_read_queue con") (simp add: holds_pieces_def)
  obtain as us where as: "queue_inv w q as us" "pieces w as = map mem_piece prs" using wq(2) by (auto simp: rep_def)
  have ft: "fresh_tail prs" "list_all (\<lambda>(pre, r). r \<noteq> []) prs" using assms(2) by (simp_all add: unread_def)
  have f: "find_header w (cq_first q) = Some None" using find_header_chain [OF _ as(2) ft(1)] as(1) assms(3) by (simp add: queue_inv_def)
  have "sum_list (map piece_length (map mem_piece ps)) = int (length (concat (map (\<lambda>(pre, r). pre @ r) ps)))" for ps
    by (induction ps) (auto simp: mem_piece_def piece_length_def)
  then show "read_header con = Some
    (if int (length (concat (map (\<lambda>(pre, r). pre @ r) prs))) > MAX_HEADER
     then connection_set_state (no_keep_alive (set_status 414 con)) CON_STATE_HANDLE_REQUEST else con)"
    using wq f length_rep [OF wq(2)] by (simp add: read_header_def)
  have "dropWhile (\<lambda>(pre, r). r = []) prs = prs" using ft(2) by (cases prs) auto
  with remove_finished_rep [OF wq(2)] show "\<exists>rq1. queue_drop (c_read_queue con) = Some rq1 \<and> holds_unread rq1 prs"
    using wq(1) assms(2) by (auto simp: drop_consumed queue_drop_def holds_unread_def holds_pieces_def)
qed

section \<open>One call in the header state\<close>

definition queued :: "(string \<times> string) list \<Rightarrow> int" where
  "queued prs = int (length (concat (map (\<lambda>(pre, r). pre @ r) prs)))"

text \<open>A connection that waits for a header: the parts \<open>prs\<close> have arrived.\<close>

definition waiting :: "conn \<Rightarrow> (string \<times> string) list \<Rightarrow> bool" where
  "waiting con prs = (c_state con = CON_STATE_READ \<and> \<not> cf_is_ssl (c_conf con) \<and> holds_unread (c_read_queue con) prs)"

definition quiet :: "read_answer \<Rightarrow> bool" where
  "quiet ans = (case ans of Read_bytes s full \<Rightarrow> True | Read_failed e \<Rightarrow> e \<in> {EAGAIN, EINTR} | Ioctl_failed \<Rightarrow> False)"

lemma unread_arrived: "unread prs \<Longrightarrow> unread (prs @ arrived ans)"
  by (cases ans; cases prs) (auto simp: unread_def fresh_tail_def)

lemma read_state_eq:
  assumes "c_is_readable con" "c_state con = CON_STATE_READ" "r \<noteq> -1"
    and "connection_handle_read ans (con\<lparr>c_read_idle_ts := cur\<rparr>) = Some (r, con1)"
    and "purge_loop (fst (c_read_queue con1)) (snd (c_read_queue con1)) (cq_first (snd (c_read_queue con1))) = Some rqb"
    and "read_header (con1\<lparr>c_read_queue := rqb\<rparr>) = Some con3" "queue_drop (c_read_queue con3) = Some rq"
  shows "connection_handle_read_state os cur ans con =
    Some (0, con3\<lparr>c_state := (if r = -2 \<and> c_state con3 = CON_STATE_READ then CON_STATE_ERROR else c_state con3), c_read_queue := rq\<rparr>, [])"
proof -
  let ?con4 = "if r = -2 \<and> CON_STATE_READ = c_state con3 then connection_set_state con3 CON_STATE_ERROR else con3"
  have con4: "c_read_queue ?con4 = c_read_queue con3" by (simp add: connection_set_state_def)
  have "connection_handle_read_state os cur ans con = Some (0, ?con4\<lparr>c_read_queue := rq\<rparr>, [])"
    unfolding connection_handle_read_state_def Let_def using assms con4 by simp
  then show ?thesis by (auto simp: connection_set_state_def)
qed

lemma read_post_eq:
  assumes "c_is_readable con" "c_state con = CON_STATE_READ_POST" "r \<noteq> -1"
    and "connection_handle_read ans (con\<lparr>c_read_idle_ts := cur\<rparr>) = Some (r, con1)"
    and "purge_loop (fst (c_read_queue con1)) (snd (c_read_queue con1)) (cq_first (snd (c_read_queue con1))) = Some rqb"
    and "read_post os (con1\<lparr>c_read_queue := rqb\<rparr>) = Some (con3, log)" "queue_drop (c_read_queue con3) = Some rq"
  shows "connection_handle_read_state os cur ans con =
    Some (0, con3\<lparr>c_state := (if r = -2 \<and> c_state con3 = CON_STATE_READ_POST then CON_STATE_ERROR else c_state con3), c_read_queue := rq\<rparr>, log)"
proof -
  let ?con4 = "if r = -2 \<and> CON_STATE_READ_POST = c_state con3 then connection_set_state con3 CON_STATE_ERROR else con3"
  have con4: "c_read_queue ?con4 = c_read_queue con3" by (simp add: connection_set_state_def)
  have "connection_handle_read_state os cur ans con = Some (0, ?con4\<lparr>c_read_queue := rq\<rparr>, log)"
    unfolding connection_handle_read_state_def Let_def using assms con4 by simp
  then show ?thesis by (auto simp: connection_set_state_def)
qed

lemma read_state_found:
  assumes "waiting con prs" "c_is_readable con" "quiet ans" "find_rests (map snd (prs @ arrived ans)) = Some (i, off)"
  obtains con1 where "connection_handle_read_state os cur ans con = Some (0, con1, [])" "c_state con1 = CON_STATE_REQUEST_END"
    "rq_request (co_request (c_core con1)) = Some (consumed i off (map snd (prs @ arrived ans)))"
    "holds_unread (c_read_queue con1) (dropWhile (\<lambda>(pre, r). r = []) (consume i off (prs @ arrived ans)))"
proof -
  let ?con = "con\<lparr>c_read_idle_ts := cur\<rparr>"
  have h: "holds_pieces (c_read_queue ?con) (map mem_piece prs)" "\<not> cf_is_ssl (c_conf ?con)" "unread (prs @ arrived ans)"
    using assms(1) unread_arrived by (auto simp: waiting_def holds_unread_def)
  have q: "ans \<in> {Read_failed EAGAIN, Read_failed EINTR} \<or> (\<exists>s full. ans = Read_bytes s full)"
    using assms(3) by (auto simp: quiet_def split: read_answer.splits)
  obtain rqa rqb r b n where rd: "connection_handle_read ans ?con =
      Some (r, ?con\<lparr>c_read_queue := rqa, c_is_readable := b, c_bytes_read := n\<rparr>)"
    "purge_loop (fst rqa) (snd rqa) (cq_first (snd rqa)) = Some rqb" "holds_pieces rqb (map mem_piece (prs @ arrived ans))"
    "r = (if \<exists>full. ans = Read_bytes [] full then -2 else 0)" using handle_read_ok [OF h(1,2) q] .
  let ?con2 = "?con\<lparr>c_read_queue := rqa, c_is_readable := b, c_bytes_read := n, c_read_queue := rqb\<rparr>"
  have "holds_pieces (c_read_queue ?con2) (map mem_piece (prs @ arrived ans))" using rd(3) by simp
  from read_header_found [OF this h(3) assms(4)] obtain rq rq1 where rh: "read_header ?con2 = Some (connection_set_state (?con2\<lparr>c_read_queue := rq,
      c_core := (c_core ?con2)\<lparr>co_request := (co_request (c_core ?con2))\<lparr>rq_request := Some (consumed i off (map snd (prs @ arrived ans)))\<rparr>\<rparr>\<rparr>)
      CON_STATE_REQUEST_END)" "queue_drop rq = Some rq1" "holds_unread rq1 (dropWhile (\<lambda>(pre, r). r = []) (consume i off (prs @ arrived ans)))"
    by blast
  have "r \<noteq> -1" "c_state con = CON_STATE_READ" using rd(4) assms(1) by (simp_all add: waiting_def)
  note eq = read_state_eq [OF assms(2) this(2,1) rd(1) _ _ _, of rqb, OF _ rh(1)]
  show thesis by (rule that, rule eq) (use rd(2) rh(2,3) in \<open>simp_all add: connection_set_state_def\<close>)
qed

lemma read_state_missing:
  assumes "waiting con prs" "c_is_readable con" "quiet ans" "find_rests (map snd (prs @ arrived ans)) = None"
  obtains con1 where "connection_handle_read_state os cur ans con = Some (0, con1, [])"
    "holds_unread (c_read_queue con1) (prs @ arrived ans)" "c_conf con1 = c_conf con"
    "if queued (prs @ arrived ans) > MAX_HEADER
     then c_state con1 = CON_STATE_HANDLE_REQUEST \<and> http_status_of con1 = 414 \<and> \<not> keep_alive_of con1
     else c_core con1 = c_core con \<and>
       c_state con1 = (if \<exists>full. ans = Read_bytes [] full then CON_STATE_ERROR else CON_STATE_READ)"
proof -
  let ?con = "con\<lparr>c_read_idle_ts := cur\<rparr>"
  have h: "holds_pieces (c_read_queue ?con) (map mem_piece prs)" "\<not> cf_is_ssl (c_conf ?con)" "unread (prs @ arrived ans)"
    using assms(1) unread_arrived by (auto simp: waiting_def holds_unread_def)
  have q: "ans \<in> {Read_failed EAGAIN, Read_failed EINTR} \<or> (\<exists>s full. ans = Read_bytes s full)"
    using assms(3) by (auto simp: quiet_def split: read_answer.splits)
  obtain rqa rqb r b n where rd: "connection_handle_read ans ?con =
      Some (r, ?con\<lparr>c_read_queue := rqa, c_is_readable := b, c_bytes_read := n\<rparr>)"
    "purge_loop (fst rqa) (snd rqa) (cq_first (snd rqa)) = Some rqb" "holds_pieces rqb (map mem_piece (prs @ arrived ans))"
    "r = (if \<exists>full. ans = Read_bytes [] full then -2 else 0)" using handle_read_ok [OF h(1,2) q] .
  let ?con2 = "?con\<lparr>c_read_queue := rqa, c_is_readable := b, c_bytes_read := n, c_read_queue := rqb\<rparr>"
  have "holds_pieces (c_read_queue ?con2) (map mem_piece (prs @ arrived ans))" using rd(3) by simp
  note m = read_header_missing [OF this h(3) assms(4), folded queued_def]
  obtain rq1 where "queue_drop rqb = Some rq1" "holds_unread rq1 (prs @ arrived ans)" using m(2) by auto
  note rq1 = this
  have st: "r \<noteq> -1" "c_state con = CON_STATE_READ" using rd(4) assms(1) by (simp_all add: waiting_def)
  note eq = read_state_eq [OF assms(2) st(2,1) rd(1), where rqb = rqb and rq = rq1 and os = os]
  show thesis by (rule that, rule eq [OF _ m(1)]) (use rd(2,4) rq1 st in \<open>simp_all add: connection_set_state_def\<close>)
qed

text \<open>A read that fails, and a connection that ends in front of the header.\<close>

lemma read_state_fails:
  assumes "c_is_readable con" "\<not> cf_is_ssl (c_conf con)" "queue_ok (c_read_queue con)" "e \<notin> {EAGAIN, EINTR}"
  shows "\<exists>con1. connection_handle_read_state os cur (Read_failed e) con = Some (-1, con1, []) \<and> c_state con1 = CON_STATE_ERROR"
proof -
  obtain w q ps where q: "c_read_queue con = (w, q)" "rep w q ps" using queue_okE [OF assms(3)] by blast
  then obtain as us where "queue_inv w q as us" by (auto simp: rep_def)
  from append_new_ok [OF this, of "\<lambda>c. c\<lparr>ck_type := MEM_CHUNK, ck_offset := 0, ck_mem := None\<rparr>"] obtain a w1 q1 where
    "chunkqueue_get_append_buffer w q = Some (a, w1, q1)" by (auto simp: chunkqueue_get_append_buffer_def)
  with assms q(1) show ?thesis
    by (simp add: connection_handle_read_state_def connection_handle_read_def connection_set_state_def)
qed

section \<open>A header that arrives in several packets\<close>

text \<open>Each packet makes the socket readable and is read by one call; the calls stop when the state is left.\<close>

fun feed :: "upload_os \<Rightarrow> int \<Rightarrow> string list \<Rightarrow> conn \<Rightarrow> conn option" where
  "feed os cur [] con = Some con"
| "feed os cur (s # ss) con = do {
     (_, con1, _) \<leftarrow> connection_handle_read_state os cur (Read_bytes s False) (con\<lparr>c_is_readable := True\<rparr>);
     (if c_state con1 = c_state con then feed os cur ss con1 else Some con1)
   }"

lemma consumed_take:
  "i < length rs \<Longrightarrow> off \<le> length (rs ! i) \<Longrightarrow> consumed i off rs = take (length (concat (take i rs)) + off) (concat rs)"
  by (induction i off rs rule: consumed.induct) auto

lemma header_length_prefix: "header_length (u @ v) = None \<Longrightarrow> header_length u = None"
proof (induction u)
  case (Cons c u)
  have "take 4 (c # u) = CRLFCRLF \<Longrightarrow> take 4 ((c # u) @ v) = CRLFCRLF"
  proof -
    assume eq: "take 4 (c # u) = CRLFCRLF"
    then have "length (take 4 (c # u)) = 4" by (simp only:) simp
    then have "4 \<le> length (c # u)" by (simp only: length_take)
    with eq show ?thesis by simp
  qed
  with Cons show ?case by (auto split: if_splits)
qed simp

definition total :: "(string \<times> string) list \<Rightarrow> string list \<Rightarrow> int" where
  "total prs ss = queued prs + int (length (concat ss))"

lemma queued_append: "queued (prs @ [([], s)]) = queued prs + int (length s)"
  by (simp add: queued_def)

lemma feed_header:
  assumes "waiting con prs" "list_all (\<lambda>(pre, r). 3 \<le> length r) (tl prs)" "list_all (\<lambda>s. 3 \<le> length s) ss"
    and "ss \<noteq> []" "header_length (rests prs @ concat (butlast ss)) = None" "header_length (rests prs @ concat ss) = Some n"
    and "total prs ss \<le> MAX_HEADER"
  shows "\<exists>con1 prs1. feed os cur ss con = Some con1 \<and> c_state con1 = CON_STATE_REQUEST_END \<and>
    rq_request (co_request (c_core con1)) = Some (take n (rests prs @ concat ss)) \<and>
    holds_unread (c_read_queue con1) prs1 \<and> rests prs1 = drop n (rests prs @ concat ss)"
  using assms
proof (induction ss arbitrary: con prs)
  case (Cons s ss)
  let ?con = "con\<lparr>c_is_readable := True\<rparr>" and ?ans = "Read_bytes s False"
  let ?prs = "prs @ [([], s)]"
  have s: "arrived ?ans = [([], s)]" using Cons.prems(3) by auto
  have w: "waiting ?con prs" "c_is_readable ?con" "quiet ?ans" using Cons.prems(1) by (simp_all add: waiting_def quiet_def)
  have tl: "list_all (\<lambda>(pre, r). 3 \<le> length r) (tl ?prs)" using Cons.prems(2,3) by (cases prs) auto
  have wide: "wide (map snd ?prs)" using Cons.prems(2) by (cases prs) (auto simp: wide_def list_all_iff butlast_append)
  have cat: "concat (map snd ?prs) = rests prs @ s" by (simp add: rests_def)
  show ?case
  proof (cases "ss = []")
    case True
    have "header_length (concat (map snd ?prs)) = Some n" using Cons.prems(6) True cat by simp
    then have "map_option (\<lambda>(i, off). length (concat (take i (map snd ?prs))) + off) (find_rests (map snd ?prs)) = Some n"
      unfolding find_rests_spec [OF wide] .
    then obtain i off where f: "find_rests (map snd ?prs) = Some (i, off)" "length (concat (take i (map snd ?prs))) + off = n"
      unfolding map_option_eq_Some by fastforce
    obtain con1 where c1: "connection_handle_read_state os cur ?ans ?con = Some (0, con1, [])" "c_state con1 = CON_STATE_REQUEST_END"
      "rq_request (co_request (c_core con1)) = Some (consumed i off (map snd ?prs))"
      "holds_unread (c_read_queue con1) (dropWhile (\<lambda>(pre, r). r = []) (consume i off ?prs))"
      using read_state_found [OF w, of i off os cur] f(1) unfolding s by blast
    have so: "i < length (map snd ?prs)" "off \<le> length (map snd ?prs ! i)" using find_rests_sound [OF f(1)] by blast+
    have "consumed i off (map snd ?prs) = take n (rests prs @ s)" using consumed_take [OF so] f(2) cat by simp
    moreover then have "rests (consume i off ?prs) = drop n (rests prs @ s)"
      using consumed_rest [of i off ?prs] by (metis append_Nil2 append_take_drop_id rests_simps same_append_eq concat.simps)
    ultimately show ?thesis using c1 True Cons.prems(1) by (auto simp: rests_drop waiting_def)
  next
    case False
    have "header_length (rests prs @ s) = None"
      using Cons.prems(5) False header_length_prefix [of "rests prs @ s"] by simp
    then have f: "find_rests (map snd (prs @ arrived ?ans)) = None" using find_rests_spec [OF wide] cat s by simp
    have q: "\<not> queued (prs @ arrived ?ans) > MAX_HEADER" using Cons.prems(7) s by (simp add: queued_append total_def)
    obtain con1 where c1: "connection_handle_read_state os cur ?ans ?con = Some (0, con1, [])"
      "holds_unread (c_read_queue con1) ?prs" "c_conf con1 = c_conf ?con"
      "if queued (prs @ arrived ?ans) > MAX_HEADER
       then c_state con1 = CON_STATE_HANDLE_REQUEST \<and> http_status_of con1 = 414 \<and> \<not> keep_alive_of con1
       else c_core con1 = c_core ?con \<and> c_state con1 = (if \<exists>full. ?ans = Read_bytes [] full then CON_STATE_ERROR else CON_STATE_READ)"
      using read_state_missing [OF w f, of os cur] unfolding s by blast
    have st: "c_state con1 = CON_STATE_READ" using c1(4) q Cons.prems(3) by (auto split: if_splits)
    then have "waiting con1 ?prs" using c1 Cons.prems(1) by (simp add: waiting_def)
    from Cons.IH [OF this tl] show ?thesis
      using Cons.prems False c1(1) st by (auto simp: total_def queued_append waiting_def)
  qed
qed simp

text \<open>Packets of which no two neighbours have the end of a header.\<close>

fun apart :: "string list \<Rightarrow> bool" where
  "apart [] = True"
| "apart [r] = (header_length r = None)"
| "apart (r # m # rs) = (header_length (r @ m) = None \<and> apart (m # rs))"

lemma scan_buf_end: "scan_buf ahead i r = Some x \<Longrightarrow> header_length (r @ (case ahead of None \<Rightarrow> [] | Some m \<Rightarrow> m)) \<noteq> None"
proof (induction r arbitrary: i)
  case (Cons ch r)
  let ?m = "case ahead of None \<Rightarrow> [] | Some m \<Rightarrow> m"
  have later: "header_length ((ch # r) @ ?m) \<noteq> None" if "header_length (r @ ?m) \<noteq> None" using that by auto
  show ?case
  proof (cases "take 4 ((ch # r) @ ?m) = CRLFCRLF")
    case False
    have "take 4 (ch # r) \<noteq> CRLFCRLF \<or> length r < 3"
      using False by (cases "length r < 3") (auto simp: take_Cons')
    moreover have "\<not> (length r < 3 \<and> (\<exists>m. ahead = Some m \<and> ch # r = take (Suc (length r)) CRLFCRLF \<and> take (4 - Suc (length r)) m = drop (Suc (length r)) CRLFCRLF))"
    proof
      assume "length r < 3 \<and> (\<exists>m. ahead = Some m \<and> ch # r = take (Suc (length r)) CRLFCRLF \<and> take (4 - Suc (length r)) m = drop (Suc (length r)) CRLFCRLF)"
      then obtain m where m: "ahead = Some m" "ch # r = take (Suc (length r)) CRLFCRLF" "take (4 - Suc (length r)) m = drop (Suc (length r)) CRLFCRLF"
        "length r < 3" by blast
      have "take 4 ((ch # r) @ m) = (ch # r) @ take (4 - Suc (length r)) m" using m(4) by simp
      also have "\<dots> = take (Suc (length r)) CRLFCRLF @ drop (Suc (length r)) CRLFCRLF" by (simp only: m(3) m(2) [symmetric])
      finally show False using False m(1) by simp
    qed
    ultimately have "scan_buf ahead (Suc i) r = Some x" using Cons.prems by (auto simp: Let_def split: if_splits option.splits)
    then show ?thesis using Cons.IH later by blast
  qed auto
qed simp

lemma apart_missed: "apart rs \<Longrightarrow> find_rests rs = None"
proof (induction rs rule: apart.induct)
  case (2 r)
  then show ?case using scan_buf_end [of None 0 r] by (cases "scan_buf None 0 r") auto
next
  case (3 r m rs)
  then show ?case using scan_buf_end [of "Some m" 0 r] by (cases "scan_buf (Some m) 0 r") auto
qed simp

lemma apart_prefix: "apart (rs @ ss) \<Longrightarrow> apart rs"
proof (induction rs rule: apart.induct)
  case (2 r)
  then show ?case using header_length_prefix by (cases ss) auto
qed simp_all

lemma feed_apart:
  assumes "waiting con prs" "[] \<notin> set ss" "apart (map snd prs @ ss)" "total prs ss \<le> MAX_HEADER"
  shows "\<exists>con1. feed os cur ss con = Some con1 \<and> waiting con1 (prs @ map (Pair []) ss)"
  using assms
proof (induction ss arbitrary: con prs)
  case (Cons s ss)
  let ?con = "con\<lparr>c_is_readable := True\<rparr>" and ?ans = "Read_bytes s False"
  let ?prs = "prs @ [([], s)]"
  have s: "arrived ?ans = [([], s)]" using Cons.prems(2) by auto
  have w: "waiting ?con prs" "c_is_readable ?con" "quiet ?ans" using Cons.prems(1) by (simp_all add: waiting_def quiet_def)
  have "apart (map snd ?prs)" using apart_prefix [of "map snd ?prs" ss] Cons.prems(3) by simp
  then have f: "find_rests (map snd (prs @ arrived ?ans)) = None" unfolding s by (rule apart_missed)
  have q: "\<not> queued (prs @ arrived ?ans) > MAX_HEADER" using Cons.prems(4) unfolding s by (simp add: queued_append total_def)
  obtain con1 where c1: "connection_handle_read_state os cur ?ans ?con = Some (0, con1, [])"
    "holds_unread (c_read_queue con1) ?prs" "c_conf con1 = c_conf ?con"
    "if queued (prs @ arrived ?ans) > MAX_HEADER
     then c_state con1 = CON_STATE_HANDLE_REQUEST \<and> http_status_of con1 = 414 \<and> \<not> keep_alive_of con1
     else c_core con1 = c_core ?con \<and> c_state con1 = (if \<exists>full. ?ans = Read_bytes [] full then CON_STATE_ERROR else CON_STATE_READ)"
    using read_state_missing [OF w f, of os cur] unfolding s by blast
  have st: "c_state con1 = CON_STATE_READ" using c1(4) q Cons.prems(2) by (auto split: if_splits)
  then have "waiting con1 ?prs" using c1 Cons.prems(1) by (simp add: waiting_def)
  from Cons.IH [OF this, of] Cons.prems c1(1) st show ?case by (auto simp: total_def queued_append waiting_def)
qed simp

section \<open>Properties\<close>

definition sample_os :: upload_os where
  "sample_os = \<lparr>os_mkstemp = (\<lambda>n t. (5, ''/var/tmp/lighttpd-upload-aB3xY9'')), os_open = (\<lambda>n name. 5),
     os_write = (\<lambda>n fd s. int (length s))\<rparr>"

definition sample_conn :: conn where
  "sample_conn = (the (connection_init None no_config))\<lparr>c_state := CON_STATE_READ\<rparr>"

lemma sample_waiting: "waiting sample_conn []"
  by (simp add: sample_conn_def connection_init_def chunkqueue_set_tempdirs_def waiting_def holds_unread_def unread_def
      fresh_tail_def holds_init config_setup_connection_def no_config_def)

text \<open>C12. A request header that arrives in several packets is put together: with at least three octets in each packet and
  at most 64 KiB in all, the calls that read the packets end in state \<open>CON_STATE_REQUEST_END\<close>, the request is exactly what
  stands in front of the end of the first empty line, and what is behind it stays in the read queue for the body or the
  next request. Part of a chunk may be left from the request before.\<close>

theorem header_from_packets:
  assumes "waiting con prs" "length prs \<le> 1" "ss \<noteq> []" "list_all (\<lambda>s. 3 \<le> length s) ss"
    and "header_length (rests prs @ concat (butlast ss)) = None" "header_length (rests prs @ concat ss) = Some n"
    and "total prs ss \<le> MAX_HEADER"
  shows "\<exists>con1 prs1. feed os cur ss con = Some con1 \<and> c_state con1 = CON_STATE_REQUEST_END \<and>
    rq_request (co_request (c_core con1)) = Some (take n (rests prs @ concat ss)) \<and>
    holds_unread (c_read_queue con1) prs1 \<and> rests prs1 = drop n (rests prs @ concat ss)"
proof -
  have "list_all (\<lambda>(pre, r). 3 \<le> length r) (tl prs)" using assms(2) by (cases prs) auto
  from feed_header [OF assms(1) this assms(4,3,5-7)] show ?thesis .
qed

theorem header_from_packets_witness:
  "\<exists>con1 prs1. feed sample_os 0 [''GET / HTTP/1.0'' @ [CR], [LF, CR, LF] @ ''next''] sample_conn = Some con1 \<and>
     c_state con1 = CON_STATE_REQUEST_END \<and>
     rq_request (co_request (c_core con1)) = Some (''GET / HTTP/1.0'' @ CRLFCRLF) \<and>
     holds_unread (c_read_queue con1) prs1 \<and> rests prs1 = ''next''"
  using header_from_packets [OF sample_waiting, of "[''GET / HTTP/1.0'' @ [CR], [LF, CR, LF] @ ''next'']" 18 sample_os 0]
  by (simp add: total_def queued_def MAX_HEADER_def)

text \<open>C39. The search for the end of the header looks at one chunk and the beginning of the next, and no later call puts chunks
  together: when packets arrive of which no single one and no two neighbours (with what was in the queue before)
  contain an empty line, the connection stays in \<open>CON_STATE_READ\<close> with all their octets in its queue, chunk by chunk as they came, and
  every later call that finds nothing to read leaves it there. This also holds when the packets together do contain the empty line, in three or
  more pieces: such a header is never recognised. (At most 64 KiB in all.)\<close>

theorem split_header_missed:
  assumes "waiting con prs" "[] \<notin> set ss" "apart (map snd prs @ ss)" "total prs ss \<le> MAX_HEADER"
  shows "\<exists>con1 prs1. feed os cur ss con = Some con1 \<and> waiting con1 prs1 \<and> map snd prs1 = map snd prs @ ss \<and>
    (\<forall>os cur e. e \<in> {EAGAIN, EINTR} \<longrightarrow> (\<exists>con2. connection_handle_read_state os cur (Read_failed e) (con1\<lparr>c_is_readable := True\<rparr>) =
       Some (0, con2, []) \<and> waiting con2 prs1))"
proof -
  obtain con1 where c1: "feed os cur ss con = Some con1" "waiting con1 (prs @ map (Pair []) ss)"
    using feed_apart [OF assms] by blast
  let ?prs = "prs @ map (Pair []) ss"
  have m: "map snd ?prs = map snd prs @ ss" by (simp add: comp_def)
  have q: "queued ?prs \<le> MAX_HEADER" using assms(4) by (simp add: total_def queued_def comp_def)
  have "\<exists>con2. connection_handle_read_state os cur (Read_failed e) (con1\<lparr>c_is_readable := True\<rparr>) = Some (0, con2, []) \<and> waiting con2 ?prs"
    if "e \<in> {EAGAIN, EINTR}" for os cur e
  proof -
    have "find_rests (map snd (?prs @ arrived (Read_failed e))) = None" using apart_missed assms(3) m by simp
    moreover have "waiting (con1\<lparr>c_is_readable := True\<rparr>) ?prs" "quiet (Read_failed e)" using c1(2) that by (auto simp: waiting_def quiet_def)
    ultimately obtain con2 where "connection_handle_read_state os cur (Read_failed e) (con1\<lparr>c_is_readable := True\<rparr>) = Some (0, con2, [])"
      "holds_unread (c_read_queue con2) ?prs" "c_conf con2 = c_conf con1" "c_state con2 = CON_STATE_READ"
      using read_state_missing [of "con1\<lparr>c_is_readable := True\<rparr>" ?prs "Read_failed e" os cur] q by auto
    then show ?thesis using c1(2) by (auto simp: waiting_def)
  qed
  with c1 m show ?thesis by blast
qed

theorem split_header_missed_witness:
  "\<exists>con1 prs1. feed sample_os 0 [''GET / HTTP/1.0'' @ [CR], [LF], [CR, LF]] sample_conn = Some con1 \<and> waiting con1 prs1 \<and>
     rests prs1 = ''GET / HTTP/1.0'' @ CRLFCRLF \<and> header_length (rests prs1) = Some 18"
proof -
  let ?ss = "[''GET / HTTP/1.0'' @ [CR], [LF], [CR, LF]]"
  have "apart (map snd [] @ ?ss)" "header_length (concat ?ss) = Some 18" by simp_all
  moreover obtain con1 prs1 where "feed sample_os 0 ?ss sample_conn = Some con1" "waiting con1 prs1" "map snd prs1 = map snd [] @ ?ss"
    using split_header_missed [OF sample_waiting _ calculation(1), of sample_os 0] by (auto simp: total_def queued_def MAX_HEADER_def simp del: feed.simps)
  ultimately show ?thesis by (intro exI [of _ con1] exI [of _ prs1]) (simp add: rests_def del: feed.simps)
qed

text \<open>The limit on the size of a header counts what the requests before have used up: whatever part of the first chunk
  was read already, the request is answered with 414 when the chunk has more than 64 KiB, even if the unfinished header is
  a single octet.\<close>

theorem header_limit_counts_used:
  assumes "waiting con [(pre, [c])]" "c_is_readable con" "length pre \<ge> 65536"
  shows "\<exists>con1. connection_handle_read_state os cur (Read_failed EAGAIN) con = Some (0, con1, []) \<and>
    c_state con1 = CON_STATE_HANDLE_REQUEST \<and> http_status_of con1 = 414 \<and> \<not> keep_alive_of con1"
proof -
  have "find_rests (map snd ([(pre, [c])] @ arrived (Read_failed EAGAIN))) = None" by (simp add: Let_def)
  from read_state_missing [OF assms(1,2) _ this, of os cur] assms(3) show ?thesis
    by (auto simp: quiet_def queued_def MAX_HEADER_def)
qed

theorem header_limit_counts_used_witness:
  "\<exists>con con1. waiting con [(replicate 65536 (CHR ''a''), ''G'')] \<and>
     connection_handle_read_state sample_os 0 (Read_failed EAGAIN) con = Some (0, con1, []) \<and>
     c_state con1 = CON_STATE_HANDLE_REQUEST \<and> http_status_of con1 = 414 \<and> \<not> keep_alive_of con1"
proof -
  let ?pre = "replicate 65536 (CHR ''a'')"
  let ?c = "fresh_chunk\<lparr>ck_type := MEM_CHUNK, ck_mem := Some (?pre @ ''G''), ck_offset := int (length ?pre)\<rparr>"
  let ?w = "empty_world\<lparr>w_heap := [Some ?c]\<rparr>"
  let ?q = "chunkqueue_init\<lparr>cq_first := Some 0, cq_last := Some 0\<rparr>"
  let ?con = "sample_conn\<lparr>c_is_readable := True, c_read_queue := (?w, ?q)\<rparr>"
  have at: "chunk_at ?w 0 = Some ?c" by (simp add: chunk_at_def)
  have "piece_of ?c = mem_piece (?pre, ''G'')" by (simp add: piece_of_mem)
  then have "rep ?w ?q (map mem_piece [(?pre, ''G'')])" using at unfolding rep_def
    by (intro exI [of _ "[0]"] exI [of _ "[]"]) (simp add: queue_inv_def chunkqueue_init_def pieces_def)
  then have w: "waiting ?con [(?pre, ''G'')]"
    using sample_waiting by (simp add: waiting_def holds_unread_def holds_pieces_def unread_def fresh_tail_def)
  have "c_is_readable ?con" "length ?pre \<ge> 65536" by simp_all
  from w header_limit_counts_used [OF w this, of sample_os 0] show ?thesis by blast
qed

text \<open>A read error other than \<open>EAGAIN\<close> and \<open>EINTR\<close>, and a peer that closes the connection in front of the end of the
  header, lead to state \<open>CON_STATE_ERROR\<close>; an interrupted or empty read changes nothing but the flags.\<close>

theorem read_errors:
  assumes "waiting con prs" "c_is_readable con" "header_length (rests prs) = None" "queued prs \<le> MAX_HEADER"
    and "list_all (\<lambda>(pre, r). 3 \<le> length r) (tl prs)"
  shows "(e \<notin> {EAGAIN, EINTR} \<longrightarrow> (\<exists>con1. connection_handle_read_state os cur (Read_failed e) con = Some (-1, con1, []) \<and>
      c_state con1 = CON_STATE_ERROR)) \<and>
    (\<exists>con1. connection_handle_read_state os cur (Read_bytes [] full) con = Some (0, con1, []) \<and> c_state con1 = CON_STATE_ERROR) \<and>
    (e \<in> {EAGAIN, EINTR} \<longrightarrow> (\<exists>con1. connection_handle_read_state os cur (Read_failed e) con = Some (0, con1, []) \<and>
      waiting con1 prs \<and> c_core con1 = c_core con))"
proof (intro conjI impI)
  have "wide (map snd prs)" using assms(5) by (cases prs) (fastforce simp: wide_def list_all_iff dest: in_set_butlastD)+
  from find_rests_spec [OF this] have f: "find_rests (map snd prs) = None" using assms(3) by (simp add: rests_def)
  have "queue_ok (c_read_queue con)" using assms(1) by (auto simp: waiting_def holds_unread_def intro!: queue_okI)
  then show "\<exists>con1. connection_handle_read_state os cur (Read_failed e) con = Some (-1, con1, []) \<and>
      c_state con1 = CON_STATE_ERROR" if "e \<notin> {EAGAIN, EINTR}"
    using read_state_fails [OF assms(2)] assms(1) that by (auto simp: waiting_def)
  show "\<exists>con1. connection_handle_read_state os cur (Read_bytes [] full) con = Some (0, con1, []) \<and> c_state con1 = CON_STATE_ERROR"
    by (rule read_state_missing [OF assms(1,2), of "Read_bytes [] full" os cur]) (use f assms(4) in \<open>auto simp: quiet_def\<close>)
  show "\<exists>con1. connection_handle_read_state os cur (Read_failed e) con = Some (0, con1, []) \<and>
      waiting con1 prs \<and> c_core con1 = c_core con" if "e \<in> {EAGAIN, EINTR}"
    by (rule read_state_missing [OF assms(1,2), of "Read_failed e" os cur]) (use f assms(1,4) that in \<open>auto simp: quiet_def waiting_def\<close>)
qed

theorem read_errors_witness:
  "(\<exists>con1. connection_handle_read_state sample_os 0 (Read_failed ECONNRESET) (sample_conn\<lparr>c_is_readable := True\<rparr>) = Some (-1, con1, []) \<and>
      c_state con1 = CON_STATE_ERROR) \<and>
   (\<exists>con1. connection_handle_read_state sample_os 0 (Read_bytes [] False) (sample_conn\<lparr>c_is_readable := True\<rparr>) = Some (0, con1, []) \<and>
      c_state con1 = CON_STATE_ERROR)"
proof -
  have "waiting (sample_conn\<lparr>c_is_readable := True\<rparr>) []" using sample_waiting by (simp add: waiting_def)
  from read_errors [OF this, of ECONNRESET sample_os 0 False] show ?thesis by (simp add: queued_def MAX_HEADER_def)
qed

end
