(* ===== verification/ConnBody.thy ===== *)
theory ConnBody
  imports ConnRead
begin

text \<open>
  The body of a request: what \<open>read_post\<close>, the part of \<open>connection_handle_read_state\<close> for state \<open>CON_STATE_READ_POST\<close>, does
  to the two queues. Whatever the packets are, the body is what stands in front of the \<open>content_length\<close>-th octet, in
  order, and the rest stays in the read queue; nothing is lost or taken twice when an upload is spread over temporary
  files, and every failure of the file system ends the upload with status 413.
\<close>

section \<open>Taking a part of the read queue\<close>

fun take_body :: "nat \<Rightarrow> (string \<times> string) list \<Rightarrow> (string \<times> string) list" where
  "take_body k [] = []"
| "take_body k ((pre, r) # prs) = (if k = 0 then (pre, r) # prs else (pre @ take k r, drop k r) # take_body (k - length r) prs)"

fun body_parts :: "nat \<Rightarrow> string list \<Rightarrow> string list" where
  "body_parts k [] = []"
| "body_parts k (r # rs) = (if k = 0 then [] else take k r # body_parts (k - length r) rs)"

lemma take_body_0 [simp]: "take_body 0 prs = prs"
  by (cases prs) auto

lemma body_parts_0 [simp]: "body_parts 0 rs = []"
  by (cases rs) auto

lemma body_parts_concat: "concat (body_parts k rs) = take k (concat rs)"
  by (induction rs arbitrary: k) auto

lemma take_body_rests: "rests (take_body k prs) = drop k (rests prs)"
  by (induction k prs rule: take_body.induct) auto

lemma take_body_unread:
  assumes "unread prs"
  shows "unread (dropWhile (\<lambda>(pre, r). r = []) (take_body k prs))"
  using assms
proof (induction k prs rule: take_body.induct)
  case (2 k pre r prs)
  have tl: "unread prs" "list_all (\<lambda>(pre, r). pre = []) prs" using 2(2) by (cases prs; simp add: unread_def fresh_tail_def)+
  show ?case
  proof (cases "k < length r")
    case True
    then have "k - length r = 0" "drop k r \<noteq> []" by auto
    then show ?thesis using 2(2) tl by (auto simp: unread_def fresh_tail_def)
  next
    case False
    moreover have "r \<noteq> []" using 2(2) by (simp add: unread_def)
    ultimately show ?thesis using 2(1) tl by auto
  qed
qed (simp add: unread_def fresh_tail_def)

lemma append_new_bytes: "append_new w q f = Some (a, w1, q1) \<Longrightarrow> cq_bytes_in q1 = cq_bytes_in q \<and> cq_tempdirs q1 = cq_tempdirs q"
  by (auto simp: append_new_def chunkqueue_get_unused_chunk_def chunkqueue_append_chunk_def chunk_init_def split: option.splits)

lemma holds_bytes [simp]: "holds_pieces (w, q\<lparr>cq_bytes_in := n\<rparr>) ps = holds_pieces (w, q) ps"
  by (simp add: holds_pieces_def rep_def queue_inv_def)

section \<open>Small bodies\<close>

lemma store_mem_ok:
  assumes "holds_pieces dst ps"
  shows "\<exists>dst1. store_mem dst bytes = Some (Inr (dst1, [])) \<and> holds_pieces dst1 (ps @ [PMem (Some bytes) 0]) \<and>
    cq_bytes_in (snd dst1) = cq_bytes_in (snd dst)"
proof -
  obtain w q where d: "dst = (w, q)" "rep w q ps" using assms by (cases dst) (simp add: holds_pieces_def)
  obtain a w1 q1 as us c where g: "chunkqueue_get_append_buffer w q = Some (a, w1, q1)" "queue_inv w1 q1 (as @ [a]) us"
    "length us \<le> 4" "pieces w1 as = ps" "chunk_at w1 a = Some c" "ck_type c = MEM_CHUNK" "ck_mem c = None" "ck_offset c = 0"
    using get_append_ok [OF d(2)] .
  obtain w2 where w2: "chunk_put w1 a (c\<lparr>ck_mem := Some bytes\<rparr>) = Some w2" "queue_inv w2 q1 (as @ [a]) us"
    "pieces w2 (as @ [a]) = ps @ [mem_piece ([], bytes)]" using fill_appended [OF g(2,4,5,6,8)] by blast
  have "cq_bytes_in q1 = cq_bytes_in q" using g(1) append_new_bytes by (simp add: chunkqueue_get_append_buffer_def)
  moreover have "rep w2 q1 (ps @ [PMem (Some bytes) 0])" using w2(2,3) by (auto simp: rep_def mem_piece_def)
  ultimately show ?thesis using d(1) g(1,5) w2(1) by (simp add: store_mem_def holds_pieces_def)
qed

text \<open>The octets of the first chunk that the loop takes.\<close>

lemma to_read_mem: "piece_of c = mem_piece (pre, r) \<Longrightarrow> to_read (int k) c (pre @ r) = int (length (take k r))"
  by (auto simp: to_read_def piece_of_mem)

lemma mem_read_take: "mem_read r (length (take k r)) = Some (take k r)"
  by (simp add: mem_read_def min_def)

lemma advance_chunk:
  assumes "chain rw p (a # as)" "pieces rw (a # as) = map mem_piece ((pre, r) # prs)" "distinct (a # as)" "chunk_at rw a = Some c"
  shows "\<exists>rw1. chunk_put rw a (c\<lparr>ck_offset := ck_offset c + int (length (take k r))\<rparr>) = Some rw1 \<and> same_links rw rw1 \<and>
    chain rw1 (ck_next c) as \<and> pieces rw1 as = map mem_piece prs \<and> pieces rw1 [a] = [mem_piece (pre @ take k r, drop k r)] \<and>
    (\<forall>b. b \<noteq> a \<longrightarrow> chunk_at rw1 b = chunk_at rw b)"
proof -
  let ?c = "c\<lparr>ck_offset := ck_offset c + int (length (take k r))\<rparr>"
  let ?w = "rw\<lparr>w_heap := (w_heap rw)[a := Some ?c]\<rparr>"
  note put = chunk_put_Some [OF assms(4), of ?c]
  have c: "piece_of c = mem_piece (pre, r)" "chain rw (ck_next c) as" "pieces rw as = map mem_piece prs" "a \<notin> set as"
    using assms by (auto simp: pieces_def)
  have "same_links rw ?w" by (rule same_links_update [OF assms(4), of ?c]) simp_all
  moreover have "chain ?w (ck_next c) as" using chain_update [OF assms(4), of ?c] c(2) by simp
  moreover have "pieces ?w as = map mem_piece prs" using pieces_update [OF assms(4) c(4), of ?c] c(3) by simp
  moreover have "piece_of ?c = mem_piece (pre @ take k r, drop k r)" using c(1) by (simp add: piece_of_mem)
  then have "pieces ?w [a] = [mem_piece (pre @ take k r, drop k r)]" using put(2) by (simp add: pieces_single)
  ultimately show ?thesis using put by auto
qed

lemma post_loop_mem:
  assumes "chain rw p as" "pieces rw as = map mem_piece prs" "distinct as" "holds_pieces dst ps" "cl \<le> MAX_MEM_BODY"
    and "cq_bytes_in (snd dst) \<le> cl"
  shows "\<exists>rw1 dst1. post_loop os n cl p rw dst log = Some (False, rw1, dst1, log) \<and> same_links rw rw1 \<and>
    pieces rw1 as = map mem_piece (take_body (nat (cl - cq_bytes_in (snd dst))) prs) \<and>
    (\<forall>b. b \<notin> set as \<longrightarrow> chunk_at rw1 b = chunk_at rw b) \<and>
    holds_pieces dst1 (ps @ map (\<lambda>s. PMem (Some s) 0) (body_parts (nat (cl - cq_bytes_in (snd dst))) (map snd prs))) \<and>
    cq_bytes_in (snd dst1) = min cl (cq_bytes_in (snd dst) + int (length (rests prs)))"
  using assms
proof (induction as arbitrary: rw p prs dst ps n)
  case Nil
  then have "p = None" "prs = []" by (simp_all add: pieces_def)
  then show ?case using Nil by (subst post_loop.simps) (simp add: pieces_def)
next
  case (Cons a as)
  then obtain pre r prs' where prs: "prs = (pre, r) # prs'" by (cases prs) (auto simp: pieces_def)
  obtain c where c: "p = Some a" "chunk_at rw a = Some c" "piece_of c = mem_piece (pre, r)"
    using chain_mem_Cons [OF Cons.prems(1), of pre r "map mem_piece prs'"] Cons.prems(2) prs by auto
  let ?bin = "cq_bytes_in (snd dst)"
  show ?case
  proof (cases "?bin = cl")
    case True
    then have "post_loop os n cl p rw dst log = Some (False, rw, dst, log)" using c(1) by (subst post_loop.simps) simp
    with True Cons.prems(2,4) show ?thesis by simp
  next
    case False
    define k where "k = nat (cl - ?bin)"
    have lt: "?bin < cl" "0 < k" "cl - ?bin = int k" using False Cons.prems(6) by (auto simp: k_def)
    let ?t = "take k r"
    obtain dst1 where st: "store_mem dst ?t = Some (Inr (dst1, []))" "holds_pieces dst1 (ps @ [PMem (Some ?t) 0])"
      "cq_bytes_in (snd dst1) = ?bin" using store_mem_ok [OF Cons.prems(4)] by blast
    obtain rw1 where ad: "chunk_put rw a (c\<lparr>ck_offset := ck_offset c + int (length ?t)\<rparr>) = Some rw1" "same_links rw rw1"
      "chain rw1 (ck_next c) as" "pieces rw1 as = map mem_piece prs'" "pieces rw1 [a] = [mem_piece (pre @ ?t, drop k r)]"
      "\<forall>b. b \<noteq> a \<longrightarrow> chunk_at rw1 b = chunk_at rw b"
      using advance_chunk [OF Cons.prems(1) _ Cons.prems(3) c(2)] Cons.prems(2) prs by blast
    let ?dst = "(fst dst1, (snd dst1)\<lparr>cq_bytes_in := cq_bytes_in (snd dst1) + int (length ?t)\<rparr>)"
    have step: "post_loop os n cl p rw dst log = post_loop os (Suc n) cl (ck_next c) rw1 ?dst log"
      using c(1,2) lt(1) Cons.prems(5) False st(1) ad(1) chunk_rest_mem [OF c(3)] c(3) [unfolded piece_of_mem]
      by (subst post_loop.simps) (simp add: lt(3) to_read_mem [OF c(3)] mem_read_take Let_def del: length_take)
    have d: "holds_pieces ?dst (ps @ [PMem (Some ?t) 0])" using st(2) by simp
    have d: "holds_pieces ?dst (ps @ [PMem (Some ?t) 0])" "cq_bytes_in (snd ?dst) \<le> cl"
      "nat (cl - cq_bytes_in (snd ?dst)) = k - length r" using d st(3) lt(3) by simp_all
    obtain rw2 dst2 where IH: "post_loop os (Suc n) cl (ck_next c) rw1 ?dst log = Some (False, rw2, dst2, log)" "same_links rw1 rw2"
      "pieces rw2 as = map mem_piece (take_body (k - length r) prs')" "\<forall>b. b \<notin> set as \<longrightarrow> chunk_at rw2 b = chunk_at rw1 b"
      "holds_pieces dst2 ((ps @ [PMem (Some ?t) 0]) @ map (\<lambda>s. PMem (Some s) 0) (body_parts (k - length r) (map snd prs')))"
      "cq_bytes_in (snd dst2) = min cl (cq_bytes_in (snd ?dst) + int (length (rests prs')))"
      using Cons.IH [OF ad(3,4) _ d(1) Cons.prems(5) d(2), of "Suc n"] Cons.prems(3) unfolding d(3) by fastforce
    have "same_links rw rw2" using ad(2) IH(2) by (simp add: same_links_def)
    moreover have "pieces rw2 (a # as) = map mem_piece (take_body k prs)"
      using IH(3,4) ad(5) Cons.prems(3) prs lt(2) by (simp add: pieces_def)
    moreover have "min cl (cq_bytes_in (snd ?dst) + int (length (rests prs'))) = min cl (?bin + int (length (rests prs)))"
      using st(3) prs lt(3) by (simp add: min_def)
    ultimately show ?thesis using step IH ad(6) prs lt(2) by (auto simp: k_def [symmetric])
  qed
qed

section \<open>Temporary files\<close>

text \<open>The queue of an upload: named files that are at most one packet of \<open>B\<close> octets longer than 1 MiB.\<close>

definition upload_piece :: "int \<Rightarrow> piece \<Rightarrow> bool" where
  "upload_piece B p = (case p of PFile (Some name) st len off \<Rightarrow> 0 \<le> len \<and> len < MAX_TEMPFILE + B | _ \<Rightarrow> False)"

definition uploads :: "int \<Rightarrow> cqueue \<Rightarrow> piece list \<Rightarrow> bool" where
  "uploads B dst ps = (holds_pieces dst ps \<and> list_all (upload_piece B) ps \<and> dirs_ok (snd dst))"

definition sizes :: "piece list \<Rightarrow> int" where
  "sizes ps = sum_list (map piece_length ps)"

lemma sizes_simps [simp]: "sizes [] = 0" "sizes (p # ps) = piece_length p + sizes ps" "sizes (xs @ ys) = sizes xs + sizes ys"
  by (simp_all add: sizes_def)

text \<open>The writes that are logged succeeded; and what a failure means: no file could be opened, or not all of \<open>s\<close>, the next
  octets of \<open>rest\<close>, was written.\<close>

fun written :: "upload_os \<Rightarrow> nat \<Rightarrow> (int \<times> string) list \<Rightarrow> bool" where
  "written os n [] = True"
| "written os n ((fd, s) # log) = (fd \<noteq> -1 \<and> os_write os n fd s = int (length s) \<and> written os (Suc n) log)"

definition open_failed :: "upload_os \<Rightarrow> nat \<Rightarrow> bool" where
  "open_failed os n = ((\<exists>t. fst (os_mkstemp os n t) = -1) \<or> (\<exists>name. os_open os n name = -1))"

definition upload_failed :: "upload_os \<Rightarrow> nat \<Rightarrow> string \<Rightarrow> bool" where
  "upload_failed os n rest = (open_failed os n \<or> (\<exists>fd s q. fd \<noteq> -1 \<and> os_write os n fd s \<noteq> int (length s) \<and> rest = s @ q))"

text \<open>Changing the last chunk of a queue.\<close>

lemma change_last:
  assumes "queue_inv w q (as @ [a]) us" "chunk_at w a = Some c" "ck_next c1 = ck_next c"
    and "\<And>b. chunk_at w1 b = (if b = a then Some c1 else chunk_at w b)"
  shows "queue_inv w1 q (as @ [a]) us" "pieces w1 (as @ [a]) = pieces w as @ [piece_of c1]"
proof -
  have "same_links w w1" using assms(2-4) by (auto simp: same_links_def)
  with assms(1) show "queue_inv w1 q (as @ [a]) us" using same_links_inv by blast
  have "a \<notin> set as" using assms(1) by (simp add: queue_inv_def)
  then have "pieces w1 as = pieces w as" by (intro pieces_cong) (auto simp: assms(4))
  then show "pieces w1 (as @ [a]) = pieces w as @ [piece_of c1]" by (simp add: pieces_append pieces_single assms(4))
qed

lemma close_fd_ok:
  assumes "chunk_at w a = Some c0"
  shows "\<exists>w1. close_chunk_fd w a c = Some w1 \<and> (\<forall>b. chunk_at w1 b = (if b = a then Some (c\<lparr>ck_file_fd := -1\<rparr>) else chunk_at w b))"
proof -
  let ?w = "w\<lparr>w_closed := w_closed w @ [ck_file_fd c]\<rparr>"
  have "chunk_at ?w b = chunk_at w b" for b by (simp add: chunk_at_def)
  with chunk_put_Some [of ?w a c0 "c\<lparr>ck_file_fd := -1\<rparr>"] assms show ?thesis by (simp add: close_chunk_fd_def)
qed

text \<open>The chunk that \<open>upload_chunk\<close> chooses is the last one of the queue and below the limit.\<close>

lemma upload_chunk_ok:
  assumes "uploads B dst ps" "0 \<le> B"
  obtains a w q as us c where "upload_chunk os n dst = Some (a, w, q)" "queue_inv w q (as @ [a]) us" "chunk_at w a = Some c"
    "ck_type c = FILE_CHUNK" "\<exists>name. ck_file_name c = Some name" "0 \<le> ck_file_length c" "ck_file_length c < MAX_TEMPFILE"
    "uploads B (w, q) (pieces w (as @ [a]))" "sizes (pieces w (as @ [a])) = sizes ps" "cq_bytes_in q = cq_bytes_in (snd dst)"
    "ck_file_fd c = -1 \<longrightarrow> open_failed os n"
proof -
  note outcome = that
  obtain w q where d: "dst = (w, q)" "rep w q ps" "list_all (upload_piece B) ps" "dirs_ok q"
    using assms(1) by (cases dst) (simp add: uploads_def holds_pieces_def)
  obtain as us where as: "queue_inv w q as us" "pieces w as = ps" using d(2) by (auto simp: rep_def)
  have fresh: thesis if up: "upload_chunk os n dst = chunkqueue_get_append_tempfile (os_mkstemp os n) w0 q" and r: "rep w0 q ps" for w0
  proof -
    obtain a w1 q1 as1 us1 c name start where t0: "chunkqueue_get_append_tempfile (os_mkstemp os n) w0 q = Some (a, w1, q1)"
      "queue_inv w1 q1 (as1 @ [a]) us1" "pieces w1 as1 = ps" "chunk_at w1 a = Some c" "piece_of c = PFile (Some name) start 0 0"
      "ck_file_fd c = -1 \<longrightarrow> (\<exists>t. fst (os_mkstemp os n t) = -1)" "cq_bytes_in q1 = cq_bytes_in q" "dirs_ok q1"
      using get_append_tempfile_new [OF r d(4)] .
    have "ck_type c = FILE_CHUNK" "ck_file_name c = Some name" "ck_file_length c = 0"
      using t0(5) by (auto simp: piece_of_def split: chunk_type.splits)
    then have t: "chunkqueue_get_append_tempfile (os_mkstemp os n) w0 q = Some (a, w1, q1)"
      "queue_inv w1 q1 (as1 @ [a]) us1" "pieces w1 as1 = ps" "chunk_at w1 a = Some c" "ck_type c = FILE_CHUNK"
      "\<exists>name. ck_file_name c = Some name" "ck_file_length c = 0" "cq_bytes_in q1 = cq_bytes_in q" "dirs_ok q1"
      "ck_file_fd c = -1 \<longrightarrow> open_failed os n" using t0 by (auto simp: open_failed_def)
    have p: "pieces w1 (as1 @ [a]) = ps @ [piece_of c]" using t(3,4) by (simp add: pieces_append pieces_single)
    have "upload_piece B (piece_of c)" "piece_length (piece_of c) = 0"
      using t(5-7) assms(2) by (auto simp: upload_piece_def piece_of_def piece_length_def MAX_TEMPFILE_def)
    then have "uploads B (w1, q1) (pieces w1 (as1 @ [a]))" "sizes (pieces w1 (as1 @ [a])) = sizes ps"
      unfolding p using t(2,9) p d(3) by (auto simp: uploads_def holds_pieces_def rep_def)
    with t up d(1) outcome [of a w1 q1 as1 us1 c] show thesis by (simp add: MAX_TEMPFILE_def)
  qed
  show thesis
  proof (cases "as = []")
    case True
    then have "cq_last q = None" using as(1) by (simp add: queue_inv_def)
    then show thesis by (intro fresh [of w]) (simp_all add: upload_chunk_def d)
  next
    case False
    then obtain as0 l where l: "as = as0 @ [l]" by (metis rev_exhaust)
    then have last: "cq_last q = Some l" using as(1) by (simp add: queue_inv_def)
    obtain c where c: "chunk_at w l = Some c" using chain_mem [of w "cq_first q" as l] as(1) l by (auto simp: queue_inv_def)
    have ps: "ps = pieces w as0 @ [piece_of c]" using as(2) l c by (simp add: pieces_append pieces_single)
    then have up: "upload_piece B (piece_of c)" using d(3) by simp
    then have cf: "ck_type c = FILE_CHUNK" "\<exists>name. ck_file_name c = Some name" "0 \<le> ck_file_length c"
      by (auto simp: upload_piece_def piece_of_def split: chunk_type.splits option.splits)
    show thesis
    proof (cases "ck_is_temp c \<and> ck_offset c = 0")
      case False
      then show thesis using last c cf by (intro fresh [of w]) (auto simp: upload_chunk_def d)
    next
      case temp: True
      show thesis
      proof (cases "ck_file_length c < MAX_TEMPFILE")
        case True
        define c1 where "c1 = (if ck_file_fd c = -1 then c\<lparr>ck_file_fd := os_open os n (c_str (the (ck_file_name c)))\<rparr> else c)"
        define w1 where "w1 = (if ck_file_fd c = -1 then w\<lparr>w_heap := (w_heap w)[l := Some c1]\<rparr> else w)"
        have at: "chunk_at w1 b = (if b = l then Some c1 else chunk_at w b)" for b
          using chunk_put_Some(2) [OF c, of c1 b] c by (cases "ck_file_fd c = -1") (simp_all add: w1_def, simp add: c1_def)
        have c1: "ck_next c1 = ck_next c" "piece_of c1 = piece_of c" "ck_type c1 = FILE_CHUNK" "ck_file_name c1 = ck_file_name c"
          "ck_file_length c1 = ck_file_length c" "ck_file_fd c1 = -1 \<longrightarrow> open_failed os n"
          using cf by (auto simp: c1_def piece_of_def open_failed_def)
        have "upload_chunk os n dst = Some (l, w1, q)"
          using last c cf temp True chunk_put_Some(1) [OF c, of c1] by (auto simp: upload_chunk_def d(1) w1_def c1_def)
        moreover have inv: "queue_inv w1 q (as0 @ [l]) us" "pieces w1 (as0 @ [l]) = ps"
          using change_last [of w q as0 l us c c1 w1] as(1) l c c1 at ps by simp_all
        moreover have "uploads B (w1, q) ps" using inv d(3,4) by (auto simp: uploads_def holds_pieces_def rep_def)
        ultimately show thesis using outcome [of l w1 q as0 us c1] at c1 cf True d(1) by simp
      next
        case False
        obtain w1 where w1: "close_chunk_fd w l c = Some w1"
          "\<forall>b. chunk_at w1 b = (if b = l then Some (c\<lparr>ck_file_fd := -1\<rparr>) else chunk_at w b)" using close_fd_ok [OF c] by blast
        have "queue_inv w1 q (as0 @ [l]) us" "pieces w1 (as0 @ [l]) = ps"
          using change_last [of w q as0 l us c "c\<lparr>ck_file_fd := -1\<rparr>" w1] as(1) l c w1(2) ps cf(1) by (simp_all add: piece_of_def)
        then have "rep w1 q ps" by (auto simp: rep_def)
        then show thesis using last c cf temp False w1(1) d(2) fresh [of w1] fresh [of w]
          by (cases "ck_file_fd c = -1") (auto simp: upload_chunk_def d(1))
      qed
    qed
  qed
qed

lemma store_tempfile_ok:
  assumes "uploads B dst ps" "int (length bytes) \<le> B"
  shows "\<exists>r. store_tempfile os n is_last dst bytes = Some r \<and> (case r of
      Inl dst1 \<Rightarrow> (\<exists>ps1. uploads B dst1 ps1 \<and> sizes ps1 = sizes ps \<and> cq_bytes_in (snd dst1) = cq_bytes_in (snd dst)) \<and>
        (open_failed os n \<or> (\<exists>fd. fd \<noteq> -1 \<and> os_write os n fd bytes \<noteq> int (length bytes)))
    | Inr (dst1, entry) \<Rightarrow> \<exists>ps1 fd. uploads B dst1 ps1 \<and> sizes ps1 = sizes ps + int (length bytes) \<and>
        cq_bytes_in (snd dst1) = cq_bytes_in (snd dst) \<and> entry = [(fd, bytes)] \<and> written os n entry)"
proof -
  have B: "0 \<le> B" using assms(2) by linarith
  obtain a w q as us c where u: "upload_chunk os n dst = Some (a, w, q)" "queue_inv w q (as @ [a]) us" "chunk_at w a = Some c"
    "ck_type c = FILE_CHUNK" "\<exists>name. ck_file_name c = Some name" "0 \<le> ck_file_length c" "ck_file_length c < MAX_TEMPFILE"
    "uploads B (w, q) (pieces w (as @ [a]))" "sizes (pieces w (as @ [a])) = sizes ps" "cq_bytes_in q = cq_bytes_in (snd dst)"
    "ck_file_fd c = -1 \<longrightarrow> open_failed os n"
    using upload_chunk_ok [OF assms(1) B] .
  have p: "pieces w (as @ [a]) = pieces w as @ [piece_of c]" using u(3) by (simp add: pieces_append pieces_single)
  have change: "uploads B (w1, q) (pieces w as @ [piece_of c1])" "sizes (pieces w as @ [piece_of c1]) = sizes ps + k"
    if "\<And>b. chunk_at w1 b = (if b = a then Some c1 else chunk_at w b)" "ck_next c1 = ck_next c" "ck_type c1 = FILE_CHUNK"
      "ck_file_name c1 = ck_file_name c" "ck_file_length c1 = ck_file_length c + k" "0 \<le> k" "k \<le> B" for w1 c1 k
  proof -
    have "queue_inv w1 q (as @ [a]) us" "pieces w1 (as @ [a]) = pieces w as @ [piece_of c1]"
      using change_last [OF u(2,3) that(2,1)] by simp_all
    then have "rep w1 q (pieces w as @ [piece_of c1])" unfolding rep_def by blast
    moreover have "upload_piece B (piece_of c1)" using that u(5-7) by (auto simp: upload_piece_def piece_of_def)
    ultimately show "uploads B (w1, q) (pieces w as @ [piece_of c1])" using u(8) p by (simp add: uploads_def holds_pieces_def)
    show "sizes (pieces w as @ [piece_of c1]) = sizes ps + k" using that(3,5) u(4,9) p by (simp add: chunk_length_def)
  qed
  consider (none) "ck_file_fd c = -1" | (short) "ck_file_fd c \<noteq> -1" "os_write os n (ck_file_fd c) bytes \<noteq> int (length bytes)"
    | (good) "ck_file_fd c \<noteq> -1" "os_write os n (ck_file_fd c) bytes = int (length bytes)" by blast
  then show ?thesis
  proof cases
    case none
    then show ?thesis using u by (auto simp: store_tempfile_def)
  next
    case short
    obtain w1 where w1: "close_chunk_fd w a c = Some w1"
      "\<forall>b. chunk_at w1 b = (if b = a then Some (c\<lparr>ck_file_fd := -1\<rparr>) else chunk_at w b)" using close_fd_ok [OF u(3)] by blast
    from change [of w1 "c\<lparr>ck_file_fd := -1\<rparr>" 0] show ?thesis using short u w1 B by (auto simp: store_tempfile_def)
  next
    case good
    let ?c = "c\<lparr>ck_file_length := ck_file_length c + int (length bytes)\<rparr>"
    obtain w1 where w1: "close_chunk_fd w a ?c = Some w1"
      "\<forall>b. chunk_at w1 b = (if b = a then Some (?c\<lparr>ck_file_fd := -1\<rparr>) else chunk_at w b)" using close_fd_ok [OF u(3)] by blast
    show ?thesis
    proof (cases is_last)
      case True
      from change [of w1 "?c\<lparr>ck_file_fd := -1\<rparr>" "int (length bytes)"] show ?thesis
        using good u(1,3,4,10) w1 assms(2) True by (auto simp: store_tempfile_def)
    next
      case False
      from change [OF chunk_put_Some(2) [OF u(3), of ?c], of "int (length bytes)"] show ?thesis
        using good u(1,3,4,10) chunk_put_Some(1) [OF u(3), of ?c] assms(2) False by (auto simp: store_tempfile_def)
    qed
  qed
qed

text \<open>The loop: \<open>j\<close> octets have been moved, all that is wanted unless the upload was denied.\<close>

lemma post_loop_temp:
  assumes "chain rw p as" "pieces rw as = map mem_piece prs" "distinct as" "uploads B dst ps" "cl > MAX_MEM_BODY"
    and "cq_bytes_in (snd dst) \<le> cl" "list_all (\<lambda>(pre, r). int (length r) \<le> B) prs"
  shows "\<exists>denied rw1 dst1 log1 ps1 j. post_loop os n cl p rw dst log = Some (denied, rw1, dst1, log @ log1) \<and> same_links rw rw1 \<and>
    pieces rw1 as = map mem_piece (take_body j prs) \<and> (\<forall>b. b \<notin> set as \<longrightarrow> chunk_at rw1 b = chunk_at rw b) \<and>
    uploads B dst1 ps1 \<and> sizes ps1 = sizes ps + int j \<and> cq_bytes_in (snd dst1) = cq_bytes_in (snd dst) + int j \<and>
    concat (map snd log1) = take j (rests prs) \<and> j \<le> length (rests prs) \<and> cq_bytes_in (snd dst) + int j \<le> cl \<and>
    written os n log1 \<and> (denied \<longrightarrow> cq_bytes_in (snd dst) + int j < cl \<and> upload_failed os (n + length log1) (drop j (rests prs))) \<and>
    (\<not> denied \<longrightarrow> j = min (nat (cl - cq_bytes_in (snd dst))) (length (rests prs)))"
  using assms
proof (induction as arbitrary: rw p prs dst ps n log)
  case Nil
  then have "p = None" "prs = []" by (simp_all add: pieces_def)
  then have "post_loop os n cl p rw dst log = Some (False, rw, dst, log @ [])" by (subst post_loop.simps) simp
  with Nil \<open>prs = []\<close> show ?case by (intro exI [of _ False] exI [of _ rw] exI [of _ dst] exI [of _ "[]"] exI [of _ ps] exI [of _ 0])
    (simp add: pieces_def)
next
  case (Cons a as)
  then obtain pre r prs' where prs: "prs = (pre, r) # prs'" by (cases prs) (auto simp: pieces_def)
  obtain c where c: "p = Some a" "chunk_at rw a = Some c" "piece_of c = mem_piece (pre, r)"
    using chain_mem_Cons [OF Cons.prems(1), of pre r "map mem_piece prs'"] Cons.prems(2) prs by auto
  let ?bin = "cq_bytes_in (snd dst)"
  show ?case
  proof (cases "?bin = cl")
    case True
    then have "post_loop os n cl p rw dst log = Some (False, rw, dst, log @ [])" using c(1) by (subst post_loop.simps) simp
    with True Cons.prems(2,4) show ?thesis
      by (intro exI [of _ False] exI [of _ rw] exI [of _ dst] exI [of _ "[]"] exI [of _ ps] exI [of _ 0]) simp
  next
    case False
    define k where "k = nat (cl - ?bin)"
    have lt: "?bin < cl" "0 < k" "cl - ?bin = int k" using False Cons.prems(6) by (auto simp: k_def)
    let ?t = "take k r"
    define last where "last = (?bin + int (length ?t) = cl)"
    have "int (length ?t) \<le> B" using Cons.prems(7) prs by (auto simp: min_def)
    from store_tempfile_ok [OF Cons.prems(4) this, of os n last] obtain res where res: "store_tempfile os n last dst ?t = Some res"
      "case res of Inl dst1 \<Rightarrow> (\<exists>ps1. uploads B dst1 ps1 \<and> sizes ps1 = sizes ps \<and> cq_bytes_in (snd dst1) = ?bin) \<and>
          (open_failed os n \<or> (\<exists>fd. fd \<noteq> -1 \<and> os_write os n fd ?t \<noteq> int (length ?t)))
       | Inr (dst1, entry) \<Rightarrow> \<exists>ps1 fd. uploads B dst1 ps1 \<and> sizes ps1 = sizes ps + int (length ?t) \<and>
        cq_bytes_in (snd dst1) = ?bin \<and> entry = [(fd, ?t)] \<and> written os n entry" by blast
    have mem: "ck_mem c = Some (pre @ r)" using c(3) by (simp add: piece_of_mem)
    have body: "post_loop os n cl p rw dst log = (case res of
            Inl dst1 \<Rightarrow> Some (True, rw, dst1, log)
          | Inr (dst1, entry) \<Rightarrow> do {
              rw1 \<leftarrow> chunk_put rw a (c\<lparr>ck_offset := ck_offset c + int (length ?t)\<rparr>);
              post_loop os (Suc n) cl (ck_next c) rw1
                (fst dst1, (snd dst1)\<lparr>cq_bytes_in := cq_bytes_in (snd dst1) + int (length ?t)\<rparr>) (log @ entry)
            })"
      using c(1,2) lt(1) Cons.prems(5) False chunk_rest_mem [OF c(3)] mem res(1)
      by (subst post_loop.simps) (simp add: lt(3) to_read_mem [OF c(3)] mem_read_take Let_def last_def [symmetric] del: length_take)
    show ?thesis
    proof (cases res)
      case (Inl dst1)
      have "rests prs = ?t @ drop k r @ rests prs'" using prs by simp
      then have "os_write os n fd ?t \<noteq> int (length ?t) \<Longrightarrow> fd \<noteq> -1 \<Longrightarrow> upload_failed os n (rests prs)" for fd
        unfolding upload_failed_def by blast
      then have "upload_failed os n (rests prs)" using res(2) Inl unfolding upload_failed_def by auto
      moreover obtain ps1 where "uploads B dst1 ps1" "sizes ps1 = sizes ps" "cq_bytes_in (snd dst1) = ?bin" using res(2) Inl by auto
      moreover have "post_loop os n cl p rw dst log = Some (True, rw, dst1, log @ [])" using body Inl by simp
      ultimately show ?thesis using Cons.prems(2,6) lt(1)
        by (intro exI [of _ True] exI [of _ rw] exI [of _ dst1] exI [of _ "[]"] exI [of _ ps1] exI [of _ 0]) simp
    next
      case (Inr e)
      obtain dst1 entry where e: "e = (dst1, entry)" by (cases e)
      obtain ps1 fd where st: "uploads B dst1 ps1" "sizes ps1 = sizes ps + int (length ?t)" "cq_bytes_in (snd dst1) = ?bin"
        "entry = [(fd, ?t)]" "written os n entry" using res(2) Inr e by auto
      obtain rw1 where ad: "chunk_put rw a (c\<lparr>ck_offset := ck_offset c + int (length ?t)\<rparr>) = Some rw1" "same_links rw rw1"
        "chain rw1 (ck_next c) as" "pieces rw1 as = map mem_piece prs'" "pieces rw1 [a] = [mem_piece (pre @ ?t, drop k r)]"
        "\<forall>b. b \<noteq> a \<longrightarrow> chunk_at rw1 b = chunk_at rw b"
        using advance_chunk [OF Cons.prems(1) _ Cons.prems(3) c(2)] Cons.prems(2) prs by blast
      let ?dst = "(fst dst1, (snd dst1)\<lparr>cq_bytes_in := cq_bytes_in (snd dst1) + int (length ?t)\<rparr>)"
      have d: "uploads B ?dst ps1" using st(1) by (simp add: uploads_def dirs_ok_def)
      have d2: "cq_bytes_in (snd ?dst) = ?bin + int (length ?t)" "?bin + int (length ?t) \<le> cl"
        "nat (cl - (?bin + int (length ?t))) = k - length r" using st(3) lt(3) by simp_all
      have pre: "distinct as" "cq_bytes_in (snd ?dst) \<le> cl" "list_all (\<lambda>(pre, r). int (length r) \<le> B) prs'"
        using Cons.prems(3,7) prs d2(1,2) by simp_all
      obtain denied rw2 dst2 log2 ps2 j where IH: "post_loop os (Suc n) cl (ck_next c) rw1 ?dst (log @ entry) =
          Some (denied, rw2, dst2, (log @ entry) @ log2)" "same_links rw1 rw2" "pieces rw2 as = map mem_piece (take_body j prs')"
        "\<forall>b. b \<notin> set as \<longrightarrow> chunk_at rw2 b = chunk_at rw1 b" "uploads B dst2 ps2" "sizes ps2 = sizes ps1 + int j"
        "cq_bytes_in (snd dst2) = ?bin + int (length ?t) + int j" "concat (map snd log2) = take j (rests prs')"
        "j \<le> length (rests prs')" "?bin + int (length ?t) + int j \<le> cl"
        "written os (Suc n) log2" "denied \<longrightarrow> ?bin + int (length ?t) + int j < cl \<and> upload_failed os (Suc n + length log2) (drop j (rests prs'))"
        "\<not> denied \<longrightarrow> j = min (k - length r) (length (rests prs'))"
        using Cons.IH [OF ad(3,4) pre(1) d Cons.prems(5) pre(2,3), of "Suc n" "log @ entry"] unfolding d2(1) d2(3)
        by (elim exE conjE) (rule that; assumption)
      have j: "k < length r \<Longrightarrow> j = 0" using IH(10) lt(3) by simp
      have J: "take_body (length ?t + j) prs = (pre @ ?t, drop k r) # take_body j prs'"
      proof (cases "k < length r")
        case True
        then show ?thesis using j prs lt(2) by simp
      next
        case False
        then show ?thesis using prs by (cases "length r + j = 0") auto
      qed
      have T: "take (length ?t + j) (rests prs) = ?t @ take j (rests prs')"
        using prs j by (cases "k < length r") auto
      have "post_loop os n cl p rw dst log = Some (denied, rw2, dst2, log @ (entry @ log2))" using body Inr e ad(1) IH(1) by simp
      moreover have "same_links rw rw2" using ad(2) IH(2) by (simp add: same_links_def)
      moreover have "pieces rw2 (a # as) = map mem_piece (take_body (length ?t + j) prs)"
        unfolding J using IH(3,4) ad(5) Cons.prems(3) by (simp add: pieces_def)
      moreover have "concat (map snd (entry @ log2)) = take (length ?t + j) (rests prs)" unfolding T using st(4) IH(8) by simp
      moreover have "length ?t + j \<le> length (rests prs)" using prs IH(9) by simp
      moreover have "\<not> denied \<longrightarrow> length ?t + j = min (nat (cl - ?bin)) (length (rests prs))"
        using IH(13) prs lt(3) by auto
      moreover have "written os n (entry @ log2)" using st(4,5) IH(11) by simp
      moreover have "\<not> k < length r" if denied using IH(12) that lt(3) by auto
      then have "upload_failed os (n + length (entry @ log2)) (drop (length ?t + j) (rests prs))" if denied
        using IH(12) that prs st(4) by auto
      moreover have "?bin + int (length ?t + j) < cl" if denied using IH(12) that by simp
      ultimately show ?thesis using IH(4-7,10) ad(6) st(2)
        by (intro exI [of _ denied] exI [of _ rw2] exI [of _ dst2] exI [of _ "entry @ log2"] exI [of _ ps2] exI [of _ "length ?t + j"])
          (simp del: length_take)
    qed
  qed
qed

section \<open>One call in the body state\<close>

abbreviation body_in :: "conn \<Rightarrow> int" where
  "body_in con \<equiv> cq_bytes_in (snd (c_request_content_queue con))"

lemma rq_rep:
  assumes "holds_pieces s ps"
  obtains w q as us where "s = (w, q)" "queue_inv w q as us" "pieces w as = ps" "chain w (cq_first q) as" "distinct as"
  using assms by (cases s) (auto simp: holds_pieces_def rep_def queue_inv_def)

lemma rq_after:
  assumes "queue_inv w q as us" "same_links w w1" "pieces w1 as = map mem_piece (take_body j prs)" "unread prs"
  obtains rq where "queue_drop (w1, q) = Some rq" "holds_unread rq (dropWhile (\<lambda>(pre, r). r = []) (take_body j prs))"
proof -
  have "rep w1 q (map mem_piece (take_body j prs))" using assms(1-3) same_links_inv unfolding rep_def by blast
  from remove_finished_rep [OF this] show thesis
    using that take_body_unread [OF assms(4), of j] by (auto simp: drop_consumed queue_drop_def holds_unread_def holds_pieces_def)
qed

lemma read_post_small:
  assumes "holds_pieces (c_read_queue con) (map mem_piece prs)" "unread prs" "holds_pieces (c_request_content_queue con) ps"
    and "int (content_length_of con) \<le> MAX_MEM_BODY" "body_in con \<le> int (content_length_of con)"
  defines "k \<equiv> nat (int (content_length_of con) - body_in con)"
  obtains con1 rq where "read_post os con = Some (con1, [])" "queue_drop (c_read_queue con1) = Some rq"
    "holds_unread rq (dropWhile (\<lambda>(pre, r). r = []) (take_body k prs))"
    "holds_pieces (c_request_content_queue con1) (ps @ map (\<lambda>s. PMem (Some s) 0) (body_parts k (map snd prs)))"
    "body_in con1 = min (int (content_length_of con)) (body_in con + int (length (rests prs)))" "c_core con1 = c_core con"
    "c_conf con1 = c_conf con"
    "c_state con1 = (if k \<le> length (rests prs) then CON_STATE_HANDLE_REQUEST else c_state con)"
proof -
  obtain w q as us where rq: "c_read_queue con = (w, q)" "queue_inv w q as us" "pieces w as = map mem_piece prs"
    "chain w (cq_first q) as" "distinct as" using rq_rep [OF assms(1)] .
  obtain rw1 dst1 where l: "post_loop os 0 (int (content_length_of con)) (cq_first q) w (c_request_content_queue con) [] = Some (False, rw1, dst1, [])"
    "same_links w rw1" "pieces rw1 as = map mem_piece (take_body k prs)"
    "holds_pieces dst1 (ps @ map (\<lambda>s. PMem (Some s) 0) (body_parts k (map snd prs)))"
    "cq_bytes_in (snd dst1) = min (int (content_length_of con)) (body_in con + int (length (rests prs)))"
    using post_loop_mem [OF rq(4,3,5) assms(3,4,5), of os 0 "[]"] unfolding k_def by auto
  obtain rq1 where r: "queue_drop (rw1, q) = Some rq1" "holds_unread rq1 (dropWhile (\<lambda>(pre, r). r = []) (take_body k prs))"
    using rq_after [OF rq(2) l(2,3) assms(2)] .
  define con1 where "con1 = con\<lparr>c_read_queue := (rw1, q), c_request_content_queue := dst1\<rparr>"
  define con2 where "con2 = (if k \<le> length (rests prs) then connection_set_state con1 CON_STATE_HANDLE_REQUEST else con1)"
  have "cq_bytes_in (snd dst1) = int (content_length_of con) \<longleftrightarrow> k \<le> length (rests prs)"
    using l(5) assms(5) by (auto simp: k_def)
  then have "read_post os con = Some (con2, [])" using l(1) rq(1) by (simp add: read_post_def con2_def con1_def Let_def)
  moreover have "c_read_queue con2 = (rw1, q)" "c_request_content_queue con2 = dst1" "c_core con2 = c_core con"
    "c_conf con2 = c_conf con" "c_state con2 = (if k \<le> length (rests prs) then CON_STATE_HANDLE_REQUEST else c_state con)"
    by (simp_all add: con2_def con1_def connection_set_state_def)
  ultimately show thesis using that [of con2 rq1] l r by simp
qed

lemma read_post_large:
  assumes "holds_pieces (c_read_queue con) (map mem_piece prs)" "unread prs" "uploads B (c_request_content_queue con) ps"
    and "int (content_length_of con) > MAX_MEM_BODY" "body_in con \<le> int (content_length_of con)"
    and "list_all (\<lambda>(pre, r). int (length r) \<le> B) prs"
  defines "k \<equiv> nat (int (content_length_of con) - body_in con)"
  obtains con1 rq log ps1 j where "read_post os con = Some (con1, log)" "queue_drop (c_read_queue con1) = Some rq"
    "holds_unread rq (dropWhile (\<lambda>(pre, r). r = []) (take_body j prs))" "uploads B (c_request_content_queue con1) ps1"
    "sizes ps1 = sizes ps + int j" "body_in con1 = body_in con + int j" "concat (map snd log) = take j (rests prs)"
    "j \<le> k" "j \<le> length (rests prs)"
    "(c_core con1 = c_core con \<and> j = min k (length (rests prs)) \<and>
        c_state con1 = (if j = k then CON_STATE_HANDLE_REQUEST else c_state con)) \<or>
     (http_status_of con1 = 413 \<and> \<not> keep_alive_of con1 \<and> c_state con1 = CON_STATE_HANDLE_REQUEST \<and> j < k \<and>
        upload_failed os (length log) (drop j (rests prs)))" "written os 0 log"
proof -
  obtain w q as us where rq: "c_read_queue con = (w, q)" "queue_inv w q as us" "pieces w as = map mem_piece prs"
    "chain w (cq_first q) as" "distinct as" using rq_rep [OF assms(1)] .
  obtain denied rw1 dst1 log ps1 j where l:
    "post_loop os 0 (int (content_length_of con)) (cq_first q) w (c_request_content_queue con) [] = Some (denied, rw1, dst1, log)"
    "same_links w rw1" "pieces rw1 as = map mem_piece (take_body j prs)" "uploads B dst1 ps1" "sizes ps1 = sizes ps + int j"
    "cq_bytes_in (snd dst1) = body_in con + int j" "concat (map snd log) = take j (rests prs)" "j \<le> length (rests prs)"
    "body_in con + int j \<le> int (content_length_of con)" "written os 0 log"
    "denied \<longrightarrow> body_in con + int j < int (content_length_of con) \<and> upload_failed os (length log) (drop j (rests prs))" "\<not> denied \<longrightarrow> j = min k (length (rests prs))"
    using post_loop_temp [OF rq(4,3,5) assms(3,4,5,6), of os 0 "[]"] unfolding k_def append_Nil add_0 by blast
  obtain rq1 where r: "queue_drop (rw1, q) = Some rq1" "holds_unread rq1 (dropWhile (\<lambda>(pre, r). r = []) (take_body j prs))"
    using rq_after [OF rq(2) l(2,3) assms(2)] .
  define con1 where "con1 = con\<lparr>c_read_queue := (rw1, q), c_request_content_queue := dst1\<rparr>"
  define con2 where "con2 = (if denied then connection_set_state (no_keep_alive (set_status 413 con1)) CON_STATE_HANDLE_REQUEST else con1)"
  define con3 where "con3 = (if j = k then connection_set_state con2 CON_STATE_HANDLE_REQUEST else con2)"
  have "cq_bytes_in (snd dst1) = int (content_length_of con) \<longleftrightarrow> j = k" using l(6) assms(5) by (auto simp: k_def)
  then have "read_post os con = Some (con3, log)"
    using l(1) rq(1) by (simp add: read_post_def con3_def con2_def con1_def Let_def)
  moreover have "c_read_queue con3 = (rw1, q)" "c_request_content_queue con3 = dst1"
    by (simp_all add: con3_def con2_def con1_def connection_set_state_def)
  moreover have "j \<le> k" using l(9) by (simp add: k_def)
  moreover have "denied \<Longrightarrow> http_status_of con3 = 413 \<and> \<not> keep_alive_of con3 \<and> c_state con3 = CON_STATE_HANDLE_REQUEST"
    "\<not> denied \<Longrightarrow> c_core con3 = c_core con \<and> c_state con3 = (if j = k then CON_STATE_HANDLE_REQUEST else c_state con)"
    by (simp_all add: con3_def con2_def con1_def connection_set_state_def)
  moreover have "j < k" if denied
  proof -
    have "body_in con + int j < int (content_length_of con)" using l(11) that by blast
    then show ?thesis unfolding k_def by linarith
  qed
  ultimately show thesis using that [of con3 log rq1 j ps1] l r by (cases denied) simp_all
qed

text \<open>A connection that waits for the body: \<open>prs\<close> is in the read queue.\<close>

definition posting :: "conn \<Rightarrow> (string \<times> string) list \<Rightarrow> bool" where
  "posting con prs = (c_state con = CON_STATE_READ_POST \<and> \<not> cf_is_ssl (c_conf con) \<and> holds_unread (c_read_queue con) prs)"

lemma post_state_eq:
  assumes "posting con prs" "c_is_readable con" "s \<noteq> []"
  obtains con2 where "holds_pieces (c_read_queue con2) (map mem_piece (prs @ [([], s)]))" "unread (prs @ [([], s)])"
    "c_core con2 = c_core con" "c_request_content_queue con2 = c_request_content_queue con" "c_conf con2 = c_conf con"
    "c_state con2 = CON_STATE_READ_POST"
    "\<forall>con3 log rq. read_post os con2 = Some (con3, log) \<longrightarrow> queue_drop (c_read_queue con3) = Some rq \<longrightarrow>
      connection_handle_read_state os cur (Read_bytes s full) con = Some (0, con3\<lparr>c_read_queue := rq\<rparr>, log)"
proof -
  let ?con = "con\<lparr>c_read_idle_ts := cur\<rparr>" and ?ans = "Read_bytes s full"
  have h: "holds_pieces (c_read_queue ?con) (map mem_piece prs)" "\<not> cf_is_ssl (c_conf ?con)" "c_state con = CON_STATE_READ_POST"
    "unread prs" using assms(1) by (auto simp: posting_def holds_unread_def)
  have arr: "arrived ?ans = [([], s)]" using assms(3) by simp
  obtain rqa rqb r b n where rd: "connection_handle_read ?ans ?con =
      Some (r, ?con\<lparr>c_read_queue := rqa, c_is_readable := b, c_bytes_read := n\<rparr>)"
    "purge_loop (fst rqa) (snd rqa) (cq_first (snd rqa)) = Some rqb" "holds_pieces rqb (map mem_piece (prs @ arrived ?ans))"
    "r = (if \<exists>full'. ?ans = Read_bytes [] full' then -2 else 0)"
    by (rule handle_read_ok [OF h(1,2), of ?ans]) simp_all
  have r: "r = 0" using rd(4) assms(3) by auto
  let ?con1 = "?con\<lparr>c_read_queue := rqa, c_is_readable := b, c_bytes_read := n\<rparr>"
  let ?con2 = "?con1\<lparr>c_read_queue := rqb\<rparr>"
  have eq: "connection_handle_read_state os cur ?ans con = Some (0, con3\<lparr>c_read_queue := rq\<rparr>, log)"
    if "read_post os ?con2 = Some (con3, log)" "queue_drop (c_read_queue con3) = Some rq" for con3 log rq
  proof -
    have "purge_loop (fst (c_read_queue ?con1)) (snd (c_read_queue ?con1)) (cq_first (snd (c_read_queue ?con1))) = Some rqb"
      using rd(2) by simp
    from read_post_eq [OF assms(2) h(3) _ rd(1) this that] r show ?thesis by simp
  qed
  show thesis by (rule that [of ?con2]) (use rd(3) arr unread_arrived [OF h(4), of ?ans] h(3) eq in auto)
qed

lemma small_step:
  assumes "posting con prs" "c_is_readable con" "s \<noteq> []" "holds_pieces (c_request_content_queue con) ps"
    and "int (content_length_of con) \<le> MAX_MEM_BODY" "body_in con \<le> int (content_length_of con)"
  defines "k \<equiv> nat (int (content_length_of con) - body_in con)"
  obtains con1 prs1 where "connection_handle_read_state os cur (Read_bytes s full) con = Some (0, con1, [])"
    "holds_unread (c_read_queue con1) prs1" "rests prs1 = drop k (rests prs @ s)"
    "holds_pieces (c_request_content_queue con1) (ps @ map (\<lambda>s. PMem (Some s) 0) (body_parts k (map snd (prs @ [([], s)]))))"
    "body_in con1 = min (int (content_length_of con)) (body_in con + int (length (rests prs @ s)))" "c_core con1 = c_core con"
    "c_conf con1 = c_conf con"
    "c_state con1 = (if k \<le> length (rests prs @ s) then CON_STATE_HANDLE_REQUEST else CON_STATE_READ_POST)"
proof -
  obtain con2 where c2: "holds_pieces (c_read_queue con2) (map mem_piece (prs @ [([], s)]))" "unread (prs @ [([], s)])"
    "c_core con2 = c_core con" "c_request_content_queue con2 = c_request_content_queue con" "c_conf con2 = c_conf con"
    "c_state con2 = CON_STATE_READ_POST"
    "\<forall>con3 log rq. read_post os con2 = Some (con3, log) \<longrightarrow> queue_drop (c_read_queue con3) = Some rq \<longrightarrow>
      connection_handle_read_state os cur (Read_bytes s full) con = Some (0, con3\<lparr>c_read_queue := rq\<rparr>, log)"
    using post_state_eq [OF assms(1-3)] .
  have small: "int (content_length_of con2) \<le> MAX_MEM_BODY" "body_in con2 \<le> int (content_length_of con2)"
    "holds_pieces (c_request_content_queue con2) ps" using assms(4-6) c2 by simp_all
  obtain con3 rq where c3: "read_post os con2 = Some (con3, [])" "queue_drop (c_read_queue con3) = Some rq"
    "holds_unread rq (dropWhile (\<lambda>(pre, r). r = []) (take_body k (prs @ [([], s)])))"
    "holds_pieces (c_request_content_queue con3) (ps @ map (\<lambda>s. PMem (Some s) 0) (body_parts k (map snd (prs @ [([], s)]))))"
    "body_in con3 = min (int (content_length_of con2)) (body_in con2 + int (length (rests (prs @ [([], s)]))))"
    "c_core con3 = c_core con2" "c_conf con3 = c_conf con2"
    "c_state con3 = (if k \<le> length (rests (prs @ [([], s)])) then CON_STATE_HANDLE_REQUEST else c_state con2)"
    by (rule read_post_small [OF c2(1,2) small(3,1,2), of os]) (simp only: k_def c2(3,4))
  have eq: "connection_handle_read_state os cur (Read_bytes s full) con = Some (0, con3\<lparr>c_read_queue := rq\<rparr>, [])"
    using c2(7) c3(1,2) by blast
  show thesis
    by (rule that [of "con3\<lparr>c_read_queue := rq\<rparr>" "dropWhile (\<lambda>(pre, r). r = []) (take_body k (prs @ [([], s)]))", OF eq])
      (use c2(3-6) c3(3-) in \<open>simp_all add: rests_drop take_body_rests\<close>)
qed

lemma unread_nothing: "unread prs \<Longrightarrow> rests prs = [] \<Longrightarrow> prs = []"
  by (cases prs) (auto simp: unread_def)

lemma feed_body:
  assumes "posting con prs" "holds_pieces (c_request_content_queue con) (map (\<lambda>s. PMem (Some s) 0) parts)"
    and "body_in con = int (length (concat parts))" "int (content_length_of con) \<le> MAX_MEM_BODY" "ss \<noteq> []" "[] \<notin> set ss"
    and "length (concat parts @ rests prs @ concat (butlast ss)) < content_length_of con"
    and "content_length_of con \<le> length (concat parts @ rests prs @ concat ss)"
  shows "\<exists>con1 prs1 parts1. feed os cur ss con = Some con1 \<and> c_state con1 = CON_STATE_HANDLE_REQUEST \<and> c_core con1 = c_core con \<and>
    holds_pieces (c_request_content_queue con1) (map (\<lambda>s. PMem (Some s) 0) parts1) \<and>
    concat parts1 = take (content_length_of con) (concat parts @ rests prs @ concat ss) \<and>
    holds_unread (c_read_queue con1) prs1 \<and> rests prs1 = drop (content_length_of con) (concat parts @ rests prs @ concat ss)"
  using assms
proof (induction ss arbitrary: con prs parts)
  case (Cons s ss)
  let ?con = "con\<lparr>c_is_readable := True\<rparr>"
  have p: "posting ?con prs" "c_is_readable ?con" "s \<noteq> []" "holds_pieces (c_request_content_queue ?con) (map (\<lambda>s. PMem (Some s) 0) parts)"
    "int (content_length_of ?con) \<le> MAX_MEM_BODY" "body_in ?con \<le> int (content_length_of ?con)"
    using Cons.prems by (auto simp: posting_def)
  define k where "k = content_length_of con - length (concat parts)"
  have k: "nat (int (content_length_of ?con) - body_in ?con) = k" "content_length_of con = length (concat parts) + k"
    using Cons.prems(3,7) by (simp_all add: k_def)
  let ?new = "body_parts k (map snd (prs @ [([], s)]))"
  obtain con1 prs1 where c1: "connection_handle_read_state os cur (Read_bytes s False) ?con = Some (0, con1, [])"
    "holds_unread (c_read_queue con1) prs1" "rests prs1 = drop k (rests prs @ s)"
    "holds_pieces (c_request_content_queue con1) (map (\<lambda>s. PMem (Some s) 0) (parts @ ?new))"
    "body_in con1 = min (int (content_length_of con)) (body_in con + int (length (rests prs @ s)))" "c_core con1 = c_core con"
    "c_conf con1 = c_conf con"
    "c_state con1 = (if k \<le> length (rests prs @ s) then CON_STATE_HANDLE_REQUEST else CON_STATE_READ_POST)"
    using small_step [OF p, of os cur False] unfolding k(1) by auto
  have new: "concat ?new = take k (rests prs @ s)" by (simp add: body_parts_concat rests_def)
  show ?case
  proof (cases "ss = []")
    case True
    then have "k \<le> length (rests prs @ s)" using Cons.prems(8) k(2) by simp
    then show ?thesis using c1 True new k(2) Cons.prems(1)
      by (intro exI [of _ con1] exI [of _ prs1] exI [of _ "parts @ ?new"]) (simp add: posting_def)
  next
    case False
    then have lt: "\<not> k \<le> length (rests prs @ s)" using Cons.prems(7) k(2) by simp
    then have st: "c_state con1 = CON_STATE_READ_POST" "prs1 = []"
      using c1(2,3,8) unread_nothing [of prs1] by (auto simp: holds_unread_def)
    have parts: "concat (parts @ ?new) = concat parts @ rests prs @ s" using new lt by simp
    have "posting con1 []" using c1(2,7) st p(1) by (simp add: posting_def)
    moreover have "body_in con1 = int (length (concat (parts @ ?new)))"
      unfolding parts using c1(5) lt k(2) Cons.prems(3) by simp
    ultimately have "\<exists>con2 prs2 parts2. feed os cur ss con1 = Some con2 \<and> c_state con2 = CON_STATE_HANDLE_REQUEST \<and> c_core con2 = c_core con1 \<and>
      holds_pieces (c_request_content_queue con2) (map (\<lambda>s. PMem (Some s) 0) parts2) \<and>
      concat parts2 = take (content_length_of con1) (concat (parts @ ?new) @ rests [] @ concat ss) \<and>
      holds_unread (c_read_queue con2) prs2 \<and> rests prs2 = drop (content_length_of con1) (concat (parts @ ?new) @ rests [] @ concat ss)"
      using Cons.prems False c1(6) by (intro Cons.IH [OF _ c1(4)]) (simp_all only: parts, simp_all)
    then show ?thesis unfolding parts using c1(1,6) st Cons.prems(1) by (simp add: posting_def)
  qed
qed simp

section \<open>Properties\<close>

definition sample_post :: "nat \<Rightarrow> conn" where
  "sample_post n = sample_conn\<lparr>c_state := CON_STATE_READ_POST, c_is_readable := True,
     c_core := (c_core sample_conn)\<lparr>co_request := request_init\<lparr>rq_content_length := n\<rparr>\<rparr>\<rparr>"

lemma sample_post_simps [simp]: "content_length_of (sample_post n) = n" "c_is_readable (sample_post n)"
  by (simp_all add: sample_post_def)

lemma sample_posting: "posting (sample_post n) []" "holds_pieces (c_request_content_queue (sample_post n)) []"
  "body_in (sample_post n) = 0" "dirs_ok (snd (c_request_content_queue (sample_post n)))"
proof -
  have q: "c_request_content_queue (sample_post n) = (empty_world, chunkqueue_init)"
    by (simp add: sample_post_def sample_conn_def connection_init_def chunkqueue_set_tempdirs_def chunkqueue_init_def)
  show "posting (sample_post n) []" using sample_waiting by (simp add: sample_post_def posting_def waiting_def)
  show "holds_pieces (c_request_content_queue (sample_post n)) []" unfolding q by (rule holds_init)
  show "body_in (sample_post n) = 0" "dirs_ok (snd (c_request_content_queue (sample_post n)))"
    unfolding q by (simp_all add: chunkqueue_init_def dirs_ok_def)
qed

text \<open>C13. A body of at most 64 KiB that arrives in several packets is put together in memory: when the packets have
  brought \<open>content_length\<close> octets the request is handled, the pieces of the content queue are the first
  \<open>content_length\<close> octets behind the header in their order, and what is behind them stays in the read queue, for the
  next request of the client.\<close>

theorem body_from_packets:
  assumes "posting con prs" "holds_pieces (c_request_content_queue con) []" "body_in con = 0"
    and "int (content_length_of con) \<le> MAX_MEM_BODY" "ss \<noteq> []" "[] \<notin> set ss"
    and "length (rests prs @ concat (butlast ss)) < content_length_of con" "content_length_of con \<le> length (rests prs @ concat ss)"
  shows "\<exists>con1 prs1 parts. feed os cur ss con = Some con1 \<and> c_state con1 = CON_STATE_HANDLE_REQUEST \<and> c_core con1 = c_core con \<and>
    holds_pieces (c_request_content_queue con1) (map (\<lambda>s. PMem (Some s) 0) parts) \<and>
    concat parts = take (content_length_of con) (rests prs @ concat ss) \<and>
    holds_unread (c_read_queue con1) prs1 \<and> rests prs1 = drop (content_length_of con) (rests prs @ concat ss)"
  using feed_body [OF assms(1), of "[]" ss os cur] assms(2-) by simp

theorem body_from_packets_witness:
  "\<exists>con1 prs1 parts. feed sample_os 0 [''user='', ''me&x=1'' @ ''GET / ''] (sample_post 11) = Some con1 \<and>
    c_state con1 = CON_STATE_HANDLE_REQUEST \<and>
    holds_pieces (c_request_content_queue con1) (map (\<lambda>s. PMem (Some s) 0) parts) \<and> concat parts = ''user=me&x=1'' \<and>
    holds_unread (c_read_queue con1) prs1 \<and> rests prs1 = ''GET / ''"
  using body_from_packets [OF sample_posting(1,2,3), of 11 "[''user='', ''me&x=1'' @ ''GET / '']" sample_os 0]
  by (auto simp: MAX_MEM_BODY_def simp del: feed.simps)

text \<open>C14. A body of more than 64 KiB goes to temporary files, and a packet is never lost or stored twice: of the octets in
  the read queue the first \<open>j\<close> are written, in order, the others stay, and the lengths of the files grow by \<open>j\<close> like the
  counter of the queue. No file is longer than 1 MiB and one packet. Either everything that is wanted was taken, and the
  request is handled when the body is complete; or the body is not complete, and in the call after the last successful write
  no file could be opened or \<open>write\<close> did not take all of the octets that come next, and the answer is 413 on a connection
  that will be closed. Every write that is counted took all its octets. The calls of the operating system are arbitrary; a packet has at most
  \<open>B\<close> octets, the queue of the body holds named files, and the configured directories for them are strings.\<close>

theorem upload_conserved:
  assumes "posting con prs" "c_is_readable con" "s \<noteq> []" "uploads B (c_request_content_queue con) ps"
    and "int (content_length_of con) > MAX_MEM_BODY" "body_in con \<le> int (content_length_of con)"
    and "list_all (\<lambda>(pre, r). int (length r) \<le> B) prs" "int (length s) \<le> B"
  shows "\<exists>con1 log ps1 prs1 j. connection_handle_read_state os cur (Read_bytes s full) con = Some (0, con1, log) \<and>
    concat (map snd log) = take j (rests prs @ s) \<and> j \<le> length (rests prs @ s) \<and>
    holds_unread (c_read_queue con1) prs1 \<and> rests prs1 = drop j (rests prs @ s) \<and>
    uploads B (c_request_content_queue con1) ps1 \<and> sizes ps1 = sizes ps + int j \<and> body_in con1 = body_in con + int j \<and>
    body_in con1 \<le> int (content_length_of con) \<and>
    ((c_core con1 = c_core con \<and> j = min (nat (int (content_length_of con) - body_in con)) (length (rests prs @ s)) \<and>
        c_state con1 = (if body_in con1 = int (content_length_of con) then CON_STATE_HANDLE_REQUEST else CON_STATE_READ_POST)) \<or>
     (http_status_of con1 = 413 \<and> \<not> keep_alive_of con1 \<and> c_state con1 = CON_STATE_HANDLE_REQUEST \<and>
        body_in con1 < int (content_length_of con) \<and> upload_failed os (length log) (drop j (rests prs @ s)))) \<and>
    written os 0 log"
proof -
  obtain con2 where c2: "holds_pieces (c_read_queue con2) (map mem_piece (prs @ [([], s)]))" "unread (prs @ [([], s)])"
    "c_core con2 = c_core con" "c_request_content_queue con2 = c_request_content_queue con" "c_conf con2 = c_conf con"
    "c_state con2 = CON_STATE_READ_POST"
    "\<forall>con3 log rq. read_post os con2 = Some (con3, log) \<longrightarrow> queue_drop (c_read_queue con3) = Some rq \<longrightarrow>
      connection_handle_read_state os cur (Read_bytes s full) con = Some (0, con3\<lparr>c_read_queue := rq\<rparr>, log)"
    using post_state_eq [OF assms(1-3)] .
  have large: "int (content_length_of con2) > MAX_MEM_BODY" "body_in con2 \<le> int (content_length_of con2)"
    "uploads B (c_request_content_queue con2) ps" "list_all (\<lambda>(pre, r). int (length r) \<le> B) (prs @ [([], s)])"
    using assms(4-8) c2 by simp_all
  let ?prs1 = "\<lambda>j. dropWhile (\<lambda>(pre, r). r = []) (take_body j (prs @ [([], s)]))"
  obtain con3 rq log ps1 j where c3: "read_post os con2 = Some (con3, log)" "queue_drop (c_read_queue con3) = Some rq"
    "holds_unread rq (?prs1 j)" "uploads B (c_request_content_queue con3) ps1"
    "sizes ps1 = sizes ps + int j" "body_in con3 = body_in con2 + int j" "concat (map snd log) = take j (rests (prs @ [([], s)]))"
    "j \<le> nat (int (content_length_of con2) - body_in con2)" "j \<le> length (rests (prs @ [([], s)]))"
    "(c_core con3 = c_core con2 \<and> j = min (nat (int (content_length_of con2) - body_in con2)) (length (rests (prs @ [([], s)]))) \<and>
        c_state con3 = (if j = nat (int (content_length_of con2) - body_in con2) then CON_STATE_HANDLE_REQUEST else c_state con2)) \<or>
     (http_status_of con3 = 413 \<and> \<not> keep_alive_of con3 \<and> c_state con3 = CON_STATE_HANDLE_REQUEST \<and>
        j < nat (int (content_length_of con2) - body_in con2) \<and> upload_failed os (length log) (drop j (rests (prs @ [([], s)]))))"
    "written os 0 log"
    using read_post_large [OF c2(1,2) large(3,1,2,4), of os] .
  have eq: "connection_handle_read_state os cur (Read_bytes s full) con = Some (0, con3\<lparr>c_read_queue := rq\<rparr>, log)"
    using c2(7) c3(1,2) by blast
  have whole: "body_in con3 = int (content_length_of con) \<longleftrightarrow> j = nat (int (content_length_of con) - body_in con)"
    using c3(6) c2(3,4) assms(6) by auto
  have rst: "rests (prs @ [([], s)]) = rests prs @ s" by (simp add: rests_def)
  note c3 = c3 [unfolded c2(3,4,6) rst]
  let ?con1 = "con3\<lparr>c_read_queue := rq\<rparr>"
  from c3(10) have "(c_core ?con1 = c_core con \<and> j = min (nat (int (content_length_of con) - body_in con)) (length (rests prs @ s)) \<and>
        c_state ?con1 = (if body_in ?con1 = int (content_length_of con) then CON_STATE_HANDLE_REQUEST else CON_STATE_READ_POST)) \<or>
     (http_status_of ?con1 = 413 \<and> \<not> keep_alive_of ?con1 \<and> c_state ?con1 = CON_STATE_HANDLE_REQUEST \<and>
        body_in ?con1 < int (content_length_of con) \<and> upload_failed os (length log) (drop j (rests prs @ s)))"
  proof (elim disjE conjE, goal_cases)
    case 1
    then show ?thesis using whole by simp
  next
    case 2
    have "body_in con3 < int (content_length_of con)" using 2(4) c3(6) by linarith
    with 2 show ?thesis by simp
  qed
  moreover have "rests (?prs1 j) = drop j (rests prs @ s)" by (simp only: rests_drop take_body_rests rst)
  moreover have "body_in ?con1 \<le> int (content_length_of con)" using c3(6,8) assms(6) by simp
  moreover have "holds_unread (c_read_queue ?con1) (?prs1 j)" "uploads B (c_request_content_queue ?con1) ps1" "body_in ?con1 = body_in con + int j"
    using c3(3,4,6) by simp_all
  ultimately show ?thesis using eq c3(5,7,9,11) by blast
qed

theorem upload_conserved_witness:
  "\<exists>con1 log ps1 prs1 j. connection_handle_read_state sample_os 0 (Read_bytes ''file'' True) (sample_post 100000) = Some (0, con1, log) \<and>
    concat (map snd log) = take j ''file'' \<and> j \<le> 4 \<and>
    holds_unread (c_read_queue con1) prs1 \<and> rests prs1 = drop j ''file'' \<and>
    uploads 100 (c_request_content_queue con1) ps1 \<and> sizes ps1 = int j \<and> body_in con1 = int j"
proof -
  have "uploads 100 (c_request_content_queue (sample_post 100000)) []" using sample_posting by (simp add: uploads_def)
  from upload_conserved [OF sample_posting(1) _ _ this, of "''file''" sample_os 0 True] sample_posting(3) show ?thesis
    by (fastforce simp: MAX_MEM_BODY_def)
qed

end
