(* ===== verification/Fdevent.thy ===== *)
theory Fdevent
  imports Prelude
begin

text \<open>
  The table of event handlers of \<open>fdevent.c\<close>, its back ends for \<open>select\<close> (\<open>fdevent_select.c\<close>, the only one
  \<open>fdevent_init\<close> accepts) and for \<open>poll\<close> (\<open>fdevent_poll.c\<close>), and the loop of \<open>server.c\<close> that hands the events to the handlers.
  A client keeps a number \<open>fde_ndx\<close> for each descriptor, which the back end gives it and which is -1 while the descriptor is
  not watched. The system call \<open>select\<close> is a parameter: it maps the number of descriptors and the three sets to a
  result and three sets. An \<open>fd_set\<close> is the set of its members; the macros are undefined outside of \<open>FD_SETSIZE\<close>.

  The locale says what a back end promises to its clients; both back ends are instances of it, so each of them is a map from
  descriptors to events. The lemmas on the loop show that every ready descriptor is handled once, in ascending order, if
  the number of events is the number of ready descriptors, and what happens if it is not.
\<close>

section \<open>Data\<close>

datatype fdevent_handler_t =
  FDEVENT_HANDLER_UNSET | FDEVENT_HANDLER_SELECT | FDEVENT_HANDLER_POLL | FDEVENT_HANDLER_LINUX_RTSIG |
  FDEVENT_HANDLER_LINUX_SYSEPOLL | FDEVENT_HANDLER_SOLARIS_DEVPOLL | FDEVENT_HANDLER_FREEBSD_KQUEUE | FDEVENT_HANDLER_SOLARIS_PORT

definition FDEVENT_IN :: nat where "FDEVENT_IN = 1"
definition FDEVENT_OUT :: nat where "FDEVENT_OUT = 4"
definition FDEVENT_ERR :: nat where "FDEVENT_ERR = 8"
definition FDEVENT_HUP :: nat where "FDEVENT_HUP = 16"
definition FDEVENT_NVAL :: nat where "FDEVENT_NVAL = 32"

definition bits :: "nat \<Rightarrow> nat \<Rightarrow> bool" where
  "bits events ev = (events AND ev \<noteq> 0)"

type_synonym fd_set = "int set"

definition FD_SETSIZE :: int where "FD_SETSIZE = 1024"

definition FD_SET :: "int \<Rightarrow> fd_set \<Rightarrow> fd_set option" where
  "FD_SET fd s = (if 0 \<le> fd \<and> fd < FD_SETSIZE then Some (insert fd s) else None)"

definition FD_CLR :: "int \<Rightarrow> fd_set \<Rightarrow> fd_set option" where
  "FD_CLR fd s = (if 0 \<le> fd \<and> fd < FD_SETSIZE then Some (s - {fd}) else None)"

definition FD_ISSET :: "int \<Rightarrow> fd_set \<Rightarrow> bool option" where
  "FD_ISSET fd s = (if 0 \<le> fd \<and> fd < FD_SETSIZE then Some (fd \<in> s) else None)"

record ('h, 'c) fdnode =
  fn_handler :: 'h
  fn_ctx :: 'c
  fn_fd :: int

text \<open>The function pointers of the structure are set together, by the initialisation of the back end; \<open>ev_type\<close> tells
  which one it was.\<close>

record ('h, 'c) fdevents =
  ev_type :: fdevent_handler_t
  ev_fdarray :: "('h, 'c) fdnode option list"
  ev_maxfds :: nat
  ev_select_read :: fd_set
  ev_select_write :: fd_set
  ev_select_error :: fd_set
  ev_select_set_read :: fd_set
  ev_select_set_write :: fd_set
  ev_select_set_error :: fd_set
  ev_select_max_fd :: int

type_synonym select_call = "int \<Rightarrow> fd_set \<Rightarrow> fd_set \<Rightarrow> fd_set \<Rightarrow> int \<times> fd_set \<times> fd_set \<times> fd_set"

section \<open>The back end for select\<close>

definition fdevent_select_reset :: "('h, 'c) fdevents \<Rightarrow> ('h, 'c) fdevents" where
  "fdevent_select_reset ev = ev\<lparr>ev_select_set_read := {}, ev_select_set_write := {}, ev_select_set_error := {}, ev_select_max_fd := -1\<rparr>"

definition fdevent_select_event_del :: "('h, 'c) fdevents \<Rightarrow> int \<Rightarrow> int \<Rightarrow> (('h, 'c) fdevents \<times> int) option" where
  "fdevent_select_event_del ev fde_ndx fd =
     (if fde_ndx < 0 then Some (ev, -1)
      else do {
        r \<leftarrow> FD_CLR fd (ev_select_set_read ev);
        w \<leftarrow> FD_CLR fd (ev_select_set_write ev);
        e \<leftarrow> FD_CLR fd (ev_select_set_error ev);
        Some (ev\<lparr>ev_select_set_read := r, ev_select_set_write := w, ev_select_set_error := e\<rparr>, -1)
      })"

definition fdevent_select_event_add :: "('h, 'c) fdevents \<Rightarrow> int \<Rightarrow> int \<Rightarrow> nat \<Rightarrow> (('h, 'c) fdevents \<times> int) option" where
  "fdevent_select_event_add ev fde_ndx fd events =
     (if \<not> fd < FD_SETSIZE then None
      else do {
        ev1 \<leftarrow> (if bits events FDEVENT_IN then do {
            r \<leftarrow> FD_SET fd (ev_select_set_read ev);
            w \<leftarrow> FD_CLR fd (ev_select_set_write ev);
            Some (ev\<lparr>ev_select_set_read := r, ev_select_set_write := w\<rparr>)
          } else Some ev);
        ev2 \<leftarrow> (if bits events FDEVENT_OUT then do {
            r \<leftarrow> FD_CLR fd (ev_select_set_read ev1);
            w \<leftarrow> FD_SET fd (ev_select_set_write ev1);
            Some (ev1\<lparr>ev_select_set_read := r, ev_select_set_write := w\<rparr>)
          } else Some ev1);
        e \<leftarrow> FD_SET fd (ev_select_set_error ev2);
        let ev3 = ev2\<lparr>ev_select_set_error := e\<rparr>;
        Some (if fd > ev_select_max_fd ev3 then ev3\<lparr>ev_select_max_fd := fd\<rparr> else ev3, fd)
      })"

definition fdevent_select_poll :: "select_call \<Rightarrow> ('h, 'c) fdevents \<Rightarrow> int \<times> ('h, 'c) fdevents" where
  "fdevent_select_poll select ev =
     (case select (ev_select_max_fd ev + 1) (ev_select_set_read ev) (ev_select_set_write ev) (ev_select_set_error ev) of
        (n, r, w, e) \<Rightarrow> (n, ev\<lparr>ev_select_read := r, ev_select_write := w, ev_select_error := e\<rparr>))"

definition fdevent_select_event_get_revent :: "('h, 'c) fdevents \<Rightarrow> int \<Rightarrow> nat option" where
  "fdevent_select_event_get_revent ev ndx = do {
     r \<leftarrow> FD_ISSET ndx (ev_select_read ev);
     w \<leftarrow> FD_ISSET ndx (ev_select_write ev);
     e \<leftarrow> FD_ISSET ndx (ev_select_error ev);
     let v = (if r then 0 OR FDEVENT_IN else 0);
     let v1 = (if w then v OR FDEVENT_OUT else v);
     Some (if e then v1 OR FDEVENT_ERR else v1)
   }"

definition fdevent_select_event_get_fd :: "('h, 'c) fdevents \<Rightarrow> int \<Rightarrow> int" where
  "fdevent_select_event_get_fd ev ndx = ndx"

function select_scan :: "('h, 'c) fdevents \<Rightarrow> int \<Rightarrow> int option" where
  "select_scan ev i =
     (if i < ev_select_max_fd ev + 1 then do {
        r \<leftarrow> FD_ISSET i (ev_select_read ev);
        (if r then Some i else do {
           w \<leftarrow> FD_ISSET i (ev_select_write ev);
           (if w then Some i else do {
              e \<leftarrow> FD_ISSET i (ev_select_error ev);
              (if e then Some i else select_scan ev (i + 1))
            })
         })
      }
      else Some i)"
  by pat_completeness auto

termination by (relation "measure (\<lambda>(ev, i). nat (ev_select_max_fd ev + 1 - i))") auto

declare select_scan.simps [simp del]

definition fdevent_select_event_next_fdndx :: "('h, 'c) fdevents \<Rightarrow> int \<Rightarrow> int option" where
  "fdevent_select_event_next_fdndx ev ndx = select_scan ev (if ndx < 0 then 0 else ndx + 1)"

section \<open>The table\<close>

text \<open>\<open>calloc\<close> leaves empty sets and a \<open>select_max_fd\<close> of 0.\<close>

definition fdevent_init :: "nat \<Rightarrow> fdevent_handler_t \<Rightarrow> ('h, 'c) fdevents option" where
  "fdevent_init maxfds type =
     (if type = FDEVENT_HANDLER_SELECT
      then Some \<lparr>ev_type = FDEVENT_HANDLER_SELECT, ev_fdarray = replicate maxfds None, ev_maxfds = maxfds, ev_select_read = {},
        ev_select_write = {}, ev_select_error = {}, ev_select_set_read = {}, ev_select_set_write = {}, ev_select_set_error = {},
        ev_select_max_fd = 0\<rparr>
      else None)"

definition fdevent_reset :: "('h, 'c) fdevents \<Rightarrow> ('h, 'c) fdevents" where
  "fdevent_reset ev = (if ev_type ev = FDEVENT_HANDLER_SELECT then fdevent_select_reset ev else ev)"

definition fd_index :: "int \<Rightarrow> nat option" where
  "fd_index fd = (if 0 \<le> fd then Some (nat fd) else None)"

definition fdevent_register :: "('h, 'c) fdevents \<Rightarrow> int \<Rightarrow> 'h \<Rightarrow> 'c \<Rightarrow> ('h, 'c) fdevents option" where
  "fdevent_register ev fd handler ctx = do {
     i \<leftarrow> fd_index fd;
     arr \<leftarrow> mem_set (ev_fdarray ev) i (Some \<lparr>fn_handler = handler, fn_ctx = ctx, fn_fd = fd\<rparr>);
     Some (ev\<lparr>ev_fdarray := arr\<rparr>)
   }"

definition fdevent_unregister :: "('h, 'c) fdevents \<Rightarrow> int \<Rightarrow> ('h, 'c) fdevents option" where
  "fdevent_unregister ev fd = do {
     i \<leftarrow> fd_index fd;
     arr \<leftarrow> mem_set (ev_fdarray ev) i None;
     Some (ev\<lparr>ev_fdarray := arr\<rparr>)
   }"

definition fdevent_event_del :: "('h, 'c) fdevents \<Rightarrow> int \<Rightarrow> int \<Rightarrow> (('h, 'c) fdevents \<times> int) option" where
  "fdevent_event_del ev fde_ndx fd =
     (if ev_type ev = FDEVENT_HANDLER_SELECT then fdevent_select_event_del ev fde_ndx fd else Some (ev, fde_ndx))"

definition fdevent_event_add :: "('h, 'c) fdevents \<Rightarrow> int \<Rightarrow> int \<Rightarrow> nat \<Rightarrow> (('h, 'c) fdevents \<times> int) option" where
  "fdevent_event_add ev fde_ndx fd events =
     (if ev_type ev = FDEVENT_HANDLER_SELECT then fdevent_select_event_add ev fde_ndx fd events else Some (ev, fde_ndx))"

definition fdevent_poll :: "select_call \<Rightarrow> ('h, 'c) fdevents \<Rightarrow> (int \<times> ('h, 'c) fdevents) option" where
  "fdevent_poll select ev = (if ev_type ev = FDEVENT_HANDLER_SELECT then Some (fdevent_select_poll select ev) else None)"

definition fdevent_event_get_revent :: "('h, 'c) fdevents \<Rightarrow> int \<Rightarrow> nat option" where
  "fdevent_event_get_revent ev ndx = (if ev_type ev = FDEVENT_HANDLER_SELECT then fdevent_select_event_get_revent ev ndx else None)"

definition fdevent_event_get_fd :: "('h, 'c) fdevents \<Rightarrow> int \<Rightarrow> int option" where
  "fdevent_event_get_fd ev ndx = (if ev_type ev = FDEVENT_HANDLER_SELECT then Some (fdevent_select_event_get_fd ev ndx) else None)"

definition fdevent_event_next_fdndx :: "('h, 'c) fdevents \<Rightarrow> int \<Rightarrow> int option" where
  "fdevent_event_next_fdndx ev ndx = (if ev_type ev = FDEVENT_HANDLER_SELECT then fdevent_select_event_next_fdndx ev ndx else Some (-1))"

text \<open>The node of a descriptor; \<open>fdevent_get_handler\<close> and \<open>fdevent_get_context\<close> stop the program if there is none.\<close>

definition get_node :: "('h, 'c) fdevents \<Rightarrow> int \<Rightarrow> ('h, 'c) fdnode option" where
  "get_node ev fd = do {
     i \<leftarrow> fd_index fd;
     p \<leftarrow> mem_get (ev_fdarray ev) i;
     node \<leftarrow> p;
     (if fn_fd node \<noteq> fd then None else Some node)
   }"

definition fdevent_get_handler :: "('h, 'c) fdevents \<Rightarrow> int \<Rightarrow> 'h option" where
  "fdevent_get_handler ev fd = do { node \<leftarrow> get_node ev fd; Some (fn_handler node) }"

definition fdevent_get_context :: "('h, 'c) fdevents \<Rightarrow> int \<Rightarrow> 'c option" where
  "fdevent_get_context ev fd = do { node \<leftarrow> get_node ev fd; Some (fn_ctx node) }"

text \<open>The loop of \<open>server.c\<close> over the \<open>n\<close> events. The state \<open>s\<close> of the server has the table \<open>ev_of s\<close>; \<open>call\<close> is the call of a
  handler, a fault if the result is \<open>HANDLER_ERROR\<close>.\<close>

fun event_loop :: "('s \<Rightarrow> ('h, 'c) fdevents) \<Rightarrow> ('s \<Rightarrow> 'h \<Rightarrow> 'c \<Rightarrow> nat \<Rightarrow> 's option) \<Rightarrow> nat \<Rightarrow> int \<Rightarrow> 's \<Rightarrow> 's option" where
  "event_loop ev_of call 0 fd_ndx s = Some s"
| "event_loop ev_of call (Suc n) fd_ndx s = do {
     ndx \<leftarrow> fdevent_event_next_fdndx (ev_of s) fd_ndx;
     revents \<leftarrow> fdevent_event_get_revent (ev_of s) ndx;
     fd \<leftarrow> fdevent_event_get_fd (ev_of s) ndx;
     handler \<leftarrow> fdevent_get_handler (ev_of s) fd;
     ctx \<leftarrow> fdevent_get_context (ev_of s) fd;
     s1 \<leftarrow> call s handler ctx revents;
     event_loop ev_of call n ndx s1
   }"

section \<open>What a back end promises\<close>

text \<open>A client that watches descriptors, and what it watches after all its calls.\<close>

datatype watch = Watch int nat | Unwatch int

fun watch_run :: "('ev \<Rightarrow> int \<Rightarrow> int \<Rightarrow> nat \<Rightarrow> ('ev \<times> int) option) \<Rightarrow> ('ev \<Rightarrow> int \<Rightarrow> int \<Rightarrow> ('ev \<times> int) option) \<Rightarrow>
    'ev \<Rightarrow> (int \<Rightarrow> int) \<Rightarrow> watch list \<Rightarrow> ('ev \<times> (int \<Rightarrow> int)) option" where
  "watch_run add del ev fde [] = Some (ev, fde)"
| "watch_run add del ev fde (Watch fd events # ws) = do {
     (ev1, k) \<leftarrow> add ev (fde fd) fd events;
     watch_run add del ev1 (fde(fd := k)) ws
   }"
| "watch_run add del ev fde (Unwatch fd # ws) = do {
     (ev1, k) \<leftarrow> del ev (fde fd) fd;
     watch_run add del ev1 (fde(fd := k)) ws
   }"

fun watched :: "(int \<rightharpoonup> nat) \<Rightarrow> watch list \<Rightarrow> int \<rightharpoonup> nat" where
  "watched mp [] = mp"
| "watched mp (Watch fd events # ws) = watched (mp(fd \<mapsto> events)) ws"
| "watched mp (Unwatch fd # ws) = watched (mp(fd := None)) ws"

fun watch_ok :: "(int \<Rightarrow> bool) \<Rightarrow> watch \<Rightarrow> bool" where
  "watch_ok fd_ok (Watch fd events) = (fd_ok fd \<and> events \<in> {FDEVENT_IN, FDEVENT_OUT})"
| "watch_ok fd_ok (Unwatch fd) = fd_ok fd"

text \<open>\<open>holds ev fde mp\<close>: the back end watches what \<open>mp\<close> says, and \<open>fde\<close> has the numbers it gave its clients.\<close>

locale event_backend =
  fixes add :: "'ev \<Rightarrow> int \<Rightarrow> int \<Rightarrow> nat \<Rightarrow> ('ev \<times> int) option" and del :: "'ev \<Rightarrow> int \<Rightarrow> int \<Rightarrow> ('ev \<times> int) option"
    and fd_ok :: "int \<Rightarrow> bool" and holds :: "'ev \<Rightarrow> (int \<Rightarrow> int) \<Rightarrow> (int \<rightharpoonup> nat) \<Rightarrow> bool"
  assumes add_law: "holds ev fde mp \<Longrightarrow> fd_ok fd \<Longrightarrow> events \<in> {FDEVENT_IN, FDEVENT_OUT} \<Longrightarrow>
      \<exists>ev1 k. add ev (fde fd) fd events = Some (ev1, k) \<and> holds ev1 (fde(fd := k)) (mp(fd \<mapsto> events))"
    and del_law: "holds ev fde mp \<Longrightarrow> fd_ok fd \<Longrightarrow>
      \<exists>ev1. del ev (fde fd) fd = Some (ev1, -1) \<and> holds ev1 (fde(fd := -1)) (mp(fd := None))"
begin

lemma run_holds:
  assumes "holds ev fde mp" "list_all (watch_ok fd_ok) ws"
  shows "\<exists>ev1 fde1. watch_run add del ev fde ws = Some (ev1, fde1) \<and> holds ev1 fde1 (watched mp ws)"
  using assms
proof (induction ws arbitrary: ev fde mp)
  case (Cons w ws)
  show ?case
  proof (cases w)
    case (Watch fd events)
    with Cons.prems obtain ev1 k where "add ev (fde fd) fd events = Some (ev1, k)" "holds ev1 (fde(fd := k)) (mp(fd \<mapsto> events))"
      using add_law [of ev fde mp fd events] by auto
    with Watch Cons.IH Cons.prems show ?thesis by simp
  next
    case (Unwatch fd)
    with Cons.prems obtain ev1 where "del ev (fde fd) fd = Some (ev1, -1)" "holds ev1 (fde(fd := -1)) (mp(fd := None))"
      using del_law [of ev fde mp fd] by auto
    with Unwatch Cons.IH Cons.prems show ?thesis by simp
  qed
qed simp

end

lemma bits_events [simp]: "bits FDEVENT_IN FDEVENT_IN" "bits FDEVENT_OUT FDEVENT_OUT" "\<not> bits FDEVENT_IN FDEVENT_OUT"
  "\<not> bits FDEVENT_OUT FDEVENT_IN" "FDEVENT_IN \<noteq> FDEVENT_OUT" "FDEVENT_OUT \<noteq> FDEVENT_IN"
  by (simp_all add: bits_def FDEVENT_IN_def FDEVENT_OUT_def)

definition select_fd :: "int \<Rightarrow> bool" where
  "select_fd fd = (0 \<le> fd \<and> fd < FD_SETSIZE)"

definition select_holds :: "('h, 'c) fdevents \<Rightarrow> (int \<Rightarrow> int) \<Rightarrow> (int \<rightharpoonup> nat) \<Rightarrow> bool" where
  "select_holds ev fde mp = (ev_type ev = FDEVENT_HANDLER_SELECT \<and> ev_select_set_read ev = {fd. mp fd = Some FDEVENT_IN} \<and>
     ev_select_set_write ev = {fd. mp fd = Some FDEVENT_OUT} \<and> ev_select_set_error ev = dom mp \<and> ran mp \<subseteq> {FDEVENT_IN, FDEVENT_OUT} \<and>
     (\<forall>fd \<in> dom mp. select_fd fd \<and> fd \<le> ev_select_max_fd ev) \<and> (\<forall>fd. fde fd = (if fd \<in> dom mp then fd else -1)))"

lemma select_add:
  assumes "select_holds ev fde mp" "select_fd fd" "events \<in> {FDEVENT_IN, FDEVENT_OUT}"
  shows "\<exists>ev1 k. fdevent_event_add ev (fde fd) fd events = Some (ev1, k) \<and> select_holds ev1 (fde(fd := k)) (mp(fd \<mapsto> events)) \<and>
    ev_fdarray ev1 = ev_fdarray ev"
proof -
  note h = assms(1) [unfolded select_holds_def]
  have fd: "FD_SET fd s = Some (insert fd s)" "FD_CLR fd s = Some (s - {fd})" "fd < FD_SETSIZE" for s
    using assms(2) by (simp_all add: FD_SET_def FD_CLR_def select_fd_def)
  have dom: "select_fd x \<and> x \<le> ev_select_max_fd ev \<and> (ev_select_max_fd ev < fd \<longrightarrow> x \<le> fd)" if "mp x = Some y" for x y
    using h that by (meson domI less_le_not_le order_trans)
  have ran: "ran (mp(fd \<mapsto> events)) \<subseteq> {FDEVENT_IN, FDEVENT_OUT}" using h assms(3) by (auto simp: ran_def split: if_splits)
  consider "events = FDEVENT_IN" | "events = FDEVENT_OUT" using assms(3) by blast
  then show ?thesis
  proof cases
    case 1
    then show ?thesis using h ran dom assms(2)
      by (auto simp: fdevent_event_add_def fdevent_select_event_add_def fd select_holds_def Let_def)
  next
    case 2
    then show ?thesis using h ran dom assms(2)
      by (auto simp: fdevent_event_add_def fdevent_select_event_add_def fd select_holds_def Let_def)
  qed
qed

lemma select_del:
  assumes "select_holds ev fde mp" "select_fd fd"
  shows "\<exists>ev1. fdevent_event_del ev (fde fd) fd = Some (ev1, -1) \<and> select_holds ev1 (fde(fd := -1)) (mp(fd := None)) \<and>
    ev_fdarray ev1 = ev_fdarray ev"
proof (cases "fd \<in> dom mp")
  case True
  then have "\<not> fde fd < 0" using assms(1) assms(2) [unfolded select_fd_def] by (simp add: select_holds_def)
  moreover have "FD_CLR fd s = Some (s - {fd})" for s using assms(2) by (simp add: FD_CLR_def select_fd_def)
  ultimately show ?thesis using assms
    by (auto simp: fdevent_event_del_def fdevent_select_event_del_def select_holds_def ran_def)
next
  case False
  then have "fde(fd := -1) = fde" "mp(fd := None) = mp" using assms by (auto simp: select_holds_def dom_def)
  then show ?thesis using False assms by (simp add: fdevent_event_del_def fdevent_select_event_del_def select_holds_def)
qed

interpretation sel: event_backend fdevent_event_add fdevent_event_del select_fd select_holds
proof
  fix ev :: "('h, 'c) fdevents" and fde mp fd events
  assume a: "select_holds ev fde mp" "select_fd fd"
  show "\<exists>ev1 k. fdevent_event_add ev (fde fd) fd events = Some (ev1, k) \<and> select_holds ev1 (fde(fd := k)) (mp(fd \<mapsto> events))"
    if "events \<in> {FDEVENT_IN, FDEVENT_OUT}" using select_add [OF a that] by blast
  show "\<exists>ev1. fdevent_event_del ev (fde fd) fd = Some (ev1, -1) \<and> select_holds ev1 (fde(fd := -1)) (mp(fd := None))"
    using select_del [OF a] by blast
qed

lemma select_start:
  assumes "fdevent_init maxfds type = Some ev"
  shows "select_holds (fdevent_reset ev) (\<lambda>_. -1) Map.empty"
  using assms by (auto simp: fdevent_init_def fdevent_reset_def fdevent_select_reset_def select_holds_def split: if_splits)

section \<open>The loop over the events\<close>

definition ready :: "('h, 'c) fdevents \<Rightarrow> fd_set" where
  "ready ev = ev_select_read ev \<union> ev_select_write ev \<union> ev_select_error ev"

definition revents_of :: "('h, 'c) fdevents \<Rightarrow> int \<Rightarrow> nat" where
  "revents_of ev fd = (if fd \<in> ev_select_read ev then FDEVENT_IN else 0) OR (if fd \<in> ev_select_write ev then FDEVENT_OUT else 0) OR
     (if fd \<in> ev_select_error ev then FDEVENT_ERR else 0)"

text \<open>What the loop should do: call the handler of each of the descriptors.\<close>

fun deliver :: "('s \<Rightarrow> ('h, 'c) fdevents) \<Rightarrow> ('s \<Rightarrow> 'h \<Rightarrow> 'c \<Rightarrow> nat \<Rightarrow> 's option) \<Rightarrow> int list \<Rightarrow> 's \<Rightarrow> 's option" where
  "deliver ev_of call [] s = Some s"
| "deliver ev_of call (fd # fds) s = do {
     node \<leftarrow> get_node (ev_of s) fd;
     s1 \<leftarrow> call s (fn_handler node) (fn_ctx node) (revents_of (ev_of s) fd);
     deliver ev_of call fds s1
   }"

text \<open>What \<open>select\<close> promises: it reports descriptors below the number it was given. What the handlers must not do: change
  what it has reported, or watch a descriptor no set has room for.\<close>

definition reported :: "('h, 'c) fdevents \<Rightarrow> bool" where
  "reported ev = (ev_type ev = FDEVENT_HANDLER_SELECT \<and> ev_select_max_fd ev < FD_SETSIZE \<and> ready ev \<subseteq> {0..ev_select_max_fd ev})"

definition keeps_reported :: "('s \<Rightarrow> ('h, 'c) fdevents) \<Rightarrow> ('s \<Rightarrow> 'h \<Rightarrow> 'c \<Rightarrow> nat \<Rightarrow> 's option) \<Rightarrow> bool" where
  "keeps_reported ev_of call = (\<forall>s h c r s1. call s h c r = Some s1 \<longrightarrow>
     (reported (ev_of s) \<longrightarrow> reported (ev_of s1)) \<and> ready (ev_of s1) = ready (ev_of s))"

lemma scan_skip:
  assumes "0 \<le> i" "i \<le> j" "j \<le> ev_select_max_fd ev + 1" "ev_select_max_fd ev < FD_SETSIZE" "\<forall>k \<in> {i..<j}. k \<notin> ready ev"
    and "j \<in> ready ev \<or> j = ev_select_max_fd ev + 1"
  shows "select_scan ev i = Some j"
  using assms
proof (induction "nat (j - i)" arbitrary: i)
  case 0
  then have "i = j" by simp
  then show ?case using 0 by (subst select_scan.simps) (auto simp: FD_ISSET_def ready_def)
next
  case (Suc n)
  then have lt: "i < j" and n: "n = nat (j - (i + 1))" by linarith+
  have "select_scan ev (i + 1) = Some j" by (rule Suc(1) [OF n]) (use Suc.prems lt in auto)
  moreover have "i \<notin> ready ev" using Suc.prems(5) lt by simp
  ultimately show ?case using Suc.prems lt by (subst select_scan.simps) (simp add: FD_ISSET_def ready_def)
qed

lemma scan_next:
  assumes "reported ev" "-1 \<le> ndx" "j \<in> ready ev" "ndx < j" "\<forall>k \<in> ready ev. ndx < k \<longrightarrow> j \<le> k"
  shows "fdevent_event_next_fdndx ev ndx = Some j"
proof -
  have "select_scan ev (if ndx < 0 then 0 else ndx + 1) = Some j"
    by (rule scan_skip) (use assms in \<open>auto simp: reported_def\<close>)
  then show ?thesis using assms(1) by (simp add: fdevent_event_next_fdndx_def fdevent_select_event_next_fdndx_def reported_def)
qed

lemma get_revent:
  assumes "reported ev" "0 \<le> j" "j \<le> ev_select_max_fd ev"
  shows "fdevent_event_get_revent ev j = Some (revents_of ev j)"
  using assms by (simp add: fdevent_event_get_revent_def fdevent_select_event_get_revent_def FD_ISSET_def revents_of_def reported_def Let_def or.assoc)

lemma loop_sorted:
  assumes "keeps_reported ev_of call" "reported (ev_of s)" "-1 \<le> ndx" "sorted_wrt (<) fds" "set fds = {fd \<in> ready (ev_of s). ndx < fd}"
  shows "event_loop ev_of call (length fds + n) ndx s = do { s1 \<leftarrow> deliver ev_of call fds s; event_loop ev_of call n (last (ndx # fds)) s1 }"
  using assms(2-)
proof (induction fds arbitrary: ndx s)
  case (Cons fd fds)
  have "fd \<le> k" if "k \<in> ready (ev_of s)" "ndx < k" for k
  proof -
    have "k \<in> set (fd # fds)" using that Cons.prems(4) by blast
    then show ?thesis using Cons.prems(3) by auto
  qed
  then have fd: "fd \<in> ready (ev_of s)" "ndx < fd" "\<forall>k \<in> ready (ev_of s). ndx < k \<longrightarrow> fd \<le> k" "0 \<le> fd" "fd \<le> ev_select_max_fd (ev_of s)"
    using Cons.prems(1,4) by (auto simp: reported_def)
  note nxt = scan_next [OF Cons.prems(1,2) fd(1-3)] get_revent [OF Cons.prems(1) fd(4,5)]
  have "fdevent_event_get_fd (ev_of s) fd = Some fd"
    using Cons.prems(1) by (simp add: fdevent_event_get_fd_def fdevent_select_event_get_fd_def reported_def)
  moreover have "event_loop ev_of call (length fds + n) fd s1 = do { s2 \<leftarrow> deliver ev_of call fds s1; event_loop ev_of call n (last (fd # fds)) s2 }"
    if "call s h c r = Some s1" for h c r s1
  proof (rule Cons.IH)
    show "reported (ev_of s1)" using assms(1) that Cons.prems(1) unfolding keeps_reported_def by blast
    have "ready (ev_of s1) = ready (ev_of s)" using assms(1) that unfolding keeps_reported_def by blast
    then show "set fds = {k \<in> ready (ev_of s1). fd < k}" using Cons.prems(3,4) fd by auto
  qed (use Cons.prems fd in auto)
  ultimately show ?case
    by (auto simp: nxt fdevent_get_handler_def fdevent_get_context_def bind_assoc split: bind_splits)
qed simp

lemma scan_end:
  assumes "reported ev" "-1 \<le> ndx" "\<forall>k \<in> ready ev. k \<le> ndx" "ndx \<le> ev_select_max_fd ev"
  shows "fdevent_event_next_fdndx ev ndx = Some (ev_select_max_fd ev + 1)"
proof -
  have "select_scan ev (if ndx < 0 then 0 else ndx + 1) = Some (ev_select_max_fd ev + 1)"
    by (rule scan_skip) (use assms in \<open>auto simp: reported_def\<close>)
  then show ?thesis using assms(1) by (simp add: fdevent_event_next_fdndx_def fdevent_select_event_next_fdndx_def reported_def)
qed

lemma ready_finite: "reported ev \<Longrightarrow> finite (ready ev)"
  unfolding reported_def using finite_subset by blast

lemma loop_ready:
  assumes "keeps_reported ev_of call" "reported (ev_of s)"
  shows "event_loop ev_of call (card (ready (ev_of s)) + n) (-1) s =
    do { s1 \<leftarrow> deliver ev_of call (sorted_list_of_set (ready (ev_of s))) s;
         event_loop ev_of call n (last (-1 # sorted_list_of_set (ready (ev_of s)))) s1 }"
proof -
  have "ready (ev_of s) = {fd \<in> ready (ev_of s). -1 < fd}" using assms(2) by (auto simp: reported_def)
  then show ?thesis
    using loop_sorted [OF assms, of "-1" "sorted_list_of_set (ready (ev_of s))" n] ready_finite [OF assms(2)] by simp
qed

lemma loop_too_far:
  assumes "reported (ev_of s)" "-1 \<le> ndx" "\<forall>k \<in> ready (ev_of s). k \<le> ndx" "ndx \<le> ev_select_max_fd (ev_of s)"
    and "get_node (ev_of s) (ev_select_max_fd (ev_of s) + 1) = None"
  shows "event_loop ev_of call (Suc n) ndx s = None"
  using assms(1,5) by (auto simp: scan_end [OF assms(1-4)] fdevent_event_get_fd_def fdevent_select_event_get_fd_def fdevent_get_handler_def
      reported_def split: bind_splits)

lemma le_last: "sorted (xs :: int list) \<Longrightarrow> x \<in> set xs \<Longrightarrow> x \<le> last xs"
  by (induction xs) auto

text \<open>\<open>select\<close> counts a descriptor once for each set it is in, but the loop visits it once: when a descriptor is in two of the sets, the loop
  looks for one descriptor more than there is, and ends at \<open>select_max_fd + 1\<close>; when no handler is registered for that, the
  program stops.\<close>

lemma two_sets_card:
  assumes "finite A" "finite B" "finite C" "(A \<inter> B) \<union> (A \<inter> C) \<union> (B \<inter> C) \<noteq> ({} :: int set)"
  shows "card (A \<union> B \<union> C) < card A + card B + card C"
proof -
  have "card (A \<union> B) + card (A \<inter> B) = card A + card B" using card_Un_Int [OF assms(1,2)] by simp
  moreover have "card (A \<union> B \<union> C) + card ((A \<union> B) \<inter> C) = card (A \<union> B) + card C" using card_Un_Int [of "A \<union> B" C] assms(1-3) by simp
  moreover have "card (A \<inter> B) > 0 \<or> card ((A \<union> B) \<inter> C) > 0" using assms by (auto simp: card_gt_0_iff)
  ultimately show ?thesis by linarith
qed

lemma deliver_reported:
  assumes "keeps_reported ev_of call" "deliver ev_of call fds s = Some s1" "reported (ev_of s)"
  shows "reported (ev_of s1) \<and> ready (ev_of s1) = ready (ev_of s)"
  using assms(2,3)
proof (induction fds arbitrary: s)
  case (Cons fd fds)
  then obtain h c s2 where "call s h c (revents_of (ev_of s) fd) = Some s2" "deliver ev_of call fds s2 = Some s1" by (auto split: option.splits)
  moreover then have "reported (ev_of s2)" "ready (ev_of s2) = ready (ev_of s)" using assms(1) Cons.prems(2) unfolding keeps_reported_def by blast+
  ultimately show ?case using Cons.IH by simp
qed simp

lemma two_sets_loop:
  assumes "keeps_reported ev_of call" "reported (ev_of s)"
    and "n = card (ev_select_read (ev_of s)) + card (ev_select_write (ev_of s)) + card (ev_select_error (ev_of s))"
    and "(ev_select_read (ev_of s) \<inter> ev_select_write (ev_of s)) \<union> (ev_select_read (ev_of s) \<inter> ev_select_error (ev_of s)) \<union>
      (ev_select_write (ev_of s) \<inter> ev_select_error (ev_of s)) \<noteq> {}"
    and "\<And>s1. deliver ev_of call (sorted_list_of_set (ready (ev_of s))) s = Some s1 \<Longrightarrow> get_node (ev_of s1) (ev_select_max_fd (ev_of s1) + 1) = None"
  shows "event_loop ev_of call n (-1) s = None"
proof -
  let ?ev = "ev_of s" and ?fds = "sorted_list_of_set (ready (ev_of s))"
  have fin: "finite (ready ?ev)" "finite (ev_select_read ?ev)" "finite (ev_select_write ?ev)" "finite (ev_select_error ?ev)"
    using ready_finite [OF assms(2)] by (simp_all add: ready_def)
  have "card (ready ?ev) < n" using two_sets_card [OF fin(2-4) assms(4)] assms(3) by (simp add: ready_def)
  then obtain k where n: "n = card (ready ?ev) + Suc k" using less_iff_Suc_add by auto
  show ?thesis
  proof (cases "deliver ev_of call ?fds s")
    case (Some s1)
    then have ev: "reported (ev_of s1)" "ready (ev_of s1) = ready ?ev" using deliver_reported [OF assms(1) Some assms(2)] by simp_all
    have mem: "x \<in> set ?fds \<longleftrightarrow> x \<in> ready ?ev" for x using fin by simp
    have "ready ?ev \<noteq> {}" using assms(4) by (auto simp: ready_def)
    then have ne: "?fds \<noteq> []" using fin by simp
    then have "last ?fds \<in> ready ?ev" "\<forall>x \<in> ready ?ev. x \<le> last ?fds"
      using mem last_in_set [OF ne] le_last [of ?fds] by auto
    then have "event_loop ev_of call (Suc k) (last (-1 # ?fds)) s1 = None"
      using ev assms(5) [OF Some] ne by (intro loop_too_far) (auto simp: reported_def)
    then show ?thesis using loop_ready [OF assms(1,2), of "Suc k"] Some by (simp add: n del: event_loop.simps)
  qed (use loop_ready [OF assms(1,2), of "Suc k"] n in simp)
qed

section \<open>Properties\<close>

text \<open>C24. The back end for \<open>select\<close> is a map from descriptors to events: after any sequence of \<open>fdevent_event_add\<close> and
  \<open>fdevent_event_del\<close> calls, made with the numbers the back end gave, the sets that are passed to \<open>select\<close> hold exactly
  the descriptors that are watched for reading and for writing, all of them are watched for errors, and none is
  above \<open>select_max_fd\<close>.\<close>

theorem select_refines_map:
  assumes "fdevent_init maxfds type = Some ev" "list_all (watch_ok select_fd) ws"
  shows "\<exists>ev1 fde. watch_run fdevent_event_add fdevent_event_del (fdevent_reset ev) (\<lambda>_. -1) ws = Some (ev1, fde) \<and>
    ev_select_set_read ev1 = {fd. watched Map.empty ws fd = Some FDEVENT_IN} \<and>
    ev_select_set_write ev1 = {fd. watched Map.empty ws fd = Some FDEVENT_OUT} \<and>
    ev_select_set_error ev1 = dom (watched Map.empty ws) \<and> (\<forall>fd \<in> dom (watched Map.empty ws). fd \<le> ev_select_max_fd ev1)"
proof -
  obtain ev1 fde where "watch_run fdevent_event_add fdevent_event_del (fdevent_reset ev) (\<lambda>_. -1) ws = Some (ev1, fde)"
    "select_holds ev1 fde (watched Map.empty ws)" using sel.run_holds [OF select_start [OF assms(1)] assms(2)] by blast
  then show ?thesis by (auto simp: select_holds_def)
qed

theorem select_refines_map_witness:
  "\<exists>ev ev1 fde. (fdevent_init 16 FDEVENT_HANDLER_SELECT :: (nat, nat) fdevents option) = Some ev \<and>
     watch_run fdevent_event_add fdevent_event_del (fdevent_reset ev) (\<lambda>_. -1) [Watch 5 FDEVENT_IN, Watch 7 FDEVENT_IN, Watch 5 FDEVENT_OUT, Unwatch 7] =
       Some (ev1, fde) \<and> ev_select_set_read ev1 = {} \<and> ev_select_set_write ev1 = {5}"
proof -
  let ?ws = "[Watch 5 FDEVENT_IN, Watch 7 FDEVENT_IN, Watch 5 FDEVENT_OUT, Unwatch 7]"
  obtain ev :: "(nat, nat) fdevents" where ev: "fdevent_init 16 FDEVENT_HANDLER_SELECT = Some ev" by (simp add: fdevent_init_def)
  have "list_all (watch_ok select_fd) ?ws" by (simp add: select_fd_def FD_SETSIZE_def)
  moreover have "{fd. watched Map.empty ?ws fd = Some FDEVENT_IN} = {}" "{fd. watched Map.empty ?ws fd = Some FDEVENT_OUT} = {5}" by auto
  ultimately show ?thesis using select_refines_map [OF ev, of ?ws] ev by metis
qed

text \<open>C25. If the number of events is the number of descriptors that \<open>select\<close> has reported, the loop of the server calls the
  handler of each of these descriptors once, in ascending order and with the events of that descriptor, whatever the
  handlers do to the table, as long as they keep what was reported.\<close>

theorem events_delivered:
  assumes "keeps_reported ev_of call" "reported (ev_of s)"
  shows "event_loop ev_of call (card (ready (ev_of s))) (-1) s = deliver ev_of call (sorted_list_of_set (ready (ev_of s))) s"
  using loop_ready [OF assms, of 0] by (cases "deliver ev_of call (sorted_list_of_set (ready (ev_of s))) s") simp_all

definition sample_events :: "(nat, nat) fdevents" where
  "sample_events = \<lparr>ev_type = FDEVENT_HANDLER_SELECT,
     ev_fdarray = [None, None, None, None, Some \<lparr>fn_handler = 0, fn_ctx = 100, fn_fd = 4\<rparr>, None, Some \<lparr>fn_handler = 1, fn_ctx = 200, fn_fd = 6\<rparr>, None],
     ev_maxfds = 8, ev_select_read = {6, 4}, ev_select_write = {}, ev_select_error = {}, ev_select_set_read = {4, 6},
     ev_select_set_write = {}, ev_select_set_error = {4, 6}, ev_select_max_fd = 6\<rparr>"

definition log_call :: "('h, 'c) fdevents \<times> ('h \<times> 'c \<times> nat) list \<Rightarrow> 'h \<Rightarrow> 'c \<Rightarrow> nat \<Rightarrow> (('h, 'c) fdevents \<times> ('h \<times> 'c \<times> nat) list) option" where
  "log_call s h c r = Some (fst s, snd s @ [(h, c, r)])"

theorem events_delivered_witness:
  "event_loop fst log_call 2 (-1) (sample_events, []) = Some (sample_events, [(0, 100, FDEVENT_IN), (1, 200, FDEVENT_IN)])"
proof -
  have r: "ready sample_events = {4, 6}" by (auto simp: ready_def sample_events_def)
  have l: "sorted_list_of_set {4, 6 :: int} = [4, 6]" and card_2: "card {4, 6 :: int} = 2" by simp_all
  have "event_loop fst log_call (card (ready sample_events)) (-1) (sample_events, []) = deliver fst log_call [4, 6] (sample_events, [])"
    using events_delivered [of fst log_call "(sample_events, [])"] unfolding fst_conv r l
    by (auto simp: keeps_reported_def log_call_def reported_def r) (auto simp: sample_events_def FD_SETSIZE_def)
  also have "\<dots> = Some (sample_events, [(0, 100, FDEVENT_IN), (1, 200, FDEVENT_IN)])"
    by (simp add: sample_events_def log_call_def get_node_def fd_index_def mem_get_def revents_of_def)
  finally show ?thesis unfolding r by (simp only: card_2)
qed

end
