(* ===== verification/FdeventPoll.thy ===== *)
theory FdeventPoll
  imports Fdevent
begin

text \<open>
  The back end for \<open>poll\<close> (\<open>fdevent_poll.c\<close>): a block of \<open>pollfd\<close> structures, of which the first \<open>used\<close> are in use, and a
  stack of the places among them that are free. The number a client gets is the place of its descriptor. \<open>g\<close> and \<open>h\<close> say
  what \<open>malloc\<close> and \<open>realloc\<close> leave in new places of the two blocks; the system call is a parameter that gives the number of
  events and the field \<open>revents\<close> of every structure.

  The lemmas show that the back end keeps the promises of the locale of theory Fdevent, and which place follows which
  when the events are read.
\<close>

section \<open>Data\<close>

record pollfd =
  pf_fd :: int
  pf_events :: nat
  pf_revents :: nat

record buffer_int =
  bi_ptr :: "int list"
  bi_used :: nat
  bi_size :: nat

record pollset =
  ps_pollfds :: "pollfd list"
  ps_size :: nat
  ps_used :: nat
  ps_unused :: buffer_int

definition pollset_init :: pollset where
  "pollset_init = \<lparr>ps_pollfds = [], ps_size = 0, ps_used = 0, ps_unused = \<lparr>bi_ptr = [], bi_used = 0, bi_size = 0\<rparr>\<rparr>"

section \<open>Operations\<close>

definition push_unused :: "(nat \<Rightarrow> int) \<Rightarrow> buffer_int \<Rightarrow> int \<Rightarrow> buffer_int option" where
  "push_unused h b k = (let
     b1 = (if bi_size b = 0 then b\<lparr>bi_size := 16, bi_ptr := map h [0..<16]\<rparr>
           else if bi_size b = bi_used b then
             b\<lparr>bi_size := bi_size b + 16, bi_ptr := take (bi_size b + 16) (bi_ptr b) @ map h [length (bi_ptr b)..<bi_size b + 16]\<rparr>
           else b)
     in do {
       p \<leftarrow> mem_set (bi_ptr b1) (bi_used b1) k;
       Some (b1\<lparr>bi_ptr := p, bi_used := bi_used b1 + 1\<rparr>)
     })"

definition fdevent_poll_event_del :: "(nat \<Rightarrow> int) \<Rightarrow> pollset \<Rightarrow> int \<Rightarrow> int \<Rightarrow> (pollset \<times> int) option" where
  "fdevent_poll_event_del h ev fde_ndx fd =
     (if fde_ndx < 0 then Some (ev, -1)
      else if nat fde_ndx \<ge> ps_used ev then None
      else do {
        e \<leftarrow> mem_get (ps_pollfds ev) (nat fde_ndx);
        (if pf_fd e = fd then do {
           p \<leftarrow> mem_set (ps_pollfds ev) (nat fde_ndx) (e\<lparr>pf_fd := -1\<rparr>);
           u \<leftarrow> push_unused h (ps_unused ev) fde_ndx;
           Some (ev\<lparr>ps_pollfds := p, ps_unused := u\<rparr>, -1)
         }
         else None)
      })"

definition pollfds_grow :: "(nat \<Rightarrow> pollfd) \<Rightarrow> pollset \<Rightarrow> pollset" where
  "pollfds_grow g ev =
     (if ps_size ev = 0 then ev\<lparr>ps_size := 16, ps_pollfds := map g [0..<16]\<rparr>
      else if ps_size ev = ps_used ev then
        ev\<lparr>ps_size := ps_size ev + 16,
           ps_pollfds := take (ps_size ev + 16) (ps_pollfds ev) @ map g [length (ps_pollfds ev)..<ps_size ev + 16]\<rparr>
      else ev)"

definition fdevent_poll_event_add :: "(nat \<Rightarrow> pollfd) \<Rightarrow> pollset \<Rightarrow> int \<Rightarrow> int \<Rightarrow> nat \<Rightarrow> (pollset \<times> int) option" where
  "fdevent_poll_event_add g ev fde_ndx fd events =
     (if fde_ndx \<noteq> -1 then do {
        i \<leftarrow> fd_index fde_ndx;
        e \<leftarrow> mem_get (ps_pollfds ev) i;
        (if pf_fd e = fd then do {
           p \<leftarrow> mem_set (ps_pollfds ev) i (e\<lparr>pf_events := events\<rparr>);
           Some (ev\<lparr>ps_pollfds := p\<rparr>, fde_ndx)
         }
         else None)
      }
      else if bi_used (ps_unused ev) > 0 then do {
        let u = bi_used (ps_unused ev) - 1;
        k \<leftarrow> mem_get (bi_ptr (ps_unused ev)) u;
        i \<leftarrow> fd_index k;
        e \<leftarrow> mem_get (ps_pollfds ev) i;
        p \<leftarrow> mem_set (ps_pollfds ev) i (e\<lparr>pf_fd := fd, pf_events := events\<rparr>);
        Some (ev\<lparr>ps_pollfds := p, ps_unused := (ps_unused ev)\<lparr>bi_used := u\<rparr>\<rparr>, k)
      }
      else do {
        let ev1 = pollfds_grow g ev;
        e \<leftarrow> mem_get (ps_pollfds ev1) (ps_used ev1);
        p \<leftarrow> mem_set (ps_pollfds ev1) (ps_used ev1) (e\<lparr>pf_fd := fd, pf_events := events\<rparr>);
        Some (ev1\<lparr>ps_pollfds := p, ps_used := ps_used ev1 + 1\<rparr>, int (ps_used ev1))
      })"

text \<open>\<open>poll\<close> is given the structures that are in use, and fills in what has happened.\<close>

definition fdevent_poll_poll :: "(pollfd list \<Rightarrow> int \<times> nat list) \<Rightarrow> pollset \<Rightarrow> int \<times> pollset" where
  "fdevent_poll_poll poll ev = (case poll (take (ps_used ev) (ps_pollfds ev)) of (n, rs) \<Rightarrow>
     (n, ev\<lparr>ps_pollfds := map2 (\<lambda>e r. e\<lparr>pf_revents := r\<rparr>) (take (ps_used ev) (ps_pollfds ev)) rs @ drop (ps_used ev) (ps_pollfds ev)\<rparr>))"

definition fdevent_poll_event_get_revent :: "pollset \<Rightarrow> nat \<Rightarrow> nat option" where
  "fdevent_poll_event_get_revent ev ndx =
     (if ndx \<ge> ps_used ev then None
      else do {
        e \<leftarrow> mem_get (ps_pollfds ev) ndx;
        (if bits (pf_revents e) FDEVENT_NVAL then None else Some (pf_revents e))
      })"

definition fdevent_poll_event_get_fd :: "pollset \<Rightarrow> nat \<Rightarrow> int option" where
  "fdevent_poll_event_get_fd ev ndx = do { e \<leftarrow> mem_get (ps_pollfds ev) ndx; Some (pf_fd e) }"

function poll_scan :: "pollset \<Rightarrow> nat \<Rightarrow> nat option" where
  "poll_scan ev i =
     (if i < ps_used ev then do {
        e \<leftarrow> mem_get (ps_pollfds ev) i;
        (if pf_revents e \<noteq> 0 then Some i else poll_scan ev (i + 1))
      }
      else Some i)"
  by pat_completeness auto

termination by (relation "measure (\<lambda>(ev, i). ps_used ev - i)") auto

declare poll_scan.simps [simp del]

definition fdevent_poll_event_next_fdndx :: "pollset \<Rightarrow> int \<Rightarrow> nat option" where
  "fdevent_poll_event_next_fdndx ev ndx = poll_scan ev (if ndx < 0 then 0 else nat ndx + 1)"

section \<open>The invariant\<close>

definition poll_fd :: "int \<Rightarrow> bool" where
  "poll_fd fd = (0 \<le> fd)"

definition stack_ok :: "buffer_int \<Rightarrow> bool" where
  "stack_ok b = (length (bi_ptr b) = bi_size b \<and> bi_used b \<le> bi_size b)"

definition stack_list :: "buffer_int \<Rightarrow> int list" where
  "stack_list b = take (bi_used b) (bi_ptr b)"

abbreviation place :: "pollset \<Rightarrow> nat \<Rightarrow> pollfd" where
  "place ev k \<equiv> ps_pollfds ev ! k"

definition poll_holds :: "pollset \<Rightarrow> (int \<Rightarrow> int) \<Rightarrow> (int \<rightharpoonup> nat) \<Rightarrow> bool" where
  "poll_holds ev fde mp = (length (ps_pollfds ev) = ps_size ev \<and> ps_used ev \<le> ps_size ev \<and> stack_ok (ps_unused ev) \<and>
     distinct (stack_list (ps_unused ev)) \<and> set (stack_list (ps_unused ev)) = int ` {k. k < ps_used ev \<and> pf_fd (place ev k) = -1} \<and>
     (\<forall>fd. mp fd = None \<longrightarrow> fde fd = -1) \<and>
     (\<forall>fd e. mp fd = Some e \<longrightarrow> 0 \<le> fd \<and> (\<exists>k < ps_used ev. fde fd = int k \<and> pf_fd (place ev k) = fd \<and> pf_events (place ev k) = e)) \<and>
     (\<forall>k < ps_used ev. pf_fd (place ev k) \<noteq> -1 \<longrightarrow> pf_fd (place ev k) \<in> dom mp \<and> fde (pf_fd (place ev k)) = int k))"

lemma poll_start: "poll_holds pollset_init (\<lambda>_. -1) Map.empty"
  by (simp add: poll_holds_def pollset_init_def stack_ok_def stack_list_def)

lemma push_ok:
  assumes "stack_ok b"
  shows "\<exists>b1. push_unused h b k = Some b1 \<and> stack_ok b1 \<and> stack_list b1 = stack_list b @ [k]"
  using assms by (auto simp: push_unused_def Let_def mem_simps stack_ok_def stack_list_def take_Suc_snoc)

lemma grow_places:
  assumes "length (ps_pollfds ev) = ps_size ev" "ps_used ev \<le> ps_size ev"
  shows "length (ps_pollfds (pollfds_grow g ev)) = ps_size (pollfds_grow g ev)" "ps_used (pollfds_grow g ev) = ps_used ev"
    "ps_used ev < ps_size (pollfds_grow g ev)" "ps_unused (pollfds_grow g ev) = ps_unused ev"
    "k < ps_used ev \<Longrightarrow> place (pollfds_grow g ev) k = place ev k"
  using assms by (auto simp: pollfds_grow_def nth_append)

lemma poll_holdsD:
  assumes "poll_holds ev fde mp"
  shows "length (ps_pollfds ev) = ps_size ev" "ps_used ev \<le> ps_size ev" "stack_ok (ps_unused ev)" "distinct (stack_list (ps_unused ev))"
    "set (stack_list (ps_unused ev)) = int ` {k. k < ps_used ev \<and> pf_fd (place ev k) = -1}"
    "mp fd = None \<Longrightarrow> fde fd = -1"
    "mp fd = Some e \<Longrightarrow> \<exists>k < ps_used ev. fde fd = int k \<and> pf_fd (place ev k) = fd \<and> pf_events (place ev k) = e"
    "mp fd = Some e \<Longrightarrow> 0 \<le> fd"
    "k < ps_used ev \<Longrightarrow> pf_fd (place ev k) \<noteq> -1 \<Longrightarrow> pf_fd (place ev k) \<in> dom mp \<and> fde (pf_fd (place ev k)) = int k"
  using assms unfolding poll_holds_def by blast+

lemma poll_holdsI:
  assumes "length (ps_pollfds ev) = ps_size ev" "ps_used ev \<le> ps_size ev" "stack_ok (ps_unused ev)" "distinct (stack_list (ps_unused ev))"
    and "set (stack_list (ps_unused ev)) = int ` {k. k < ps_used ev \<and> pf_fd (place ev k) = -1}"
    and "\<And>fd. mp fd = None \<Longrightarrow> fde fd = -1"
    and "\<And>fd e. mp fd = Some e \<Longrightarrow> 0 \<le> fd \<and> (\<exists>k < ps_used ev. fde fd = int k \<and> pf_fd (place ev k) = fd \<and> pf_events (place ev k) = e)"
    and "\<And>k. k < ps_used ev \<Longrightarrow> pf_fd (place ev k) \<noteq> -1 \<Longrightarrow> pf_fd (place ev k) \<in> dom mp \<and> fde (pf_fd (place ev k)) = int k"
  shows "poll_holds ev fde mp"
  using assms unfolding poll_holds_def by blast

lemma poll_del:
  assumes "poll_holds ev fde mp" "poll_fd fd"
  shows "\<exists>ev1. fdevent_poll_event_del h ev (fde fd) fd = Some (ev1, -1) \<and> poll_holds ev1 (fde(fd := -1)) (mp(fd := None))"
proof (cases "mp fd")
  case None
  then have "fde(fd := -1) = fde" "mp(fd := None) = mp" using poll_holdsD(6) [OF assms(1)] by auto
  then show ?thesis using assms(1) poll_holdsD(6) [OF assms(1) None] by (simp add: fdevent_poll_event_del_def)
next
  case (Some e)
  note d = poll_holdsD [OF assms(1)]
  obtain k where k: "k < ps_used ev" "fde fd = int k" "pf_fd (place ev k) = fd" using d(7) [OF Some] by blast
  obtain u where u: "push_unused h (ps_unused ev) (int k) = Some u" "stack_ok u" "stack_list u = stack_list (ps_unused ev) @ [int k]"
    using push_ok [OF d(3)] by blast
  let ?ev = "ev\<lparr>ps_pollfds := (ps_pollfds ev)[k := (place ev k)\<lparr>pf_fd := -1\<rparr>], ps_unused := u\<rparr>"
  have len: "k < length (ps_pollfds ev)" using k(1) d(1,2) by simp
  have run: "fdevent_poll_event_del h ev (fde fd) fd = Some (?ev, -1)"
    using k len u(1) by (simp add: fdevent_poll_event_del_def mem_simps)
  have fd: "fd \<noteq> -1" using assms(2) by (simp add: poll_fd_def)
  have at: "place ?ev j = (if j = k then (place ev k)\<lparr>pf_fd := -1\<rparr> else place ev j)" if "j < ps_used ev" for j
    using that len by simp
  have "poll_holds ?ev (fde(fd := -1)) (mp(fd := None))"
  proof (rule poll_holdsI)
    show "distinct (stack_list (ps_unused ?ev))" using d(4,5) k fd by (auto simp: u(3))
    show "set (stack_list (ps_unused ?ev)) = int ` {j. j < ps_used ?ev \<and> pf_fd (place ?ev j) = -1}"
      using d(5) k at by (auto simp: u(3) split: if_splits)
  next
    fix fd' e' assume m: "(mp(fd := None)) fd' = Some e'"
    then have ne: "fd' \<noteq> fd" "mp fd' = Some e'" by (auto split: if_splits)
    then obtain j where j: "j < ps_used ev" "fde fd' = int j" "pf_fd (place ev j) = fd'" "pf_events (place ev j) = e'" using d(7) by blast
    then have "j \<noteq> k" using k ne by auto
    then show "0 \<le> fd' \<and> (\<exists>j < ps_used ?ev. (fde(fd := -1)) fd' = int j \<and> pf_fd (place ?ev j) = fd' \<and> pf_events (place ?ev j) = e')"
      using j at ne d(8) by auto
  next
    fix j assume "j < ps_used ?ev" "pf_fd (place ?ev j) \<noteq> -1"
    then have j: "j < ps_used ev" "j \<noteq> k" "place ?ev j = place ev j" "pf_fd (place ev j) \<noteq> -1" using at by (auto split: if_splits)
    then show "pf_fd (place ?ev j) \<in> dom (mp(fd := None)) \<and> (fde(fd := -1)) (pf_fd (place ?ev j)) = int j"
      using d(9) [OF j(1,4)] k by auto
  qed (use d(1-3,6) u(2) in \<open>auto split: if_splits\<close>)
  then show ?thesis using run by blast
qed

text \<open>A descriptor is put in the place \<open>k\<close>, which was free.\<close>

lemma poll_put:
  assumes "poll_holds ev fde mp" "mp fd = None" "poll_fd fd"
    and "length (ps_pollfds ev1) = ps_size ev1" "ps_used ev1 \<le> ps_size ev1" "stack_ok (ps_unused ev1)" "distinct (stack_list (ps_unused ev1))"
    and "set (stack_list (ps_unused ev1)) = set (stack_list (ps_unused ev)) - {int k}"
    and "{..<ps_used ev1} = insert k {..<ps_used ev}" "k < ps_used ev \<longrightarrow> pf_fd (place ev k) = -1"
    and "pf_fd (place ev1 k) = fd" "pf_events (place ev1 k) = e" "\<And>j. j < ps_used ev \<Longrightarrow> j \<noteq> k \<Longrightarrow> place ev1 j = place ev j"
  shows "poll_holds ev1 (fde(fd := int k)) (mp(fd \<mapsto> e))"
proof (rule poll_holdsI)
  note d = poll_holdsD [OF assms(1)]
  have used: "j < ps_used ev1 \<longleftrightarrow> j = k \<or> j < ps_used ev" for j using assms(9) by (metis insert_iff lessThan_iff)
  have fd: "fd \<noteq> -1" "0 \<le> fd" using assms(3) by (auto simp: poll_fd_def)
  show "set (stack_list (ps_unused ev1)) = int ` {j. j < ps_used ev1 \<and> pf_fd (place ev1 j) = -1}"
  proof -
    have "j < ps_used ev1 \<and> pf_fd (place ev1 j) = -1 \<longleftrightarrow> j < ps_used ev \<and> pf_fd (place ev j) = -1 \<and> j \<noteq> k" for j
      using assms(11,13) fd used [of j] by (cases "j = k") auto
    then show ?thesis using assms(8) d(5) by auto
  qed
  fix fd' e' assume m: "(mp(fd \<mapsto> e)) fd' = Some e'"
  show "0 \<le> fd' \<and> (\<exists>j < ps_used ev1. (fde(fd := int k)) fd' = int j \<and> pf_fd (place ev1 j) = fd' \<and> pf_events (place ev1 j) = e')"
  proof (cases "fd' = fd")
    case True
    then show ?thesis using m assms(11,12) fd used by auto
  next
    case False
    then obtain j where j: "j < ps_used ev" "fde fd' = int j" "pf_fd (place ev j) = fd'" "pf_events (place ev j) = e'" "0 \<le> fd'"
      using d(7,8) m by auto
    then have "j \<noteq> k" using assms(10) by auto
    then show ?thesis using j False assms(13) used by auto
  qed
next
  note d = poll_holdsD [OF assms(1)]
  fix j assume j: "j < ps_used ev1" "pf_fd (place ev1 j) \<noteq> -1"
  show "pf_fd (place ev1 j) \<in> dom (mp(fd \<mapsto> e)) \<and> (fde(fd := int k)) (pf_fd (place ev1 j)) = int j"
  proof (cases "j = k")
    case False
    then have "j < ps_used ev" "place ev1 j = place ev j" using j assms(9,13) by (metis insert_iff lessThan_iff)+
    then show ?thesis using d(9) [of j] j(2) assms(2) by auto
  qed (use assms(11) in simp)
qed (use assms(4-7) poll_holdsD(6) [OF assms(1)] in \<open>auto split: if_splits\<close>)

lemma poll_change:
  assumes "poll_holds ev fde mp" "mp fd = Some e0"
  shows "\<exists>ev1. fdevent_poll_event_add g ev (fde fd) fd e = Some (ev1, fde fd) \<and> poll_holds ev1 fde (mp(fd \<mapsto> e))"
proof -
  note d = poll_holdsD [OF assms(1)]
  obtain k where k: "k < ps_used ev" "fde fd = int k" "pf_fd (place ev k) = fd" using d(7) [OF assms(2)] by blast
  let ?ev = "ev\<lparr>ps_pollfds := (ps_pollfds ev)[k := (place ev k)\<lparr>pf_events := e\<rparr>]\<rparr>"
  have len: "k < length (ps_pollfds ev)" using k(1) d(1,2) by simp
  have run: "fdevent_poll_event_add g ev (fde fd) fd e = Some (?ev, fde fd)"
    using k len by (simp add: fdevent_poll_event_add_def fd_index_def mem_simps)
  have at: "place ?ev j = (if j = k then (place ev k)\<lparr>pf_events := e\<rparr> else place ev j)" if "j < ps_used ev" for j
    using that len by simp
  then have fds: "pf_fd (place ?ev j) = pf_fd (place ev j)" if "j < ps_used ev" for j using that by simp
  have "poll_holds ?ev fde (mp(fd \<mapsto> e))"
  proof (rule poll_holdsI)
    show "set (stack_list (ps_unused ?ev)) = int ` {j. j < ps_used ?ev \<and> pf_fd (place ?ev j) = -1}" using d(5) fds by auto
  next
    fix fd' e' assume m: "(mp(fd \<mapsto> e)) fd' = Some e'"
    show "0 \<le> fd' \<and> (\<exists>j < ps_used ?ev. fde fd' = int j \<and> pf_fd (place ?ev j) = fd' \<and> pf_events (place ?ev j) = e')"
    proof (cases "fd' = fd")
      case True
      then show ?thesis using m k at [OF k(1)] d(8) [OF assms(2)] by auto
    next
      case False
      then obtain j where j: "j < ps_used ev" "fde fd' = int j" "pf_fd (place ev j) = fd'" "pf_events (place ev j) = e'" "0 \<le> fd'"
        using d(7,8) m by auto
      then have "j \<noteq> k" using k False by auto
      then show ?thesis using j at [OF j(1)] by auto
    qed
  qed (use d(1-4,6,9) fds in \<open>auto split: if_splits\<close>)
  then show ?thesis using run by blast
qed

lemma poll_reuse:
  assumes "poll_holds ev fde mp" "mp fd = None" "poll_fd fd" "bi_used (ps_unused ev) > 0"
  shows "\<exists>ev1 k. fdevent_poll_event_add g ev (fde fd) fd e = Some (ev1, k) \<and> poll_holds ev1 (fde(fd := k)) (mp(fd \<mapsto> e))"
proof -
  note d = poll_holdsD [OF assms(1)]
  let ?u = "bi_used (ps_unused ev) - 1"
  have st: "?u < length (bi_ptr (ps_unused ev))" "stack_list (ps_unused ev) = take ?u (bi_ptr (ps_unused ev)) @ [bi_ptr (ps_unused ev) ! ?u]"
    using d(3) assms(4) take_butlast_used [OF assms(4), of "bi_ptr (ps_unused ev)"] by (auto simp: stack_ok_def stack_list_def)
  then have "bi_ptr (ps_unused ev) ! ?u \<in> int ` {k. k < ps_used ev \<and> pf_fd (place ev k) = -1}" by (simp flip: d(5))
  then obtain k where k: "bi_ptr (ps_unused ev) ! ?u = int k" "k < ps_used ev" "pf_fd (place ev k) = -1" by auto
  let ?ev = "ev\<lparr>ps_pollfds := (ps_pollfds ev)[k := (place ev k)\<lparr>pf_fd := fd, pf_events := e\<rparr>], ps_unused := (ps_unused ev)\<lparr>bi_used := ?u\<rparr>\<rparr>"
  have len: "k < length (ps_pollfds ev)" using k(2) d(1,2) by simp
  have run: "fdevent_poll_event_add g ev (fde fd) fd e = Some (?ev, int k)"
    using d(6) [OF assms(2)] assms(4) st(1) k(1) len by (simp add: fdevent_poll_event_add_def fd_index_def mem_simps Let_def)
  have list: "stack_list (ps_unused ev) = stack_list (ps_unused ?ev) @ [int k]" using st(2) k(1) by (simp add: stack_list_def)
  have "poll_holds ?ev (fde(fd := int k)) (mp(fd \<mapsto> e))"
    by (rule poll_put [OF assms(1-3)]) (use d(1-4) k(2,3) len list in \<open>auto simp: stack_ok_def\<close>)
  then show ?thesis using run by blast
qed

lemma poll_append:
  assumes "poll_holds ev fde mp" "mp fd = None" "poll_fd fd" "bi_used (ps_unused ev) = 0"
  shows "\<exists>ev1 k. fdevent_poll_event_add g ev (fde fd) fd e = Some (ev1, k) \<and> poll_holds ev1 (fde(fd := k)) (mp(fd \<mapsto> e))"
proof -
  note d = poll_holdsD [OF assms(1)]
  note gr = grow_places [OF d(1,2), where g = g]
  let ?g = "pollfds_grow g ev" and ?k = "ps_used ev"
  let ?ev = "?g\<lparr>ps_pollfds := (ps_pollfds ?g)[?k := (place ?g ?k)\<lparr>pf_fd := fd, pf_events := e\<rparr>], ps_used := ?k + 1\<rparr>"
  have run: "fdevent_poll_event_add g ev (fde fd) fd e = Some (?ev, int ?k)"
    using d(6) [OF assms(2)] assms(4) gr(1-3) by (simp add: fdevent_poll_event_add_def mem_simps Let_def)
  have none: "stack_list (ps_unused ev) = []" using assms(4) by (simp add: stack_list_def)
  have "poll_holds ?ev (fde(fd := int ?k)) (mp(fd \<mapsto> e))"
    by (rule poll_put [OF assms(1-3)]) (use d(3) gr none in auto)
  then show ?thesis using run by blast
qed

lemma poll_add:
  assumes "poll_holds ev fde mp" "poll_fd fd"
  shows "\<exists>ev1 k. fdevent_poll_event_add g ev (fde fd) fd e = Some (ev1, k) \<and> poll_holds ev1 (fde(fd := k)) (mp(fd \<mapsto> e))"
proof (cases "mp fd")
  case None
  then show ?thesis using poll_reuse [OF assms(1) None assms(2)] poll_append [OF assms(1) None assms(2)] by blast
next
  case (Some e0)
  have "fde(fd := fde fd) = fde" by simp
  then show ?thesis using poll_change [OF assms(1) Some, of g e] by metis
qed

interpretation pol: event_backend "fdevent_poll_event_add g" "fdevent_poll_event_del h" poll_fd poll_holds
  using poll_add poll_del by unfold_locales blast+

section \<open>Properties\<close>

text \<open>C26. The back end for \<open>poll\<close> is a map too: after any sequence of calls, made with the numbers it gave, the structures in
  use that have a descriptor are exactly the pairs of a watched descriptor and its events, no descriptor has two of them, and
  the places without a descriptor are on the stack of free places, each once.\<close>

theorem poll_refines_map:
  assumes "list_all (watch_ok poll_fd) ws"
  shows "\<exists>ev fde. watch_run (fdevent_poll_event_add g) (fdevent_poll_event_del h) pollset_init (\<lambda>_. -1) ws = Some (ev, fde) \<and>
    {(pf_fd (place ev k), pf_events (place ev k)) | k. k < ps_used ev \<and> pf_fd (place ev k) \<noteq> -1} = {(fd, e). watched Map.empty ws fd = Some e} \<and>
    inj_on (\<lambda>k. pf_fd (place ev k)) {k. k < ps_used ev \<and> pf_fd (place ev k) \<noteq> -1} \<and>
    distinct (stack_list (ps_unused ev)) \<and> set (stack_list (ps_unused ev)) = int ` {k. k < ps_used ev \<and> pf_fd (place ev k) = -1}"
proof -
  obtain ev fde where run: "watch_run (fdevent_poll_event_add g) (fdevent_poll_event_del h) pollset_init (\<lambda>_. -1) ws = Some (ev, fde)"
    and h: "poll_holds ev fde (watched Map.empty ws)" using pol.run_holds [OF poll_start assms] by blast
  note d = poll_holdsD [OF h]
  have "(fd, e) \<in> {(pf_fd (place ev k), pf_events (place ev k)) | k. k < ps_used ev \<and> pf_fd (place ev k) \<noteq> -1} \<longleftrightarrow>
      watched Map.empty ws fd = Some e" for fd e
  proof
    assume "(fd, e) \<in> {(pf_fd (place ev k), pf_events (place ev k)) | k. k < ps_used ev \<and> pf_fd (place ev k) \<noteq> -1}"
    then obtain k where k: "k < ps_used ev" "pf_fd (place ev k) \<noteq> -1" "fd = pf_fd (place ev k)" "e = pf_events (place ev k)" by auto
    then obtain e' where "watched Map.empty ws fd = Some e'" "fde fd = int k" using d(9) [OF k(1,2)] by auto
    then show "watched Map.empty ws fd = Some e" using d(7) [of fd e'] k by auto
  next
    assume w: "watched Map.empty ws fd = Some e"
    then show "(fd, e) \<in> {(pf_fd (place ev k), pf_events (place ev k)) | k. k < ps_used ev \<and> pf_fd (place ev k) \<noteq> -1}"
      using d(7) [OF w] d(8) [OF w] by force
  qed
  then have "{(pf_fd (place ev k), pf_events (place ev k)) | k. k < ps_used ev \<and> pf_fd (place ev k) \<noteq> -1} = {(fd, e). watched Map.empty ws fd = Some e}"
    by auto
  moreover have "inj_on (\<lambda>k. pf_fd (place ev k)) {k. k < ps_used ev \<and> pf_fd (place ev k) \<noteq> -1}"
    using d(9) by (intro inj_onI) (metis (mono_tags) mem_Collect_eq of_nat_eq_iff)
  ultimately show ?thesis using run d(4,5) by blast
qed

theorem poll_refines_map_witness:
  "\<exists>ev fde. watch_run (fdevent_poll_event_add (\<lambda>_. \<lparr>pf_fd = 0, pf_events = 0, pf_revents = 0\<rparr>)) (fdevent_poll_event_del (\<lambda>_. 0)) pollset_init (\<lambda>_. -1)
      [Watch 5 FDEVENT_IN, Watch 7 FDEVENT_IN, Unwatch 5, Watch 9 FDEVENT_OUT] = Some (ev, fde) \<and>
    {(pf_fd (place ev k), pf_events (place ev k)) | k. k < ps_used ev \<and> pf_fd (place ev k) \<noteq> -1} = {(7, FDEVENT_IN), (9, FDEVENT_OUT)}"
proof -
  let ?ws = "[Watch 5 FDEVENT_IN, Watch 7 FDEVENT_IN, Unwatch 5, Watch 9 FDEVENT_OUT]"
  have "list_all (watch_ok poll_fd) ?ws" by (simp add: poll_fd_def)
  moreover have "{(fd, e). watched Map.empty ?ws fd = Some e} = {(7, FDEVENT_IN), (9, FDEVENT_OUT)}" by (auto split: if_splits)
  ultimately show ?thesis
    using poll_refines_map [of ?ws "\<lambda>_. \<lparr>pf_fd = 0, pf_events = 0, pf_revents = 0\<rparr>" "\<lambda>_. 0"] by metis
qed

text \<open>Reading the events goes from one structure with events to the next, and ends at \<open>used\<close>.\<close>

theorem poll_next_event:
  assumes "ps_used ev \<le> length (ps_pollfds ev)" "i \<le> j" "j \<le> ps_used ev" "\<forall>k \<in> {i..<j}. pf_revents (place ev k) = 0"
    and "j = ps_used ev \<or> pf_revents (place ev j) \<noteq> 0"
  shows "fdevent_poll_event_next_fdndx ev (int i - 1) = Some j"
proof -
  have "poll_scan ev i = Some j" using assms(2,4)
  proof (induction "j - i" arbitrary: i)
    case 0
    then show ?case using assms(1,3,5) by (subst poll_scan.simps) (auto simp: mem_get_def)
  next
    case (Suc n)
    then have "poll_scan ev (i + 1) = Some j" by auto
    then show ?case using Suc.prems Suc.hyps(2) assms(1,3) by (subst poll_scan.simps) (auto simp: mem_get_def)
  qed
  then show ?thesis by (cases i) (simp_all add: fdevent_poll_event_next_fdndx_def)
qed

end
