(* ===== verification/UrlCodec.thy ===== *)
theory UrlCodec
  imports Numbers
begin

text \<open>
  Escaping and unescaping of \<open>buffer.c\<close>: the six tables of characters to encode,
  \<open>buffer_append_string_encoded\<close>, and the in-place \<open>buffer_urldecode_path\<close> and
  \<open>buffer_urldecode_query\<close>. The tables are the source's rows of 16 flags. The lemmas show that
  the encoder computes the space it needs exactly and stays inside its block, that the in-place
  decoder computes a function of the string, that it never produces a control character, and
  that decoding undoes URI encoding.
\<close>

section \<open>Tables\<close>

definition enc_table :: "string list \<Rightarrow> bool list" where
  "enc_table rows = map (\<lambda>c. c = CHR ''1'') (concat rows)"

definition encoded_chars_rel_uri_part :: "bool list" where
  "encoded_chars_rel_uri_part = enc_table [
     ''1111111111111111'', ''1111111111111111'', ''1011111100011001'', ''0000000000111111'',
     ''1000000000000000'', ''0000000000011110'', ''1000000000000000'', ''0000000000011111'',
     ''1111111111111111'', ''1111111111111111'', ''1111111111111111'', ''1111111111111111'',
     ''1111111111111111'', ''1111111111111111'', ''1111111111111111'', ''1111111111111111'']"

definition encoded_chars_rel_uri :: "bool list" where
  "encoded_chars_rel_uri = enc_table [
     ''1111111111111111'', ''1111111111111111'', ''1011111100011000'', ''0000000000111111'',
     ''1000000000000000'', ''0000000000011110'', ''1000000000000000'', ''0000000000011111'',
     ''1111111111111111'', ''1111111111111111'', ''1111111111111111'', ''1111111111111111'',
     ''1111111111111111'', ''1111111111111111'', ''1111111111111111'', ''1111111111111111'']"

definition encoded_chars_html :: "bool list" where
  "encoded_chars_html = enc_table [
     ''1111111111111111'', ''1111111111111111'', ''0000001000000000'', ''0000000000001010'',
     ''0000000000000000'', ''0000000000000000'', ''0000000000000000'', ''0000000000000001'',
     ''1111111111111111'', ''1111111111111111'', ''1111111111111111'', ''1111111111111111'',
     ''1111111111111111'', ''1111111111111111'', ''1111111111111111'', ''1111111111111111'']"

definition encoded_chars_minimal_xml :: "bool list" where
  "encoded_chars_minimal_xml = enc_table [
     ''1111111111111111'', ''1111111111111111'', ''0000001000000000'', ''0000000000001010'',
     ''0000000000000000'', ''0000000000000000'', ''0000000000000000'', ''0000000000000001'',
     ''0000000000000000'', ''0000000000000000'', ''0000000000000000'', ''0000000000000000'',
     ''0000000000000000'', ''0000000000000000'', ''0000000000000000'', ''0000000000000000'']"

definition encoded_chars_hex :: "bool list" where
  "encoded_chars_hex = enc_table [
     ''1111111111111111'', ''1111111111111111'', ''1111111111111111'', ''1111111111111111'',
     ''1111111111111111'', ''1111111111111111'', ''1111111111111111'', ''1111111111111111'',
     ''1111111111111111'', ''1111111111111111'', ''1111111111111111'', ''1111111111111111'',
     ''1111111111111111'', ''1111111111111111'', ''1111111111111111'', ''1111111111111111'']"

definition encoded_chars_http_header :: "bool list" where
  "encoded_chars_http_header = enc_table [
     ''0000000000100000'', ''0000000000000000'', ''0000000000000000'', ''0000000000000000'',
     ''0000000000000000'', ''0000000000000000'', ''0000000000000000'', ''0000000000000000'',
     ''0000000000000000'', ''0000000000000000'', ''0000000000000000'', ''0000000000000000'',
     ''0000000000000000'', ''0000000000000000'', ''0000000000000000'', ''0000000000000000'']"

section \<open>Encoding\<close>

datatype buffer_encoding_t =
    ENCODING_UNSET
  | ENCODING_REL_URI
  | ENCODING_REL_URI_PART
  | ENCODING_HTML
  | ENCODING_MINIMAL_XML
  | ENCODING_HEX
  | ENCODING_HTTP_HEADER

fun encoding_map :: "buffer_encoding_t \<Rightarrow> bool list option" where
  "encoding_map ENCODING_REL_URI = Some encoded_chars_rel_uri"
| "encoding_map ENCODING_REL_URI_PART = Some encoded_chars_rel_uri_part"
| "encoding_map ENCODING_HTML = Some encoded_chars_html"
| "encoding_map ENCODING_MINIMAL_XML = Some encoded_chars_minimal_xml"
| "encoding_map ENCODING_HEX = Some encoded_chars_hex"
| "encoding_map ENCODING_HTTP_HEADER = Some encoded_chars_http_header"
| "encoding_map ENCODING_UNSET = None"

text \<open>What an encoded character adds to the length, and what is written for it.\<close>

fun enc_char_len :: "buffer_encoding_t \<Rightarrow> nat" where
  "enc_char_len ENCODING_REL_URI = 3"
| "enc_char_len ENCODING_REL_URI_PART = 3"
| "enc_char_len ENCODING_HTML = 6"
| "enc_char_len ENCODING_MINIMAL_XML = 6"
| "enc_char_len ENCODING_HTTP_HEADER = 2"
| "enc_char_len ENCODING_HEX = 2"
| "enc_char_len ENCODING_UNSET = 0"

fun enc_char :: "buffer_encoding_t \<Rightarrow> char \<Rightarrow> string" where
  "enc_char ENCODING_REL_URI c = [CHR ''%'', hexc (uchar c div 16), hexc (uchar c)]"
| "enc_char ENCODING_REL_URI_PART c = [CHR ''%'', hexc (uchar c div 16), hexc (uchar c)]"
| "enc_char ENCODING_HTML c = [CHR ''&'', CHR ''#'', CHR ''x'', hexc (uchar c div 16), hexc (uchar c), CHR '';'']"
| "enc_char ENCODING_MINIMAL_XML c = [CHR ''&'', CHR ''#'', CHR ''x'', hexc (uchar c div 16), hexc (uchar c), CHR '';'']"
| "enc_char ENCODING_HEX c = [hexc (uchar c div 16), hexc (uchar c)]"
| "enc_char ENCODING_HTTP_HEADER c = [c, TAB]"
| "enc_char ENCODING_UNSET c = []"

fun enc_count :: "bool list \<Rightarrow> buffer_encoding_t \<Rightarrow> char list \<Rightarrow> nat \<Rightarrow> nat" where
  "enc_count tab enc [] d_len = d_len"
| "enc_count tab enc (c # cs) d_len =
     enc_count tab enc cs (if tab ! uchar c then d_len + enc_char_len enc else d_len + 1)"

fun enc_loop :: "bool list \<Rightarrow> buffer_encoding_t \<Rightarrow> char list \<Rightarrow> nat \<Rightarrow> nat \<Rightarrow> char list \<Rightarrow> (char list \<times> nat) option" where
  "enc_loop tab enc m d d_len [] = Some (m, d_len)"
| "enc_loop tab enc m d d_len (c # cs) =
     (let out = (if tab ! uchar c then enc_char enc c else [c]) in do {
        m' \<leftarrow> mem_copy m (d + d_len) out;
        enc_loop tab enc m' d (d_len + length out) cs
      })"

text \<open>The first access is \<open>b->ptr[b->used - 1]\<close>, outside the block when \<open>used\<close> is 0.\<close>

definition buffer_append_string_encoded ::
    "junk \<Rightarrow> bufp \<Rightarrow> char list option \<Rightarrow> nat \<Rightarrow> buffer_encoding_t \<Rightarrow> bufres" where
  "buffer_append_string_encoded g bp s s_len encoding = (case (s, bp) of
     (Some str, Some b) \<Rightarrow>
       if b_used b = 0 then None
       else do {
         m \<leftarrow> b_ptr b;
         c \<leftarrow> mem_get m (b_used b - 1);
         (if c \<noteq> NUL then None
          else if s_len = 0 then Some (0, bp)
          else do {
            tab \<leftarrow> encoding_map encoding;
            src \<leftarrow> mem_read str s_len;
            (_, bp1) \<leftarrow> buffer_prepare_append g bp (enc_count tab encoding src 0);
            b1 \<leftarrow> bp1;
            m1 \<leftarrow> b_ptr b1;
            (m2, d_len) \<leftarrow> enc_loop tab encoding m1 (b_used b1 - 1) 0 src;
            m3 \<leftarrow> mem_set m2 (b_used b1 + d_len - 1) NUL;
            Some (0, Some (b1\<lparr>b_ptr := Some m3, b_used := b_used b1 + d_len\<rparr>))
          })
       }
   | _ \<Rightarrow> Some (-1, bp))"

section \<open>Decoding in place\<close>

text \<open>The byte \<open>(high << 4) | low\<close>, with control characters mapped to an underscore.\<close>

definition decoded_char :: "char \<Rightarrow> char \<Rightarrow> char" where
  "decoded_char a b =
     (let v = (hexv a * 16) OR hexv b in
      if v < 32 \<or> v = 127 then CHR ''_'' else char_of v)"

function urldecode_loop :: "bool \<Rightarrow> char list \<Rightarrow> nat \<Rightarrow> nat \<Rightarrow> (char list \<times> nat) option" where
  "urldecode_loop is_query m src dst = do {
     c \<leftarrow> mem_get m src;
     (if c = NUL then Some (m, dst)
      else if is_query \<and> c = CHR ''+'' then do {
        m1 \<leftarrow> mem_set m dst CHR '' '';
        urldecode_loop is_query m1 (src + 1) (dst + 1)
      }
      else if c = CHR ''%'' then do {
        m1 \<leftarrow> mem_set m dst CHR ''%'';
        high \<leftarrow> mem_get m1 (src + 1);
        (if hexv high \<noteq> 255 then do {
           low \<leftarrow> mem_get m1 (src + 2);
           (if hexv low \<noteq> 255 then do {
              m2 \<leftarrow> mem_set m1 dst (decoded_char high low);
              urldecode_loop is_query m2 (src + 3) (dst + 1)
            }
            else urldecode_loop is_query m1 (src + 1) (dst + 1))
         }
         else urldecode_loop is_query m1 (src + 1) (dst + 1))
      }
      else do {
        m1 \<leftarrow> mem_set m dst c;
        urldecode_loop is_query m1 (src + 1) (dst + 1)
      })
   }"
  by pat_completeness auto
termination
  by (relation "measure (\<lambda>(q, m, src, dst). length m - src)")
    (auto simp: mem_get_def mem_set_def split: if_splits)

declare urldecode_loop.simps [simp del]

definition buffer_urldecode_internal :: "bool \<Rightarrow> bufp \<Rightarrow> bufres" where
  "buffer_urldecode_internal is_query url = (case url of
     None \<Rightarrow> Some (-1, None)
   | Some b \<Rightarrow> (case b_ptr b of
       None \<Rightarrow> Some (-1, url)
     | Some m \<Rightarrow> do {
         (m1, dst) \<leftarrow> urldecode_loop is_query m 0 0;
         m2 \<leftarrow> mem_set m1 dst NUL;
         Some (0, Some (b\<lparr>b_ptr := Some m2, b_used := dst + 1\<rparr>))
       }))"

definition buffer_urldecode_path :: "bufp \<Rightarrow> bufres" where
  "buffer_urldecode_path url = buffer_urldecode_internal False url"

definition buffer_urldecode_query :: "bufp \<Rightarrow> bufres" where
  "buffer_urldecode_query url = buffer_urldecode_internal True url"

section \<open>The encoder\<close>

definition encode_str :: "buffer_encoding_t \<Rightarrow> string \<Rightarrow> string" where
  "encode_str enc s = concat (map (\<lambda>c.
     if (case encoding_map enc of None \<Rightarrow> False | Some tab \<Rightarrow> tab ! uchar c) then enc_char enc c else [c]) s)"

lemma length_enc_char: "length (enc_char enc c) = enc_char_len enc"
  by (cases enc) auto

lemma enc_count_length:
  "enc_count tab enc cs d = d + length (concat (map (\<lambda>c. if tab ! uchar c then enc_char enc c else [c]) cs))"
  by (induction cs arbitrary: d) (auto simp: length_enc_char)

lemma enc_loop_spec:
  "length (concat (map (\<lambda>c. if tab ! uchar c then enc_char enc c else [c]) cs)) \<le> length r \<Longrightarrow> length u = d_len \<Longrightarrow>
   enc_loop tab enc (t @ u @ r) (length t) d_len cs =
     (let out = concat (map (\<lambda>c. if tab ! uchar c then enc_char enc c else [c]) cs)
      in Some (t @ u @ out @ drop (length out) r, d_len + length out))"
proof (induction cs arbitrary: u r d_len)
  case Nil
  then show ?case by simp
next
  case (Cons c cs)
  let ?o = "if tab ! uchar c then enc_char enc c else [c]"
  from Cons.prems have "length ?o \<le> length r" by simp
  then have "mem_copy ((t @ u) @ r) (length (t @ u)) ?o = Some ((t @ u) @ ?o @ drop (length ?o) r)"
    by (rule mem_copy_append)
  moreover have "enc_loop tab enc (t @ (u @ ?o) @ drop (length ?o) r) (length t) (d_len + length ?o) cs =
     (let out = concat (map (\<lambda>c. if tab ! uchar c then enc_char enc c else [c]) cs)
      in Some (t @ (u @ ?o) @ out @ drop (length out) (drop (length ?o) r), d_len + length ?o + length out))"
    using Cons.prems by (intro Cons.IH) auto
  ultimately show ?case
    using Cons.prems(2) by (simp add: Let_def add.commute)
qed

lemma buffer_append_string_encoded_spec:
  assumes "buffer_ok b" "buf_abs b = Some t" "n \<le> length s" "encoding \<noteq> ENCODING_UNSET"
  shows "\<exists>b'. buffer_append_string_encoded g (Some b) (Some s) n encoding = Some (0, Some b') \<and>
    buffer_ok b' \<and> buf_abs b' = Some (t @ encode_str encoding (take n s))"
proof -
  obtain r where b: "b_ptr b = Some (t @ NUL # r)" "b_used b = length t + 1"
    using buf_abs_SomeE [OF assms(1,2)] .
  obtain tab where tab: "encoding_map encoding = Some tab"
    using assms(4) by (cases encoding) auto
  let ?o = "encode_str encoding (take n s)"
  have o: "concat (map (\<lambda>c. if tab ! uchar c then enc_char encoding c else [c]) (take n s)) = ?o"
    by (simp add: encode_str_def tab)
  show ?thesis
  proof (cases "n = 0")
    case True
    with assms b show ?thesis
      by (simp add: buffer_append_string_encoded_def mem_simps encode_str_def)
  next
    case False
    obtain b1 m where p: "buffer_prepare_append g (Some b) (length ?o) = Some (0, Some b1)"
      "b_ptr b1 = Some m" "length m = b_size b1" "b_used b1 = b_used b" "b_used b + length ?o \<le> b_size b1"
      "take (b_used b) m = take (b_used b) (the (b_ptr b))"
      using prepare_append_spec [OF buffer_ok_wf [OF assms(1)]] by blast
    then obtain q where m: "m = t @ NUL # q"
      using b by (metis append.assoc append_Cons append_Nil append_take_drop_id length_append_singleton
          option.sel take_append append_eq_conv_conj Suc_eq_plus1)
    have loop: "enc_loop tab encoding (t @ NUL # q) (length t) 0 (take n s) =
        Some (t @ ?o @ drop (length ?o) (NUL # q), length ?o)"
      using enc_loop_spec [of tab encoding "take n s" "NUL # q" "[]" 0 t] p(3,5) b(2) m
      by (simp add: o Let_def)
    obtain x z where z: "drop (length ?o) (NUL # q) = x # z" "length (NUL # q) = length ?o + 1 + length z"
      using p(3,5) b(2) m by (cases "drop (length ?o) (NUL # q)") (auto dest: arg_cong [where f = length])
    let ?b = "b1\<lparr>b_ptr := Some ((t @ ?o) @ NUL # z), b_used := length (t @ ?o) + 1\<rparr>"
    have "mem_set (t @ ?o @ x # z) (length t + length ?o) NUL = Some ((t @ ?o) @ NUL # z)"
      using mem_set_append [of "t @ ?o" x z NUL] by simp
    then have "buffer_append_string_encoded g (Some b) (Some s) n encoding = Some (0, Some ?b)"
      using False b tab assms(3) p m loop z(1)
      by (simp add: buffer_append_string_encoded_def mem_simps enc_count_length o)
    then show ?thesis
      using buffer_okI [of ?b "t @ ?o" z] p(3) m z(2) by simp
  qed
qed

section \<open>The decoder\<close>

text \<open>The function of the string that the in-place loop computes.\<close>

fun url_decode :: "bool \<Rightarrow> string \<Rightarrow> string" where
  "url_decode q [] = []"
| "url_decode q (c # s) =
     (if q \<and> c = CHR ''+'' then CHR '' '' # url_decode q s
      else if c = CHR ''%'' then
        (case s of
           a # b # s' \<Rightarrow>
             if hexv a \<noteq> 255 \<and> hexv b \<noteq> 255 then decoded_char a b # url_decode q s'
             else CHR ''%'' # url_decode q s
         | _ \<Rightarrow> CHR ''%'' # url_decode q s)
      else c # url_decode q s)"

lemma hexv_NUL [simp]: "hexv NUL = 255"
  by (simp add: hexv_char)

text \<open>A write at \<open>dst\<close> when \<open>j\<close> characters that are already read lie between \<open>dst\<close> and the
  unread ones.\<close>

lemma mem_set_gap:
  assumes "j \<noteq> []"
  shows "mem_set (t @ j @ r) (length t) x = Some ((t @ [x]) @ tl j @ r)"
  using assms by (cases j) (simp_all add: mem_simps)

lemma mem_get_gap: "k < length s \<Longrightarrow> n = length t + length j + k \<Longrightarrow> mem_get (t @ j @ s) n = Some (s ! k)"
  by (simp add: mem_get_def nth_append)

lemma url_decode_percent:
  "url_decode q (CHR ''%'' # s) =
     (if 2 \<le> length s \<and> hexv (s ! 0) \<noteq> 255 \<and> hexv (s ! 1) \<noteq> 255
      then decoded_char (s ! 0) (s ! 1) # url_decode q (drop 2 s)
      else CHR ''%'' # url_decode q s)"
  by (auto split: list.splits)

lemma length_url_decode: "length (url_decode q s) \<le> length s"
proof (induction "length s" arbitrary: s rule: less_induct)
  case less
  show ?case
  proof (cases s)
    case (Cons c u)
    have "length (url_decode q u) \<le> length u" using less Cons by simp
    moreover have "length (url_decode q (drop 2 u)) \<le> length (drop 2 u)"
      using less [of "drop 2 u"] Cons by simp
    ultimately show ?thesis
      using Cons by (cases "c = CHR ''%''") (auto simp: url_decode_percent simp del: url_decode.simps(2), auto)
  qed simp
qed

lemma urldecode_loop_spec:
  assumes "NUL \<notin> set s"
  shows "\<exists>r'. urldecode_loop q (t @ j @ s @ NUL # r) (length t + length j) (length t) =
      Some (t @ url_decode q s @ r', length t + length (url_decode q s)) \<and>
    length r' + length (url_decode q s) = length j + length s + 1 + length r"
  using assms
proof (induction "length s" arbitrary: s t j rule: less_induct)
  case less
  show ?case
  proof (cases s)
    case Nil
    have "mem_get (t @ j @ NUL # r) (length t + length j) = Some NUL"
      using mem_get_gap [of 0 "NUL # r" _ t j] by simp
    with Nil show ?thesis
      by (subst urldecode_loop.simps) simp
  next
    case (Cons c u)
    have c: "mem_get (t @ j @ c # u @ NUL # r) (length t + length j) = Some c" "c \<noteq> NUL" "NUL \<notin> set u"
      using mem_get_gap [of 0 "c # u @ NUL # r" _ t j] less(2) Cons by auto
    have set: "mem_set (t @ j @ c # u @ NUL # r) (length t) x = Some ((t @ [x]) @ tl (j @ [c]) @ u @ NUL # r)" for x
      using mem_set_gap [of "j @ [c]" t "u @ NUL # r" x] by simp
    have get: "mem_get ((t @ [x]) @ tl (j @ [c]) @ u @ NUL # r) (length t + length j + 1 + k) = Some ((u @ NUL # r) ! k)"
      if "k \<le> length u" for k x
      using mem_get_gap [of k "u @ NUL # r" _ "t @ [x]" "tl (j @ [c])"] that by simp
    have step: "\<exists>r'. urldecode_loop q ((t @ [x]) @ tl (j @ [c]) @ u @ NUL # r) (length t + length j + 1) (length t + 1) =
        Some (t @ (x # url_decode q u) @ r', length t + length (x # url_decode q u)) \<and>
      length r' + length (x # url_decode q u) = length j + length (c # u) + 1 + length r" for x
      using less(1) [of u "t @ [x]" "tl (j @ [c])"] Cons c(3) by auto
    show ?thesis
    proof (cases "c = CHR ''%''")
      case False
      with Cons c set step [of "CHR '' ''"] step [of c] show ?thesis
        by (subst urldecode_loop.simps) auto
    next
      case pct: True
      show ?thesis
      proof (cases "2 \<le> length u \<and> hexv (u ! 0) \<noteq> 255 \<and> hexv (u ! 1) \<noteq> 255")
        case True
        then obtain a b v where u: "u = a # b # v" by (cases u; cases "tl u") auto
        let ?x = "decoded_char a b" and ?j = "tl (j @ [c, a, b])"
        have "mem_set ((t @ [CHR ''%'']) @ tl (j @ [c]) @ u @ NUL # r) (length t) ?x =
            Some ((t @ [?x]) @ ?j @ v @ NUL # r)"
          using u by (cases j) (simp_all add: mem_simps)
        moreover have "\<exists>r'. urldecode_loop q ((t @ [?x]) @ ?j @ v @ NUL # r) (length t + length j + 3) (length t + 1) =
            Some (t @ (?x # url_decode q v) @ r', length t + length (?x # url_decode q v)) \<and>
            length r' + length (?x # url_decode q v) = length j + length s + 1 + length r"
          using less(1) [of v "t @ [?x]" ?j] Cons u c(3) by (auto simp: numeral_3_eq_3)
        moreover have "url_decode q s = ?x # url_decode q v"
          using Cons pct u True by simp
        ultimately show ?thesis
          using Cons pct c(1,2) set [of "CHR ''%''"] get [of 0 "CHR ''%''"] get [of 1 "CHR ''%''"] True u
          by (subst urldecode_loop.simps) (auto simp del: url_decode.simps)
      next
        case False
        have "(u @ NUL # r) ! 1 = u ! 1" if "2 \<le> length u" using that by (simp add: nth_append)
        moreover have "length u = 1 \<Longrightarrow> (u @ NUL # r) ! 1 = NUL" by (simp add: nth_append)
        moreover have "u = [] \<Longrightarrow> (u @ NUL # r) ! 0 = NUL" "u \<noteq> [] \<Longrightarrow> (u @ NUL # r) ! 0 = u ! 0"
          by (simp_all add: nth_append)
        ultimately have "hexv ((u @ NUL # r) ! 0) = 255 \<or> (u \<noteq> [] \<and> hexv ((u @ NUL # r) ! 1) = 255)"
          using False by (cases u; cases "tl u") auto
        moreover have "url_decode q s = CHR ''%'' # url_decode q u"
          using Cons pct False by (simp only: url_decode_percent if_False)
        ultimately show ?thesis
          using Cons pct c(1,2) set [of "CHR ''%''"] get [of 0 "CHR ''%''"] get [of 1 "CHR ''%''"]
            step [of "CHR ''%''"]
          by (subst urldecode_loop.simps) (auto simp: Suc_le_eq simp del: url_decode.simps)
      qed
    qed
  qed
qed

lemma buffer_urldecode_internal_spec:
  assumes "buffer_ok b" "buf_abs b = Some s" "NUL \<notin> set s"
  shows "\<exists>b'. buffer_urldecode_internal q (Some b) = Some (0, Some b') \<and>
    buffer_ok b' \<and> buf_abs b' = Some (url_decode q s)"
proof -
  obtain r where b: "b_ptr b = Some (s @ NUL # r)" "b_size b = length s + 1 + length r"
    using buf_abs_SomeE [OF assms(1,2)] .
  let ?d = "url_decode q s"
  obtain r' where r': "urldecode_loop q (s @ NUL # r) 0 0 = Some (?d @ r', length ?d)"
    "length r' + length ?d = length s + 1 + length r"
    using urldecode_loop_spec [OF assms(3), of q "[]" "[]" r] by auto
  with length_url_decode [of q s] obtain x z where z: "r' = x # z" by (cases r') auto
  let ?b = "b\<lparr>b_ptr := Some (?d @ NUL # z), b_used := length ?d + 1\<rparr>"
  have "buffer_urldecode_internal q (Some b) = Some (0, Some ?b)"
    using b r' z by (simp add: buffer_urldecode_internal_def mem_simps)
  then show ?thesis
    using buffer_okI [of ?b ?d z] b r'(2) z by simp
qed

section \<open>What decoding guarantees\<close>

definition ctl_char :: "char \<Rightarrow> bool" where
  "ctl_char c = (uchar c < 32 \<or> uchar c = 127)"

lemma hexv_less: "hexv c \<noteq> 255 \<Longrightarrow> hexv c < 16"
  by (auto simp: hexv_char split: if_splits)

lemma nibbles: "b < 16 \<Longrightarrow> (a * 16) OR b = a * 16 + (b::nat)"
proof -
  assume "b < 16"
  then have "take_bit 4 b = b" by (simp add: take_bit_nat_eq_self)
  moreover have "push_bit 4 a AND take_bit 4 b = 0" by (auto simp: bit_eq_iff bit_simps)
  ultimately show ?thesis
    using disjunctive_add_eq_or [of "push_bit 4 a" b] by (simp add: push_bit_eq_mult)
qed

lemma decoded_char_not_ctl:
  assumes "hexv a \<noteq> 255" "hexv b \<noteq> 255"
  shows "\<not> ctl_char (decoded_char a b)"
proof -
  have "hexv a * 16 + hexv b < 256"
    using hexv_less [OF assms(1)] hexv_less [OF assms(2)] by simp
  then show ?thesis
    using nibbles [OF hexv_less [OF assms(2)], of "hexv a"]
    by (auto simp: decoded_char_def ctl_char_def Let_def)
qed

lemma url_decode_no_ctl:
  "list_all (\<lambda>c. \<not> ctl_char c) s \<Longrightarrow> list_all (\<lambda>c. \<not> ctl_char c) (url_decode q s)"
proof (induction "length s" arbitrary: s rule: less_induct)
  case less
  show ?case
  proof (cases s)
    case (Cons c u)
    have u: "list_all (\<lambda>c. \<not> ctl_char c) (url_decode q u)"
      using less Cons by simp
    have "list_all (\<lambda>c. \<not> ctl_char c) (drop 2 u)"
      using less(2) Cons by (auto simp: list_all_iff dest: in_set_dropD)
    then have d: "list_all (\<lambda>c. \<not> ctl_char c) (url_decode q (drop 2 u))"
      using less(1) [of "drop 2 u"] Cons by simp
    have "\<not> ctl_char CHR ''%''" "\<not> ctl_char CHR '' ''" by (simp_all add: ctl_char_def)
    with u d less(2) Cons show ?thesis
      by (cases "c = CHR ''%''")
        (auto simp: url_decode_percent decoded_char_not_ctl simp del: url_decode.simps(2), auto)
  qed simp
qed

text \<open>The table of \<open>ENCODING_REL_URI\<close> is the one its comment describes: everything but
  \<open>! ( ) * - . /\<close>, digits, letters and the underscore.\<close>

lemma encoded_chars_rel_uri_percent: "encoded_chars_rel_uri ! uchar (CHR ''%'')"
  by (simp add: encoded_chars_rel_uri_def enc_table_def)

lemma encoded_chars_rel_uri_plus: "encoded_chars_rel_uri ! uchar (CHR ''+'')"
  by (simp add: encoded_chars_rel_uri_def enc_table_def)

lemma decoded_char_hexc:
  assumes "\<not> ctl_char c"
  shows "decoded_char (hexc (uchar c div 16)) (hexc (uchar c)) = c"
proof -
  have "uchar c div 16 < 16" using uchar_less [of c] by (simp add: less_mult_imp_div_less del: nat_of_char_less_256)
  then have "uchar c div 16 mod 16 = uchar c div 16" by simp
  then have "hexv (hexc (uchar c div 16)) * 16 OR hexv (hexc (uchar c)) = uchar c"
    using nibbles [of "uchar c mod 16" "uchar c div 16"] by (simp add: hexv_hexc)
  with assms show ?thesis by (simp add: decoded_char_def ctl_char_def)
qed

lemma url_decode_encode:
  "list_all (\<lambda>c. \<not> ctl_char c) s \<Longrightarrow> url_decode q (encode_str ENCODING_REL_URI s) = s"
proof (induction s)
  case Nil
  then show ?case by (simp add: encode_str_def)
next
  case (Cons c s)
  have IH: "url_decode q (encode_str ENCODING_REL_URI s) = s" using Cons by simp
  show ?case
  proof (cases "encoded_chars_rel_uri ! uchar c")
    case True
    then have "encode_str ENCODING_REL_URI (c # s) =
        CHR ''%'' # hexc (uchar c div 16) # hexc (uchar c) # encode_str ENCODING_REL_URI s"
      by (simp add: encode_str_def)
    moreover have "hexv (hexc n) \<noteq> 255" for n by (simp add: hexv_hexc)
    ultimately show ?thesis
      using IH Cons.prems by (simp add: decoded_char_hexc)
  next
    case False
    then have "c \<noteq> CHR ''%''" "c \<noteq> CHR ''+''"
      using encoded_chars_rel_uri_percent encoded_chars_rel_uri_plus by auto
    moreover from False have "encode_str ENCODING_REL_URI (c # s) = c # encode_str ENCODING_REL_URI s"
      by (simp add: encode_str_def)
    ultimately show ?thesis using IH by simp
  qed
qed

lemma encode_str_no_NUL:
  assumes "list_all (\<lambda>c. \<not> ctl_char c) s"
  shows "NUL \<notin> set (encode_str ENCODING_REL_URI s)"
proof -
  have "NUL \<noteq> hexc n" for n using hexc_cases [of n] by (auto simp: hex_chars_def)
  then have "NUL \<notin> set (enc_char ENCODING_REL_URI c)" for c by simp
  with assms show ?thesis by (auto simp: encode_str_def list_all_iff ctl_char_def split: if_splits)
qed

section \<open>Properties\<close>

text \<open>C33. Decoding what the URI encoder wrote gives the string back: for every string of printable
  characters, appending it encoded to an empty string and decoding in place, as a path or as a
  query, never leaves a block and restores the string.\<close>

theorem url_encode_decode:
  assumes "list_all (\<lambda>c. \<not> ctl_char c) s" "buffer_ok b" "buf_abs b = Some []"
  shows "\<exists>b1 b2. buffer_append_string_encoded g (Some b) (Some s) (length s) ENCODING_REL_URI = Some (0, Some b1) \<and>
    buffer_urldecode_internal q (Some b1) = Some (0, Some b2) \<and> buffer_ok b2 \<and> buf_abs b2 = Some s"
proof -
  obtain b1 where b1: "buffer_append_string_encoded g (Some b) (Some s) (length s) ENCODING_REL_URI = Some (0, Some b1)"
    "buffer_ok b1" "buf_abs b1 = Some (encode_str ENCODING_REL_URI s)"
    using buffer_append_string_encoded_spec [OF assms(2,3), of "length s" s ENCODING_REL_URI g] by auto
  have "NUL \<notin> set (encode_str ENCODING_REL_URI s)"
    using assms(1) by (rule encode_str_no_NUL)
  from buffer_urldecode_internal_spec [OF b1(2,3) this, of q] url_decode_encode [OF assms(1), of q] b1(1)
  show ?thesis by auto
qed

theorem url_encode_decode_witness:
  "\<exists>b1 b2. buffer_append_string_encoded (\<lambda>_. NUL) (Some (mkbuf [])) (Some ''a b%'') 4 ENCODING_REL_URI = Some (0, Some b1) \<and>
    buffer_urldecode_internal True (Some b1) = Some (0, Some b2) \<and> buffer_ok b2 \<and> buf_abs b2 = Some ''a b%''"
  using url_encode_decode [of "''a b%''" "mkbuf []" "\<lambda>_. NUL" True]
  by (simp add: ctl_char_def numeral_eq_Suc)

text \<open>C34. Decoding a path in place is safe, never lengthens it, and turns no escape sequence into a
  control character: a path without control characters has none afterwards either, in particular no
  NUL that would cut it short.\<close>

theorem urldecode_path_safe:
  assumes "buffer_ok b" "buf_abs b = Some s" "list_all (\<lambda>c. \<not> ctl_char c) s"
  shows "\<exists>b' t. buffer_urldecode_path (Some b) = Some (0, Some b') \<and> buffer_ok b' \<and> buf_abs b' = Some t \<and>
    t = url_decode False s \<and> length t \<le> length s \<and> list_all (\<lambda>c. \<not> ctl_char c) t"
proof -
  have "NUL \<notin> set s" using assms(3) by (auto simp: list_all_iff ctl_char_def)
  with buffer_urldecode_internal_spec [OF assms(1,2), of False] show ?thesis
    using length_url_decode [of False s] url_decode_no_ctl [OF assms(3), of False]
    by (simp add: buffer_urldecode_path_def)
qed

theorem urldecode_path_safe_witness:
  "\<exists>b' t. buffer_urldecode_path (Some (mkbuf ''/a%00%2e'')) = Some (0, Some b') \<and> buffer_ok b' \<and>
    buf_abs b' = Some t \<and> t = ''/a_.'' \<and> length t \<le> 8 \<and> list_all (\<lambda>c. \<not> ctl_char c) t"
  using urldecode_path_safe [of "mkbuf ''/a%00%2e''" "''/a%00%2e''"]
  by (simp add: ctl_char_def decoded_char_def hexv_char char_of_def bit_0)

end
