(* ===== verification/PathSimplify.thy ===== *)
theory PathSimplify
  imports Buffer
begin

text \<open>
  \<open>buffer_path_simplify\<close> of \<open>buffer.c\<close>, which removes \<open>/../\<close>, \<open>//\<close> and \<open>/./\<close> from the path of
  a request. The model keeps the two blocks, the three cursors \<open>walk\<close>, \<open>out\<close> and \<open>slash\<close> as
  offsets, and the 16-bit window \<open>pre\<close> over the last two characters. A source block \<open>None\<close>
  stands for the in-place call (\<open>src == dest\<close>), where every read goes to the block that is
  being written. The lemmas show that the in-place call computes what the call with two buffers
  computes, that both stay inside their blocks, and that the result is the one a reference
  definition over the list of path components gives.
\<close>

section \<open>The code\<close>

text \<open>\<open>pre = (pre << 8) | pre1\<close>: \<open>pre1\<close> is a signed \<open>char\<close>, \<open>pre\<close> an \<open>unsigned short\<close>.\<close>

definition pre_shift :: "16 word \<Rightarrow> char \<Rightarrow> 16 word" where
  "pre_shift pre pre1 = push_bit 8 pre OR word_of_int (schar pre1)"

text \<open>\<open>while (out > start && *out != '/') out--;\<close>\<close>

fun back_to_slash :: "char list \<Rightarrow> nat \<Rightarrow> nat option" where
  "back_to_slash m 0 = Some 0"
| "back_to_slash m (Suc n) = do {
     ch \<leftarrow> mem_get m (Suc n);
     (if ch \<noteq> CHR ''/'' then back_to_slash m n else Some (Suc n))
   }"

text \<open>The end of a path component: the new value of \<open>out\<close>, which is also that of \<open>slash\<close>.\<close>

definition token_end :: "char list \<Rightarrow> nat \<Rightarrow> nat \<Rightarrow> 16 word \<Rightarrow> char \<Rightarrow> nat option" where
  "token_end m out slash pre c =
     (if out - slash = 3 \<and> pre = 0x2E2E then do {
        out1 \<leftarrow> (if slash > 0 then back_to_slash m (slash - 1) else Some slash);
        Some (if c = NUL then out1 + 1 else out1)
      }
      else if out - slash = 1 \<or> pre = 0x2F2E then
        Some (if c = NUL then slash + 1 else slash)
      else Some out)"

definition src_get :: "char list option \<Rightarrow> char list \<Rightarrow> nat \<Rightarrow> char option" where
  "src_get sm m i = (case sm of None \<Rightarrow> mem_get m i | Some s \<Rightarrow> mem_get s i)"

function simplify_loop ::
  "char list option \<Rightarrow> char list \<Rightarrow> nat \<Rightarrow> nat \<Rightarrow> nat \<Rightarrow> 16 word \<Rightarrow> char \<Rightarrow> (char list \<times> nat) option" where
  "simplify_loop sm m walk out slash pre c = do {
     (out1, slash1) \<leftarrow> (if c = CHR ''/'' \<or> c = NUL
                        then do { p \<leftarrow> token_end m out slash pre c; Some (p, p) }
                        else Some (out, slash));
     (if c = NUL then do {
        m1 \<leftarrow> mem_set m out1 NUL;
        Some (m1, out1)
      }
      else do {
        c1 \<leftarrow> src_get sm m walk;
        m1 \<leftarrow> mem_set m out1 c;
        simplify_loop sm m1 (walk + 1) (out1 + 1) slash1 (pre_shift pre c) c1
      })
   }"
  by pat_completeness auto
termination
  by (relation "measure (\<lambda>(sm, m, walk, out, slash, pre, c). (case sm of None \<Rightarrow> length m | Some s \<Rightarrow> length s) - walk)")
    (auto simp: src_get_def mem_get_def mem_set_def split: if_splits option.splits)

declare simplify_loop.simps [simp del]

text \<open>\<open>while (*walk == ' ') walk++;\<close>\<close>

function skip_spaces :: "char list \<Rightarrow> nat \<Rightarrow> nat option" where
  "skip_spaces s walk = do {
     ch \<leftarrow> mem_get s walk;
     (if ch = CHR '' '' then skip_spaces s (walk + 1) else Some walk)
   }"
  by pat_completeness auto
termination
  by (relation "measure (\<lambda>(s, walk). length s - walk)") (auto simp: mem_get_def split: if_splits)

declare skip_spaces.simps [simp del]

text \<open>Everything from the first read of \<open>walk\<close> on, for the destination block \<open>m\<close> and the source
  block \<open>sm\<close>: the block and \<open>dest->used\<close>.\<close>

definition simplify_body :: "char list option \<Rightarrow> char list \<Rightarrow> (char list \<times> nat) option" where
  "simplify_body sm m = do {
     walk \<leftarrow> skip_spaces (case sm of None \<Rightarrow> m | Some s \<Rightarrow> s) 0;
     pre1 \<leftarrow> src_get sm m walk;
     c \<leftarrow> src_get sm m (walk + 1);
     (m1, out, pre) \<leftarrow> (if pre1 \<noteq> CHR ''/'' then do {
         m0 \<leftarrow> mem_set m 0 CHR ''/'';
         Some (m0, 1, pre_shift 0x002F pre1)
       }
       else Some (m, 0, word_of_int (schar pre1)));
     m2 \<leftarrow> mem_set m1 out pre1;
     (if pre1 = NUL then Some (m2, out + 1 + 1)
      else do {
        (m3, out1) \<leftarrow> simplify_loop sm m2 (walk + 2) (out + 1) 0 pre c;
        Some (m3, out1 + 1)
      })
   }"

text \<open>The call with two distinct buffers, and the call with \<open>src == dest\<close>.\<close>

definition buffer_path_simplify :: "junk \<Rightarrow> bufp \<Rightarrow> bufp \<Rightarrow> bufres" where
  "buffer_path_simplify g dest src = (case (src, dest) of
     (Some sb, Some d) \<Rightarrow> (case b_ptr sb of
         None \<Rightarrow> Some (-1, dest)
       | Some s \<Rightarrow> do {
           (_, dp1) \<leftarrow> buffer_prepare_copy g dest (b_used sb + 1);
           d1 \<leftarrow> dp1;
           m \<leftarrow> b_ptr d1;
           (m1, used) \<leftarrow> simplify_body (Some s) m;
           Some (0, Some (d1\<lparr>b_ptr := Some m1, b_used := used\<rparr>))
         })
   | _ \<Rightarrow> Some (-1, dest))"

definition buffer_path_simplify_inplace :: "junk \<Rightarrow> bufp \<Rightarrow> bufres" where
  "buffer_path_simplify_inplace g dest = (case dest of
     None \<Rightarrow> Some (-1, dest)
   | Some d \<Rightarrow> (case b_ptr d of
         None \<Rightarrow> Some (-1, dest)
       | Some _ \<Rightarrow> do {
           (_, dp1) \<leftarrow> buffer_prepare_append g dest 1;
           d1 \<leftarrow> dp1;
           m \<leftarrow> b_ptr d1;
           (m1, used) \<leftarrow> simplify_body None m;
           Some (0, Some (d1\<lparr>b_ptr := Some m1, b_used := used\<rparr>))
         }))"

section \<open>The reference\<close>

fun split_slash :: "string \<Rightarrow> string list" where
  "split_slash [] = [[]]"
| "split_slash (c # s) = (if c = CHR ''/'' then [] # split_slash s
     else (c # hd (split_slash s)) # tl (split_slash s))"

definition special_comp :: "string \<Rightarrow> bool" where
  "special_comp w \<longleftrightarrow> w = [] \<or> w = ''.'' \<or> w = ''..''"

definition path_push :: "string list \<Rightarrow> string \<Rightarrow> string list" where
  "path_push st w = (if w = [] \<or> w = ''.'' then st else if w = ''..'' then butlast st else st @ [w])"

definition join_path :: "string list \<Rightarrow> string" where
  "join_path st = concat (map (\<lambda>w. CHR ''/'' # w) st)"

definition path_finish :: "string list \<Rightarrow> string \<Rightarrow> string" where
  "path_finish st s = join_path (foldl path_push st (split_slash s)) @
     (if special_comp (last (split_slash s)) then ''/'' else [])"

definition path_simplify :: "string \<Rightarrow> string" where
  "path_simplify s = (let p = dropWhile (\<lambda>c. c = CHR '' '') s
     in path_finish [] (if p \<noteq> [] \<and> hd p = CHR ''/'' then tl p else p))"

section \<open>The window\<close>

lemma take_pre_shift: "take_bit 8 (pre_shift q a) = of_nat (uchar a)"
proof -
  have "schar a mod 256 = int (uchar a)"
    using uchar_less [of a] by (simp add: schar_def del: nat_of_char_less_256)
  then have "take_bit 8 (schar a) = int (uchar a)" by (simp add: take_bit_eq_mod)
  then have "take_bit 8 (word_of_int (schar a) :: 16 word) = of_nat (uchar a)"
    by (simp add: take_bit_of_int)
  then show ?thesis by (simp add: pre_shift_def take_bit_push_bit)
qed

lemma not_bit_small: "n < 2 ^ k \<Longrightarrow> \<not> bit (n::nat) (k + i)"
proof -
  assume "n < 2 ^ k"
  also have "(2::nat) ^ k \<le> 2 ^ (k + i)" by simp
  finally show ?thesis by (simp add: bit_iff_odd)
qed

lemma drop_pre_shift:
  assumes "uchar a < 128"
  shows "drop_bit 8 (pre_shift q a) = take_bit 8 q"
proof (rule bit_word_eqI)
  fix i assume "i < LENGTH(16)"
  have "\<not> bit (uchar a) (8 + i)" using assms by (intro not_bit_small) simp
  with assms show "bit (drop_bit 8 (pre_shift q a)) i = bit (take_bit 8 q) i"
    by (auto simp: pre_shift_def schar_def bit_simps)
qed

lemma of_nat_uchar_eq:
  assumes "(of_nat (uchar a) :: 16 word) = of_nat n" "n < 256"
  shows "uchar a = n"
proof -
  have "uchar a < 2 ^ LENGTH(16)" using uchar_less [of a] by (simp del: nat_of_char_less_256)
  moreover have "n < 2 ^ LENGTH(16)" using assms(2) by simp
  ultimately show ?thesis using assms(1) by (simp add: word_of_nat_eq_iff take_bit_nat_eq_self del: nat_of_char_less_256)
qed

lemma uchar_dot_iff: "uchar a = 46 \<longleftrightarrow> a = CHR ''.''" "uchar a = 47 \<longleftrightarrow> a = CHR ''/''"
  using uchar_inject [of a "CHR ''.''"] uchar_inject [of a "CHR ''/''"] by simp_all

lemma pre_shift_low:
  assumes "pre_shift q b = w" "take_bit 8 w = 46"
  shows "b = CHR ''.''"
  using assms take_pre_shift [of q b] of_nat_uchar_eq [of b 46] uchar_dot_iff [of b] by auto

lemma pre_shift_two:
  assumes "take_bit 8 w = (46 :: 16 word)" "drop_bit 8 w = of_nat n" "n < 256"
    and "pre_shift (pre_shift q a) b = w"
  shows "b = CHR ''.''" "uchar a = n"
proof -
  show b: "b = CHR ''.''" using assms pre_shift_low by blast
  then have "take_bit 8 (pre_shift q a) = of_nat n"
    using drop_pre_shift [of b "pre_shift q a"] assms by simp
  then show "uchar a = n" using take_pre_shift [of q a] assms of_nat_uchar_eq [of a n] by simp
qed

lemma pre_dotdot_iff: "pre_shift (pre_shift q a) b = 0x2E2E \<longleftrightarrow> a = CHR ''.'' \<and> b = CHR ''.''"
proof
  assume "pre_shift (pre_shift q a) b = 0x2E2E"
  from pre_shift_two [OF _ _ _ this, of 46] show "a = CHR ''.'' \<and> b = CHR ''.''"
    by (simp add: uchar_dot_iff)
next
  assume *: "a = CHR ''.'' \<and> b = CHR ''.''"
  show "pre_shift (pre_shift q a) b = 0x2E2E"
    by (rule bit_word_eqI) (auto simp: * pre_shift_def schar_def bit_simps)
qed

lemma pre_slashdot_iff: "pre_shift (pre_shift q a) b = 0x2F2E \<longleftrightarrow> a = CHR ''/'' \<and> b = CHR ''.''"
proof
  assume "pre_shift (pre_shift q a) b = 0x2F2E"
  from pre_shift_two [OF _ _ _ this, of 47] show "a = CHR ''/'' \<and> b = CHR ''.''"
    by (simp add: uchar_dot_iff)
next
  assume *: "a = CHR ''/'' \<and> b = CHR ''.''"
  show "pre_shift (pre_shift q a) b = 0x2F2E"
    by (rule bit_word_eqI) (auto simp: * pre_shift_def schar_def bit_simps)
qed

text \<open>Over a whole component the window tells exactly whether it is \<open>..\<close> or \<open>.\<close>.\<close>

definition pre_of :: "16 word \<Rightarrow> string \<Rightarrow> 16 word" where
  "pre_of q cur = foldl pre_shift (pre_shift q CHR ''/'') cur"

lemma pre_of_snoc [simp]: "pre_shift (pre_of q cur) c = pre_of q (cur @ [c])"
  by (simp add: pre_of_def)

lemma pre_of_dotdot: "length cur = 2 \<Longrightarrow> pre_of q cur = 0x2E2E \<longleftrightarrow> cur = ''..''"
  by (auto simp: pre_of_def numeral_2_eq_2 length_Suc_conv pre_dotdot_iff)

lemma pre_of_slashdot:
  assumes "CHR ''/'' \<notin> set cur" "cur \<noteq> []"
  shows "pre_of q cur = 0x2F2E \<longleftrightarrow> cur = ''.''"
proof (cases cur rule: rev_cases)
  case (snoc ys b)
  then show ?thesis
    using assms by (cases ys rule: rev_cases) (auto simp: pre_of_def pre_slashdot_iff)
qed (use assms in simp)

section \<open>Components\<close>

lemma split_slash_neq [simp]: "split_slash s \<noteq> []"
  by (cases s) auto

lemma split_slash_plain: "CHR ''/'' \<notin> set w \<Longrightarrow> split_slash w = [w]"
  by (induction w) auto

lemma split_slash_append: "CHR ''/'' \<notin> set w \<Longrightarrow> split_slash (w @ CHR ''/'' # s) = w # split_slash s"
  by (induction w) auto

lemma split_slash_comps: "\<forall>w \<in> set (split_slash s). CHR ''/'' \<notin> set w"
proof (induction s)
  case (Cons c s)
  then show ?case by (cases "split_slash s") auto
qed simp

lemma join_path_simps [simp]: "join_path [] = []" "join_path (st @ [w]) = join_path st @ CHR ''/'' # w"
  by (simp_all add: join_path_def)

lemma path_finish_plain:
  "CHR ''/'' \<notin> set w \<Longrightarrow>
    path_finish st w = join_path (path_push st w) @ (if special_comp w then ''/'' else [])"
  by (simp add: path_finish_def split_slash_plain)

lemma path_finish_slash:
  "CHR ''/'' \<notin> set w \<Longrightarrow> path_finish st (w @ CHR ''/'' # s) = path_finish (path_push st w) s"
  by (simp add: path_finish_def split_slash_append)

section \<open>The loop\<close>

lemma back_to_slash_spec:
  assumes "CHR ''/'' \<notin> set w"
  shows "back_to_slash (a @ CHR ''/'' # w @ r) (length a + length w) = Some (length a)"
  using assms
proof (induction w arbitrary: r rule: rev_induct)
  case Nil
  then show ?case by (cases a) (auto simp: mem_get_def nth_append)
next
  case (snoc c w)
  have "back_to_slash (a @ CHR ''/'' # w @ c # r) (length a + length w) = Some (length a)"
    using snoc by simp
  with snoc.prems show ?case by (auto simp: mem_get_def nth_append)
qed

definition plain_stack :: "string list \<Rightarrow> bool" where
  "plain_stack st = list_all (\<lambda>w. CHR ''/'' \<notin> set w \<and> \<not> special_comp w) st"

lemma plain_stack_push: "plain_stack st \<Longrightarrow> CHR ''/'' \<notin> set w \<Longrightarrow> plain_stack (path_push st w)"
  by (auto simp: plain_stack_def path_push_def special_comp_def list_all_iff dest: in_set_butlastD)

lemma length_join_path_butlast:
  assumes "plain_stack st"
  shows "(if length (join_path st) > 0 then back_to_slash (join_path st @ r) (length (join_path st) - 1)
          else Some (length (join_path st))) = Some (length (join_path (butlast st)))"
proof (cases st rule: rev_cases)
  case (snoc ys w)
  then have "CHR ''/'' \<notin> set w" "length w > 0" using assms by (auto simp: plain_stack_def special_comp_def)
  then show ?thesis using back_to_slash_spec [of w "join_path ys" r] snoc by simp
qed simp

lemma length_join_butlast: "length (join_path (butlast st)) \<le> length (join_path st)"
  by (cases st rule: rev_cases) auto

text \<open>At the end of a component \<open>cur\<close> the output is cut back to the components that stay, plus
  the slash of a removed last component.\<close>

lemma token_end_spec:
  assumes "plain_stack st" "CHR ''/'' \<notin> set cur"
  shows "token_end (join_path st @ CHR ''/'' # cur @ r) (length (join_path st) + 1 + length cur)
      (length (join_path st)) (pre_of q cur) c =
    Some (length (join_path (path_push st cur)) + (if special_comp cur \<and> c = NUL then 1 else 0))"
proof -
  consider "cur = []" | "cur = ''.''" | "cur = ''..''" | "\<not> special_comp cur"
    by (auto simp: special_comp_def)
  then show ?thesis
  proof cases
    case 1
    then show ?thesis by (simp add: token_end_def path_push_def special_comp_def)
  next
    case 2
    moreover have "pre_of q ''.'' = 0x2F2E" by (simp add: pre_of_slashdot)
    ultimately show ?thesis by (simp add: token_end_def path_push_def special_comp_def)
  next
    case 3
    moreover have "pre_of q ''..'' = 0x2E2E" by (simp add: pre_of_dotdot)
    ultimately show ?thesis
      using length_join_path_butlast [OF assms(1), of "CHR ''/'' # cur @ r"]
      by (auto simp: token_end_def path_push_def special_comp_def split: if_splits)
  next
    case 4
    then have "length cur = 2 \<longrightarrow> pre_of q cur \<noteq> 0x2E2E" "pre_of q cur \<noteq> 0x2F2E" "cur \<noteq> []"
      using assms pre_of_dotdot [of cur q] pre_of_slashdot [of cur q] by (auto simp: special_comp_def)
    with 4 show ?thesis by (auto simp: token_end_def path_push_def special_comp_def)
  qed
qed

lemma butlast_prefix: "\<exists>z. join_path st @ CHR ''/'' # y = join_path (butlast st) @ CHR ''/'' # z \<and> length y \<le> length z"
  by (cases st rule: rev_cases) auto

lemma push_prefix:
  obtains z where "join_path st @ CHR ''/'' # cur @ x = join_path (path_push st cur) @ z" "length x \<le> length z"
proof -
  consider "cur = ''..''" | "cur = [] \<or> cur = ''.''" | "\<not> special_comp cur" by (auto simp: special_comp_def)
  then show thesis
  proof cases
    case 1
    obtain z where "join_path st @ CHR ''/'' # cur @ x = join_path (butlast st) @ CHR ''/'' # z" "length (cur @ x) \<le> length z"
      using butlast_prefix by blast
    with 1 that [of "CHR ''/'' # z"] show thesis by (simp add: path_push_def)
  next
    case 2
    with that [of "CHR ''/'' # cur @ x"] show thesis by (auto simp: path_push_def)
  next
    case 3
    with that [of x] show thesis by (simp add: path_push_def special_comp_def)
  qed
qed

lemma finish_prefix:
  assumes "CHR ''/'' \<notin> set cur"
  obtains z where "join_path st @ CHR ''/'' # cur @ x = path_finish st cur @ z" "length x \<le> length z"
    "length (path_finish st cur) = length (join_path (path_push st cur)) + (if special_comp cur then 1 else 0)"
proof -
  have len: "length (path_finish st cur) = length (join_path (path_push st cur)) + (if special_comp cur then 1 else 0)"
    using assms by (simp add: path_finish_plain)
  show thesis
  proof (cases "special_comp cur")
    case True
    then have push: "path_push st cur = st \<or> path_push st cur = butlast st"
      by (auto simp: path_push_def special_comp_def)
    obtain z where "join_path st @ CHR ''/'' # cur @ x = join_path (butlast st) @ CHR ''/'' # z" "length (cur @ x) \<le> length z"
      using butlast_prefix by blast
    with push True assms len that [of "cur @ x"] that [of z] show thesis by (auto simp: path_finish_plain)
  next
    case False
    with assms len that [of x] show thesis by (simp add: path_finish_plain path_push_def special_comp_def)
  qed
qed

text \<open>The rest \<open>w\<close> of the source, of which \<open>c\<close> is the first character, is consumed into the
  output; the block never needs more room than the path itself.\<close>

lemma simplify_loop_spec:
  assumes "plain_stack st" "CHR ''/'' \<notin> set cur" "NUL \<notin> set w" "length w < length x"
    and "w \<noteq> [] \<Longrightarrow> drop walk sm = tl w @ NUL # r"
  shows "\<exists>r'. simplify_loop (Some sm) (join_path st @ CHR ''/'' # cur @ x) walk
      (length (join_path st) + 1 + length cur) (length (join_path st)) (pre_of q cur) (hd (w @ [NUL])) =
    Some (path_finish st (cur @ w) @ NUL # r', length (path_finish st (cur @ w))) \<and>
    length (path_finish st (cur @ w) @ NUL # r') = length (join_path st @ CHR ''/'' # cur @ x)"
  using assms
proof (induction w arbitrary: st cur x walk q)
  case Nil
  obtain z where z: "join_path st @ CHR ''/'' # cur @ x = path_finish st cur @ z" "length x \<le> length z"
    "length (path_finish st cur) = length (join_path (path_push st cur)) + (if special_comp cur then 1 else 0)"
    using finish_prefix Nil.prems(2) by blast
  with Nil.prems(4) obtain d z' where z': "z = d # z'" by (cases z) auto
  have "token_end (join_path st @ CHR ''/'' # cur @ x) (length (join_path st) + 1 + length cur)
      (length (join_path st)) (pre_of q cur) NUL = Some (length (path_finish st cur))"
    unfolding token_end_spec [OF Nil.prems(1,2)] z(3) by simp
  then have "simplify_loop (Some sm) (join_path st @ CHR ''/'' # cur @ x) walk
      (length (join_path st) + 1 + length cur) (length (join_path st)) (pre_of q cur) NUL =
    Some (path_finish st cur @ NUL # z', length (path_finish st cur))"
    by (subst simplify_loop.simps) (simp add: z(1) z' mem_set_append)
  moreover have "length (path_finish st cur @ NUL # z') = length (join_path st @ CHR ''/'' # cur @ x)"
    unfolding z(1) z' by simp
  ultimately show ?case by simp
next
  case (Cons c w)
  have c: "c \<noteq> NUL" "NUL \<notin> set w" and room: "length (c # w) < length x" using Cons.prems by auto
  have "drop walk sm = w @ NUL # r" using Cons.prems by simp
  then have rd: "src_get (Some sm) m walk = Some (hd (w @ [NUL]))" for m
    by (cases w) (auto simp: src_get_def mem_get_drop)
  have nxt: "w \<noteq> [] \<Longrightarrow> drop (walk + 1) sm = tl w @ NUL # r"
    using \<open>drop walk sm = w @ NUL # r\<close> by (metis Suc_eq_plus1 drop_Suc tl_append2 tl_drop)
  show ?case
  proof (cases "c = CHR ''/''")
    case True
    obtain z where z: "join_path st @ CHR ''/'' # cur @ x = join_path (path_push st cur) @ z" "length x \<le> length z"
      using push_prefix .
    with room obtain d z' where z': "z = d # z'" "length w < length z'" by (cases z) auto
    from Cons.IH [OF plain_stack_push [OF Cons.prems(1,2)] _ c(2) z'(2) nxt, of "[]" "pre_of q cur"]
    obtain r' where IH: "simplify_loop (Some sm) (join_path (path_push st cur) @ CHR ''/'' # z') (walk + 1)
        (length (join_path (path_push st cur)) + 1) (length (join_path (path_push st cur)))
        (pre_shift (pre_of q cur) CHR ''/'') (hd (w @ [NUL])) =
      Some (path_finish (path_push st cur) w @ NUL # r', length (path_finish (path_push st cur) w))"
      and len: "length (path_finish (path_push st cur) w @ NUL # r') =
        length (join_path (path_push st cur) @ CHR ''/'' # z')"
      by (auto simp: pre_of_def)
    have fin: "path_finish st (cur @ c # w) = path_finish (path_push st cur) w"
      using Cons.prems(2) True by (simp add: path_finish_slash)
    have te: "token_end (join_path (path_push st cur) @ z) (length (join_path st) + 1 + length cur)
      (length (join_path st)) (pre_of q cur) CHR ''/'' = Some (length (join_path (path_push st cur)))"
      unfolding z(1) [symmetric] token_end_spec [OF Cons.prems(1,2)] by simp
    have "simplify_loop (Some sm) (join_path st @ CHR ''/'' # cur @ x) walk
        (length (join_path st) + 1 + length cur) (length (join_path st)) (pre_of q cur) c =
      Some (path_finish st (cur @ c # w) @ NUL # r', length (path_finish st (cur @ c # w)))"
      unfolding z(1) True
      using te IH by (subst simplify_loop.simps) (simp add: rd z' mem_set_append fin [unfolded True])
    moreover have "length (path_finish st (cur @ c # w) @ NUL # r') = length (join_path st @ CHR ''/'' # cur @ x)"
      unfolding fin len z(1) z'(1) by simp
    ultimately show ?thesis by auto
  next
    case False
    from room obtain d x' where x': "x = d # x'" "length w < length x'" by (cases x) auto
    from Cons.IH [OF Cons.prems(1) _ c(2) x'(2) nxt, of "cur @ [c]" q]
    obtain r' where IH: "simplify_loop (Some sm) (join_path st @ CHR ''/'' # cur @ c # x') (walk + 1)
        (length (join_path st) + 1 + length (cur @ [c])) (length (join_path st))
        (pre_of q (cur @ [c])) (hd (w @ [NUL])) =
      Some (path_finish st (cur @ c # w) @ NUL # r', length (path_finish st (cur @ c # w)))"
      and len: "length (path_finish st (cur @ c # w) @ NUL # r') = length (join_path st @ CHR ''/'' # cur @ c # x')"
      using Cons.prems(2) False by auto
    have st: "mem_set (join_path st @ CHR ''/'' # cur @ d # x') (length (join_path st) + 1 + length cur) c =
        Some (join_path st @ CHR ''/'' # cur @ c # x')"
      using mem_set_append [of "join_path st @ CHR ''/'' # cur" d x' c] by simp
    have "simplify_loop (Some sm) (join_path st @ CHR ''/'' # cur @ x) walk
        (length (join_path st) + 1 + length cur) (length (join_path st)) (pre_of q cur) c =
      Some (path_finish st (cur @ c # w) @ NUL # r', length (path_finish st (cur @ c # w)))"
      using st IH False c(1) by (subst simplify_loop.simps) (simp add: rd x'(1))
    with len show ?thesis by (auto simp: x'(1))
  qed
qed

section \<open>The in-place call\<close>

lemma back_to_slash_le: "back_to_slash m n = Some k \<Longrightarrow> k \<le> n"
  by (induction n) (auto simp: le_Suc_eq split: if_splits)

lemma token_end_le: "token_end m out slash pre c = Some p \<Longrightarrow> c \<noteq> NUL \<Longrightarrow> slash \<le> out \<Longrightarrow> p \<le> out"
  by (auto simp: token_end_def split: if_splits dest!: back_to_slash_le)

lemma src_get_same: "drop i m = drop i sm \<Longrightarrow> length m = length sm \<Longrightarrow> src_get None m i = src_get (Some sm) m i"
  by (simp add: src_get_def mem_get_def) (metis hd_drop_conv_nth)

text \<open>Reads are ahead of writes: with \<open>out \<le> walk\<close>, reading the block that is being written
  gives the characters of the source as it was before the call.\<close>

lemma simplify_loop_inplace:
  assumes "length m = length sm" "drop walk m = drop walk sm" "out \<le> walk" "slash \<le> out"
  shows "simplify_loop None m walk out slash pre c = simplify_loop (Some sm) m walk out slash pre c"
  using assms
proof (induction "length m - walk" arbitrary: m walk out slash pre c rule: less_induct)
  case less
  have step: "simplify_loop None m1 (Suc walk) (Suc out1) slash1 pre' c1 =
      simplify_loop (Some sm) m1 (Suc walk) (Suc out1) slash1 pre' c1"
    if "mem_set m out1 c = Some m1" "out1 \<le> walk" "slash1 \<le> out1" "src_get (Some sm) m walk = Some c1"
    for m1 out1 slash1 pre' c1
  proof -
    have m1: "m1 = m[out1 := c]" "walk < length m"
      using that less.prems by (auto simp: mem_set_def src_get_def mem_get_def split: if_splits)
    have "drop (Suc walk) m = drop (Suc walk) sm"
      using less.prems(2) by (metis drop_Suc tl_drop)
    with m1 that less.prems show ?thesis by (intro less.hyps) auto
  qed
  have "p \<le> walk" if "token_end m out slash pre c = Some p" "c \<noteq> NUL" for p
    using token_end_le [OF that less.prems(4)] less.prems(3) by simp
  with less.prems src_get_same [OF less.prems(2,1)] show ?case
    unfolding simplify_loop.simps [of None m walk out slash pre c]
      simplify_loop.simps [of "Some sm" m walk out slash pre c]
    by (auto simp: step intro!: Option.bind_cong)
qed

lemma simplify_body_inplace: "simplify_body None m = simplify_body (Some m) m"
proof -
  have g: "src_get None m i = src_get (Some m) m i" for i by (simp add: src_get_def)
  have "simplify_loop None m2 (walk + 2) (out + 1) 0 pre c = simplify_loop (Some m) m2 (walk + 2) (out + 1) 0 pre c"
    if "m2 = m[0 := a] \<and> out = 0 \<or> m2 = m[0 := a, 1 := b] \<and> out = 1" for m2 a b walk out pre c
    using that by (intro simplify_loop_inplace) auto
  then show ?thesis
    unfolding simplify_body_def
    by (auto simp: g mem_set_def intro!: Option.bind_cong split: if_splits option.splits)
qed

lemma skip_spaces_spec:
  assumes "NUL \<notin> set s"
  shows "skip_spaces (t @ s @ NUL # r) (length t) = Some (length t + length (takeWhile (\<lambda>c. c = CHR '' '') s))"
  using assms
proof (induction s arbitrary: t)
  case Nil
  then show ?case by (subst skip_spaces.simps) (simp add: mem_get_append)
next
  case (Cons c s)
  have "skip_spaces ((t @ [c]) @ s @ NUL # r) (length (t @ [c])) =
      Some (length (t @ [c]) + length (takeWhile (\<lambda>c. c = CHR '' '') s))"
    using Cons by (intro Cons.IH) simp
  then show ?case by (subst skip_spaces.simps) (auto simp: mem_get_append)
qed

section \<open>The whole operation\<close>

definition blank_path :: "string \<Rightarrow> bool" where
  "blank_path s = list_all (\<lambda>c. c = CHR '' '') s"

lemma simplify_body_spec:
  assumes "NUL \<notin> set s" "\<not> blank_path s" "length s + 2 \<le> length m"
  shows "\<exists>r'. simplify_body (Some (s @ NUL # r)) m = Some (path_simplify s @ NUL # r', length (path_simplify s) + 1) \<and>
    length (path_simplify s @ NUL # r') = length m"
proof -
  let ?sp = "takeWhile (\<lambda>c. c = CHR '' '') s" and ?sm = "s @ NUL # r"
  obtain a w where aw: "dropWhile (\<lambda>c. c = CHR '' '') s = a # w"
    using assms(2) by (cases "dropWhile (\<lambda>c. c = CHR '' '') s") (auto simp: blank_path_def list_all_iff)
  have s: "s = ?sp @ a # w" using takeWhile_dropWhile_id [of "\<lambda>c. c = CHR '' ''" s] aw by simp
  have sk: "skip_spaces ?sm 0 = Some (length ?sp)" using skip_spaces_spec [OF assms(1), of "[]" r] by simp
  have dr: "drop (length ?sp) ?sm = a # w @ NUL # r" by (subst (2) s) simp
  then have dr1: "drop (length ?sp + 1) ?sm = w @ NUL # r" by (metis Suc_eq_plus1 drop_Suc list.sel(3) tl_drop)
  have rd: "src_get (Some ?sm) m (length ?sp) = Some a" "src_get (Some ?sm) m (length ?sp + 1) = Some (hd (w @ [NUL]))"
    using mem_get_drop [OF dr] mem_get_drop [of "length ?sp + 1" ?sm] dr1 by (cases w; simp add: src_get_def)+
  have nx: "w \<noteq> [] \<Longrightarrow> drop (length ?sp + 2) ?sm = tl w @ NUL # r"
    using dr1 by (metis add_2_eq_Suc' Suc_eq_plus1 drop_Suc tl_append2 tl_drop)
  have nul: "a \<noteq> NUL" "NUL \<notin> set w" using assms(1) s by (metis UnCI in_set_conv_decomp set_append, metis UnCI list.set_intros(2) set_append)
  obtain m0 m1 x where m: "m = m0 # m1 # x" using assms(3) by (cases m; cases "tl m") auto
  have "length s = length ?sp + 1 + length w" using arg_cong [OF s, of length] by simp
  then have lw: "length w < length x" using assms(3) m by simp
  show ?thesis
  proof (cases "a = CHR ''/''")
    case True
    have ps: "path_simplify s = path_finish [] w" by (simp add: path_simplify_def aw True)
    obtain r' where "simplify_loop (Some ?sm) (CHR ''/'' # m1 # x) (length ?sp + 2) 1 0 (pre_of 0 []) (hd (w @ [NUL])) =
        Some (path_finish [] w @ NUL # r', length (path_finish [] w))"
      "length (path_finish [] w @ NUL # r') = length (CHR ''/'' # m1 # x)"
      using simplify_loop_spec [of "[]" "[]" w "m1 # x" "length ?sp + 2" ?sm r 0] nul nx lw
      by (auto simp: plain_stack_def)
    then show ?thesis
      using sk rd True unfolding ps
      by (simp add: simplify_body_def m mem_set_def pre_of_def pre_shift_def)
  next
    case False
    have ps: "path_simplify s = path_finish [] (a # w)" by (simp add: path_simplify_def aw False)
    obtain r' where "simplify_loop (Some ?sm) (CHR ''/'' # a # x) (length ?sp + 2) (Suc (Suc 0)) 0 (pre_of 0 [a]) (hd (w @ [NUL])) =
        Some (path_finish [] (a # w) @ NUL # r', length (path_finish [] (a # w)))"
      "length (path_finish [] (a # w) @ NUL # r') = length (CHR ''/'' # a # x)"
      using simplify_loop_spec [of "[]" "[a]" w "x" "length ?sp + 2" ?sm r 0] nul nx lw False
      by (auto simp: plain_stack_def)
    then show ?thesis
      using sk rd False nul unfolding ps
      by (simp add: simplify_body_def m mem_set_def pre_of_def pre_shift_def schar_def numeral_2_eq_2)
  qed
qed

lemma buffer_path_simplify_spec:
  assumes "buffer_wf d" "buffer_ok sb" "buf_abs sb = Some s" "NUL \<notin> set s" "\<not> blank_path s"
  shows "\<exists>d'. buffer_path_simplify g (Some d) (Some sb) = Some (0, Some d') \<and> buffer_ok d' \<and>
    buf_abs d' = Some (path_simplify s)"
proof -
  obtain r where sb: "b_ptr sb = Some (s @ NUL # r)" "b_used sb = length s + 1"
    using buf_abs_SomeE [OF assms(2,3)] by blast
  obtain d1 m where d1: "buffer_prepare_copy g (Some d) (b_used sb + 1) = Some (0, Some d1)"
    "b_ptr d1 = Some m" "length m = b_size d1" "b_used sb + 1 \<le> b_size d1"
    using prepare_copy_spec [OF assms(1)] by metis
  then obtain r' where "simplify_body (Some (s @ NUL # r)) m = Some (path_simplify s @ NUL # r', length (path_simplify s) + 1)"
    "length (path_simplify s @ NUL # r') = length m"
    using simplify_body_spec [OF assms(4,5), of m r] sb by auto
  with sb d1 show ?thesis
    by (auto simp: buffer_path_simplify_def intro!: buffer_okI)
qed

lemma buffer_path_simplify_inplace_spec:
  assumes "buffer_ok b" "buf_abs b = Some s" "NUL \<notin> set s" "\<not> blank_path s"
  shows "\<exists>b'. buffer_path_simplify_inplace g (Some b) = Some (0, Some b') \<and> buffer_ok b' \<and>
    buf_abs b' = Some (path_simplify s)"
proof -
  obtain q where b: "b_ptr b = Some (s @ NUL # q)" "b_used b = length s + 1" "b_size b = length s + 1 + length q"
    using buf_abs_SomeE [OF assms(1,2)] by blast
  obtain b1 m where b1: "buffer_prepare_append g (Some b) 1 = Some (0, Some b1)"
    "b_ptr b1 = Some m" "length m = b_size b1" "b_used b + 1 \<le> b_size b1"
    and keep: "take (b_used b) m = take (b_used b) (the (b_ptr b))"
    using prepare_append_spec [OF buffer_ok_wf [OF assms(1)], of g 1] by metis
  have "take (length s + 1) m = s @ [NUL]" using keep b by simp
  then obtain r where m: "m = s @ NUL # r" using append_take_drop_id [of "length s + 1" m] by (metis append.assoc append_Cons append_Nil)
  have "length s + 2 \<le> length m" using b b1 by simp
  then obtain r' where "simplify_body None m = Some (path_simplify s @ NUL # r', length (path_simplify s) + 1)"
    "length (path_simplify s @ NUL # r') = length m"
    using simplify_body_spec [OF assms(3,4), of m r] by (auto simp: simplify_body_inplace m)
  with b b1 show ?thesis
    by (auto simp: buffer_path_simplify_inplace_def intro!: buffer_okI)
qed

text \<open>A path with nothing but spaces: the early return counts the NUL that was stored twice, so
  that \<open>used\<close> is 3 for the string \<open>/\<close> and the third byte is whatever the block held.\<close>

lemma simplify_body_blank:
  assumes "blank_path s" "NUL \<notin> set s" "length m \<ge> 2" "r \<noteq> []"
  shows "simplify_body (Some (s @ NUL # r)) m = Some (CHR ''/'' # NUL # drop 2 m, 3)"
proof -
  have all: "takeWhile (\<lambda>c. c = CHR '' '') s = s" using assms(1) by (simp add: blank_path_def list_all_iff)
  have "skip_spaces (s @ NUL # r) 0 = Some (length s)"
    using skip_spaces_spec [OF assms(2), of "[]" r] unfolding all by simp
  moreover obtain m0 m1 x where "m = m0 # m1 # x" using assms(3) by (cases m; cases "tl m") auto
  moreover obtain c r1 where "r = c # r1" using assms(4) by (cases r) auto
  ultimately show ?thesis
    by (simp add: simplify_body_def src_get_def mem_get_def mem_set_def nth_append)
qed

section \<open>What the result looks like\<close>

lemma foldl_path_push_plain:
  "plain_stack st \<Longrightarrow> \<forall>w \<in> set ws. CHR ''/'' \<notin> set w \<Longrightarrow> plain_stack (foldl path_push st ws)"
  by (induction ws arbitrary: st) (auto intro: plain_stack_push)

lemma foldl_path_push_id: "plain_stack ws \<Longrightarrow> foldl path_push st ws = st @ ws"
  by (induction ws arbitrary: st) (auto simp: plain_stack_def path_push_def special_comp_def)

lemma split_join_path:
  assumes "plain_stack (w # st)"
  shows "split_slash (w @ join_path st) = w # st" "split_slash (w @ join_path st @ ''/'') = (w # st) @ [[]]"
  using assms
proof (induction st arbitrary: w)
  case Nil
  {
    case 1
    then show ?case by (simp add: plain_stack_def split_slash_plain)
  next
    case 2
    then show ?case using split_slash_append [of w "[]"] by (simp add: plain_stack_def)
  }
next
  case (Cons v st)
  {
    case 1
    then show ?case using Cons(1) [of v] split_slash_append [of w "v @ join_path st"]
      by (simp add: plain_stack_def join_path_def)
  next
    case 2
    then show ?case using Cons(2) [of v] split_slash_append [of w "v @ join_path st @ ''/''"]
      by (simp add: plain_stack_def join_path_def)
  }
qed

lemma path_finish_cases:
  obtains st where "plain_stack st" "st \<noteq> []" "path_finish [] s = join_path st"
  | st where "plain_stack st" "path_finish [] s = join_path st @ ''/''"
proof -
  let ?cs = "split_slash s"
  let ?st = "foldl path_push [] ?cs"
  have plain: "plain_stack ?st" using split_slash_comps by (intro foldl_path_push_plain) (auto simp: plain_stack_def)
  show thesis
  proof (cases "special_comp (last ?cs)")
    case True
    with plain that(2) show ?thesis by (simp add: path_finish_def)
  next
    case False
    have "?st = path_push (foldl path_push [] (butlast ?cs)) (last ?cs)"
      by (metis append_butlast_last_id foldl_Cons foldl_Nil foldl_append split_slash_neq)
    then have "?st \<noteq> []" using False by (auto simp: path_push_def special_comp_def)
    with plain that(1) False show ?thesis by (simp add: path_finish_def)
  qed
qed

text \<open>The result is a slash followed by the components that are left; the last one may be empty.\<close>

lemma path_simplify_shape:
  obtains st where "plain_stack st" "st \<noteq> []" "path_simplify s = join_path st" "split_slash (tl (path_simplify s)) = st"
  | st where "plain_stack st" "path_simplify s = join_path st @ ''/''" "split_slash (tl (path_simplify s)) = st @ [[]]"
proof -
  obtain p where p: "path_simplify s = path_finish [] p" by (simp add: path_simplify_def Let_def)
  show thesis
  proof (rule path_finish_cases [of p])
    fix st assume st: "plain_stack st" "st \<noteq> []" "path_finish [] p = join_path st"
    then obtain w st' where "st = w # st'" by (cases st) auto
    with st that(1) show thesis by (simp add: p split_join_path) (simp add: join_path_def split_join_path [unfolded join_path_def])
  next
    fix st assume st: "plain_stack st" "path_finish [] p = join_path st @ ''/''"
    show thesis
    proof (cases st)
      case Nil
      with st that(2) show thesis by (simp add: p)
    next
      case (Cons w st')
      with st that(2) show thesis by (simp add: p join_path_def split_join_path [unfolded join_path_def])
    qed
  qed
qed

lemma path_simplify_comps:
  assumes "w \<in> set (split_slash (path_simplify s))"
  shows "w \<noteq> ''..''" "w \<noteq> ''.''"
proof -
  have "w = [] \<or> (\<not> special_comp w)"
  proof (rule path_simplify_shape [of s])
    fix st assume st: "plain_stack st" "st \<noteq> []" "path_simplify s = join_path st" "split_slash (tl (path_simplify s)) = st"
    then have "split_slash (path_simplify s) = [] # st" by (cases st) (auto simp: join_path_def)
    with st(1) assms show ?thesis by (auto simp: plain_stack_def list_all_iff)
  next
    fix st assume st: "plain_stack st" "path_simplify s = join_path st @ ''/''" "split_slash (tl (path_simplify s)) = st @ [[]]"
    then have "split_slash (path_simplify s) = [] # st @ [[]]" by (cases st) (auto simp: join_path_def)
    with st(1) assms show ?thesis by (auto simp: plain_stack_def list_all_iff)
  qed
  then show "w \<noteq> ''..''" "w \<noteq> ''.''" by (auto simp: special_comp_def)
qed

lemma path_simplify_hd: "\<exists>q. path_simplify s = CHR ''/'' # q"
proof (rule path_simplify_shape [of s])
  fix st assume "plain_stack st" "st \<noteq> []" "path_simplify s = join_path st"
  then show ?thesis by (cases st) (auto simp: join_path_def)
next
  fix st assume "plain_stack st" "path_simplify s = join_path st @ ''/''"
  then show ?thesis by (cases st) (auto simp: join_path_def)
qed

lemma path_simplify_idem: "path_simplify (path_simplify s) = path_simplify s"
proof -
  obtain q where q: "path_simplify s = CHR ''/'' # q" using path_simplify_hd by blast
  then have "path_simplify (path_simplify s) = path_finish [] q"
    by (simp add: path_simplify_def)
  also have "\<dots> = path_simplify s"
  proof (rule path_simplify_shape [of s])
    fix st assume st: "plain_stack st" "st \<noteq> []" "path_simplify s = join_path st" "split_slash (tl (path_simplify s)) = st"
    then have "\<not> special_comp (last st)" by (simp add: plain_stack_def list_all_iff)
    moreover have "split_slash q = st" using st(4) q by simp
    ultimately show ?thesis using st(1,3) by (simp add: path_finish_def foldl_path_push_id)
  next
    fix st assume st: "plain_stack st" "path_simplify s = join_path st @ ''/''" "split_slash (tl (path_simplify s)) = st @ [[]]"
    moreover have "split_slash q = st @ [[]]" using st(3) q by simp
    ultimately show ?thesis by (simp add: path_finish_def foldl_path_push_id path_push_def special_comp_def)
  qed
  finally show ?thesis .
qed

lemma foldl_path_push_set: "set (join_path (foldl path_push st ws)) \<subseteq> set (join_path st) \<union> {CHR ''/''} \<union> (\<Union>w \<in> set ws. set w)"
proof (induction ws arbitrary: st)
  case (Cons w ws)
  have "set (join_path (path_push st w)) \<subseteq> set (join_path st) \<union> {CHR ''/''} \<union> set w"
    by (auto simp: path_push_def join_path_def dest: in_set_butlastD)
  with Cons [of "path_push st w"] show ?case by auto
qed auto

lemma split_slash_set: "w \<in> set (split_slash s) \<Longrightarrow> set w \<subseteq> set s"
proof (induction s arbitrary: w)
  case (Cons c s)
  obtain x xs where x: "split_slash s = x # xs" by (cases "split_slash s") auto
  with Cons.IH have "set x \<subseteq> set s" "\<And>v. v \<in> set xs \<Longrightarrow> set v \<subseteq> set s" by auto
  with Cons.prems x show ?case by (auto split: if_splits)
qed simp

lemma path_simplify_set: "set (path_simplify s) \<subseteq> insert (CHR ''/'') (set s)"
proof -
  have fin: "set (path_finish [] p) \<subseteq> insert (CHR ''/'') (set p)" for p
  proof -
    have "(\<Union>w \<in> set (split_slash p). set w) \<subseteq> set p" using split_slash_set by (rule UN_least)
    with foldl_path_push_set [of "[]" "split_slash p"] show ?thesis by (auto simp: path_finish_def)
  qed
  define p where "p = dropWhile (\<lambda>c. c = CHR '' '') s"
  have "set p \<subseteq> set s" by (auto simp: p_def dest: set_dropWhileD)
  moreover have "set (tl p) \<subseteq> set p" by (cases p) auto
  moreover have "path_simplify s = path_finish [] (if p \<noteq> [] \<and> hd p = CHR ''/'' then tl p else p)"
    by (simp add: path_simplify_def p_def Let_def)
  ultimately show ?thesis using fin [of p] fin [of "tl p"] by (cases "p \<noteq> [] \<and> hd p = CHR ''/''") auto
qed

section \<open>Properties\<close>

text \<open>Simplifying a path into another buffer is safe and computes the reference: components
  are collected from left to right, empty ones and \<open>.\<close> dropped, \<open>..\<close> removing the one before it,
  never going above the root.\<close>

theorem path_simplify_correct:
  assumes "buffer_wf d" "buffer_ok sb" "buf_abs sb = Some s" "NUL \<notin> set s" "\<not> blank_path s"
  shows "\<exists>d'. buffer_path_simplify g (Some d) (Some sb) = Some (0, Some d') \<and> buffer_ok d' \<and>
    buf_abs d' = Some (path_simplify s)"
  using assms by (rule buffer_path_simplify_spec)

theorem path_simplify_correct_witness:
  "\<exists>d'. buffer_path_simplify (\<lambda>_. NUL) (Some buffer_init) (Some (mkbuf ''/a/b/../../../etc/./x'')) = Some (0, Some d') \<and>
    buffer_ok d' \<and> buf_abs d' = Some ''/etc/x''"
  using path_simplify_correct [of buffer_init "mkbuf ''/a/b/../../../etc/./x''" "''/a/b/../../../etc/./x''" "\<lambda>_. NUL"]
  by (simp add: buffer_init_ok buffer_ok_wf blank_path_def path_simplify_def path_finish_def path_push_def
      join_path_def special_comp_def)

text \<open>C29. No path without NUL that is more than spaces can climb out of the document root: simplified in place and simplified into another
  buffer it gives the same string, which starts with a slash and of which no component is \<open>..\<close> or \<open>.\<close>. (The early
  return for a path of spaces leaves a string with a NUL in it.)\<close>

theorem path_simplify_no_dotdot:
  assumes "buffer_ok b" "buf_abs b = Some s" "NUL \<notin> set s" "\<not> blank_path s" "buffer_wf d"
  shows "\<exists>b' d' t. buffer_path_simplify_inplace g (Some b) = Some (0, Some b') \<and> buffer_ok b' \<and> buf_abs b' = Some (CHR ''/'' # t) \<and>
    buffer_path_simplify g (Some d) (Some b) = Some (0, Some d') \<and> buffer_ok d' \<and> buf_abs d' = Some (CHR ''/'' # t) \<and>
    list_all (\<lambda>w. w \<noteq> ''..'' \<and> w \<noteq> ''.'') (split_slash t)"
proof -
  obtain t where t: "path_simplify s = CHR ''/'' # t" using path_simplify_hd by blast
  moreover have "list_all (\<lambda>w. w \<noteq> ''..'' \<and> w \<noteq> ''.'') (split_slash t)"
    using path_simplify_comps [of _ s] by (auto simp: list_all_iff t)
  ultimately show ?thesis using buffer_path_simplify_inplace_spec [OF assms(1-4), of g] buffer_path_simplify_spec [OF assms(5,1-4), of g] by auto
qed

theorem path_simplify_no_dotdot_witness:
  "\<exists>b' d' t. buffer_path_simplify_inplace (\<lambda>_. NUL) (Some (mkbuf ''../..'')) = Some (0, Some b') \<and> buffer_ok b' \<and> buf_abs b' = Some (CHR ''/'' # t) \<and>
    buffer_path_simplify (\<lambda>_. NUL) (Some buffer_init) (Some (mkbuf ''../..'')) = Some (0, Some d') \<and> buf_abs d' = Some (CHR ''/'' # t) \<and>
    list_all (\<lambda>w. w \<noteq> ''..'' \<and> w \<noteq> ''.'') (split_slash t)"
proof -
  have "buffer_wf buffer_init" by (simp add: buffer_init_ok buffer_ok_wf)
  from path_simplify_no_dotdot [OF _ _ _ _ this, of "mkbuf ''../..''" "''../..''" "\<lambda>_. NUL"] show ?thesis by (auto simp: blank_path_def)
qed

text \<open>Simplifying twice changes nothing: the second call, in place on the result of the
  first, leaves the string as it is.\<close>

theorem path_simplify_twice:
  assumes "buffer_ok b" "buf_abs b = Some s" "NUL \<notin> set s" "\<not> blank_path s"
    and "buffer_path_simplify_inplace g (Some b) = Some (0, Some b1)"
  shows "\<exists>b2. buffer_path_simplify_inplace g (Some b1) = Some (0, Some b2) \<and> buffer_ok b2 \<and> buf_abs b2 = buf_abs b1"
proof -
  have b1: "buffer_ok b1" "buf_abs b1 = Some (path_simplify s)"
    using buffer_path_simplify_inplace_spec [OF assms(1-4), of g] assms(5) by auto
  have "NUL \<notin> set (path_simplify s)" using path_simplify_set [of s] assms(3) by auto
  moreover have "\<not> blank_path (path_simplify s)"
    using path_simplify_hd [of s] by (auto simp: blank_path_def)
  ultimately show ?thesis
    using buffer_path_simplify_inplace_spec [OF b1, of g] b1(2) by (simp add: path_simplify_idem)
qed

theorem path_simplify_twice_witness:
  "\<exists>b1 b2. buffer_path_simplify_inplace (\<lambda>_. NUL) (Some (mkbuf ''/a/../b'')) = Some (0, Some b1) \<and>
    buffer_path_simplify_inplace (\<lambda>_. NUL) (Some b1) = Some (0, Some b2) \<and> buffer_ok b2 \<and> buf_abs b2 = buf_abs b1"
proof -
  let ?b = "mkbuf ''/a/../b''"
  have h: "NUL \<notin> set ''/a/../b''" "\<not> blank_path ''/a/../b''" by (simp_all add: blank_path_def)
  obtain b1 where b1: "buffer_path_simplify_inplace (\<lambda>_. NUL) (Some ?b) = Some (0, Some b1)"
    using buffer_path_simplify_inplace_spec [OF mkbuf_ok(1,3) h, of "\<lambda>_. NUL"] by blast
  with path_simplify_twice [OF mkbuf_ok(1,3) h, of "\<lambda>_. NUL" b1] show ?thesis by blast
qed

end
