(* ===== verification/Response.thy ===== *)
theory Response
  imports ConnRead UrlCodec PathSimplify
begin

text \<open>
  The header of a response: \<open>http-header-glue.c\<close> (inserting and overwriting fields, the redirect to a directory, the cache of
  formatted times and the conditional requests) and \<open>http_response_write_header\<close> of \<open>response.c\<close>.

  The fields of \<open>renv\<close> are what these functions ask the C library and the system for: whether a string literal is aligned
  for the fast comparison, the contents of fresh memory, \<open>strftime\<close> of a time in GMT, \<open>mktime\<close> of a parsed date, and the
  name of the local end of the connection.
\<close>

datatype sock_name = Sockname_failed | Sockname_unsupported | Sock_name string

record renv =
  re_aligned :: "string \<Rightarrow> bool"
  re_junk :: "nat \<Rightarrow> nat"
  re_strftime :: "int \<Rightarrow> string"
  re_mktime :: "string \<Rightarrow> int option"
  re_sockname :: sock_name
  re_port :: nat

section \<open>Inserting and overwriting\<close>

text \<open>A value is a pointer, possibly \<open>NULL\<close>, with its length. A buffer without contents is passed as \<open>NULL\<close>: its pointer
  has never been allocated.\<close>

definition ds_copy_value :: "data_unset \<Rightarrow> bstr \<Rightarrow> data_unset option" where
  "ds_copy_value ds v = (case v of None \<Rightarrow> Some ds | Some s \<Rightarrow> ds_set_value ds s)"

definition response_header_insert :: "renv \<Rightarrow> array \<Rightarrow> string \<Rightarrow> bstr \<Rightarrow> array option" where
  "response_header_insert env a key val = do {
     (slot, a1) \<leftarrow> array_get_unused_element a;
     let ds = (case slot of None \<Rightarrow> data_response_init | Some ds \<Rightarrow> ds);
     ds1 \<leftarrow> ds_copy_value (ds\<lparr>du_key := Some key\<rparr>) val;
     (_, a2) \<leftarrow> array_insert_unique (re_junk env) a1 ds1;
     Some a2
   }"

text \<open>The overwriting copy is \<open>buffer_copy_string\<close>, which stops at a NUL.\<close>

definition response_header_overwrite :: "renv \<Rightarrow> array \<Rightarrow> string \<Rightarrow> bstr \<Rightarrow> array option" where
  "response_header_overwrite env a key val = do {
     (ndx, _) \<leftarrow> array_get_index (re_aligned env key) a (Some (key @ [NUL])) 0;
     (if ndx \<noteq> -1 then do {
        slot \<leftarrow> mem_get (a_data a) (nat ndx);
        ds \<leftarrow> slot;
        ds1 \<leftarrow> ds_copy_value ds (map_option c_str val);
        d \<leftarrow> mem_set (a_data a) (nat ndx) (Some ds1);
        Some (a\<lparr>a_data := d\<rparr>)
      }
      else response_header_insert env a key val)
   }"

section \<open>The redirect to a directory\<close>

definition redirect_host :: "renv \<Rightarrow> conn \<Rightarrow> (int \<times> conn) + bstr" where
  "redirect_host env con =
     (let o1 = Some (if cf_is_ssl (c_conf con) then ''https://'' else ''http://'') in
      case uri_authority (c_uri con) of
        Some a \<Rightarrow> Inr (bs_append_buffer o1 (Some a))
      | None \<Rightarrow>
          (case re_sockname env of
             Sockname_failed \<Rightarrow> Inl (0, set_status 500 con)
           | Sockname_unsupported \<Rightarrow> Inl (-1, con)
           | Sock_name n \<Rightarrow>
               (let o2 = bs_append o1 (c_str n) in
                Inr (if \<not> cf_is_ssl (c_conf con) \<and> re_port env = 80 \<or> cf_is_ssl (c_conf con) \<and> re_port env = 443 then o2
                     else bs_append (bs_append o2 '':'') (dec_int (int (re_port env)))))))"

definition http_response_redirect_to_directory :: "renv \<Rightarrow> conn \<Rightarrow> (int \<times> conn) option" where
  "http_response_redirect_to_directory env con = (case redirect_host env con of
     Inl r \<Rightarrow> Some r
   | Inr host \<Rightarrow> do {
       let o1 = bs_append (bs_append_buffer host (uri_path (c_uri con))) ''/'';
       let o2 = (case uri_query (c_uri con) of None \<Rightarrow> o1 | Some query \<Rightarrow> bs_append_buffer (bs_append o1 ''?'') (Some query));
       h \<leftarrow> response_header_insert env (c_response_headers con) ''Location'' o2;
       Some (0, set_status 301 (con\<lparr>c_response_headers := h, c_file_finished := True\<rparr>))
     })"

section \<open>The cache of formatted times\<close>

type_synonym mtime_cache = "(int \<times> bstr) list"

definition FILE_CACHE_MAX :: nat where "FILE_CACHE_MAX = 16"

definition mtime_cache_init :: mtime_cache where
  "mtime_cache_init = replicate FILE_CACHE_MAX (-1, None)"

text \<open>The loop: the entry of the time, or the slot to use.\<close>

fun mtime_search :: "int \<Rightarrow> nat \<Rightarrow> mtime_cache \<Rightarrow> bstr + nat" where
  "mtime_search last_mod i [] = Inr i"
| "mtime_search last_mod i ((mtime, str) # es) =
     (if mtime = last_mod then Inl str else if mtime = 0 then Inr i else mtime_search last_mod (Suc i) es)"

definition strftime_cache_get :: "renv \<Rightarrow> mtime_cache \<Rightarrow> int \<Rightarrow> bstr \<times> mtime_cache" where
  "strftime_cache_get env cache last_mod = (case mtime_search last_mod 0 cache of
     Inl str \<Rightarrow> (str, cache)
   | Inr i \<Rightarrow>
       (let j = (if i = FILE_CACHE_MAX then 0 else i); str = Some (re_strftime env last_mod) in
        (str, cache[j := (last_mod, str)])))"

section \<open>Conditional requests\<close>

text \<open>\<open>used_len\<close>: the date ends in front of the parameters.\<close>

definition date_part :: "string \<Rightarrow> string" where
  "date_part s = takeWhile (\<lambda>c. c \<noteq> CHR '';'') (c_str s)"

definition DATE_SIZE :: nat where "DATE_SIZE = length ''Sat, 23 Jul 2005 21:20:01 GMT'' + 1"

text \<open>\<open>strncmp(ims, mtime->ptr, used_len) == 0\<close>\<close>

definition same_date :: "string \<Rightarrow> string \<Rightarrow> bool option" where
  "same_date ims mtime = c_strneq (length (date_part ims)) (c_str ims @ [NUL]) (mtime @ [NUL])"

definition precondition_failed :: "conn \<Rightarrow> handler_t \<times> conn" where
  "precondition_failed con = (HANDLER_FINISHED, set_status 412 (con\<lparr>c_mode := DIRECT\<rparr>))"

definition not_modified :: "conn \<Rightarrow> handler_t \<times> conn" where
  "not_modified con = (HANDLER_FINISHED, set_status 304 con)"

definition header_text :: "conn \<Rightarrow> vref \<Rightarrow> string option" where
  "header_text con r = do { v \<leftarrow> vref_value (rq_headers (co_request (c_core con))) r; v }"

text \<open>The part that is written twice: the date of the request is compared with that of the file. \<open>strict\<close> in the branch
  that has found the entity tag, where a date that cannot be read is an error. That the date of the file cannot be read is
  a fault: its fields would not be determined.\<close>

definition check_date :: "renv \<Rightarrow> bool \<Rightarrow> string \<Rightarrow> string \<Rightarrow> conn \<Rightarrow> (handler_t \<times> conn) option" where
  "check_date env strict ims mtime con = do {
     same \<leftarrow> same_date ims mtime;
     let bad = (if strict then precondition_failed con else (HANDLER_GO_ON, con));
     (if same then Some (not_modified con)
      else if length (date_part ims) \<ge> DATE_SIZE then Some bad
      else (case re_mktime env (date_part ims) of
              None \<Rightarrow> Some bad
            | Some t_header \<Rightarrow> do {
                t_file \<leftarrow> re_mktime env (c_str mtime);
                Some (if t_file > t_header then (HANDLER_GO_ON, con) else not_modified con)
              }))
   }"

definition http_response_handle_cachable :: "renv \<Rightarrow> string \<Rightarrow> conn \<Rightarrow> (handler_t \<times> conn) option" where
  "http_response_handle_cachable env mtime con =
     (let rq = co_request (c_core con) in
      case rq_http_if_none_match rq of
        Some inm \<Rightarrow> do {
          tags \<leftarrow> header_text con inm;
          (if etag_is_equal (Some (ph_etag (c_physical con))) tags \<noteq> 0 then
             if method_of con = HTTP_METHOD_GET \<or> method_of con = HTTP_METHOD_HEAD then
               (case rq_http_if_modified_since rq of
                  Some ims \<Rightarrow> do { d \<leftarrow> header_text con ims; check_date env True d mtime con }
                | None \<Rightarrow> Some (not_modified con))
             else Some (precondition_failed con)
           else Some (HANDLER_GO_ON, con))
        }
      | None \<Rightarrow>
          (case rq_http_if_modified_since rq of
             Some ims \<Rightarrow> do { d \<leftarrow> header_text con ims; check_date env False d mtime con }
           | None \<Rightarrow> Some (HANDLER_GO_ON, con)))"

section \<open>Writing the header\<close>

text \<open>\<open>strcasecmp\<close> with a literal.\<close>

definition c_strcaseeq :: "string \<Rightarrow> string \<Rightarrow> bool" where
  "c_strcaseeq a b = (map lower_char (c_str a) = map lower_char b)"

text \<open>Whether a field is sent, and its line.\<close>

definition header_sent :: "data_unset \<Rightarrow> (string \<times> string) option option" where
  "header_sent ds = do {
     v \<leftarrow> ds_value ds;
     (case (v, du_key ds) of
        (Some val, Some key) \<Rightarrow> do {
          internal \<leftarrow> c_strncaseeq 11 (key @ [NUL]) (''X-LIGHTTPD-'' @ [NUL]);
          Some (if internal \<or> c_strcaseeq key ''X-Sendfile'' then None else Some (key, val))
        }
      | _ \<Rightarrow> Some None)
   }"

fun header_lines :: "int \<Rightarrow> data_unset option list \<Rightarrow> string \<times> bool \<times> bool \<Rightarrow> (string \<times> bool \<times> bool) option" where
  "header_lines status [] st = Some st"
| "header_lines status (None # ds) st = None"
| "header_lines status (Some d # ds) (b, have_date, have_server) = do {
     h \<leftarrow> header_sent d;
     (case h of
        None \<Rightarrow> header_lines status ds (b, have_date, have_server)
      | Some (key, val) \<Rightarrow>
          (let hd = (have_date \<or> c_strcaseeq key ''Date''); hs = (have_server \<or> c_strcaseeq key ''Server'') in
           if c_strcaseeq key ''Content-Encoding'' \<and> status = 304 then header_lines status ds (b, hd, hs)
           else header_lines status ds (b @ [CR, LF] @ key @ '': '' @ val, hd, hs)))
   }"

text \<open>The cached date of \<open>srv->ts_date_str\<close>.\<close>

record date_cache =
  last_generated_date_ts :: int
  ts_date_str :: bstr

definition date_now :: "renv \<Rightarrow> int \<Rightarrow> date_cache \<Rightarrow> date_cache" where
  "date_now env cur dc = (if cur \<noteq> last_generated_date_ts dc
     then \<lparr>last_generated_date_ts = cur, ts_date_str = Some (c_str (re_strftime env cur))\<rparr> else dc)"

definition server_line :: "conn \<Rightarrow> string" where
  "server_line con = (case cf_server_tag (c_conf con) of
     None \<Rightarrow> [CR, LF] @ ''Server: lighttpd/1.4.20''
   | Some tag \<Rightarrow> if tag = [] then [] else [CR, LF] @ ''Server: '' @ encode_str ENCODING_HTTP_HEADER tag)"

definition status_line :: "conn \<Rightarrow> string" where
  "status_line con =
     (if version_of con = HTTP_VERSION_1_1 then ''HTTP/1.1 '' else ''HTTP/1.0 '') @ dec_int (http_status_of con) @ '' '' @
     (case get_http_status_name (http_status_of con) of None \<Rightarrow> [] | Some n \<Rightarrow> n) @
     (if version_of con \<noteq> HTTP_VERSION_1_1 \<or> \<not> keep_alive_of con
      then [CR, LF] @ ''Connection: '' @ (if keep_alive_of con then ''keep-alive'' else ''close'') else []) @
     (if c_response_chunked con then [CR, LF] @ ''Transfer-Encoding: chunked'' else [])"

definition response_header :: "renv \<Rightarrow> int \<Rightarrow> date_cache \<Rightarrow> conn \<Rightarrow> (string \<times> date_cache) option" where
  "response_header env cur dc con = do {
     ds \<leftarrow> mem_read (a_data (c_response_headers con)) (a_used (c_response_headers con));
     (b, have_date, have_server) \<leftarrow> header_lines (http_status_of con) ds (status_line con, False, False);
     let dc1 = (if have_date then dc else date_now env cur dc);
     let b1 = (if have_date then b else b @ [CR, LF] @ ''Date: '' @ bs_str (ts_date_str dc1));
     Some (b1 @ (if have_server then [] else server_line con) @ [CR, LF, CR, LF], dc1)
   }"

definition http_response_write_header :: "renv \<Rightarrow> int \<Rightarrow> date_cache \<Rightarrow> conn \<Rightarrow> (conn \<times> date_cache) option" where
  "http_response_write_header env cur dc con = do {
     (a, w, q) \<leftarrow> chunkqueue_get_prepend_buffer (fst (c_write_queue con)) (snd (c_write_queue con));
     (b, dc1) \<leftarrow> response_header env cur dc con;
     c \<leftarrow> chunk_at w a;
     w1 \<leftarrow> chunk_put w a (c\<lparr>ck_mem := Some b\<rparr>);
     Some (con\<lparr>c_write_queue := (w1, q), c_bytes_header := int (length b)\<rparr>, dc1)
   }"

section \<open>Fields of a response\<close>

definition field_value :: "array \<Rightarrow> string \<Rightarrow> bstr" where
  "field_value a k = (case array_lookup a k of None \<Rightarrow> None | Some ds \<Rightarrow> (case ds_value ds of None \<Rightarrow> None | Some v \<Rightarrow> v))"

definition fields_ok :: "array \<Rightarrow> bool" where
  "fields_ok a = (array_ok a \<and> array_safe a \<and> list_all (\<lambda>slot. case slot of None \<Rightarrow> True | Some ds \<Rightarrow> \<not> du_is_index_key ds) (a_data a))"

lemma ds_set_text: "is_text ds \<Longrightarrow> \<exists>ds1. ds_set_value ds v = Some ds1 \<and> is_text ds1 \<and> du_key ds1 = du_key ds \<and>
    du_is_index_key ds1 = du_is_index_key ds \<and> ds_value ds1 = Some (Some v)"
  by (cases "du_val ds") (auto simp: is_text_def ds_set_value_def ds_value_def)

lemma find_append: "find P (xs @ ys) = (case find P xs of None \<Rightarrow> find P ys | Some x \<Rightarrow> Some x)"
  by (induction xs) auto

lemma find_update:
  assumes "n < length es" "P (es ! n)" "\<forall>m < n. \<not> P (es ! m)" "P d"
  shows "find P (es[n := d]) = Some d"
  using assms
proof (induction es arbitrary: n)
  case (Cons e es)
  show ?case
  proof (cases n)
    case (Suc m)
    have "\<not> P e" using Cons.prems(3) Suc by (metis nth_Cons_0 zero_less_Suc)
    moreover have "\<forall>j < m. \<not> P (es ! j)" using Cons.prems(3) Suc by (metis Suc_less_eq nth_Cons_Suc)
    ultimately show ?thesis using Cons Suc by simp
  qed (use Cons.prems in simp)
qed simp

lemma find_update_other:
  assumes "n < length es" "\<not> P (es ! n)" "\<not> P d"
  shows "find P (es[n := d]) = find P es"
  using assms
proof (induction es arbitrary: n)
  case (Cons e es)
  then show ?case by (cases n) auto
qed simp

lemma same_key_lower: "du_key ds = Some s \<Longrightarrow> same_key k ds \<longleftrightarrow> map lower_char s = map lower_char k"
  by (simp add: same_key_def)

definition plain_slots :: "data_unset option list \<Rightarrow> bool" where
  "plain_slots d = list_all (\<lambda>slot. case slot of None \<Rightarrow> True | Some ds \<Rightarrow> \<not> du_is_index_key ds) d"

lemma plain_slots_sub: "plain_slots d \<Longrightarrow> set d' \<subseteq> insert None (insert (Some ds) (set d)) \<Longrightarrow> \<not> du_is_index_key ds \<Longrightarrow> plain_slots d'"
  by (fastforce simp: plain_slots_def list_all_iff split: option.splits)

lemma insert_at_slots: "insert_at gs a str pos = Some b \<Longrightarrow> set (a_data b) \<subseteq> insert None (insert (Some str) (set (a_data a)))"
  by (auto simp: insert_at_def Let_def mem_set_def array_grow_def split: if_splits dest!: set_update_subset_insert [THEN subsetD] in_set_takeD)

lemma du_insert_dup_index: "du_insert_dup dst src = Some d \<Longrightarrow> du_is_index_key d = du_is_index_key dst"
  by (auto simp: du_insert_dup_def split: payload.splits)

lemma insert_unique_slots:
  assumes "array_insert_unique gs a str = Some (r, b)" "plain_slots (a_data a)" "\<not> du_is_index_key str" "du_key str = Some k"
  shows "plain_slots (a_data b)"
proof -
  have u: "unique_key a str = (a, str)" using assms(3,4) by (simp add: unique_key_def)
  obtain ndx pos where i: "array_get_index True a (Some (key_bytes (du_key str))) 0 = Some (ndx, pos)"
    using assms(1) u by (auto simp: array_insert_unique_def)
  show ?thesis
  proof (cases "ndx = -1")
    case True
    then have "b = a \<or> insert_at gs a str pos = Some b"
      using assms(1) u i by (auto simp: array_insert_unique_def split: if_splits)
    then show ?thesis using insert_at_slots [of gs a str pos b] plain_slots_sub [OF assms(2)] assms(2,3) by blast
  next
    case False
    then obtain du where du: "nat ndx < length (a_data a)" "a_data a ! nat ndx = Some du"
      "b = a \<or> (\<exists>d. du_insert_dup du str = Some d \<and> b = a\<lparr>a_data := (a_data a)[nat ndx := Some d]\<rparr>)"
      using assms(1) u i by (auto simp: array_insert_unique_def mem_get_def mem_set_def split: if_splits)
    have "\<not> du_is_index_key du" using du(1,2) assms(2) by (auto simp: plain_slots_def list_all_length split: option.splits)
    moreover have "plain_slots ((a_data a)[nat ndx := Some d])" if "\<not> du_is_index_key d" for d
      by (rule plain_slots_sub [OF assms(2) _ that]) (auto dest!: set_update_subset_insert [THEN subsetD])
    ultimately show ?thesis using du(3) assms(2) du_insert_dup_index by fastforce
  qed
qed

lemma fields_ok_iff: "fields_ok a \<longleftrightarrow> array_ok a \<and> array_safe a \<and> plain_slots (a_data a)"
  by (simp add: fields_ok_def plain_slots_def)

lemma fields_ok_init: "fields_ok array_init"
  by (simp add: fields_ok_iff array_init_ok(1) array_init_safe) (simp add: plain_slots_def array_init_def)

text \<open>A new field is put at the end.\<close>

lemma header_insert_new:
  assumes "fields_ok a" "key_ok k" "int (a_used a) + 1 \<le> INT_MAX" "\<forall>m < a_used a. \<not> same_key k (elems a ! m)"
  obtains b ds where "response_header_insert env a k (Some v) = Some b" "fields_ok b" "elems b = elems a @ [ds]"
    "du_key ds = Some k" "ds_value ds = Some (Some v)" "a_used b = a_used a + 1"
proof -
  have ok: "array_ok a" "array_safe a" "plain_slots (a_data a)" using assms(1) by (simp_all add: fields_ok_iff)
  obtain slot a1 where g: "array_get_unused_element a = Some (slot, a1)" "array_ok a1" "elems a1 = elems a" "a_used a1 = a_used a"
    using array_get_unused_element_spec [OF ok(1)] by blast
  have g2: "array_safe a1" "case slot of None \<Rightarrow> True | Some du \<Rightarrow> is_text du" using array_unused_safe [OF ok(2)] g(1) by auto
  have g3: "plain_slots (a_data a1)" "case slot of None \<Rightarrow> True | Some du \<Rightarrow> \<not> du_is_index_key du"
    using g(1) ok(3) by (auto simp: array_get_unused_element_def mem_get_def mem_set_def plain_slots_def list_all_length nth_list_update
        split: if_splits option.splits)
  define ds0 where "ds0 = (case slot of None \<Rightarrow> data_response_init | Some ds \<Rightarrow> ds)\<lparr>du_key := Some k\<rparr>"
  have "is_text ds0" "\<not> du_is_index_key ds0" "du_key ds0 = Some k"
    using g2(2) g3(2) by (auto simp: ds0_def data_response_init_def data_string_init_def is_text_def split: option.splits)
  then obtain ds where ds: "ds_set_value ds0 v = Some ds" "is_text ds" "du_key ds = Some k" "\<not> du_is_index_key ds"
    "ds_value ds = Some (Some v)" using ds_set_text [of ds0 v] by auto
  have u: "unique_key a1 ds = (a1, ds)" using ds(3,4) by (simp add: unique_key_def)
  have "list_all (\<lambda>du. \<not> same_key k du) (elems a1)" using assms(4) g(3) length_elems [OF ok(1)] by (simp add: list_all_length)
  from put_elem_missing [OF this] array_insert_unique_spec [OF g(2) u ds(3) assms(2), of "re_junk env"] assms(3) g(3,4)
  obtain b where b: "array_insert_unique (re_junk env) a1 ds = Some (0, b)" "array_ok b" "elems b = elems a @ [ds]" by auto
  have "array_safe b" using array_insert_safe [OF g2(1) ds(2), of "re_junk env"] b(1) by auto
  moreover have "plain_slots (a_data b)" by (rule insert_unique_slots [OF b(1) g3(1) ds(4,3)])
  moreover have "a_used b = a_used a + 1" using length_elems [OF b(2)] length_elems [OF ok(1)] b(3) by simp
  moreover have "response_header_insert env a k (Some v) = Some b"
    using g(1) ds(1) b(1) by (simp add: response_header_insert_def ds_copy_value_def ds0_def [symmetric])
  ultimately show thesis using that b(2,3) ds(3,5) by (simp add: fields_ok_iff)
qed

text \<open>Overwriting: afterwards the field has the value, and no other field has changed.\<close>

lemma header_overwrite:
  assumes "fields_ok a" "key_ok k" "int (a_used a) + 1 \<le> INT_MAX" "NUL \<notin> set v"
  obtains b where "response_header_overwrite env a k (Some v) = Some b" "fields_ok b" "field_value b k = Some v"
    "\<forall>k'. map lower_char k' \<noteq> map lower_char k \<longrightarrow> array_lookup b k' = array_lookup a k'" "a_used b \<le> a_used a + 1"
proof -
  have ok: "array_ok a" "array_safe a" "plain_slots (a_data a)" using assms(1) by (simp_all add: fields_ok_iff)
  show thesis
    using ok(1) assms(2)
  proof (cases rule: array_get_index_spec [where al = "re_aligned env k" and ?p0.0 = 0])
    case (found n p)
    let ?e = "elems a ! n"
    have n: "n < length (a_data a)" "n < length (elems a)" "a_data a ! n = Some ?e"
      using found(2) length_elems [OF ok(1)] array_data_nth [OF ok(1) found(2)] ok(1) by (auto simp: array_ok_def)
    have tx: "is_text ?e" using n(1,3) ok(2) by (auto simp: array_safe_def list_all_length split: option.splits)
    then obtain d where d: "ds_set_value ?e v = Some d" "is_text d" "du_key d = du_key ?e" "du_is_index_key d = du_is_index_key ?e"
      "ds_value d = Some (Some v)" using ds_set_text [of ?e v] by blast
    let ?b = "a\<lparr>a_data := (a_data a)[n := Some d]\<rparr>"
    have same: "same_key k' d \<longleftrightarrow> same_key k' ?e" for k' using d(3) by (simp add: same_key_def)
    have up: "array_ok ?b" "elems ?b = (elems a)[n := d]"
      using array_ok_update [OF ok(1) found(2), of d] elem_ok_nth [OF ok(1) found(2)] d(3) by (simp_all add: elem_ok_def)
    have "n < a_size a" using n(1) ok(2) by (simp add: array_safe_def)
    then have "array_safe ?b" by (rule array_safe_update [OF ok(2) _ d(2)])
    moreover have "plain_slots (a_data ?b)"
      using ok(3) n d(4) by (auto simp: plain_slots_def list_all_length nth_list_update split: option.splits)
    ultimately have "fields_ok ?b" using up(1) by (simp add: fields_ok_iff)
    moreover have first: "\<forall>m < n. \<not> same_key k (elems a ! m)" using found(2,4) by (metis less_trans nat_neq_iff)
    then have "array_lookup ?b k = Some d"
      unfolding array_lookup_def up(2) using found(3) same n(2) by (intro find_update) simp_all
    then have "field_value ?b k = Some v" by (simp add: field_value_def d(5))
    moreover have "array_lookup ?b k' = array_lookup a k'" if ne: "map lower_char k' \<noteq> map lower_char k" for k'
    proof -
      have "\<not> same_key k' ?e" using found(3) ne by (auto simp: same_key_def split: option.splits)
      then show ?thesis unfolding array_lookup_def up(2) using n(2) same by (intro find_update_other) simp_all
    qed
    moreover have "response_header_overwrite env a k (Some v) = Some ?b"
      using found(1) n d(1) assms(4) by (simp add: response_header_overwrite_def mem_get_def mem_set_def ds_copy_value_def c_str_no_NUL)
    ultimately show thesis using that by simp
  next
    case (missing g p)
    obtain b ds where b: "response_header_insert env a k (Some v) = Some b" "fields_ok b" "elems b = elems a @ [ds]"
      "du_key ds = Some k" "ds_value ds = Some (Some v)" "a_used b = a_used a + 1"
      using header_insert_new [OF assms(1-3) missing(2)] .
    have none: "array_lookup a k = None" by (rule lookup_missing [OF ok(1) missing(2)])
    have "array_lookup b k = Some ds"
      using none b(4) unfolding array_lookup_def b(3) find_append by (simp add: same_key_def)
    then have "field_value b k = Some v" by (simp add: field_value_def b(5))
    moreover have "array_lookup b k' = array_lookup a k'" if "map lower_char k' \<noteq> map lower_char k" for k'
      using that b(4) unfolding array_lookup_def b(3) find_append by (simp add: same_key_def split: option.splits)
    moreover have "response_header_overwrite env a k (Some v) = Some b"
      using missing(1) b(1) by (simp add: response_header_overwrite_def)
    ultimately show thesis using that b(2,6) by simp
  qed
qed

section \<open>The lines of the header\<close>

definition line_str :: "string \<Rightarrow> bool" where
  "line_str s = (CR \<notin> set s \<and> LF \<notin> set s)"

lemma line_str_simps [simp]: "line_str []" "line_str (s @ t) \<longleftrightarrow> line_str s \<and> line_str t"
  "line_str (c # s) \<longleftrightarrow> c \<noteq> CR \<and> c \<noteq> LF \<and> line_str s"
  by (auto simp: line_str_def)

definition after_lines :: "string list \<Rightarrow> string" where
  "after_lines ls = concat (map (\<lambda>l. [CR, LF] @ l) ls)"

lemma after_lines_simps [simp]: "after_lines [] = []" "after_lines (l # ls) = CR # LF # l @ after_lines ls"
  "after_lines (ls @ ms) = after_lines ls @ after_lines ms"
  by (simp_all add: after_lines_def)

definition good_line :: "string \<Rightarrow> bool" where
  "good_line l = (l \<noteq> [] \<and> line_str l)"

lemma header_length_skip: "CR \<notin> set l \<Longrightarrow> header_length (l @ t) = map_option (\<lambda>n. length l + n) (header_length t)"
proof (induction l)
  case Nil
  show ?case by (cases "header_length t") simp_all
next
  case (Cons c l)
  then show ?case by (cases "header_length t") auto
qed

lemma header_length_line: "good_line l \<Longrightarrow> header_length (CR # LF # l @ t) = map_option (\<lambda>n. Suc (Suc n)) (header_length (l @ t))"
  by (cases l; cases "header_length (l @ t)") (auto simp: good_line_def)

lemma header_length_lines:
  "line_str l0 \<Longrightarrow> list_all good_line ls \<Longrightarrow>
   header_length (l0 @ after_lines ls @ CRLFCRLF) = Some (length (l0 @ after_lines ls @ CRLFCRLF))"
proof (induction ls arbitrary: l0)
  case Nil
  then show ?case by (simp add: header_length_skip line_str_def)
next
  case (Cons l ls)
  then have "header_length (l @ after_lines ls @ CRLFCRLF) = Some (length (l @ after_lines ls @ CRLFCRLF))"
    by (simp add: good_line_def)
  with Cons.prems header_length_skip [of l0 "CR # LF # l @ after_lines ls @ CRLFCRLF"]
    header_length_line [of l "after_lines ls @ CRLFCRLF"] show ?case
    by (simp add: line_str_def del: header_length.simps)
qed

text \<open>A field whose name and value have no line end. Several values of one name are joined by lines of their own, which
  \<open>data_response_insert_dup\<close> begins with the name.\<close>

definition clean_field :: "data_unset \<Rightarrow> bool" where
  "clean_field ds = (is_text ds \<and> (case du_key ds of None \<Rightarrow> True | Some k \<Rightarrow> line_str k) \<and>
     (case ds_value ds of None \<Rightarrow> True | Some v \<Rightarrow> line_str (bs_str v)))"

lemma is_upper_NUL: "\<not> is_upper NUL"
  by code_simp

lemma strncaseeq_total: "\<exists>r. c_strncaseeq n (s @ [NUL]) (t @ [NUL]) = Some r"
proof (induction n arbitrary: s t)
  case (Suc n)
  show ?case
  proof (cases s)
    case Nil
    then show ?thesis by (cases t) (auto simp: lower_char_def)
  next
    case (Cons a s')
    show ?thesis
    proof (cases t)
      case Nil
      have "lower_char a = lower_char NUL \<Longrightarrow> a = NUL"
        using uchar_lower_char [of a] uchar_lower_char [of NUL] uchar_inject [of a NUL] is_upper_NUL by (auto simp: lower_char_def split: if_splits)
      then show ?thesis using Cons Nil by (auto simp: lower_char_def)
    next
      case (Cons b t')
      then show ?thesis using \<open>s = a # s'\<close> Suc.IH [of s' t'] by auto
    qed
  qed
qed auto

lemma header_sent_ok:
  assumes "clean_field d"
  shows "\<exists>h. header_sent d = Some h \<and> (case h of None \<Rightarrow> True | Some (k, v) \<Rightarrow> line_str k \<and> line_str v)"
proof -
  obtain v where v: "ds_value d = Some v" using assms by (cases "du_val d") (auto simp: clean_field_def is_text_def ds_value_def)
  show ?thesis
  proof (cases "v = None \<or> du_key d = None")
    case True
    then show ?thesis using v by (auto simp: header_sent_def split: option.splits)
  next
    case False
    then obtain x k where x: "v = Some x" "du_key d = Some k" by auto
    obtain r where "c_strncaseeq 11 (k @ [NUL]) (''X-LIGHTTPD-'' @ [NUL]) = Some r" using strncaseeq_total by blast
    with v x assms show ?thesis by (auto simp: header_sent_def clean_field_def)
  qed
qed

lemma header_lines_ok:
  "list_all clean_field ds \<Longrightarrow> \<exists>ls hd hs. header_lines status (map Some ds) (b, hd0, hs0) = Some (b @ after_lines ls, hd, hs) \<and>
     list_all good_line ls"
proof (induction ds arbitrary: b hd0 hs0)
  case (Cons d ds)
  then obtain h where h: "header_sent d = Some h" "case h of None \<Rightarrow> True | Some (k, v) \<Rightarrow> line_str k \<and> line_str v"
    using header_sent_ok [of d] by auto
  show ?case
  proof (cases h)
    case None
    then show ?thesis using h(1) Cons.IH [of b hd0 hs0] Cons.prems by simp
  next
    case (Some kv)
    obtain k v where kv: "kv = (k, v)" by (cases kv)
    let ?hd = "hd0 \<or> c_strcaseeq k ''Date''" and ?hs = "hs0 \<or> c_strcaseeq k ''Server''"
    have l: "good_line (k @ '': '' @ v)" using h(2) Some kv by (simp add: good_line_def)
    show ?thesis
    proof (cases "c_strcaseeq k ''Content-Encoding'' \<and> status = 304")
      case True
      then show ?thesis using h(1) Some kv Cons.IH [of b ?hd ?hs] Cons.prems by simp
    next
      case False
      obtain ls hd hs where "header_lines status (map Some ds) ((b @ [CR, LF] @ k @ '': '' @ v), ?hd, ?hs) =
          Some ((b @ [CR, LF] @ k @ '': '' @ v) @ after_lines ls, hd, hs)" "list_all good_line ls"
        using Cons.IH [of "b @ [CR, LF] @ k @ '': '' @ v" ?hd ?hs] Cons.prems by auto
      then show ?thesis using h(1) Some kv False l
        by - (rule exI [of _ "(k @ '': '' @ v) # ls"], rule exI [of _ hd], rule exI [of _ hs], auto simp: Let_def)
    qed
  qed
qed (auto intro: exI [of _ "[]"])

lemma dec_nat_line: "line_str (dec_nat n)"
proof -
  have "\<not> light_isdigit (schar CR)" "\<not> light_isdigit (schar LF)" by (simp_all add: light_isdigit_def schar_def)
  with dec_nat_digits [of n] show ?thesis by (auto simp: line_str_def list_all_iff)
qed

lemma dec_int_line: "line_str (dec_int i)"
  by (simp add: dec_int_def dec_nat_line)

lemma status_name_line: "get_http_status_name i = Some n \<Longrightarrow> line_str n"
proof -
  have all: "list_all (\<lambda>(k, v). line_str v) http_status" by code_simp
  have "keyvalue_get_value kv i = Some n \<Longrightarrow> list_all (\<lambda>(k, v). line_str v) kv \<Longrightarrow> line_str n" for kv
    by (induction kv) (auto split: if_splits)
  with all show "get_http_status_name i = Some n \<Longrightarrow> line_str n" by (simp add: get_http_status_name_def)
qed

lemma encode_header_line: "line_str s \<Longrightarrow> line_str (encode_str ENCODING_HTTP_HEADER s)"
  by (induction s) (auto simp: encode_str_def)

lemma status_line_lines:
  "\<exists>l0 ls. status_line con = l0 @ after_lines ls \<and> line_str l0 \<and> list_all good_line ls"
proof -
  let ?l0 = "(if version_of con = HTTP_VERSION_1_1 then ''HTTP/1.1 '' else ''HTTP/1.0 '') @ dec_int (http_status_of con) @ '' '' @
     (case get_http_status_name (http_status_of con) of None \<Rightarrow> [] | Some n \<Rightarrow> n)"
  let ?l1 = "if version_of con \<noteq> HTTP_VERSION_1_1 \<or> \<not> keep_alive_of con
      then [''Connection: '' @ (if keep_alive_of con then ''keep-alive'' else ''close'')] else []"
  let ?l2 = "if c_response_chunked con then [''Transfer-Encoding: chunked''] else []"
  have "status_line con = ?l0 @ after_lines (?l1 @ ?l2)" by (simp add: status_line_def)
  moreover have "line_str ?l0" using dec_int_line status_name_line by (auto split: option.splits)
  moreover have "list_all good_line (?l1 @ ?l2)" by (simp add: good_line_def)
  ultimately show ?thesis by blast
qed

definition fields_clean :: "conn \<Rightarrow> bool" where
  "fields_clean con = (array_safe (c_response_headers con) \<and> list_all clean_field (elems (c_response_headers con)) \<and>
     line_str (bs_str (cf_server_tag (c_conf con))))"

lemma response_header_ok:
  assumes "fields_clean con" "\<And>t. line_str (re_strftime env t)" "line_str (bs_str (ts_date_str dc))"
  shows "\<exists>l0 ls dc1. response_header env cur dc con = Some (l0 @ after_lines ls @ CRLFCRLF, dc1) \<and> line_str l0 \<and> list_all good_line ls"
proof -
  let ?h = "c_response_headers con"
  have data: "mem_read (a_data ?h) (a_used ?h) = Some (map Some (elems ?h))"
  proof -
    have "list_all (\<lambda>slot. slot \<noteq> None) (take (a_used ?h) (a_data ?h))" "a_used ?h \<le> length (a_data ?h)"
      using assms(1) by (auto simp: fields_clean_def array_safe_def list_all_iff split: option.splits)
    moreover have "list_all (\<lambda>slot. slot \<noteq> None) xs \<Longrightarrow> map (Some \<circ> the) xs = xs" for xs :: "data_unset option list"
      by (induction xs) auto
    ultimately show ?thesis by (simp add: mem_read_def elems_def)
  qed
  obtain l0 ls0 where st: "status_line con = l0 @ after_lines ls0" "line_str l0" "list_all good_line ls0"
    using status_line_lines by blast
  obtain ls hd hs where hl: "header_lines (http_status_of con) (map Some (elems ?h)) (status_line con, False, False) =
      Some (status_line con @ after_lines ls, hd, hs)" "list_all good_line ls"
    using header_lines_ok assms(1) unfolding fields_clean_def by blast
  define dc1 where "dc1 = (if hd then dc else date_now env cur dc)"
  define dl where "dl = (if hd then [] else [''Date: '' @ bs_str (ts_date_str dc1)])"
  define sl where "sl = (if hs \<or> cf_server_tag (c_conf con) = Some [] then [] else
    [''Server: '' @ (case cf_server_tag (c_conf con) of None \<Rightarrow> ''lighttpd/1.4.20'' | Some tag \<Rightarrow> encode_str ENCODING_HTTP_HEADER tag)])"
  have cs: "line_str s \<Longrightarrow> line_str (c_str s)" for s by (auto simp: line_str_def c_str_def dest: set_takeWhileD)
  have "line_str (bs_str (ts_date_str dc1))"
    using assms(2,3) cs by (auto simp: dc1_def date_now_def)
  then have "list_all good_line (dl @ sl)"
    using assms(1) encode_header_line [of "bs_str (cf_server_tag (c_conf con))"]
    by (auto simp: dl_def sl_def good_line_def fields_clean_def split: option.splits)
  moreover have "(if hs then [] else server_line con) = after_lines sl"
    by (auto simp: server_line_def sl_def split: option.splits)
  then have "response_header env cur dc con = Some (l0 @ after_lines (ls0 @ ls @ dl @ sl) @ CRLFCRLF, dc1)"
    using data hl(1) st(1) by (cases hd) (simp_all add: response_header_def dc1_def dl_def Let_def)
  ultimately show ?thesis using st(2,3) hl(2) by fastforce
qed

section \<open>The redirect\<close>

text \<open>The address that is sent: it is built from the decoded path.\<close>

definition location_of :: "conn \<Rightarrow> string \<Rightarrow> string" where
  "location_of con a = (if cf_is_ssl (c_conf con) then ''https://'' else ''http://'') @ a @ bs_str (uri_path (c_uri con)) @ ''/'' @
     (case uri_query (c_uri con) of None \<Rightarrow> [] | Some q \<Rightarrow> ''?'' @ q)"

lemma redirect_location:
  assumes "uri_authority (c_uri con) = Some a" "fields_ok (c_response_headers con)" "int (a_used (c_response_headers con)) + 1 \<le> INT_MAX"
    and "array_lookup (c_response_headers con) ''Location'' = None"
  obtains con1 where "http_response_redirect_to_directory env con = Some (0, con1)" "http_status_of con1 = 301" "c_file_finished con1"
    "field_value (c_response_headers con1) ''Location'' = Some (location_of con a)" "fields_ok (c_response_headers con1)"
    "\<exists>ds. elems (c_response_headers con1) = elems (c_response_headers con) @ [ds] \<and> du_key ds = Some ''Location'' \<and>
       ds_value ds = Some (Some (location_of con a))"
proof -
  let ?h = "c_response_headers con"
  have k: "key_ok ''Location''" by (simp add: key_ok_def regular_str_def regular_char_def)
  have ok: "array_ok ?h" using assms(2) by (simp add: fields_ok_def)
  have "\<forall>m < a_used ?h. \<not> same_key ''Location'' (elems ?h ! m)"
    using assms(4) length_elems [OF ok] by (auto simp: array_lookup_def find_None_iff)
  from header_insert_new [OF assms(2) k assms(3) this, of env "location_of con a"] obtain b ds where
    b: "response_header_insert env ?h ''Location'' (Some (location_of con a)) = Some b" "fields_ok b" "elems b = elems ?h @ [ds]"
    "du_key ds = Some ''Location''" "ds_value ds = Some (Some (location_of con a))" by blast
  have "array_lookup b ''Location'' = Some ds"
    using assms(4) b(4) unfolding array_lookup_def b(3) find_append by (simp add: same_key_def)
  then have "field_value b ''Location'' = Some (location_of con a)" by (simp add: field_value_def b(5))
  moreover have "(case uri_query (c_uri con) of
      None \<Rightarrow> bs_append (bs_append_buffer (bs_append_buffer (Some (if cf_is_ssl (c_conf con) then ''https://'' else ''http://'')) (Some a)) (uri_path (c_uri con))) ''/''
    | Some query \<Rightarrow> bs_append_buffer (bs_append (bs_append (bs_append_buffer (bs_append_buffer (Some (if cf_is_ssl (c_conf con) then ''https://'' else ''http://'')) (Some a))
        (uri_path (c_uri con))) ''/'') ''?'') (Some query)) = Some (location_of con a)"
    by (simp add: location_of_def bs_append_buffer_def bs_append_def split: option.splits)
  then have "http_response_redirect_to_directory env con =
      Some (0, set_status 301 (con\<lparr>c_response_headers := b, c_file_finished := True\<rparr>))"
    using b(1) assms(1) by (simp add: http_response_redirect_to_directory_def redirect_host_def Let_def del: bs_append_twice)
  ultimately show thesis using that b by simp
qed

section \<open>The cache\<close>

definition cache_right :: "renv \<Rightarrow> mtime_cache \<Rightarrow> bool" where
  "cache_right env cache = (length cache = FILE_CACHE_MAX \<and> (\<forall>(m, s) \<in> set cache. m \<noteq> -1 \<longrightarrow> s = Some (re_strftime env m)))"

lemma mtime_search_spec:
  "case mtime_search t i cache of Inl s \<Rightarrow> (t, s) \<in> set cache | Inr j \<Rightarrow> i \<le> j \<and> j \<le> i + length cache"
  by (induction t i cache rule: mtime_search.induct) (auto split: sum.splits)

lemma cache_get_right:
  assumes "cache_right env cache" "t \<noteq> -1"
  shows "fst (strftime_cache_get env cache t) = Some (re_strftime env t) \<and> cache_right env (snd (strftime_cache_get env cache t))"
proof (cases "mtime_search t 0 cache")
  case (Inl s)
  then show ?thesis using mtime_search_spec [of t cache 0] assms by (auto simp: strftime_cache_get_def cache_right_def)
next
  case (Inr j)
  then show ?thesis using assms
    by (auto simp: strftime_cache_get_def cache_right_def Let_def dest!: set_update_subset_insert [THEN subsetD])
qed

fun cache_run :: "renv \<Rightarrow> mtime_cache \<Rightarrow> int list \<Rightarrow> bstr list \<times> mtime_cache" where
  "cache_run env cache [] = ([], cache)"
| "cache_run env cache (t # ts) = (case strftime_cache_get env cache t of (s, cache1) \<Rightarrow>
     (case cache_run env cache1 ts of (ss, cache2) \<Rightarrow> (s # ss, cache2)))"

definition one_slot :: "mtime_cache \<Rightarrow> bool" where
  "one_slot cache = (length cache = FILE_CACHE_MAX \<and> list_all (\<lambda>e. e = (-1, None)) (tl cache))"

lemma search_empty: "list_all (\<lambda>e. e = (-1, None)) es \<Longrightarrow> t \<noteq> -1 \<Longrightarrow> mtime_search t i es = Inr (i + length es)"
  by (induction es arbitrary: i) auto

lemma cache_one_slot:
  assumes "one_slot cache" "t \<noteq> -1"
  shows "one_slot (snd (strftime_cache_get env cache t))"
proof -
  obtain m s es where c: "cache = (m, s) # es" using assms(1) by (cases cache) (auto simp: one_slot_def FILE_CACHE_MAX_def)
  then have es: "list_all (\<lambda>e. e = (-1, None)) es" "Suc (length es) = FILE_CACHE_MAX" using assms(1) by (simp_all add: one_slot_def)
  then have "mtime_search t 0 cache = Inl s \<or> mtime_search t 0 cache = Inr 0 \<or> mtime_search t 0 cache = Inr FILE_CACHE_MAX"
    using search_empty [OF es(1) assms(2), of 1] c by simp
  then show ?thesis using es c by (auto simp: strftime_cache_get_def one_slot_def Let_def split: sum.splits)
qed

lemma write_header_pieces:
  assumes "response_header env cur dc con = Some (b, dc1)" "holds_pieces (c_write_queue con) ps"
  obtains wq where "http_response_write_header env cur dc con = Some (con\<lparr>c_write_queue := wq, c_bytes_header := int (length b)\<rparr>, dc1)"
    "holds_pieces wq (PMem (Some b) 0 # ps)"
proof -
  obtain w q where wq: "c_write_queue con = (w, q)" "rep w q ps" using assms(2) by (cases "c_write_queue con") (simp add: holds_pieces_def)
  let ?f = "\<lambda>c. c\<lparr>ck_type := MEM_CHUNK, ck_offset := 0, ck_mem := None\<rparr>"
  obtain as us where as: "queue_inv w q as us" "pieces w as = ps" using wq(2) by (auto simp: rep_def)
  obtain a w1 q1 us1 c0 where n: "prepend_new w q ?f = Some (a, w1, q1)" "queue_inv w1 q1 (a # as) us1"
    "pieces w1 (a # as) = piece_of (?f c0) # pieces w as" using prepend_new_ok [OF as(1), of ?f] by auto
  obtain c where c: "chunk_at w1 a = Some c" using chain_mem [of w1 "cq_first q1" "a # as" a] n(2) by (auto simp: queue_inv_def)
  then have ck: "ck_type c = MEM_CHUNK" "ck_offset c = 0" "a \<notin> set as"
    using n(2,3) by (auto simp: pieces_Cons piece_of_def queue_inv_def split: chunk_type.splits)
  let ?c = "c\<lparr>ck_mem := Some b\<rparr>"
  let ?w = "w1\<lparr>w_heap := (w_heap w1)[a := Some ?c]\<rparr>"
  have "same_links w1 ?w" by (rule same_links_update [OF c, of ?c]) simp_all
  then have "queue_inv ?w q1 (a # as) us1" using n(2) same_links_inv by blast
  moreover have "pieces ?w (a # as) = PMem (Some b) 0 # ps"
    using chunk_put_Some(2) [OF c, of ?c] pieces_update [OF c ck(3), of ?c] n(3) as(2) c ck(1,2) by (simp add: pieces_Cons piece_of_def)
  ultimately have "rep ?w q1 (PMem (Some b) 0 # ps)" unfolding rep_def by blast
  moreover have "http_response_write_header env cur dc con = Some (con\<lparr>c_write_queue := (?w, q1), c_bytes_header := int (length b)\<rparr>, dc1)"
    using assms(1) wq(1) n(1) c chunk_put_Some(1) [OF c, of ?c]
    by (simp add: http_response_write_header_def chunkqueue_get_prepend_buffer_def)
  ultimately show thesis using that [of "(?w, q1)"] by (simp add: holds_pieces_def)
qed

section \<open>Properties\<close>

text \<open>C15. The header of a response ends where its own empty line is: when the names and values of the fields and the server
  tag have no line end, then whatever the status and the fields are, no prefix of what
  \<open>http_response_write_header\<close> puts in front of the write queue looks like a complete header to the client. The body
  cannot begin earlier, and no field can be split.\<close>

theorem response_not_split:
  assumes "fields_clean con" "\<And>t. line_str (re_strftime env t)" "line_str (bs_str (ts_date_str dc))"
    and "holds_pieces (c_write_queue con) ps"
  shows "\<exists>con1 dc1 b. http_response_write_header env cur dc con = Some (con1, dc1) \<and> holds_pieces (c_write_queue con1) (PMem (Some b) 0 # ps) \<and>
    header_length b = Some (length b) \<and> c_bytes_header con1 = int (length b)"
proof -
  obtain l0 ls dc1 where h: "response_header env cur dc con = Some (l0 @ after_lines ls @ CRLFCRLF, dc1)" "line_str l0" "list_all good_line ls"
    using response_header_ok [OF assms(1-3)] by blast
  let ?b = "l0 @ after_lines ls @ CRLFCRLF"
  obtain wq where "http_response_write_header env cur dc con = Some (con\<lparr>c_write_queue := wq, c_bytes_header := int (length ?b)\<rparr>, dc1)"
    "holds_pieces wq (PMem (Some ?b) 0 # ps)" using write_header_pieces [OF h(1) assms(4)] .
  then show ?thesis using header_length_lines [OF h(2,3)]
    by (intro exI [of _ "con\<lparr>c_write_queue := wq, c_bytes_header := int (length ?b)\<rparr>"] exI [of _ dc1] exI [of _ ?b]) simp
qed

definition sample_env :: renv where
  "sample_env = \<lparr>re_aligned = (\<lambda>s. False), re_junk = (\<lambda>n. 0), re_strftime = (\<lambda>t. ''Thu, 01 Jan 1970 00:00:00 GMT''),
     re_mktime = (\<lambda>s. if s = ''Thu, 01 Jan 1970 00:00:00 GMT'' then Some 0 else None), re_sockname = Sock_name ''localhost'', re_port = 80\<rparr>"

theorem response_not_split_witness:
  "\<exists>con1 dc1 b. http_response_write_header sample_env 1 \<lparr>last_generated_date_ts = 0, ts_date_str = None\<rparr> (set_status 404 sample_conn) = Some (con1, dc1) \<and>
     holds_pieces (c_write_queue con1) [PMem (Some b) 0] \<and> header_length b = Some (length b) \<and> c_bytes_header con1 = int (length b)"
proof -
  have "fields_clean (set_status 404 sample_conn)" "holds_pieces (c_write_queue (set_status 404 sample_conn)) []"
    by (simp_all add: fields_clean_def sample_conn_def connection_init_def chunkqueue_set_tempdirs_def config_setup_connection_def
        no_config_def array_init_safe array_init_ok holds_init)
  from response_not_split [OF this(1) _ _ this(2), of sample_env "\<lparr>last_generated_date_ts = 0, ts_date_str = None\<rparr>" 1] show ?thesis
    by (simp add: sample_env_def)
qed

text \<open>\<open>response_header_overwrite\<close> on the sorted array of fields is assignment to a map whose keys ignore case: the field has
  the new value afterwards, however its name was written before, and every other field keeps its own.\<close>

theorem header_overwrite_refines:
  assumes "fields_ok a" "key_ok k" "int (a_used a) + 1 \<le> INT_MAX" "NUL \<notin> set v"
  shows "\<exists>b. response_header_overwrite env a k (Some v) = Some b \<and> fields_ok b \<and> field_value b k = Some v \<and>
    (\<forall>k'. map lower_char k' \<noteq> map lower_char k \<longrightarrow> array_lookup b k' = array_lookup a k')"
  using header_overwrite [OF assms] by metis

theorem header_overwrite_refines_witness:
  "\<exists>b. response_header_overwrite sample_env array_init ''Content-Type'' (Some ''text/html'') = Some b \<and> fields_ok b \<and>
     field_value b ''Content-Type'' = Some ''text/html''"
proof -
  have "key_ok ''Content-Type''" by (simp add: key_ok_def regular_str_def regular_char_def)
  from header_overwrite_refines [OF fields_ok_init this, of "''text/html''" sample_env] show ?thesis
    by (auto simp: array_init_ok(3) INT_MAX_def)
qed

text \<open>The cache of formatted times is transparent: every answer is what \<open>strftime\<close> gives. But of its 16 slots only the
  first is ever used: \<open>server_init\<close> marks an empty slot with -1 and \<open>strftime_cache_get\<close> looks for 0.\<close>

theorem strftime_cache_correct:
  assumes "-1 \<notin> set ts"
  shows "fst (cache_run env mtime_cache_init ts) = map (\<lambda>t. Some (re_strftime env t)) ts \<and>
    list_all (\<lambda>e. e = (-1, None)) (tl (snd (cache_run env mtime_cache_init ts)))"
proof -
  have "fst (cache_run env cache ts) = map (\<lambda>t. Some (re_strftime env t)) ts \<and> one_slot (snd (cache_run env cache ts))"
    if "cache_right env cache" "one_slot cache" for cache
    using assms that
  proof (induction ts arbitrary: cache)
    case (Cons t ts)
    then show ?case using cache_get_right [of env cache t] cache_one_slot [of cache t env]
      by (cases "strftime_cache_get env cache t"; cases "cache_run env (snd (strftime_cache_get env cache t)) ts") fastforce
  qed simp
  moreover have "cache_right env mtime_cache_init" "one_slot mtime_cache_init"
    by (auto simp: cache_right_def one_slot_def mtime_cache_init_def FILE_CACHE_MAX_def list_all_iff)
  ultimately show ?thesis by (simp add: one_slot_def)
qed

theorem strftime_cache_correct_witness:
  "fst (cache_run sample_env mtime_cache_init [5, 7, 5]) = replicate 3 (Some ''Thu, 01 Jan 1970 00:00:00 GMT'') \<and>
   list_all (\<lambda>e. e = (-1, None)) (tl (snd (cache_run sample_env mtime_cache_init [5, 7, 5])))"
  using strftime_cache_correct [of "[5, 7, 5]" sample_env] by (simp add: sample_env_def numeral_3_eq_3 del: cache_run.simps)

text \<open>The redirect to a directory sends the decoded path as it is: for a directory whose name has a percent sign the
  address, when the client asks for it, is decoded to another name.\<close>

theorem redirect_not_encoded:
  assumes "uri_authority (c_uri con) = Some a" "fields_ok (c_response_headers con)" "int (a_used (c_response_headers con)) + 1 \<le> INT_MAX"
    and "array_lookup (c_response_headers con) ''Location'' = None" "\<not> cf_is_ssl (c_conf con)"
    and "uri_path (c_uri con) = Some ''/50%25''" "uri_query (c_uri con) = None"
  shows "\<exists>con1. http_response_redirect_to_directory env con = Some (0, con1) \<and> http_status_of con1 = 301 \<and>
    field_value (c_response_headers con1) ''Location'' = Some (''http://'' @ a @ ''/50%25/'') \<and> url_decode False ''/50%25/'' = ''/50%/''"
proof -
  have "url_decode False ''/50%25/'' = ''/50%/''" by code_simp
  with redirect_location [OF assms(1-4), of env] assms(5-7) show ?thesis by (auto simp: location_of_def)
qed

text \<open>The comparison of \<open>strncmp\<close> with the length of the date of the request: the date is a beginning of that of the file.\<close>

lemma same_date_iff:
  assumes "NUL \<notin> set mtime"
  shows "same_date d mtime = Some (take (length (date_part d)) mtime = date_part d)"
proof -
  have eq: "c_strneq (length p) (p @ x) (m @ [NUL]) = Some (take (length p) m = p)" if "NUL \<notin> set p" "NUL \<notin> set m" for p x m
    using that
  proof (induction p arbitrary: m)
    case (Cons c p)
    then show ?case by (cases m) auto
  qed simp
  have p: "NUL \<notin> set (date_part d)" by (auto simp: date_part_def dest: set_takeWhileD)
  obtain x where x: "c_str d @ [NUL] = date_part d @ x" unfolding date_part_def by (metis append_assoc takeWhile_dropWhile_id)
  show ?thesis unfolding same_date_def x by (rule eq [OF p assms])
qed

text \<open>What the date of the request decides, with \<open>bad\<close> for one that cannot be read.\<close>

definition date_decides :: "renv \<Rightarrow> string \<Rightarrow> int \<Rightarrow> string \<Rightarrow> handler_t \<times> conn \<Rightarrow> conn \<Rightarrow> (handler_t \<times> conn) option \<Rightarrow> bool" where
  "date_decides env mtime t_file d bad con res =
     ((date_part d = mtime \<longrightarrow> res = Some (HANDLER_FINISHED, set_status 304 con)) \<and>
      (take (length (date_part d)) mtime = date_part d \<longrightarrow> res = Some (HANDLER_FINISHED, set_status 304 con)) \<and>
      (take (length (date_part d)) mtime \<noteq> date_part d \<longrightarrow> length (date_part d) \<ge> DATE_SIZE \<or> re_mktime env (date_part d) = None \<longrightarrow> res = Some bad) \<and>
      (\<forall>t. take (length (date_part d)) mtime \<noteq> date_part d \<longrightarrow> length (date_part d) < DATE_SIZE \<longrightarrow> re_mktime env (date_part d) = Some t \<longrightarrow>
        res = Some (if t_file > t then (HANDLER_GO_ON, con) else (HANDLER_FINISHED, set_status 304 con))))"

lemma check_date_decides:
  assumes "re_mktime env (c_str mtime) = Some t_file" "NUL \<notin> set mtime"
  shows "date_decides env mtime t_file d (if strict then (HANDLER_FINISHED, set_status 412 (con\<lparr>c_mode := DIRECT\<rparr>)) else (HANDLER_GO_ON, con)) con
    (check_date env strict d mtime con)"
proof -
  have whole: "take (length (date_part d)) mtime = date_part d" if "date_part d = mtime" using that by simp
  show ?thesis using assms(1) whole
    by (cases "re_mktime env (date_part d)") (auto simp: date_decides_def check_date_def same_date_iff [OF assms(2)] not_modified_def precondition_failed_def Let_def)
qed

text \<open>C37. Conditional requests, when the date of the file can be read (\<open>t_file\<close>) and has no NUL. With \<open>If-None-Match\<close>: a tag that
  differs means that the file is sent whatever \<open>If-Modified-Since\<close> says; the same tag gives 412 for a method other than \<open>GET\<close> and
  \<open>HEAD\<close>, and for these 304 when there is no date, and otherwise what the date decides, where a date that cannot be
  read gives 412. With neither field the file is sent. With \<open>If-Modified-Since\<close> alone the date decides, and one that cannot be read is ignored.
  The date decides: 304 when it is the date of the file, and also when it is only a beginning of that text (even if it cannot be read); otherwise
  one that is too long or not a date counts as one that cannot be read; and the file is sent if and only if it is later than the date.
  \<open>strptime\<close> with \<open>mktime\<close> is a function of the text here; the code leaves \<open>tm_isdst\<close> as it was on the stack.\<close>

theorem conditional_requests:
  assumes "re_mktime env (c_str mtime) = Some t_file" "NUL \<notin> set mtime"
  shows "(\<forall>r tag. rq_http_if_none_match (co_request (c_core con)) = Some r \<longrightarrow> header_text con r = Some tag \<longrightarrow>
      (etag_is_equal (Some (ph_etag (c_physical con))) tag = 0 \<longrightarrow> http_response_handle_cachable env mtime con = Some (HANDLER_GO_ON, con)) \<and>
      (etag_is_equal (Some (ph_etag (c_physical con))) tag \<noteq> 0 \<longrightarrow> method_of con \<notin> {HTTP_METHOD_GET, HTTP_METHOD_HEAD} \<longrightarrow>
        http_response_handle_cachable env mtime con = Some (HANDLER_FINISHED, set_status 412 (con\<lparr>c_mode := DIRECT\<rparr>))) \<and>
      (etag_is_equal (Some (ph_etag (c_physical con))) tag \<noteq> 0 \<longrightarrow> method_of con \<in> {HTTP_METHOD_GET, HTTP_METHOD_HEAD} \<longrightarrow>
        rq_http_if_modified_since (co_request (c_core con)) = None \<longrightarrow> http_response_handle_cachable env mtime con = Some (HANDLER_FINISHED, set_status 304 con)) \<and>
      (\<forall>q d. etag_is_equal (Some (ph_etag (c_physical con))) tag \<noteq> 0 \<longrightarrow> method_of con \<in> {HTTP_METHOD_GET, HTTP_METHOD_HEAD} \<longrightarrow>
        rq_http_if_modified_since (co_request (c_core con)) = Some q \<longrightarrow> header_text con q = Some d \<longrightarrow>
        date_decides env mtime t_file d (HANDLER_FINISHED, set_status 412 (con\<lparr>c_mode := DIRECT\<rparr>)) con (http_response_handle_cachable env mtime con))) \<and>
    (rq_http_if_none_match (co_request (c_core con)) = None \<longrightarrow> rq_http_if_modified_since (co_request (c_core con)) = None \<longrightarrow>
      http_response_handle_cachable env mtime con = Some (HANDLER_GO_ON, con)) \<and>
    (\<forall>q d. rq_http_if_none_match (co_request (c_core con)) = None \<longrightarrow> rq_http_if_modified_since (co_request (c_core con)) = Some q \<longrightarrow> header_text con q = Some d \<longrightarrow>
      date_decides env mtime t_file d (HANDLER_GO_ON, con) con (http_response_handle_cachable env mtime con))"
  using check_date_decides [OF assms, of _ True con] check_date_decides [OF assms, of _ False con]
  by (auto simp: http_response_handle_cachable_def not_modified_def precondition_failed_def)

text \<open>A request with a date.\<close>

definition since_conn :: "string \<Rightarrow> conn" where
  "since_conn d = sample_conn\<lparr>c_core := (c_core sample_conn)\<lparr>co_request := (co_request (c_core sample_conn))\<lparr>
     rq_http_if_modified_since := Some (VRef 0 True), rq_http_if_none_match := None,
     rq_headers := array_init\<lparr>a_data := [Some (string_elem ''If-Modified-Since'' d)]\<rparr>\<rparr>\<rparr>\<rparr>"

theorem conditional_requests_witness:
  "http_response_handle_cachable sample_env ''Thu, 01 Jan 1970 00:00:00 GMT'' (since_conn ''Thu, 01 Jan 1970 00:00:00 GMT'') =
     Some (HANDLER_FINISHED, set_status 304 (since_conn ''Thu, 01 Jan 1970 00:00:00 GMT'')) \<and>
   http_response_handle_cachable sample_env ''Thu, 01 Jan 1970 00:00:00 GMT'' (since_conn ''never'') = Some (HANDLER_GO_ON, since_conn ''never'')"
proof -
  let ?d = "''Thu, 01 Jan 1970 00:00:00 GMT''"
  have t: "re_mktime sample_env (c_str ?d) = Some 0" "NUL \<notin> set ?d" by (simp_all add: sample_env_def c_str_def)
  have c: "header_text (since_conn d) (VRef 0 True) = Some d" "rq_http_if_none_match (co_request (c_core (since_conn d))) = None"
    "rq_http_if_modified_since (co_request (c_core (since_conn d))) = Some (VRef 0 True)" for d
    by (simp_all add: since_conn_def header_text_def vref_value_def mem_get_def ds_value_def)
  have decides: "date_decides sample_env ?d 0 d (HANDLER_GO_ON, since_conn d) (since_conn d) (http_response_handle_cachable sample_env ?d (since_conn d))" for d
    using conditional_requests [OF t, of "since_conn d"] c by blast
  have p: "date_part ?d = ?d" "date_part ''never'' = ''never''" by (simp_all add: date_part_def c_str_def)
  have "http_response_handle_cachable sample_env ?d (since_conn ?d) = Some (HANDLER_FINISHED, set_status 304 (since_conn ?d))"
    using decides [of ?d] p(1) unfolding date_decides_def by blast
  moreover have "re_mktime sample_env (date_part ''never'') = None" "take (length (date_part ''never'')) ?d \<noteq> date_part ''never''"
    unfolding p by (simp_all add: sample_env_def)
  then have "http_response_handle_cachable sample_env ?d (since_conn ''never'') = Some (HANDLER_GO_ON, since_conn ''never'')"
    using decides [of "''never''"] unfolding date_decides_def by blast
  ultimately show ?thesis by blast
qed

text \<open>Any beginning of the date of the file is taken for the whole date, because only as many characters are compared
  as the client has sent: with \<open>If-Modified-Since: T\<close>, or an empty date in front of a semicolon, a file that changed on
  a Tuesday or Thursday is not sent.\<close>

theorem date_prefix_accepted:
  assumes "rq_http_if_none_match (co_request (c_core con)) = None" "rq_http_if_modified_since (co_request (c_core con)) = Some r"
    and "header_text con r = Some d" "date_part d = take n mtime" "NUL \<notin> set mtime"
  shows "http_response_handle_cachable env mtime con = Some (HANDLER_FINISHED, set_status 304 con)"
proof -
  have "take (length (date_part d)) mtime = date_part d" unfolding assms(4) by (cases "length mtime \<le> n") (simp_all add: min_def)
  then have "same_date d mtime = Some True" by (simp add: same_date_iff [OF assms(5)])
  then show ?thesis using assms(1-3) by (simp add: http_response_handle_cachable_def check_date_def not_modified_def Let_def)
qed

end
