(* ===== verification/WritePrepare.thy ===== *)
theory WritePrepare
  imports Response StatCacheProps
begin

text \<open>
  \<open>connection_handle_write_prepare\<close> of \<open>connections.c\<close>: the status, the body of an error page, the length and the header of a
  response, in front of the first write. The steps of the function are definitions of their own, in the order of the code.

  The lemmas show that the client can always find the end of the response: with the length of exactly what is in the queue,
  with chunks, or because the connection will be closed.
\<close>

section \<open>The steps\<close>

record wenv = renv +
  we_fs :: file_system
  we_engine :: stat_cache_engine
  we_cur :: int

definition stat_conf_of :: "wenv \<Rightarrow> conn \<Rightarrow> stat_conf" where
  "stat_conf_of env con = \<lparr>cur_ts = we_cur env, engine = we_engine env, follow_symlink = cf_follow_symlink (c_conf con),
     mimetypes = cf_mimetypes (c_conf con), etag_flags = c_etag_flags con\<rparr>"

definition queue_clear :: "cqueue \<Rightarrow> cqueue option" where
  "queue_clear s = chunkqueue_reset (fst s) (snd s)"

definition plain_methods :: "http_method_t list" where
  "plain_methods = [HTTP_METHOD_GET, HTTP_METHOD_POST, HTTP_METHOD_HEAD, HTTP_METHOD_PUT, HTTP_METHOD_MKCOL, HTTP_METHOD_DELETE,
     HTTP_METHOD_COPY, HTTP_METHOD_MOVE, HTTP_METHOD_PROPFIND, HTTP_METHOD_PROPPATCH, HTTP_METHOD_LOCK, HTTP_METHOD_UNLOCK]"

definition no_body :: "conn \<Rightarrow> cqueue \<Rightarrow> conn" where
  "no_body con wq = con\<lparr>c_response_chunked := False, c_parsed_response := unset_bit 2 (c_parsed_response con),
     c_file_finished := True, c_write_queue := wq\<rparr>"

text \<open>The switch over the method of a static file.\<close>

definition prepare_method :: "renv \<Rightarrow> conn \<Rightarrow> conn option" where
  "prepare_method env con =
     (if c_mode con \<noteq> DIRECT then Some con
      else if method_of con \<in> set plain_methods then Some con
      else if method_of con = HTTP_METHOD_OPTIONS then
        (case uri_path (c_uri con) of
           Some p \<Rightarrow>
             if http_status_of con \<in> {0, 200} \<and> hd (p @ [NUL]) \<noteq> CHR ''*'' then do {
               h \<leftarrow> response_header_insert env (c_response_headers con) ''Allow'' (Some ''OPTIONS, GET, HEAD, POST'');
               wq \<leftarrow> queue_clear (c_write_queue con);
               Some (set_status 200 (no_body (con\<lparr>c_response_headers := h\<rparr>) wq))
             }
             else Some con
         | None \<Rightarrow> Some con)
      else Some (if http_status_of con \<in> {400, 414, 505, 207} then con else set_status 501 con))"

definition prepare_status :: "conn \<Rightarrow> conn" where
  "prepare_status con = (if http_status_of con = 0 then set_status 403 con else con)"

text \<open>\<open>chunkqueue_get_append_buffer\<close> and what is copied to the buffer.\<close>

definition queue_text :: "cqueue \<Rightarrow> string \<Rightarrow> cqueue option" where
  "queue_text s t = do {
     (a, w, q) \<leftarrow> chunkqueue_get_append_buffer (fst s) (snd s);
     c \<leftarrow> chunk_at w a;
     w1 \<leftarrow> chunk_put w a (c\<lparr>ck_mem := Some t\<rparr>);
     Some (w1, q)
   }"

definition error_page :: "int \<Rightarrow> string" where
  "error_page status =
     (let title = dec_int status @ '' - '' @ (case get_http_status_name status of None \<Rightarrow> [] | Some n \<Rightarrow> n);
          q = [CHR 0x22] in
      ''<?xml version='' @ q @ ''1.0'' @ q @ '' encoding='' @ q @ ''iso-8859-1'' @ q @ ''?>'' @ [LF] @
      ''<!DOCTYPE html PUBLIC '' @ q @ ''-//W3C//DTD XHTML 1.0 Transitional//EN'' @ q @ [LF] @
      ''         '' @ q @ ''http://www.w3.org/TR/xhtml1/DTD/xhtml1-transitional.dtd'' @ q @ ''>'' @ [LF] @
      ''<html xmlns='' @ q @ ''http://www.w3.org/1999/xhtml'' @ q @ '' xml:lang='' @ q @ ''en'' @ q @ '' lang='' @ q @ ''en'' @ q @ ''>'' @ [LF] @
      '' <head>'' @ [LF] @ ''  <title>'' @ title @ ''</title>'' @ [LF] @ '' </head>'' @ [LF] @ '' <body>'' @ [LF] @
      ''  <h1>'' @ title @ ''</h1>'' @ [LF] @ '' </body>'' @ [LF] @ ''</html>'' @ [LF])"

definition set_path :: "bstr \<Rightarrow> conn \<Rightarrow> conn" where
  "set_path p con = con\<lparr>c_physical := (c_physical con)\<lparr>ph_path := p\<rparr>\<rparr>"

text \<open>The static error file; the flag says whether it was found.\<close>

definition prepare_errorfile :: "wenv \<Rightarrow> stat_cache \<Rightarrow> conn \<Rightarrow> (bool \<times> conn \<times> stat_cache) option" where
  "prepare_errorfile env sc con = (case cf_errorfile_prefix (c_conf con) of
     None \<Rightarrow> Some (False, con, sc)
   | Some prefix \<Rightarrow> do {
       let path = bs_append (bs_append (Some prefix) (dec_int (http_status_of con))) ''.html'';
       let con1 = set_path path con;
       (h, sce, sc1) \<leftarrow> stat_cache_get_entry (we_fs env) (stat_conf_of env con) sc path;
       (if h = HANDLER_ERROR then Some (False, con1, sc1)
        else do {
          e \<leftarrow> sce;
          wq \<leftarrow> http_chunk_append_file (c_response_chunked con) (fst (c_write_queue con)) (snd (c_write_queue con)) path 0 (st_size (sce_st e));
          hs \<leftarrow> response_header_overwrite (renv.truncate env) (c_response_headers con) ''Content-Type'' (sce_content_type e);
          Some (True, con1\<lparr>c_file_finished := True, c_write_queue := wq, c_response_headers := hs\<rparr>, sc1)
        })
     })"

definition prepare_body :: "wenv \<Rightarrow> stat_cache \<Rightarrow> conn \<Rightarrow> (conn \<times> stat_cache) option" where
  "prepare_body env sc con =
     (if http_status_of con \<in> {204, 205, 304} then do {
        wq \<leftarrow> queue_clear (c_write_queue con);
        Some (no_body con wq, sc)
      }
      else if c_mode con \<noteq> DIRECT then Some (con, sc)
      else if http_status_of con < 400 \<or> http_status_of con \<ge> 600 then Some (con, sc)
      else do {
        (found, con1, sc1) \<leftarrow> prepare_errorfile env sc (set_path None (con\<lparr>c_file_finished := False\<rparr>));
        (if found then Some (con1, sc1)
         else do {
           wq \<leftarrow> queue_text (c_write_queue con1) (error_page (http_status_of con1));
           hs \<leftarrow> response_header_overwrite (renv.truncate env) (c_response_headers con1) ''Content-Type'' (Some ''text/html'');
           Some ((set_path None con1)\<lparr>c_file_finished := True, c_write_queue := wq, c_response_headers := hs\<rparr>, sc1)
         })
      })"

text \<open>\<open>buffer_reset(ds->value)\<close> of the field \<open>Content-Length\<close>, if it is there.\<close>

definition drop_field :: "renv \<Rightarrow> array \<Rightarrow> string \<Rightarrow> array option" where
  "drop_field env a key = do {
     (ndx, _) \<leftarrow> array_get_index (re_aligned env key) a (Some (key @ [NUL])) 0;
     (if ndx \<noteq> -1 then do {
        slot \<leftarrow> mem_get (a_data a) (nat ndx);
        ds \<leftarrow> slot;
        ds1 \<leftarrow> (case du_val ds of
           DString _ \<Rightarrow> Some (ds\<lparr>du_val := DString None\<rparr>) | DResponse _ \<Rightarrow> Some (ds\<lparr>du_val := DResponse None\<rparr>) | _ \<Rightarrow> None);
        d \<leftarrow> mem_set (a_data a) (nat ndx) (Some ds1);
        Some (a\<lparr>a_data := d\<rparr>)
      }
      else Some a)
   }"

definition prepare_length :: "renv \<Rightarrow> conn \<Rightarrow> conn option" where
  "prepare_length env con =
     (if c_file_finished con then
        if c_parsed_response con AND HTTP_CONTENT_LENGTH = 0 \<and> \<not> c_response_chunked con then do {
          qlen \<leftarrow> chunkqueue_length (fst (c_write_queue con)) (snd (c_write_queue con));
          (if http_status_of con \<ge> 100 \<and> http_status_of con < 200 \<or> http_status_of con = 204 \<or> http_status_of con = 304 then do {
             hs \<leftarrow> drop_field env (c_response_headers con) ''Content-Length'';
             Some (con\<lparr>c_response_headers := hs\<rparr>)
           }
           else if qlen > 0 \<or> method_of con \<noteq> HTTP_METHOD_HEAD then do {
             hs \<leftarrow> response_header_overwrite env (c_response_headers con) ''Content-Length'' (Some (dec_int qlen));
             Some (con\<lparr>c_response_headers := hs\<rparr>)
           }
           else Some con)
        }
        else Some con
      else do {
        let con1 = (if c_parsed_response con AND HTTP_CONTENT_LENGTH = 0 \<and> \<not> c_response_chunked con then no_keep_alive con else con);
        Some (if c_parsed_response con AND HTTP_CONNECTION \<noteq> 0 \<and> keep_alive_of con1 \<and> \<not> co_response_keep_alive (c_core con1)
              then no_keep_alive con1 else con1)
      })"

definition prepare_head :: "conn \<Rightarrow> conn option" where
  "prepare_head con =
     (if method_of con = HTTP_METHOD_HEAD then do {
        wq \<leftarrow> queue_clear (c_write_queue con);
        Some (con\<lparr>c_file_finished := True, c_write_queue := wq, c_response_chunked := False\<rparr>)
      }
      else Some con)"

section \<open>The functions\<close>

definition connection_handle_write_prepare ::
  "wenv \<Rightarrow> stat_cache \<Rightarrow> date_cache \<Rightarrow> conn \<Rightarrow> (conn \<times> stat_cache \<times> date_cache) option" where
  "connection_handle_write_prepare env sc dc con = do {
     con1 \<leftarrow> prepare_method (renv.truncate env) con;
     let con2 = prepare_status con1;
     (con3, sc1) \<leftarrow> prepare_body env sc con2;
     con4 \<leftarrow> prepare_length (renv.truncate env) con3;
     con5 \<leftarrow> prepare_head con4;
     (con6, dc1) \<leftarrow> http_response_write_header (renv.truncate env) (we_cur env) dc con5;
     Some (con6, sc1, dc1)
   }"

section \<open>The steps never fail\<close>

text \<open>Room for \<open>n\<close> more fields, and a queue of well formed chunks.\<close>

definition resp_ok :: "int \<Rightarrow> conn \<Rightarrow> bool" where
  "resp_ok n con = (fields_ok (c_response_headers con) \<and> int (a_used (c_response_headers con)) + n \<le> INT_MAX \<and>
     queue_ok (c_write_queue con))"

lemma resp_okD:
  assumes "resp_ok n con"
  shows "fields_ok (c_response_headers con)" "int (a_used (c_response_headers con)) + n \<le> INT_MAX" "queue_ok (c_write_queue con)"
  using assms by (simp_all add: resp_ok_def)

lemma header_insert_total:
  assumes "fields_ok a" "key_ok k" "int (a_used a) + 1 \<le> INT_MAX"
  obtains b where "response_header_insert env a k v = Some b" "fields_ok b" "a_used b \<le> a_used a + 1"
proof -
  have ok: "array_ok a" "array_safe a" "plain_slots (a_data a)" using assms(1) by (simp_all add: fields_ok_iff)
  obtain slot a1 where g: "array_get_unused_element a = Some (slot, a1)" "array_ok a1" "a_used a1 = a_used a"
    using array_get_unused_element_spec [OF ok(1)] by blast
  have g2: "array_safe a1" "case slot of None \<Rightarrow> True | Some du \<Rightarrow> is_text du" using array_unused_safe [OF ok(2)] g(1) by auto
  have g3: "plain_slots (a_data a1)" "case slot of None \<Rightarrow> True | Some du \<Rightarrow> \<not> du_is_index_key du"
    using g(1) ok(3) by (auto simp: array_get_unused_element_def mem_get_def mem_set_def plain_slots_def list_all_length nth_list_update
        split: if_splits option.splits)
  define ds0 where "ds0 = (case slot of None \<Rightarrow> data_response_init | Some ds \<Rightarrow> ds)\<lparr>du_key := Some k\<rparr>"
  have "is_text ds0" "\<not> du_is_index_key ds0" "du_key ds0 = Some k"
    using g2(2) g3(2) by (auto simp: ds0_def data_response_init_def data_string_init_def is_text_def split: option.splits)
  then obtain ds where ds: "ds_copy_value ds0 v = Some ds" "is_text ds" "du_key ds = Some k" "\<not> du_is_index_key ds"
    using ds_set_text [of ds0] by (cases v) (auto simp: ds_copy_value_def)
  have u: "unique_key a1 ds = (a1, ds)" using ds(3,4) by (simp add: unique_key_def)
  obtain r b where b: "array_insert_unique (re_junk env) a1 ds = Some (r, b)" "array_safe b" "a_used b \<le> a_used a + 1"
    using array_insert_safe [OF g2(1) ds(2), of "re_junk env"] g(3) by fastforce
  have "array_ok b"
    using array_insert_unique_spec [OF g(2) u ds(3) assms(2), of "re_junk env"] assms(3) g(3) b(1) by (auto split: option.splits)
  moreover have "plain_slots (a_data b)" by (rule insert_unique_slots [OF b(1) g3(1) ds(4,3)])
  moreover have "response_header_insert env a k v = Some b"
    using g(1) ds(1) b(1) by (simp add: response_header_insert_def ds0_def [symmetric])
  ultimately show thesis using that b(2,3) by (simp add: fields_ok_iff)
qed

lemma update_fields_ok:
  assumes "fields_ok a" "n < a_used a" "is_text d" "du_key d = du_key (elems a ! n)" "du_is_index_key d = du_is_index_key (elems a ! n)"
  shows "fields_ok (a\<lparr>a_data := (a_data a)[n := Some d]\<rparr>)"
proof -
  have ok: "array_ok a" "array_safe a" "plain_slots (a_data a)" using assms(1) by (simp_all add: fields_ok_iff)
  have n: "n < length (a_data a)" "a_data a ! n = Some (elems a ! n)"
    using assms(2) array_data_nth [OF ok(1) assms(2)] ok(1) by (auto simp: array_ok_def)
  have "array_ok (a\<lparr>a_data := (a_data a)[n := Some d]\<rparr>)"
    using array_ok_update [OF ok(1) assms(2), of d] elem_ok_nth [OF ok(1) assms(2)] assms(4) by (simp add: elem_ok_def)
  moreover have "array_safe (a\<lparr>a_data := (a_data a)[n := Some d]\<rparr>)"
    using n(1) ok(2) by (intro array_safe_update [OF ok(2) _ assms(3)]) (simp add: array_safe_def)
  moreover have "plain_slots ((a_data a)[n := Some d])"
    using ok(3) n assms(5) by (auto simp: plain_slots_def list_all_length nth_list_update split: option.splits)
  ultimately show ?thesis by (simp add: fields_ok_iff)
qed

lemma header_overwrite_total:
  assumes "fields_ok a" "key_ok k" "int (a_used a) + 1 \<le> INT_MAX"
  obtains b where "response_header_overwrite env a k v = Some b" "fields_ok b" "a_used b \<le> a_used a + 1"
proof -
  have ok: "array_ok a" "array_safe a" using assms(1) by (simp_all add: fields_ok_iff)
  show thesis
    using ok(1) assms(2)
  proof (cases rule: array_get_index_spec [where al = "re_aligned env k" and ?p0.0 = 0])
    case (found n p)
    let ?e = "elems a ! n"
    have n: "n < length (a_data a)" "a_data a ! n = Some ?e"
      using found(2) array_data_nth [OF ok(1) found(2)] ok(1) by (auto simp: array_ok_def)
    have "is_text ?e" using n ok(2) by (auto simp: array_safe_def list_all_length split: option.splits)
    then obtain d where d: "ds_copy_value ?e (map_option c_str v) = Some d" "is_text d" "du_key d = du_key ?e"
      "du_is_index_key d = du_is_index_key ?e" using ds_set_text [of ?e] by (cases v) (auto simp: ds_copy_value_def)
    have "response_header_overwrite env a k v = Some (a\<lparr>a_data := (a_data a)[n := Some d]\<rparr>)"
      using found(1) n d(1) by (simp add: response_header_overwrite_def mem_get_def mem_set_def)
    then show thesis using that update_fields_ok [OF assms(1) found(2) d(2-4)] by simp
  next
    case (missing g p)
    then show thesis using that header_insert_total [OF assms, of env v] by (auto simp: response_header_overwrite_def)
  qed
qed

lemma drop_field_total:
  assumes "fields_ok a" "key_ok k"
  obtains b where "drop_field env a k = Some b" "fields_ok b" "a_used b = a_used a" "field_value b k = None"
proof -
  have ok: "array_ok a" "array_safe a" using assms(1) by (simp_all add: fields_ok_iff)
  show thesis
    using ok(1) assms(2)
  proof (cases rule: array_get_index_spec [where al = "re_aligned env k" and ?p0.0 = 0])
    case (found n p)
    let ?e = "elems a ! n"
    have n: "n < length (a_data a)" "a_data a ! n = Some ?e"
      using found(2) array_data_nth [OF ok(1) found(2)] ok(1) by (auto simp: array_ok_def)
    have "is_text ?e" using n ok(2) by (auto simp: array_safe_def list_all_length split: option.splits)
    then obtain d where d: "(case du_val ?e of DString _ \<Rightarrow> Some (?e\<lparr>du_val := DString None\<rparr>) | DResponse _ \<Rightarrow> Some (?e\<lparr>du_val := DResponse None\<rparr>) | _ \<Rightarrow> None) = Some d"
      "is_text d" "du_key d = du_key ?e" "du_is_index_key d = du_is_index_key ?e" "ds_value d = Some None"
      by (cases "du_val ?e") (auto simp: is_text_def ds_value_def)
    let ?b = "a\<lparr>a_data := (a_data a)[n := Some d]\<rparr>"
    have "elems ?b = (elems a)[n := d]" "n < length (elems a)"
      using array_ok_update [OF ok(1) found(2), of d] elem_ok_nth [OF ok(1) found(2)] d(3) found(2) length_elems [OF ok(1)] by (simp_all add: elem_ok_def)
    moreover have "\<forall>m < n. \<not> same_key k (elems a ! m)" using found(2,4) by (metis less_trans nat_neq_iff)
    moreover have "same_key k d" using found(3) d(3) by (simp add: same_key_def)
    ultimately have "array_lookup ?b k = Some d" unfolding array_lookup_def using found(3) by (simp add: find_update)
    then have "field_value ?b k = None" by (simp add: field_value_def d(5))
    moreover
    have "drop_field env a k = Some (a\<lparr>a_data := (a_data a)[n := Some d]\<rparr>)"
      using found(1) n d(1) by (simp add: drop_field_def mem_get_def mem_set_def)
    ultimately show thesis using that update_fields_ok [OF assms(1) found(2) d(2-4)] by simp
  next
    case (missing g p)
    then show thesis using that assms(1) lookup_missing [OF ok(1) missing(2)] by (simp add: drop_field_def field_value_def)
  qed
qed

lemma queue_clear_ok:
  assumes "queue_ok s"
  obtains s1 where "queue_clear s = Some s1" "holds_pieces s1 []"
  using queue_reset_ok [OF assms] that by (metis queue_clear_def)

lemma queue_text_ok:
  assumes "holds_pieces s ps"
  obtains s1 where "queue_text s t = Some s1" "holds_pieces s1 (ps @ [PMem (Some t) 0])"
proof -
  obtain w q where s: "s = (w, q)" "rep w q ps" using assms by (cases s) (simp add: holds_pieces_def)
  let ?f = "\<lambda>c. c\<lparr>ck_type := MEM_CHUNK, ck_offset := 0, ck_mem := None\<rparr>"
  obtain as us where as: "queue_inv w q as us" "pieces w as = ps" using s(2) by (auto simp: rep_def)
  obtain a w1 q1 us1 c0 where n: "append_new w q ?f = Some (a, w1, q1)" "queue_inv w1 q1 (as @ [a]) us1"
    "pieces w1 (as @ [a]) = pieces w as @ [piece_of (?f c0)]" using append_new_ok [OF as(1), of ?f] by auto
  obtain c where c: "chunk_at w1 a = Some c" using chain_mem [of w1 "cq_first q1" "as @ [a]" a] n(2) by (auto simp: queue_inv_def)
  have split: "pieces w1 (as @ [a]) = pieces w1 as @ [piece_of c]" using c by (simp add: pieces_def)
  then have ck: "ck_type c = MEM_CHUNK" "ck_offset c = 0" "a \<notin> set as" "pieces w1 as = ps"
    using n(2,3) as(2) by (auto simp: piece_of_def queue_inv_def split: chunk_type.splits)
  let ?c = "c\<lparr>ck_mem := Some t\<rparr>"
  let ?w = "w1\<lparr>w_heap := (w_heap w1)[a := Some ?c]\<rparr>"
  have "same_links w1 ?w" by (rule same_links_update [OF c, of ?c]) simp_all
  then have "queue_inv ?w q1 (as @ [a]) us1" using n(2) same_links_inv by blast
  moreover have "pieces ?w (as @ [a]) = ps @ [PMem (Some t) 0]"
  proof -
    have "pieces ?w [a] = [PMem (Some t) 0]" using chunk_put_Some(2) [OF c, of ?c] ck by (simp add: pieces_def piece_of_def)
    moreover have "pieces ?w as = ps" using pieces_update [OF c ck(3), of ?c] ck(4) by simp
    ultimately show ?thesis by (simp add: pieces_def)
  qed
  ultimately have "rep ?w q1 (ps @ [PMem (Some t) 0])" unfolding rep_def by blast
  moreover have "queue_text s t = Some (?w, q1)"
    using s(1) n(1) c chunk_put_Some(1) [OF c, of ?c] by (simp add: queue_text_def chunkqueue_get_append_buffer_def)
  ultimately show thesis using that by (simp add: holds_pieces_def)
qed

lemma chunk_file_ok:
  assumes "holds_pieces s ps" "PUnused \<notin> set ps"
  obtains s1 where "http_chunk_append_file chunked (fst s) (snd s) fn off len = Some s1" "queue_ok s1"
proof -
  obtain w q where s: "s = (w, q)" "rep w q ps" using assms(1) by (cases s) (simp add: holds_pieces_def)
  obtain w1 q1 ps1 where 1: "(if chunked then http_chunk_append_len w q (nat (len mod 2 ^ 64)) else Some (w, q)) = Some (w1, q1)" "rep w1 q1 ps1" "PUnused \<notin> set ps1"
    using append_buffer_rep [OF s(2), of "Some (chunk_len_line (nat (len mod 2 ^ 64)))"] s(2) assms(2)
    by (cases chunked) (auto simp: http_chunk_append_len_def)
  obtain w2 q2 ps2 where 2: "chunkqueue_append_file w1 q1 fn off len = Some (w2, q2)" "rep w2 q2 ps2" "PUnused \<notin> set ps2"
    using append_file_rep [OF 1(2), of fn off len] 1(3) by (auto split: if_splits)
  obtain w3 q3 ps3 where 3: "(if chunked \<and> len > 0 then chunkqueue_append_mem w2 q2 [CR, LF, NUL] 3 else Some (w2, q2)) = Some (w3, q3)"
    "rep w3 q3 ps3" "PUnused \<notin> set ps3"
    using append_mem_rep [OF 2(2), of 3 "[CR, LF, NUL]"] 2(2,3) by (cases "chunked \<and> len > 0") auto
  have "http_chunk_append_file chunked (fst s) (snd s) fn off len = Some (w3, q3)"
    using 1(1) 2(1) 3(1) s(1) by (auto simp: http_chunk_append_file_def)
  then show thesis using that queue_okI [of "(w3, q3)" ps3] 3(2,3) by (simp add: holds_pieces_def)
qed

lemma field_keys_ok: "key_ok ''Allow''" "key_ok ''Content-Type''" "key_ok ''Content-Length''"
  by (simp_all add: key_ok_def regular_str_def regular_char_def)

lemma no_body_simps [simp]:
  "c_mode (no_body con wq) = c_mode con" "method_of (no_body con wq) = method_of con" "keep_alive_of (no_body con wq) = keep_alive_of con"
  "http_status_of (no_body con wq) = http_status_of con" "c_response_headers (no_body con wq) = c_response_headers con"
  "c_write_queue (no_body con wq) = wq" "c_conf (no_body con wq) = c_conf con" "c_file_finished (no_body con wq)"
  "\<not> c_response_chunked (no_body con wq)" "c_core (no_body con wq) = c_core con"
  by (simp_all add: no_body_def)

lemma no_body_unset [simp]: "c_parsed_response (no_body con wq) AND HTTP_CONTENT_LENGTH = 0"
proof -
  have "HTTP_CONTENT_LENGTH = 2 ^ 2" by (simp add: HTTP_CONTENT_LENGTH_def)
  then have "bit HTTP_CONTENT_LENGTH n \<Longrightarrow> n = 2" for n by (metis bit_exp_iff)
  then show ?thesis by (intro bit_eqI) (auto simp: no_body_def bit_simps)
qed

lemma prepare_method_ok:
  assumes "resp_ok 4 con"
  obtains con1 where "prepare_method env con = Some con1" "resp_ok 3 con1" "method_of con1 = method_of con" "c_mode con1 = c_mode con"
    "c_conf con1 = c_conf con"
proof -
  have ok: "resp_ok 3 con" using assms by (simp add: resp_ok_def)
  have "\<exists>con1. prepare_method env con = Some con1 \<and> resp_ok 3 con1 \<and> method_of con1 = method_of con \<and> c_mode con1 = c_mode con \<and> c_conf con1 = c_conf con"
  proof (cases "c_mode con = DIRECT \<and> method_of con \<notin> set plain_methods \<and> method_of con = HTTP_METHOD_OPTIONS \<and>
      (\<exists>p. uri_path (c_uri con) = Some p \<and> http_status_of con \<in> {0, 200} \<and> hd (p @ [NUL]) \<noteq> CHR ''*'')")
    case True
    then obtain p where p: "uri_path (c_uri con) = Some p" "http_status_of con \<in> {0, 200}" "hd (p @ [NUL]) \<noteq> CHR ''*''" by blast
    obtain h where h: "response_header_insert env (c_response_headers con) ''Allow'' (Some ''OPTIONS, GET, HEAD, POST'') = Some h"
      "fields_ok h" "a_used h \<le> a_used (c_response_headers con) + 1"
      using header_insert_total [OF resp_okD(1) [OF assms] field_keys_ok(1)] resp_okD(2) [OF assms] by auto
    obtain wq where wq: "queue_clear (c_write_queue con) = Some wq" "holds_pieces wq []" using queue_clear_ok [OF resp_okD(3) [OF assms]] .
    have "resp_ok 3 (set_status 200 (no_body (con\<lparr>c_response_headers := h\<rparr>) wq))"
      using h(2,3) resp_okD(2) [OF assms] queue_okI [OF wq(2)] by (simp add: resp_ok_def)
    moreover have "HTTP_METHOD_OPTIONS \<notin> set plain_methods" by (simp add: plain_methods_def)
    ultimately show ?thesis using True p h(1) wq(1) by (simp add: prepare_method_def)
  next
    case False
    have "resp_ok 3 (set_status 501 con)" using ok by (simp add: resp_ok_def)
    then show ?thesis using False ok unfolding prepare_method_def
      by (cases "uri_path (c_uri con)") auto
  qed
  then show thesis using that by blast
qed

text \<open>The error file: found or not, nothing but the queue, the fields and the path changes.\<close>

lemma prepare_errorfile_ok:
  assumes "resp_ok 3 con" "cache_tree_ok sc" "mime_ok (cf_mimetypes (c_conf con))"
  obtains found con1 sc1 where "prepare_errorfile env sc con = Some (found, con1, sc1)" "cache_tree_ok sc1"
    "resp_ok (if found then 2 else 3) con1" "c_core con1 = c_core con" "c_mode con1 = c_mode con" "c_conf con1 = c_conf con"
    "c_parsed_response con1 = c_parsed_response con" "c_response_chunked con1 = c_response_chunked con"
    "if found then c_file_finished con1 else c_write_queue con1 = c_write_queue con"
    "cf_errorfile_prefix (c_conf con) = None \<longrightarrow> \<not> found"
proof (cases "cf_errorfile_prefix (c_conf con)")
  case None
  then show thesis using that [of False con sc] assms by (simp add: prepare_errorfile_def)
next
  case (Some prefix)
  define name where "name = prefix @ dec_int (http_status_of con) @ ''.html''"
  have path: "bs_append (bs_append (Some prefix) (dec_int (http_status_of con))) ''.html'' = Some name"
    by (simp add: bs_append_def name_def)
  obtain h r sc1 where g: "stat_cache_get_entry (we_fs env) (stat_conf_of env con) sc (Some name) = Some (h, r, sc1)" "cache_tree_ok sc1"
    "h = HANDLER_ERROR \<and> r = None \<or> h = HANDLER_GO_ON \<and> (\<exists>e. r = Some e)"
    using get_entry_total [OF assms(2), of "stat_conf_of env con" "we_fs env" name] assms(3) by (auto simp: stat_conf_of_def)
  show thesis
  proof (cases "h = HANDLER_ERROR")
    case True
    have "resp_ok 3 (set_path (Some name) con)" using assms(1) by (simp add: resp_ok_def set_path_def)
    then show thesis using that [of False "set_path (Some name) con" sc1] g(1,2) Some True path
      by (simp add: prepare_errorfile_def set_path_def)
  next
    case False
    then obtain e where e: "r = Some e" using g(3) by auto
    obtain ps where "holds_pieces (c_write_queue con) ps" "PUnused \<notin> set ps" using resp_okD(3) [OF assms(1)] by (auto simp: queue_ok_def)
    then obtain wq where wq: "http_chunk_append_file (c_response_chunked con) (fst (c_write_queue con)) (snd (c_write_queue con))
        (Some name) 0 (st_size (sce_st e)) = Some wq" "queue_ok wq" by (rule chunk_file_ok)
    obtain hs where hs: "response_header_overwrite (renv.truncate env) (c_response_headers con) ''Content-Type'' (sce_content_type e) = Some hs"
      "fields_ok hs" "a_used hs \<le> a_used (c_response_headers con) + 1"
      using header_overwrite_total [OF resp_okD(1) [OF assms(1)] field_keys_ok(2)] resp_okD(2) [OF assms(1)] by auto
    let ?con = "(set_path (Some name) con)\<lparr>c_file_finished := True, c_write_queue := wq, c_response_headers := hs\<rparr>"
    have "resp_ok 2 ?con" using hs(2,3) wq(2) resp_okD(2) [OF assms(1)] by (simp add: resp_ok_def)
    then show thesis using that [of True ?con sc1] g(1,2) Some False path e wq(1) hs(1)
      by (simp add: prepare_errorfile_def set_path_def)
  qed
qed

text \<open>When the body is there: the status is kept, and the three ways in which it is made.\<close>

lemma prepare_body_ok:
  assumes "resp_ok 3 con" "cache_tree_ok sc" "mime_ok (cf_mimetypes (c_conf con))"
  obtains con1 sc1 where "prepare_body env sc con = Some (con1, sc1)" "cache_tree_ok sc1" "resp_ok 1 con1" "c_core con1 = c_core con"
    "c_mode con1 = c_mode con"
    "http_status_of con \<in> {204, 205, 304} \<Longrightarrow> holds_pieces (c_write_queue con1) [] \<and> c_file_finished con1 \<and>
       \<not> c_response_chunked con1 \<and> c_parsed_response con1 AND HTTP_CONTENT_LENGTH = 0"
    "c_mode con = DIRECT \<Longrightarrow> 400 \<le> http_status_of con \<Longrightarrow> http_status_of con < 600 \<Longrightarrow> c_file_finished con1 \<and>
       (cf_errorfile_prefix (c_conf con) = None \<longrightarrow>
          (\<exists>ps. holds_pieces (c_write_queue con1) (ps @ [PMem (Some (error_page (http_status_of con))) 0]) \<and> PUnused \<notin> set ps))"
proof -
  note outcome = that
  have rok: "resp_ok 1 con" using assms(1) by (simp add: resp_ok_def)
  show thesis
  proof (cases "http_status_of con \<in> {204, 205, 304}")
    case True
    obtain wq where wq: "queue_clear (c_write_queue con) = Some wq" "holds_pieces wq []" using queue_clear_ok [OF resp_okD(3) [OF assms(1)]] .
    have "resp_ok 1 (no_body con wq)" using rok queue_okI [OF wq(2)] by (simp add: resp_ok_def)
    then show thesis using outcome [of "no_body con wq" sc] True wq assms(2) by (auto simp: prepare_body_def)
  next
    case False
    show thesis
    proof (cases "c_mode con \<noteq> DIRECT \<or> http_status_of con < 400 \<or> http_status_of con \<ge> 600")
      case True
      then show thesis using outcome [of con sc] False rok assms(2) by (auto simp: prepare_body_def)
    next
      case body: False
      define con0 where "con0 = set_path None (con\<lparr>c_file_finished := False\<rparr>)"
      have c0: "resp_ok 3 con0" "c_core con0 = c_core con" "c_mode con0 = c_mode con" "c_conf con0 = c_conf con" "c_write_queue con0 = c_write_queue con"
        using assms(1) by (simp_all add: con0_def set_path_def resp_ok_def)
      obtain found con1 sc1 where e: "prepare_errorfile env sc con0 = Some (found, con1, sc1)" "cache_tree_ok sc1"
        "resp_ok (if found then 2 else 3) con1" "c_core con1 = c_core con0" "c_mode con1 = c_mode con0" "c_conf con1 = c_conf con0"
        "if found then c_file_finished con1 else c_write_queue con1 = c_write_queue con0" "cf_errorfile_prefix (c_conf con0) = None \<longrightarrow> \<not> found"
        using prepare_errorfile_ok [OF c0(1) assms(2), of env] assms(3) c0(4) by metis
      show thesis
      proof (cases found)
        case True
        then have "resp_ok 1 con1" using e(3) by (simp add: resp_ok_def)
        then show thesis using outcome [of con1 sc1] e c0 True False body by (auto simp: prepare_body_def con0_def [symmetric])
      next
        case nf: False
        then have r1: "resp_ok 3 con1" using e(3) by simp
        obtain ps where ps: "holds_pieces (c_write_queue con1) ps" "PUnused \<notin> set ps" using resp_okD(3) [OF r1] by (auto simp: queue_ok_def)
        obtain wq where wq: "queue_text (c_write_queue con1) (error_page (http_status_of con1)) = Some wq"
          "holds_pieces wq (ps @ [PMem (Some (error_page (http_status_of con1))) 0])" using queue_text_ok [OF ps(1)] .
        obtain hs where hs: "response_header_overwrite (renv.truncate env) (c_response_headers con1) ''Content-Type'' (Some ''text/html'') = Some hs"
          "fields_ok hs" "a_used hs \<le> a_used (c_response_headers con1) + 1"
          using header_overwrite_total [OF resp_okD(1) [OF r1] field_keys_ok(2)] resp_okD(2) [OF r1] by auto
        let ?con = "(set_path None con1)\<lparr>c_file_finished := True, c_write_queue := wq, c_response_headers := hs\<rparr>"
        have "queue_ok wq" using queue_okI [OF wq(2)] ps(2) by simp
        then have "resp_ok 1 ?con" using hs(2,3) resp_okD(2) [OF r1] by (simp add: resp_ok_def)
        moreover have "prepare_body env sc con = Some (?con, sc1)"
          using e(1) wq(1) hs(1) nf False body by (simp add: prepare_body_def con0_def [symmetric])
        ultimately show thesis using outcome [of ?con sc1] e(2,4,5) c0 wq(2) ps(2) False body by (auto simp: set_path_def)
      qed
    qed
  qed
qed

definition bodyless :: "int \<Rightarrow> bool" where
  "bodyless status = (100 \<le> status \<and> status < 200 \<or> status = 204 \<or> status = 304)"

lemma dec_int_NUL: "NUL \<notin> set (dec_int i)"
proof -
  have "\<not> light_isdigit (schar NUL)" by (simp add: light_isdigit_def schar_def)
  with dec_nat_digits have "NUL \<notin> set (dec_nat n)" for n by (auto simp: list_all_iff)
  then show ?thesis by (auto simp: dec_int_def)
qed

lemma prepare_length_ok:
  assumes "resp_ok 1 con" "holds_pieces (c_write_queue con) ps"
  obtains con1 where "prepare_length env con = Some con1" "fields_ok (c_response_headers con1)" "c_write_queue con1 = c_write_queue con"
    "c_file_finished con1 = c_file_finished con" "c_response_chunked con1 = c_response_chunked con"
    "c_parsed_response con1 = c_parsed_response con" "http_status_of con1 = http_status_of con" "method_of con1 = method_of con"
    "c_mode con1 = c_mode con"
    "c_file_finished con \<and> \<not> c_response_chunked con \<and> c_parsed_response con AND HTTP_CONTENT_LENGTH = 0 \<longrightarrow>
       (bodyless (http_status_of con) \<longrightarrow> field_value (c_response_headers con1) ''Content-Length'' = None) \<and>
       (\<not> bodyless (http_status_of con) \<longrightarrow> method_of con \<noteq> HTTP_METHOD_HEAD \<longrightarrow>
         field_value (c_response_headers con1) ''Content-Length'' = Some (dec_int (sum_list (map piece_length ps))))"
    "keep_alive_of con1 \<longrightarrow> c_file_finished con \<or> c_response_chunked con \<or> c_parsed_response con AND HTTP_CONTENT_LENGTH \<noteq> 0"
proof (cases "c_file_finished con \<and> c_parsed_response con AND HTTP_CONTENT_LENGTH = 0 \<and> \<not> c_response_chunked con")
  case True
  have len: "chunkqueue_length (fst (c_write_queue con)) (snd (c_write_queue con)) = Some (sum_list (map piece_length ps))"
    using assms(2) by (cases "c_write_queue con") (simp add: holds_pieces_def length_rep)
  let ?h = "c_response_headers con" and ?v = "dec_int (sum_list (map piece_length ps))"
  show thesis
  proof (cases "bodyless (http_status_of con)")
    case b: True
    obtain hs where hs: "drop_field env ?h ''Content-Length'' = Some hs" "fields_ok hs" "field_value hs ''Content-Length'' = None"
      using drop_field_total [OF resp_okD(1) [OF assms(1)] field_keys_ok(3)] by metis
    have "prepare_length env con = Some (con\<lparr>c_response_headers := hs\<rparr>)"
      using True b len hs(1) by (simp add: prepare_length_def bodyless_def)
    then show thesis using that [of "con\<lparr>c_response_headers := hs\<rparr>"] hs(2,3) True b by simp
  next
    case b: False
    obtain hs where hs: "response_header_overwrite env ?h ''Content-Length'' (Some ?v) = Some hs" "fields_ok hs"
      "field_value hs ''Content-Length'' = Some ?v"
      using header_overwrite [OF resp_okD(1) [OF assms(1)] field_keys_ok(3) _ dec_int_NUL] resp_okD(2) [OF assms(1)] by metis
    show thesis
    proof (cases "sum_list (map piece_length ps) > 0 \<or> method_of con \<noteq> HTTP_METHOD_HEAD")
      case send: True
      have "prepare_length env con = Some (con\<lparr>c_response_headers := hs\<rparr>)"
        using True b len hs(1) send by (auto simp: prepare_length_def bodyless_def)
      then show thesis using that [of "con\<lparr>c_response_headers := hs\<rparr>"] hs(2,3) True b by simp
    next
      case nosend: False
      have "prepare_length env con = Some con" using True b len nosend by (auto simp add: prepare_length_def bodyless_def)
      then show thesis using that [of con] resp_okD(1) [OF assms(1)] True b nosend by simp
    qed
  qed
next
  case False
  then have cases: "(c_file_finished con \<and> prepare_length env con = Some con) \<or> (\<not> c_file_finished con \<and>
      (prepare_length env con = Some con \<and> (keep_alive_of con \<longrightarrow> c_response_chunked con \<or> c_parsed_response con AND HTTP_CONTENT_LENGTH \<noteq> 0)
       \<or> prepare_length env con = Some (no_keep_alive con)))"
    by (auto simp: prepare_length_def Let_def)
  then show thesis
    using that [of con] that [of "no_keep_alive con"] resp_okD(1) [OF assms(1)] False by auto
qed

lemma prepare_head_ok:
  assumes "holds_pieces (c_write_queue con) ps" "PUnused \<notin> set ps"
  obtains con1 ps1 where "prepare_head con = Some con1" "holds_pieces (c_write_queue con1) ps1" "c_response_headers con1 = c_response_headers con"
    "c_core con1 = c_core con" "c_parsed_response con1 = c_parsed_response con" "c_mode con1 = c_mode con"
    "if method_of con = HTTP_METHOD_HEAD then ps1 = [] \<and> c_file_finished con1 \<and> \<not> c_response_chunked con1
     else ps1 = ps \<and> con1 = con"
proof (cases "method_of con = HTTP_METHOD_HEAD")
  case True
  obtain wq where wq: "queue_clear (c_write_queue con) = Some wq" "holds_pieces wq []" using queue_clear_ok [OF queue_okI [OF assms]] .
  then show thesis using that [of "con\<lparr>c_file_finished := True, c_write_queue := wq, c_response_chunked := False\<rparr>" "[]"] True
    by (simp add: prepare_head_def)
next
  case False
  then show thesis using that [of con ps] assms(1) by (simp add: prepare_head_def)
qed

lemma header_lines_total:
  "list_all is_text ds \<Longrightarrow> \<exists>r. header_lines status (map Some ds) (b, hd0, hs) = Some r"
proof (induction ds arbitrary: b hd0 hs)
  case (Cons d ds)
  obtain v where v: "ds_value d = Some v" using Cons.prems by (cases "du_val d") (auto simp: is_text_def ds_value_def)
  have "\<exists>h. header_sent d = Some h"
    using v strncaseeq_total [of 11 _ "''X-LIGHTTPD-''"] by (cases v; cases "du_key d") (fastforce simp: header_sent_def)+
  then obtain h where h: "header_sent d = Some h" by blast
  have "list_all is_text ds" using Cons.prems by simp
  note IH = Cons.IH [OF this]
  show ?case
  proof (cases h)
    case None
    then show ?thesis using h IH by simp
  next
    case (Some kv)
    then show ?thesis using h IH by (cases kv) (cases "status = 304"; simp add: Let_def)
  qed
qed simp

lemma response_header_total:
  assumes "array_safe (c_response_headers con)"
  obtains b dc1 where "response_header env cur dc con = Some (b, dc1)"
proof -
  let ?h = "c_response_headers con"
  have data: "list_all (\<lambda>slot. case slot of None \<Rightarrow> False | Some du \<Rightarrow> is_text du) (take (a_used ?h) (a_data ?h))"
    "a_used ?h \<le> length (a_data ?h)" using assms by (simp_all add: array_safe_def)
  have some: "list_all (\<lambda>slot. case slot of None \<Rightarrow> False | Some du \<Rightarrow> is_text du) xs \<Longrightarrow>
    \<exists>ys. xs = map Some ys \<and> list_all is_text ys" for xs :: "data_unset option list"
  proof (induction xs)
    case (Cons x xs)
    then obtain ys where "xs = map Some ys" "list_all is_text ys" by auto
    with Cons.prems show ?case by (cases x) (auto intro: exI [of _ "the x # ys"])
  qed simp
  obtain ys where ys: "take (a_used ?h) (a_data ?h) = map Some ys" "list_all is_text ys" using some [OF data(1)] by blast
  obtain r where "header_lines (http_status_of con) (map Some ys) (status_line con, False, False) = Some r"
    using header_lines_total [OF ys(2)] by blast
  then show thesis using that data(2) ys(1) by (cases r) (simp add: response_header_def mem_read_def Let_def)
qed

section \<open>What the header says\<close>

text \<open>A line of the header, from one end of line to the next, with the given value; the case of the name does not matter.\<close>

definition announces :: "string \<Rightarrow> string \<Rightarrow> string \<Rightarrow> bool" where
  "announces b k v = (\<exists>p k1 q. b = p @ [CR, LF] @ k1 @ '': '' @ v @ [CR, LF] @ q \<and> map lower_char k1 = map lower_char k)"

definition line_start :: "string \<Rightarrow> bool" where
  "line_start s = (s = [] \<or> take 2 s = [CR, LF])"

lemma line_start_simps [simp]: "line_start []" "line_start (CR # LF # s)"
  by (simp_all add: line_start_def)

lemma line_start_append: "line_start s \<Longrightarrow> line_start t \<Longrightarrow> line_start (s @ t)"
  by (cases s; cases "tl s") (auto simp: line_start_def)

lemma line_start_end:
  assumes "line_start s"
  obtains q where "s @ CR # LF # t = CR # LF # q"
proof (cases "s = []")
  case False
  then have "s = CR # LF # drop 2 s" using assms append_take_drop_id [of 2 s] by (simp add: line_start_def)
  then show thesis using that [of "drop 2 s @ CR # LF # t"] by (metis append_Cons)
qed (use that in simp)

lemma announces_line:
  assumes "b = p @ [CR, LF] @ k1 @ '': '' @ v @ s @ CR # LF # t" "line_start s" "map lower_char k1 = map lower_char k"
  shows "announces b k v"
proof -
  obtain q where "s @ CR # LF # t = CR # LF # q" using line_start_end [OF assms(2)] .
  then have "b = p @ [CR, LF] @ k1 @ '': '' @ v @ [CR, LF] @ q" using assms(1) by simp
  then show ?thesis unfolding announces_def using assms(3) by blast
qed

lemma header_lines_starts: "header_lines status ds (b, x) = Some (b1, y) \<Longrightarrow> \<exists>r. b1 = b @ r \<and> line_start r"
proof (induction ds arbitrary: b x)
  case (Cons d ds)
  then show ?case
  proof (cases d)
    case (Some e)
    obtain hd hs where x: "x = (hd, hs)" by (cases x)
    obtain h where h: "header_sent e = Some h" using Cons.prems Some x by (cases "header_sent e") auto
    show ?thesis
    proof (cases h)
      case None
      then show ?thesis using Cons.IH Cons.prems Some x h by simp
    next
      case hkv: (Some kv)
      obtain k v where kv: "kv = (k, v)" by (cases kv)
      show ?thesis
      proof (cases "c_strcaseeq k ''Content-Encoding'' \<and> status = 304")
        case True
        then show ?thesis using Cons.IH Cons.prems Some x h hkv kv by (simp add: Let_def)
      next
        case False
        then obtain z where "header_lines status ds (b @ [CR, LF] @ k @ '': '' @ v, z) = Some (b1, y)"
          using Cons.prems Some x h hkv kv by (auto simp: Let_def)
        from Cons.IH [OF this] obtain r where "b1 = (b @ [CR, LF] @ k @ '': '' @ v) @ r" "line_start r" by blast
        then show ?thesis by (intro exI [of _ "[CR, LF] @ k @ '': '' @ v @ r"]) simp
      qed
    qed
  qed simp
qed auto

lemma header_lines_line:
  assumes "header_lines status ds (b, x) = Some (b1, y)" "Some e \<in> set ds" "header_sent e = Some (Some (k, v))"
    and "\<not> (c_strcaseeq k ''Content-Encoding'' \<and> status = 304)"
  shows "\<exists>p q. b1 = b @ p @ [CR, LF] @ k @ '': '' @ v @ q \<and> line_start q"
  using assms(1,2)
proof (induction ds arbitrary: b x)
  case (Cons d ds)
  obtain hd hs where x: "x = (hd, hs)" by (cases x)
  show ?case
  proof (cases "d = Some e")
    case True
    then obtain z where "header_lines status ds (b @ [CR, LF] @ k @ '': '' @ v, z) = Some (b1, y)"
      using Cons.prems(1) assms(3,4) x by (auto simp: Let_def)
    from header_lines_starts [OF this] obtain r where "b1 = (b @ [CR, LF] @ k @ '': '' @ v) @ r" "line_start r" by blast
    then show ?thesis by (intro exI [of _ "[]"] exI [of _ r]) simp
  next
    case False
    then have e: "Some e \<in> set ds" using Cons.prems(2) by auto
    obtain b0 z where r: "header_lines status [d] (b, x) = Some (b0, z)" "header_lines status ds (b0, z) = Some (b1, y)"
    proof (cases d)
      case (Some e0)
      obtain h where "header_sent e0 = Some h" using Cons.prems Some x by (cases "header_sent e0") auto
      then show thesis using that Cons.prems(1) Some x by (cases h) (auto simp: Let_def split: prod.splits if_splits)
    qed (use Cons.prems(1) x in simp)
    obtain r0 where "b0 = b @ r0" using header_lines_starts [OF r(1)] by blast
    moreover obtain p q where "b1 = b0 @ p @ [CR, LF] @ k @ '': '' @ v @ q" "line_start q" using Cons.IH [OF r(2) e] by blast
    ultimately show ?thesis by (intro exI [of _ "r0 @ p"] exI [of _ q]) simp
  qed
qed simp

lemma response_header_parts:
  assumes "response_header env cur dc con = Some (b, dc1)"
  obtains ds b1 hd hs r where "mem_read (a_data (c_response_headers con)) (a_used (c_response_headers con)) = Some ds"
    "header_lines (http_status_of con) ds (status_line con, False, False) = Some (b1, hd, hs)" "b = b1 @ r @ [CR, LF, CR, LF]" "line_start r"
proof -
  obtain ds b1 hd hs where d: "mem_read (a_data (c_response_headers con)) (a_used (c_response_headers con)) = Some ds"
    "header_lines (http_status_of con) ds (status_line con, False, False) = Some (b1, hd, hs)"
    using assms by (auto simp: response_header_def)
  let ?dc = "if hd then dc else date_now env cur dc"
  let ?r = "(if hd then [] else [CR, LF] @ ''Date: '' @ bs_str (ts_date_str ?dc)) @ (if hs then [] else server_line con)"
  have "line_start (server_line con)" by (simp add: server_line_def split: option.split)
  then have "line_start ?r" by (intro line_start_append) simp_all
  moreover have "b = b1 @ ?r @ [CR, LF, CR, LF]" using assms d by (auto simp: response_header_def Let_def)
  ultimately show thesis using that d by blast
qed

lemma header_ends: "response_header env cur dc con = Some (b, dc1) \<Longrightarrow> \<exists>p. b = p @ [CR, LF, CR, LF]"
  by (rule response_header_parts) auto

text \<open>The two lines that the state of the connection decides.\<close>

lemma header_chunked:
  assumes "response_header env cur dc con = Some (b, dc1)" "c_response_chunked con"
  shows "announces b ''Transfer-Encoding'' ''chunked''"
proof -
  obtain ds b1 hd hs r where r: "header_lines (http_status_of con) ds (status_line con, False, False) = Some (b1, hd, hs)"
    "b = b1 @ r @ [CR, LF, CR, LF]" "line_start r" using response_header_parts [OF assms(1)] by metis
  obtain r1 where r1: "b1 = status_line con @ r1" "line_start r1" using header_lines_starts [OF r(1)] by blast
  obtain p where "status_line con = p @ [CR, LF] @ ''Transfer-Encoding'' @ '': '' @ ''chunked''"
    using assms(2) by (simp add: status_line_def)
  then show ?thesis using r r1 line_start_append [OF r1(2) r(3)]
    by (intro announces_line [of b p "''Transfer-Encoding''" "''chunked''" "r1 @ r" "[CR, LF]"]) simp_all
qed

lemma header_close:
  assumes "response_header env cur dc con = Some (b, dc1)" "\<not> keep_alive_of con"
  shows "announces b ''Connection'' ''close''"
proof -
  obtain ds b1 hd hs r where r: "header_lines (http_status_of con) ds (status_line con, False, False) = Some (b1, hd, hs)"
    "b = b1 @ r @ [CR, LF, CR, LF]" "line_start r" using response_header_parts [OF assms(1)] by metis
  obtain r1 where r1: "b1 = status_line con @ r1" "line_start r1" using header_lines_starts [OF r(1)] by blast
  let ?te = "if c_response_chunked con then [CR, LF] @ ''Transfer-Encoding: chunked'' else []"
  obtain p where "status_line con = p @ [CR, LF] @ ''Connection'' @ '': '' @ ''close'' @ ?te"
    using assms(2) by (simp add: status_line_def)
  moreover have "line_start (?te @ r1 @ r)" by (intro line_start_append r1(2) r(3)) simp
  ultimately show ?thesis using r r1
    by (intro announces_line [of b p "''Connection''" "''close''" "?te @ r1 @ r" "[CR, LF]"]) simp_all
qed

text \<open>A field that is stored is in the header.\<close>

lemma header_field:
  assumes "response_header env cur dc con = Some (b, dc1)" "fields_ok (c_response_headers con)"
    and "field_value (c_response_headers con) k = Some v" "k = ''Content-Length''"
  shows "announces b k v"
proof -
  let ?h = "c_response_headers con"
  have ok: "array_ok ?h" using assms(2) by (simp add: fields_ok_iff)
  obtain ds b1 hd hs r where r: "mem_read (a_data ?h) (a_used ?h) = Some ds"
    "header_lines (http_status_of con) ds (status_line con, False, False) = Some (b1, hd, hs)"
    "b = b1 @ r @ [CR, LF, CR, LF]" "line_start r" using response_header_parts [OF assms(1)] .
  have ds: "ds = map Some (elems ?h)" using r(1) array_data_take [OF ok] by (simp add: mem_read_def split: if_splits)
  obtain e where e: "array_lookup ?h k = Some e" "ds_value e = Some (Some v)"
    using assms(3) by (auto simp: field_value_def split: option.splits)
  then have "e \<in> set (elems ?h)" "same_key k e" by (auto simp: array_lookup_def find_Some_iff)
  then obtain k1 where k1: "du_key e = Some k1" "map lower_char k1 = map lower_char k" "Some e \<in> set ds"
    using ds by (auto simp: same_key_def split: option.splits)
  have names: "map lower_char ''Content-Length'' = ''content-length''" "map lower_char ''X-Sendfile'' = ''x-sendfile''"
    "map lower_char ''Content-Encoding'' = ''content-encoding''" "lower_char CHR ''X'' = CHR ''x''" by code_simp+
  have low: "map lower_char k1 = ''content-length''" using k1(2) assms(4) names(1) by (simp only:)
  then obtain c cs where c: "k1 = c # cs" "lower_char c = CHR ''c''" by (cases k1) auto
  have nul: "c_str k1 = k1"
  proof (rule c_str_no_NUL)
    have "NUL \<notin> set (map lower_char k1)" unfolding low by simp
    then show "NUL \<notin> set k1" using lower_char_NUL by (metis image_eqI list.set_map)
  qed
  have x: "c_strncaseeq 11 (k1 @ [NUL]) (''X-LIGHTTPD-'' @ [NUL]) = Some False" "\<not> c_strcaseeq k1 ''X-Sendfile''"
    "\<not> c_strcaseeq k1 ''Content-Encoding''"
    unfolding c_strcaseeq_def nul low names(2,3) using c names(4) by (simp_all add: eval_nat_numeral)
  then have "header_sent e = Some (Some (k1, v))" using e(2) k1(1) by (simp add: header_sent_def)
  from header_lines_line [OF r(2) k1(3) this] x(3) obtain p q where
    "b1 = status_line con @ p @ [CR, LF] @ k1 @ '': '' @ v @ q" "line_start q" by blast
  then show ?thesis using r(3,4) k1(2) line_start_append [of q r]
    by (intro announces_line [of b "status_line con @ p" k1 v "q @ r" "[CR, LF]"]) simp_all
qed

section \<open>Properties\<close>


text \<open>C11. The client can find the end of every response. Whatever the handlers leave in the connection, as long as its queues and fields
  are well formed with room for four more fields, preparing the write succeeds, the status is set, and in front of the queue is the header
  \<open>b\<close>, which ends with an empty line. With the statuses 204, 205 and 304 and for \<open>HEAD\<close> nothing follows it (a status 1xx is
  neither emptied nor announced). A complete body without chunks that no handler has announced, with a status other than 1xx, 204 and 304
  and a method other than \<open>HEAD\<close>, is announced: \<open>b\<close> has a line \<open>Content-Length\<close> with exactly the number of bytes in the queue behind it.
  A chunked body is announced by the line \<open>Transfer-Encoding: chunked\<close>; a connection that is not kept open by the line \<open>Connection: close\<close>;
  and a connection is kept open only if the body is complete, chunked or announced by a handler.\<close>

theorem response_framed:
  assumes "resp_ok 4 con" "cache_tree_ok sc" "mime_ok (cf_mimetypes (c_conf con))"
  shows "\<exists>con1 sc1 dc1 b ps. connection_handle_write_prepare env sc dc con = Some (con1, sc1, dc1) \<and>
    holds_pieces (c_write_queue con1) (PMem (Some b) 0 # ps) \<and> c_bytes_header con1 = int (length b) \<and>
    http_status_of con1 \<noteq> 0 \<and> cache_tree_ok sc1 \<and>
    (http_status_of con1 \<in> {204, 205, 304} \<or> method_of con1 = HTTP_METHOD_HEAD \<longrightarrow>
       ps = [] \<and> c_file_finished con1 \<and> \<not> c_response_chunked con1) \<and>
    (c_file_finished con1 \<and> \<not> c_response_chunked con1 \<and> c_parsed_response con1 AND HTTP_CONTENT_LENGTH = 0 \<and>
       \<not> bodyless (http_status_of con1) \<and> method_of con1 \<noteq> HTTP_METHOD_HEAD \<longrightarrow>
       field_value (c_response_headers con1) ''Content-Length'' = Some (dec_int (sum_list (map piece_length ps))) \<and>
       announces b ''Content-Length'' (dec_int (sum_list (map piece_length ps)))) \<and>
    (c_response_chunked con1 \<longrightarrow> announces b ''Transfer-Encoding'' ''chunked'') \<and>
    (\<not> keep_alive_of con1 \<longrightarrow> announces b ''Connection'' ''close'') \<and> (\<exists>p. b = p @ [CR, LF, CR, LF]) \<and>
    (keep_alive_of con1 \<longrightarrow> c_file_finished con1 \<or> c_response_chunked con1 \<or> c_parsed_response con1 AND HTTP_CONTENT_LENGTH \<noteq> 0)"
proof -
  obtain con1 where m: "prepare_method (renv.truncate env) con = Some con1" "resp_ok 3 con1" "c_conf con1 = c_conf con"
    using prepare_method_ok [OF assms(1)] by metis
  define con2 where "con2 = prepare_status con1"
  have c2: "resp_ok 3 con2" "http_status_of con2 \<noteq> 0" "c_conf con2 = c_conf con" using m by (simp_all add: con2_def prepare_status_def resp_ok_def)
  obtain con3 sc1 where b: "prepare_body env sc con2 = Some (con3, sc1)" "cache_tree_ok sc1" "resp_ok 1 con3" "c_core con3 = c_core con2"
    "http_status_of con2 \<in> {204, 205, 304} \<Longrightarrow> holds_pieces (c_write_queue con3) [] \<and> c_file_finished con3 \<and>
       \<not> c_response_chunked con3 \<and> c_parsed_response con3 AND HTTP_CONTENT_LENGTH = 0"
    using prepare_body_ok [OF c2(1) assms(2), of env] assms(3) c2(3) by metis
  obtain ps0 where ps0: "holds_pieces (c_write_queue con3) ps0" "PUnused \<notin> set ps0" "http_status_of con3 \<in> {204, 205, 304} \<longrightarrow> ps0 = []"
    using b(4,5) resp_okD(3) [OF b(3)]
    by (cases "http_status_of con2 \<in> {204, 205, 304}") (auto simp: queue_ok_def)
  obtain con4 where l: "prepare_length (renv.truncate env) con3 = Some con4" "fields_ok (c_response_headers con4)" "c_write_queue con4 = c_write_queue con3"
    "c_file_finished con4 = c_file_finished con3" "c_response_chunked con4 = c_response_chunked con3"
    "c_parsed_response con4 = c_parsed_response con3" "http_status_of con4 = http_status_of con3" "method_of con4 = method_of con3"
    "c_mode con4 = c_mode con3"
    "c_file_finished con3 \<and> \<not> c_response_chunked con3 \<and> c_parsed_response con3 AND HTTP_CONTENT_LENGTH = 0 \<longrightarrow>
       (bodyless (http_status_of con3) \<longrightarrow> field_value (c_response_headers con4) ''Content-Length'' = None) \<and>
       (\<not> bodyless (http_status_of con3) \<longrightarrow> method_of con3 \<noteq> HTTP_METHOD_HEAD \<longrightarrow>
         field_value (c_response_headers con4) ''Content-Length'' = Some (dec_int (sum_list (map piece_length ps0))))"
    "keep_alive_of con4 \<longrightarrow> c_file_finished con3 \<or> c_response_chunked con3 \<or> c_parsed_response con3 AND HTTP_CONTENT_LENGTH \<noteq> 0"
    by (rule prepare_length_ok [OF b(3) ps0(1), of "renv.truncate env"])
  obtain con5 ps where h: "prepare_head con4 = Some con5" "holds_pieces (c_write_queue con5) ps" "c_response_headers con5 = c_response_headers con4"
    "c_core con5 = c_core con4" "c_parsed_response con5 = c_parsed_response con4"
    "if method_of con4 = HTTP_METHOD_HEAD then ps = [] \<and> c_file_finished con5 \<and> \<not> c_response_chunked con5 else ps = ps0 \<and> con5 = con4"
    using prepare_head_ok [of con4 ps0] ps0(1,2) l(3) by metis
  have "array_safe (c_response_headers con5)" using l(2) h(3) by (simp add: fields_ok_iff)
  then obtain hb dc1 where r: "response_header (renv.truncate env) (we_cur env) dc con5 = Some (hb, dc1)" by (rule response_header_total)
  obtain wq where w: "http_response_write_header (renv.truncate env) (we_cur env) dc con5 =
      Some (con5\<lparr>c_write_queue := wq, c_bytes_header := int (length hb)\<rparr>, dc1)" "holds_pieces wq (PMem (Some hb) 0 # ps)"
    using write_header_pieces [OF r h(2)] .
  have run: "connection_handle_write_prepare env sc dc con = Some (con5\<lparr>c_write_queue := wq, c_bytes_header := int (length hb)\<rparr>, sc1, dc1)"
    using m(1) b(1) l(1) h(1) w(1) by (simp add: connection_handle_write_prepare_def con2_def Let_def)
  have head: "ps = [] \<and> c_file_finished con5 \<and> \<not> c_response_chunked con5"
    if "http_status_of con5 \<in> {204, 205, 304} \<or> method_of con5 = HTTP_METHOD_HEAD"
  proof (cases "method_of con4 = HTTP_METHOD_HEAD")
    case False
    then have "http_status_of con2 \<in> {204, 205, 304}" "ps = ps0" "con5 = con4" using that h(4,6) l(7) b(4) by auto
    then show ?thesis using b(4,5) ps0(3) l(4,5) by simp
  qed (use h(6) in simp)
  have announced: "field_value (c_response_headers con5) ''Content-Length'' = Some (dec_int (sum_list (map piece_length ps)))"
    if "c_file_finished con5 \<and> \<not> c_response_chunked con5 \<and> c_parsed_response con5 AND HTTP_CONTENT_LENGTH = 0 \<and>
       \<not> bodyless (http_status_of con5) \<and> method_of con5 \<noteq> HTTP_METHOD_HEAD"
  proof -
    have "con5 = con4" "ps = ps0" using that h(4,6) by (auto split: if_splits)
    then show ?thesis using that l(4-8,10) by simp
  qed
  have keep: "c_file_finished con5 \<or> c_response_chunked con5 \<or> c_parsed_response con5 AND HTTP_CONTENT_LENGTH \<noteq> 0" if "keep_alive_of con5"
    using that h(4,6) l(4-6,11) by (auto split: if_splits)
  have "fields_ok (c_response_headers con5)" using l(2) h(3) by simp
  note line = header_field [OF r this]
  have "http_status_of con5 \<noteq> 0" using h(4) l(7) b(4) c2(2) by simp
  then show ?thesis using run w(2) b(2) head announced keep line header_chunked [OF r] header_close [OF r] header_ends [OF r]
    by - (rule exI [of _ "con5\<lparr>c_write_queue := wq, c_bytes_header := int (length hb)\<rparr>"], rule exI [of _ sc1], rule exI [of _ dc1],
        rule exI [of _ hb], rule exI [of _ ps], simp)
qed

definition sample_wenv :: wenv where
  "sample_wenv = renv.extend sample_env \<lparr>we_fs = site, we_engine = STAT_CACHE_ENGINE_SIMPLE, we_cur = 1000\<rparr>"

theorem response_framed_witness:
  "\<exists>con1 sc1 dc1 b ps. connection_handle_write_prepare sample_wenv stat_cache_init \<lparr>last_generated_date_ts = 0, ts_date_str = None\<rparr>
      (set_status 404 sample_conn) = Some (con1, sc1, dc1) \<and>
     holds_pieces (c_write_queue con1) (PMem (Some b) 0 # ps) \<and> http_status_of con1 \<noteq> 0 \<and>
     (\<not> keep_alive_of con1 \<longrightarrow> announces b ''Connection'' ''close'') \<and>
     (keep_alive_of con1 \<longrightarrow> c_file_finished con1 \<or> c_response_chunked con1 \<or> c_parsed_response con1 AND HTTP_CONTENT_LENGTH \<noteq> 0)"
proof -
  have "resp_ok 4 (set_status 404 sample_conn)"
    by (simp add: resp_ok_def sample_conn_def connection_init_def chunkqueue_set_tempdirs_def fields_ok_init array_init_ok(3) INT_MAX_def
        queue_okI [OF holds_init(2)])
  moreover have "cache_tree_ok stat_cache_init" using reachable_cache_ok [OF reachable_cache.init] by simp
  moreover have "mime_ok (cf_mimetypes (c_conf (set_status 404 sample_conn)))"
    by (simp add: sample_conn_def connection_init_def chunkqueue_set_tempdirs_def config_setup_connection_def no_config_def mime_ok_def array_init_def)
  ultimately show ?thesis
    using response_framed [of "set_status 404 sample_conn" stat_cache_init sample_wenv "\<lparr>last_generated_date_ts = 0, ts_date_str = None\<rparr>"] by blast
qed

end
