(* ===== verification/Prepare.thy ===== *)
theory Prepare
  imports WritePrepare
begin

text \<open>
  \<open>http_response_prepare\<close> of \<open>response.c\<close>: from the address of a request to a file. The callbacks of the plugins and
  \<open>config_patch_connection\<close> are parameters, the fields of \<open>hooks\<close>; a callback sees the connection and the stat cache
  and may change both. \<open>pe_errno\<close> is what \<open>errno\<close> says when a name cannot be opened. The branches for Windows and the
  log are left out. A step gives \<open>Inl\<close> of what the function returns, or \<open>Inr\<close> of the state in which it goes on.

  The lemmas show that the file is below the document root and that the path info is what is left of the address.
\<close>

section \<open>Parameters\<close>

datatype comp_key = COMP_SERVER_SOCKET | COMP_HTTP_SCHEME | COMP_HTTP_HOST | COMP_HTTP_REMOTE_IP | COMP_HTTP_REFERER
  | COMP_HTTP_USER_AGENT | COMP_HTTP_COOKIE | COMP_HTTP_REQUEST_METHOD | COMP_HTTP_URL | COMP_HTTP_QUERY_STRING

datatype file_errno = EACCES | ENOENT | ENOTDIR | E_other

record penv = wenv +
  pe_errno :: "string \<Rightarrow> file_errno"

type_synonym hook = "conn \<Rightarrow> stat_cache \<Rightarrow> handler_t \<times> conn \<times> stat_cache"

record hooks =
  hk_patch :: "comp_key \<Rightarrow> conn \<Rightarrow> conn"
  hk_uri_raw :: hook
  hk_uri_clean :: hook
  hk_docroot :: hook
  hk_physical :: hook
  hk_subrequest_start :: hook
  hk_subrequest :: hook

type_synonym staged = "(handler_t \<times> conn \<times> stat_cache) + (conn \<times> stat_cache)"

definition and_then :: "staged option \<Rightarrow> (conn \<Rightarrow> stat_cache \<Rightarrow> staged option) \<Rightarrow> staged option" where
  "and_then s f = (case s of
     None \<Rightarrow> None
   | Some (Inl r) \<Rightarrow> Some (Inl r)
   | Some (Inr (con, sc)) \<Rightarrow> f con sc)"

text \<open>The switch over the answer of the plugins: an unknown answer is logged and then ignored.\<close>

definition call_plugins :: "hook \<Rightarrow> conn \<Rightarrow> stat_cache \<Rightarrow> staged" where
  "call_plugins hk con sc = (case hk con sc of (r, con1, sc1) \<Rightarrow>
     if r \<in> {HANDLER_FINISHED, HANDLER_COMEBACK, HANDLER_WAIT_FOR_EVENT, HANDLER_ERROR} then Inl (r, con1, sc1)
     else Inr (con1, sc1))"

section \<open>The address\<close>

definition bs_lower :: "bstr \<Rightarrow> bstr" where
  "bs_lower b = map_option (\<lambda>s. map lower_char (c_str s) @ drop (length (c_str s)) s) b"

text \<open>\<open>buffer_urldecode_path\<close> and \<open>buffer_path_simplify\<close> on the contents of a buffer. A path of spaces only gives a slash
  and a NUL.\<close>

definition clean_path :: "string \<Rightarrow> string" where
  "clean_path raw =
     (let s = url_decode False (c_str raw) in if blank_path s then [CHR ''/'', NUL] else path_simplify s)"

text \<open>The text in front of the first \<open>c\<close>, and the text after it.\<close>

definition cut_at :: "char \<Rightarrow> string \<Rightarrow> (string \<times> string) option" where
  "cut_at c u = (let p = takeWhile (\<lambda>x. x \<noteq> c) (c_str u) in
     if length p < length (c_str u) then Some (p, drop (length p + 1) (c_str u)) else None)"

definition is_star :: "string \<Rightarrow> bool" where
  "is_star s = (c_str s = ''*'')"

definition prepare_authority :: "hooks \<Rightarrow> specific_config \<Rightarrow> conn \<Rightarrow> conn option" where
  "prepare_authority hk conf0 con0 = do {
     let con = hk_patch hk COMP_SERVER_SOCKET (config_setup_connection conf0 con0);
     host \<leftarrow> (case rq_http_host (co_request (c_core con)) of
        None \<Rightarrow> Some (uri_authority (c_uri con))
      | Some ref \<Rightarrow> vref_value (rq_headers (co_request (c_core con))) ref);
     let con1 = con\<lparr>c_uri := (c_uri con)\<lparr>uri_scheme := Some (if cf_is_ssl (c_conf con) then ''https'' else ''http''),
          uri_authority := bs_lower host\<rparr>\<rparr>;
     Some (fold (hk_patch hk) [COMP_HTTP_SCHEME, COMP_HTTP_HOST, COMP_HTTP_REMOTE_IP, COMP_HTTP_REFERER,
       COMP_HTTP_USER_AGENT, COMP_HTTP_COOKIE, COMP_HTTP_REQUEST_METHOD] con1)
   }"

definition prepare_uri :: "conn \<Rightarrow> conn option" where
  "prepare_uri con = do {
     u0 \<leftarrow> rq_uri (co_request (c_core con));
     let u = (case cut_at CHR ''#'' u0 of None \<Rightarrow> u0 | Some (p, _) \<Rightarrow> p);
     let (raw, query) = (case cut_at CHR ''?'' u of None \<Rightarrow> (u, None) | Some (p, q) \<Rightarrow> (p, Some q));
     let con1 = con\<lparr>c_core := (c_core con)\<lparr>co_request := (co_request (c_core con))\<lparr>rq_uri := Some u\<rparr>\<rparr>,
          c_uri := (c_uri con)\<lparr>uri_query := query, uri_path_raw := Some raw\<rparr>\<rparr>;
     let con2 = (if co_request_count (c_core con1) > cf_max_keep_alive_requests (c_conf con1) then no_keep_alive con1 else con1);
     Some (con2\<lparr>c_uri := (c_uri con2)\<lparr>uri_path :=
       Some (if method_of con2 = HTTP_METHOD_OPTIONS \<and> is_star raw then raw else clean_path raw)\<rparr>\<rparr>)
   }"

section \<open>The physical path\<close>

definition prepare_options :: "penv \<Rightarrow> conn \<Rightarrow> stat_cache \<Rightarrow> staged option" where
  "prepare_options env con sc =
     (if method_of con \<noteq> HTTP_METHOD_OPTIONS then Some (Inr (con, sc))
      else do {
        p \<leftarrow> uri_path (c_uri con);
        (if hd (p @ [NUL]) \<noteq> CHR ''*'' then Some (Inr (con, sc))
         else do {
           raw \<leftarrow> uri_path_raw (c_uri con);
           c \<leftarrow> mem_get (raw @ [NUL]) 1;
           (if c \<noteq> NUL then Some (Inr (con, sc))
            else do {
              h \<leftarrow> response_header_insert (renv.truncate env) (c_response_headers con) ''Allow'' (Some ''OPTIONS, GET, HEAD, POST'');
              Some (Inl (HANDLER_FINISHED, set_status 200 (con\<lparr>c_response_headers := h, c_file_finished := True\<rparr>), sc))
            })
         })
      })"

definition set_docroot :: "conn \<Rightarrow> conn" where
  "set_docroot con = con\<lparr>c_physical := (c_physical con)\<lparr>ph_doc_root := cf_document_root (c_conf con), ph_rel_path := uri_path (c_uri con)\<rparr>\<rparr>"

definition set_physical :: "conn \<Rightarrow> conn" where
  "set_physical con0 =
     (let rel = (if cf_force_lowercase_filenames (c_conf con0) then bs_lower (ph_rel_path (c_physical con0)) else ph_rel_path (c_physical con0));
          base = bs_slash (ph_doc_root (c_physical con0));
          path = (case rel of
             Some (c # r) \<Rightarrow> if c = CHR ''/'' then bs_append base r else bs_append base (c # r)
           | _ \<Rightarrow> bs_append_buffer base rel)
      in con0\<lparr>c_server_name := (if c_server_name con0 = None then uri_authority (c_uri con0) else c_server_name con0),
              c_physical := (c_physical con0)\<lparr>ph_rel_path := rel, ph_basedir := base, ph_path := path\<rparr>\<rparr>)"

text \<open>The part that builds the file name.\<close>

definition prepare_path :: "penv \<Rightarrow> hooks \<Rightarrow> specific_config \<Rightarrow> conn \<Rightarrow> stat_cache \<Rightarrow> staged option" where
  "prepare_path env hk conf0 con sc =
     and_then (do { con1 \<leftarrow> prepare_authority hk conf0 con; con2 \<leftarrow> prepare_uri con1; Some (call_plugins (hk_uri_raw hk) con2 sc) }) (\<lambda>con3 sc3.
     and_then (do {
         let con4 = hk_patch hk COMP_HTTP_QUERY_STRING (hk_patch hk COMP_HTTP_URL con3);
         let con5 = (if cf_allow_http11 (c_conf con4) then con4
            else con4\<lparr>c_core := (c_core con4)\<lparr>co_request := (co_request (c_core con4))\<lparr>rq_http_version := HTTP_VERSION_1_0\<rparr>\<rparr>\<rparr>);
         Some (call_plugins (hk_uri_clean hk) con5 sc3) }) (\<lambda>con6 sc6.
     and_then (prepare_options env con6 sc6) (\<lambda>con7 sc7.
     and_then (Some (call_plugins (hk_docroot hk) (set_docroot con7) sc7)) (\<lambda>con8 sc8.
     Some (call_plugins (hk_physical hk) (set_physical con8) sc8)))))"

section \<open>The file\<close>

definition refuse :: "int \<Rightarrow> conn \<Rightarrow> stat_cache \<Rightarrow> staged" where
  "refuse status con sc = Inl (HANDLER_FINISHED, set_path None (set_status status con), sc)"

definition link_refused :: "conn \<Rightarrow> stat_cache_entry \<Rightarrow> bool" where
  "link_refused con sce = (sce_is_symlink sce \<noteq> 0 \<and> cf_follow_symlink (c_conf con) = 0)"

text \<open>\<open>con->physical.basedir->used - 2\<close> for a \<open>size_t\<close>.\<close>

definition base_limit :: "bstr \<Rightarrow> nat" where
  "base_limit base = ((case base of None \<Rightarrow> 0 | Some b \<Rightarrow> length b + 1) + (2 ^ 64 - 2)) mod 2 ^ 64"

lemma c_str_length_le: "length (c_str s) \<le> length s"
  by (simp add: c_str_def length_takeWhile_le)

text \<open>The loop on the path \<open>t\<close>: \<open>slash\<close> and \<open>pathinfo\<close> are offsets. The result is the path that was asked for last, its entry
  if there is one, and \<open>pathinfo\<close>.\<close>

function pathinfo_loop :: "file_system \<Rightarrow> stat_conf \<Rightarrow> nat \<Rightarrow> string \<Rightarrow> nat option \<Rightarrow> nat option \<Rightarrow> stat_cache \<Rightarrow>
    (string \<times> stat_cache_entry option \<times> nat option \<times> stat_cache) option" where
  "pathinfo_loop fs conf limit t slash pathinfo sc = do {
     let path = (case slash of None \<Rightarrow> t | Some i \<Rightarrow> take i t);
     (h, sce, sc1) \<leftarrow> stat_cache_get_entry fs conf sc (Some path);
     (if h \<noteq> HANDLER_ERROR then Some (path, sce, pathinfo, sc1)
      else (case cut_last_slash (c_str (case pathinfo of None \<Rightarrow> t | Some i \<Rightarrow> take i t)) of
              None \<Rightarrow> Some (path, None, pathinfo, sc1)
            | Some p \<Rightarrow>
                if length p > limit then pathinfo_loop fs conf limit t (Some (length p)) (Some (length p)) sc1
                else Some (path, None, Some (length p), sc1)))
   }"
  by pat_completeness auto
termination
proof (relation "measure (\<lambda>(fs, conf, limit, t, slash, pathinfo, sc). case pathinfo of None \<Rightarrow> length t + 1 | Some i \<Rightarrow> i)", goal_cases)
  case (2 fs conf limit t slash pathinfo sc path x h y sce sc1 p)
  let ?v = "case pathinfo of None \<Rightarrow> t | Some i \<Rightarrow> take i t"
  have "length p < length (c_str ?v)" using cut_last_slash_length 2 by blast
  also have "\<dots> \<le> length ?v" by (rule c_str_length_le)
  finally show ?case by (auto split: option.splits)
qed simp

declare pathinfo_loop.simps [simp del, code]

text \<open>\<open>uri.path\<close> without the path info: when the path info is longer, the write is outside the buffer.\<close>

definition shorten_path :: "conn \<Rightarrow> string \<Rightarrow> conn option" where
  "shorten_path con info = do {
     p \<leftarrow> uri_path (c_uri con);
     (if length info \<le> length p then
        Some (con\<lparr>c_pathinfo := Some info, c_uri := (c_uri con)\<lparr>uri_path := Some (take (length p - length info) p)\<rparr>\<rparr>)
      else None)
   }"

definition prepare_pathinfo :: "penv \<Rightarrow> conn \<Rightarrow> string \<Rightarrow> stat_cache \<Rightarrow> staged option" where
  "prepare_pathinfo env con t sc = do {
     (path, sce, pathinfo, sc1) \<leftarrow> pathinfo_loop (we_fs env) (stat_conf_of (wenv.truncate env) con) (base_limit (ph_basedir (c_physical con))) t None None sc;
     let con1 = set_path (Some path) con;
     (case sce of
        None \<Rightarrow> Some (refuse 404 con1 sc1)
      | Some e \<Rightarrow>
          if \<not> S_ISREG (st_mode (sce_st e)) then Some (refuse 404 con1 sc1)
          else if link_refused con1 e then Some (refuse 403 con1 sc1)
          else (case pathinfo of
                  None \<Rightarrow> Some (Inr (con1, sc1))
                | Some i \<Rightarrow> do { con2 \<leftarrow> shorten_path con1 (c_str (drop i t)); Some (Inr (con2, sc1)) }))
   }"

definition prepare_file :: "penv \<Rightarrow> conn \<Rightarrow> stat_cache \<Rightarrow> staged option" where
  "prepare_file env con sc = do {
     t \<leftarrow> ph_path (c_physical con);
     (h, sce, sc1) \<leftarrow> stat_cache_get_entry (we_fs env) (stat_conf_of (wenv.truncate env) con) sc (Some t);
     (if h \<noteq> HANDLER_ERROR then do {
        e \<leftarrow> sce;
        (if link_refused con e then Some (refuse 403 con sc1)
         else if S_ISDIR (st_mode (sce_st e)) then
           (if t = [] then None
            else if last t \<noteq> CHR ''/'' then do {
              (_, con1) \<leftarrow> http_response_redirect_to_directory (renv.truncate env) con;
              Some (Inl (HANDLER_FINISHED, con1, sc1))
            }
            else Some (Inr (con, sc1)))
         else Some (Inr (con, sc1)))
      }
      else (case pe_errno env (c_str t) of
              EACCES \<Rightarrow> Some (refuse 403 con sc1)
            | ENOENT \<Rightarrow> Some (refuse 404 con sc1)
            | ENOTDIR \<Rightarrow> prepare_pathinfo env con t sc1
            | E_other \<Rightarrow> Some (refuse 500 con sc1)))
   }"

text \<open>The handlers of the file, and what is left when none of them wants it.\<close>

definition prepare_start :: "hooks \<Rightarrow> conn \<Rightarrow> stat_cache \<Rightarrow> staged" where
  "prepare_start hk con sc = (case hk_subrequest_start hk con sc of (r, con1, sc1) \<Rightarrow>
     if r \<noteq> HANDLER_GO_ON then Inl (r, con1, sc1)
     else if c_mode con1 = DIRECT \<and> http_status_of con1 = 0
     then Inl (HANDLER_FINISHED, set_status (if method_of con1 = HTTP_METHOD_OPTIONS then 200 else 403) con1, sc1)
     else Inr (con1, sc1))"

definition http_response_prepare :: "penv \<Rightarrow> hooks \<Rightarrow> specific_config \<Rightarrow> conn \<Rightarrow> stat_cache \<Rightarrow> (handler_t \<times> conn \<times> stat_cache) option" where
  "http_response_prepare env hk conf0 con sc =
     (if c_mode con = DIRECT \<and> http_status_of con \<notin> {0, 200} then do {
        con1 \<leftarrow> (if c_file_finished con then Some con
          else do { wq \<leftarrow> queue_clear (c_write_queue con); Some (con\<lparr>c_write_queue := wq\<rparr>) });
        Some (HANDLER_FINISHED, con1, sc)
      }
      else do {
        s \<leftarrow> and_then (if c_mode con = DIRECT \<and> ph_path (c_physical con) = None then prepare_path env hk conf0 con sc else Some (Inr (con, sc)))
          (\<lambda>con1 sc1. if c_mode con1 = DIRECT then and_then (prepare_file env con1 sc1) (\<lambda>con2 sc2. Some (prepare_start hk con2 sc2)) else Some (Inr (con1, sc1)));
        Some (case s of
           Inl r \<Rightarrow> r
         | Inr (con1, sc1) \<Rightarrow> (case hk_subrequest hk con1 sc1 of (r, con2, sc2) \<Rightarrow> (if r = HANDLER_GO_ON then HANDLER_FINISHED else r, con2, sc2)))
      })"

section \<open>Searching for the file\<close>

lemma pathinfo_loop_spec:
  assumes "cache_tree_ok sc" "mime_ok (mimetypes conf)" "NUL \<notin> set t"
    and "slash = None \<and> pathinfo = None \<or> (\<exists>i. slash = Some i \<and> pathinfo = Some i \<and> limit < i \<and> i < length t \<and> t ! i = CHR ''/'')"
  shows "\<exists>path sce info sc1. pathinfo_loop fs conf limit t slash pathinfo sc = Some (path, sce, info, sc1) \<and> cache_tree_ok sc1 \<and>
    (sce \<noteq> None \<longrightarrow> path = t \<and> info = None \<or>
      (\<exists>i. info = Some i \<and> path = take i t \<and> limit < i \<and> i < length t \<and> t ! i = CHR ''/''))"
  using assms
proof (induction fs conf limit t slash pathinfo sc rule: pathinfo_loop.induct)
  case (1 fs conf limit t slash pathinfo sc)
  define path where "path = (case slash of None \<Rightarrow> t | Some i \<Rightarrow> take i t)"
  define vis where "vis = (case pathinfo of None \<Rightarrow> t | Some i \<Rightarrow> take i t)"
  have pre: "\<exists>r. t = vis @ r"
  proof (cases pathinfo)
    case (Some i)
    then show ?thesis by (intro exI [of _ "drop i t"]) (simp add: vis_def)
  qed (simp add: vis_def)
  then have vis: "c_str vis = vis" "\<exists>r. t = vis @ r" using 1(4) by (auto simp: c_str_no_NUL)
  obtain h r sc1 where g: "stat_cache_get_entry fs conf sc (Some path) = Some (h, r, sc1)" "cache_tree_ok sc1"
    "h = HANDLER_ERROR \<and> r = None \<or> h = HANDLER_GO_ON \<and> (\<exists>e. r = Some e)" using get_entry_total [OF 1(2,3)] .
  show ?case
  proof (cases "h = HANDLER_ERROR")
    case False
    then have "pathinfo_loop fs conf limit t slash pathinfo sc = Some (path, r, pathinfo, sc1)"
      using g(1) by (subst pathinfo_loop.simps) (simp add: path_def [symmetric])
    then show ?thesis using 1(5) g(2) by (auto simp: path_def)
  next
    case err: True
    show ?thesis
    proof (cases "cut_last_slash vis")
      case None
      then have "pathinfo_loop fs conf limit t slash pathinfo sc = Some (path, None, pathinfo, sc1)"
        using g(1) err vis(1) by (subst pathinfo_loop.simps) (simp add: path_def [symmetric] vis_def [symmetric])
      then show ?thesis using g(2) by simp
    next
      case (Some p)
      then obtain q where q: "vis = p @ CHR ''/'' # q" by (auto simp: cut_last_slash_Some)
      then have p: "length p < length t" "t ! length p = CHR ''/''" using vis(2) by auto
      have eq: "pathinfo_loop fs conf limit t slash pathinfo sc =
        (if length p > limit then pathinfo_loop fs conf limit t (Some (length p)) (Some (length p)) sc1 else Some (path, None, Some (length p), sc1))"
        using g(1) err vis(1) Some by (subst pathinfo_loop.simps) (simp add: path_def [symmetric] vis_def [symmetric])
      have "\<exists>path sce info sc2. pathinfo_loop fs conf limit t (Some (length p)) (Some (length p)) sc1 = Some (path, sce, info, sc2) \<and> cache_tree_ok sc2 \<and>
        (sce \<noteq> None \<longrightarrow> path = t \<and> info = None \<or> (\<exists>i. info = Some i \<and> path = take i t \<and> limit < i \<and> i < length t \<and> t ! i = CHR ''/''))"
        if "length p > limit"
        by (rule 1(1) [OF path_def g(1) refl refl _ _ that g(2) 1(3,4)])
          (use err that Some vis(1) p in \<open>simp_all add: vis_def [symmetric]\<close>)
      then show ?thesis unfolding eq using g(2) by auto
    qed
  qed
qed

lemma base_limit_base: "b \<noteq> [] \<Longrightarrow> length b + 1 < 2 ^ 64 \<Longrightarrow> base_limit (Some b) = length b - 1"
proof -
  assume b: "b \<noteq> []" "length b + 1 < 2 ^ 64"
  then have "length b + 1 + (2 ^ 64 - 2) = (length b - 1) + 2 ^ 64" by (cases b) simp_all
  then have "base_limit (Some b) = ((length b - 1) + 2 ^ 64) mod 2 ^ 64" by (simp only: base_limit_def option.case)
  also have "\<dots> = length b - 1" using b(2) by simp
  finally show ?thesis .
qed

text \<open>What the handlers get: a file whose name with the path info is the name that was asked for.\<close>

definition found_file :: "conn \<Rightarrow> string \<Rightarrow> string \<Rightarrow> conn \<Rightarrow> bool" where
  "found_file con base rel con1 = (\<exists>p info. rel = p @ info \<and>
     (info = [] \<and> con1 = set_path (Some (base @ p)) con \<or>
      info \<noteq> [] \<and> hd info = CHR ''/'' \<and> shorten_path (set_path (Some (base @ p)) con) info = Some con1))"

definition refused :: "handler_t \<times> conn \<times> stat_cache \<Rightarrow> bool" where
  "refused r = (case r of (h, con1, sc1) \<Rightarrow> h = HANDLER_FINISHED \<and> cache_tree_ok sc1 \<and>
     http_status_of con1 \<in> {301, 403, 404, 500} \<and> (http_status_of con1 \<in> {403, 404} \<longrightarrow> ph_path (c_physical con1) = None))"

lemma refuse_refused: "cache_tree_ok sc \<Longrightarrow> status \<in> {403, 404, 500} \<Longrightarrow> refuse status con sc = Inl r \<Longrightarrow> refused r"
  by (auto simp: refuse_def refused_def set_path_def)

lemma refuse_cases: "\<exists>r. refuse status con sc = Inl r"
  by (simp add: refuse_def)

lemma redirect_total:
  assumes "fields_ok (c_response_headers con)" "int (a_used (c_response_headers con)) + 1 \<le> INT_MAX" "re_sockname env \<noteq> Sockname_unsupported"
  obtains n con1 where "http_response_redirect_to_directory env con = Some (n, con1)" "http_status_of con1 \<in> {301, 500}"
proof (cases "redirect_host env con")
  case (Inl r)
  then have "r = (0, set_status 500 con)"
    using assms(3) by (auto simp: redirect_host_def Let_def split: option.splits sock_name.splits)
  with Inl that show thesis by (simp add: http_response_redirect_to_directory_def)
next
  case (Inr host)
  let ?o1 = "bs_append (bs_append_buffer host (uri_path (c_uri con))) ''/''"
  let ?o2 = "case uri_query (c_uri con) of None \<Rightarrow> ?o1 | Some query \<Rightarrow> bs_append_buffer (bs_append ?o1 ''?'') (Some query)"
  have "key_ok ''Location''" by (simp add: key_ok_def regular_str_def regular_char_def)
  from header_insert_total [OF assms(1) this assms(2)] obtain b where "response_header_insert env (c_response_headers con) ''Location'' ?o2 = Some b" .
  with Inr that show thesis by (simp add: http_response_redirect_to_directory_def Let_def)
qed

text \<open>The path is the base directory with a relative path that is shorter than the path of the address.\<close>

definition file_ready :: "penv \<Rightarrow> conn \<Rightarrow> string \<Rightarrow> string \<Rightarrow> bool" where
  "file_ready env con base rel = (ph_path (c_physical con) = Some (base @ rel) \<and> ph_basedir (c_physical con) = Some base \<and>
     base \<noteq> [] \<and> length base + 1 < 2 ^ 64 \<and> NUL \<notin> set base \<and> NUL \<notin> set rel \<and> length rel < length (bs_str (uri_path (c_uri con))) \<and>
     mime_ok (cf_mimetypes (c_conf con)) \<and> fields_ok (c_response_headers con) \<and> int (a_used (c_response_headers con)) + 1 \<le> INT_MAX \<and>
     re_sockname env \<noteq> Sockname_unsupported)"

definition file_outcome :: "conn \<Rightarrow> string \<Rightarrow> string \<Rightarrow> staged \<Rightarrow> bool" where
  "file_outcome con base rel s = (case s of Inl r \<Rightarrow> refused r | Inr (con1, sc1) \<Rightarrow> found_file con base rel con1 \<and> cache_tree_ok sc1)"

lemma outcome_refuse: "cache_tree_ok sc \<Longrightarrow> status \<in> {403, 404, 500} \<Longrightarrow> file_outcome con base rel (refuse status con1 sc)"
  using refuse_refused [of sc status con1] refuse_cases [of status con1 sc] by (auto simp: file_outcome_def)

lemma set_path_same: "ph_path (c_physical con) = p \<Longrightarrow> set_path p con = con"
  by (simp add: set_path_def)

lemma prepare_pathinfo_ok:
  assumes "file_ready env con base rel" "cache_tree_ok sc"
  shows "\<exists>s. prepare_pathinfo env con (base @ rel) sc = Some s \<and> file_outcome con base rel s"
proof -
  note a = assms(1) [unfolded file_ready_def]
  let ?t = "base @ rel" and ?conf = "stat_conf_of (wenv.truncate env) con"
  have lim: "base_limit (ph_basedir (c_physical con)) = length base - 1" using a base_limit_base [of base] by simp
  have "mime_ok (mimetypes ?conf)" "NUL \<notin> set ?t" using a by (simp_all add: stat_conf_of_def)
  from pathinfo_loop_spec [OF assms(2) this, of None None "length base - 1" "we_fs env"] obtain path sce info sc1
    where p: "pathinfo_loop (we_fs env) ?conf (length base - 1) ?t None None sc = Some (path, sce, info, sc1)" "cache_tree_ok sc1"
      "sce \<noteq> None \<longrightarrow> path = ?t \<and> info = None \<or>
        (\<exists>i. info = Some i \<and> path = take i ?t \<and> length base - 1 < i \<and> i < length ?t \<and> ?t ! i = CHR ''/'')" by blast
  let ?con = "set_path (Some path) con"
  show ?thesis
  proof (cases "\<exists>e. sce = Some e \<and> S_ISREG (st_mode (sce_st e)) \<and> \<not> link_refused ?con e")
    case False
    then have "\<exists>status \<in> {403, 404}. prepare_pathinfo env con ?t sc = Some (refuse status ?con sc1)"
      using p(1) lim by (auto simp: prepare_pathinfo_def Let_def split: option.splits)
    then show ?thesis using outcome_refuse [OF p(2)] by auto
  next
    case True
    then obtain e where e: "sce = Some e" "S_ISREG (st_mode (sce_st e))" "\<not> link_refused ?con e" by blast
    have run: "prepare_pathinfo env con ?t sc = (case info of None \<Rightarrow> Some (Inr (?con, sc1))
        | Some i \<Rightarrow> do { con2 \<leftarrow> shorten_path ?con (c_str (drop i ?t)); Some (Inr (con2, sc1)) })"
      using p(1) lim e by (simp add: prepare_pathinfo_def Let_def)
    show ?thesis
    proof (cases info)
      case None
      then have "path = ?t" using p(3) e(1) by auto
      then have "found_file con base rel ?con" unfolding found_file_def by (intro exI [of _ rel] exI [of _ "[]"]) simp
      then show ?thesis using run None p(2) by (simp add: file_outcome_def)
    next
      case (Some i)
      then have i: "path = take i ?t" "length base \<le> i" "i < length ?t" "?t ! i = CHR ''/''" using p(3) e(1) a by auto
      define n where "n = i - length base"
      have n: "path = base @ take n rel" "drop i ?t = drop n rel" "n < length rel" "hd (drop n rel) = CHR ''/''" "drop n rel \<noteq> []"
        using i by (simp_all add: n_def hd_drop_conv_nth nth_append)
      have "NUL \<notin> set (drop n rel)" using a by (auto dest: in_set_dropD)
      then have info: "c_str (drop i ?t) = drop n rel" using n(2) by (simp add: c_str_no_NUL)
      obtain u where u: "uri_path (c_uri con) = Some u" using a by (cases "uri_path (c_uri con)") auto
      have "\<exists>con2. shorten_path ?con (drop n rel) = Some con2" using a u by (auto simp: shorten_path_def set_path_def)
      then obtain con2 where c2: "shorten_path ?con (drop n rel) = Some con2" by blast
      then have "found_file con base rel con2" unfolding found_file_def n(1) using n(4,5) by (intro exI [of _ "take n rel"] exI [of _ "drop n rel"]) simp
      then show ?thesis using run Some info c2 p(2) by (simp add: file_outcome_def)
    qed
  qed
qed

lemma prepare_file_ok:
  assumes "file_ready env con base rel" "cache_tree_ok sc"
  shows "\<exists>s. prepare_file env con sc = Some s \<and> file_outcome con base rel s"
proof -
  note a = assms(1) [unfolded file_ready_def]
  let ?conf = "stat_conf_of (wenv.truncate env) con"
  have "mime_ok (mimetypes ?conf)" using a by (simp add: stat_conf_of_def)
  from get_entry_total [OF assms(2) this] obtain h r sc1
    where g: "stat_cache_get_entry (we_fs env) ?conf sc (Some (base @ rel)) = Some (h, r, sc1)" "cache_tree_ok sc1"
      "h = HANDLER_ERROR \<and> r = None \<or> h = HANDLER_GO_ON \<and> (\<exists>e. r = Some e)" .
  have "found_file con base rel con"
    using a set_path_same [of con "Some (base @ rel)"] unfolding found_file_def by - (rule exI [of _ rel], rule exI [of _ "[]"], simp)
  then have go: "file_outcome con base rel (Inr (con, sc1))" using g(2) by (simp add: file_outcome_def)
  show ?thesis
  proof (cases "h = HANDLER_ERROR")
    case True
    then have "prepare_file env con sc = (case pe_errno env (c_str (base @ rel)) of
              EACCES \<Rightarrow> Some (refuse 403 con sc1)
            | ENOENT \<Rightarrow> Some (refuse 404 con sc1)
            | ENOTDIR \<Rightarrow> prepare_pathinfo env con (base @ rel) sc1
            | E_other \<Rightarrow> Some (refuse 500 con sc1))" using g(1) a by (simp add: prepare_file_def)
    then show ?thesis using prepare_pathinfo_ok [OF assms(1) g(2)] outcome_refuse [OF g(2)]
      by (cases "pe_errno env (c_str (base @ rel))") auto
  next
    case False
    then obtain e where e: "r = Some e" using g(3) by auto
    obtain n con1 where red: "http_response_redirect_to_directory (renv.truncate env) con = Some (n, con1)" "http_status_of con1 \<in> {301, 500}"
      using redirect_total [of con "renv.truncate env"] a by (auto simp: renv.truncate_def)
    have "file_outcome con base rel (Inl (HANDLER_FINISHED, con1, sc1))" using red(2) g(2) by (auto simp: file_outcome_def refused_def)
    then show ?thesis using False e g(1) a red(1) go outcome_refuse [OF g(2), of 403]
      by (cases "link_refused con e"; cases "S_ISDIR (st_mode (sce_st e))"; cases "last (base @ rel) \<noteq> CHR ''/''") (simp_all add: prepare_file_def)
  qed
qed

section \<open>The path without plugins\<close>

definition go_on :: hook where
  "go_on con sc = (HANDLER_GO_ON, con, sc)"

definition no_plugins :: "hooks \<Rightarrow> bool" where
  "no_plugins hk = ((\<forall>k con. hk_patch hk k con = con) \<and> hk_uri_raw hk = go_on \<and>
     hk_uri_clean hk = go_on \<and> hk_docroot hk = go_on \<and> hk_physical hk = go_on)"

lemma call_no_plugins: "call_plugins go_on con sc = Inr (con, sc)"
  by (simp add: call_plugins_def go_on_def)

text \<open>The address without fragment and query.\<close>

definition raw_path :: "string \<Rightarrow> string" where
  "raw_path u = takeWhile (\<lambda>c. c \<noteq> CHR ''#'' \<and> c \<noteq> CHR ''?'') u"

lemma cut_at_first: "NUL \<notin> set u \<Longrightarrow> (case cut_at c u of None \<Rightarrow> u | Some (p, _) \<Rightarrow> p) = takeWhile (\<lambda>x. x \<noteq> c) u"
proof -
  assume "NUL \<notin> set u"
  then have u: "c_str u = u" by (rule c_str_no_NUL)
  show ?thesis
  proof (cases "length (takeWhile (\<lambda>x. x \<noteq> c) u) < length u")
    case False
    then have eq: "takeWhile (\<lambda>x. x \<noteq> c) u = u"
      using length_takeWhile_le [of "\<lambda>x. x \<noteq> c" u] takeWhile_eq_take [of "\<lambda>x. x \<noteq> c" u] by simp
    show ?thesis unfolding cut_at_def u Let_def eq by simp
  qed (use u in \<open>simp add: cut_at_def Let_def\<close>)
qed

lemma cut_at_raw: "NUL \<notin> set u \<Longrightarrow> fst (case cut_at c u of None \<Rightarrow> (u, None) | Some (p, q) \<Rightarrow> (p, Some q)) = takeWhile (\<lambda>x. x \<noteq> c) u"
  using cut_at_first [of u c] by (cases "cut_at c u") auto

lemma raw_path_takeWhile: "takeWhile (\<lambda>x. x \<noteq> CHR ''?'') (takeWhile (\<lambda>x. x \<noteq> CHR ''#'') u) = raw_path u"
  by (induction u) (auto simp: raw_path_def)

text \<open>The request \<open>OPTIONS *\<close> asks about the server and not about a file.\<close>

definition options_star :: "conn \<Rightarrow> string \<Rightarrow> bool" where
  "options_star con u = (method_of con = HTTP_METHOD_OPTIONS \<and> raw_path u = ''*'')"

lemma raw_path_NUL: "NUL \<notin> set u \<Longrightarrow> NUL \<notin> set (raw_path u)"
  by (auto simp: raw_path_def dest: set_takeWhileD)

lemma prepare_uri_path:
  assumes "rq_uri (co_request (c_core con)) = Some u" "NUL \<notin> set u" "\<not> options_star con u"
  obtains con1 where "prepare_uri con = Some con1" "uri_path (c_uri con1) = Some (clean_path (raw_path u))"
    "method_of con1 = method_of con" "c_mode con1 = c_mode con" "c_conf con1 = c_conf con" "c_response_headers con1 = c_response_headers con"
proof -
  let ?u = "case cut_at CHR ''#'' u of None \<Rightarrow> u | Some (p, _) \<Rightarrow> p"
  have u: "?u = takeWhile (\<lambda>x. x \<noteq> CHR ''#'') u" by (rule cut_at_first [OF assms(2)])
  then have "NUL \<notin> set ?u" using assms(2) by (auto dest: set_takeWhileD)
  from cut_at_raw [OF this, of "CHR ''?''"] u have raw: "fst (case cut_at CHR ''?'' ?u of None \<Rightarrow> (?u, None) | Some (p, q) \<Rightarrow> (p, Some q)) = raw_path u"
    by (simp add: raw_path_takeWhile)
  obtain q where q: "(case cut_at CHR ''?'' ?u of None \<Rightarrow> (?u, None) | Some (p, q) \<Rightarrow> (p, Some q)) = (raw_path u, q)"
    using raw by (metis prod.collapse)
  define con1 where "con1 = con\<lparr>c_core := (c_core con)\<lparr>co_request := (co_request (c_core con))\<lparr>rq_uri := Some ?u\<rparr>\<rparr>,
          c_uri := (c_uri con)\<lparr>uri_query := q, uri_path_raw := Some (raw_path u)\<rparr>\<rparr>"
  define con2 where "con2 = (if co_request_count (c_core con1) > cf_max_keep_alive_requests (c_conf con1) then no_keep_alive con1 else con1)"
  define con3 where "con3 = con2\<lparr>c_uri := (c_uri con2)\<lparr>uri_path := Some (clean_path (raw_path u))\<rparr>\<rparr>"
  have m: "method_of con2 = method_of con" "c_mode con2 = c_mode con" "c_conf con2 = c_conf con" "c_response_headers con2 = c_response_headers con"
    by (simp_all add: con2_def con1_def)
  have "\<not> (method_of con2 = HTTP_METHOD_OPTIONS \<and> is_star (raw_path u))"
    using assms(3) m(1) raw_path_NUL [OF assms(2)] by (auto simp: options_star_def is_star_def c_str_no_NUL)
  then have "prepare_uri con = Some con3"
    unfolding prepare_uri_def assms(1) bind.bind_lunit Let_def q prod.case con1_def [symmetric] con2_def [symmetric]
    by (simp only: if_False con3_def)
  then show thesis using that [of con3] m by (simp add: con3_def)
qed

lemma prepare_uri_star:
  assumes "rq_uri (co_request (c_core con)) = Some u" "NUL \<notin> set u" "options_star con u"
  obtains con1 where "prepare_uri con = Some con1" "uri_path (c_uri con1) = Some ''*''" "uri_path_raw (c_uri con1) = Some ''*''"
    "method_of con1 = HTTP_METHOD_OPTIONS" "c_physical con1 = c_physical con" "c_response_headers con1 = c_response_headers con"
proof -
  let ?u = "case cut_at CHR ''#'' u of None \<Rightarrow> u | Some (p, _) \<Rightarrow> p"
  have star: "raw_path u = ''*''" "method_of con = HTTP_METHOD_OPTIONS" using assms(3) by (simp_all add: options_star_def)
  have u: "?u = takeWhile (\<lambda>x. x \<noteq> CHR ''#'') u" by (rule cut_at_first [OF assms(2)])
  then have "NUL \<notin> set ?u" using assms(2) by (auto dest: set_takeWhileD)
  from cut_at_raw [OF this, of "CHR ''?''"] u have raw: "fst (case cut_at CHR ''?'' ?u of None \<Rightarrow> (?u, None) | Some (p, q) \<Rightarrow> (p, Some q)) = ''*''"
    by (simp add: raw_path_takeWhile star(1))
  obtain q where q: "(case cut_at CHR ''?'' ?u of None \<Rightarrow> (?u, None) | Some (p, q) \<Rightarrow> (p, Some q)) = (''*'', q)"
    using raw by (metis prod.collapse)
  define con1 where "con1 = con\<lparr>c_core := (c_core con)\<lparr>co_request := (co_request (c_core con))\<lparr>rq_uri := Some ?u\<rparr>\<rparr>,
          c_uri := (c_uri con)\<lparr>uri_query := q, uri_path_raw := Some ''*''\<rparr>\<rparr>"
  define con2 where "con2 = (if co_request_count (c_core con1) > cf_max_keep_alive_requests (c_conf con1) then no_keep_alive con1 else con1)"
  define con3 where "con3 = con2\<lparr>c_uri := (c_uri con2)\<lparr>uri_path := Some ''*''\<rparr>\<rparr>"
  have m: "method_of con2 = HTTP_METHOD_OPTIONS" "c_physical con2 = c_physical con" "uri_path_raw (c_uri con2) = Some ''*''"
    "c_response_headers con2 = c_response_headers con" by (simp_all add: con2_def con1_def star(2))
  have "is_star ''*''" by (simp add: is_star_def c_str_def)
  then have "prepare_uri con = Some con3"
    unfolding prepare_uri_def assms(1) bind.bind_lunit Let_def q prod.case con1_def [symmetric] con2_def [symmetric] using m(1) by (simp add: con3_def)
  then show thesis using that [of con3] m by (simp add: con3_def)
qed

text \<open>File names are lower case when the configuration says so.\<close>

definition file_case :: "specific_config \<Rightarrow> string \<Rightarrow> string" where
  "file_case conf s = (if cf_force_lowercase_filenames conf then map lower_char s else s)"

lemma lower_char_iff [simp]: "lower_char c = CHR ''.'' \<longleftrightarrow> c = CHR ''.''" "lower_char c = CHR ''/'' \<longleftrightarrow> c = CHR ''/''"
proof -
  have "lower_char c = d \<longleftrightarrow> c = d" if "uchar d < 65" for d
  proof -
    have "uchar (lower_char c) = uchar d \<longleftrightarrow> uchar c = uchar d" using that by (auto simp: uchar_lower_char is_upper_iff)
    then show ?thesis by (simp only: uchar_inject)
  qed
  from this [of "CHR ''.''"] this [of "CHR ''/''"]
  show "lower_char c = CHR ''.'' \<longleftrightarrow> c = CHR ''.''" "lower_char c = CHR ''/'' \<longleftrightarrow> c = CHR ''/''"
    by simp_all
qed

lemma map_lower_NUL [simp]: "NUL \<notin> set (map lower_char s) \<longleftrightarrow> NUL \<notin> set s"
proof -
  have "NUL \<in> set (map lower_char s) \<longleftrightarrow> (\<exists>c \<in> set s. lower_char c = NUL)" by (auto simp: image_iff eq_commute [of NUL])
  then show ?thesis by (simp del: set_map)
qed

lemma file_case_simps [simp]:
  "length (file_case conf s) = length s" "NUL \<notin> set (file_case conf s) \<longleftrightarrow> NUL \<notin> set s" "file_case conf [] = []"
  using map_lower_NUL [of s] by (simp_all add: file_case_def del: set_map map_lower_NUL)

lemma file_case_append: "file_case conf (s @ t) = file_case conf s @ file_case conf t"
  by (simp add: file_case_def)

lemma split_slash_lower: "split_slash (map lower_char s) = map (map lower_char) (split_slash s)"
proof (induction s)
  case (Cons c s)
  then show ?case by (cases "split_slash s") (auto split: list.splits)
qed simp

lemma file_case_comps:
  "list_all (\<lambda>w. w \<noteq> ''..'' \<and> w \<noteq> ''.'') (split_slash (file_case conf s)) \<longleftrightarrow> list_all (\<lambda>w. w \<noteq> ''..'' \<and> w \<noteq> ''.'') (split_slash s)"
proof -
  have "map lower_char w = ''..'' \<longleftrightarrow> w = ''..''" "map lower_char w = ''.'' \<longleftrightarrow> w = ''.''" for w
    by (auto simp: map_eq_Cons_conv)
  then show ?thesis by (simp add: file_case_def split_slash_lower list_all_iff)
qed

lemma prepare_path_plain:
  assumes "no_plugins hk" "rq_uri (co_request (c_core con)) = Some u" "NUL \<notin> set u" "\<not> options_star con u"
    and "cf_document_root conf0 = Some root" "root \<noteq> []" "NUL \<notin> set rel"
    and "\<forall>ref. rq_http_host (co_request (c_core con)) = Some ref \<longrightarrow> vref_value (rq_headers (co_request (c_core con))) ref \<noteq> None"
    and "clean_path (raw_path u) = CHR ''/'' # rel"
  obtains con1 where "prepare_path env hk conf0 con sc = Some (Inr (con1, sc))" "c_mode con1 = c_mode con"
    "ph_path (c_physical con1) = Some (bs_str (bs_slash (Some root)) @ file_case conf0 rel)" "ph_basedir (c_physical con1) = bs_slash (Some root)"
    "uri_path (c_uri con1) = Some (CHR ''/'' # rel)" "c_response_headers con1 = c_response_headers con" "cf_mimetypes (c_conf con1) = cf_mimetypes conf0"
proof -
  let ?con0 = "config_setup_connection conf0 con"
  have cf: "cf_document_root (c_conf ?con0) = Some root" "cf_force_lowercase_filenames (c_conf ?con0) = cf_force_lowercase_filenames conf0"
    "cf_mimetypes (c_conf ?con0) = cf_mimetypes conf0"
    using assms(5) by (simp_all add: config_setup_connection_def)
  obtain host where host: "(case rq_http_host (co_request (c_core ?con0)) of None \<Rightarrow> Some (uri_authority (c_uri ?con0))
      | Some ref \<Rightarrow> vref_value (rq_headers (co_request (c_core ?con0))) ref) = Some host" using assms(8) by (cases "rq_http_host (co_request (c_core con))") auto
  define con1 where "con1 = ?con0\<lparr>c_uri := (c_uri ?con0)\<lparr>uri_scheme := Some (if cf_is_ssl (c_conf ?con0) then ''https'' else ''http''),
          uri_authority := bs_lower host\<rparr>\<rparr>"
  have id: "hk_patch hk k c = c" for k c using assms(1) by (simp add: no_plugins_def)
  have a: "prepare_authority hk conf0 con = Some con1" using host by (simp add: prepare_authority_def con1_def id Let_def)
  have "rq_uri (co_request (c_core con1)) = Some u" "\<not> options_star con1 u" using assms(2,4) by (simp_all add: con1_def options_star_def)
  from prepare_uri_path [OF this(1) assms(3) this(2)] obtain con2 where c2: "prepare_uri con1 = Some con2"
    "uri_path (c_uri con2) = Some (clean_path (raw_path u))" "method_of con2 = method_of con1" "c_mode con2 = c_mode con1" "c_conf con2 = c_conf con1"
    "c_response_headers con2 = c_response_headers con1" .
  define con3 where "con3 = (if cf_allow_http11 (c_conf con2) then con2
    else con2\<lparr>c_core := (c_core con2)\<lparr>co_request := (co_request (c_core con2))\<lparr>rq_http_version := HTTP_VERSION_1_0\<rparr>\<rparr>\<rparr>)"
  have c3: "uri_path (c_uri con3) = Some (CHR ''/'' # rel)" "c_mode con3 = c_mode con"
    "c_conf con3 = c_conf ?con0" "c_response_headers con3 = c_response_headers con"
    using c2 assms(4,9) by (simp_all add: con3_def con1_def)
  define con4 where "con4 = set_physical (set_docroot con3)"
  have "prepare_path env hk conf0 con sc = Some (Inr (con4, sc))"
    using assms(1) a c2(1) c3(1)
    by (simp add: prepare_path_def no_plugins_def call_no_plugins and_then_def prepare_options_def con4_def con3_def [symmetric] Let_def)
  moreover have "bs_slash (Some root) \<noteq> None" by (simp add: bs_slash_def)
  then have "c_mode con4 = c_mode con" "ph_path (c_physical con4) = Some (bs_str (bs_slash (Some root)) @ file_case conf0 rel)" "ph_basedir (c_physical con4) = bs_slash (Some root)"
    "uri_path (c_uri con4) = Some (CHR ''/'' # rel)" "c_response_headers con4 = c_response_headers con" "cf_mimetypes (c_conf con4) = cf_mimetypes conf0"
    using c3 cf assms(7) by (auto simp: con4_def set_physical_def set_docroot_def Let_def bs_append_def bs_lower_def c_str_no_NUL file_case_def)
  ultimately show thesis by (rule that)
qed

section \<open>Properties\<close>

text \<open>What is left when the file has been found: the handlers of the plugins.\<close>

definition run_handlers :: "hooks \<Rightarrow> conn \<Rightarrow> stat_cache \<Rightarrow> handler_t \<times> conn \<times> stat_cache" where
  "run_handlers hk con sc = (case prepare_start hk con sc of
     Inl r \<Rightarrow> r
   | Inr (con1, sc1) \<Rightarrow> (case hk_subrequest hk con1 sc1 of (r, con2, sc2) \<Rightarrow> (if r = HANDLER_GO_ON then HANDLER_FINISHED else r, con2, sc2)))"

lemma split_slash_join: "split_slash (p @ CHR ''/'' # x) = split_slash p @ split_slash x"
proof (induction p)
  case (Cons c p)
  then show ?case by (cases "split_slash p") (auto split: list.splits)
qed simp

lemma url_decode_no_NUL: "NUL \<notin> set s \<Longrightarrow> NUL \<notin> set (url_decode q s)"
proof (induction "length s" arbitrary: s rule: less_induct)
  case less
  show ?case
  proof (cases s)
    case (Cons c u)
    have "NUL \<notin> set (drop 2 u)" using less(2) Cons by (auto dest: in_set_dropD)
    then have u: "NUL \<notin> set (url_decode q u)" "NUL \<notin> set (url_decode q (drop 2 u))"
      using less Cons by auto
    have "decoded_char a b \<noteq> NUL" if "hexv a \<noteq> 255" "hexv b \<noteq> 255" for a b
      using decoded_char_not_ctl [OF that] by (auto simp: ctl_char_def)
    then have d: "NUL \<noteq> decoded_char a b" if "hexv a \<noteq> 255" "hexv b \<noteq> 255" for a b using that by metis
    show ?thesis
    proof (cases "c = CHR ''%''")
      case True
      then show ?thesis using u d Cons by (simp add: url_decode_percent del: url_decode.simps(2))
    next
      case False
      then show ?thesis using u less(2) Cons by (cases q) simp_all
    qed
  qed simp
qed

lemma found_file_paths:
  assumes "found_file con base (file_case conf rel) con1" "uri_path (c_uri con) = Some (CHR ''/'' # rel)"
    and "list_all (\<lambda>w. w \<noteq> ''..'' \<and> w \<noteq> ''.'') (split_slash rel)"
  shows "\<exists>p info. rel = p @ info \<and> ph_path (c_physical con1) = Some (base @ file_case conf p) \<and> uri_path (c_uri con1) = Some (CHR ''/'' # p) \<and>
    (info \<noteq> [] \<longrightarrow> hd info = CHR ''/'' \<and> c_pathinfo con1 = Some (file_case conf info)) \<and>
    list_all (\<lambda>w. w \<noteq> ''..'' \<and> w \<noteq> ''.'') (split_slash (file_case conf p))"
proof -
  obtain p0 info0 where p0: "file_case conf rel = p0 @ info0" "info0 = [] \<and> con1 = set_path (Some (base @ p0)) con \<or>
      info0 \<noteq> [] \<and> hd info0 = CHR ''/'' \<and> shorten_path (set_path (Some (base @ p0)) con) info0 = Some con1"
    using assms(1) by (auto simp: found_file_def)
  define p info where "p = take (length p0) rel" and "info = drop (length p0) rel"
  have rel: "rel = p @ info" by (simp add: p_def info_def)
  then have eq: "file_case conf p @ file_case conf info = p0 @ info0" using p0(1) by (simp add: file_case_append)
  have "length p0 \<le> length rel" using arg_cong [OF p0(1), of length] by simp
  then have p: "p0 = file_case conf p" "info0 = file_case conf info" using eq by (simp_all add: p_def append_eq_append_conv)
  have len: "length info0 = length info" "info0 = [] \<longleftrightarrow> info = []" using p(2) by (auto simp: file_case_def)
  have hd: "hd info = CHR ''/''" if "info \<noteq> []" using p0(2) that p(2) len by (cases info) (auto simp: file_case_def split: if_splits)
  have "list_all (\<lambda>w. w \<noteq> ''..'' \<and> w \<noteq> ''.'') (split_slash p)"
    using assms(3) rel hd split_slash_join [of p "tl info"] by (cases info) auto
  then have "list_all (\<lambda>w. w \<noteq> ''..'' \<and> w \<noteq> ''.'') (split_slash (file_case conf p))" by (simp only: file_case_comps)
  moreover have "ph_path (c_physical con1) = Some (base @ file_case conf p)" using p0(2) p by (auto simp: set_path_def shorten_path_def split: if_splits)
  moreover have "uri_path (c_uri con1) = Some (CHR ''/'' # p)" using p0(2) assms(2) len rel by (auto simp: set_path_def shorten_path_def)
  moreover have "info \<noteq> [] \<longrightarrow> hd info = CHR ''/'' \<and> c_pathinfo con1 = Some (file_case conf info)"
    using p0(2) p hd len by (auto simp: set_path_def shorten_path_def split: if_splits)
  ultimately show ?thesis using rel by blast
qed

text \<open>The answer to \<open>OPTIONS *\<close>.\<close>

definition options_answer :: "handler_t \<times> conn \<times> stat_cache \<Rightarrow> bool" where
  "options_answer r = (case r of (h, con1, sc1) \<Rightarrow> h = HANDLER_FINISHED \<and> http_status_of con1 = 200 \<and> c_file_finished con1 \<and>
     ph_path (c_physical con1) = None)"

lemma prepare_path_star:
  assumes "no_plugins hk" "rq_uri (co_request (c_core con)) = Some u" "NUL \<notin> set u" "options_star con u"
    and "\<forall>ref. rq_http_host (co_request (c_core con)) = Some ref \<longrightarrow> vref_value (rq_headers (co_request (c_core con))) ref \<noteq> None"
    and "fields_ok (c_response_headers con)" "int (a_used (c_response_headers con)) + 1 \<le> INT_MAX" "ph_path (c_physical con) = None"
  obtains r where "prepare_path env hk conf0 con sc = Some (Inl r)" "options_answer r"
proof -
  let ?con0 = "config_setup_connection conf0 con"
  obtain host where host: "(case rq_http_host (co_request (c_core ?con0)) of None \<Rightarrow> Some (uri_authority (c_uri ?con0))
      | Some ref \<Rightarrow> vref_value (rq_headers (co_request (c_core ?con0))) ref) = Some host" using assms(5) by (cases "rq_http_host (co_request (c_core con))") auto
  define con1 where "con1 = ?con0\<lparr>c_uri := (c_uri ?con0)\<lparr>uri_scheme := Some (if cf_is_ssl (c_conf ?con0) then ''https'' else ''http''),
          uri_authority := bs_lower host\<rparr>\<rparr>"
  have id: "hk_patch hk k c = c" for k c using assms(1) by (simp add: no_plugins_def)
  have a: "prepare_authority hk conf0 con = Some con1" using host by (simp add: prepare_authority_def con1_def id Let_def)
  have "rq_uri (co_request (c_core con1)) = Some u" "options_star con1 u" using assms(2,4) by (simp_all add: con1_def options_star_def)
  from prepare_uri_star [OF this(1) assms(3) this(2)] obtain con2 where c2: "prepare_uri con1 = Some con2"
    "uri_path (c_uri con2) = Some ''*''" "uri_path_raw (c_uri con2) = Some ''*''" "method_of con2 = HTTP_METHOD_OPTIONS" "c_physical con2 = c_physical con1"
    "c_response_headers con2 = c_response_headers con1" .
  define con3 where "con3 = (if cf_allow_http11 (c_conf con2) then con2
    else con2\<lparr>c_core := (c_core con2)\<lparr>co_request := (co_request (c_core con2))\<lparr>rq_http_version := HTTP_VERSION_1_0\<rparr>\<rparr>\<rparr>)"
  have c3: "uri_path (c_uri con3) = Some ''*''" "uri_path_raw (c_uri con3) = Some ''*''" "method_of con3 = HTTP_METHOD_OPTIONS"
    "ph_path (c_physical con3) = None" "c_response_headers con3 = c_response_headers con"
    using c2 assms(8) by (simp_all add: con3_def con1_def config_setup_connection_def)
  have "key_ok ''Allow''" by (simp add: key_ok_def regular_str_def regular_char_def)
  from header_insert_total [OF assms(6) this assms(7)] obtain b
    where b: "response_header_insert (renv.truncate env) (c_response_headers con) ''Allow'' (Some ''OPTIONS, GET, HEAD, POST'') = Some b" .
  have "prepare_options env con3 sc = Some (Inl (HANDLER_FINISHED, set_status 200 (con3\<lparr>c_response_headers := b, c_file_finished := True\<rparr>), sc))"
    using c3 b by (simp add: prepare_options_def mem_get_def)
  then have "prepare_path env hk conf0 con sc = Some (Inl (HANDLER_FINISHED, set_status 200 (con3\<lparr>c_response_headers := b, c_file_finished := True\<rparr>), sc))"
    using assms(1) a c2(1) by (simp add: prepare_path_def no_plugins_def call_no_plugins and_then_def con3_def [symmetric] Let_def)
  then show thesis using that c3(4) by (auto simp: options_answer_def)
qed

text \<open>C3. A request reaches no file outside the document root. For a new request in the mode \<open>DIRECT\<close>, with plugins that leave
  the address and the file name alone, \<open>http_response_prepare\<close> returns for every address without NUL whose decoded path
  does not consist of spaces only, and either it refuses (301, 403, 404 or 500), or answers \<open>OPTIONS *\<close> with 200 and no file,
  or the handlers get a file whose name is the document root followed by a path \<open>p\<close> with no component \<open>.\<close> or \<open>..\<close> (in lower
  case when the configuration forces that); \<open>p\<close> with the path info is the decoded and simplified path of the address, and the
  path info is cut off at a slash, from \<open>uri.path\<close> and from the file name alike. The document root is a non-empty string below 2 ^ 64 octets,
  the tables of the configuration, of the stat cache and of the response fields are well formed, a \<open>Host\<close> that is referred to is stored, and the
  local socket has an address family that the build knows.\<close>

theorem document_root_confined:
  assumes "no_plugins hk" "c_mode con = DIRECT" "http_status_of con = 0" "ph_path (c_physical con) = None"
    and "rq_uri (co_request (c_core con)) = Some u" "NUL \<notin> set u" "\<not> blank_path (url_decode False (raw_path u))"
    and "\<forall>ref. rq_http_host (co_request (c_core con)) = Some ref \<longrightarrow> vref_value (rq_headers (co_request (c_core con))) ref \<noteq> None"
    and "cf_document_root conf0 = Some root" "root \<noteq> []" "NUL \<notin> set root" "length root + 2 < 2 ^ 64"
    and "mime_ok (cf_mimetypes conf0)" "cache_tree_ok sc" "re_sockname env \<noteq> Sockname_unsupported"
    and "fields_ok (c_response_headers con)" "int (a_used (c_response_headers con)) + 1 \<le> INT_MAX"
  shows "\<exists>r. http_response_prepare env hk conf0 con sc = Some r \<and>
    (refused r \<or> options_star con u \<and> options_answer r \<or> (\<exists>con1 sc1 p info. r = run_handlers hk con1 sc1 \<and>
       path_simplify (url_decode False (raw_path u)) = CHR ''/'' # p @ info \<and>
       ph_path (c_physical con1) = Some (bs_str (bs_slash (Some root)) @ file_case conf0 p) \<and> uri_path (c_uri con1) = Some (CHR ''/'' # p) \<and>
       (info \<noteq> [] \<longrightarrow> hd info = CHR ''/'' \<and> c_pathinfo con1 = Some (file_case conf0 info)) \<and>
       list_all (\<lambda>w. w \<noteq> ''..'' \<and> w \<noteq> ''.'') (split_slash (file_case conf0 p))))"
proof (cases "options_star con u")
  case True
  from prepare_path_star [OF assms(1,5,6) True assms(8,16,17,4)] obtain r where
    "prepare_path env hk conf0 con sc = Some (Inl r)" "options_answer r" .
  then have "http_response_prepare env hk conf0 con sc = Some r" using assms(2-4) by (simp add: http_response_prepare_def and_then_def)
  then show ?thesis using True \<open>options_answer r\<close> by blast
next
  case False
  have raw: "NUL \<notin> set (raw_path u)" by (rule raw_path_NUL [OF assms(6)])
  then have clean: "clean_path (raw_path u) = path_simplify (url_decode False (raw_path u))" using assms(7) by (simp add: clean_path_def c_str_no_NUL)
  obtain rel where rel: "path_simplify (url_decode False (raw_path u)) = CHR ''/'' # rel" using path_simplify_hd by blast
  have comps: "list_all (\<lambda>w. w \<noteq> ''..'' \<and> w \<noteq> ''.'') (split_slash rel)"
    using path_simplify_comps [of _ "url_decode False (raw_path u)"] by (auto simp: list_all_iff rel)
  have nul: "NUL \<notin> set rel" using path_simplify_set [of "url_decode False (raw_path u)"] url_decode_no_NUL [OF raw] rel by auto
  obtain con1 where c1: "prepare_path env hk conf0 con sc = Some (Inr (con1, sc))" "c_mode con1 = c_mode con"
    "ph_path (c_physical con1) = Some (bs_str (bs_slash (Some root)) @ file_case conf0 rel)" "ph_basedir (c_physical con1) = bs_slash (Some root)"
    "uri_path (c_uri con1) = Some (CHR ''/'' # rel)" "c_response_headers con1 = c_response_headers con" "cf_mimetypes (c_conf con1) = cf_mimetypes conf0"
    using prepare_path_plain [OF assms(1,5,6) False assms(9,10) nul assms(8)] clean rel by metis
  define base where "base = bs_str (bs_slash (Some root))"
  have base: "bs_slash (Some root) = Some base" "base \<noteq> []" "length base + 1 < 2 ^ 64" "NUL \<notin> set base"
    using assms(10-12) by (auto simp: base_def bs_slash_def)
  have "file_ready env con1 base (file_case conf0 rel)"
    unfolding file_ready_def using c1(3-7) base nul assms(13,15-17) by simp
  from prepare_file_ok [OF this assms(14)] obtain s where s: "prepare_file env con1 sc = Some s" "file_outcome con1 base (file_case conf0 rel) s" by blast
  show ?thesis
  proof (cases s)
    case (Inl r)
    then have "http_response_prepare env hk conf0 con sc = Some r" "refused r"
      using s c1(1,2) assms(2-4) by (simp_all add: http_response_prepare_def and_then_def file_outcome_def)
    then show ?thesis by blast
  next
    case (Inr cs)
    then obtain con2 sc2 where cs: "s = Inr (con2, sc2)" by (cases cs) simp
    then have found: "found_file con1 base (file_case conf0 rel) con2" using s(2) by (simp add: file_outcome_def)
    have "http_response_prepare env hk conf0 con sc = Some (run_handlers hk con2 sc2)"
      using s(1) cs c1(1,2) assms(2-4) by (simp add: http_response_prepare_def and_then_def run_handlers_def)
    moreover obtain p info where "rel = p @ info" "ph_path (c_physical con2) = Some (base @ file_case conf0 p)" "uri_path (c_uri con2) = Some (CHR ''/'' # p)"
      "info \<noteq> [] \<longrightarrow> hd info = CHR ''/'' \<and> c_pathinfo con2 = Some (file_case conf0 info)"
      "list_all (\<lambda>w. w \<noteq> ''..'' \<and> w \<noteq> ''.'') (split_slash (file_case conf0 p))"
      using found_file_paths [OF found c1(5) comps] by blast
    ultimately show ?thesis using rel base(1) by (intro exI [of _ "run_handlers hk con2 sc2"]) auto
  qed
qed

definition sample_hooks :: hooks where
  "sample_hooks = \<lparr>hk_patch = (\<lambda>k con. con), hk_uri_raw = go_on, hk_uri_clean = go_on, hk_docroot = go_on, hk_physical = go_on,
     hk_subrequest_start = go_on, hk_subrequest = go_on\<rparr>"

definition sample_penv :: penv where
  "sample_penv = wenv.extend sample_wenv \<lparr>pe_errno = (\<lambda>n. ENOENT)\<rparr>"

definition sample_root :: specific_config where
  "sample_root = no_config\<lparr>cf_document_root := Some ''/''\<rparr>"

definition sample_get :: "string \<Rightarrow> conn" where
  "sample_get u = sample_conn\<lparr>c_core := (c_core sample_conn)\<lparr>co_request := (co_request (c_core sample_conn))\<lparr>rq_uri := Some u\<rparr>\<rparr>\<rparr>"

lemma sample_conn_fields:
  "c_mode sample_conn = DIRECT" "http_status_of sample_conn = 0" "ph_path (c_physical sample_conn) = None" "method_of sample_conn = HTTP_METHOD_GET"
  "rq_http_host (co_request (c_core sample_conn)) = None" "c_response_headers sample_conn = array_init"
  by (simp_all add: sample_conn_def connection_init_def chunkqueue_set_tempdirs_def config_setup_connection_def request_init_def DIRECT_def)

theorem document_root_confined_witness:
  "\<exists>r. http_response_prepare sample_penv sample_hooks sample_root (sample_get ''/%61z?q'') stat_cache_init = Some r \<and>
    (refused r \<or> options_star (sample_get ''/%61z?q'') ''/%61z?q'' \<and> options_answer r \<or>
     (\<exists>con1 sc1 p info. r = run_handlers sample_hooks con1 sc1 \<and> ''/az'' = CHR ''/'' # p @ info \<and>
       ph_path (c_physical con1) = Some (''/'' @ p)))"
proof -
  have raw: "raw_path ''/%61z?q'' = ''/%61z''" "url_decode False ''/%61z'' = ''/az''" "path_simplify ''/az'' = ''/az''" by code_simp+
  have slash: "bs_str (bs_slash (Some ''/'')) = ''/''" by (simp add: bs_slash_def)
  have "mime_ok array_init" by (simp add: mime_ok_def array_init_def)
  then have "\<exists>r. http_response_prepare sample_penv sample_hooks sample_root (sample_get ''/%61z?q'') stat_cache_init = Some r \<and>
    (refused r \<or> options_star (sample_get ''/%61z?q'') ''/%61z?q'' \<and> options_answer r \<or>
     (\<exists>con1 sc1 p info. r = run_handlers sample_hooks con1 sc1 \<and>
       path_simplify (url_decode False (raw_path ''/%61z?q'')) = CHR ''/'' # p @ info \<and>
       ph_path (c_physical con1) = Some (bs_str (bs_slash (Some ''/'')) @ file_case sample_root p) \<and> uri_path (c_uri con1) = Some (CHR ''/'' # p) \<and>
       (info \<noteq> [] \<longrightarrow> hd info = CHR ''/'' \<and> c_pathinfo con1 = Some (file_case sample_root info)) \<and>
       list_all (\<lambda>w. w \<noteq> ''..'' \<and> w \<noteq> ''.'') (split_slash (file_case sample_root p))))"
    by (intro document_root_confined)
      (simp_all add: raw blank_path_def sample_conn_fields sample_get_def sample_hooks_def no_plugins_def sample_root_def no_config_def
        reachable_cache_ok [OF reachable_cache.init] fields_ok_init array_init_ok(3) INT_MAX_def sample_penv_def sample_wenv_def sample_env_def
        wenv.extend_def renv.extend_def del: url_decode.simps)
  moreover have "file_case sample_root p = p" for p by (simp add: file_case_def sample_root_def no_config_def)
  ultimately show ?thesis by (simp only: raw slash) blast
qed

end
