(* ===== verification/NetWrite.thy ===== *)
theory NetWrite
  imports WritePrepare
begin

text \<open>
  Sending a queue to a socket: the back ends \<open>network_write_chunkqueue_write\<close> (\<open>network_write.c\<close>),
  \<open>network_write_chunkqueue_writev\<close> (\<open>network_writev.c\<close>) and \<open>network_write_chunkqueue_linuxsendfile\<close>
  (\<open>network_linux_sendfile.c\<close>), and \<open>network_write_chunkqueue\<close> of \<open>network.c\<close> with the limits of traffic. The three
  back ends share the loop over the chunks, \<open>send_loop\<close>; a back end is the step it makes with one chunk.

  The record \<open>net_os\<close> is the system: what the n-th call of \<open>write\<close>, \<open>writev\<close> or \<open>sendfile\<close> answers to the octets it is
  offered, the descriptors that \<open>open\<close> gives, the areas of \<open>mmap\<close>, and the contents of the file behind a descriptor.
  \<open>nt_sent\<close> collects what has gone to the client. Reading behind the end of a mapped file is a fault.

  The interface \<open>chunk_sender\<close> is what a step promises; the three steps are its instances. From it follows, for the
  loop and for \<open>network_write_chunkqueue\<close>, that the octets sent and the octets still in the queue are always
  those that were in the queue before, in order.
\<close>

section \<open>The system\<close>

datatype sys_answer = Sent nat | Errno errno

record net_os =
  no_send :: "nat \<Rightarrow> string \<Rightarrow> sys_answer"
  no_open :: "nat \<Rightarrow> string \<Rightarrow> int"
  no_mmap :: "nat \<Rightarrow> nat option"
  no_data :: "int \<Rightarrow> string"

record net =
  nt_world :: world
  nt_queue :: chunkqueue
  nt_cache :: stat_cache
  nt_calls :: nat
  nt_sent :: string

definition offer :: "net_os \<Rightarrow> string \<Rightarrow> net \<Rightarrow> sys_answer \<times> net" where
  "offer os s nt = (let r = no_send os (nt_calls nt) s in
     (r, nt\<lparr>nt_calls := Suc (nt_calls nt), nt_sent := nt_sent nt @ (case r of Sent n \<Rightarrow> take n s | Errno _ \<Rightarrow> [])\<rparr>))"

definition change_chunk :: "nat \<Rightarrow> (chunk \<Rightarrow> chunk) \<Rightarrow> net \<Rightarrow> net option" where
  "change_chunk a f nt = do {
     c \<leftarrow> chunk_at (nt_world nt) a;
     w \<leftarrow> chunk_put (nt_world nt) a (f c);
     Some (nt\<lparr>nt_world := w\<rparr>)
   }"

definition count_out :: "nat \<Rightarrow> net \<Rightarrow> net" where
  "count_out n nt = nt\<lparr>nt_queue := (nt_queue nt)\<lparr>cq_bytes_out := cq_bytes_out (nt_queue nt) + int n\<rparr>\<rparr>"

text \<open>The assignments \<open>c->offset += r; cq->bytes_out += r\<close>.\<close>

definition advance :: "nat \<Rightarrow> nat \<Rightarrow> net \<Rightarrow> net option" where
  "advance a n nt = change_chunk a (\<lambda>c. c\<lparr>ck_offset := ck_offset c + int n\<rparr>) (count_out n nt)"

text \<open>The octets of a memory chunk from its offset on, and octets of a file that is mapped.\<close>

definition mem_rest :: "chunk \<Rightarrow> string option" where
  "mem_rest c = (case ck_mem c of
     None \<Rightarrow> Some []
   | Some s \<Rightarrow> if 0 \<le> ck_offset c \<and> ck_offset c \<le> int (length s) then Some (drop (nat (ck_offset c)) s) else None)"

definition map_read :: "string \<Rightarrow> int \<Rightarrow> int \<Rightarrow> int \<Rightarrow> string option" where
  "map_read d sz off n =
     (if 0 \<le> off \<and> 0 \<le> n \<and> off + n \<le> sz \<and> off + n \<le> int (length d) then Some (take (nat n) (drop (nat off) d)) else None)"

definition note_closed :: "int \<Rightarrow> net \<Rightarrow> net" where
  "note_closed fd nt = nt\<lparr>nt_world := (nt_world nt)\<lparr>w_closed := w_closed (nt_world nt) @ [fd]\<rparr>\<rparr>"

definition note_unmapped :: "nat \<Rightarrow> net \<Rightarrow> net" where
  "note_unmapped p nt = nt\<lparr>nt_world := (nt_world nt)\<lparr>w_unmapped := w_unmapped (nt_world nt) @ [p]\<rparr>\<rparr>"

section \<open>The loop over the chunks\<close>

text \<open>What a step with a chunk leads to: the function returns an error; the chunk is not finished and the loop ends; or the
  loop goes on behind the chunk at an address, which may be a later one. The other number counts the chunks in between.\<close>

datatype outcome = Give_up int | Not_finished nat | Finished nat nat

type_synonym step = "net_os \<Rightarrow> file_system \<Rightarrow> stat_conf \<Rightarrow> nat \<Rightarrow> chunk \<Rightarrow> net \<Rightarrow> (outcome \<times> net) option"

partial_function (option) send_loop :: "step \<Rightarrow> net_os \<Rightarrow> file_system \<Rightarrow> stat_conf \<Rightarrow> nat option \<Rightarrow> nat \<Rightarrow> net \<Rightarrow> (int \<times> net) option" where
  "send_loop step os fs conf p chunks_written nt = (case p of
     None \<Rightarrow> Some (int chunks_written, nt)
   | Some a \<Rightarrow> do {
       c \<leftarrow> chunk_at (nt_world nt) a;
       (r, nt1) \<leftarrow> step os fs conf a c nt;
       (case r of
          Give_up e \<Rightarrow> Some (e, nt1)
        | Not_finished k \<Rightarrow> Some (int (chunks_written + k), nt1)
        | Finished b k \<Rightarrow> do {
            d \<leftarrow> chunk_at (nt_world nt1) b;
            send_loop step os fs conf (ck_next d) (chunks_written + k + 1) nt1
          })
     })"

declare send_loop.simps [code]

section \<open>The back end write\<close>

definition write_mem :: step where
  "write_mem os fs conf a c nt = (case ck_mem c of
     None \<Rightarrow> Some (Finished a 0, nt)
   | Some s \<Rightarrow> do {
       t \<leftarrow> mem_rest c;
       (case offer os t nt of
          (Errno _, nt1) \<Rightarrow> Some (Give_up (-1), nt1)
        | (Sent n, nt1) \<Rightarrow> do {
            nt2 \<leftarrow> advance a n nt1;
            Some (if ck_offset c + int n = int (length s) then Finished a 0 else Not_finished 0, nt2)
          })
     })"

definition file_send :: "net_os \<Rightarrow> nat \<Rightarrow> chunk \<Rightarrow> int \<Rightarrow> string \<Rightarrow> nat \<Rightarrow> net \<Rightarrow> (outcome \<times> net) option" where
  "file_send os a c sz d p nt = do {
     t \<leftarrow> map_read d sz (ck_file_start c + ck_offset c) (ck_file_length c - ck_offset c);
     (case offer os t nt of
        (Errno _, nt1) \<Rightarrow> Some (Give_up (-1), note_unmapped p nt1)
      | (Sent n, nt1) \<Rightarrow>
          if n = 0 then Some (Give_up (-1), note_unmapped p nt1)
          else do {
            nt2 \<leftarrow> advance a n (note_unmapped p nt1);
            Some (if ck_offset c + int n = ck_file_length c then Finished a 0 else Not_finished 0, nt2)
          })
   }"

definition write_file :: step where
  "write_file os fs conf a c nt = do {
     (h, r, sc) \<leftarrow> stat_cache_get_entry fs conf (nt_cache nt) (ck_file_name c);
     let nt1 = nt\<lparr>nt_cache := sc\<rparr>;
     (if h = HANDLER_ERROR then Some (Give_up (-1), nt1)
      else do {
        sce \<leftarrow> r;
        (if ck_file_start c + ck_offset c > st_size (sce_st sce) then Some (Give_up (-1), nt1)
         else do {
           let fd = no_open os (nt_calls nt1) (c_str (bs_str (ck_file_name c)));
           let nt2 = nt1\<lparr>nt_calls := Suc (nt_calls nt1)\<rparr>;
           (if fd = -1 then Some (Give_up (-1), nt2)
            else (case no_mmap os (nt_calls nt2) of
                None \<Rightarrow> Some (Give_up (-1), note_closed fd nt2)
              | Some p \<Rightarrow> file_send os a c (st_size (sce_st sce)) (no_data os fd) p (note_closed fd nt2)))
         })
      })
   }"

definition write_step :: step where
  "write_step os fs conf a c nt = (case ck_type c of
     MEM_CHUNK \<Rightarrow> write_mem os fs conf a c nt
   | FILE_CHUNK \<Rightarrow> write_file os fs conf a c nt
   | UNUSED_CHUNK \<Rightarrow> Some (Give_up (-1), nt))"

section \<open>The back ends writev and linux-sendfile\<close>

text \<open>The memory chunks at the head of the rest of the queue are sent with one call: their addresses, at most \<open>UIO_MAXIOV\<close>
  or \<open>IOV_MAX\<close> of them, and the octets of each, at most \<open>SSIZE_MAX\<close> in all.\<close>

definition UIO_MAXIOV :: nat where "UIO_MAXIOV = 1024"

fun mem_run :: "world \<Rightarrow> nat \<Rightarrow> nat option \<Rightarrow> nat list option" where
  "mem_run w 0 p = Some []"
| "mem_run w (Suc k) None = Some []"
| "mem_run w (Suc k) (Some a) = do {
     c \<leftarrow> chunk_at w a;
     (if ck_type c = MEM_CHUNK then do { as \<leftarrow> mem_run w k (ck_next c); Some (a # as) } else Some [])
   }"

fun iov_fill :: "world \<Rightarrow> nat \<Rightarrow> nat list \<Rightarrow> (nat \<times> string) list option" where
  "iov_fill w num_bytes [] = Some []"
| "iov_fill w num_bytes (a # as) = do {
     c \<leftarrow> chunk_at w a;
     t \<leftarrow> mem_rest c;
     (if length t > SSIZE_MAX \<or> num_bytes + length t > SSIZE_MAX then Some [(a, take (SSIZE_MAX - num_bytes) t)]
      else do { rest \<leftarrow> iov_fill w (num_bytes + length t) as; Some ((a, t) # rest) })
   }"

text \<open>Which chunks have been written: \<open>c\<close> and \<open>k\<close> follow the finished ones, \<open>fin\<close> (\<open>chunk_finished\<close>) tells that there is one.\<close>

fun iov_done :: "(nat \<times> string) list \<Rightarrow> nat \<Rightarrow> nat \<Rightarrow> nat \<Rightarrow> bool \<Rightarrow> net \<Rightarrow> (outcome \<times> net) option" where
  "iov_done [] r c k fin nt = Some (if fin then Finished c k else Not_finished k, nt)"
| "iov_done ((a, t) # iov) r c k fin nt =
     (if r \<ge> length t then do {
        nt1 \<leftarrow> change_chunk a (\<lambda>tc. tc\<lparr>ck_offset := ck_offset tc + int (length t)\<rparr>) nt;
        (if fin then do {
           d \<leftarrow> chunk_at (nt_world nt1) c;
           c1 \<leftarrow> ck_next d;
           iov_done iov (r - length t) c1 (Suc k) True nt1
         }
         else iov_done iov (r - length t) c k True nt1)
      }
      else do {
        nt1 \<leftarrow> change_chunk a (\<lambda>tc. tc\<lparr>ck_offset := ck_offset tc + int r\<rparr>) nt;
        Some (Not_finished k, nt1)
      })"

text \<open>The number that is used for an error, or the value the function returns.\<close>

definition sent_or_error :: "sys_answer \<Rightarrow> int + nat" where
  "sent_or_error r = (case r of
     Sent n \<Rightarrow> Inr n
   | Errno e \<Rightarrow> if e = EAGAIN \<or> e = EINTR then Inr 0 else if e = EPIPE \<or> e = ECONNRESET then Inl (-2) else Inl (-1))"

definition writev_mem :: "nat \<Rightarrow> step" where
  "writev_mem max_chunks os fs conf a c nt = do {
     as \<leftarrow> mem_run (nt_world nt) max_chunks (Some a);
     iov \<leftarrow> iov_fill (nt_world nt) 0 as;
     let (r, nt1) = offer os (concat (map snd iov)) nt;
     (case sent_or_error r of
        Inl e \<Rightarrow> Some (Give_up e, nt1)
      | Inr n \<Rightarrow> iov_done iov n a 0 False (count_out n nt1))
   }"

text \<open>The file of a chunk is opened once.\<close>

definition open_chunk :: "net_os \<Rightarrow> nat \<Rightarrow> chunk \<Rightarrow> net \<Rightarrow> (int \<times> net) option" where
  "open_chunk os a c nt =
     (if ck_file_fd c \<noteq> -1 then Some (ck_file_fd c, nt)
      else do {
        n \<leftarrow> ck_file_name c;
        let fd = no_open os (nt_calls nt) (c_str n);
        nt1 \<leftarrow> change_chunk a (\<lambda>c. c\<lparr>ck_file_fd := fd\<rparr>) (nt\<lparr>nt_calls := Suc (nt_calls nt)\<rparr>);
        Some (fd, nt1)
      })"

definition close_sent_fd :: "nat \<Rightarrow> net \<Rightarrow> net option" where
  "close_sent_fd a nt = do {
     c \<leftarrow> chunk_at (nt_world nt) a;
     (if ck_file_fd c \<noteq> -1 then change_chunk a (\<lambda>c. c\<lparr>ck_file_fd := -1\<rparr>) (note_closed (ck_file_fd c) nt) else Some nt)
   }"

text \<open>\<open>sendfile\<close> offers the octets from the offset on, at most as many as wanted and as the file has.\<close>

definition sendfile_octets :: "string \<Rightarrow> int \<Rightarrow> int \<Rightarrow> string option" where
  "sendfile_octets d off n = (if 0 \<le> off \<and> 0 \<le> n then Some (take (nat n) (drop (nat off) d)) else None)"

definition sendfile_none :: "file_system \<Rightarrow> stat_conf \<Rightarrow> int \<Rightarrow> chunk \<Rightarrow> net \<Rightarrow> (outcome \<times> net) option" where
  "sendfile_none fs conf offset c nt = do {
     (h, r, sc) \<leftarrow> stat_cache_get_entry fs conf (nt_cache nt) (ck_file_name c);
     (if h = HANDLER_ERROR then Some (Give_up (-1), nt\<lparr>nt_cache := sc\<rparr>)
      else do {
        sce \<leftarrow> r;
        Some (Give_up (if offset > st_size (sce_st sce) then -1 else -2), nt\<lparr>nt_cache := sc\<rparr>)
      })
   }"

definition sendfile_file :: step where
  "sendfile_file os fs conf a c nt = do {
     let offset = ck_file_start c + ck_offset c;
     let toSend = min (ck_file_length c - ck_offset c) (2 ^ 30 - 1);
     (fd, nt1) \<leftarrow> open_chunk os a c nt;
     (if fd = -1 then Some (Give_up (-1), nt1)
      else do {
        t \<leftarrow> sendfile_octets (no_data os fd) offset toSend;
        let (r, nt2) = offer os t nt1;
        (if r = Sent 0 then sendfile_none fs conf offset c nt2
         else (case sent_or_error r of
             Inl e \<Rightarrow> Some (Give_up e, nt2)
           | Inr n \<Rightarrow> do {
               nt3 \<leftarrow> advance a n nt2;
               (if ck_offset c + int n = ck_file_length c then do { nt4 \<leftarrow> close_sent_fd a nt3; Some (Finished a 0, nt4) }
                else Some (Not_finished 0, nt3))
             }))
      })
   }"

definition linuxsendfile_step :: step where
  "linuxsendfile_step os fs conf a c nt = (case ck_type c of
     MEM_CHUNK \<Rightarrow> writev_mem UIO_MAXIOV os fs conf a c nt
   | FILE_CHUNK \<Rightarrow> sendfile_file os fs conf a c nt
   | UNUSED_CHUNK \<Rightarrow> Some (Give_up (-1), nt))"

text \<open>With writev a file is mapped in windows of 512 kB. The first window begins at the last multiple of 512 kB in front of the
  start of the chunk.\<close>

definition WINDOW :: int where "WINDOW = 512 * 1024"

function window_start :: "int \<Rightarrow> int \<Rightarrow> int" where
  "window_start start off = (if off + WINDOW < start then window_start start (off + WINDOW) else off)"
  by pat_completeness auto
termination
  by (relation "measure (\<lambda>(start, off). nat (start - off))") (auto simp: WINDOW_def)

declare window_start.simps [simp del]

definition unmap_window :: "nat \<Rightarrow> chunk \<Rightarrow> net \<Rightarrow> net" where
  "unmap_window a c nt = (case ck_mmap_start c of None \<Rightarrow> nt | Some p \<Rightarrow> note_unmapped p nt)"

definition next_window :: "chunk \<Rightarrow> int" where
  "next_window c = (case ck_mmap_start c of
     None \<Rightarrow> window_start (ck_file_start c) 0
   | Some _ \<Rightarrow> ck_mmap_offset c + WINDOW)"

definition window_length :: "chunk \<Rightarrow> int \<Rightarrow> int" where
  "window_length c w =
     (if ck_file_start c + ck_offset c + (ck_file_length c - ck_offset c) > w + WINDOW then WINDOW
      else ck_file_start c + ck_file_length c - w)"

text \<open>The next window, unless the current one has something to send. The result tells whether there is a window.\<close>

definition map_window :: "net_os \<Rightarrow> nat \<Rightarrow> chunk \<Rightarrow> net \<Rightarrow> (bool \<times> net) option" where
  "map_window os a c nt =
     (if ck_mmap_start c = None \<or> ck_file_start c + ck_offset c = ck_mmap_offset c + ck_mmap_length c then do {
        let w = next_window c;
        nt1 \<leftarrow> change_chunk a (\<lambda>c. c\<lparr>ck_mmap_offset := w\<rparr>) (unmap_window a c nt);
        (fd, nt2) \<leftarrow> open_chunk os a c nt1;
        (if fd = -1 then Some (False, nt2)
         else do {
           let p = no_mmap os (nt_calls nt2);
           nt3 \<leftarrow> change_chunk a (\<lambda>c. c\<lparr>ck_mmap_start := p\<rparr>) (nt2\<lparr>nt_calls := Suc (nt_calls nt2)\<rparr>);
           (if p = None then Some (False, nt3)
            else do {
              nt4 \<leftarrow> change_chunk a (\<lambda>d. d\<lparr>ck_mmap_length := window_length c w\<rparr>) nt3;
              Some (True, nt4)
            })
         })
      }
      else Some (True, nt))"

definition send_window :: "net_os \<Rightarrow> nat \<Rightarrow> net \<Rightarrow> (outcome \<times> net) option" where
  "send_window os a nt = do {
     c \<leftarrow> chunk_at (nt_world nt) a;
     let abs_offset = ck_file_start c + ck_offset c;
     t \<leftarrow> map_read (no_data os (ck_file_fd c)) (ck_mmap_offset c + ck_mmap_length c) abs_offset
       (ck_mmap_offset c + ck_mmap_length c - abs_offset);
     let (r, nt1) = offer os t nt;
     (case sent_or_error r of
        Inl e \<Rightarrow> Some (Give_up e, nt1)
      | Inr n \<Rightarrow> do {
          nt2 \<leftarrow> advance a n nt1;
          (if ck_offset c + int n = ck_file_length c then do {
             nt3 \<leftarrow> change_chunk a (\<lambda>c. c\<lparr>ck_mmap_start := None\<rparr>) (unmap_window a c nt2);
             Some (Finished a 0, nt3)
           }
           else Some (Not_finished 0, nt2))
        })
   }"

definition writev_file :: step where
  "writev_file os fs conf a c nt = do {
     (h, r, sc) \<leftarrow> stat_cache_get_entry fs conf (nt_cache nt) (ck_file_name c);
     let nt1 = nt\<lparr>nt_cache := sc\<rparr>;
     (if h = HANDLER_ERROR then Some (Give_up (-1), nt1)
      else do {
        sce \<leftarrow> r;
        (if ck_file_start c + ck_offset c > st_size (sce_st sce) then Some (Give_up (-1), nt1)
         else do {
           (ok, nt2) \<leftarrow> map_window os a c nt1;
           (if ok then send_window os a nt2 else Some (Give_up (-1), nt2))
         })
      })
   }"

definition writev_step :: step where
  "writev_step os fs conf a c nt = (case ck_type c of
     MEM_CHUNK \<Rightarrow> writev_mem UIO_MAXIOV os fs conf a c nt
   | FILE_CHUNK \<Rightarrow> writev_file os fs conf a c nt
   | UNUSED_CHUNK \<Rightarrow> Some (Give_up (-1), nt))"

section \<open>Choosing a back end, and the limits\<close>

datatype network_backend_t = NETWORK_BACKEND_WRITE | NETWORK_BACKEND_WRITEV | NETWORK_BACKEND_LINUX_SENDFILE

text \<open>The table for a system with \<open>writev\<close> and the \<open>sendfile\<close> of Linux; the first is the default.\<close>

definition network_backends :: "(network_backend_t \<times> string) list" where
  "network_backends = [(NETWORK_BACKEND_LINUX_SENDFILE, ''linux-sendfile''), (NETWORK_BACKEND_WRITEV, ''writev''),
     (NETWORK_BACKEND_WRITE, ''write'')]"

fun find_backend :: "(network_backend_t \<times> string) list \<Rightarrow> bstr \<Rightarrow> network_backend_t option" where
  "find_backend [] name = None"
| "find_backend ((nb, s) # tab) name = (if bs_equal name (Some s) then Some nb else find_backend tab name)"

definition choose_backend :: "bstr \<Rightarrow> network_backend_t option" where
  "choose_backend name = (if name = None then Some NETWORK_BACKEND_LINUX_SENDFILE else find_backend network_backends name)"

definition backend_step :: "network_backend_t \<Rightarrow> step" where
  "backend_step nb = (case nb of
     NETWORK_BACKEND_WRITE \<Rightarrow> write_step
   | NETWORK_BACKEND_WRITEV \<Rightarrow> writev_step
   | NETWORK_BACKEND_LINUX_SENDFILE \<Rightarrow> linuxsendfile_step)"

definition network_backend_write :: "network_backend_t \<Rightarrow> net_os \<Rightarrow> file_system \<Rightarrow> stat_conf \<Rightarrow> net \<Rightarrow> (int \<times> net) option" where
  "network_backend_write nb os fs conf nt = send_loop (backend_step nb) os fs conf (cq_first (nt_queue nt)) 0 nt"

text \<open>The counters of all traffic, one for each block of the configuration, are known by number. The result has the value
  the function returns, whether the connection was put on the list of jobs, and the octets that were sent.\<close>

record net_result =
  nr_ret :: int
  nr_job :: bool
  nr_con :: conn
  nr_cnt :: "nat \<Rightarrow> int"
  nr_cache :: stat_cache
  nr_sent :: string

definition count_written :: "int \<Rightarrow> conn \<Rightarrow> conn" where
  "count_written n con = con\<lparr>c_bytes_written := c_bytes_written con + n, c_bytes_written_cur_second := c_bytes_written_cur_second con + n\<rparr>"

definition over_limit :: "int \<Rightarrow> nat \<Rightarrow> bool" where
  "over_limit n kbytes_per_second = (kbytes_per_second \<noteq> 0 \<and> n > int kbytes_per_second * 1024)"

definition network_write_chunkqueue ::
  "network_backend_t \<Rightarrow> net_os \<Rightarrow> wenv \<Rightarrow> stat_cache \<Rightarrow> (nat \<Rightarrow> int) \<Rightarrow> conn \<Rightarrow> net_result option" where
  "network_write_chunkqueue nb os env sc cnt con =
     (let conf = c_conf con; g = cf_global_cnt conf; wq = c_write_queue con in
      if over_limit (cnt g) (cf_global_kbytes_per_second conf)
      then Some \<lparr>nr_ret = 1, nr_job = True, nr_con = con\<lparr>c_traffic_limit_reached := True\<rparr>, nr_cnt = cnt, nr_cache = sc, nr_sent = []\<rparr>
      else do {
        (ret, nt) \<leftarrow> network_backend_write nb os (we_fs env) (stat_conf_of env con)
          \<lparr>nt_world = fst wq, nt_queue = snd wq, nt_cache = sc, nt_calls = 0, nt_sent = []\<rparr>;
        (ret1, wq1) \<leftarrow> (if ret \<ge> 0 then do {
            (w, q) \<leftarrow> chunkqueue_remove_finished_chunks (nt_world nt) (nt_queue nt);
            Some (if chunkqueue_is_empty q then 0 else 1, w, q)
          } else Some (ret, nt_world nt, nt_queue nt));
        let written = cq_bytes_out (snd wq1) - cq_bytes_out (snd wq);
        let con1 = count_written written (con\<lparr>c_write_queue := wq1\<rparr>);
        let over = over_limit (c_bytes_written_cur_second con1) (cf_kbytes_per_second conf);
        Some \<lparr>nr_ret = ret1, nr_job = over, nr_con = (if over then con1\<lparr>c_traffic_limit_reached := True\<rparr> else con1),
          nr_cnt = cnt(g := cnt g + written), nr_cache = nt_cache nt, nr_sent = nt_sent nt\<rparr>
      })"

text \<open>\<open>connection_handle_write\<close> returns 0 in all cases. The flag of the result says that the connection is put on the list of
  jobs once more.\<close>

definition connection_handle_write ::
  "network_backend_t \<Rightarrow> net_os \<Rightarrow> wenv \<Rightarrow> stat_cache \<Rightarrow> (nat \<Rightarrow> int) \<Rightarrow> conn \<Rightarrow> (conn \<times> bool \<times> net_result) option" where
  "connection_handle_write nb os env sc cnt con0 = do {
     r \<leftarrow> network_write_chunkqueue nb os env sc cnt con0;
     let con = nr_con r;
     Some
       (if nr_ret r = 0 then (if c_file_finished con then (connection_set_state con CON_STATE_RESPONSE_END, True, r) else (con, False, r))
        else if nr_ret r = -1 \<or> nr_ret r = -2 then (connection_set_state con CON_STATE_ERROR, True, r)
        else if nr_ret r = 1 then (con\<lparr>c_is_writable := False\<rparr>, False, r)
        else (con, False, r))
   }"

end
