(* ===== verification/Machine.thy ===== *)
theory Machine
  imports Prepare NetWrite Fdevent
begin

text \<open>
  The state machine of a connection (\<open>connection_state_machine\<close>, \<open>connection_close\<close>, \<open>connection_accept\<close> and
  \<open>connection_handle_fdevent\<close> of \<open>connections.c\<close>), the server sockets of \<open>network.c\<close>, and the main loop of \<open>server.c\<close> that drives them.

  The part of the server structure that these functions use is the record \<open>srv\<close>; the connections are the objects of the
  pool of theory ConnPool, known by their addresses, and \<open>s_ev\<close> is the table of handlers of theory Fdevent. The record \<open>machine\<close>
  has the callbacks of the plugins, the configuration and the environment; the record \<open>answers\<close> says what the system
  answers in each round of a loop. The branches for OpenSSL, the log and the triggers of the plugins are left out.

  A callback sees the connection and, while a response is prepared, the stat cache, and may change both. It does not see the server: plugins
  that open descriptors of their own, count them in \<open>cur_fds\<close> and register handlers (\<open>mod_cgi\<close>, \<open>mod_fastcgi\<close>, \<open>mod_proxy\<close>,
  \<open>mod_scgi\<close>) are outside the model.
\<close>

section \<open>The server\<close>

text \<open>The two functions that are registered as handlers. The context is the address of a connection, or the place of a
  server socket.\<close>

datatype ev_handler = Connection_handle_fdevent | Network_server_handle_fdevent

record server_socket =
  ss_fd :: int
  ss_fde_ndx :: int

record srv =
  s_pool :: "conn pool"
  s_joblist :: connections
  s_fdwaitqueue :: connections
  s_cur_ts :: int
  s_cur_fds :: int
  s_want_fds :: int
  s_max_conns :: nat
  s_con_opened :: nat
  s_con_written :: nat
  s_con_closed :: nat
  s_stat_cache :: stat_cache
  s_date :: date_cache
  s_parse :: server
  s_ev :: "(ev_handler, nat) fdevents"
  s_sockets :: "server_socket list"
  s_sockets_disabled :: bool
  s_max_fds :: int
  s_closed :: "int list"
  s_global_cnt :: "nat \<Rightarrow> int"
  s_sent :: "(int \<times> string) list"

record machine =
  mx_env :: penv
  mx_backend :: network_backend_t
  mx_hooks :: hooks
  mx_conf :: specific_config
  mx_tempdirs :: "array option"
  mx_reset :: "conn \<Rightarrow> conn"
  mx_request_done :: "conn \<Rightarrow> conn"
  mx_connection_close :: "conn \<Rightarrow> conn"
  mx_joblist :: "conn \<Rightarrow> conn"

record answers =
  an_read :: "nat \<Rightarrow> read_answer"
  an_upload :: "nat \<Rightarrow> upload_os"
  an_net :: "nat \<Rightarrow> net_os"
  an_fionread :: "nat \<Rightarrow> int"
  an_shutdown :: "nat \<Rightarrow> int"
  an_accept :: "nat \<Rightarrow> srv \<Rightarrow> int \<times> bool"

definition env_now :: "machine \<Rightarrow> srv \<Rightarrow> penv" where
  "env_now m srv = (mx_env m)\<lparr>we_cur := s_cur_ts srv\<rparr>"

text \<open>\<open>joblist_append\<close>; \<open>in_joblist\<close> is never set.\<close>

definition job_append :: "machine \<Rightarrow> srv \<Rightarrow> nat \<Rightarrow> srv option" where
  "job_append m srv a = do {
     j \<leftarrow> joblist_append (re_junk (mx_env m)) (s_joblist srv) False a;
     Some (srv\<lparr>s_joblist := j\<rparr>)
   }"

definition connection_close :: "srv \<Rightarrow> nat \<Rightarrow> conn \<Rightarrow> (conn \<times> srv) option" where
  "connection_close srv a con = do {
     (ev1, k) \<leftarrow> fdevent_event_del (s_ev srv) (c_fde_ndx con) (c_fd con);
     ev2 \<leftarrow> fdevent_unregister ev1 (c_fd con);
     (_, p) \<leftarrow> connection_del (s_pool srv) (Some a);
     Some (connection_set_state (con\<lparr>c_fde_ndx := k\<rparr>) CON_STATE_CONNECT,
       srv\<lparr>s_ev := ev2, s_closed := s_closed srv @ [c_fd con], s_cur_fds := s_cur_fds srv - 1, s_pool := p\<rparr>)
   }"

section \<open>One round\<close>

text \<open>The flag of a result says that the round set \<open>done\<close> to -1: the loop goes on although the state is the same.\<close>

type_synonym round = "(bool \<times> conn \<times> srv) option"

definition step_request_start :: "conn \<Rightarrow> srv \<Rightarrow> round" where
  "step_request_start con srv = Some (False, connection_set_state (con
     \<lparr>c_request_start := s_cur_ts srv, c_read_idle_ts := s_cur_ts srv,
      c_core := (c_core con)\<lparr>co_request_count := co_request_count (c_core con) + 1\<rparr>, c_loops_per_request := 0\<rparr>) CON_STATE_READ, srv)"

definition step_request_end :: "machine \<Rightarrow> conn \<Rightarrow> srv \<Rightarrow> round" where
  "step_request_end m con srv = do {
     (r, core, sv) \<leftarrow> http_request_parse (re_aligned (mx_env m)) (re_junk (mx_env m)) (s_parse srv) (c_core con);
     Some (False, connection_set_state (con\<lparr>c_core := core\<rparr>) (if r \<noteq> 0 then CON_STATE_READ_POST else CON_STATE_HANDLE_REQUEST),
       srv\<lparr>s_parse := sv\<rparr>)
   }"

text \<open>The call of the error handler: the request is handled once more, for another address.\<close>

definition wants_error_handler :: "conn \<Rightarrow> bool" where
  "wants_error_handler con = (c_mode con = DIRECT \<and> http_status_of con \<in> {403, 404} \<and> \<not> c_in_error_handler con \<and>
     (cf_error_handler (c_conf con) \<noteq> None \<or> c_error_handler con \<noteq> None))"

definition call_error_handler :: "conn \<Rightarrow> conn" where
  "call_error_handler con =
     (let u = (if c_error_handler con = None then cf_error_handler (c_conf con) else c_error_handler con);
          con1 = con\<lparr>c_error_handler_saved_status := http_status_of con, c_in_error_handler := True,
            c_core := (c_core con)\<lparr>co_http_status := 0, co_request := (co_request (c_core con))\<lparr>rq_uri := u\<rparr>\<rparr>\<rparr>
      in connection_set_state (set_path None con1) CON_STATE_HANDLE_REQUEST)"

definition response_status :: "conn \<Rightarrow> conn" where
  "response_status con =
     (let con1 = (if c_mode con = DIRECT \<and> http_status_of con \<in> {403, 404} \<and> c_in_error_handler con
                  then set_status (c_error_handler_saved_status con) con else con)
      in if http_status_of con1 = 0 then set_status 200 con1 else con1)"

definition step_handle_request :: "machine \<Rightarrow> nat \<Rightarrow> conn \<Rightarrow> srv \<Rightarrow> round" where
  "step_handle_request m a con0 srv0 = do {
     (r, con, sc) \<leftarrow> http_response_prepare (env_now m srv0) (mx_hooks m) (mx_conf m) con0 (s_stat_cache srv0);
     let srv = srv0\<lparr>s_stat_cache := sc\<rparr>;
     (case r of
        HANDLER_FINISHED \<Rightarrow>
          Some (if wants_error_handler con then (True, call_error_handler con, srv)
                else (False, connection_set_state (response_status con) CON_STATE_RESPONSE_START, srv))
      | HANDLER_WAIT_FOR_FD \<Rightarrow> do {
          q \<leftarrow> fdwaitqueue_append (re_junk (mx_env m)) (s_fdwaitqueue srv) a;
          Some (False, connection_set_state con CON_STATE_HANDLE_REQUEST, srv\<lparr>s_want_fds := s_want_fds srv + 1, s_fdwaitqueue := q\<rparr>)
        }
      | HANDLER_COMEBACK \<Rightarrow> Some (True, connection_set_state con CON_STATE_HANDLE_REQUEST, srv)
      | HANDLER_WAIT_FOR_EVENT \<Rightarrow> Some (False, connection_set_state con CON_STATE_HANDLE_REQUEST, srv)
      | HANDLER_ERROR \<Rightarrow> Some (False, connection_set_state con CON_STATE_ERROR, srv)
      | _ \<Rightarrow> Some (False, con, srv))
   }"

definition step_response_start :: "machine \<Rightarrow> conn \<Rightarrow> srv \<Rightarrow> round" where
  "step_response_start m con srv = do {
     (con1, sc, dc) \<leftarrow> connection_handle_write_prepare (wenv.truncate (env_now m srv)) (s_stat_cache srv) (s_date srv) con;
     Some (False, connection_set_state con1 CON_STATE_WRITE, srv\<lparr>s_stat_cache := sc, s_date := dc\<rparr>)
   }"

definition step_response_end :: "machine \<Rightarrow> nat \<Rightarrow> conn \<Rightarrow> srv \<Rightarrow> round" where
  "step_response_end m a con0 srv0 = do {
     let con = mx_request_done m con0;
     let srv = srv0\<lparr>s_con_written := s_con_written srv0 + 1\<rparr>;
     (con1, srv1) \<leftarrow> (if keep_alive_of con then Some (connection_set_state con CON_STATE_REQUEST_START, srv)
       else do {
         (c, s) \<leftarrow> connection_close srv a (mx_connection_close m con);
         Some (c, s\<lparr>s_con_closed := s_con_closed s + 1\<rparr>)
       });
     con2 \<leftarrow> connection_reset (mx_reset m) (mx_conf m) con1;
     Some (False, con2, srv1)
   }"

definition step_connect :: "conn \<Rightarrow> srv \<Rightarrow> round" where
  "step_connect con srv = do {
     rq \<leftarrow> queue_clear (c_read_queue con);
     Some (False, con\<lparr>c_read_queue := rq, c_core := (c_core con)\<lparr>co_request_count := 0\<rparr>\<rparr>, srv)
   }"

definition step_close :: "int \<Rightarrow> nat \<Rightarrow> conn \<Rightarrow> srv \<Rightarrow> round" where
  "step_close fionread a con srv = do {
     let con1 = (if keep_alive_of con \<and> fionread > 0 then con else con\<lparr>c_close_timeout_ts := 0\<rparr>);
     (con2, srv1) \<leftarrow> (if s_cur_ts srv - c_close_timeout_ts con1 > 1 then connection_close srv a con1 else Some (con1, srv));
     Some (False, con2, srv1)
   }"

definition step_read :: "upload_os \<Rightarrow> read_answer \<Rightarrow> conn \<Rightarrow> srv \<Rightarrow> round" where
  "step_read os ans con srv = do {
     (_, con1, _) \<leftarrow> connection_handle_read_state os (s_cur_ts srv) ans con;
     Some (False, con1, srv)
   }"

text \<open>The write of a part of the response, as it is done in two places. \<open>s_sent\<close> collects what goes to which descriptor.\<close>

definition write_now :: "machine \<Rightarrow> net_os \<Rightarrow> nat \<Rightarrow> conn \<Rightarrow> srv \<Rightarrow> (conn \<times> srv) option" where
  "write_now m os a con srv =
     (if \<not> chunkqueue_is_empty (snd (c_write_queue con)) \<and> c_is_writable con then do {
        (con1, job, r) \<leftarrow> connection_handle_write (mx_backend m) os (wenv.truncate (env_now m srv)) (s_stat_cache srv) (s_global_cnt srv) con;
        let srv1 = srv\<lparr>s_stat_cache := nr_cache r, s_global_cnt := nr_cnt r, s_sent := s_sent srv @ [(c_fd con, nr_sent r)]\<rparr>;
        srv2 \<leftarrow> (if nr_job r then job_append m srv1 a else Some srv1);
        srv3 \<leftarrow> (if job then job_append m srv2 a else Some srv2);
        Some (if c_state con1 = CON_STATE_WRITE then con1\<lparr>c_write_request_ts := s_cur_ts srv3\<rparr> else con1, srv3)
      }
      else Some (con, srv))"

definition step_write :: "machine \<Rightarrow> net_os \<Rightarrow> nat \<Rightarrow> conn \<Rightarrow> srv \<Rightarrow> round" where
  "step_write m os a con srv = do { (con1, srv1) \<leftarrow> write_now m os a con srv; Some (False, con1, srv1) }"

definition step_error :: "machine \<Rightarrow> int \<Rightarrow> nat \<Rightarrow> conn \<Rightarrow> srv \<Rightarrow> round" where
  "step_error m shutdown a con0 srv = do {
     let con1 = (if http_status_of con0 \<noteq> 0 then mx_request_done m con0 else con0);
     let con2 = (if c_mode con1 = DIRECT then con1 else mx_connection_close m con1);
     con3 \<leftarrow> connection_reset (mx_reset m) (mx_conf m) con2;
     (con4, srv1) \<leftarrow> (if keep_alive_of con3 \<and> shutdown = 0
       then Some (connection_set_state (con3\<lparr>c_close_timeout_ts := s_cur_ts srv\<rparr>) CON_STATE_CLOSE, srv)
       else connection_close srv a con3);
     Some (False, no_keep_alive con4, srv1\<lparr>s_con_closed := s_con_closed srv1 + 1\<rparr>)
   }"

definition machine_step :: "machine \<Rightarrow> answers \<Rightarrow> nat \<Rightarrow> nat \<Rightarrow> conn \<Rightarrow> srv \<Rightarrow> round" where
  "machine_step m an n a con srv = (case c_state con of
     CON_STATE_REQUEST_START \<Rightarrow> step_request_start con srv
   | CON_STATE_REQUEST_END \<Rightarrow> step_request_end m con srv
   | CON_STATE_HANDLE_REQUEST \<Rightarrow> step_handle_request m a con srv
   | CON_STATE_RESPONSE_START \<Rightarrow> step_response_start m con srv
   | CON_STATE_RESPONSE_END \<Rightarrow> step_response_end m a con srv
   | CON_STATE_CONNECT \<Rightarrow> step_connect con srv
   | CON_STATE_CLOSE \<Rightarrow> step_close (an_fionread an n) a con srv
   | CON_STATE_READ_POST \<Rightarrow> step_read (an_upload an n) (an_read an n) con srv
   | CON_STATE_READ \<Rightarrow> step_read (an_upload an n) (an_read an n) con srv
   | CON_STATE_WRITE \<Rightarrow> step_write m (an_net an n) a con srv
   | CON_STATE_ERROR \<Rightarrow> step_error m (an_shutdown an n) a con srv)"

section \<open>The loops\<close>

partial_function (option) machine_loop :: "machine \<Rightarrow> answers \<Rightarrow> nat \<Rightarrow> nat \<Rightarrow> conn \<Rightarrow> srv \<Rightarrow> (nat \<times> conn \<times> srv) option" where
  "machine_loop m an n a con srv = do {
     (again, con1, srv1) \<leftarrow> machine_step m an n a con srv;
     (if again \<or> c_state con1 \<noteq> c_state con then machine_loop m an (Suc n) a con1 srv1 else Some (Suc n, con1, srv1))
   }"

declare machine_loop.simps [code]

text \<open>The events the connection waits for.\<close>

definition wait_in :: "conn \<Rightarrow> srv \<Rightarrow> nat \<Rightarrow> (conn \<times> srv) option" where
  "wait_in con srv events = do {
     (ev, k) \<leftarrow> fdevent_event_add (s_ev srv) (c_fde_ndx con) (c_fd con) events;
     Some (con\<lparr>c_fde_ndx := k\<rparr>, srv\<lparr>s_ev := ev\<rparr>)
   }"

definition wait_not :: "conn \<Rightarrow> srv \<Rightarrow> (conn \<times> srv) option" where
  "wait_not con srv = do {
     (ev, k) \<leftarrow> fdevent_event_del (s_ev srv) (c_fde_ndx con) (c_fd con);
     Some (con\<lparr>c_fde_ndx := k\<rparr>, srv\<lparr>s_ev := ev\<rparr>)
   }"

definition wait_events :: "conn \<Rightarrow> srv \<Rightarrow> (conn \<times> srv) option" where
  "wait_events con srv =
     (if c_state con = CON_STATE_READ_POST \<or> c_state con = CON_STATE_READ \<or> c_state con = CON_STATE_CLOSE then wait_in con srv FDEVENT_IN
      else if c_state con = CON_STATE_WRITE \<and> \<not> chunkqueue_is_empty (snd (c_write_queue con)) \<and> \<not> c_is_writable con \<and>
          \<not> c_traffic_limit_reached con
        then wait_in con srv FDEVENT_OUT
      else wait_not con srv)"

definition get_con :: "srv \<Rightarrow> nat \<Rightarrow> conn option" where
  "get_con srv a = mem_get (po_obj (s_pool srv)) a"

definition put_con :: "srv \<Rightarrow> nat \<Rightarrow> conn \<Rightarrow> srv option" where
  "put_con srv a con = do {
     objs \<leftarrow> mem_set (po_obj (s_pool srv)) a con;
     Some (srv\<lparr>s_pool := (s_pool srv)\<lparr>po_obj := objs\<rparr>\<rparr>)
   }"

text \<open>The number of rounds that have been used is part of the result.\<close>

definition connection_state_machine :: "machine \<Rightarrow> answers \<Rightarrow> nat \<Rightarrow> nat \<Rightarrow> srv \<Rightarrow> (nat \<times> srv) option" where
  "connection_state_machine m an n a srv = do {
     con \<leftarrow> get_con srv a;
     (n1, con1, srv1) \<leftarrow> machine_loop m an n a con srv;
     (con2, srv2) \<leftarrow> wait_events con1 srv1;
     srv3 \<leftarrow> put_con srv2 a con2;
     Some (n1, srv3)
   }"

text \<open>The event is an error unless it is a combination of \<open>FDEVENT_IN\<close> and \<open>FDEVENT_OUT\<close>.\<close>

definition note_events :: "nat \<Rightarrow> conn \<Rightarrow> conn" where
  "note_events revents con =
     (let con1 = (if bits revents FDEVENT_IN then con\<lparr>c_is_readable := True\<rparr> else con);
          con2 = (if bits revents FDEVENT_OUT then con1\<lparr>c_is_writable := True\<rparr> else con1)
      in if bits revents FDEVENT_HUP then
           (if c_state con2 = CON_STATE_CLOSE then con2\<lparr>c_close_timeout_ts := 0\<rparr> else connection_set_state con2 CON_STATE_ERROR)
         else if bits revents FDEVENT_ERR then connection_set_state con2 CON_STATE_ERROR
         else con2)"

definition connection_handle_fdevent :: "machine \<Rightarrow> answers \<Rightarrow> nat \<Rightarrow> nat \<Rightarrow> nat \<Rightarrow> srv \<Rightarrow> (handler_t \<times> srv) option" where
  "connection_handle_fdevent m an n a revents srv0 = do {
     con \<leftarrow> get_con srv0 a;
     srv \<leftarrow> job_append m srv0 a;
     let con1 = note_events revents con;
     con2 \<leftarrow> (if c_state con1 = CON_STATE_READ \<or> c_state con1 = CON_STATE_READ_POST then do {
         (_, c, _) \<leftarrow> connection_handle_read_state (an_upload an n) (s_cur_ts srv) (an_read an n) con1;
         Some c
       } else Some con1);
     (con3, srv1) \<leftarrow> (if c_state con2 = CON_STATE_WRITE then write_now m (an_net an n) a con2 srv else Some (con2, srv));
     let con4 = (if c_state con3 = CON_STATE_CLOSE \<and> \<not> an_fionread an n > 0 then con3\<lparr>c_close_timeout_ts := 0\<rparr> else con3);
     srv2 \<leftarrow> put_con srv1 a con4;
     Some (HANDLER_FINISHED, srv2)
   }"

text \<open>\<open>fd\<close> is what \<open>accept\<close> gave, -1 for an error; \<open>fcntl_ok\<close>: the descriptor could be made non-blocking.\<close>

definition connection_accept :: "machine \<Rightarrow> int \<Rightarrow> bool \<Rightarrow> srv \<Rightarrow> (nat option \<times> srv) option" where
  "connection_accept m fd fcntl_ok srv =
     (if po_used (s_pool srv) \<ge> s_max_conns srv then Some (None, srv)
      else if fd = -1 then Some (None, srv)
      else do {
        ini \<leftarrow> connection_init (mx_tempdirs m) (mx_conf m);
        (a, p) \<leftarrow> connections_get_new_connection ini (connection_reset (mx_reset m) (mx_conf m)) (s_pool srv);
        let srv1 = srv\<lparr>s_cur_fds := s_cur_fds srv + 1, s_con_opened := s_con_opened srv + 1, s_pool := p\<rparr>;
        con \<leftarrow> get_con srv1 a;
        ev \<leftarrow> fdevent_register (s_ev srv1) fd Connection_handle_fdevent a;
        srv2 \<leftarrow> put_con (srv1\<lparr>s_ev := ev\<rparr>) a
          (connection_set_state (con\<lparr>c_fd := fd, c_fde_ndx := -1, c_connection_start := s_cur_ts srv\<rparr>) CON_STATE_REQUEST_START);
        Some (if fcntl_ok then Some a else None, srv2)
      })"

text \<open>A callback on a connection of the pool.\<close>

definition on_con :: "(conn \<Rightarrow> conn) \<Rightarrow> nat \<Rightarrow> srv \<Rightarrow> srv option" where
  "on_con f a srv = do { con \<leftarrow> get_con srv a; put_con srv a (f con) }"

text \<open>The loop of \<open>network_server_handle_fdevent\<close>, with the number of connections that may still be accepted.\<close>

fun accept_loop :: "machine \<Rightarrow> answers \<Rightarrow> nat \<Rightarrow> nat \<Rightarrow> srv \<Rightarrow> (nat \<times> srv) option" where
  "accept_loop m an 0 n srv = Some (n, srv)"
| "accept_loop m an (Suc loops) n srv = do {
     (r, srv1) \<leftarrow> connection_accept m (fst (an_accept an n srv)) (snd (an_accept an n srv)) srv;
     (case r of
        None \<Rightarrow> Some (n, srv1)
      | Some a \<Rightarrow> do {
          (n1, srv2) \<leftarrow> connection_state_machine m an n a srv1;
          srv3 \<leftarrow> on_con (mx_joblist m) a srv2;
          accept_loop m an loops n1 srv3
        })
   }"

definition network_server_handle_fdevent :: "machine \<Rightarrow> answers \<Rightarrow> nat \<Rightarrow> srv \<Rightarrow> nat \<Rightarrow> (handler_t \<times> nat \<times> srv) option" where
  "network_server_handle_fdevent m an n srv revents =
     (if revents \<noteq> FDEVENT_IN then Some (HANDLER_ERROR, n, srv)
      else do { (n1, srv1) \<leftarrow> accept_loop m an 100 n srv; Some (HANDLER_GO_ON, n1, srv1) })"

fun register_sockets :: "(ev_handler, nat) fdevents \<Rightarrow> nat \<Rightarrow> server_socket list \<Rightarrow> ((ev_handler, nat) fdevents \<times> server_socket list) option" where
  "register_sockets ev i [] = Some (ev, [])"
| "register_sockets ev i (s # ss) = do {
     ev1 \<leftarrow> fdevent_register ev (ss_fd s) Network_server_handle_fdevent i;
     (ev2, k) \<leftarrow> fdevent_event_add ev1 (ss_fde_ndx s) (ss_fd s) FDEVENT_IN;
     (ev3, ss1) \<leftarrow> register_sockets ev2 (Suc i) ss;
     Some (ev3, s\<lparr>ss_fde_ndx := k\<rparr> # ss1)
   }"

definition network_register_fdevents :: "srv \<Rightarrow> srv option" where
  "network_register_fdevents srv = do {
     (ev, ss) \<leftarrow> register_sockets (fdevent_reset (s_ev srv)) 0 (s_sockets srv);
     Some (srv\<lparr>s_ev := ev, s_sockets := ss\<rparr>)
   }"

section \<open>The main loop\<close>

text \<open>The list of jobs, which may grow while the loop runs.\<close>

partial_function (option) job_loop :: "machine \<Rightarrow> answers \<Rightarrow> nat \<Rightarrow> nat \<Rightarrow> srv \<Rightarrow> (nat \<times> srv) option" where
  "job_loop m an n ndx srv =
     (if ndx < cs_used (s_joblist srv) then do {
        a \<leftarrow> mem_get (cs_ptr (s_joblist srv)) ndx;
        (n1, srv1) \<leftarrow> connection_state_machine m an n a srv;
        srv2 \<leftarrow> on_con (mx_joblist m) a srv1;
        job_loop m an n1 (Suc ndx) srv2
      }
      else Some (n, srv\<lparr>s_joblist := (s_joblist srv)\<lparr>cs_used := 0\<rparr>\<rparr>))"

declare job_loop.simps [code]

text \<open>The connections that wait for a descriptor.\<close>

fun wait_loop :: "machine \<Rightarrow> answers \<Rightarrow> nat \<Rightarrow> nat \<Rightarrow> srv \<Rightarrow> (nat \<times> srv) option" where
  "wait_loop m an n 0 srv = Some (n, srv)"
| "wait_loop m an n (Suc free_fds) srv = do {
     (r, q) \<leftarrow> fdwaitqueue_unshift (s_fdwaitqueue srv);
     (case r of
        None \<Rightarrow> Some (n, srv)
      | Some a \<Rightarrow> do {
          (n1, srv1) \<leftarrow> connection_state_machine m an n a (srv\<lparr>s_fdwaitqueue := q\<rparr>);
          wait_loop m an n1 free_fds (srv1\<lparr>s_want_fds := s_want_fds srv1 - 1\<rparr>)
        })
   }"

text \<open>The check for timeouts. The division truncates, as in C.\<close>

definition timed_out :: "int \<Rightarrow> conn \<Rightarrow> bool" where
  "timed_out now con =
     ((c_state con = CON_STATE_READ \<or> c_state con = CON_STATE_READ_POST) \<and>
        now - c_read_idle_ts con > int (if co_request_count (c_core con) = 1 then cf_max_read_idle (c_conf con) else cf_max_keep_alive_idle (c_conf con)) \<or>
      c_state con = CON_STATE_WRITE \<and> c_write_request_ts con \<noteq> 0 \<and>
        now - c_write_request_ts con > int (cf_max_write_idle (c_conf con)))"

definition trunc_div :: "int \<Rightarrow> int \<Rightarrow> int" where
  "trunc_div a b = sgn a * sgn b * (\<bar>a\<bar> div \<bar>b\<bar>)"

definition limit_over :: "int \<Rightarrow> conn \<Rightarrow> bool" where
  "limit_over now con =
     (let t_diff = (if now - c_connection_start con = 0 then 1 else now - c_connection_start con)
      in c_traffic_limit_reached con \<and> (cf_kbytes_per_second (c_conf con) = 0 \<or>
           trunc_div (c_bytes_written con) t_diff < int (cf_kbytes_per_second (c_conf con)) * 1024))"

definition check_timeout :: "machine \<Rightarrow> answers \<Rightarrow> nat \<Rightarrow> nat \<Rightarrow> srv \<Rightarrow> (nat \<times> srv) option" where
  "check_timeout m an n a srv = do {
     con \<leftarrow> get_con srv a;
     let con1 = (if timed_out (s_cur_ts srv) con then connection_set_state con CON_STATE_ERROR else con);
     let con2 = (if limit_over (s_cur_ts srv) con1 then con1\<lparr>c_traffic_limit_reached := False\<rparr> else con1);
     (if timed_out (s_cur_ts srv) con \<or> limit_over (s_cur_ts srv) con1 then do {
        srv1 \<leftarrow> put_con srv a con2;
        connection_state_machine m an n a srv1
      }
      else Some (n, srv))
   }"

text \<open>The loop over the pool, which is changed when a connection is closed. The counters of traffic begin again; that
  of all traffic is the one of the configuration that the connection has now.\<close>

definition begin_second :: "nat \<Rightarrow> srv \<Rightarrow> srv option" where
  "begin_second a srv = do {
     con \<leftarrow> get_con srv a;
     put_con (srv\<lparr>s_global_cnt := (s_global_cnt srv)(cf_global_cnt (c_conf con) := 0)\<rparr>) a (con\<lparr>c_bytes_written_cur_second := 0\<rparr>)
   }"

partial_function (option) timeout_loop :: "machine \<Rightarrow> answers \<Rightarrow> nat \<Rightarrow> nat \<Rightarrow> srv \<Rightarrow> (nat \<times> srv) option" where
  "timeout_loop m an n ndx srv =
     (if ndx < po_used (s_pool srv) then do {
        a \<leftarrow> mem_get (po_ptr (s_pool srv)) ndx;
        (n1, srv1) \<leftarrow> check_timeout m an n a srv;
        srv2 \<leftarrow> begin_second a srv1;
        timeout_loop m an n1 (Suc ndx) srv2
      }
      else Some (n, srv))"

declare timeout_loop.simps [code]

definition new_second :: "machine \<Rightarrow> answers \<Rightarrow> nat \<Rightarrow> int \<Rightarrow> srv \<Rightarrow> (nat \<times> srv) option" where
  "new_second m an n now srv =
     (if now \<noteq> s_cur_ts srv then do {
        sc \<leftarrow> stat_cache_trigger_cleanup now (s_stat_cache srv);
        timeout_loop m an n 0 (srv\<lparr>s_cur_ts := now, s_stat_cache := sc\<rparr>)
      }
      else Some (n, srv))"

text \<open>The server sockets are watched again, or not any more. With 0.8 and 0.9 as double the comparisons are those of the
  fractions, for all numbers of descriptors that there can be.\<close>

fun enable_sockets :: "(ev_handler, nat) fdevents \<Rightarrow> server_socket list \<Rightarrow> ((ev_handler, nat) fdevents \<times> server_socket list) option" where
  "enable_sockets ev [] = Some (ev, [])"
| "enable_sockets ev (s # ss) = do {
     (ev1, k) \<leftarrow> fdevent_event_add ev (ss_fde_ndx s) (ss_fd s) FDEVENT_IN;
     (ev2, ss1) \<leftarrow> enable_sockets ev1 ss;
     Some (ev2, s\<lparr>ss_fde_ndx := k\<rparr> # ss1)
   }"

fun disable_sockets :: "bool \<Rightarrow> (ev_handler, nat) fdevents \<Rightarrow> int list \<Rightarrow> server_socket list \<Rightarrow>
    ((ev_handler, nat) fdevents \<times> int list \<times> server_socket list) option" where
  "disable_sockets graceful ev closed [] = Some (ev, closed, [])"
| "disable_sockets graceful ev closed (s # ss) = do {
     (ev1, k) \<leftarrow> fdevent_event_del ev (ss_fde_ndx s) (ss_fd s);
     (ev2, closed1, s1) \<leftarrow> (if graceful then do {
         e \<leftarrow> fdevent_unregister ev1 (ss_fd s);
         Some (e, closed @ [ss_fd s], s\<lparr>ss_fde_ndx := k, ss_fd := -1\<rparr>)
       } else Some (ev1, closed, s\<lparr>ss_fde_ndx := k\<rparr>));
     (ev3, closed2, ss1) \<leftarrow> disable_sockets graceful ev2 closed1 ss;
     Some (ev3, closed2, s1 # ss1)
   }"

definition switch_sockets :: "bool \<Rightarrow> srv \<Rightarrow> srv option" where
  "switch_sockets graceful srv =
     (if s_sockets_disabled srv then
        if 10 * (s_cur_fds srv + s_want_fds srv) < 8 * s_max_fds srv \<and> 10 * int (po_used (s_pool srv)) < 9 * int (s_max_conns srv) \<and> \<not> graceful
        then do {
          (ev, ss) \<leftarrow> enable_sockets (s_ev srv) (s_sockets srv);
          Some (srv\<lparr>s_ev := ev, s_sockets := ss, s_sockets_disabled := False\<rparr>)
        }
        else Some srv
      else
        if 10 * (s_cur_fds srv + s_want_fds srv) > 9 * s_max_fds srv \<or> po_used (s_pool srv) > s_max_conns srv \<or> graceful
        then do {
          (ev, closed, ss) \<leftarrow> disable_sockets graceful (s_ev srv) (s_closed srv) (s_sockets srv);
          Some (srv\<lparr>s_ev := ev, s_closed := closed, s_sockets := ss, s_sockets_disabled := True\<rparr>)
        }
        else Some srv)"

text \<open>The call of a handler; \<open>HANDLER_ERROR\<close> stops the program.\<close>

definition call_handler :: "machine \<Rightarrow> answers \<Rightarrow> nat \<times> srv \<Rightarrow> ev_handler \<Rightarrow> nat \<Rightarrow> nat \<Rightarrow> (nat \<times> srv) option" where
  "call_handler m an s h ctx revents = (case h of
     Connection_handle_fdevent \<Rightarrow> do {
       (_, srv1) \<leftarrow> connection_handle_fdevent m an (fst s) ctx revents (snd s);
       Some (Suc (fst s), srv1)
     }
   | Network_server_handle_fdevent \<Rightarrow> do {
       (r, n1, srv1) \<leftarrow> network_server_handle_fdevent m an (fst s) (snd s) revents;
       (if r = HANDLER_ERROR then None else Some (n1, srv1))
     })"

text \<open>What happens in one turn of the main loop: whether a second has passed, whether the server is to stop, and what
  \<open>select\<close> reports.\<close>

record turn =
  tn_alarm :: "int option"
  tn_graceful :: bool
  tn_select :: select_call

definition main_turn :: "machine \<Rightarrow> answers \<Rightarrow> turn \<Rightarrow> nat \<Rightarrow> srv \<Rightarrow> (nat \<times> srv \<times> bool) option" where
  "main_turn m an t n0 srv0 = do {
     (n1, srv1) \<leftarrow> (case tn_alarm t of None \<Rightarrow> Some (n0, srv0) | Some now \<Rightarrow> new_second m an n0 now srv0);
     srv2 \<leftarrow> switch_sockets (tn_graceful t) srv1;
     let stop = (tn_graceful t \<and> po_used (s_pool srv2) = 0);
     (n3, srv3) \<leftarrow> (if s_want_fds srv2 \<noteq> 0 then wait_loop m an n1 (nat (s_max_fds srv2 - s_cur_fds srv2 - 16)) srv2 else Some (n1, srv2));
     (k, ev) \<leftarrow> fdevent_poll (tn_select t) (s_ev srv3);
     (n4, srv4) \<leftarrow> event_loop (\<lambda>s. s_ev (snd s)) (call_handler m an) (nat k) (-1) (n3, srv3\<lparr>s_ev := ev\<rparr>);
     (n5, srv5) \<leftarrow> job_loop m an n4 0 srv4;
     Some (n5, srv5, stop)
   }"

end
