(* ===== verification/MachineProps.thy ===== *)
theory MachineProps
  imports Machine
begin

text \<open>
  Properties of the state machine and of the server as a whole. The callbacks of the plugins
  are assumed to leave the state and the descriptor of a connection alone (\<open>calm\<close>); what else they do is free.

  The first group of lemmas shows which state follows which, the second that the pool, the table of handlers and the
  count of descriptors agree with the states of the connections in every state the server can reach, the third that a
  connection in an error is closed without delay.
\<close>

section \<open>What the functions leave alone\<close>

definition same :: "conn \<Rightarrow> conn \<Rightarrow> bool" where
  "same con con1 = (c_state con1 = c_state con \<and> c_fd con1 = c_fd con \<and> c_fde_ndx con1 = c_fde_ndx con)"

lemma same_refl [simp]: "same con con"
  by (simp add: same_def)

lemma same_trans: "same a b \<Longrightarrow> same b c \<Longrightarrow> same a c"
  by (simp add: same_def)

definition calm :: "(conn \<Rightarrow> conn) \<Rightarrow> bool" where
  "calm f = (\<forall>con. same con (f con))"

definition calm_hook :: "hook \<Rightarrow> bool" where
  "calm_hook hk = (\<forall>con sc. same con (fst (snd (hk con sc))))"

definition calm_hooks :: "hooks \<Rightarrow> bool" where
  "calm_hooks hk = ((\<forall>k. calm (hk_patch hk k)) \<and> calm_hook (hk_uri_raw hk) \<and> calm_hook (hk_uri_clean hk) \<and> calm_hook (hk_docroot hk) \<and>
     calm_hook (hk_physical hk) \<and> calm_hook (hk_subrequest_start hk) \<and> calm_hook (hk_subrequest hk))"

definition calm_machine :: "machine \<Rightarrow> bool" where
  "calm_machine m = (calm_hooks (mx_hooks m) \<and> calm (mx_reset m) \<and> calm (mx_request_done m) \<and> calm (mx_connection_close m) \<and> calm (mx_joblist m))"

lemma pred_bind: "(\<And>y. x = Some y \<Longrightarrow> pred_option P (f y)) \<Longrightarrow> pred_option P (x \<bind> f)"
  by (cases x) simp_all

lemma pred_if: "(b \<Longrightarrow> pred_option P x) \<Longrightarrow> (\<not> b \<Longrightarrow> pred_option P y) \<Longrightarrow> pred_option P (if b then x else y)"
  by simp

lemma pred_prod: "(\<And>a b. x = (a, b) \<Longrightarrow> pred_option P (f a b)) \<Longrightarrow> pred_option P (case x of (a, b) \<Rightarrow> f a b)"
  by (cases x) simp

lemma if_pred: "P y \<Longrightarrow> P x \<Longrightarrow> P (if b then x else y)"
  by simp

lemma config_setup_fde [simp]: "c_fde_ndx (config_setup_connection s con) = c_fde_ndx con"
  by (simp add: config_setup_connection_def)

lemma hook_same: "calm_hook hk \<Longrightarrow> hk con sc = (r, con1, sc1) \<Longrightarrow> same con con1"
  unfolding calm_hook_def by (metis fst_conv snd_conv)

lemma call_plugins_same: "calm_hook hk \<Longrightarrow> call_plugins hk con sc = s \<Longrightarrow>
    (case s of Inl (r, con1, sc1) \<Rightarrow> same con con1 | Inr (con1, sc1) \<Rightarrow> same con con1)"
  using hook_same [of hk con sc] by (auto simp: call_plugins_def split: prod.splits sum.splits if_splits)

definition staged_same :: "conn \<Rightarrow> staged option \<Rightarrow> bool" where
  "staged_same con s = (case s of None \<Rightarrow> True | Some (Inl (r, con1, sc1)) \<Rightarrow> same con con1 | Some (Inr (con1, sc1)) \<Rightarrow> same con con1)"

lemma staged_simps [simp]: "staged_same con None" "staged_same con (Some (Inl (r, con1, sc1))) = same con con1"
  "staged_same con (Some (Inr (con1, sc1))) = same con con1"
  by (simp_all add: staged_same_def)

lemma and_then_same: "staged_same con s \<Longrightarrow> (\<And>con1 sc1. same con con1 \<Longrightarrow> staged_same con (f con1 sc1)) \<Longrightarrow> staged_same con (and_then s f)"
  by (cases s) (auto simp: and_then_def staged_same_def split: sum.splits)

lemma call_staged: "calm_hook hk \<Longrightarrow> same con con1 \<Longrightarrow> staged_same con (Some (call_plugins hk con1 sc))"
  using call_plugins_same [of hk con1 sc] same_trans [of con con1] by (fastforce simp: staged_same_def split: sum.splits)

lemma prepare_authority_same: "\<forall>k. calm (hk_patch hk k) \<Longrightarrow> prepare_authority hk conf0 con = Some con1 \<Longrightarrow> same con con1"
  by (auto simp: prepare_authority_def Let_def same_def calm_def)

lemma prepare_uri_same: "prepare_uri con = Some con1 \<Longrightarrow> same con con1"
  by (auto simp: prepare_uri_def Let_def same_def case_prod_beta if_distrib [of c_state] if_distrib [of c_fd] if_distrib [of c_fde_ndx])

lemma prepare_options_same: "staged_same con (prepare_options env con sc)"
  by (auto simp: prepare_options_def same_def split: bind_splits)

lemma prepare_path_same:
  assumes "calm_hooks hk"
  shows "staged_same con (prepare_path env hk conf0 con sc)"
proof -
  note h = assms [unfolded calm_hooks_def]
  have patch: "same con (hk_patch hk k c)" if "same con c" for k c
    using h same_trans [OF that] by (auto simp: calm_def)
  have opt: "staged_same con (prepare_options env c s)" if "same con c" for c s
    using prepare_options_same [of c env s] same_trans [OF that] by (auto simp: staged_same_def split: option.splits sum.splits)
  show ?thesis unfolding prepare_path_def
  proof (intro and_then_same)
    show "staged_same con (do { con1 \<leftarrow> prepare_authority hk conf0 con; con2 \<leftarrow> prepare_uri con1; Some (call_plugins (hk_uri_raw hk) con2 sc) })"
      using h prepare_authority_same [of hk conf0 con] prepare_uri_same call_staged same_trans
      by (auto split: bind_splits)
  next
    fix con3 sc3 assume c3: "same con con3"
    let ?c = "hk_patch hk COMP_HTTP_QUERY_STRING (hk_patch hk COMP_HTTP_URL con3)"
    have "same con ?c" using patch c3 by blast
    then show "staged_same con (do { let con4 = ?c; let con5 = (if cf_allow_http11 (c_conf con4) then con4
            else con4\<lparr>c_core := (c_core con4)\<lparr>co_request := (co_request (c_core con4))\<lparr>rq_http_version := HTTP_VERSION_1_0\<rparr>\<rparr>\<rparr>);
         Some (call_plugins (hk_uri_clean hk) con5 sc3) })"
      using h unfolding Let_def by (intro call_staged) (auto simp: same_def)
  next
    fix con6 sc6 assume "same con con6"
    then show "staged_same con (prepare_options env con6 sc6)" by (rule opt)
  next
    fix con7 sc7 assume "same con con7"
    then show "staged_same con (Some (call_plugins (hk_docroot hk) (set_docroot con7) sc7))"
      using h by (intro call_staged) (auto simp: same_def set_docroot_def)
  next
    fix con8 sc8 assume "same con con8"
    then show "staged_same con (Some (call_plugins (hk_physical hk) (set_physical con8) sc8))"
      using h by (intro call_staged) (auto simp: same_def set_physical_def Let_def)
  qed
qed

lemma prepare_file_same: "staged_same con (prepare_file env con sc)"
proof -
  have r: "http_response_redirect_to_directory e c = Some (n, c1) \<Longrightarrow> same c c1" for e c n c1
    by (auto simp: http_response_redirect_to_directory_def redirect_host_def same_def Let_def split: sum.splits option.splits sock_name.splits)
  have p: "staged_same con (prepare_pathinfo env con t sc1)" for t sc1
    by (auto simp: prepare_pathinfo_def refuse_def same_def set_path_def shorten_path_def Let_def split: bind_splits option.splits)
  show ?thesis
    using r p by (auto simp: prepare_file_def refuse_def same_def set_path_def split: bind_splits file_errno.splits)
qed

lemma prepare_same:
  assumes "calm_hooks hk" "http_response_prepare env hk conf0 con sc = Some (r, con1, sc1)"
  shows "same con con1"
proof -
  have start: "staged_same con (Some (prepare_start hk c s))" if "same con c" for c s
    using that hook_same [of "hk_subrequest_start hk" c s] assms(1) same_trans [of con c]
    by (auto simp: prepare_start_def calm_hooks_def same_def split: prod.splits)
  have found: "staged_same con (prepare_file env c s)" if "same con c" for c s
    using prepare_file_same [of c env s] same_trans [OF that] by (auto simp: staged_same_def split: option.splits sum.splits)
  define s where "s = and_then (if c_mode con = DIRECT \<and> ph_path (c_physical con) = None then prepare_path env hk conf0 con sc else Some (Inr (con, sc)))
          (\<lambda>con1 sc1. if c_mode con1 = DIRECT then and_then (prepare_file env con1 sc1) (\<lambda>con2 sc2. Some (prepare_start hk con2 sc2)) else Some (Inr (con1, sc1)))"
  have st: "staged_same con s" unfolding s_def
    using prepare_path_same [OF assms(1)] start found by (intro and_then_same) (simp_all add: and_then_same)
  show ?thesis
  proof (cases "c_mode con = DIRECT \<and> http_status_of con \<notin> {0, 200}")
    case True
    then show ?thesis using assms(2) by (auto simp: http_response_prepare_def same_def split: if_splits bind_splits)
  next
    case False
    then have run: "do { x \<leftarrow> s; Some (case x of Inl r \<Rightarrow> r
         | Inr (con1, sc1) \<Rightarrow> (case hk_subrequest hk con1 sc1 of (r, con2, sc2) \<Rightarrow> (if r = HANDLER_GO_ON then HANDLER_FINISHED else r, con2, sc2))) } = Some (r, con1, sc1)"
      using assms(2) unfolding http_response_prepare_def s_def by (simp only: if_False)
    then obtain x where x: "s = Some x" by (cases s) simp_all
    show ?thesis
    proof (cases x)
      case (Inl q)
      then show ?thesis using run x st by simp
    next
      case (Inr q)
      obtain c t where q: "q = (c, t)" by (cases q)
      obtain r2 con2 sc2 where h: "hk_subrequest hk c t = (r2, con2, sc2)" by (cases "hk_subrequest hk c t")
      then have "con1 = con2" "same con c" using run x Inr q st by simp_all
      then show ?thesis using hook_same [of "hk_subrequest hk" c t] h assms(1) same_trans [of con c] by (simp add: calm_hooks_def)
    qed
  qed
qed

lemma write_prepare_same:
  assumes "connection_handle_write_prepare env sc dc con = Some (con1, sc1, dc1)"
  shows "same con con1"
proof -
  have m: "prepare_method e c = Some c1 \<Longrightarrow> same c c1" for e c c1
    by (auto simp: prepare_method_def same_def no_body_def split: if_splits option.splits bind_splits)
  have f: "prepare_errorfile env s c = Some (b, c1, s1) \<Longrightarrow> same c c1" for s c b c1 s1
    by (auto simp: prepare_errorfile_def same_def set_path_def Let_def split: option.splits if_splits bind_splits)
  have b: "prepare_body env s c = Some (c1, s1) \<Longrightarrow> same c c1" for s c c1 s1
  proof -
    assume run: "prepare_body env s c = Some (c1, s1)"
    show "same c c1"
    proof (cases "http_status_of c \<in> {204, 205, 304} \<or> c_mode c \<noteq> DIRECT \<or> http_status_of c < 400 \<or> http_status_of c \<ge> 600")
      case True
      then show ?thesis using run by (auto simp: prepare_body_def same_def no_body_def split: if_splits)
    next
      case False
      let ?c = "set_path None (c\<lparr>c_file_finished := False\<rparr>)"
      obtain found ce se where e: "prepare_errorfile env s ?c = Some (found, ce, se)"
        using run False by (cases "prepare_errorfile env s ?c") (auto simp: prepare_body_def)
      have "same ?c ce" by (rule f [OF e])
      moreover have "same ce c1" using run False e by (cases found) (auto simp: prepare_body_def same_def set_path_def)
      ultimately show ?thesis by (simp add: same_def set_path_def)
    qed
  qed
  have l: "prepare_length e c = Some c1 \<Longrightarrow> same c c1" for e c c1
  proof -
    have "pred_option (same c) (prepare_length e c)" unfolding prepare_length_def Let_def
      by (intro pred_if pred_bind) (simp_all add: same_def)
    then show "prepare_length e c = Some c1 \<Longrightarrow> same c c1" by simp
  qed
  have h: "prepare_head c = Some c1 \<Longrightarrow> same c c1" for c c1
    by (auto simp: prepare_head_def same_def split: if_splits)
  have w: "http_response_write_header e t d c = Some (c1, d1) \<Longrightarrow> same c c1" for e t d c c1 d1
    by (auto simp: http_response_write_header_def same_def)
  have s: "same c (prepare_status c)" for c by (simp add: prepare_status_def same_def)
  obtain c1 c3 c4 c5 s3 where "prepare_method (renv.truncate env) con = Some c1" "prepare_body env sc (prepare_status c1) = Some (c3, s3)"
    "prepare_length (renv.truncate env) c3 = Some c4" "prepare_head c4 = Some c5"
    "http_response_write_header (renv.truncate env) (we_cur env) dc c5 = Some (con1, dc1)"
    using assms by (auto simp: connection_handle_write_prepare_def Let_def)
  note steps = m [OF this(1)] s [of c1] b [OF this(2)] l [OF this(3)] h [OF this(4)] w [OF this(5)]
  show ?thesis using steps by (simp add: same_def)
qed

lemma reset_same:
  assumes "calm f" "connection_reset f conf0 con = Some con1"
  shows "same con con1" "keep_alive_of con1 = keep_alive_of (f con)"
  using assms by (auto simp: connection_reset_def calm_def same_def Let_def config_setup_connection_def reset_core_def)

section \<open>The diagram\<close>

text \<open>The edges of the diagram in \<open>doc/state.dot\<close>.\<close>

definition state_diagram :: "(connection_state_t \<times> connection_state_t) list" where
  "state_diagram = [
     (CON_STATE_CONNECT, CON_STATE_REQUEST_START), (CON_STATE_REQUEST_START, CON_STATE_READ), (CON_STATE_READ, CON_STATE_REQUEST_END),
     (CON_STATE_REQUEST_END, CON_STATE_HANDLE_REQUEST), (CON_STATE_HANDLE_REQUEST, CON_STATE_RESPONSE_START),
     (CON_STATE_RESPONSE_START, CON_STATE_WRITE), (CON_STATE_WRITE, CON_STATE_RESPONSE_END), (CON_STATE_RESPONSE_END, CON_STATE_CONNECT),
     (CON_STATE_REQUEST_END, CON_STATE_READ_POST), (CON_STATE_READ_POST, CON_STATE_HANDLE_REQUEST),
     (CON_STATE_RESPONSE_END, CON_STATE_REQUEST_START), (CON_STATE_HANDLE_REQUEST, CON_STATE_HANDLE_REQUEST),
     (CON_STATE_ERROR, CON_STATE_CLOSE), (CON_STATE_CLOSE, CON_STATE_CONNECT), (CON_STATE_ERROR, CON_STATE_CONNECT),
     (CON_STATE_HANDLE_REQUEST, CON_STATE_ERROR), (CON_STATE_READ, CON_STATE_ERROR), (CON_STATE_READ_POST, CON_STATE_ERROR),
     (CON_STATE_WRITE, CON_STATE_ERROR)]"

text \<open>The edge that is missing there: a header that is too long is answered without being parsed.\<close>

definition follows :: "connection_state_t \<Rightarrow> connection_state_t \<Rightarrow> bool" where
  "follows s t = ((s, t) \<in> set state_diagram \<or> s = CON_STATE_READ \<and> t = CON_STATE_HANDLE_REQUEST)"

lemma handle_read_same:
  assumes "connection_handle_read ans con = Some (r, con1)"
  shows "c_fd con1 = c_fd con \<and> c_fde_ndx con1 = c_fde_ndx con \<and> (c_state con1 = c_state con \<or> c_state con1 = CON_STATE_ERROR \<and> r = -1)"
proof (cases ans)
  case (Read_failed e)
  then show ?thesis using assms by (auto simp: connection_handle_read_def connection_set_state_def Let_def split: if_splits)
next
  case (Read_bytes s full)
  then show ?thesis using assms by (cases "s = []") (auto simp: connection_handle_read_def Let_def split: if_splits)
qed (use assms in \<open>auto simp: connection_handle_read_def split: if_splits\<close>)

lemma read_state_follows:
  assumes "connection_handle_read_state os cur ans con = Some (r, con1, log)" "c_state con \<in> {CON_STATE_READ, CON_STATE_READ_POST}"
  shows "c_fd con1 = c_fd con" "c_fde_ndx con1 = c_fde_ndx con" "c_state con1 = c_state con \<or> follows (c_state con) (c_state con1)"
proof -
  have h: "read_header c = Some c1 \<Longrightarrow> c_fd c1 = c_fd c \<and> c_fde_ndx c1 = c_fde_ndx c \<and> c_state c1 \<in> {c_state c, CON_STATE_REQUEST_END, CON_STATE_HANDLE_REQUEST}" for c c1
    by (auto simp: read_header_def connection_set_state_def Let_def split: option.splits bind_splits if_splits)
  have p: "read_post os c = Some (c1, l) \<Longrightarrow> c_fd c1 = c_fd c \<and> c_fde_ndx c1 = c_fde_ndx c \<and> c_state c1 \<in> {c_state c, CON_STATE_HANDLE_REQUEST}" for c c1 l
    by (auto simp: read_post_def connection_set_state_def Let_def split: bind_splits if_splits)
  have err: "follows (c_state con) CON_STATE_ERROR" using assms(2) by (auto simp: follows_def state_diagram_def)
  let ?ok = "\<lambda>c. c_fd c = c_fd con \<and> c_fde_ndx c = c_fde_ndx con \<and> (c_state c = c_state con \<or> follows (c_state con) (c_state c))"
  have "pred_option (\<lambda>(r, c, log). ?ok c) (connection_handle_read_state os cur ans con)"
    unfolding connection_handle_read_state_def Let_def
  proof (intro pred_bind pred_prod pred_if, goal_cases)
    case (1 y r c1)
    then show ?case using err handle_read_same [of ans "con\<lparr>c_read_idle_ts := cur\<rparr>" r c1] by (auto split: if_splits)
  next
    case (2 y r c1 rq y3 c3 log rq1)
    have c1: "c_fd c1 = c_fd con" "c_fde_ndx c1 = c_fde_ndx con" "c_state c1 = c_state con"
      using 2(1-3) handle_read_same [of ans "con\<lparr>c_read_idle_ts := cur\<rparr>" r c1] by (auto split: if_splits)
    have "?ok c3" using 2(5,6) assms(2) c1 h [of "c1\<lparr>c_read_queue := rq\<rparr>"] p [of "c1\<lparr>c_read_queue := rq\<rparr>"]
      by (auto simp: follows_def state_diagram_def split: if_splits)
    moreover have "?ok (connection_set_state c3 CON_STATE_ERROR)" using calculation err by (simp add: connection_set_state_def)
    ultimately have "?ok (if r = -2 \<and> c_state con = c_state c3 then connection_set_state c3 CON_STATE_ERROR else c3)"
      by (rule if_pred)
    then show ?case by simp
  qed
  then show "c_fd con1 = c_fd con" "c_fde_ndx con1 = c_fde_ndx con" "c_state con1 = c_state con \<or> follows (c_state con) (c_state con1)" using assms(1) by simp_all
qed

section \<open>One round\<close>

text \<open>A round either leaves the pool, the table of handlers and the count of descriptors alone, or closes the connection.\<close>

definition unmoved :: "srv \<Rightarrow> srv \<Rightarrow> bool" where
  "unmoved srv srv1 = (s_pool srv1 = s_pool srv \<and> s_ev srv1 = s_ev srv \<and> s_cur_fds srv1 = s_cur_fds srv \<and> s_closed srv1 = s_closed srv \<and>
     s_sockets srv1 = s_sockets srv \<and> s_cur_ts srv1 = s_cur_ts srv)"

lemma unmoved_refl [simp]: "unmoved srv srv"
  by (simp add: unmoved_def)

definition quiet :: "conn \<Rightarrow> srv \<Rightarrow> conn \<Rightarrow> srv \<Rightarrow> bool" where
  "quiet con srv con1 srv1 = (unmoved srv srv1 \<and> c_fd con1 = c_fd con \<and> c_fde_ndx con1 = c_fde_ndx con \<and>
     (c_state con1 = c_state con \<or> follows (c_state con) (c_state con1)) \<and> (c_state con1 = CON_STATE_CONNECT \<longleftrightarrow> c_state con = CON_STATE_CONNECT))"

definition closes :: "nat \<Rightarrow> conn \<Rightarrow> srv \<Rightarrow> conn \<Rightarrow> srv \<Rightarrow> bool" where
  "closes a con srv con1 srv1 = (c_state con \<in> {CON_STATE_RESPONSE_END, CON_STATE_CLOSE, CON_STATE_ERROR} \<and>
     (\<exists>con2 srv2 con3 srv3. same con con2 \<and> unmoved srv srv2 \<and> connection_close srv2 a con2 = Some (con3, srv3) \<and>
        c_fd con1 = c_fd con3 \<and> c_fde_ndx con1 = c_fde_ndx con3 \<and> c_state con1 = c_state con3 \<and> unmoved srv3 srv1))"

lemma follows_eval:
  "follows CON_STATE_REQUEST_START CON_STATE_READ" "follows CON_STATE_REQUEST_END CON_STATE_READ_POST"
  "follows CON_STATE_REQUEST_END CON_STATE_HANDLE_REQUEST" "follows CON_STATE_HANDLE_REQUEST CON_STATE_RESPONSE_START"
  "follows CON_STATE_HANDLE_REQUEST CON_STATE_ERROR" "follows CON_STATE_HANDLE_REQUEST CON_STATE_HANDLE_REQUEST"
  "follows CON_STATE_RESPONSE_START CON_STATE_WRITE" "follows CON_STATE_WRITE CON_STATE_RESPONSE_END" "follows CON_STATE_WRITE CON_STATE_ERROR"
  "follows CON_STATE_RESPONSE_END CON_STATE_REQUEST_START" "follows CON_STATE_RESPONSE_END CON_STATE_CONNECT"
  "follows CON_STATE_ERROR CON_STATE_CLOSE" "follows CON_STATE_ERROR CON_STATE_CONNECT" "follows CON_STATE_CLOSE CON_STATE_CONNECT"
  by (simp_all add: follows_def state_diagram_def)

lemmas set_state_simps = connection_set_state_def set_path_def

lemma job_append_unmoved: "job_append m srv a = Some srv1 \<Longrightarrow> unmoved srv srv1"
  by (auto simp: job_append_def unmoved_def)

lemma step_request_quiet:
  "c_state con = CON_STATE_REQUEST_START \<Longrightarrow> step_request_start con srv = Some (b, con1, srv1) \<Longrightarrow> quiet con srv con1 srv1"
  "c_state con = CON_STATE_REQUEST_END \<Longrightarrow> step_request_end m con srv = Some (b, con1, srv1) \<Longrightarrow> quiet con srv con1 srv1"
  "step_connect con srv = Some (b, con1, srv1) \<Longrightarrow> quiet con srv con1 srv1"
  by (auto simp: step_request_start_def step_request_end_def step_connect_def quiet_def unmoved_def set_state_simps follows_eval split: if_splits)

lemma step_handle_quiet:
  assumes "calm_machine m" "c_state con = CON_STATE_HANDLE_REQUEST" "step_handle_request m a con srv = Some (b, con1, srv1)"
  shows "quiet con srv con1 srv1"
proof -
  obtain r c sc where p: "http_response_prepare (env_now m srv) (mx_hooks m) (mx_conf m) con (s_stat_cache srv) = Some (r, c, sc)"
    using assms(3) by (auto simp: step_handle_request_def)
  have c: "same con c" using prepare_same [OF _ p] assms(1) by (simp add: calm_machine_def)
  have e: "same c (set_path None c)" "c_fd (call_error_handler c) = c_fd c" "c_fde_ndx (call_error_handler c) = c_fde_ndx c"
    "c_state (call_error_handler c) = CON_STATE_HANDLE_REQUEST" "same c (response_status c)"
    by (simp_all add: call_error_handler_def response_status_def Let_def set_state_simps same_def)
  show ?thesis using assms(2,3) p c e
    by (cases r) (auto simp: step_handle_request_def quiet_def same_def unmoved_def set_state_simps follows_eval Let_def split: if_splits)
qed

lemma network_write_same:
  assumes "network_write_chunkqueue nb os env sc cnt con = Some r"
  shows "same con (nr_con r)"
proof -
  have "pred_option (\<lambda>r. same con (nr_con r)) (network_write_chunkqueue nb os env sc cnt con)"
    unfolding network_write_chunkqueue_def Let_def
    by (intro pred_if pred_bind pred_prod) (simp_all add: same_def count_written_def)
  then show ?thesis using assms by simp
qed

lemma handle_write_state:
  assumes "c_state con = CON_STATE_WRITE" "connection_handle_write nb os env sc cnt con = Some (con1, job, r)"
  shows "c_fd con1 = c_fd con" "c_fde_ndx con1 = c_fde_ndx con" "c_state con1 \<in> {CON_STATE_WRITE, CON_STATE_RESPONSE_END, CON_STATE_ERROR}"
proof -
  have "same con (nr_con r)" using assms(2) network_write_same by (auto simp: connection_handle_write_def Let_def split: if_splits)
  then show "c_fd con1 = c_fd con" "c_fde_ndx con1 = c_fde_ndx con" "c_state con1 \<in> {CON_STATE_WRITE, CON_STATE_RESPONSE_END, CON_STATE_ERROR}"
    using assms by (auto simp: connection_handle_write_def Let_def same_def set_state_simps split: if_splits)
qed

lemma step_write_quiet:
  assumes "c_state con = CON_STATE_WRITE" "write_now m os a con srv = Some (con1, srv1)"
  shows "quiet con srv con1 srv1"
proof (cases "\<not> chunkqueue_is_empty (snd (c_write_queue con)) \<and> c_is_writable con")
  case True
  let ?srv = "\<lambda>r. srv\<lparr>s_stat_cache := nr_cache r, s_global_cnt := nr_cnt r, s_sent := s_sent srv @ [(c_fd con, nr_sent r)]\<rparr>"
  obtain c1 job r srv2 where h: "connection_handle_write (mx_backend m) os (wenv.truncate (env_now m srv)) (s_stat_cache srv) (s_global_cnt srv) con = Some (c1, job, r)"
    "(if nr_job r then job_append m (?srv r) a else Some (?srv r)) = Some srv2" "(if job then job_append m srv2 a else Some srv2) = Some srv1"
    "con1 = (if c_state c1 = CON_STATE_WRITE then c1\<lparr>c_write_request_ts := s_cur_ts srv1\<rparr> else c1)"
    using assms(2) True by (auto simp: write_now_def Let_def simp del: if_split)
  have "unmoved srv (?srv r)" by (simp add: unmoved_def)
  moreover have "unmoved (?srv r) srv2" using h(2) job_append_unmoved [of m "?srv r" a srv2] by (cases "nr_job r") simp_all
  moreover have "unmoved srv2 srv1" using h(3) job_append_unmoved [of m srv2 a srv1] by (cases job) simp_all
  ultimately have "unmoved srv srv1" by (simp add: unmoved_def)
  then show ?thesis using handle_write_state [OF assms(1) h(1)] assms(1) h(4)
    by (simp add: quiet_def) (elim disjE, simp_all add: follows_eval)
qed (use assms(2) in \<open>auto simp: write_now_def quiet_def\<close>)

lemma step_read_quiet:
  assumes "c_state con \<in> {CON_STATE_READ, CON_STATE_READ_POST}" "step_read os ans con srv = Some (b, con1, srv1)"
  shows "quiet con srv con1 srv1"
proof -
  obtain x where x: "connection_handle_read_state os (s_cur_ts srv) ans con = Some x"
    using assms(2) by (cases "connection_handle_read_state os (s_cur_ts srv) ans con") (simp_all add: step_read_def)
  obtain r c log where "x = (r, c, log)" by (rule prod_cases3)
  with x assms(2) have run: "connection_handle_read_state os (s_cur_ts srv) ans con = Some (r, con1, log)" and "srv1 = srv"
    by (simp_all add: step_read_def)
  note f = read_state_follows [OF run assms(1)]
  then have "c_state con1 \<noteq> CON_STATE_CONNECT" using assms(1) by (auto simp: follows_def state_diagram_def)
  then show ?thesis using f assms(1) \<open>srv1 = srv\<close> by (auto simp: quiet_def)
qed

lemma step_start_quiet:
  assumes "c_state con = CON_STATE_RESPONSE_START" "step_response_start m con srv = Some (b, con1, srv1)"
  shows "quiet con srv con1 srv1"
proof -
  obtain c sc dc where w: "connection_handle_write_prepare (wenv.truncate (env_now m srv)) (s_stat_cache srv) (s_date srv) con = Some (c, sc, dc)"
    "con1 = connection_set_state c CON_STATE_WRITE" "srv1 = srv\<lparr>s_stat_cache := sc, s_date := dc\<rparr>"
    using assms(2) by (auto simp: step_response_start_def)
  show ?thesis using write_prepare_same [OF w(1)] w(2,3) assms(1) by (simp add: quiet_def unmoved_def same_def set_state_simps follows_eval)
qed

lemma closesI:
  assumes "c_state con \<in> {CON_STATE_RESPONSE_END, CON_STATE_CLOSE, CON_STATE_ERROR}" "same con con2" "unmoved srv srv2"
    and "connection_close srv2 a con2 = Some (con3, srv3)" "same con3 con1" "unmoved srv3 srv1"
  shows "closes a con srv con1 srv1"
  unfolding closes_def using assms by (fastforce simp: same_def)

lemma step_end_cases:
  assumes "calm_machine m" "c_state con = CON_STATE_RESPONSE_END" "step_response_end m a con srv = Some (b, con1, srv1)"
  shows "quiet con srv con1 srv1 \<or> closes a con srv con1 srv1"
proof -
  note m = assms(1) [unfolded calm_machine_def calm_def]
  let ?c = "mx_request_done m con" and ?s = "srv\<lparr>s_con_written := s_con_written srv + 1\<rparr>"
  show ?thesis
  proof (cases "keep_alive_of ?c")
    case True
    then have r: "connection_reset (mx_reset m) (mx_conf m) (connection_set_state ?c CON_STATE_REQUEST_START) = Some con1" "srv1 = ?s"
      using assms(3) by (auto simp: step_response_end_def Let_def)
    then show ?thesis using reset_same(1) [OF _ r(1)] assms(1,2) m
      by (simp add: quiet_def same_def calm_def calm_machine_def set_state_simps unmoved_def follows_eval)
  next
    case False
    then obtain c s where r: "connection_close ?s a (mx_connection_close m ?c) = Some (c, s)" "srv1 = s\<lparr>s_con_closed := s_con_closed s + 1\<rparr>"
      "connection_reset (mx_reset m) (mx_conf m) c = Some con1"
      using assms(3) by (auto simp: step_response_end_def Let_def)
    have "same con (mx_connection_close m ?c)" using m same_trans by blast
    then have "closes a con srv con1 srv1" using assms(1,2) r reset_same(1) [OF _ r(3)]
      by (intro closesI [OF _ _ _ r(1)]) (auto simp: unmoved_def calm_machine_def)
    then show ?thesis by simp
  qed
qed

lemma step_close_cases:
  assumes "c_state con = CON_STATE_CLOSE" "step_close fio a con srv = Some (b, con1, srv1)"
  shows "quiet con srv con1 srv1 \<or> closes a con srv con1 srv1"
proof -
  define c where "c = (if keep_alive_of con \<and> fio > 0 then con else con\<lparr>c_close_timeout_ts := 0\<rparr>)"
  have c: "same con c" by (simp add: c_def same_def)
  have run: "(if s_cur_ts srv - c_close_timeout_ts c > 1 then connection_close srv a c else Some (c, srv)) = Some (con1, srv1)"
    using assms(2) by (auto simp: step_close_def c_def Let_def)
  show ?thesis
  proof (cases "s_cur_ts srv - c_close_timeout_ts c > 1")
    case True
    then have "closes a con srv con1 srv1" using run assms(1) c by (intro closesI [of con c]) auto
    then show ?thesis by simp
  qed (use run c assms(1) in \<open>auto simp: quiet_def same_def\<close>)
qed

lemma step_error_cases:
  assumes "calm_machine m" "c_state con = CON_STATE_ERROR" "step_error m sd a con srv = Some (b, con1, srv1)"
  shows "quiet con srv con1 srv1 \<or> closes a con srv con1 srv1"
proof -
  note m = assms(1) [unfolded calm_machine_def calm_def]
  define c2 where "c2 = (let c1 = (if http_status_of con \<noteq> 0 then mx_request_done m con else con)
    in if c_mode c1 = DIRECT then c1 else mx_connection_close m c1)"
  have c2: "same con c2" unfolding c2_def Let_def using m by (simp) (metis same_trans)
  obtain c3 where c3: "connection_reset (mx_reset m) (mx_conf m) c2 = Some c3"
    using assms(3) by (cases "connection_reset (mx_reset m) (mx_conf m) c2") (auto simp: step_error_def Let_def c2_def)
  have s3: "same con c3" using reset_same(1) [OF _ c3] m c2 same_trans by (auto simp: calm_def)
  obtain c4 s4 where c4: "(if keep_alive_of c3 \<and> sd = 0
       then Some (connection_set_state (c3\<lparr>c_close_timeout_ts := s_cur_ts srv\<rparr>) CON_STATE_CLOSE, srv) else connection_close srv a c3) = Some (c4, s4)"
    and r: "con1 = no_keep_alive c4" "srv1 = s4\<lparr>s_con_closed := s_con_closed s4 + 1\<rparr>"
    using assms(3) c3 by (auto simp: step_error_def Let_def c2_def)
  show ?thesis
  proof (cases "keep_alive_of c3 \<and> sd = 0")
    case True
    then have "c4 = connection_set_state (c3\<lparr>c_close_timeout_ts := s_cur_ts srv\<rparr>) CON_STATE_CLOSE" "s4 = srv" using c4 by auto
    then show ?thesis using r s3 assms(2) by (simp add: quiet_def unmoved_def same_def set_state_simps follows_eval)
  next
    case False
    have close: "connection_close srv a c3 = Some (c4, s4)" using c4 unfolding if_not_P [OF False] .
    have "closes a con srv con1 srv1" by (rule closesI [OF _ s3 _ close]) (use assms(2) r in \<open>auto simp: same_def unmoved_def\<close>)
    then show ?thesis by simp
  qed
qed

lemma step_cases:
  assumes "calm_machine m" "machine_step m an n a con srv = Some (b, con1, srv1)"
  shows "quiet con srv con1 srv1 \<or> closes a con srv con1 srv1"
proof (cases "c_state con")
  case CON_STATE_WRITE
  then have "write_now m (an_net an n) a con srv = Some (con1, srv1)" using assms(2) by (auto simp: machine_step_def step_write_def)
  then show ?thesis using step_write_quiet [OF CON_STATE_WRITE] by blast
next
  case CON_STATE_RESPONSE_END
  then show ?thesis using step_end_cases [OF assms(1)] assms(2) by (simp add: machine_step_def)
next
  case CON_STATE_CLOSE
  then show ?thesis using step_close_cases [of con] assms(2) by (simp add: machine_step_def)
next
  case CON_STATE_ERROR
  then show ?thesis using step_error_cases [OF assms(1)] assms(2) by (simp add: machine_step_def)
next
  case CON_STATE_HANDLE_REQUEST
  then show ?thesis using step_handle_quiet [OF assms(1)] assms(2) by (simp add: machine_step_def)
qed (use assms(2) step_request_quiet step_read_quiet step_start_quiet in \<open>simp_all add: machine_step_def\<close>)

lemma close_result:
  assumes "connection_close srv a con = Some (con1, srv1)"
  shows "c_state con1 = CON_STATE_CONNECT" "c_fd con1 = c_fd con"
  using assms by (auto simp: connection_close_def set_state_simps)

lemma closes_edge:
  assumes "closes a con srv con1 srv1"
  shows "c_fd con1 = c_fd con" "follows (c_state con) (c_state con1)" "c_state con1 = CON_STATE_CONNECT"
proof -
  obtain con2 srv2 con3 srv3 where c: "c_state con \<in> {CON_STATE_RESPONSE_END, CON_STATE_CLOSE, CON_STATE_ERROR}" "same con con2"
    "connection_close srv2 a con2 = Some (con3, srv3)" "c_fd con1 = c_fd con3" "c_state con1 = c_state con3"
    using assms unfolding closes_def by blast
  show state: "c_state con1 = CON_STATE_CONNECT" using close_result(1) [OF c(3)] c(5) by simp
  show "c_fd con1 = c_fd con" using close_result(2) [OF c(3)] c(2,4) by (simp add: same_def)
  show "follows (c_state con) (c_state con1)" using c(1) unfolding state by (auto simp: follows_eval)
qed

section \<open>The diagram is complete\<close>

text \<open>C5. For callbacks that change neither the state nor the descriptors nor the events of a connection (\<open>calm_machine\<close>; \<open>mod_cgi\<close> does
  not keep to this: its callback for \<open>connection_reset\<close> may set the state to \<open>CON_STATE_HANDLE_REQUEST\<close>), and whatever the client and the system
  do, a round of the state machine leaves the connection in its state or takes it along an edge of the diagram in \<open>doc/state.dot\<close>, completed by the edge from reading to handling for a
  header that is too long; and it never changes the descriptor of the connection.\<close>

theorem machine_follows_diagram:
  assumes "calm_machine m" "machine_step m an n a con srv = Some (again, con1, srv1)"
  shows "c_fd con1 = c_fd con \<and> (c_state con1 = c_state con \<or> (c_state con, c_state con1) \<in> set state_diagram \<or>
    c_state con = CON_STATE_READ \<and> c_state con1 = CON_STATE_HANDLE_REQUEST)"
  using step_cases [OF assms]
proof
  assume "closes a con srv con1 srv1"
  from closes_edge [OF this] show ?thesis unfolding follows_def by blast
next
  assume "quiet con srv con1 srv1"
  then show ?thesis unfolding quiet_def follows_def by blast
qed

section \<open>A server to try it on\<close>

definition sample_machine :: machine where
  "sample_machine = \<lparr>mx_env = sample_penv, mx_backend = NETWORK_BACKEND_LINUX_SENDFILE, mx_hooks = sample_hooks, mx_conf = no_config, mx_tempdirs = None, mx_reset = (\<lambda>con. con),
     mx_request_done = (\<lambda>con. con), mx_connection_close = (\<lambda>con. con), mx_joblist = (\<lambda>con. con)\<rparr>"

definition sample_net :: net_os where
  "sample_net = \<lparr>no_send = (\<lambda>k s. Sent (length s)), no_open = (\<lambda>k n. -1), no_mmap = (\<lambda>k. None), no_data = (\<lambda>fd. [])\<rparr>"

text \<open>The client connects and says nothing; the descriptor is 5.\<close>

definition sample_answers :: answers where
  "sample_answers = \<lparr>an_read = (\<lambda>n. Read_failed EAGAIN), an_upload = (\<lambda>n. sample_os), an_net = (\<lambda>n. sample_net), an_fionread = (\<lambda>n. 0),
     an_shutdown = (\<lambda>n. 0), an_accept = (\<lambda>n srv. (if get_node (s_ev srv) 5 = None then 5 else -1, True))\<rparr>"

definition sample_server :: srv where
  "sample_server = \<lparr>s_pool = pool_init, s_joblist = \<lparr>cs_ptr = [], cs_size = 0, cs_used = 0\<rparr>, s_fdwaitqueue = \<lparr>cs_ptr = [], cs_size = 0, cs_used = 0\<rparr>,
     s_cur_ts = 100, s_cur_fds = 3, s_want_fds = 0, s_max_conns = 8, s_con_opened = 0, s_con_written = 0, s_con_closed = 0,
     s_stat_cache = stat_cache_init, s_date = \<lparr>last_generated_date_ts = 0, ts_date_str = None\<rparr>, s_parse = sample_srv,
     s_ev = the (fdevent_init 16 FDEVENT_HANDLER_SELECT), s_sockets = [\<lparr>ss_fd = 4, ss_fde_ndx = -1\<rparr>], s_sockets_disabled = False,
     s_max_fds = 16, s_closed = [], s_global_cnt = (\<lambda>k. 0), s_sent = []\<rparr>"

lemma sample_calm: "calm_machine sample_machine"
  by (simp add: calm_machine_def calm_hooks_def calm_hook_def calm_def sample_machine_def sample_hooks_def go_on_def)

theorem machine_follows_diagram_witness:
  "\<exists>con1 srv1. machine_step sample_machine sample_answers 0 0 (connection_set_state sample_conn CON_STATE_REQUEST_START) sample_server =
     Some (False, con1, srv1) \<and> c_fd con1 = c_fd sample_conn \<and> c_state con1 = CON_STATE_READ"
proof -
  let ?con = "connection_set_state sample_conn CON_STATE_REQUEST_START"
  obtain con1 srv1 where run: "machine_step sample_machine sample_answers 0 0 ?con sample_server = Some (False, con1, srv1)" "c_state con1 = CON_STATE_READ"
    by (auto simp: machine_step_def step_request_start_def connection_set_state_def)
  from machine_follows_diagram [OF sample_calm run(1)] run show ?thesis by (simp add: connection_set_state_def)
qed

end
