(* ===== verification/ServerInv.thy ===== *)
theory ServerInv
  imports MachineProps
begin

text \<open>
  The invariant of the whole server: in every state that the turns of the main loop lead to, the pool of connections, the states
  of the connections, the table of handlers, the sets for \<open>select\<close>, the server sockets and the count of descriptors agree.

  Each operation that changes one of these parts has a lemma; the loops follow by induction. A connection that is being
  worked on is not in the pool but in the hands of the state machine: \<open>with_con\<close> puts it back.
\<close>

section \<open>Results of the operations of the table\<close>

lemma add_result:
  assumes "fdevent_event_add ev k fd e = Some (ev1, k1)" "ev_type ev = FDEVENT_HANDLER_SELECT" "e \<in> {FDEVENT_IN, FDEVENT_OUT}"
  shows "k1 = fd" "0 \<le> fd" "ev_type ev1 = FDEVENT_HANDLER_SELECT" "ev_fdarray ev1 = ev_fdarray ev"
    "ev_select_set_error ev1 = insert fd (ev_select_set_error ev)"
    "ev_select_set_read ev1 \<union> ev_select_set_write ev1 \<subseteq> insert fd (ev_select_set_read ev \<union> ev_select_set_write ev)"
proof -
  have b: "bits e FDEVENT_IN \<and> \<not> bits e FDEVENT_OUT \<or> \<not> bits e FDEVENT_IN \<and> bits e FDEVENT_OUT" using assms(3) by auto
  have run: "fdevent_select_event_add ev k fd e = Some (ev1, k1)" using assms(1,2) by (simp add: fdevent_event_add_def)
  show "k1 = fd" "0 \<le> fd" "ev_type ev1 = FDEVENT_HANDLER_SELECT" "ev_fdarray ev1 = ev_fdarray ev"
    "ev_select_set_error ev1 = insert fd (ev_select_set_error ev)"
    "ev_select_set_read ev1 \<union> ev_select_set_write ev1 \<subseteq> insert fd (ev_select_set_read ev \<union> ev_select_set_write ev)"
    using b run assms(2) by (auto simp: fdevent_select_event_add_def FD_SET_def FD_CLR_def Let_def split: if_splits)
qed

lemma del_result:
  assumes "fdevent_event_del ev k fd = Some (ev1, k1)" "ev_type ev = FDEVENT_HANDLER_SELECT"
  shows "k1 = -1" "ev_type ev1 = FDEVENT_HANDLER_SELECT" "ev_fdarray ev1 = ev_fdarray ev" "k < 0 \<Longrightarrow> ev1 = ev"
    "k \<ge> 0 \<Longrightarrow> ev_select_set_error ev1 = ev_select_set_error ev - {fd}"
    "k \<ge> 0 \<Longrightarrow> ev_select_set_read ev1 \<union> ev_select_set_write ev1 = (ev_select_set_read ev \<union> ev_select_set_write ev) - {fd}"
  using assms by (auto simp: fdevent_event_del_def fdevent_select_event_del_def FD_CLR_def split: if_splits)

lemma get_node_cong: "ev_fdarray ev1 = ev_fdarray ev \<Longrightarrow> get_node ev1 fd = get_node ev fd"
  by (simp add: get_node_def)

lemma node_fd: "get_node ev fd = Some node \<Longrightarrow> fn_fd node = fd \<and> 0 \<le> fd"
  by (auto simp: get_node_def fd_index_def split: if_splits)

lemma set_node:
  assumes "mem_set (ev_fdarray ev) (nat fd) p = Some arr" "0 \<le> fd" "\<And>node. p = Some node \<Longrightarrow> fn_fd node = fd"
  shows "get_node (ev\<lparr>ev_fdarray := arr\<rparr>) x = (if x = fd then p else get_node ev x)"
proof (cases "x = fd")
  case True
  then show ?thesis using assms by (cases p) (auto simp: get_node_def fd_index_def mem_get_def mem_set_def split: if_splits)
next
  case False
  then have "nat x \<noteq> nat fd \<or> x < 0" using assms(2) by auto
  then show ?thesis using assms(1) False by (auto simp: get_node_def fd_index_def mem_get_def mem_set_def split: if_splits)
qed

lemma unregister_result:
  assumes "fdevent_unregister ev fd = Some ev1"
  shows "get_node ev1 x = (if x = fd then None else get_node ev x)" "ev_type ev1 = ev_type ev" "ev_select_set_error ev1 = ev_select_set_error ev"
    "ev_select_set_read ev1 = ev_select_set_read ev" "ev_select_set_write ev1 = ev_select_set_write ev"
proof -
  obtain arr where a: "0 \<le> fd" "mem_set (ev_fdarray ev) (nat fd) None = Some arr" "ev1 = ev\<lparr>ev_fdarray := arr\<rparr>"
    using assms by (auto simp: fdevent_unregister_def fd_index_def split: if_splits)
  show "get_node ev1 x = (if x = fd then None else get_node ev x)" unfolding a(3) by (rule set_node [OF a(2,1)]) simp
qed (use assms in \<open>auto simp: fdevent_unregister_def\<close>)

lemma register_result:
  assumes "fdevent_register ev fd h c = Some ev1"
  shows "get_node ev1 x = (if x = fd then Some \<lparr>fn_handler = h, fn_ctx = c, fn_fd = fd\<rparr> else get_node ev x)" "ev_type ev1 = ev_type ev"
    "ev_select_set_error ev1 = ev_select_set_error ev" "ev_select_set_read ev1 = ev_select_set_read ev"
    "ev_select_set_write ev1 = ev_select_set_write ev" "0 \<le> fd"
proof -
  obtain arr where a: "0 \<le> fd" "mem_set (ev_fdarray ev) (nat fd) (Some \<lparr>fn_handler = h, fn_ctx = c, fn_fd = fd\<rparr>) = Some arr"
    "ev1 = ev\<lparr>ev_fdarray := arr\<rparr>" using assms by (auto simp: fdevent_register_def fd_index_def split: if_splits)
  show "get_node ev1 x = (if x = fd then Some \<lparr>fn_handler = h, fn_ctx = c, fn_fd = fd\<rparr> else get_node ev x)"
    unfolding a(3) by (rule set_node [OF a(2,1)]) auto
  show "0 \<le> fd" by (rule a(1))
qed (use assms in \<open>auto simp: fdevent_register_def\<close>)

section \<open>The invariant\<close>

text \<open>The four parts that have to agree: the table, the connections with the set of those that are open, the server sockets and
  the count.\<close>

definition table_ok :: "(ev_handler, nat) fdevents \<Rightarrow> bool" where
  "table_ok ev = (ev_type ev = FDEVENT_HANDLER_SELECT \<and> ev_select_set_read ev \<union> ev_select_set_write ev \<subseteq> ev_select_set_error ev \<and>
     (\<forall>fd \<in> ev_select_set_error ev. get_node ev fd \<noteq> None))"

definition conn_at :: "(ev_handler, nat) fdevents \<Rightarrow> nat set \<Rightarrow> nat \<Rightarrow> conn \<Rightarrow> bool" where
  "conn_at ev opn a con =
     (if a \<in> opn then c_state con \<noteq> CON_STATE_CONNECT \<and>
        get_node ev (c_fd con) = Some \<lparr>fn_handler = Connection_handle_fdevent, fn_ctx = a, fn_fd = c_fd con\<rparr> \<and>
        (c_fd con \<in> ev_select_set_error ev \<longrightarrow> 0 \<le> c_fde_ndx con)
      else c_state con = CON_STATE_CONNECT \<and> c_fde_ndx con = -1)"

definition conns_ok :: "(ev_handler, nat) fdevents \<Rightarrow> nat set \<Rightarrow> conn list \<Rightarrow> bool" where
  "conns_ok ev opn cons = (\<forall>a < length cons. conn_at ev opn a (cons ! a))"

definition nodes_ok :: "(ev_handler, nat) fdevents \<Rightarrow> nat set \<Rightarrow> conn list \<Rightarrow> bool" where
  "nodes_ok ev opn cons = (\<forall>fd node. get_node ev fd = Some node \<longrightarrow> fn_handler node = Connection_handle_fdevent \<longrightarrow>
     fn_ctx node \<in> opn \<and> c_fd (cons ! fn_ctx node) = fd)"

definition sockets_ok :: "(ev_handler, nat) fdevents \<Rightarrow> server_socket list \<Rightarrow> bool" where
  "sockets_ok ev ss = (\<forall>s \<in> set ss. (ss_fd s \<in> ev_select_set_error ev \<longrightarrow> 0 \<le> ss_fde_ndx s) \<and>
     (0 \<le> ss_fd s \<longrightarrow> (\<exists>node. get_node ev (ss_fd s) = Some node \<and> fn_handler node = Network_server_handle_fdevent)))"

definition srv_inv :: "int \<Rightarrow> srv \<Rightarrow> bool" where
  "srv_inv base srv = (pool_ok (s_pool srv) \<and> table_ok (s_ev srv) \<and>
     conns_ok (s_ev srv) (open_conns (s_pool srv)) (po_obj (s_pool srv)) \<and>
     nodes_ok (s_ev srv) (open_conns (s_pool srv)) (po_obj (s_pool srv)) \<and>
     sockets_ok (s_ev srv) (s_sockets srv) \<and> s_cur_fds srv = base + int (card (open_conns (s_pool srv))))"

definition with_con :: "srv \<Rightarrow> nat \<Rightarrow> conn \<Rightarrow> srv" where
  "with_con srv a con = srv\<lparr>s_pool := (s_pool srv)\<lparr>po_obj := (po_obj (s_pool srv))[a := con]\<rparr>\<rparr>"

lemma with_con_simps [simp]:
  "s_ev (with_con srv a con) = s_ev srv" "s_sockets (with_con srv a con) = s_sockets srv" "s_cur_fds (with_con srv a con) = s_cur_fds srv"
  "po_obj (s_pool (with_con srv a con)) = (po_obj (s_pool srv))[a := con]" "open_conns (s_pool (with_con srv a con)) = open_conns (s_pool srv)"
  "pool_ok (s_pool (with_con srv a con)) = pool_ok (s_pool srv)"
  by (simp_all add: with_con_def open_conns_def pool_ok_def)

lemma get_con_with: "get_con srv a = Some con \<Longrightarrow> with_con srv a con = srv \<and> a < length (po_obj (s_pool srv))"
  by (auto simp: get_con_def with_con_def mem_get_def split: if_splits)

lemma put_con_with: "put_con srv a con = Some srv1 \<Longrightarrow> srv1 = with_con srv a con"
  by (auto simp: put_con_def with_con_def mem_set_def split: if_splits)

lemma open_less: "pool_ok p \<Longrightarrow> a \<in> open_conns p \<Longrightarrow> a < length (po_obj p)"
  using pool_ptr_less [of p] by (auto simp: open_conns_iff pool_ok_def)

text \<open>Only three things about a connection matter here.\<close>

definition alike :: "conn \<Rightarrow> conn \<Rightarrow> bool" where
  "alike con con1 = (c_fd con1 = c_fd con \<and> c_fde_ndx con1 = c_fde_ndx con \<and> (c_state con1 = CON_STATE_CONNECT \<longleftrightarrow> c_state con = CON_STATE_CONNECT))"

lemma same_alike: "same con con1 \<Longrightarrow> alike con con1"
  by (simp add: same_def alike_def)

lemma inv_alike:
  assumes "srv_inv base (with_con srv a con)" "a < length (po_obj (s_pool srv))" "alike con con1" "unmoved srv srv1"
  shows "srv_inv base (with_con srv1 a con1)"
proof -
  let ?l = "po_obj (s_pool srv)"
  have al: "alike (?l[a := con] ! b) (?l[a := con1] ! b)" if "b < length ?l" for b
    using that assms(3) by (cases "b = a") (simp_all add: alike_def)
  have "conn_at (s_ev srv) opn b c1" if "conn_at (s_ev srv) opn b c" "alike c c1" for opn b c c1
    using that by (simp add: conn_at_def alike_def)
  then have "conns_ok (s_ev srv) (open_conns (s_pool srv)) (?l[a := con1])" if "conns_ok (s_ev srv) (open_conns (s_pool srv)) (?l[a := con])"
    using that al unfolding conns_ok_def by (metis length_list_update)
  moreover have "nodes_ok (s_ev srv) (open_conns (s_pool srv)) (?l[a := con1])"
    if "nodes_ok (s_ev srv) (open_conns (s_pool srv)) (?l[a := con])" "pool_ok (s_pool srv)"
    unfolding nodes_ok_def
  proof (intro allI impI)
    fix fd node assume "get_node (s_ev srv) fd = Some node" "fn_handler node = Connection_handle_fdevent"
    then have n: "fn_ctx node \<in> open_conns (s_pool srv)" "c_fd (?l[a := con] ! fn_ctx node) = fd" using that(1) by (auto simp: nodes_ok_def)
    show "fn_ctx node \<in> open_conns (s_pool srv) \<and> c_fd (?l[a := con1] ! fn_ctx node) = fd"
      using n al [OF open_less [OF that(2) n(1)]] by (simp add: alike_def)
  qed
  ultimately show ?thesis using assms(1,4) by (simp add: srv_inv_def unmoved_def)
qed

text \<open>A change of the table that concerns one descriptor only.\<close>

lemma srv_invD:
  assumes "srv_inv base (with_con srv a con)" "a < length (po_obj (s_pool srv))"
  shows "a \<in> open_conns (s_pool srv) \<longleftrightarrow> c_state con \<noteq> CON_STATE_CONNECT"
    "a \<in> open_conns (s_pool srv) \<Longrightarrow> get_node (s_ev srv) (c_fd con) = Some \<lparr>fn_handler = Connection_handle_fdevent, fn_ctx = a, fn_fd = c_fd con\<rparr>"
    "a \<in> open_conns (s_pool srv) \<Longrightarrow> c_fd con \<in> ev_select_set_error (s_ev srv) \<Longrightarrow> 0 \<le> c_fde_ndx con"
    "a \<notin> open_conns (s_pool srv) \<Longrightarrow> c_fde_ndx con = -1"
    "pool_ok (s_pool srv)" "table_ok (s_ev srv)" "ev_type (s_ev srv) = FDEVENT_HANDLER_SELECT"
proof -
  have "conns_ok (s_ev srv) (open_conns (s_pool srv)) ((po_obj (s_pool srv))[a := con])" using assms(1) by (simp add: srv_inv_def)
  then have "conn_at (s_ev srv) (open_conns (s_pool srv)) a con" using assms(2) by (auto simp: conns_ok_def)
  then   show "a \<in> open_conns (s_pool srv) \<longleftrightarrow> c_state con \<noteq> CON_STATE_CONNECT"
    "a \<in> open_conns (s_pool srv) \<Longrightarrow> get_node (s_ev srv) (c_fd con) = Some \<lparr>fn_handler = Connection_handle_fdevent, fn_ctx = a, fn_fd = c_fd con\<rparr>"
    "a \<in> open_conns (s_pool srv) \<Longrightarrow> c_fd con \<in> ev_select_set_error (s_ev srv) \<Longrightarrow> 0 \<le> c_fde_ndx con"
    "a \<notin> open_conns (s_pool srv) \<Longrightarrow> c_fde_ndx con = -1"
    by (auto simp: conn_at_def split: if_splits)
  show "pool_ok (s_pool srv)" "table_ok (s_ev srv)" "ev_type (s_ev srv) = FDEVENT_HANDLER_SELECT"
    using assms(1) by (simp_all add: srv_inv_def table_ok_def)
qed

lemma other_fd:
  assumes "conns_ok ev opn cons" "a \<in> opn" "b \<in> opn" "a < length cons" "b < length cons" "a \<noteq> b"
  shows "c_fd (cons ! b) \<noteq> c_fd (cons ! a)"
proof
  assume eq: "c_fd (cons ! b) = c_fd (cons ! a)"
  have "get_node ev (c_fd (cons ! a)) = Some \<lparr>fn_handler = Connection_handle_fdevent, fn_ctx = a, fn_fd = c_fd (cons ! a)\<rparr>"
    "get_node ev (c_fd (cons ! b)) = Some \<lparr>fn_handler = Connection_handle_fdevent, fn_ctx = b, fn_fd = c_fd (cons ! b)\<rparr>"
    using assms by (simp_all add: conns_ok_def conn_at_def)
  then show False using eq assms(6) by simp
qed

text \<open>The connection \<open>a\<close> with descriptor \<open>fd\<close> leaves the table, or only its events change.\<close>

lemma conns_change:
  assumes "conns_ok ev opn (cons[a := con])" "a < length cons" "a \<in> opn"
    and "\<And>x. x \<noteq> c_fd con \<Longrightarrow> get_node ev1 x = get_node ev x" "ev_select_set_error ev1 - {c_fd con} \<subseteq> ev_select_set_error ev"
    and "opn1 = opn \<or> opn1 = opn - {a}"
    and "conn_at ev1 opn1 a con1"
  shows "conns_ok ev1 opn1 (cons[a := con1])"
  unfolding conns_ok_def
proof (intro allI impI)
  fix b assume "b < length (cons[a := con1])"
  then have b: "b < length cons" by simp
  show "conn_at ev1 opn1 b (cons[a := con1] ! b)"
  proof (cases "b = a")
    case False
    then have at: "cons[a := con1] ! b = cons ! b" "cons[a := con] ! b = cons ! b" "b \<in> opn1 \<longleftrightarrow> b \<in> opn" using assms(6) by auto
    have old: "conn_at ev opn b (cons ! b)" using assms(1) b at(2) by (auto simp: conns_ok_def)
    have "c_fd (cons ! b) \<noteq> c_fd con" if "b \<in> opn"
      using other_fd [OF assms(1,3) that _ _ False [symmetric]] assms(2) b at(2) by simp
    then show ?thesis using old at assms(4,5) by (auto simp: conn_at_def)
  qed (use assms(2,7) in simp)
qed

lemma nodes_change:
  assumes "nodes_ok ev opn (cons[a := con])" "a < length cons"
    and "\<And>x. x \<noteq> c_fd con \<Longrightarrow> get_node ev1 x = get_node ev x" "get_node ev1 (c_fd con) = get_node ev (c_fd con) \<or> get_node ev1 (c_fd con) = None"
    and "opn1 = opn \<and> c_fd con1 = c_fd con \<or> opn1 = opn - {a} \<and> get_node ev1 (c_fd con) = None"
  shows "nodes_ok ev1 opn1 (cons[a := con1])"
  unfolding nodes_ok_def
proof (intro allI impI)
  fix fd node assume n: "get_node ev1 fd = Some node" "fn_handler node = Connection_handle_fdevent"
  then have "get_node ev fd = Some node" using assms(3) [of fd] assms(4) by (cases "fd = c_fd con") auto
  then have o: "fn_ctx node \<in> opn" "c_fd (cons[a := con] ! fn_ctx node) = fd" using assms(1) n(2) unfolding nodes_ok_def by blast+
  show "fn_ctx node \<in> opn1 \<and> c_fd (cons[a := con1] ! fn_ctx node) = fd"
  proof (cases "fn_ctx node = a")
    case True
    then have "fd = c_fd con" using o(2) assms(2) by simp
    then show ?thesis using True o assms(2,5) n(1) by auto
  qed (use o assms(5) in auto)
qed

lemma sockets_change:
  assumes "sockets_ok ev ss" "\<And>x. x \<noteq> fd \<Longrightarrow> get_node ev1 x = get_node ev x" "ev_select_set_error ev1 - {fd} \<subseteq> ev_select_set_error ev"
    and "\<And>node. get_node ev fd = Some node \<Longrightarrow> fn_handler node \<noteq> Network_server_handle_fdevent" "0 \<le> fd"
  shows "sockets_ok ev1 ss"
  unfolding sockets_ok_def
proof
  fix s assume "s \<in> set ss"
  then have s: "ss_fd s \<in> ev_select_set_error ev \<longrightarrow> 0 \<le> ss_fde_ndx s"
    "0 \<le> ss_fd s \<longrightarrow> (\<exists>node. get_node ev (ss_fd s) = Some node \<and> fn_handler node = Network_server_handle_fdevent)"
    using assms(1) by (auto simp: sockets_ok_def)
  then have "ss_fd s \<noteq> fd" using assms(4,5) by auto
  then show "(ss_fd s \<in> ev_select_set_error ev1 \<longrightarrow> 0 \<le> ss_fde_ndx s) \<and>
      (0 \<le> ss_fd s \<longrightarrow> (\<exists>node. get_node ev1 (ss_fd s) = Some node \<and> fn_handler node = Network_server_handle_fdevent))"
    using s assms(2,3) by auto
qed

lemma table_change:
  assumes "table_ok ev" "ev_type ev1 = FDEVENT_HANDLER_SELECT" "\<And>x. x \<noteq> fd \<Longrightarrow> get_node ev1 x = get_node ev x"
    and "ev_select_set_error ev1 - {fd} = ev_select_set_error ev - {fd}" "fd \<in> ev_select_set_error ev1 \<longrightarrow> get_node ev1 fd \<noteq> None"
    and "ev_select_set_read ev1 \<union> ev_select_set_write ev1 \<subseteq> ev_select_set_error ev1"
  shows "table_ok ev1"
  unfolding table_ok_def
proof (intro conjI ballI)
  fix x assume "x \<in> ev_select_set_error ev1"
  then show "get_node ev1 x \<noteq> None"
    using assms(1,3,4,5) unfolding table_ok_def by (cases "x = fd") (auto simp del: not_None_eq)
qed (use assms in auto)

lemma del_sets:
  assumes "fdevent_event_del ev k fd = Some (ev1, k1)" "table_ok ev" "fd \<in> ev_select_set_error ev \<longrightarrow> 0 \<le> k"
  shows "ev_select_set_error ev1 = ev_select_set_error ev - {fd}" "ev_select_set_read ev1 \<union> ev_select_set_write ev1 \<subseteq> ev_select_set_error ev1"
proof -
  have t: "ev_type ev = FDEVENT_HANDLER_SELECT" "ev_select_set_read ev \<union> ev_select_set_write ev \<subseteq> ev_select_set_error ev"
    using assms(2) by (simp_all add: table_ok_def)
  note e = del_result [OF assms(1) t(1)]
  have "ev_select_set_error ev1 = ev_select_set_error ev - {fd} \<and> ev_select_set_read ev1 \<union> ev_select_set_write ev1 \<subseteq> ev_select_set_error ev1"
  proof (cases "k < 0")
    case True
    then show ?thesis using e(4) t(2) assms(3) by simp
  next
    case False
    then have k: "k \<ge> 0" by simp
    show ?thesis unfolding e(5) [OF k] e(6) [OF k] using t(2) by blast
  qed
  then show "ev_select_set_error ev1 = ev_select_set_error ev - {fd}" "ev_select_set_read ev1 \<union> ev_select_set_write ev1 \<subseteq> ev_select_set_error ev1"
    by blast+
qed

section \<open>Closing and waiting\<close>

lemma inv_close:
  assumes "srv_inv base (with_con srv a con)" "a < length (po_obj (s_pool srv))" "c_state con \<noteq> CON_STATE_CONNECT"
    and "connection_close srv a con = Some (con1, srv1)"
  shows "srv_inv base (with_con srv1 a con1)" "length (po_obj (s_pool srv1)) = length (po_obj (s_pool srv))"
    "open_conns (s_pool srv1) = open_conns (s_pool srv) - {a}"
proof -
  note d = srv_invD [OF assms(1,2)]
  let ?opn = "open_conns (s_pool srv)" and ?l = "po_obj (s_pool srv)" and ?fd = "c_fd con"
  have a: "a \<in> ?opn" using d(1) assms(3) by simp
  obtain p where p: "connection_del (s_pool srv) (Some a) = Some (0, p)" "pool_ok p" "open_conns p = ?opn - {a}" "po_obj p = ?l"
    using connection_del_ok [OF d(5) a] by blast
  obtain ev1 ev2 k where ev: "fdevent_event_del (s_ev srv) (c_fde_ndx con) ?fd = Some (ev1, k)" "fdevent_unregister ev1 ?fd = Some ev2"
    and r: "con1 = connection_set_state (con\<lparr>c_fde_ndx := k\<rparr>) CON_STATE_CONNECT"
      "srv1 = srv\<lparr>s_ev := ev2, s_closed := s_closed srv @ [?fd], s_cur_fds := s_cur_fds srv - 1, s_pool := p\<rparr>"
    using assms(4) p(1) by (auto simp: connection_close_def)
  note e = del_result [OF ev(1) d(7)] and u = unregister_result [OF ev(2)]
  have node: "get_node ev2 x = (if x = ?fd then None else get_node (s_ev srv) x)" for x using u(1) get_node_cong [OF e(3)] by simp
  have err: "ev_select_set_error ev2 = ev_select_set_error (s_ev srv) - {?fd}"
    "ev_select_set_read ev2 \<union> ev_select_set_write ev2 \<subseteq> ev_select_set_error ev2"
    using del_sets [OF ev(1) d(6)] d(3) [OF a] u(3-5) by simp_all
  have parts: "conns_ok (s_ev srv) ?opn (?l[a := con])" "nodes_ok (s_ev srv) ?opn (?l[a := con])" "sockets_ok (s_ev srv) (s_sockets srv)"
    "s_cur_fds srv = base + int (card ?opn)" using assms(1) by (simp_all add: srv_inv_def)
  have "conn_at ev2 (?opn - {a}) a con1" using e(1) r(1) by (simp add: conn_at_def connection_set_state_def)
  then have "conns_ok ev2 (?opn - {a}) (?l[a := con1])"
    by (intro conns_change [OF parts(1) assms(2) a]) (auto simp: node err)
  moreover have "nodes_ok ev2 (?opn - {a}) (?l[a := con1])" by (rule nodes_change [OF parts(2) assms(2)]) (auto simp: node)
  moreover have "sockets_ok ev2 (s_sockets srv)"
    by (rule sockets_change [OF parts(3)]) (use d(2) [OF a] node_fd [OF d(2) [OF a]] in \<open>auto simp: node err\<close>)
  moreover have "table_ok ev2" using u(2) e(2) by (intro table_change [OF d(6), where fd = ?fd]) (use err in \<open>auto simp: node\<close>)
  moreover have "int (card (?opn - {a})) = int (card ?opn) - 1"
  proof -
    have fin: "finite ?opn" by (simp add: open_conns_def)
    then have "card ?opn > 0" using a card_gt_0_iff by blast
    then show ?thesis using a fin by (simp add: card_Diff_singleton)
  qed
  ultimately show "srv_inv base (with_con srv1 a con1)" using p(2,3,4) parts(4) r(2) by (simp add: srv_inv_def)
  show "length (po_obj (s_pool srv1)) = length ?l" "open_conns (s_pool srv1) = ?opn - {a}" using r(2) p(3,4) by simp_all
qed

lemma inv_wait_in:
  assumes "srv_inv base (with_con srv a con)" "a < length (po_obj (s_pool srv))" "c_state con \<noteq> CON_STATE_CONNECT"
    and "wait_in con srv e = Some (con1, srv1)" "e \<in> {FDEVENT_IN, FDEVENT_OUT}"
  shows "srv_inv base (with_con srv1 a con1)"
proof -
  note d = srv_invD [OF assms(1,2)]
  let ?opn = "open_conns (s_pool srv)" and ?l = "po_obj (s_pool srv)" and ?fd = "c_fd con"
  have a: "a \<in> ?opn" using d(1) assms(3) by simp
  obtain ev1 k where ev: "fdevent_event_add (s_ev srv) (c_fde_ndx con) ?fd e = Some (ev1, k)"
    and r: "con1 = con\<lparr>c_fde_ndx := k\<rparr>" "srv1 = srv\<lparr>s_ev := ev1\<rparr>" using assms(4) by (auto simp: wait_in_def)
  note e = add_result [OF ev d(7) assms(5)]
  have node: "get_node ev1 x = get_node (s_ev srv) x" for x by (rule get_node_cong [OF e(4)])
  have parts: "conns_ok (s_ev srv) ?opn (?l[a := con])" "nodes_ok (s_ev srv) ?opn (?l[a := con])" "sockets_ok (s_ev srv) (s_sockets srv)"
    "s_cur_fds srv = base + int (card ?opn)" using assms(1) by (simp_all add: srv_inv_def)
  have "conn_at ev1 ?opn a con1" using e(1,2) r(1) a d(2) [OF a] assms(3) by (simp add: conn_at_def node)
  then have "conns_ok ev1 ?opn (?l[a := con1])"
    by (intro conns_change [OF parts(1) assms(2) a]) (auto simp: node e(5))
  moreover have "nodes_ok ev1 ?opn (?l[a := con1])" by (rule nodes_change [OF parts(2) assms(2)]) (use r(1) in \<open>auto simp: node\<close>)
  moreover have "sockets_ok ev1 (s_sockets srv)"
    by (rule sockets_change [OF parts(3)]) (use d(2) [OF a] e(2) in \<open>auto simp: node e(5)\<close>)
  moreover have "table_ok ev1"
  proof (rule table_change [OF d(6) e(3)])
    show "ev_select_set_read ev1 \<union> ev_select_set_write ev1 \<subseteq> ev_select_set_error ev1"
      using e(5,6) d(6) by (auto simp: table_ok_def)
  qed (use e(5) d(2) [OF a] in \<open>auto simp: node\<close>)
  ultimately show ?thesis using d(5) parts(4) r(2) by (simp add: srv_inv_def)
qed

lemma inv_wait_not:
  assumes "srv_inv base (with_con srv a con)" "a < length (po_obj (s_pool srv))" "wait_not con srv = Some (con1, srv1)"
  shows "srv_inv base (with_con srv1 a con1)"
proof -
  note d = srv_invD [OF assms(1,2)]
  let ?opn = "open_conns (s_pool srv)" and ?l = "po_obj (s_pool srv)" and ?fd = "c_fd con"
  obtain ev1 k where ev: "fdevent_event_del (s_ev srv) (c_fde_ndx con) ?fd = Some (ev1, k)"
    and r: "con1 = con\<lparr>c_fde_ndx := k\<rparr>" "srv1 = srv\<lparr>s_ev := ev1\<rparr>" using assms(3) by (auto simp: wait_not_def)
  note e = del_result [OF ev d(7)]
  show ?thesis
  proof (cases "a \<in> ?opn")
    case False
    then have "ev1 = s_ev srv" "con1 = con" using d(4) e(1,4) r(1) by simp_all
    then show ?thesis using assms(1) r(2) by (simp add: srv_inv_def)
  next
    case a: True
    have node: "get_node ev1 x = get_node (s_ev srv) x" for x by (rule get_node_cong [OF e(3)])
    have err: "ev_select_set_error ev1 = ev_select_set_error (s_ev srv) - {?fd}" "ev_select_set_read ev1 \<union> ev_select_set_write ev1 \<subseteq> ev_select_set_error ev1"
      using del_sets [OF ev d(6)] d(3) [OF a] by simp_all
    have parts: "conns_ok (s_ev srv) ?opn (?l[a := con])" "nodes_ok (s_ev srv) ?opn (?l[a := con])" "sockets_ok (s_ev srv) (s_sockets srv)"
      "s_cur_fds srv = base + int (card ?opn)" using assms(1) by (simp_all add: srv_inv_def)
    have "conn_at ev1 ?opn a con1" using r(1) a d(1) d(2) [OF a] by (simp add: conn_at_def node err)
    then have "conns_ok ev1 ?opn (?l[a := con1])" by (intro conns_change [OF parts(1) assms(2) a]) (auto simp: node err)
    moreover have "nodes_ok ev1 ?opn (?l[a := con1])" by (rule nodes_change [OF parts(2) assms(2)]) (use r(1) in \<open>auto simp: node\<close>)
    moreover have "sockets_ok ev1 (s_sockets srv)"
      by (rule sockets_change [OF parts(3)]) (use d(2) [OF a] node_fd [OF d(2) [OF a]] in \<open>auto simp: node err\<close>)
    moreover have "table_ok ev1" using e(2) by (intro table_change [OF d(6), where fd = ?fd]) (use err in \<open>auto simp: node\<close>)
    ultimately show ?thesis using d(5) parts(4) r(2) by (simp add: srv_inv_def)
  qed
qed

section \<open>The state machine\<close>

abbreviation held :: "int \<Rightarrow> nat \<Rightarrow> nat \<Rightarrow> conn \<Rightarrow> srv \<Rightarrow> bool" where
  "held base len a con srv \<equiv> srv_inv base (with_con srv a con) \<and> a < len \<and> length (po_obj (s_pool srv)) = len"

lemma held_alike: "held base len a con srv \<Longrightarrow> alike con con1 \<Longrightarrow> unmoved srv srv1 \<Longrightarrow> held base len a con1 srv1"
  using inv_alike [of base srv a con con1 srv1] by (auto simp: unmoved_def)

lemma held_step:
  assumes "calm_machine m" "held base len a con srv" "machine_step m an n a con srv = Some (b, con1, srv1)"
  shows "held base len a con1 srv1"
  using step_cases [OF assms(1,3)]
proof
  assume "quiet con srv con1 srv1"
  then have "alike con con1" "unmoved srv srv1" by (auto simp: quiet_def alike_def)
  then show ?thesis by (rule held_alike [OF assms(2)])
next
  assume "closes a con srv con1 srv1"
  then obtain con2 srv2 con3 srv3 where c: "c_state con \<in> {CON_STATE_RESPONSE_END, CON_STATE_CLOSE, CON_STATE_ERROR}" "same con con2"
    "unmoved srv srv2" "connection_close srv2 a con2 = Some (con3, srv3)" "c_fd con1 = c_fd con3" "c_fde_ndx con1 = c_fde_ndx con3"
    "c_state con1 = c_state con3" "unmoved srv3 srv1" unfolding closes_def by blast
  have h2: "held base len a con2 srv2" by (rule held_alike [OF assms(2) same_alike [OF c(2)] c(3)])
  have "c_state con2 \<noteq> CON_STATE_CONNECT" using c(1,2) by (auto simp: same_def)
  then have "held base len a con3 srv3" using inv_close [OF _ _ _ c(4), of base] h2 by simp
  moreover have "alike con3 con1" using c(5-7) by (simp add: alike_def)
  ultimately show ?thesis using held_alike c(8) by blast
qed

lemmas machine_loop_induct = machine_loop.raw_induct [rotated, consumes 1, case_names 1]

lemma held_loop:
  assumes "machine_loop m an n a con srv = Some r" "calm_machine m" "held base len a con srv"
  shows "held base len a (fst (snd r)) (snd (snd r))"
  using assms
proof (induction m an n a con srv r rule: machine_loop_induct)
  case (1 f m an n a con srv r)
  obtain b con1 srv1 where st: "machine_step m an n a con srv = Some (b, con1, srv1)" using 1(2) by auto
  note h = held_step [OF 1(3,4) st]
  show ?case
  proof (cases "b \<or> c_state con1 \<noteq> c_state con")
    case True
    then have "f m an (Suc n) a con1 srv1 = Some r" using 1(2) st by (auto split: if_splits)
    then show ?thesis using 1(1,3) h by blast
  next
    case False
    then have "r = (Suc n, con1, srv1)" using 1(2) st by simp
    then show ?thesis using h by simp
  qed
qed

lemma held_wait:
  assumes "held base len a con srv" "wait_events con srv = Some (con1, srv1)"
  shows "held base len a con1 srv1"
proof -
  have "s_pool srv1 = s_pool srv" using assms(2) by (auto simp: wait_events_def wait_in_def wait_not_def split: if_splits)
  moreover have "srv_inv base (with_con srv1 a con1)"
  proof (cases "c_state con = CON_STATE_READ_POST \<or> c_state con = CON_STATE_READ \<or> c_state con = CON_STATE_CLOSE")
    case True
    then have "wait_in con srv FDEVENT_IN = Some (con1, srv1)" "c_state con \<noteq> CON_STATE_CONNECT" using assms(2) by (auto simp: wait_events_def)
    then show ?thesis using inv_wait_in [of base srv a con FDEVENT_IN] assms(1) by simp
  next
    case notin: False
    show ?thesis
    proof (cases "wait_in con srv FDEVENT_OUT = Some (con1, srv1) \<and> c_state con = CON_STATE_WRITE")
      case True
      then show ?thesis using inv_wait_in [of base srv a con FDEVENT_OUT] assms(1) by simp
    next
      case False
      then have "wait_not con srv = Some (con1, srv1)" using assms(2) notin by (simp add: wait_events_def split: if_splits)
      then show ?thesis using inv_wait_not assms(1) by blast
    qed
  qed
  ultimately show ?thesis using assms(1) by simp
qed

lemma inv_put: "held base len a con srv \<Longrightarrow> put_con srv a con = Some srv1 \<Longrightarrow> srv_inv base srv1 \<and> length (po_obj (s_pool srv1)) = len"
  using put_con_with [of srv a con srv1] by simp

lemma inv_get: "srv_inv base srv \<Longrightarrow> get_con srv a = Some con \<Longrightarrow> held base (length (po_obj (s_pool srv))) a con srv"
  using get_con_with [of srv a con] by simp

lemma inv_machine:
  assumes "calm_machine m" "srv_inv base srv" "connection_state_machine m an n a srv = Some (n1, srv1)"
  shows "srv_inv base srv1 \<and> length (po_obj (s_pool srv1)) = length (po_obj (s_pool srv))"
proof -
  obtain con con1 s1 con2 s2 where r: "get_con srv a = Some con" "machine_loop m an n a con srv = Some (n1, con1, s1)"
    "wait_events con1 s1 = Some (con2, s2)" "put_con s2 a con2 = Some srv1"
    using assms(3) by (auto simp: connection_state_machine_def)
  have "held base (length (po_obj (s_pool srv))) a con1 s1"
    using held_loop [OF r(2) assms(1) inv_get [OF assms(2) r(1)]] by simp
  from inv_put [OF held_wait [OF this r(3)] r(4)] show ?thesis .
qed

lemma inv_on_con:
  assumes "srv_inv base srv" "on_con f a srv = Some srv1" "\<And>con. same con (f con)"
  shows "srv_inv base srv1 \<and> length (po_obj (s_pool srv1)) = length (po_obj (s_pool srv))"
proof -
  obtain con where r: "get_con srv a = Some con" "put_con srv a (f con) = Some srv1" using assms(2) by (auto simp: on_con_def)
  have "held base (length (po_obj (s_pool srv))) a (f con) srv"
    by (rule held_alike [OF inv_get [OF assms(1) r(1)] same_alike [OF assms(3)]]) simp
  from inv_put [OF this r(2)] show ?thesis .
qed

section \<open>Accepting\<close>

lemma get_new_result:
  assumes "pool_ok p" "connections_get_new_connection ini rst p = Some (a, p1)"
  shows "pool_ok p1" "a \<notin> open_conns p" "open_conns p1 = insert a (open_conns p)" "a < length (po_obj p1)"
    "\<exists>k con. po_obj p1 = (po_obj p @ replicate k ini)[a := con]"
proof -
  have run: "connections_get_new_connection ini (\<lambda>c. Some (the (rst c))) p = Some (a, p1)"
    using assms(2) by (auto simp: connections_get_new_connection_def Let_def)
  obtain a' p' where "connections_get_new_connection ini (\<lambda>c. Some (the (rst c))) p = Some (a', p')" "pool_ok p'" "a' \<notin> open_conns p"
    "open_conns p' = insert a' (open_conns p)"
    using get_new_ok [OF assms(1), of "\<lambda>c. Some (the (rst c))" "\<lambda>c. the (rst c)" ini] by blast
  with run show ok: "pool_ok p1" "a \<notin> open_conns p" "open_conns p1 = insert a (open_conns p)" by simp_all
  then show "a < length (po_obj p1)" using open_less [of p1 a] by simp
  have "\<exists>k. po_obj (pool_grow ini p) = po_obj p @ replicate k ini"
    by (auto simp: pool_grow_def pool_fill_def Let_def intro: exI [of _ 0])
  then show "\<exists>k con. po_obj p1 = (po_obj p @ replicate k ini)[a := con]"
    using assms(2) by (auto simp: connections_get_new_connection_def Let_def mem_set_def split: if_splits) blast+
qed

definition accept_fresh :: "answers \<Rightarrow> bool" where
  "accept_fresh an = (\<forall>n srv. fst (an_accept an n srv) = -1 \<or> get_node (s_ev srv) (fst (an_accept an n srv)) = None)"

lemma init_closed: "connection_init dirs conf0 = Some con \<Longrightarrow> c_state con = CON_STATE_CONNECT \<and> c_fde_ndx con = -1"
  by (auto simp: connection_init_def config_setup_connection_def)

lemma conns_insert:
  assumes "conns_ok ev opn l" "\<And>b. b \<in> opn \<Longrightarrow> b < length l" "c_state ini = CON_STATE_CONNECT" "c_fde_ndx ini = -1"
    and "fdevent_register ev fd Connection_handle_fdevent a = Some ev1" "get_node ev fd = None" "fd \<notin> ev_select_set_error ev"
    and "a < length (l @ replicate k ini)" "c_fd con = fd" "c_state con \<noteq> CON_STATE_CONNECT"
  shows "conns_ok ev1 (insert a opn) ((l @ replicate k ini)[a := con])"
  unfolding conns_ok_def
proof (intro allI impI)
  note e = register_result [OF assms(5)]
  fix b assume "b < length ((l @ replicate k ini)[a := con])"
  then have b: "b < length (l @ replicate k ini)" by simp
  have old: "conn_at ev opn b ((l @ replicate k ini) ! b)"
  proof (cases "b < length l")
    case True
    then show ?thesis using assms(1) by (simp add: conns_ok_def nth_append)
  next
    case False
    then have "b \<notin> opn" using assms(2) by blast
    then show ?thesis using False b assms(3,4) by (simp add: conn_at_def nth_append)
  qed
  show "conn_at ev1 (insert a opn) b ((l @ replicate k ini)[a := con] ! b)"
  proof (cases "b = a")
    case True
    then show ?thesis using assms(7-10) by (simp add: conn_at_def e)
  next
    case False
    then show ?thesis using old assms(6) by (auto simp: conn_at_def e split: if_splits)
  qed
qed

lemma nodes_insert:
  assumes "nodes_ok ev opn l" "\<And>b. b \<in> opn \<Longrightarrow> b < length l" "a \<notin> opn" "fdevent_register ev fd Connection_handle_fdevent a = Some ev1"
    and "a < length (l @ replicate k ini)" "c_fd con = fd"
  shows "nodes_ok ev1 (insert a opn) ((l @ replicate k ini)[a := con])"
  unfolding nodes_ok_def
proof (intro allI impI)
  fix x node assume n: "get_node ev1 x = Some node" "fn_handler node = Connection_handle_fdevent"
  show "fn_ctx node \<in> insert a opn \<and> c_fd ((l @ replicate k ini)[a := con] ! fn_ctx node) = x"
  proof (cases "x = fd")
    case True
    then have "fn_ctx node = a" using n(1) by (auto simp: register_result [OF assms(4)])
    then show ?thesis using True assms(5,6) by simp
  next
    case False
    then have "fn_ctx node \<in> opn" "c_fd (l ! fn_ctx node) = x" using n assms(1) by (auto simp: register_result [OF assms(4)] nodes_ok_def)
    moreover have "fn_ctx node < length l" "fn_ctx node \<noteq> a" using calculation assms(2,3) by auto
    ultimately show ?thesis by (simp add: nth_append)
  qed
qed

lemma inv_accept:
  assumes "srv_inv base srv" "connection_accept m fd ok srv = Some (r, srv1)" "fd = -1 \<or> get_node (s_ev srv) fd = None"
  shows "srv_inv base srv1"
proof (cases "po_used (s_pool srv) \<ge> s_max_conns srv \<or> fd = -1")
  case True
  then show ?thesis using assms(1,2) by (auto simp: connection_accept_def split: if_splits)
next
  case False
  let ?ev = "s_ev srv" and ?opn = "open_conns (s_pool srv)" and ?l = "po_obj (s_pool srv)"
  obtain ini a p con ev where r: "connection_init (mx_tempdirs m) (mx_conf m) = Some ini"
    "connections_get_new_connection ini (connection_reset (mx_reset m) (mx_conf m)) (s_pool srv) = Some (a, p)"
    "mem_get (po_obj p) a = Some con" "fdevent_register ?ev fd Connection_handle_fdevent a = Some ev"
    and put: "put_con (srv\<lparr>s_cur_fds := s_cur_fds srv + 1, s_con_opened := s_con_opened srv + 1, s_pool := p, s_ev := ev\<rparr>) a
      (connection_set_state (con\<lparr>c_fd := fd, c_fde_ndx := -1, c_connection_start := s_cur_ts srv\<rparr>) CON_STATE_REQUEST_START) = Some srv1"
    using assms(2) False by (auto simp: connection_accept_def get_con_def Let_def)
  let ?con = "connection_set_state (con\<lparr>c_fd := fd, c_fde_ndx := -1, c_connection_start := s_cur_ts srv\<rparr>) CON_STATE_REQUEST_START"
  have inv: "pool_ok (s_pool srv)" "table_ok ?ev" "conns_ok ?ev ?opn ?l" "nodes_ok ?ev ?opn ?l" "sockets_ok ?ev (s_sockets srv)"
    "s_cur_fds srv = base + int (card ?opn)" using assms(1) by (simp_all add: srv_inv_def)
  have free: "get_node ?ev fd = None" "fd \<notin> ev_select_set_error ?ev" using assms(3) False inv(2) by (auto simp: table_ok_def)
  note p = get_new_result [OF inv(1) r(2)] and e = register_result [OF r(4)]
  obtain k c where l: "po_obj p = (?l @ replicate k ini)[a := c]" using p(5) by blast
  then have l1: "(po_obj p)[a := ?con] = (?l @ replicate k ini)[a := ?con]" and len: "a < length (?l @ replicate k ini)" using p(4) by simp_all
  have in_l: "b < length ?l" if "b \<in> ?opn" for b using open_less [OF inv(1) that] .
  have "conns_ok ev (insert a ?opn) ((po_obj p)[a := ?con])" unfolding l1
    by (rule conns_insert [OF inv(3) in_l _ _ r(4) free len]) (use init_closed [OF r(1)] in \<open>auto simp: connection_set_state_def\<close>)
  moreover have "nodes_ok ev (insert a ?opn) ((po_obj p)[a := ?con])" unfolding l1
    by (rule nodes_insert [OF inv(4) in_l p(2) r(4) len]) (simp_all add: connection_set_state_def)
  moreover have "sockets_ok ev (s_sockets srv)" by (rule sockets_change [OF inv(5), where fd = fd]) (use free e in auto)
  moreover have "table_ok ev" by (rule table_change [OF inv(2), where fd = fd]) (use inv(2) free e in \<open>auto simp: table_ok_def\<close>)
  moreover have "card (insert a ?opn) = card ?opn + 1" using p(2) by (simp add: open_conns_def)
  ultimately show ?thesis using put_con_with [OF put] p(1,3) inv(6) by (simp add: srv_inv_def)
qed

section \<open>The loops\<close>

text \<open>Only these fields of the server matter.\<close>

lemma inv_cong:
  "s_pool srv1 = s_pool srv \<Longrightarrow> s_ev srv1 = s_ev srv \<Longrightarrow> s_sockets srv1 = s_sockets srv \<Longrightarrow> s_cur_fds srv1 = s_cur_fds srv \<Longrightarrow>
   srv_inv base srv \<Longrightarrow> srv_inv base srv1"
  by (simp add: srv_inv_def)

lemma inv_accept_loop:
  assumes "calm_machine m" "accept_fresh an" "srv_inv base srv" "accept_loop m an k n srv = Some (n1, srv1)"
  shows "srv_inv base srv1"
  using assms(3,4)
proof (induction k arbitrary: n srv)
  case (Suc k)
  let ?fd = "fst (an_accept an n srv)"
  obtain r s1 where acc: "connection_accept m ?fd (snd (an_accept an n srv)) srv = Some (r, s1)" using Suc.prems(2) by auto
  have i1: "srv_inv base s1" using inv_accept [OF Suc.prems(1) acc] assms(2) by (simp add: accept_fresh_def)
  show ?case
  proof (cases r)
    case None
    then show ?thesis using Suc.prems(2) acc i1 by simp
  next
    case (Some a)
    then obtain n2 s2 s3 where r: "connection_state_machine m an n a s1 = Some (n2, s2)" "on_con (mx_joblist m) a s2 = Some s3"
      "accept_loop m an k n2 s3 = Some (n1, srv1)" using Suc.prems(2) acc by auto
    have "srv_inv base s3" using inv_on_con [OF _ r(2), of base] inv_machine [OF assms(1) i1 r(1)] assms(1)
      by (auto simp: calm_machine_def calm_def)
    then show ?thesis using Suc.IH r(3) by blast
  qed
qed simp

lemmas job_loop_induct = job_loop.raw_induct [rotated, consumes 1, case_names 1]
lemmas timeout_loop_induct = timeout_loop.raw_induct [rotated, consumes 1, case_names 1]

lemma inv_job_loop:
  assumes "job_loop m an n k srv = Some r" "calm_machine m" "srv_inv base srv"
  shows "srv_inv base (snd r)"
  using assms
proof (induction m an n k srv r rule: job_loop_induct)
  case (1 f m an n k srv r)
  show ?case
  proof (cases "k < cs_used (s_joblist srv)")
    case True
    then obtain a n1 s1 s2 where st: "connection_state_machine m an n a srv = Some (n1, s1)" "on_con (mx_joblist m) a s1 = Some s2"
      "f m an n1 (Suc k) s2 = Some r" using 1(2) by auto
    have "srv_inv base s2" using inv_on_con [OF _ st(2), of base] inv_machine [OF 1(3,4) st(1)] 1(3)
      by (auto simp: calm_machine_def calm_def)
    then show ?thesis using 1(1) st(3) 1(3) by blast
  next
    case False
    then have "snd r = srv\<lparr>s_joblist := (s_joblist srv)\<lparr>cs_used := 0\<rparr>\<rparr>" using 1(2) by auto
    then show ?thesis using inv_cong [OF _ _ _ _ 1(4)] by simp
  qed
qed

lemma inv_wait_loop:
  assumes "calm_machine m" "srv_inv base srv" "wait_loop m an n k srv = Some (n1, srv1)"
  shows "srv_inv base srv1"
  using assms(2,3)
proof (induction k arbitrary: n srv)
  case (Suc k)
  obtain r q where un: "fdwaitqueue_unshift (s_fdwaitqueue srv) = Some (r, q)" using Suc.prems(2) by auto
  show ?case
  proof (cases r)
    case None
    then show ?thesis using Suc.prems un by simp
  next
    case (Some a)
    then obtain n2 s2 where st: "connection_state_machine m an n a (srv\<lparr>s_fdwaitqueue := q\<rparr>) = Some (n2, s2)"
      "wait_loop m an n2 k (s2\<lparr>s_want_fds := s_want_fds s2 - 1\<rparr>) = Some (n1, srv1)" using Suc.prems(2) un by auto
    have "srv_inv base (srv\<lparr>s_fdwaitqueue := q\<rparr>)" by (rule inv_cong [OF _ _ _ _ Suc.prems(1)]) simp_all
    then have "srv_inv base s2" using inv_machine [OF assms(1) _ st(1)] by blast
    then have "srv_inv base (s2\<lparr>s_want_fds := s_want_fds s2 - 1\<rparr>)" by (rule inv_cong [rotated 4]) simp_all
    then show ?thesis using Suc.IH st(2) by blast
  qed
qed simp

lemma inv_check_timeout:
  assumes "calm_machine m" "srv_inv base srv" "check_timeout m an n a srv = Some (n1, srv1)"
  shows "srv_inv base srv1"
proof -
  obtain con where con: "get_con srv a = Some con" using assms(3) by (auto simp: check_timeout_def)
  let ?t = "timed_out (s_cur_ts srv) con"
  define con1 where "con1 = (if ?t then connection_set_state con CON_STATE_ERROR else con)"
  define con2 where "con2 = (if limit_over (s_cur_ts srv) con1 then con1\<lparr>c_traffic_limit_reached := False\<rparr> else con1)"
  have "c_state con \<noteq> CON_STATE_CONNECT" if ?t using that by (auto simp: timed_out_def)
  then have al: "alike con con2" by (auto simp: con1_def con2_def alike_def connection_set_state_def)
  show ?thesis
  proof (cases "?t \<or> limit_over (s_cur_ts srv) con1")
    case True
    have "do { s1 \<leftarrow> put_con srv a con2; connection_state_machine m an n a s1 } = Some (n1, srv1)"
      using assms(3) con True unfolding con2_def con1_def check_timeout_def Let_def by (simp del: bind_eq_Some)
    then obtain s1 where st: "put_con srv a con2 = Some s1" "connection_state_machine m an n a s1 = Some (n1, srv1)" by auto
    have "srv_inv base s1" using inv_put [OF held_alike [OF inv_get [OF assms(2) con] al, of srv] st(1)] by simp
    then show ?thesis using inv_machine [OF assms(1) _ st(2)] by blast
  qed (use assms(2,3) con in \<open>auto simp: check_timeout_def con1_def split: if_splits\<close>)
qed

lemma inv_begin_second:
  assumes "srv_inv base srv" "begin_second a srv = Some srv1"
  shows "srv_inv base srv1"
proof -
  obtain con where r: "get_con srv a = Some con"
    "put_con (srv\<lparr>s_global_cnt := (s_global_cnt srv)(cf_global_cnt (c_conf con) := 0)\<rparr>) a (con\<lparr>c_bytes_written_cur_second := 0\<rparr>) = Some srv1"
    using assms(2) by (auto simp: begin_second_def)
  let ?srv = "srv\<lparr>s_global_cnt := (s_global_cnt srv)(cf_global_cnt (c_conf con) := 0)\<rparr>"
  have "alike con (con\<lparr>c_bytes_written_cur_second := 0\<rparr>)" "unmoved srv ?srv" by (simp_all add: alike_def unmoved_def)
  from inv_put [OF held_alike [OF inv_get [OF assms(1) r(1)] this] r(2)] show ?thesis by simp
qed

lemma inv_timeout_loop:
  assumes "timeout_loop m an n k srv = Some r" "calm_machine m" "srv_inv base srv"
  shows "srv_inv base (snd r)"
  using assms
proof (induction m an n k srv r rule: timeout_loop_induct)
  case (1 f m an n k srv r)
  show ?case
  proof (cases "k < po_used (s_pool srv)")
    case True
    then obtain a n1 s1 s2 where st: "check_timeout m an n a srv = Some (n1, s1)"
      "begin_second a s1 = Some s2" "f m an n1 (Suc k) s2 = Some r" using 1(2) by auto
    have "srv_inv base s2" by (rule inv_begin_second [OF inv_check_timeout [OF 1(3,4) st(1)] st(2)])
    then show ?thesis using 1(1) st(3) 1(3) by blast
  qed (use 1(2,4) in auto)
qed

lemma inv_new_second:
  assumes "calm_machine m" "srv_inv base srv" "new_second m an n now srv = Some (n1, srv1)"
  shows "srv_inv base srv1"
proof (cases "now = s_cur_ts srv")
  case False
  then obtain sc where run: "timeout_loop m an n 0 (srv\<lparr>s_cur_ts := now, s_stat_cache := sc\<rparr>) = Some (n1, srv1)"
    using assms(3) by (auto simp: new_second_def)
  have "srv_inv base (srv\<lparr>s_cur_ts := now, s_stat_cache := sc\<rparr>)" by (rule inv_cong [OF _ _ _ _ assms(2)]) simp_all
  from inv_timeout_loop [OF run assms(1) this] show ?thesis by simp
qed (use assms(2,3) in \<open>simp add: new_second_def\<close>)

section \<open>The server sockets\<close>

lemma enable_result:
  assumes "enable_sockets ev ss = Some (ev1, ss1)" "ev_type ev = FDEVENT_HANDLER_SELECT"
  shows "ev_type ev1 = FDEVENT_HANDLER_SELECT \<and> ev_fdarray ev1 = ev_fdarray ev \<and>
    ev_select_set_error ev1 = ev_select_set_error ev \<union> ss_fd ` set ss \<and>
    ev_select_set_read ev1 \<union> ev_select_set_write ev1 \<subseteq> ev_select_set_read ev \<union> ev_select_set_write ev \<union> ss_fd ` set ss \<and>
    ss1 = map (\<lambda>s. s\<lparr>ss_fde_ndx := ss_fd s\<rparr>) ss \<and> (\<forall>s \<in> set ss. 0 \<le> ss_fd s)"
  using assms
proof (induction ss arbitrary: ev ss1)
  case (Cons s ss)
  obtain e2 k ss2 where st: "fdevent_event_add ev (ss_fde_ndx s) (ss_fd s) FDEVENT_IN = Some (e2, k)" "enable_sockets e2 ss = Some (ev1, ss2)"
    "ss1 = s\<lparr>ss_fde_ndx := k\<rparr> # ss2" using Cons.prems(1) by auto
  note a = add_result [OF st(1) Cons.prems(2)]
  have IH: "ev_type ev1 = FDEVENT_HANDLER_SELECT" "ev_fdarray ev1 = ev_fdarray e2" "ev_select_set_error ev1 = ev_select_set_error e2 \<union> ss_fd ` set ss"
    "ev_select_set_read ev1 \<union> ev_select_set_write ev1 \<subseteq> ev_select_set_read e2 \<union> ev_select_set_write e2 \<union> ss_fd ` set ss"
    "ss2 = map (\<lambda>s. s\<lparr>ss_fde_ndx := ss_fd s\<rparr>) ss" "\<forall>s \<in> set ss. 0 \<le> ss_fd s" using Cons.IH [OF st(2) a(3)] by simp_all
  have "ev_select_set_read ev1 \<union> ev_select_set_write ev1 \<subseteq> ev_select_set_read ev \<union> ev_select_set_write ev \<union> ss_fd ` set (s # ss)"
    using IH(4) a(6) by auto
  then show ?case using IH a st(3) by simp
qed simp

lemma inv_enable:
  assumes "srv_inv base srv" "enable_sockets (s_ev srv) (s_sockets srv) = Some (ev, ss)"
  shows "srv_inv base (srv\<lparr>s_ev := ev, s_sockets := ss, s_sockets_disabled := b\<rparr>)"
proof -
  have inv: "table_ok (s_ev srv)" "conns_ok (s_ev srv) (open_conns (s_pool srv)) (po_obj (s_pool srv))"
    "nodes_ok (s_ev srv) (open_conns (s_pool srv)) (po_obj (s_pool srv))" "sockets_ok (s_ev srv) (s_sockets srv)"
    using assms(1) by (simp_all add: srv_inv_def)
  have e: "ev_type ev = FDEVENT_HANDLER_SELECT" "ev_fdarray ev = ev_fdarray (s_ev srv)"
    "ev_select_set_error ev = ev_select_set_error (s_ev srv) \<union> ss_fd ` set (s_sockets srv)"
    "ev_select_set_read ev \<union> ev_select_set_write ev \<subseteq> ev_select_set_read (s_ev srv) \<union> ev_select_set_write (s_ev srv) \<union> ss_fd ` set (s_sockets srv)"
    "ss = map (\<lambda>s. s\<lparr>ss_fde_ndx := ss_fd s\<rparr>) (s_sockets srv)" "\<forall>s \<in> set (s_sockets srv). 0 \<le> ss_fd s"
    using enable_result [OF assms(2)] inv(1) by (simp_all add: table_ok_def)
  have node: "get_node ev x = get_node (s_ev srv) x" for x by (rule get_node_cong [OF e(2)])
  have sock: "\<exists>node. get_node (s_ev srv) x = Some node \<and> fn_handler node = Network_server_handle_fdevent" if "x \<in> ss_fd ` set (s_sockets srv)" for x
    using that inv(4) e(6) by (auto simp: sockets_ok_def)
  have "table_ok ev" using inv(1) e(1,4) sock unfolding table_ok_def node e(3) by blast
  moreover have "conns_ok ev (open_conns (s_pool srv)) (po_obj (s_pool srv))"
    using inv(2) sock unfolding conns_ok_def conn_at_def node e(3) by fastforce
  moreover have "nodes_ok ev (open_conns (s_pool srv)) (po_obj (s_pool srv))" using inv(3) by (simp add: nodes_ok_def node)
  moreover have "sockets_ok ev ss" using sock e(6) by (auto simp: sockets_ok_def node e(5))
  ultimately show ?thesis using assms(1) by (simp add: srv_inv_def)
qed

text \<open>A socket that is not watched any more, and closed when the server stops.\<close>

definition sock_weak :: "(ev_handler, nat) fdevents \<Rightarrow> server_socket \<Rightarrow> bool" where
  "sock_weak ev s = ((ss_fd s \<in> ev_select_set_error ev \<longrightarrow> 0 \<le> ss_fde_ndx s) \<and>
     (\<forall>node. get_node ev (ss_fd s) = Some node \<longrightarrow> fn_handler node = Network_server_handle_fdevent))"

definition shrinks :: "(ev_handler, nat) fdevents \<Rightarrow> (ev_handler, nat) fdevents \<Rightarrow> bool" where
  "shrinks ev ev1 = (ev_select_set_error ev1 \<subseteq> ev_select_set_error ev \<and>
     (\<forall>x. get_node ev1 x = get_node ev x \<or> get_node ev1 x = None \<and> (\<forall>node. get_node ev x = Some node \<longrightarrow> fn_handler node = Network_server_handle_fdevent)))"

lemma shrinks_trans:
  assumes "shrinks e1 e2" "shrinks e2 e3"
  shows "shrinks e1 e3"
  unfolding shrinks_def
proof (intro conjI allI)
  show "ev_select_set_error e3 \<subseteq> ev_select_set_error e1" using assms by (auto simp: shrinks_def)
  fix x
  show "get_node e3 x = get_node e1 x \<or> get_node e3 x = None \<and> (\<forall>node. get_node e1 x = Some node \<longrightarrow> fn_handler node = Network_server_handle_fdevent)"
    using assms(1) [unfolded shrinks_def, THEN conjunct2, rule_format, of x] assms(2) [unfolded shrinks_def, THEN conjunct2, rule_format, of x] by auto
qed

lemma shrinks_weak: "shrinks ev ev1 \<Longrightarrow> sock_weak ev s \<Longrightarrow> sock_weak ev1 s"
  unfolding shrinks_def sock_weak_def by (metis option.distinct(1) subsetD)

lemma not_negative: "table_ok ev \<Longrightarrow> -1 \<notin> ev_select_set_error ev"
  unfolding table_ok_def by (auto simp: get_node_def fd_index_def)

lemma del_shrinks:
  assumes "fdevent_event_del ev k fd = Some (ev1, k1)" "table_ok ev" "fd \<in> ev_select_set_error ev \<longrightarrow> 0 \<le> k"
  shows "table_ok ev1" "shrinks ev ev1" "k1 = -1" "fd \<notin> ev_select_set_error ev1" "ev_fdarray ev1 = ev_fdarray ev"
proof -
  note e = del_result [OF assms(1)] and d = del_sets [OF assms]
  have t: "ev_type ev = FDEVENT_HANDLER_SELECT" using assms(2) by (simp add: table_ok_def)
  have node: "get_node ev1 x = get_node ev x" for x by (rule get_node_cong [OF e(3) [OF t]])
  show "table_ok ev1" by (rule table_change [OF assms(2) e(2) [OF t], where fd = fd]) (use d node in auto)
  show "shrinks ev ev1" "fd \<notin> ev_select_set_error ev1" using d(1) node by (auto simp: shrinks_def)
qed (use del_result [OF assms(1)] assms(2) in \<open>simp_all add: table_ok_def\<close>)

lemma disable_one:
  assumes "fdevent_event_del ev (ss_fde_ndx s) (ss_fd s) = Some (e1, k)" "table_ok ev" "sock_weak ev s"
    and "(if g then do { e \<leftarrow> fdevent_unregister e1 (ss_fd s); Some (e, cl @ [ss_fd s], s\<lparr>ss_fde_ndx := k, ss_fd := -1\<rparr>) }
      else Some (e1, cl, s\<lparr>ss_fde_ndx := k\<rparr>)) = Some (e2, cl2, s2)"
  shows "table_ok e2" "shrinks ev e2" "ss_fde_ndx s2 = -1" "sock_weak e2 s2" "if g then ss_fd s2 = -1 else ss_fd s2 = ss_fd s \<and> ev_fdarray e2 = ev_fdarray ev"
proof -
  have "ss_fd s \<in> ev_select_set_error ev \<longrightarrow> 0 \<le> ss_fde_ndx s" using assms(3) by (simp add: sock_weak_def)
  note d = del_shrinks [OF assms(1,2) this]
  have "table_ok e2 \<and> shrinks ev e2 \<and> ss_fde_ndx s2 = -1 \<and> sock_weak e2 s2 \<and> (if g then ss_fd s2 = -1 else ss_fd s2 = ss_fd s \<and> ev_fdarray e2 = ev_fdarray ev)"
  proof (cases g)
    case False
    then have "e2 = e1" "s2 = s\<lparr>ss_fde_ndx := -1\<rparr>" using assms(4) d(3) by auto
    then show ?thesis using d False shrinks_weak [OF d(2) assms(3)] by (simp add: sock_weak_def)
  next
    case True
    then have un: "fdevent_unregister e1 (ss_fd s) = Some e2" and s2: "s2 = s\<lparr>ss_fde_ndx := -1, ss_fd := -1\<rparr>" using assms(4) d(3) by auto
    note u = unregister_result [OF un]
    have t1: "ev_type e1 = FDEVENT_HANDLER_SELECT" "ev_select_set_read e1 \<union> ev_select_set_write e1 \<subseteq> ev_select_set_error e1" using d(1) by (simp_all add: table_ok_def)
    have t2: "table_ok e2" by (rule table_change [OF d(1), where fd = "ss_fd s"]) (use u t1 d(4) in auto)
    have "shrinks e1 e2" using shrinks_weak [OF d(2) assms(3)] by (auto simp: shrinks_def u sock_weak_def)
    moreover have "sock_weak e2 s2" using not_negative [OF t2] s2 by (auto simp: sock_weak_def get_node_def fd_index_def)
    ultimately show ?thesis using True t2 shrinks_trans [OF d(2)] s2 by simp
  qed
  then show "table_ok e2" "shrinks ev e2" "ss_fde_ndx s2 = -1" "sock_weak e2 s2"
    "if g then ss_fd s2 = -1 else ss_fd s2 = ss_fd s \<and> ev_fdarray e2 = ev_fdarray ev" by blast+
qed

lemma disable_result:
  assumes "disable_sockets g ev cl ss = Some (ev1, cl1, ss1)" "table_ok ev" "\<forall>s \<in> set ss. sock_weak ev s"
  shows "table_ok ev1 \<and> shrinks ev ev1 \<and> (\<forall>s \<in> set ss1. ss_fde_ndx s = -1 \<and> sock_weak ev1 s) \<and>
    (if g then \<forall>s \<in> set ss1. ss_fd s = -1 else map ss_fd ss1 = map ss_fd ss \<and> ev_fdarray ev1 = ev_fdarray ev)"
  using assms
proof (induction ss arbitrary: ev cl ss1)
  case Nil
  then show ?case by (simp add: shrinks_def)
next
  case (Cons s ss)
  obtain e1 k e2 cl2 s2 ss2 where st: "fdevent_event_del ev (ss_fde_ndx s) (ss_fd s) = Some (e1, k)"
    "(if g then do { e \<leftarrow> fdevent_unregister e1 (ss_fd s); Some (e, cl @ [ss_fd s], s\<lparr>ss_fde_ndx := k, ss_fd := -1\<rparr>) }
      else Some (e1, cl, s\<lparr>ss_fde_ndx := k\<rparr>)) = Some (e2, cl2, s2)"
    "disable_sockets g e2 cl2 ss = Some (ev1, cl1, ss2)" "ss1 = s2 # ss2"
    using Cons.prems(1) by (auto simp del: if_split simp: bind_eq_Some)
  have weak: "sock_weak ev s" using Cons.prems(3) by simp
  note o = disable_one [OF st(1) Cons.prems(2) weak st(2)]
  have "\<forall>x \<in> set ss. sock_weak e2 x" using Cons.prems(3) shrinks_weak [OF o(2)] by simp
  note IH = Cons.IH [OF st(3) o(1) this]
  then have "shrinks ev ev1" "sock_weak ev1 s2" using shrinks_trans [OF o(2)] shrinks_weak [OF _ o(4)] by blast+
  then show ?case using IH o(3,5) st(4) by (cases g) auto
qed

lemma inv_disable:
  assumes "srv_inv base srv" "disable_sockets g (s_ev srv) cl (s_sockets srv) = Some (ev, cl1, ss)"
  shows "srv_inv base (srv\<lparr>s_ev := ev, s_closed := cl1, s_sockets := ss, s_sockets_disabled := b\<rparr>)"
proof -
  have inv: "table_ok (s_ev srv)" "conns_ok (s_ev srv) (open_conns (s_pool srv)) (po_obj (s_pool srv))"
    "nodes_ok (s_ev srv) (open_conns (s_pool srv)) (po_obj (s_pool srv))" "sockets_ok (s_ev srv) (s_sockets srv)"
    using assms(1) by (simp_all add: srv_inv_def)
  have "\<forall>s \<in> set (s_sockets srv). sock_weak (s_ev srv) s"
    using inv(4) node_fd unfolding sockets_ok_def sock_weak_def by (metis option.inject)
  note d = disable_result [OF assms(2) inv(1) this]
  have sh: "get_node ev x = get_node (s_ev srv) x \<or> get_node ev x = None \<and> (\<forall>node. get_node (s_ev srv) x = Some node \<longrightarrow> fn_handler node = Network_server_handle_fdevent)"
    "ev_select_set_error ev \<subseteq> ev_select_set_error (s_ev srv)" for x using d by (auto simp: shrinks_def)
  have "conn_at ev opn a con" if "conn_at (s_ev srv) opn a con" for opn a con
    using that sh(1) [of "c_fd con"] sh(2) by (auto simp: conn_at_def split: if_splits)
  then have "conns_ok ev (open_conns (s_pool srv)) (po_obj (s_pool srv))" using inv(2) by (simp add: conns_ok_def)
  moreover have "nodes_ok ev (open_conns (s_pool srv)) (po_obj (s_pool srv))"
    using inv(3) sh(1) unfolding nodes_ok_def by (metis option.distinct(1))
  moreover have "sockets_ok ev ss" unfolding sockets_ok_def
  proof
    fix s assume s: "s \<in> set ss"
    then have w: "ss_fde_ndx s = -1" "sock_weak ev s" using d by blast+
    have "\<exists>node. get_node ev (ss_fd s) = Some node \<and> fn_handler node = Network_server_handle_fdevent" if fd: "0 \<le> ss_fd s"
    proof -
      have g: "\<not> g" using d s fd by fastforce
      then have eq: "map ss_fd ss = map ss_fd (s_sockets srv)" "ev_fdarray ev = ev_fdarray (s_ev srv)" using d by simp_all
      have "ss_fd s \<in> ss_fd ` set (s_sockets srv)" using s eq(1) by (metis image_eqI list.set_map)
      then show ?thesis using inv(4) fd get_node_cong [OF eq(2)] by (auto simp: sockets_ok_def)
    qed
    then show "(ss_fd s \<in> ev_select_set_error ev \<longrightarrow> 0 \<le> ss_fde_ndx s) \<and>
        (0 \<le> ss_fd s \<longrightarrow> (\<exists>node. get_node ev (ss_fd s) = Some node \<and> fn_handler node = Network_server_handle_fdevent))"
      using w by (simp add: sock_weak_def)
  qed
  ultimately show ?thesis using assms(1) d by (simp add: srv_inv_def)
qed

lemma inv_switch:
  assumes "srv_inv base srv" "switch_sockets g srv = Some srv1"
  shows "srv_inv base srv1"
  using assms inv_enable [OF assms(1)] inv_disable [OF assms(1)] by (auto simp: switch_sockets_def split: if_splits)

section \<open>The events\<close>

lemma alike_trans: "alike a b \<Longrightarrow> alike b c \<Longrightarrow> alike a c"
  by (simp add: alike_def)

lemma note_events_alike: "c_state con \<noteq> CON_STATE_CONNECT \<Longrightarrow> alike con (note_events revents con)"
  by (auto simp: note_events_def alike_def connection_set_state_def Let_def)

lemma quiet_alike: "quiet con srv con1 srv1 \<Longrightarrow> alike con con1 \<and> unmoved srv srv1"
  by (auto simp: quiet_def alike_def)

lemma inv_handle_fdevent:
  assumes "srv_inv base srv" "a \<in> open_conns (s_pool srv)" "connection_handle_fdevent m an n a revents srv = Some (r, srv1)"
  shows "srv_inv base srv1"
proof -
  obtain con s1 where st: "get_con srv a = Some con" "job_append m srv a = Some s1"
    using assms(3) by (auto simp: connection_handle_fdevent_def)
  let ?c1 = "note_events revents con"
  obtain c2 where c2: "(if c_state ?c1 = CON_STATE_READ \<or> c_state ?c1 = CON_STATE_READ_POST then do {
         (_, c, _) \<leftarrow> connection_handle_read_state (an_upload an n) (s_cur_ts s1) (an_read an n) ?c1;
         Some c } else Some ?c1) = Some c2"
    using assms(3) st by (auto simp: connection_handle_fdevent_def Let_def simp del: if_split)
  obtain c3 s3 where c3: "(if c_state c2 = CON_STATE_WRITE then write_now m (an_net an n) a c2 s1 else Some (c2, s1)) = Some (c3, s3)"
    and put: "put_con s3 a (if c_state c3 = CON_STATE_CLOSE \<and> \<not> an_fionread an n > 0 then c3\<lparr>c_close_timeout_ts := 0\<rparr> else c3) = Some srv1"
    using assms(3) st c2 by (auto simp: connection_handle_fdevent_def Let_def simp del: if_split)
  have h: "held base (length (po_obj (s_pool srv))) a con srv" by (rule inv_get [OF assms(1) st(1)])
  then have "c_state con \<noteq> CON_STATE_CONNECT" using srv_invD(1) [of base srv a con] assms(2) by simp
  then have h1: "held base (length (po_obj (s_pool srv))) a ?c1 s1"
    by (intro held_alike [OF h note_events_alike job_append_unmoved [OF st(2)]])
  have "alike ?c1 c2 \<and> unmoved s1 s1"
  proof (cases "c_state ?c1 = CON_STATE_READ \<or> c_state ?c1 = CON_STATE_READ_POST")
    case True
    then have "step_read (an_upload an n) (an_read an n) ?c1 s1 = Some (False, c2, s1)" using c2 by (auto simp: step_read_def split: bind_splits prod.splits)
    then show ?thesis using quiet_alike [OF step_read_quiet] True by blast
  qed (use c2 in \<open>simp add: alike_def\<close>)
  then have h2: "held base (length (po_obj (s_pool srv))) a c2 s1" using held_alike [OF h1] by blast
  have "alike c2 c3 \<and> unmoved s1 s3"
  proof (cases "c_state c2 = CON_STATE_WRITE")
    case True
    then show ?thesis using quiet_alike [OF step_write_quiet [OF True]] c3 by simp
  qed (use c3 in \<open>simp add: alike_def\<close>)
  then have h3: "held base (length (po_obj (s_pool srv))) a c3 s3" using held_alike [OF h2] by blast
  have "held base (length (po_obj (s_pool srv))) a (if c_state c3 = CON_STATE_CLOSE \<and> \<not> an_fionread an n > 0 then c3\<lparr>c_close_timeout_ts := 0\<rparr> else c3) s3"
    by (rule held_alike [OF h3]) (simp_all add: alike_def)
  from inv_put [OF this put] show ?thesis by simp
qed

lemma event_loop_inv:
  assumes "event_loop ev_of call k ndx s = Some s1" "P s"
    and "\<And>s fd node r s1. P s \<Longrightarrow> get_node (ev_of s) fd = Some node \<Longrightarrow> call s (fn_handler node) (fn_ctx node) r = Some s1 \<Longrightarrow> P s1"
  shows "P s1"
  using assms(1,2)
proof (induction k arbitrary: ndx s)
  case (Suc k)
  then obtain ndx1 fd node r s2 where st: "get_node (ev_of s) fd = Some node" "call s (fn_handler node) (fn_ctx node) r = Some s2"
    "event_loop ev_of call k ndx1 s2 = Some s1" by (auto simp: fdevent_get_handler_def fdevent_get_context_def)
  show ?case by (rule Suc.IH [OF st(3) assms(3) [OF Suc.prems(2) st(1,2)]])
qed simp

lemma inv_call:
  assumes "calm_machine m" "accept_fresh an" "srv_inv base (snd s)" "get_node (s_ev (snd s)) fd = Some node"
    and "call_handler m an s (fn_handler node) (fn_ctx node) r = Some s1"
  shows "srv_inv base (snd s1)"
proof (cases "fn_handler node")
  case Connection_handle_fdevent
  then have "fn_ctx node \<in> open_conns (s_pool (snd s))" using assms(3,4) unfolding srv_inv_def nodes_ok_def by blast
  then show ?thesis using inv_handle_fdevent [OF assms(3)] assms(5) Connection_handle_fdevent by (auto simp: call_handler_def)
next
  case Network_server_handle_fdevent
  then show ?thesis using inv_accept_loop [OF assms(1-3)] assms(5)
    by (auto simp: call_handler_def network_server_handle_fdevent_def split: if_splits)
qed

lemma inv_poll:
  assumes "srv_inv base srv" "fdevent_poll sel (s_ev srv) = Some (k, ev)"
  shows "srv_inv base (srv\<lparr>s_ev := ev\<rparr>)"
proof -
  have e: "ev_type ev = ev_type (s_ev srv)" "ev_fdarray ev = ev_fdarray (s_ev srv)" "ev_select_set_error ev = ev_select_set_error (s_ev srv)"
    "ev_select_set_read ev = ev_select_set_read (s_ev srv)" "ev_select_set_write ev = ev_select_set_write (s_ev srv)"
    using assms(2) by (auto simp: fdevent_poll_def fdevent_select_poll_def split: if_splits prod.splits)
  have "get_node ev x = get_node (s_ev srv) x" for x by (rule get_node_cong [OF e(2)])
  then show ?thesis using assms(1) e by (simp add: srv_inv_def table_ok_def conns_ok_def conn_at_def nodes_ok_def sockets_ok_def)
qed

lemma inv_main_turn:
  assumes "calm_machine m" "accept_fresh an" "srv_inv base srv" "main_turn m an t n srv = Some r"
  shows "srv_inv base (fst (snd r))"
proof -
  obtain na sa sb nc sc k ev nd sd where st:
    "(case tn_alarm t of None \<Rightarrow> Some (n, srv) | Some now \<Rightarrow> new_second m an n now srv) = Some (na, sa)"
    "switch_sockets (tn_graceful t) sa = Some sb"
    "(if s_want_fds sb \<noteq> 0 then wait_loop m an na (nat (s_max_fds sb - s_cur_fds sb - 16)) sb else Some (na, sb)) = Some (nc, sc)"
    "fdevent_poll (tn_select t) (s_ev sc) = Some (k, ev)"
    "event_loop (\<lambda>s. s_ev (snd s)) (call_handler m an) (nat k) (-1) (nc, sc\<lparr>s_ev := ev\<rparr>) = Some (nd, sd)"
    "job_loop m an nd 0 sd = Some (fst r, fst (snd r))"
    using assms(4) unfolding main_turn_def Let_def by (auto simp del: if_split split del: option.split)
  have "srv_inv base sa" using st(1) assms(3) inv_new_second [OF assms(1,3)] by (auto split: option.splits)
  then have "srv_inv base sb" using inv_switch st(2) by blast
  then have "srv_inv base sc" using st(3) inv_wait_loop [OF assms(1)] by (auto split: if_splits)
  then have "srv_inv base (snd (nc, sc\<lparr>s_ev := ev\<rparr>))" using inv_poll st(4) by simp
  from event_loop_inv [OF st(5), of "\<lambda>s. srv_inv base (snd s)", OF this] inv_call [OF assms(1,2)]
  have "srv_inv base sd" by fastforce
  from inv_job_loop [OF st(6) assms(1) this] show ?thesis by simp
qed

section \<open>The states the server reaches\<close>

definition only_sockets :: "(ev_handler, nat) fdevents \<Rightarrow> bool" where
  "only_sockets ev = (\<forall>fd node. get_node ev fd = Some node \<longrightarrow> fn_handler node = Network_server_handle_fdevent)"

lemma register_one:
  assumes "fdevent_register ev fd Network_server_handle_fdevent i = Some e1" "fdevent_event_add e1 k fd FDEVENT_IN = Some (e2, k1)" "table_ok ev"
  shows "table_ok e2" "only_sockets ev \<longrightarrow> only_sockets e2" "k1 = fd" "0 \<le> fd" "get_node e2 fd \<noteq> None" "get_node ev x \<noteq> None \<Longrightarrow> get_node e2 x \<noteq> None"
proof -
  note r = register_result [OF assms(1)]
  have t: "ev_type ev = FDEVENT_HANDLER_SELECT" "ev_select_set_read ev \<union> ev_select_set_write ev \<subseteq> ev_select_set_error ev"
    using assms(3) by (simp_all add: table_ok_def)
  have "ev_type e1 = FDEVENT_HANDLER_SELECT" using r(2) t(1) by simp
  note a = add_result [OF assms(2) this, simplified]
  have node: "get_node e2 x = (if x = fd then Some \<lparr>fn_handler = Network_server_handle_fdevent, fn_ctx = i, fn_fd = fd\<rparr> else get_node ev x)" for x
    using get_node_cong [OF a(4)] r(1) by simp
  show "table_ok e2" by (rule table_change [OF assms(3) a(3), where fd = fd]) (use a(5,6) r(3-5) t(2) in \<open>auto simp: node\<close>)
  show "only_sockets ev \<longrightarrow> only_sockets e2" "get_node e2 fd \<noteq> None" "get_node ev x \<noteq> None \<Longrightarrow> get_node e2 x \<noteq> None"
    by (auto simp: only_sockets_def node split: if_splits)
  show "k1 = fd" "0 \<le> fd" by (rule a(1), rule a(2))
qed

lemma register_sockets_result:
  assumes "register_sockets ev i ss = Some (ev1, ss1)" "table_ok ev" "only_sockets ev"
  shows "table_ok ev1 \<and> only_sockets ev1 \<and> (\<forall>x. get_node ev x \<noteq> None \<longrightarrow> get_node ev1 x \<noteq> None) \<and>
    (\<forall>s \<in> set ss1. ss_fde_ndx s = ss_fd s \<and> 0 \<le> ss_fd s \<and> get_node ev1 (ss_fd s) \<noteq> None)"
  using assms
proof (induction ss arbitrary: ev i ss1)
  case (Cons s ss)
  obtain e1 e2 k ss2 where st: "fdevent_register ev (ss_fd s) Network_server_handle_fdevent i = Some e1"
    "fdevent_event_add e1 (ss_fde_ndx s) (ss_fd s) FDEVENT_IN = Some (e2, k)" "register_sockets e2 (Suc i) ss = Some (ev1, ss2)"
    "ss1 = s\<lparr>ss_fde_ndx := k\<rparr> # ss2" using Cons.prems(1) by auto
  note o = register_one [OF st(1,2) Cons.prems(2)]
  have IH: "table_ok ev1" "only_sockets ev1" "\<And>x. get_node e2 x \<noteq> None \<Longrightarrow> get_node ev1 x \<noteq> None"
    "\<And>s. s \<in> set ss2 \<Longrightarrow> ss_fde_ndx s = ss_fd s \<and> 0 \<le> ss_fd s \<and> get_node ev1 (ss_fd s) \<noteq> None"
    using Cons.IH [OF st(3) o(1)] o(2) Cons.prems(3) by blast+
  have "ss_fde_ndx x = ss_fd x \<and> 0 \<le> ss_fd x \<and> get_node ev1 (ss_fd x) \<noteq> None" if "x \<in> set ss1" for x
    using that o(3-5) IH(3,4) unfolding st(4) by (cases "x \<in> set ss2") simp_all
  moreover have "get_node ev1 x \<noteq> None" if "get_node ev x \<noteq> None" for x using IH(3) o(6) that by blast
  ultimately show ?case using IH(1,2) by blast
qed simp

inductive server_reaches :: "machine \<Rightarrow> int \<Rightarrow> srv \<Rightarrow> bool" for m base where
  start: "fdevent_init maxfds FDEVENT_HANDLER_SELECT = Some (s_ev srv) \<Longrightarrow> s_pool srv = pool_init \<Longrightarrow> s_cur_fds srv = base \<Longrightarrow>
    network_register_fdevents srv = Some srv1 \<Longrightarrow> server_reaches m base srv1"
| turn: "server_reaches m base srv \<Longrightarrow> accept_fresh an \<Longrightarrow> main_turn m an t n srv = Some (n1, srv1, stop) \<Longrightarrow>
    server_reaches m base srv1"

lemma inv_start:
  assumes "fdevent_init maxfds FDEVENT_HANDLER_SELECT = Some (s_ev srv)" "s_pool srv = pool_init" "s_cur_fds srv = base"
    and "network_register_fdevents srv = Some srv1"
  shows "srv_inv base srv1"
proof -
  obtain ev ss where r: "register_sockets (fdevent_reset (s_ev srv)) 0 (s_sockets srv) = Some (ev, ss)" "srv1 = srv\<lparr>s_ev := ev, s_sockets := ss\<rparr>"
    using assms(4) by (auto simp: network_register_fdevents_def)
  have "ev_fdarray (fdevent_reset (s_ev srv)) = replicate maxfds None"
    using assms(1) [symmetric] by (simp add: fdevent_init_def fdevent_reset_def fdevent_select_reset_def)
  then have "get_node (fdevent_reset (s_ev srv)) x = None" for x
    by (auto simp: get_node_def fd_index_def mem_get_def split: bind_splits)
  moreover have "table_ok (fdevent_reset (s_ev srv))"
    using assms(1) [symmetric] by (simp add: fdevent_init_def fdevent_reset_def fdevent_select_reset_def table_ok_def)
  ultimately have e: "table_ok ev" "only_sockets ev" "\<forall>s \<in> set ss. ss_fde_ndx s = ss_fd s \<and> 0 \<le> ss_fd s \<and> get_node ev (ss_fd s) \<noteq> None"
    using register_sockets_result [OF r(1)] by (simp_all add: only_sockets_def)
  have "sockets_ok ev ss" using e(2,3) unfolding sockets_ok_def only_sockets_def by fastforce
  moreover have "nodes_ok ev opn l" for opn l using e(2) by (auto simp: nodes_ok_def only_sockets_def)
  moreover have "conns_ok ev opn []" for opn by (simp add: conns_ok_def)
  ultimately show ?thesis using r(2) assms(2,3) e(1) by (simp add: srv_inv_def pool_init_ok) (simp add: pool_init_def)
qed

lemma reaches_inv:
  assumes "calm_machine m" "server_reaches m base srv"
  shows "srv_inv base srv"
  using assms(2)
proof induction
  case (start maxfds srv srv1)
  then show ?case by (rule inv_start)
next
  case (turn srv an t n n1 srv1 stop)
  then show ?case using inv_main_turn [OF assms(1) turn.hyps(2) turn.IH turn.hyps(3)] by simp
qed

section \<open>Properties\<close>

text \<open>C4. For callbacks that change neither the state nor the descriptors nor the events of a connection (\<open>calm_machine\<close>), and
  when \<open>accept\<close> gives -1 or a descriptor that has no handler (\<open>accept_fresh\<close>, part of \<open>server_reaches\<close>): in every state the
  main loop leads to, whatever clients send and the other system calls answer, a connection of the pool is open if and
  only if its state is not \<open>CON_STATE_CONNECT\<close>; an open connection is registered under its descriptor, and a handler
  of a connection belongs to an open connection with that descriptor, so two open connections never share one;
  every descriptor that is passed to \<open>select\<close> has a handler, so that \<open>fdevent_get_handler\<close> does not stop the program; and
  \<open>cur_fds\<close> counts the open connections, beside the descriptors that were open at the start. The callbacks of the model see the connection
  and the stat cache only; \<open>mod_cgi\<close>, \<open>mod_fastcgi\<close>, \<open>mod_proxy\<close> and \<open>mod_scgi\<close>, which open descriptors of their own and register
  handlers for them, or set the state of a connection, are not covered.\<close>

theorem server_invariant:
  assumes "calm_machine m" "server_reaches m base srv"
  shows "(\<forall>a < length (po_obj (s_pool srv)). a \<in> open_conns (s_pool srv) \<longleftrightarrow> c_state (po_obj (s_pool srv) ! a) \<noteq> CON_STATE_CONNECT) \<and>
    (\<forall>a \<in> open_conns (s_pool srv). fdevent_get_handler (s_ev srv) (c_fd (po_obj (s_pool srv) ! a)) = Some Connection_handle_fdevent \<and>
       fdevent_get_context (s_ev srv) (c_fd (po_obj (s_pool srv) ! a)) = Some a) \<and>
    (\<forall>fd a. fdevent_get_handler (s_ev srv) fd = Some Connection_handle_fdevent \<longrightarrow> fdevent_get_context (s_ev srv) fd = Some a \<longrightarrow>
       a \<in> open_conns (s_pool srv) \<and> c_fd (po_obj (s_pool srv) ! a) = fd) \<and>
    (\<forall>fd \<in> ev_select_set_read (s_ev srv) \<union> ev_select_set_write (s_ev srv) \<union> ev_select_set_error (s_ev srv). fdevent_get_handler (s_ev srv) fd \<noteq> None) \<and>
    s_cur_fds srv = base + int (card (open_conns (s_pool srv)))"
proof -
  have inv: "pool_ok (s_pool srv)" "table_ok (s_ev srv)" "conns_ok (s_ev srv) (open_conns (s_pool srv)) (po_obj (s_pool srv))"
    "nodes_ok (s_ev srv) (open_conns (s_pool srv)) (po_obj (s_pool srv))" "s_cur_fds srv = base + int (card (open_conns (s_pool srv)))"
    using reaches_inv [OF assms] by (simp_all add: srv_inv_def)
  have "\<forall>a < length (po_obj (s_pool srv)). a \<in> open_conns (s_pool srv) \<longleftrightarrow> c_state (po_obj (s_pool srv) ! a) \<noteq> CON_STATE_CONNECT"
    using inv(3) by (auto simp: conns_ok_def conn_at_def split: if_splits)
  moreover have "get_node (s_ev srv) (c_fd (po_obj (s_pool srv) ! a)) =
      Some \<lparr>fn_handler = Connection_handle_fdevent, fn_ctx = a, fn_fd = c_fd (po_obj (s_pool srv) ! a)\<rparr>" if "a \<in> open_conns (s_pool srv)" for a
    using inv(3) that open_less [OF inv(1) that] by (simp add: conns_ok_def conn_at_def)
  moreover have "get_node (s_ev srv) fd \<noteq> None"
    if "fd \<in> ev_select_set_read (s_ev srv) \<union> ev_select_set_write (s_ev srv) \<union> ev_select_set_error (s_ev srv)" for fd
    using that inv(2) unfolding table_ok_def by blast
  ultimately show ?thesis using inv(4,5) by (auto simp: fdevent_get_handler_def fdevent_get_context_def nodes_ok_def)
qed

text \<open>A turn in which the listening socket is ready.\<close>

definition sample_turn :: turn where
  "sample_turn = \<lparr>tn_alarm = None, tn_graceful = False, tn_select = (\<lambda>n r w e. (1, {4}, {}, {}))\<rparr>"

theorem server_invariant_witness:
  "\<exists>srv n1 srv1 stop. network_register_fdevents sample_server = Some srv \<and>
     main_turn sample_machine sample_answers sample_turn 0 srv = Some (n1, srv1, stop) \<and>
     s_cur_fds srv1 = 4 \<and> card (open_conns (s_pool srv1)) = 1 \<and>
     (\<forall>fd \<in> ev_select_set_error (s_ev srv1). fdevent_get_handler (s_ev srv1) fd \<noteq> None)"
proof -
  let ?r = "do { srv \<leftarrow> network_register_fdevents sample_server; main_turn sample_machine sample_answers sample_turn 0 srv }"
  have "map_option (\<lambda>(n1, srv1, stop). s_cur_fds srv1) ?r = Some 4" by code_simp
  then obtain srv n1 srv1 stop where r: "network_register_fdevents sample_server = Some srv"
    "main_turn sample_machine sample_answers sample_turn 0 srv = Some (n1, srv1, stop)" "s_cur_fds srv1 = 4" by auto
  have "accept_fresh sample_answers" by (simp add: accept_fresh_def sample_answers_def)
  moreover have "server_reaches sample_machine 3 srv"
    by (rule server_reaches.start [of 16, OF _ _ _ r(1)]) (simp_all add: sample_server_def fdevent_init_def)
  ultimately have "server_reaches sample_machine 3 srv1" using server_reaches.turn [OF _ _ r(2)] by blast
  from server_invariant [OF sample_calm this] r show ?thesis by auto
qed

end
