(* ===== verification/ServerLive.thy ===== *)
theory ServerLive
  imports ServerInv
begin

text \<open>
  What the server does in the end with a connection that has an error or has been silent for too long: it is closed, in at
  most three rounds of the state machine, whatever the client does. The callbacks of the plugins are \<open>tame\<close>: they leave the state and the
  descriptor of a connection alone and keep its queues and arrays well formed; and the connection itself is well formed, \<open>conn_ok\<close>.
\<close>

section \<open>Closing does not fail\<close>

lemma close_total:
  assumes "srv_inv base (with_con srv a con)" "a < length (po_obj (s_pool srv))" "c_state con \<noteq> CON_STATE_CONNECT" "c_fd con < FD_SETSIZE"
  shows "\<exists>srv1. connection_close srv a con = Some (connection_set_state (con\<lparr>c_fde_ndx := -1\<rparr>) CON_STATE_CONNECT, srv1) \<and>
    open_conns (s_pool srv1) = open_conns (s_pool srv) - {a} \<and> get_node (s_ev srv1) (c_fd con) = None \<and>
    s_closed srv1 = s_closed srv @ [c_fd con] \<and> s_cur_ts srv1 = s_cur_ts srv \<and> ev_type (s_ev srv1) = FDEVENT_HANDLER_SELECT \<and>
    length (po_obj (s_pool srv1)) = length (po_obj (s_pool srv))"
proof -
  note d = srv_invD [OF assms(1,2)]
  have a: "a \<in> open_conns (s_pool srv)" using d(1) assms(3) by simp
  obtain p where p: "connection_del (s_pool srv) (Some a) = Some (0, p)" "open_conns p = open_conns (s_pool srv) - {a}" "po_obj p = po_obj (s_pool srv)"
    using connection_del_ok [OF d(5) a] by blast
  have fd: "0 \<le> c_fd con" using node_fd [OF d(2) [OF a]] by simp
  have "\<exists>ev1. fdevent_event_del (s_ev srv) (c_fde_ndx con) (c_fd con) = Some (ev1, -1)"
    using d(7) fd assms(4) by (cases "c_fde_ndx con < 0") (simp_all add: fdevent_event_del_def fdevent_select_event_del_def FD_CLR_def)
  then obtain ev1 where ev: "fdevent_event_del (s_ev srv) (c_fde_ndx con) (c_fd con) = Some (ev1, -1)" by blast
  have "get_node ev1 (c_fd con) \<noteq> None" using get_node_cong [OF del_result(3) [OF ev d(7)]] d(2) [OF a] by simp
  then obtain ev2 where un: "fdevent_unregister ev1 (c_fd con) = Some ev2"
    using fd by (auto simp: fdevent_unregister_def get_node_def fd_index_def mem_get_def mem_set_def split: if_splits)
  show ?thesis using ev un p unregister_result(1,2) [OF un] del_result(2) [OF ev d(7)] by (simp add: connection_close_def)
qed

section \<open>Plugins that keep the structure of a connection\<close>

definition tame :: "machine \<Rightarrow> bool" where
  "tame m = (calm_machine m \<and> (\<forall>con. conn_ok con \<longrightarrow> conn_ok (mx_request_done m con) \<and> conn_ok (mx_connection_close m con) \<and> conn_ok (mx_reset m con)))"

lemma reset_total:
  assumes "tame m" "conn_ok con"
  shows "\<exists>con1. connection_reset (mx_reset m) (mx_conf m) con = Some con1 \<and> conn_ok con1 \<and> same con con1"
proof -
  have "conn_ok (mx_reset m con)" using assms by (simp add: tame_def)
  then obtain con1 where "connection_reset (mx_reset m) (mx_conf m) con = Some con1" "conn_ok con1" by (rule connection_reset_ok)
  then show ?thesis using reset_same(1) assms(1) by (auto simp: tame_def calm_machine_def)
qed

section \<open>The last rounds\<close>

lemma loop_step:
  "machine_step m an n a con srv = Some (b, con1, srv1) \<Longrightarrow>
     machine_loop m an n a con srv = (if b \<or> c_state con1 \<noteq> c_state con then machine_loop m an (Suc n) a con1 srv1 else Some (Suc n, con1, srv1))"
  by (subst machine_loop.simps) simp

lemma connect_loop:
  assumes "c_state con = CON_STATE_CONNECT" "conn_ok con"
  shows "\<exists>con1. machine_loop m an n a con srv = Some (Suc n, con1, srv) \<and> same con con1"
proof -
  have "queue_ok (c_read_queue con)" using assms(2) by (simp add: conn_ok_def)
  then obtain rq where "queue_clear (c_read_queue con) = Some rq"
    by (rule queue_reset_ok) (auto simp: queue_clear_def)
  then have "machine_step m an n a con srv = Some (False, con\<lparr>c_read_queue := rq, c_core := (c_core con)\<lparr>co_request_count := 0\<rparr>\<rparr>, srv)"
    using assms(1) by (simp add: machine_step_def step_connect_def)
  from loop_step [OF this] show ?thesis by (simp add: same_def)
qed

text \<open>Closed: not in the pool, without a handler, and the descriptor has been closed.\<close>

definition gone :: "nat \<Rightarrow> int \<Rightarrow> srv \<Rightarrow> srv \<Rightarrow> bool" where
  "gone a fd srv srv1 = (open_conns (s_pool srv1) = open_conns (s_pool srv) - {a} \<and> fdevent_get_handler (s_ev srv1) fd = None \<and>
     s_closed srv1 = s_closed srv @ [fd])"

lemma close_loop:
  assumes "srv_inv base (with_con srv a con)" "a < length (po_obj (s_pool srv))" "c_fd con < FD_SETSIZE" "conn_ok con"
    and "c_state con = CON_STATE_CLOSE" "\<not> keep_alive_of con" "s_cur_ts srv > 1"
  shows "\<exists>con1 srv1. machine_loop m an n a con srv = Some (n + 2, con1, srv1) \<and> c_state con1 = CON_STATE_CONNECT \<and> c_fde_ndx con1 = -1 \<and>
    gone a (c_fd con) srv srv1 \<and> ev_type (s_ev srv1) = FDEVENT_HANDLER_SELECT \<and> length (po_obj (s_pool srv1)) = length (po_obj (s_pool srv))"
proof -
  let ?c = "con\<lparr>c_close_timeout_ts := 0\<rparr>"
  have "srv_inv base (with_con srv a ?c)" by (rule inv_alike [OF assms(1,2)]) (simp_all add: alike_def)
  from close_total [OF this assms(2)] assms(3,5)
  obtain srv1 where close: "connection_close srv a ?c = Some (connection_set_state (?c\<lparr>c_fde_ndx := -1\<rparr>) CON_STATE_CONNECT, srv1)"
    and r: "open_conns (s_pool srv1) = open_conns (s_pool srv) - {a}" "get_node (s_ev srv1) (c_fd con) = None" "s_closed srv1 = s_closed srv @ [c_fd con]"
      "ev_type (s_ev srv1) = FDEVENT_HANDLER_SELECT" "length (po_obj (s_pool srv1)) = length (po_obj (s_pool srv))" by auto
  let ?con1 = "connection_set_state (?c\<lparr>c_fde_ndx := -1\<rparr>) CON_STATE_CONNECT"
  have st: "machine_step m an n a con srv = Some (False, ?con1, srv1)"
    using assms(5-7) close by (simp add: machine_step_def step_close_def)
  have "conn_ok ?con1" using assms(4) by (simp add: conn_ok_def connection_set_state_def)
  then obtain con2 where "machine_loop m an (Suc n) a ?con1 srv1 = Some (Suc (Suc n), con2, srv1)" "same ?con1 con2"
    using connect_loop [of ?con1 m an "Suc n" a srv1] by (auto simp: connection_set_state_def)
  then show ?thesis using loop_step [OF st] assms(5) r
    by (auto simp: connection_set_state_def same_def gone_def fdevent_get_handler_def)
qed

lemma error_loop:
  assumes "tame m" "srv_inv base (with_con srv a con)" "a < length (po_obj (s_pool srv))" "c_fd con < FD_SETSIZE" "conn_ok con"
    and "c_state con = CON_STATE_ERROR" "s_cur_ts srv > 1"
  shows "\<exists>k con1 srv1. k \<le> n + 3 \<and> machine_loop m an n a con srv = Some (k, con1, srv1) \<and> c_state con1 = CON_STATE_CONNECT \<and> c_fde_ndx con1 = -1 \<and>
    gone a (c_fd con) srv srv1 \<and> ev_type (s_ev srv1) = FDEVENT_HANDLER_SELECT \<and> length (po_obj (s_pool srv1)) = length (po_obj (s_pool srv))"
proof -
  let ?sd = "an_shutdown an n"
  define c2 where "c2 = (let c1 = (if http_status_of con \<noteq> 0 then mx_request_done m con else con)
    in if c_mode c1 = DIRECT then c1 else mx_connection_close m c1)"
  have calm: "same c (mx_request_done m c)" "same c (mx_connection_close m c)" for c using assms(1) by (simp_all add: tame_def calm_machine_def calm_def)
  have ok: "conn_ok (mx_request_done m c)" "conn_ok (mx_connection_close m c)" if "conn_ok c" for c using assms(1) that by (simp_all add: tame_def)
  have c2: "conn_ok c2" by (simp add: c2_def Let_def ok assms(5))
  have s2: "same con c2" unfolding c2_def Let_def using calm by simp (metis same_trans)
  obtain c3 where c3: "connection_reset (mx_reset m) (mx_conf m) c2 = Some c3" "conn_ok c3" "same c2 c3"
    using reset_total [OF assms(1) c2] by blast
  then have s3: "same con c3" using s2 same_trans by blast
  have step: "machine_step m an n a con srv = do {
      (con4, srv1) \<leftarrow> (if keep_alive_of c3 \<and> ?sd = 0
        then Some (connection_set_state (c3\<lparr>c_close_timeout_ts := s_cur_ts srv\<rparr>) CON_STATE_CLOSE, srv) else connection_close srv a c3);
      Some (False, no_keep_alive con4, srv1\<lparr>s_con_closed := s_con_closed srv1 + 1\<rparr>) }"
    using assms(6) c3(1) unfolding c2_def by (simp add: machine_step_def step_error_def Let_def)
  have i3: "srv_inv base (with_con srv a c3)" by (rule inv_alike [OF assms(2,3) same_alike [OF s3]]) simp
  show ?thesis
  proof (cases "keep_alive_of c3 \<and> ?sd = 0")
    case True
    let ?c4 = "no_keep_alive (connection_set_state (c3\<lparr>c_close_timeout_ts := s_cur_ts srv\<rparr>) CON_STATE_CLOSE)"
    let ?s4 = "srv\<lparr>s_con_closed := s_con_closed srv + 1\<rparr>"
    have st: "machine_step m an n a con srv = Some (False, ?c4, ?s4)"
      unfolding step using True by simp
    have i4: "srv_inv base (with_con ?s4 a ?c4)"
      by (rule inv_alike [OF i3 assms(3)]) (use s3 assms(6) in \<open>simp_all add: alike_def same_def connection_set_state_def unmoved_def\<close>)
    have "conn_ok ?c4" using c3(2) by (simp add: conn_ok_def connection_set_state_def)
    then obtain con1 srv1 where l: "machine_loop m an (Suc n) a ?c4 ?s4 = Some (Suc n + 2, con1, srv1)" "c_state con1 = CON_STATE_CONNECT" "c_fde_ndx con1 = -1"
      "gone a (c_fd ?c4) ?s4 srv1" "ev_type (s_ev srv1) = FDEVENT_HANDLER_SELECT" "length (po_obj (s_pool srv1)) = length (po_obj (s_pool ?s4))"
      using close_loop [OF i4, of m an "Suc n"] assms(3,4,7) s3 by (auto simp: connection_set_state_def same_def)
    have "machine_loop m an n a con srv = Some (n + 3, con1, srv1)" using loop_step [OF st] l(1) assms(6) by (simp add: connection_set_state_def)
    then show ?thesis using l s3 by (auto simp: gone_def connection_set_state_def same_def)
  next
    case False
    have "c_state c3 \<noteq> CON_STATE_CONNECT" "c_fd c3 < FD_SETSIZE" using s3 assms(4,6) by (simp_all add: same_def)
    from close_total [OF i3 assms(3) this]
    obtain srv1 where close: "connection_close srv a c3 = Some (connection_set_state (c3\<lparr>c_fde_ndx := -1\<rparr>) CON_STATE_CONNECT, srv1)"
      and r: "open_conns (s_pool srv1) = open_conns (s_pool srv) - {a}" "get_node (s_ev srv1) (c_fd c3) = None" "s_closed srv1 = s_closed srv @ [c_fd c3]"
        "ev_type (s_ev srv1) = FDEVENT_HANDLER_SELECT" "length (po_obj (s_pool srv1)) = length (po_obj (s_pool srv))" by blast
    let ?con1 = "no_keep_alive (connection_set_state (c3\<lparr>c_fde_ndx := -1\<rparr>) CON_STATE_CONNECT)"
    let ?s1 = "srv1\<lparr>s_con_closed := s_con_closed srv1 + 1\<rparr>"
    have st: "machine_step m an n a con srv = Some (False, ?con1, ?s1)"
      unfolding step if_not_P [OF False] close by simp
    have "conn_ok ?con1" using c3(2) by (simp add: conn_ok_def connection_set_state_def)
    then obtain con2 where l: "machine_loop m an (Suc n) a ?con1 ?s1 = Some (Suc (Suc n), con2, ?s1)" "same ?con1 con2"
      using connect_loop [of ?con1 m an "Suc n" a ?s1] by (auto simp: connection_set_state_def)
    then show ?thesis using loop_step [OF st] assms(6) r s3
      by (auto simp: connection_set_state_def same_def gone_def fdevent_get_handler_def)
  qed
qed

lemma error_machine:
  assumes "tame m" "srv_inv base srv" "get_con srv a = Some con" "c_fd con < FD_SETSIZE" "conn_ok con"
    and "c_state con = CON_STATE_ERROR" "s_cur_ts srv > 1"
  shows "\<exists>k srv1. k \<le> n + 3 \<and> connection_state_machine m an n a srv = Some (k, srv1) \<and> gone a (c_fd con) srv srv1"
proof -
  have w: "with_con srv a con = srv" "a < length (po_obj (s_pool srv))" using get_con_with [OF assms(3)] by simp_all
  then have "srv_inv base (with_con srv a con)" using assms(2) by simp
  from error_loop [OF assms(1) this w(2) assms(4-7), of n an]
  obtain k con1 srv1 where l: "k \<le> n + 3" "machine_loop m an n a con srv = Some (k, con1, srv1)" "c_state con1 = CON_STATE_CONNECT" "c_fde_ndx con1 = -1"
    "gone a (c_fd con) srv srv1" "ev_type (s_ev srv1) = FDEVENT_HANDLER_SELECT" "length (po_obj (s_pool srv1)) = length (po_obj (s_pool srv))" by blast
  have wait: "wait_events con1 srv1 = Some (con1, srv1)"
    using l(3,4,6) by (simp add: wait_events_def wait_not_def fdevent_event_del_def fdevent_select_event_del_def)
  have put: "put_con srv1 a con1 = Some (with_con srv1 a con1)" using l(7) w(2) by (simp add: put_con_def with_con_def mem_simps)
  have "connection_state_machine m an n a srv = Some (k, with_con srv1 a con1)"
    using assms(3) l(2) wait put by (simp add: connection_state_machine_def)
  moreover have "gone a (c_fd con) srv (with_con srv1 a con1)" using l(5) by (simp add: gone_def) (simp add: with_con_def)
  ultimately show ?thesis using l(1) by blast
qed

section \<open>Properties\<close>

text \<open>C6. A connection in an error is closed at once. The callbacks are \<open>tame\<close>: they change neither the state nor the descriptors nor the
  events of a connection and keep its queues and arrays well formed, which excludes \<open>mod_cgi\<close>, \<open>mod_fastcgi\<close>, \<open>mod_proxy\<close> and
  \<open>mod_scgi\<close>; and the queues and arrays of the connection are well formed (\<open>conn_ok\<close>), which is a hypothesis here and not shown for all
  states the server reaches. Then, when an open connection of a state the server reaches (with \<open>accept\<close> giving -1 or a descriptor without a
  handler), with a descriptor below \<open>FD_SETSIZE\<close> and a clock after the first second, is set to
  \<open>CON_STATE_ERROR\<close>, the state machine returns after at most three rounds, and then the connection is not in the pool any more,
  its descriptor has been closed and has no handler. So the lingering close never lingers: \<open>keep_alive\<close> has been set to
  0 when \<open>CON_STATE_CLOSE\<close> is entered, which clears the time to wait for.\<close>

theorem error_always_closes:
  assumes "tame m" "server_reaches m base srv" "get_con srv a = Some con" "a \<in> open_conns (s_pool srv)"
    and "c_fd con < FD_SETSIZE" "conn_ok con" "s_cur_ts srv > 1" "put_con srv a (connection_set_state con CON_STATE_ERROR) = Some srv0"
  shows "\<exists>k srv1. k \<le> n + 3 \<and> connection_state_machine m an n a srv0 = Some (k, srv1) \<and>
    open_conns (s_pool srv1) = open_conns (s_pool srv) - {a} \<and> fdevent_get_handler (s_ev srv1) (c_fd con) = None \<and>
    s_closed srv1 = s_closed srv @ [c_fd con]"
proof -
  have inv: "srv_inv base srv" using reaches_inv [OF _ assms(2)] assms(1) by (simp add: tame_def)
  have srv0: "srv0 = with_con srv a (connection_set_state con CON_STATE_ERROR)" by (rule put_con_with [OF assms(8)])
  have h: "held base (length (po_obj (s_pool srv))) a con srv" by (rule inv_get [OF inv assms(3)])
  then have "c_state con \<noteq> CON_STATE_CONNECT" using srv_invD(1) [of base srv a con] assms(4) by simp
  then have "held base (length (po_obj (s_pool srv))) a (connection_set_state con CON_STATE_ERROR) srv"
    by (intro held_alike [OF h]) (simp_all add: alike_def connection_set_state_def)
  then obtain k srv1 where "k \<le> n + 3" "connection_state_machine m an n a srv0 = Some (k, srv1)" "gone a (c_fd con) srv0 srv1"
    using error_machine [OF assms(1), of base srv0 a "connection_set_state con CON_STATE_ERROR" n an] assms(5-7) unfolding srv0
    by (auto simp: connection_set_state_def conn_ok_def get_con_def with_con_def mem_simps)
  then show ?thesis unfolding gone_def srv0 by (auto simp: with_con_def open_conns_def)
qed

text \<open>C7. A silent connection does not stay. The callbacks are \<open>tame\<close>: they change neither the state nor the descriptors nor the
  events of a connection and keep its queues and arrays well formed, which excludes \<open>mod_cgi\<close>, \<open>mod_fastcgi\<close>, \<open>mod_proxy\<close> and
  \<open>mod_scgi\<close>; and the queues and arrays of the connection are well formed (\<open>conn_ok\<close>), which is a hypothesis here and not shown for all
  states the server reaches. Then, at a second after the first in which a connection of a state the server reaches (with \<open>accept\<close> giving -1 or a
  descriptor without a handler), with a descriptor below \<open>FD_SETSIZE\<close>, has been waiting for a request, for the body of one or for a client that takes its data for longer than the configuration allows, the check for
  timeouts of this connection returns after at most three rounds, and the connection has been closed.\<close>

theorem timed_out_closed:
  assumes "tame m" "server_reaches m base srv" "get_con srv a = Some con" "timed_out now con"
    and "c_fd con < FD_SETSIZE" "conn_ok con" "now > 1"
  shows "\<exists>k srv1. k \<le> n + 3 \<and> check_timeout m an n a (srv\<lparr>s_cur_ts := now\<rparr>) = Some (k, srv1) \<and>
    open_conns (s_pool srv1) = open_conns (s_pool srv) - {a} \<and> fdevent_get_handler (s_ev srv1) (c_fd con) = None \<and>
    s_closed srv1 = s_closed srv @ [c_fd con]"
proof -
  let ?e = "connection_set_state con CON_STATE_ERROR" and ?s = "srv\<lparr>s_cur_ts := now\<rparr>"
  define con2 where "con2 = (if limit_over now ?e then ?e\<lparr>c_traffic_limit_reached := False\<rparr> else ?e)"
  have con2: "c_fd con2 = c_fd con" "c_state con2 = CON_STATE_ERROR" "c_fde_ndx con2 = c_fde_ndx con"
    by (simp_all add: con2_def connection_set_state_def)
  have ok: "conn_ok con2" using assms(6) by (simp add: con2_def connection_set_state_def conn_ok_def)
  have get: "get_con ?s a = Some con" using assms(3) by (simp add: get_con_def)
  then have w: "a < length (po_obj (s_pool ?s))" using get_con_with [of ?s] by simp
  have "srv_inv base srv" using reaches_inv [OF _ assms(2)] assms(1) by (simp add: tame_def)
  then have inv: "srv_inv base ?s" by (rule inv_cong [rotated 4]) simp_all
  have "alike con con2" using con2 assms(4) by (auto simp: alike_def timed_out_def)
  then have "srv_inv base (with_con ?s a con2)" using held_alike [OF inv_get [OF inv get], of con2 ?s] by simp
  moreover have "get_con (with_con ?s a con2) a = Some con2" using w by (simp add: get_con_def mem_simps)
  moreover have "s_cur_ts (with_con ?s a con2) > 1" using assms(7) by (simp add: with_con_def)
  ultimately obtain k srv1 where r: "k \<le> n + 3" "connection_state_machine m an n a (with_con ?s a con2) = Some (k, srv1)"
    "gone a (c_fd con) (with_con ?s a con2) srv1"
    using error_machine [OF assms(1) _ _ _ ok con2(2), of base "with_con ?s a con2" a n an] con2(1) assms(5) by auto
  have "put_con ?s a con2 = Some (with_con ?s a con2)" using w by (simp add: put_con_def with_con_def mem_simps)
  then have "check_timeout m an n a ?s = Some (k, srv1)" using get assms(4) r(2) by (simp add: check_timeout_def con2_def)
  moreover have "s_closed (with_con ?s a con2) = s_closed srv" by (simp add: with_con_def)
  ultimately show ?thesis using r(1,3) unfolding gone_def by auto
qed

section \<open>A connection that says nothing\<close>

lemma sample_tame: "tame sample_machine"
  using sample_calm by (simp add: tame_def) (simp add: sample_machine_def)

lemma sample_reached:
  obtains srv con where "server_reaches sample_machine 3 srv" "get_con srv 0 = Some con" "c_fd con = 5" "conn_ok con" "s_cur_ts srv = 100"
    "timed_out 101 con" "0 \<in> open_conns (s_pool srv)" "c_state con = CON_STATE_READ"
proof -
  let ?an = "sample_answers\<lparr>an_read := (\<lambda>n. Ioctl_failed)\<rparr>"
  let ?r = "do { srv \<leftarrow> network_register_fdevents sample_server; main_turn sample_machine ?an sample_turn 0 srv }"
  let ?ok = "\<lambda>con. c_fd con = 5 \<and> c_read_queue con = (empty_world, chunkqueue_init) \<and> c_write_queue con = (empty_world, chunkqueue_init) \<and>
    c_request_content_queue con = (empty_world, chunkqueue_init) \<and> rq_headers (co_request (c_core con)) = array_init \<and>
    c_response_headers con = array_init \<and> c_environment con = array_init \<and> timed_out 101 con \<and> c_state con = CON_STATE_READ"
  have "map_option (\<lambda>(n1, srv1, stop). ?ok (po_obj (s_pool srv1) ! 0) \<and> length (po_obj (s_pool srv1)) = 128 \<and> s_cur_ts srv1 = 100) ?r = Some True"
    by code_simp
  then obtain srv n1 srv1 stop where r: "network_register_fdevents sample_server = Some srv"
    "main_turn sample_machine ?an sample_turn 0 srv = Some (n1, srv1, stop)" "?ok (po_obj (s_pool srv1) ! 0)" "length (po_obj (s_pool srv1)) = 128"
    "s_cur_ts srv1 = 100" by auto
  have "accept_fresh ?an" by (simp add: accept_fresh_def sample_answers_def)
  moreover have "server_reaches sample_machine 3 srv"
    by (rule server_reaches.start [of 16, OF _ _ _ r(1)]) (simp_all add: sample_server_def fdevent_init_def)
  ultimately have reach: "server_reaches sample_machine 3 srv1" using server_reaches.turn [OF _ _ r(2)] by blast
  have get: "get_con srv1 0 = Some (po_obj (s_pool srv1) ! 0)" using r(4) by (simp add: get_con_def mem_simps)
  have "conn_ok (po_obj (s_pool srv1) ! 0)"
    using r(3) by (auto simp: conn_ok_def array_init_safe intro: queue_okI [OF holds_init(2)])
  moreover have "0 \<in> open_conns (s_pool srv1)"
    using srv_invD(1) [of 3 srv1 0 "po_obj (s_pool srv1) ! 0"] inv_get [OF reaches_inv [OF sample_calm reach] get] r(3) by (auto simp: timed_out_def)
  ultimately show thesis using that reach get r(3,5) by blast
qed

theorem error_always_closes_witness:
  "\<exists>srv con srv0 k srv1. get_con srv 0 = Some con \<and> put_con srv 0 (connection_set_state con CON_STATE_ERROR) = Some srv0 \<and> k \<le> 3 \<and>
     connection_state_machine sample_machine sample_answers 0 0 srv0 = Some (k, srv1) \<and> 0 \<in> open_conns (s_pool srv) \<and>
     0 \<notin> open_conns (s_pool srv1) \<and> fdevent_get_handler (s_ev srv1) 5 = None \<and> 5 \<in> set (s_closed srv1)"
proof -
  obtain srv con where s: "server_reaches sample_machine 3 srv" "get_con srv 0 = Some con" "c_fd con = 5" "conn_ok con" "s_cur_ts srv = 100"
    "0 \<in> open_conns (s_pool srv)" by (rule sample_reached)
  obtain srv0 where p: "put_con srv 0 (connection_set_state con CON_STATE_ERROR) = Some srv0"
    using s(2) by (auto simp: put_con_def get_con_def mem_get_def mem_set_def split: if_splits)
  have "c_fd con < FD_SETSIZE" "s_cur_ts srv > 1" using s(3,5) by (simp_all add: FD_SETSIZE_def)
  from error_always_closes [OF sample_tame s(1,2,6) this(1) s(4) this(2) p, of 0 sample_answers] s p show ?thesis by fastforce
qed

theorem timed_out_closed_witness:
  "\<exists>srv con k srv1. get_con srv 0 = Some con \<and> c_state con = CON_STATE_READ \<and> k \<le> 3 \<and>
     check_timeout sample_machine sample_answers 0 0 (srv\<lparr>s_cur_ts := 101\<rparr>) = Some (k, srv1) \<and> 0 \<in> open_conns (s_pool srv) \<and>
     0 \<notin> open_conns (s_pool srv1) \<and> fdevent_get_handler (s_ev srv1) 5 = None"
proof -
  obtain srv con where s: "server_reaches sample_machine 3 srv" "get_con srv 0 = Some con" "c_fd con = 5" "conn_ok con"
    "timed_out 101 con" "0 \<in> open_conns (s_pool srv)" "c_state con = CON_STATE_READ" by (rule sample_reached)
  have "c_fd con < FD_SETSIZE" using s(3) by (simp add: FD_SETSIZE_def)
  from timed_out_closed [OF sample_tame s(1,2,5) this s(4), of 0 sample_answers] s show ?thesis by fastforce
qed

end
