(* ===== verification/ServerEvents.thy ===== *)
theory ServerEvents
  imports ServerInv
begin

text \<open>
  What the handlers of the server do to the table of events while the loop of \<open>server.c\<close> goes through the descriptors that \<open>select\<close>
  has reported. They watch descriptors, register them and take them out, but they leave the reported sets as they are, and
  \<open>select_max_fd\<close> only grows, up to \<open>FD_SETSIZE\<close>: the relation \<open>polled\<close>, shown for each operation up to \<open>call_handler\<close>.
\<close>

section \<open>What was reported stays\<close>

definition polled :: "(ev_handler, nat) fdevents \<Rightarrow> (ev_handler, nat) fdevents \<Rightarrow> bool" where
  "polled ev ev1 = (ready ev1 = ready ev \<and> (reported ev \<longrightarrow> reported ev1))"

lemma polled_refl [simp]: "polled ev ev"
  by (simp add: polled_def)

lemma polled_trans: "polled e1 e2 \<Longrightarrow> polled e2 e3 \<Longrightarrow> polled e1 e3"
  by (simp add: polled_def)

lemma unmoved_polled: "unmoved srv srv1 \<Longrightarrow> polled (s_ev srv) (s_ev srv1)"
  by (simp add: unmoved_def)

lemma polled_sets:
  assumes "ev_select_read ev1 = ev_select_read ev" "ev_select_write ev1 = ev_select_write ev" "ev_select_error ev1 = ev_select_error ev"
    and "ev_type ev1 = ev_type ev" "ev_select_max_fd ev \<le> ev_select_max_fd ev1" "ev_select_max_fd ev < FD_SETSIZE \<longrightarrow> ev_select_max_fd ev1 < FD_SETSIZE"
  shows "polled ev ev1"
proof -
  have "ready ev1 = ready ev" using assms(1-3) by (simp add: ready_def)
  moreover have "{0..ev_select_max_fd ev} \<subseteq> {0..ev_select_max_fd ev1}" using assms(5) by simp
  then have "reported ev1" if "reported ev"
    using that subset_trans calculation assms(4,6) unfolding reported_def by metis
  ultimately show ?thesis by (simp add: polled_def)
qed

lemma add_polled:
  assumes "fdevent_event_add ev k fd e = Some (ev1, k1)"
  shows "polled ev ev1"
proof (cases "ev_type ev = FDEVENT_HANDLER_SELECT")
  case True
  then have run: "fdevent_select_event_add ev k fd e = Some (ev1, k1)" using assms by (simp add: fdevent_event_add_def)
  then have fd: "fd < FD_SETSIZE" by (simp add: fdevent_select_event_add_def split: if_splits)
  have keep: "ev_select_read ev1 = ev_select_read ev" "ev_select_write ev1 = ev_select_write ev" "ev_select_error ev1 = ev_select_error ev"
    "ev_type ev1 = ev_type ev" "ev_select_max_fd ev1 = max (ev_select_max_fd ev) fd"
    using run fd by (cases "bits e FDEVENT_IN"; cases "bits e FDEVENT_OUT"; cases "fd > ev_select_max_fd ev";
      auto simp: fdevent_select_event_add_def FD_SET_def FD_CLR_def Let_def split: if_splits)+
  show ?thesis by (rule polled_sets) (use keep fd in simp_all)
qed (use assms in \<open>simp add: fdevent_event_add_def\<close>)

lemma del_polled:
  assumes "fdevent_event_del ev k fd = Some (ev1, k1)"
  shows "polled ev ev1"
proof -
  have "ev_select_read ev1 = ev_select_read ev" "ev_select_write ev1 = ev_select_write ev" "ev_select_error ev1 = ev_select_error ev"
    "ev_type ev1 = ev_type ev" "ev_select_max_fd ev1 = ev_select_max_fd ev"
    using assms by (auto simp: fdevent_event_del_def fdevent_select_event_del_def split: if_splits)
  then show ?thesis by (intro polled_sets) simp_all
qed

lemma register_polled: "fdevent_register ev fd h c = Some ev1 \<Longrightarrow> polled ev ev1"
  by (rule polled_sets) (auto simp: fdevent_register_def)

lemma unregister_polled: "fdevent_unregister ev fd = Some ev1 \<Longrightarrow> polled ev ev1"
  by (rule polled_sets) (auto simp: fdevent_unregister_def)

section \<open>The operations of a connection\<close>

lemma close_polled:
  assumes "connection_close srv a con = Some (con1, srv1)"
  shows "polled (s_ev srv) (s_ev srv1)"
proof -
  obtain ev1 k ev2 r p where ev: "fdevent_event_del (s_ev srv) (c_fde_ndx con) (c_fd con) = Some (ev1, k)" "fdevent_unregister ev1 (c_fd con) = Some ev2"
    "s_ev srv1 = ev2" using assms by (auto simp: connection_close_def)
  show ?thesis unfolding ev(3) by (rule polled_trans [OF del_polled [OF ev(1)] unregister_polled [OF ev(2)]])
qed

lemma step_polled:
  assumes "calm_machine m" "machine_step m an n a con srv = Some (b, con1, srv1)"
  shows "polled (s_ev srv) (s_ev srv1)"
  using step_cases [OF assms]
proof
  assume "quiet con srv con1 srv1"
  then show ?thesis by (simp add: quiet_def unmoved_polled)
next
  assume "closes a con srv con1 srv1"
  then obtain con2 srv2 con3 srv3 where c: "unmoved srv srv2" "connection_close srv2 a con2 = Some (con3, srv3)" "unmoved srv3 srv1"
    unfolding closes_def by blast
  show ?thesis by (rule polled_trans [OF unmoved_polled [OF c(1)] polled_trans [OF close_polled [OF c(2)] unmoved_polled [OF c(3)]]])
qed

lemma loop_polled:
  assumes "machine_loop m an n a con srv = Some r" "calm_machine m"
  shows "polled (s_ev srv) (s_ev (snd (snd r)))"
  using assms
proof (induction m an n a con srv r rule: machine_loop_induct)
  case (1 f m an n a con srv r)
  obtain b con1 srv1 where st: "machine_step m an n a con srv = Some (b, con1, srv1)" using 1(2) by auto
  note h = step_polled [OF 1(3) st]
  show ?case
  proof (cases "b \<or> c_state con1 \<noteq> c_state con")
    case True
    then have "f m an (Suc n) a con1 srv1 = Some r" using 1(2) st by (auto split: if_splits)
    then show ?thesis using 1(1,3) polled_trans [OF h] by blast
  next
    case False
    then have "r = (Suc n, con1, srv1)" using 1(2) st by simp
    then show ?thesis using h by simp
  qed
qed

lemma wait_polled:
  assumes "wait_events con srv = Some (con1, srv1)"
  shows "polled (s_ev srv) (s_ev srv1)"
proof -
  have "polled (s_ev srv) (s_ev srv1)" if "wait_in con srv e = Some (con1, srv1)" for e
    using that add_polled by (auto simp: wait_in_def)
  moreover have "polled (s_ev srv) (s_ev srv1)" if "wait_not con srv = Some (con1, srv1)"
    using that del_polled by (auto simp: wait_not_def)
  ultimately show ?thesis using assms by (auto simp: wait_events_def split: if_splits)
qed

lemma put_con_ev: "put_con srv a con = Some srv1 \<Longrightarrow> s_ev srv1 = s_ev srv"
  by (auto simp: put_con_def)

lemma machine_polled:
  assumes "calm_machine m" "connection_state_machine m an n a srv = Some (n1, srv1)"
  shows "polled (s_ev srv) (s_ev srv1)"
proof -
  obtain con con1 s1 con2 s2 where r: "machine_loop m an n a con srv = Some (n1, con1, s1)"
    "wait_events con1 s1 = Some (con2, s2)" "put_con s2 a con2 = Some srv1"
    using assms(2) by (auto simp: connection_state_machine_def)
  show ?thesis using loop_polled [OF r(1) assms(1)] polled_trans wait_polled [OF r(2)] put_con_ev [OF r(3)] by simp
qed

section \<open>The handlers\<close>

lemma accept_polled:
  assumes "connection_accept m fd ok srv = Some (r, srv1)"
  shows "polled (s_ev srv) (s_ev srv1)"
proof (cases "po_used (s_pool srv) \<ge> s_max_conns srv \<or> fd = -1")
  case True
  then show ?thesis using assms by (auto simp: connection_accept_def split: if_splits)
next
  case False
  then obtain a ev where "fdevent_register (s_ev srv) fd Connection_handle_fdevent a = Some ev" "s_ev srv1 = ev"
    using assms by (auto simp: connection_accept_def Let_def put_con_ev split: if_splits dest!: put_con_ev)
  then show ?thesis using register_polled by blast
qed

lemma on_con_polled: "on_con f a srv = Some srv1 \<Longrightarrow> polled (s_ev srv) (s_ev srv1)"
  by (auto simp: on_con_def dest!: put_con_ev)

lemma accept_loop_polled:
  assumes "calm_machine m" "accept_loop m an k n srv = Some (n1, srv1)"
  shows "polled (s_ev srv) (s_ev srv1)"
  using assms(2)
proof (induction k arbitrary: n srv)
  case (Suc k)
  obtain r s1 where acc: "connection_accept m (fst (an_accept an n srv)) (snd (an_accept an n srv)) srv = Some (r, s1)" using Suc.prems by auto
  note p = accept_polled [OF acc]
  show ?case
  proof (cases r)
    case None
    then show ?thesis using Suc.prems acc p by simp
  next
    case (Some a)
    then obtain n2 s2 s3 where r: "connection_state_machine m an n a s1 = Some (n2, s2)" "on_con (mx_joblist m) a s2 = Some s3"
      "accept_loop m an k n2 s3 = Some (n1, srv1)" using Suc.prems acc by auto
    show ?thesis
      by (rule polled_trans [OF p polled_trans [OF machine_polled [OF assms(1) r(1)] polled_trans [OF on_con_polled [OF r(2)] Suc.IH [OF r(3)]]]])
  qed
qed simp

lemma write_now_polled:
  assumes "write_now m nw a con srv = Some (con1, srv1)" "c_state con = CON_STATE_WRITE"
  shows "polled (s_ev srv) (s_ev srv1)"
  using step_write_quiet [OF assms(2,1)] by (simp add: quiet_def unmoved_polled)

lemma handle_fdevent_polled:
  assumes "connection_handle_fdevent m an n a revents srv = Some (r, srv1)"
  shows "polled (s_ev srv) (s_ev srv1)"
proof -
  obtain c2 s1 c3 s3 c4 where st: "job_append m srv a = Some s1" "put_con s3 a c4 = Some srv1"
    and w: "(if c_state c2 = CON_STATE_WRITE then write_now m (an_net an n) a c2 s1 else Some (c2, s1)) = Some (c3, s3)"
    using assms by (auto simp: connection_handle_fdevent_def Let_def simp del: if_split)
  have "polled (s_ev s1) (s_ev s3)" using w write_now_polled by (auto split: if_splits)
  then show ?thesis using polled_trans [OF unmoved_polled [OF job_append_unmoved [OF st(1)]]] put_con_ev [OF st(2)] by simp
qed

lemma call_polled:
  assumes "calm_machine m" "call_handler m an s h c r = Some s1"
  shows "polled (s_ev (snd s)) (s_ev (snd s1))"
proof (cases h)
  case Connection_handle_fdevent
  then show ?thesis using assms(2) handle_fdevent_polled by (auto simp: call_handler_def)
next
  case Network_server_handle_fdevent
  then show ?thesis using assms(2) accept_loop_polled [OF assms(1)]
    by (auto simp: call_handler_def network_server_handle_fdevent_def split: if_splits)
qed

text \<open>So the handlers of the program meet the condition under which the loop over the events delivers what was reported.\<close>

lemma handlers_keep: "calm_machine m \<Longrightarrow> keeps_reported (\<lambda>s. s_ev (snd s)) (call_handler m an)"
  using call_polled unfolding keeps_reported_def polled_def by blast

section \<open>Properties\<close>

text \<open>C38. Urgent data stops the server. \<open>select\<close> counts a descriptor once for each set it is in, and the loop of \<open>server.c\<close> runs that
  many times over descriptors that it visits once. For callbacks that change neither the state nor the descriptors nor the events of
  a connection (\<open>calm_machine\<close>), which excludes \<open>mod_cgi\<close>, \<open>mod_fastcgi\<close>, \<open>mod_proxy\<close> and \<open>mod_scgi\<close>: when \<open>fdevent_poll\<close>, with the back
  end for \<open>select\<close>, has reported descriptors up to \<open>select_max_fd\<close>, counted as \<open>select\<close> counts them, one of them in
  two sets, and when no handler is registered for the descriptor above \<open>select_max_fd\<close> in the table that the handlers of the
  reported descriptors leave, the loop over the events with the handlers of the server ends in a fault: a handler
  that fails, or the lookup for the descriptor above \<open>select_max_fd\<close>, which \<open>fdevent_get_handler\<close> answers with \<open>SEGFAULT\<close>.\<close>

theorem urgent_data_faults:
  assumes "calm_machine m" "fdevent_poll sel (s_ev srv) = Some (k, ev)" "reported ev"
    and "k = int (card (ev_select_read ev) + card (ev_select_write ev) + card (ev_select_error ev))"
    and "(ev_select_read ev \<inter> ev_select_write ev) \<union> (ev_select_read ev \<inter> ev_select_error ev) \<union> (ev_select_write ev \<inter> ev_select_error ev) \<noteq> {}"
    and "\<And>n1 srv1. deliver (\<lambda>s. s_ev (snd s)) (call_handler m an) (sorted_list_of_set (ready ev)) (n, srv\<lparr>s_ev := ev\<rparr>) = Some (n1, srv1) \<Longrightarrow>
      fdevent_get_handler (s_ev srv1) (ev_select_max_fd (s_ev srv1) + 1) = None"
  shows "event_loop (\<lambda>s. s_ev (snd s)) (call_handler m an) (nat k) (-1) (n, srv\<lparr>s_ev := ev\<rparr>) = None"
proof (rule two_sets_loop [OF handlers_keep [OF assms(1)]])
  fix s1 assume "deliver (\<lambda>s. s_ev (snd s)) (call_handler m an) (sorted_list_of_set (ready (s_ev (snd (n, srv\<lparr>s_ev := ev\<rparr>)))))
    (n, srv\<lparr>s_ev := ev\<rparr>) = Some s1"
  then show "get_node (s_ev (snd s1)) (ev_select_max_fd (s_ev (snd s1)) + 1) = None"
    using assms(6) [of "fst s1" "snd s1"] by (simp add: fdevent_get_handler_def split: bind_splits)
qed (use assms(3-5) in simp_all)

text \<open>A client that the server has accepted on descriptor 5 sends urgent data: the descriptor is readable and has an exception.\<close>

theorem urgent_data_faults_witness:
  "\<exists>srv ev n1 srv1. server_reaches sample_machine 3 srv \<and> fdevent_poll (\<lambda>n r w e. (2, {5}, {}, {5})) (s_ev srv) = Some (2, ev) \<and>
     deliver (\<lambda>s. s_ev (snd s)) (call_handler sample_machine sample_answers) [5] (0, srv\<lparr>s_ev := ev\<rparr>) = Some (n1, srv1) \<and>
     event_loop (\<lambda>s. s_ev (snd s)) (call_handler sample_machine sample_answers) 2 (-1) (0, srv\<lparr>s_ev := ev\<rparr>) = None"
proof -
  let ?an = "sample_answers\<lparr>an_read := (\<lambda>n. Ioctl_failed)\<rparr>" and ?sel = "\<lambda>n r w e. (2, {5}, {}, {5}) :: int \<times> fd_set \<times> fd_set \<times> fd_set"
  let ?deliver = "deliver (\<lambda>s. s_ev (snd s)) (call_handler sample_machine sample_answers) [5]"
  let ?r = "do { srv \<leftarrow> network_register_fdevents sample_server; (n1, srv1, stop) \<leftarrow> main_turn sample_machine ?an sample_turn 0 srv;
    (k, ev) \<leftarrow> fdevent_poll ?sel (s_ev srv1); (n2, srv2) \<leftarrow> ?deliver (0, srv1\<lparr>s_ev := ev\<rparr>);
    Some (ev_type ev = FDEVENT_HANDLER_SELECT \<and> ev_select_max_fd ev = 5 \<and> fdevent_get_handler (s_ev srv2) (ev_select_max_fd (s_ev srv2) + 1) = None) }"
  have "?r = Some True" by code_simp
  then obtain srv n1 srv1 stop k ev n2 srv2 where r: "network_register_fdevents sample_server = Some srv"
    "main_turn sample_machine ?an sample_turn 0 srv = Some (n1, srv1, stop)" "fdevent_poll ?sel (s_ev srv1) = Some (k, ev)"
    "?deliver (0, srv1\<lparr>s_ev := ev\<rparr>) = Some (n2, srv2)" "ev_type ev = FDEVENT_HANDLER_SELECT" "ev_select_max_fd ev = 5"
    "fdevent_get_handler (s_ev srv2) (ev_select_max_fd (s_ev srv2) + 1) = None" by (auto simp: bind_eq_Some)
  have e: "k = 2" "ev_select_read ev = {5}" "ev_select_write ev = {}" "ev_select_error ev = {5}"
    using r(3) by (auto simp: fdevent_poll_def fdevent_select_poll_def split: if_splits)
  then have ready: "ready ev = {5}" by (auto simp: ready_def)
  have "accept_fresh ?an" by (simp add: accept_fresh_def sample_answers_def)
  moreover have "server_reaches sample_machine 3 srv"
    by (rule server_reaches.start [of 16, OF _ _ _ r(1)]) (simp_all add: sample_server_def fdevent_init_def)
  ultimately have reach: "server_reaches sample_machine 3 srv1" using server_reaches.turn [OF _ _ r(2)] by blast
  have "reported ev" using r(5,6) ready by (simp add: reported_def FD_SETSIZE_def)
  then have "event_loop (\<lambda>s. s_ev (snd s)) (call_handler sample_machine sample_answers) (nat k) (-1) (0, srv1\<lparr>s_ev := ev\<rparr>) = None"
    by (rule urgent_data_faults [OF sample_calm r(3)]) (use e ready r(4,7) in \<open>simp_all del: deliver.simps\<close>)
  then show ?thesis using reach r(3,4) e(1) by (intro exI [of _ srv1] exI [of _ ev] exI [of _ n2] exI [of _ srv2]) simp
qed

end
