(* ===== verification/NetWriteProps.thy ===== *)
theory NetWriteProps
  imports NetWrite StatCacheProps
begin

text \<open>
  The back ends send the octets of the queue in order. \<open>chunk_sender\<close> is the contract of the step of a back end, with the
  loop over the chunks as its client; the steps for write, writev and linux-sendfile are the interpretations.
\<close>

section \<open>Chunks that can be sent\<close>

text \<open>The files of the site by name, and the octets of a chunk that have not been sent.\<close>

definition chunk_octets :: "(string \<rightharpoonup> string) \<Rightarrow> chunk \<Rightarrow> string" where
  "chunk_octets files c = (case ck_type c of
     MEM_CHUNK \<Rightarrow> drop (nat (ck_offset c)) (bs_str (ck_mem c))
   | FILE_CHUNK \<Rightarrow> take (nat (ck_file_length c - ck_offset c))
       (drop (nat (ck_file_start c + ck_offset c)) (the (files (bs_str (ck_file_name c)))))
   | UNUSED_CHUNK \<Rightarrow> [])"

definition window_ok :: "chunk \<Rightarrow> bool" where
  "window_ok c = (if ck_mmap_start c = None then ck_offset c = 0
     else ck_file_fd c \<noteq> -1 \<and> 0 \<le> ck_mmap_offset c \<and> ck_mmap_offset c \<le> ck_file_start c + ck_offset c \<and>
       ck_file_start c + ck_offset c \<le> ck_mmap_offset c + ck_mmap_length c \<and>
       ck_mmap_offset c + ck_mmap_length c \<le> ck_file_start c + ck_file_length c \<and>
       (ck_mmap_offset c + ck_mmap_length c < ck_file_start c + ck_file_length c \<longrightarrow> ck_mmap_length c = WINDOW))"

text \<open>A chunk in the queue: its offset lies in it, and a file has all the octets that are to be sent. Something of it is still
  to be sent. The windows matter for writev only.\<close>

definition live :: "bool \<Rightarrow> net_os \<Rightarrow> (string \<rightharpoonup> string) \<Rightarrow> chunk \<Rightarrow> bool" where
  "live windows os files c = (case ck_type c of
     MEM_CHUNK \<Rightarrow> (case ck_mem c of None \<Rightarrow> True | Some s \<Rightarrow> 0 \<le> ck_offset c \<and> ck_offset c \<le> int (length s))
   | FILE_CHUNK \<Rightarrow> (\<exists>n d. ck_file_name c = Some n \<and> name_ok n \<and> files n = Some d \<and> 0 \<le> ck_file_start c \<and> 0 \<le> ck_offset c \<and>
       ck_offset c < ck_file_length c \<and> ck_file_start c + ck_file_length c \<le> int (length d) \<and>
       (ck_file_fd c \<noteq> -1 \<longrightarrow> no_data os (ck_file_fd c) = d)) \<and> (windows \<longrightarrow> window_ok c)
   | UNUSED_CHUNK \<Rightarrow> False)"

text \<open>The system accepts at most what it is offered, and \<open>open\<close> gives the file with that name.\<close>

definition os_ok :: "net_os \<Rightarrow> (string \<rightharpoonup> string) \<Rightarrow> bool" where
  "os_ok os files = ((\<forall>k s n. no_send os k s = Sent n \<longrightarrow> n \<le> length s) \<and>
     (\<forall>k n d. files n = Some d \<longrightarrow> no_open os k n \<noteq> -1 \<longrightarrow> no_data os (no_open os k n) = d))"


abbreviation at_net :: "net \<Rightarrow> nat \<Rightarrow> chunk option" where
  "at_net nt \<equiv> chunk_at (nt_world nt)"

definition all_live :: "bool \<Rightarrow> net_os \<Rightarrow> (string \<rightharpoonup> string) \<Rightarrow> net \<Rightarrow> nat list \<Rightarrow> bool" where
  "all_live windows os files nt as = (\<forall>a \<in> set as. \<exists>c. at_net nt a = Some c \<and> live windows os files c)"

definition all_done :: "net \<Rightarrow> nat list \<Rightarrow> bool" where
  "all_done nt as = (\<forall>a \<in> set as. \<exists>c. at_net nt a = Some c \<and> chunk_finished c)"

definition rest_of :: "(string \<rightharpoonup> string) \<Rightarrow> net \<Rightarrow> nat list \<Rightarrow> string" where
  "rest_of files nt as = concat (map (\<lambda>a. case at_net nt a of None \<Rightarrow> [] | Some c \<Rightarrow> chunk_octets files c) as)"

text \<open>The names of the files in the queue, and the size of the memory in it.\<close>

definition names_of :: "net \<Rightarrow> nat list \<Rightarrow> string list" where
  "names_of nt as = concat (map (\<lambda>a. case at_net nt a of None \<Rightarrow> []
     | Some c \<Rightarrow> if ck_type c = FILE_CHUNK then [bs_str (ck_file_name c)] else []) as)"

definition mem_small :: "net \<Rightarrow> nat list \<Rightarrow> bool" where
  "mem_small nt as = (sum_list (map (\<lambda>a. case at_net nt a of None \<Rightarrow> 0 | Some c \<Rightarrow> length (bs_str (ck_mem c))) as) \<le> SSIZE_MAX)"

text \<open>What is not changed by sending.\<close>

definition same_source :: "chunk \<Rightarrow> chunk \<Rightarrow> bool" where
  "same_source c d = (ck_type d = ck_type c \<and> ck_mem d = ck_mem c \<and> ck_file_name d = ck_file_name c \<and> ck_file_start d = ck_file_start c \<and>
     ck_file_length d = ck_file_length c \<and> ck_is_temp d = ck_is_temp c \<and> ck_next d = ck_next c)"

lemma same_source_refl [simp]: "same_source c c"
  by (simp add: same_source_def)

lemma same_source_trans: "same_source c d \<Longrightarrow> same_source d e \<Longrightarrow> same_source c e"
  by (simp add: same_source_def)

text \<open>Some octets of the chunks \<open>as\<close> have been sent, those at the head, and no other chunk has been touched.\<close>

definition same_chunks :: "net \<Rightarrow> net \<Rightarrow> bool" where
  "same_chunks nt nt1 = (\<forall>b. rel_option same_source (at_net nt b) (at_net nt1 b))"

definition sends :: "(string \<rightharpoonup> string) \<Rightarrow> nat list \<Rightarrow> net \<Rightarrow> net \<Rightarrow> bool" where
  "sends files as nt nt1 = (same_chunks nt nt1 \<and> (\<forall>b. b \<notin> set as \<longrightarrow> at_net nt1 b = at_net nt b) \<and>
     nt_sent nt1 @ rest_of files nt1 as = nt_sent nt @ rest_of files nt as \<and>
     nt_queue nt1 = (nt_queue nt)\<lparr>cq_bytes_out := cq_bytes_out (nt_queue nt) + int (length (nt_sent nt1)) - int (length (nt_sent nt))\<rparr>)"

lemma same_chunks_refl [simp]: "same_chunks nt nt"
  by (simp add: same_chunks_def option.rel_refl)

lemma same_chunks_trans: "same_chunks nt nt1 \<Longrightarrow> same_chunks nt1 nt2 \<Longrightarrow> same_chunks nt nt2"
  unfolding same_chunks_def
proof
  fix b assume a: "\<forall>b. rel_option same_source (at_net nt b) (at_net nt1 b)" "\<forall>b. rel_option same_source (at_net nt1 b) (at_net nt2 b)"
  from a(1) [rule_format, of b] a(2) [rule_format, of b] show "rel_option same_source (at_net nt b) (at_net nt2 b)"
    by (auto elim!: option.rel_cases intro: same_source_trans)
qed

lemma same_chunksD: "same_chunks nt nt1 \<Longrightarrow> at_net nt a = Some c \<Longrightarrow> \<exists>d. at_net nt1 a = Some d \<and> same_source c d"
  unfolding same_chunks_def by (drule spec [of _ a]) (auto simp: option_rel_Some1)

lemma chain_same:
  assumes "same_chunks nt nt1"
  shows "chain (nt_world nt1) p as = chain (nt_world nt) p as"
proof -
  have "map_option ck_next (at_net nt1 a) = map_option ck_next (at_net nt a)" for a
    using assms [unfolded same_chunks_def, rule_format, of a] by (auto simp: same_source_def elim: option.rel_cases)
  then show ?thesis by (intro chain_map) simp
qed

lemma names_same:
  assumes "same_chunks nt nt1"
  shows "names_of nt1 as = names_of nt as"
proof -
  have "(case at_net nt1 a of None \<Rightarrow> [] | Some c \<Rightarrow> if ck_type c = FILE_CHUNK then [bs_str (ck_file_name c)] else []) =
      (case at_net nt a of None \<Rightarrow> [] | Some c \<Rightarrow> if ck_type c = FILE_CHUNK then [bs_str (ck_file_name c)] else [])" for a
    using assms [unfolded same_chunks_def, rule_format, of a] by (auto simp: same_source_def elim: option.rel_cases)
  then show ?thesis by (simp add: names_of_def)
qed

lemma mem_small_same:
  assumes "same_chunks nt nt1"
  shows "mem_small nt1 as = mem_small nt as"
proof -
  have "(case at_net nt1 a of None \<Rightarrow> 0 | Some c \<Rightarrow> length (bs_str (ck_mem c))) =
      (case at_net nt a of None \<Rightarrow> 0 | Some c \<Rightarrow> length (bs_str (ck_mem c)))" for a
    using assms [unfolded same_chunks_def, rule_format, of a] by (auto simp: same_source_def elim: option.rel_cases)
  then show ?thesis by (simp add: mem_small_def)
qed

lemma of_append: "rest_of files nt (as @ bs) = rest_of files nt as @ rest_of files nt bs"
  "names_of nt (as @ bs) = names_of nt as @ names_of nt bs" "mem_small nt (as @ bs) \<Longrightarrow> mem_small nt bs"
  "all_live wd os files nt (as @ bs) \<longleftrightarrow> all_live wd os files nt as \<and> all_live wd os files nt bs"
  by (auto simp: rest_of_def names_of_def mem_small_def all_live_def)

lemma all_cong:
  assumes "\<And>b. b \<in> set as \<Longrightarrow> at_net nt1 b = at_net nt b"
  shows "rest_of files nt1 as = rest_of files nt as" "names_of nt1 as = names_of nt as"
    "all_live wd os files nt1 as = all_live wd os files nt as" "all_done nt1 as = all_done nt as"
proof -
  show "rest_of files nt1 as = rest_of files nt as" "names_of nt1 as = names_of nt as"
    unfolding rest_of_def names_of_def by (rule arg_cong [of _ _ concat], rule map_cong, simp, simp add: assms)+
  show "all_live wd os files nt1 as = all_live wd os files nt as" "all_done nt1 as = all_done nt as"
    using assms by (auto simp: all_live_def all_done_def)
qed

lemma finished_rest [simp]: "chunk_finished c \<Longrightarrow> chunk_octets files c = []"
  by (auto simp: chunk_finished_def chunk_octets_def split: chunk_type.splits option.splits)

lemma done_rest: "all_done nt as \<Longrightarrow> rest_of files nt as = []"
  by (fastforce simp: all_done_def rest_of_def)

lemma sends_refl [simp]: "sends files as nt nt"
  by (simp add: sends_def)

lemma sends_trans: "sends files as nt nt1 \<Longrightarrow> sends files as nt1 nt2 \<Longrightarrow> sends files as nt nt2"
  unfolding sends_def using same_chunks_trans by force

text \<open>Sending goes on behind the chunks that are done.\<close>

lemma sends_behind:
  assumes "sends files post nt nt1" "all_done nt pre" "distinct (pre @ post)"
  shows "sends files (pre @ post) nt nt1" "all_done nt1 pre"
proof -
  have eq: "at_net nt1 b = at_net nt b" if "b \<in> set pre" for b
    using assms(1,3) that by (auto simp: sends_def)
  then show d: "all_done nt1 pre" using all_cong(4) [of pre nt1 nt] assms(2) by simp
  show "sends files (pre @ post) nt nt1"
    using assms(1) done_rest [OF d, of files] done_rest [OF assms(2), of files] by (auto simp: sends_def of_append(1))
qed

lemma chain_behind: "chain w p (pre @ post) \<Longrightarrow> pre \<noteq> [] \<Longrightarrow> chunk_at w (last pre) = Some d \<Longrightarrow> chain w (ck_next d) post"
  by (induction pre arbitrary: p) (auto split: option.splits if_splits)

section \<open>The contract of a step\<close>

definition after_step :: "bool \<Rightarrow> net_os \<Rightarrow> (string \<rightharpoonup> string) \<Rightarrow> (string list \<Rightarrow> stat_cache \<Rightarrow> bool) \<Rightarrow> nat list \<Rightarrow> outcome \<Rightarrow> net \<Rightarrow> bool" where
  "after_step windows os files ready as out nt = (case out of
     Give_up e \<Rightarrow> e < 0
   | Not_finished k \<Rightarrow> \<exists>pre post. as = pre @ post \<and> all_done nt pre \<and> all_live windows os files nt post
   | Finished b k \<Rightarrow> \<exists>pre post. as = pre @ post \<and> pre \<noteq> [] \<and> last pre = b \<and> all_done nt pre \<and> all_live windows os files nt post \<and>
       ready (names_of nt post) (nt_cache nt))"

text \<open>\<open>ready\<close> is what a back end needs to know of the stat cache.\<close>

locale chunk_sender =
  fixes step :: step
    and windows :: bool
    and ready :: "file_system \<Rightarrow> stat_conf \<Rightarrow> (string \<rightharpoonup> string) \<Rightarrow> string list \<Rightarrow> stat_cache \<Rightarrow> bool"
  assumes step_ok: "os_ok os files \<Longrightarrow> chain (nt_world nt) (Some a) (a # as) \<Longrightarrow> distinct (a # as) \<Longrightarrow>
      all_live windows os files nt (a # as) \<Longrightarrow> mem_small nt (a # as) \<Longrightarrow> ready fs conf files (names_of nt (a # as)) (nt_cache nt) \<Longrightarrow>
      at_net nt a = Some c \<Longrightarrow>
      \<exists>out nt1. step os fs conf a c nt = Some (out, nt1) \<and> sends files (a # as) nt nt1 \<and> cache_tree_ok (nt_cache nt1) \<and>
        after_step windows os files (ready fs conf files) (a # as) out nt1"
    and ready_tree: "ready fs conf files ns sc \<Longrightarrow> cache_tree_ok sc"
begin

lemma loop_ok:
  assumes "os_ok os files" "chain (nt_world nt) p as" "distinct as" "all_live windows os files nt as" "mem_small nt as"
    and "ready fs conf files (names_of nt as) (nt_cache nt)"
  shows "\<exists>r nt1. send_loop step os fs conf p k nt = Some (r, nt1) \<and> sends files as nt nt1 \<and> cache_tree_ok (nt_cache nt1) \<and>
    (r \<ge> 0 \<longrightarrow> (\<exists>pre post. as = pre @ post \<and> all_done nt1 pre \<and> all_live windows os files nt1 post))"
  using assms(2-6)
proof (induction "length as" arbitrary: as p k nt rule: less_induct)
  case less
  show ?case
  proof (cases as)
    case Nil
    then have "p = None" using less.prems(1) by simp
    then have "send_loop step os fs conf p k nt = Some (int k, nt)" by (simp add: send_loop.simps)
    then show ?thesis using Nil ready_tree [OF less.prems(5)] by (simp add: all_done_def all_live_def)
  next
    case (Cons a as')
    then obtain c where p: "p = Some a" "at_net nt a = Some c" using less.prems(1) by (auto split: option.splits)
    note prems = less.prems [unfolded Cons p(1)]
    obtain out nt1 where st: "step os fs conf a c nt = Some (out, nt1)" "sends files (a # as') nt nt1" "cache_tree_ok (nt_cache nt1)"
      "after_step windows os files (ready fs conf files) (a # as') out nt1"
      using step_ok [OF assms(1) prems(1-5) p(2)] by blast
    have run: "send_loop step os fs conf p k nt = (case out of Give_up e \<Rightarrow> Some (e, nt1) | Not_finished j \<Rightarrow> Some (int (k + j), nt1)
        | Finished b j \<Rightarrow> do { d \<leftarrow> at_net nt1 b; send_loop step os fs conf (ck_next d) (k + j + 1) nt1 })"
      by (subst send_loop.simps) (simp add: p st(1) del: bind_eq_Some)
    show ?thesis
    proof (cases out)
      case (Give_up e)
      then show ?thesis using st run Cons by (auto simp: after_step_def)
    next
      case (Not_finished j)
      then show ?thesis using st run Cons by (auto simp: after_step_def)
    next
      case (Finished b j)
      then obtain pre post where s: "a # as' = pre @ post" "pre \<noteq> []" "last pre = b" "all_done nt1 pre" "all_live windows os files nt1 post"
        "ready fs conf files (names_of nt1 post) (nt_cache nt1)" using st(4) by (auto simp: after_step_def)
      have same: "same_chunks nt nt1" using st(2) by (simp add: sends_def)
      have ch: "chain (nt_world nt1) (Some a) (pre @ post)" using chain_same [OF same] prems(1) s(1) by metis
      obtain d where d: "at_net nt1 b = Some d" using s(2-4) last_in_set [OF s(2)] by (auto simp: all_done_def)
      have ch2: "chain (nt_world nt1) (ck_next d) post" using chain_behind [OF ch s(2)] s(3) d by simp
      have dist: "distinct (pre @ post)" using prems(2) s(1) by metis
      have small: "mem_small nt1 post" using mem_small_same [OF same] prems(4) s(1) of_append(3) by metis
      have len: "length post < length as" using Cons s(1,2) by (metis length_append length_greater_0_conv less_add_same_cancel2)
      have "distinct post" using dist by simp
      note IH = less.hyps [OF len ch2 this s(5) small s(6)]
      obtain r nt2 where rec: "send_loop step os fs conf (ck_next d) (k + j + 1) nt1 = Some (r, nt2)" "sends files post nt1 nt2"
        "cache_tree_ok (nt_cache nt2)" "r \<ge> 0 \<longrightarrow> (\<exists>pre' post'. post = pre' @ post' \<and> all_done nt2 pre' \<and> all_live windows os files nt2 post')"
        using IH [of "k + j + 1"] by blast
      note beh = sends_behind [OF rec(2) s(4) dist]
      have "sends files as nt nt2" using sends_trans [OF st(2)] beh(1) s(1) Cons by metis
      moreover have "\<exists>pre' post'. as = pre' @ post' \<and> all_done nt2 pre' \<and> all_live windows os files nt2 post'" if r0: "r \<ge> 0"
      proof -
        obtain pre' post' where q: "post = pre' @ post'" "all_done nt2 pre'" "all_live windows os files nt2 post'"
          using mp [OF rec(4) r0] by (elim exE conjE)
        have "as = (pre @ pre') @ post'" using s(1) q(1) Cons by simp
        moreover have "all_done nt2 (pre @ pre')" using q(2) beh(2) by (auto simp: all_done_def)
        ultimately show ?thesis using q(3) by blast
      qed
      moreover have "send_loop step os fs conf p k nt = Some (r, nt2)" using run Finished d rec(1) by simp
      ultimately show ?thesis using rec(3) by blast
    qed
  qed
qed

end

section \<open>Changing one chunk\<close>

definition set_at :: "nat \<Rightarrow> chunk \<Rightarrow> net \<Rightarrow> net" where
  "set_at a d nt = nt\<lparr>nt_world := (nt_world nt)\<lparr>w_heap := (w_heap (nt_world nt))[a := Some d]\<rparr>\<rparr>"

lemma set_at_simps [simp]:
  "nt_queue (set_at a d nt) = nt_queue nt" "nt_cache (set_at a d nt) = nt_cache nt" "nt_sent (set_at a d nt) = nt_sent nt"
  "nt_calls (set_at a d nt) = nt_calls nt"
  by (simp_all add: set_at_def)

lemma at_set: "at_net nt a = Some c \<Longrightarrow> at_net (set_at a d nt) b = (if b = a then Some d else at_net nt b)"
  using chunk_put_Some(2) [of "nt_world nt" a c d b] by (simp add: set_at_def)

lemma change_chunk_set: "at_net nt a = Some c \<Longrightarrow> change_chunk a f nt = Some (set_at a (f c) nt)"
  by (simp add: change_chunk_def chunk_put_Some(1) set_at_def)

lemma note_simps [simp]:
  "at_net (note_closed fd nt) b = at_net nt b" "at_net (note_unmapped p nt) b = at_net nt b" "at_net (count_out n nt) b = at_net nt b"
  "nt_queue (note_closed fd nt) = nt_queue nt" "nt_queue (note_unmapped p nt) = nt_queue nt"
  "nt_queue (count_out n nt) = (nt_queue nt)\<lparr>cq_bytes_out := cq_bytes_out (nt_queue nt) + int n\<rparr>"
  "nt_sent (note_closed fd nt) = nt_sent nt" "nt_sent (note_unmapped p nt) = nt_sent nt" "nt_sent (count_out n nt) = nt_sent nt"
  "nt_cache (note_closed fd nt) = nt_cache nt" "nt_cache (note_unmapped p nt) = nt_cache nt" "nt_cache (count_out n nt) = nt_cache nt"
  by (simp_all add: note_closed_def note_unmapped_def count_out_def chunk_at_def)

lemma advance_set: "at_net nt a = Some c \<Longrightarrow> advance a n nt = Some (set_at a (c\<lparr>ck_offset := ck_offset c + int n\<rparr>) (count_out n nt))"
  by (simp add: advance_def change_chunk_set [where c = c])

lemma offer_cases:
  assumes "os_ok os files" "offer os s nt = (r, nt1)"
  shows "at_net nt1 b = at_net nt b" "nt_queue nt1 = nt_queue nt" "nt_cache nt1 = nt_cache nt"
    "r = Sent n \<Longrightarrow> n \<le> length s \<and> nt_sent nt1 = nt_sent nt @ take n s" "r = Errno e \<Longrightarrow> nt_sent nt1 = nt_sent nt"
  using assms by (auto simp: offer_def Let_def os_ok_def)

lemma sends_still:
  assumes "\<And>b. at_net nt1 b = at_net nt b" "nt_sent nt1 = nt_sent nt" "nt_queue nt1 = nt_queue nt"
  shows "sends files as nt nt1"
  using assms all_cong(1) [of as nt1 nt files] by (simp add: sends_def same_chunks_def option.rel_refl)

text \<open>The first chunk \<open>a\<close> has become \<open>d\<close>, and the octets \<open>t\<close> have been sent.\<close>

definition moved :: "nat \<Rightarrow> chunk \<Rightarrow> string \<Rightarrow> net \<Rightarrow> net \<Rightarrow> bool" where
  "moved a d t nt nt1 = ((\<forall>b. at_net nt1 b = (if b = a then Some d else at_net nt b)) \<and> nt_sent nt1 = nt_sent nt @ t \<and>
     nt_queue nt1 = (nt_queue nt)\<lparr>cq_bytes_out := cq_bytes_out (nt_queue nt) + int (length t)\<rparr>)"

lemma sends_moved:
  assumes "moved a d t nt nt1" "at_net nt a = Some c" "same_source c d" "chunk_octets files c = t @ chunk_octets files d" "a \<notin> set as"
  shows "sends files (a # as) nt nt1"
proof -
  have at: "at_net nt1 b = (if b = a then Some d else at_net nt b)" for b using assms(1) by (simp add: moved_def)
  have "rest_of files nt1 as = rest_of files nt as" by (rule all_cong) (use at assms(5) in auto)
  then show ?thesis using assms at
    by (auto simp: sends_def moved_def same_chunks_def rest_of_def intro: option.rel_refl)
qed

lemma after_moved:
  assumes "moved a d t nt nt1" "a \<notin> set as" "all_live windows os files nt as"
  shows "chunk_finished d \<Longrightarrow> ready (names_of nt as) (nt_cache nt1) \<Longrightarrow> after_step windows os files ready (a # as) (Finished a k) nt1"
    "live windows os files d \<Longrightarrow> after_step windows os files ready (a # as) (Not_finished k) nt1"
proof -
  have at: "at_net nt1 b = (if b = a then Some d else at_net nt b)" for b using assms(1) by (simp add: moved_def)
  have same: "at_net nt1 b = at_net nt b" if "b \<in> set as" for b using at that assms(2) by auto
  have l: "all_live windows os files nt1 as" "names_of nt1 as = names_of nt as" using all_cong(2,3) [OF same] assms(3) by simp_all
  show "after_step windows os files ready (a # as) (Finished a k) nt1" if "chunk_finished d" "ready (names_of nt as) (nt_cache nt1)"
  proof -
    have "a # as = [a] @ as \<and> [a] \<noteq> [] \<and> last [a] = a \<and> all_done nt1 [a] \<and> all_live windows os files nt1 as \<and> ready (names_of nt1 as) (nt_cache nt1)"
      using l that at by (simp add: all_done_def)
    then show ?thesis unfolding after_step_def outcome.case by blast
  qed
  show "after_step windows os files ready (a # as) (Not_finished k) nt1" if "live windows os files d"
  proof -
    have "a # as = [] @ (a # as) \<and> all_done nt1 [] \<and> all_live windows os files nt1 (a # as)"
      using l that at by (simp add: all_done_def all_live_def)
    then show ?thesis unfolding after_step_def outcome.case by blast
  qed
qed

lemma rest_split: "n \<le> length (chunk_octets files c) \<Longrightarrow> ck_type c = MEM_CHUNK \<Longrightarrow> 0 \<le> ck_offset c \<Longrightarrow>
    chunk_octets files c = take n (chunk_octets files c) @ chunk_octets files (c\<lparr>ck_offset := ck_offset c + int n\<rparr>)"
  by (auto simp: chunk_octets_def nat_add_distrib drop_drop add.commute simp flip: drop_drop)

section \<open>The stat cache\<close>

text \<open>The cache answers for the files in the queue what the file system says, which is the size of the file.\<close>

definition coherent :: "file_system \<Rightarrow> stat_conf \<Rightarrow> (string \<rightharpoonup> string) \<Rightarrow> string list \<Rightarrow> stat_cache \<Rightarrow> bool" where
  "coherent fs conf files ns sc = (cache_tree_ok sc \<and> mime_ok (mimetypes conf) \<and> list_all name_ok ns \<and>
     no_collision (cache_map sc) (map (Pair (follow_symlink conf)) ns) \<and> this_second fs conf (cache_map sc) (map (Pair (follow_symlink conf)) ns) \<and>
     (\<forall>n \<in> set ns. \<forall>st d. fs_stat fs n = Some st \<longrightarrow> files n = Some d \<longrightarrow> st_size st = int (length d)))"

lemma coherent_lookup:
  assumes "coherent fs conf files (n # ns) sc" "files n = Some d"
  obtains h r sc1 where "stat_cache_get_entry fs conf sc (Some n) = Some (h, r, sc1)" "coherent fs conf files ns sc1"
    "h = HANDLER_ERROR \<or> h = HANDLER_GO_ON \<and> (\<exists>e. r = Some e \<and> st_size (sce_st e) = int (length d))"
proof -
  note c = assms(1) [unfolded coherent_def]
  obtain h r m where one: "get_entry_abs fs (conf\<lparr>follow_symlink := follow_symlink conf\<rparr>) (cache_map sc) n = Some (h, r, m)"
    "answer_ok fs conf (follow_symlink conf, n) (h, r)" "no_collision m (map (Pair (follow_symlink conf)) ns)"
    "this_second fs conf m (map (Pair (follow_symlink conf)) ns)"
    using lookup_one [of n conf "cache_map sc" "follow_symlink conf" "map (Pair (follow_symlink conf)) ns" fs] c by auto
  with get_entry_refines [of sc fs conf n] c obtain sc1
    where sc1: "stat_cache_get_entry fs conf sc (Some n) = Some (h, r, sc1)" "m = cache_map sc1" "cache_tree_ok sc1" by auto
  have "h = HANDLER_ERROR \<or> h = HANDLER_GO_ON \<and> (\<exists>e. r = Some e \<and> st_size (sce_st e) = int (length d))"
  proof (cases "readable fs n")
    case None
    then show ?thesis using one(2) by (simp add: answer_ok_def)
  next
    case (Some st)
    then obtain e where e: "h = HANDLER_GO_ON" "r = Some e" "agrees fs conf (follow_symlink conf) n e"
      using one(2) by (auto simp: answer_ok_def split: option.splits)
    then have "fs_stat fs n = Some (sce_st e)" by (auto simp: agrees_def readable_def split: option.splits if_splits)
    then show ?thesis using e c assms(2) by auto
  qed
  moreover have "coherent fs conf files ns sc1" using c sc1 one(3,4) by (simp add: coherent_def)
  ultimately show thesis using that [OF sc1(1)] by blast
qed

lemma coherent_tree: "coherent fs conf files ns sc \<Longrightarrow> cache_tree_ok sc"
  by (simp add: coherent_def)

section \<open>The step of write\<close>

lemma live_fileE:
  assumes "live windows os files c" "ck_type c = FILE_CHUNK"
  obtains n d where "ck_file_name c = Some n" "c_str n = n" "files n = Some d" "0 \<le> ck_file_start c" "0 \<le> ck_offset c"
    "ck_offset c < ck_file_length c" "ck_file_start c + ck_file_length c \<le> int (length d)"
    "ck_file_fd c \<noteq> -1 \<longrightarrow> no_data os (ck_file_fd c) = d" "windows \<longrightarrow> window_ok c"
proof -
  obtain n d where "ck_file_name c = Some n" "name_ok n" "files n = Some d" "0 \<le> ck_file_start c" "0 \<le> ck_offset c"
    "ck_offset c < ck_file_length c" "ck_file_start c + ck_file_length c \<le> int (length d)"
    "ck_file_fd c \<noteq> -1 \<longrightarrow> no_data os (ck_file_fd c) = d" "windows \<longrightarrow> window_ok c"
    using assms unfolding live_def by (simp only: chunk_type.case) blast
  then show thesis using that [of n d] by (simp add: name_ok_def c_str_no_NUL)
qed

lemma names_Cons:
  assumes "at_net nt a = Some c"
  shows "names_of nt (a # as) = (if ck_type c = FILE_CHUNK then [bs_str (ck_file_name c)] else []) @ names_of nt as"
  using assms by (simp add: names_of_def)

lemma file_rest_split:
  assumes "ck_type c = FILE_CHUNK" "files (bs_str (ck_file_name c)) = Some d" "0 \<le> ck_file_start c" "0 \<le> ck_offset c"
    "m \<le> length (chunk_octets files c)"
  shows "chunk_octets files c = take m (chunk_octets files c) @ chunk_octets files (c\<lparr>ck_offset := ck_offset c + int m\<rparr>)"
proof -
  let ?l = "nat (ck_file_length c - ck_offset c)" and ?o = "nat (ck_file_start c + ck_offset c)"
  have "nat (ck_file_length c - (ck_offset c + int m)) = ?l - m" "nat (ck_file_start c + (ck_offset c + int m)) = ?o + m"
    using assms(3,4) by auto
  then have "chunk_octets files (c\<lparr>ck_offset := ck_offset c + int m\<rparr>) = drop m (chunk_octets files c)"
    using assms(1,2) by (simp add: chunk_octets_def drop_take drop_drop add.commute)
  then show ?thesis by simp
qed

lemma write_mem_ok:
  assumes "os_ok os files" "a \<notin> set as" "all_live windows os files nt as" "cache_tree_ok (nt_cache nt)"
    and "at_net nt a = Some c" "ck_type c = MEM_CHUNK" "live windows os files c" "ready (names_of nt (a # as)) (nt_cache nt)"
  shows "\<exists>out nt1. write_mem os fs conf a c nt = Some (out, nt1) \<and> sends files (a # as) nt nt1 \<and> cache_tree_ok (nt_cache nt1) \<and>
    after_step windows os files ready (a # as) out nt1"
proof (cases "ck_mem c")
  case None
  have "moved a c [] nt nt" using assms(5) by (simp add: moved_def)
  moreover have "chunk_finished c" using None assms(6) by (simp add: chunk_finished_def)
  ultimately have "after_step windows os files ready (a # as) (Finished a 0) nt"
    using after_moved(1) [OF _ assms(2,3)] assms(5,6,8) by (simp add: names_Cons)
  then show ?thesis using None assms(4) by (simp add: write_mem_def)
next
  case (Some s)
  then have off: "0 \<le> ck_offset c" "ck_offset c \<le> int (length s)" using assms(6,7) by (simp_all add: live_def)
  have rest: "mem_rest c = Some (chunk_octets files c)" "chunk_octets files c = drop (nat (ck_offset c)) s"
    using Some off assms(6) by (simp_all add: mem_rest_def chunk_octets_def)
  obtain r nt1 where o: "offer os (chunk_octets files c) nt = (r, nt1)" by (cases "offer os (chunk_octets files c) nt")
  note off1 = offer_cases [OF assms(1) o]
  show ?thesis
  proof (cases r)
    case (Errno e)
    then have "sends files (a # as) nt nt1" using off1 by (intro sends_still) auto
    then show ?thesis using Some rest(1) o Errno off1 assms(4) by (simp add: write_mem_def after_step_def)
  next
    case (Sent m)
    let ?d = "c\<lparr>ck_offset := ck_offset c + int m\<rparr>"
    have m: "m \<le> length (chunk_octets files c)" "nt_sent nt1 = nt_sent nt @ take m (chunk_octets files c)" using off1(4) Sent by auto
    have at1: "at_net nt1 a = Some c" using off1(1) assms(5) by simp
    note adv = advance_set [OF at1, of m]
    let ?nt = "set_at a ?d (count_out m nt1)"
    have mv: "moved a ?d (take m (chunk_octets files c)) nt ?nt"
      using m off1 at_set [of "count_out m nt1" a c ?d] at1 by (simp add: moved_def)
    have sd: "sends files (a # as) nt ?nt"
      by (rule sends_moved [OF mv assms(5) _ rest_split [OF m(1) assms(6) off(1)] assms(2)]) (simp add: same_source_def)
    have fin: "chunk_finished ?d" if "ck_offset c + int m = int (length s)" using that Some assms(6) by (simp add: chunk_finished_def)
    have "live windows os files ?d" using Some off m(1) assms(6) rest(2) by (auto simp: live_def)
    moreover have "ready (names_of nt as) (nt_cache ?nt)" using assms(8) off1(3) by (simp add: names_Cons [OF assms(5)] assms(6))
    ultimately have "after_step windows os files ready (a # as) (if ck_offset c + int m = int (length s) then Finished a 0 else Not_finished 0) ?nt"
      using after_moved [OF mv assms(2,3)] fin by (auto simp del: set_at_simps)
    then show ?thesis using Some rest(1) o Sent adv sd off1(3) assms(4) by (simp add: write_mem_def)
  qed
qed

text \<open>\<open>m\<close> octets of the file chunk \<open>c\<close> have been sent; in the meantime its descriptor and its window may have changed.\<close>

lemma file_moved:
  assumes "at_net nt a = Some c" "at_net nt1 a = Some c1" "\<And>b. b \<noteq> a \<Longrightarrow> at_net nt1 b = at_net nt b" "nt_queue nt1 = nt_queue nt"
    and "nt_sent nt1 = nt_sent nt @ take m (chunk_octets files c)" "m \<le> length (chunk_octets files c)"
    and "same_source c c1" "ck_offset c1 = ck_offset c" "live windows os files c" "ck_type c = FILE_CHUNK" "a \<notin> set as"
  shows "\<exists>nt2. advance a m nt1 = Some nt2 \<and> nt2 = set_at a (c1\<lparr>ck_offset := ck_offset c + int m\<rparr>) (count_out m nt1) \<and>
    moved a (c1\<lparr>ck_offset := ck_offset c + int m\<rparr>) (take m (chunk_octets files c)) nt nt2 \<and> sends files (a # as) nt nt2 \<and>
    ck_offset c + int m \<le> ck_file_length c"
proof -
  let ?d = "c1\<lparr>ck_offset := ck_offset c + int m\<rparr>" and ?nt = "set_at a (c1\<lparr>ck_offset := ck_offset c + int m\<rparr>) (count_out m nt1)"
  obtain n d where f: "ck_file_name c = Some n" "files n = Some d" "0 \<le> ck_file_start c" "0 \<le> ck_offset c" "ck_offset c < ck_file_length c"
    using assms(9,10) by (rule live_fileE)
  have adv: "advance a m nt1 = Some ?nt" using advance_set [OF assms(2), of m] assms(8) by simp
  have mv: "moved a ?d (take m (chunk_octets files c)) nt ?nt"
    using at_set [of "count_out m nt1" a c1 ?d] assms(2-6) by (simp add: moved_def)
  have "chunk_octets files ?d = chunk_octets files (c\<lparr>ck_offset := ck_offset c + int m\<rparr>)"
    using assms(7) by (simp add: chunk_octets_def same_source_def cong: chunk_type.case_cong)
  then have sp: "chunk_octets files c = take m (chunk_octets files c) @ chunk_octets files ?d"
    using file_rest_split [OF assms(10), of files d m] f assms(6) by simp
  have "sends files (a # as) nt ?nt"
    by (rule sends_moved [OF mv assms(1) _ sp assms(11)]) (use assms(7) in \<open>simp add: same_source_def\<close>)
  moreover have "length (chunk_octets files c) \<le> nat (ck_file_length c - ck_offset c)" using assms(10) by (simp add: chunk_octets_def)
  then have "ck_offset c + int m \<le> ck_file_length c" using assms(6) f(5) by linarith
  ultimately show ?thesis using adv mv by blast
qed

text \<open>After a part of a file has been sent.\<close>

lemma after_file:
  assumes "moved a d t nt nt1" "a \<notin> set as" "all_live windows os files nt as" "ck_type d = FILE_CHUNK" "ck_offset d \<le> ck_file_length d"
    and "ck_offset d < ck_file_length d \<Longrightarrow> live windows os files d" "ready (names_of nt as) (nt_cache nt1)"
  shows "after_step windows os files ready (a # as) (if ck_offset d = ck_file_length d then Finished a 0 else Not_finished 0) nt1"
proof (cases "ck_offset d = ck_file_length d")
  case True
  then have "chunk_finished d" using assms(4) by (simp add: chunk_finished_def)
  then show ?thesis using True after_moved(1) [OF assms(1-3)] assms(7) by simp
next
  case False
  then show ?thesis using after_moved(2) [OF assms(1-3)] assms(5,6) by simp
qed

lemma map_read_all:
  assumes "0 \<le> off" "0 \<le> n" "off + n \<le> sz" "off + n \<le> int (length d)"
  shows "map_read d sz off n = Some (take (nat n) (drop (nat off) d))"
  using assms by (simp add: map_read_def)

lemma write_file_ok:
  assumes "os_ok os files" "a \<notin> set as" "all_live False os files nt as"
    and "at_net nt a = Some c" "ck_type c = FILE_CHUNK" "live False os files c" "coherent fs conf files (names_of nt (a # as)) (nt_cache nt)"
  shows "\<exists>out nt1. write_file os fs conf a c nt = Some (out, nt1) \<and> sends files (a # as) nt nt1 \<and> cache_tree_ok (nt_cache nt1) \<and>
    after_step False os files (coherent fs conf files) (a # as) out nt1"
proof -
  obtain n d where f: "ck_file_name c = Some n" "c_str n = n" "files n = Some d" "0 \<le> ck_file_start c" "0 \<le> ck_offset c"
    "ck_offset c < ck_file_length c" "ck_file_start c + ck_file_length c \<le> int (length d)"
    using assms(6,5) by (rule live_fileE)
  have names: "names_of nt (a # as) = n # names_of nt as" using assms(4,5) f(1) by (simp add: names_Cons)
  obtain h r sc where g: "stat_cache_get_entry fs conf (nt_cache nt) (Some n) = Some (h, r, sc)" "coherent fs conf files (names_of nt as) sc"
    "h = HANDLER_ERROR \<or> h = HANDLER_GO_ON \<and> (\<exists>e. r = Some e \<and> st_size (sce_st e) = int (length d))"
    using coherent_lookup [OF assms(7) [unfolded names] f(3)] .
  note sc = coherent_tree [OF g(2)]
  let ?nt = "nt\<lparr>nt_cache := sc\<rparr>"
  have still: "sends files (a # as) nt nt1" if "\<And>b. at_net nt1 b = at_net nt b" "nt_sent nt1 = nt_sent nt" "nt_queue nt1 = nt_queue nt" for nt1
    by (rule sends_still [OF that])
  show ?thesis
  proof (cases "h = HANDLER_ERROR")
    case True
    then show ?thesis using g(1) f(1) still [of ?nt] sc by (simp add: write_file_def after_step_def)
  next
    case False
    then obtain e where e: "h = HANDLER_GO_ON" "r = Some e" "st_size (sce_st e) = int (length d)" using g(3) by blast
    let ?fd = "no_open os (nt_calls nt) n"
    let ?nt2 = "?nt\<lparr>nt_calls := Suc (nt_calls nt)\<rparr>"
    have run: "write_file os fs conf a c nt = (if ?fd = -1 then Some (Give_up (-1), ?nt2)
       else (case no_mmap os (nt_calls ?nt2) of None \<Rightarrow> Some (Give_up (-1), note_closed ?fd ?nt2)
         | Some p \<Rightarrow> file_send os a c (st_size (sce_st e)) (no_data os ?fd) p (note_closed ?fd ?nt2)))"
      using g(1) f(1,2,6,7) e False by (simp add: write_file_def Let_def)
    show ?thesis
    proof (cases "?fd = -1 \<or> no_mmap os (nt_calls ?nt2) = None")
      case True
      then show ?thesis using run still [of ?nt2] still [of "note_closed ?fd ?nt2"] sc by (auto simp: after_step_def)
    next
      case False
      then obtain p where p: "no_mmap os (nt_calls ?nt2) = Some p" "?fd \<noteq> -1" by auto
      then have data: "no_data os ?fd = d" using assms(1) f(3) by (simp add: os_ok_def)
      let ?nt3 = "note_closed ?fd ?nt2"
      have rest: "map_read d (int (length d)) (ck_file_start c + ck_offset c) (ck_file_length c - ck_offset c) = Some (chunk_octets files c)"
        using f assms(5) by (subst map_read_all) (simp_all add: chunk_octets_def)
      obtain x nt4 where o: "offer os (chunk_octets files c) ?nt3 = (x, nt4)" by (cases "offer os (chunk_octets files c) ?nt3")
      note off = offer_cases [OF assms(1) o]
      have fs: "write_file os fs conf a c nt = (case (x, nt4) of (Errno _, nt1) \<Rightarrow> Some (Give_up (-1), note_unmapped p nt1)
        | (Sent m, nt1) \<Rightarrow> if m = 0 then Some (Give_up (-1), note_unmapped p nt1)
          else do { nt2 \<leftarrow> advance a m (note_unmapped p nt1);
            Some (if ck_offset c + int m = ck_file_length c then Finished a 0 else Not_finished 0, nt2) })"
        using run p data rest o e(3) by (simp add: file_send_def del: bind_eq_Some)
      show ?thesis
      proof (cases x)
        case (Errno e)
        then show ?thesis using fs still [of "note_unmapped p nt4"] off(1-3,5) sc by (simp add: after_step_def)
      next
        case (Sent m)
        show ?thesis
        proof (cases "m = 0")
          case True
          then show ?thesis using fs Sent still [of "note_unmapped p nt4"] off(1-4) sc by (simp add: after_step_def)
        next
          case False
          have m: "m \<le> length (chunk_octets files c)" "nt_sent nt4 = nt_sent nt @ take m (chunk_octets files c)" using off(4) [OF Sent] by simp_all
          obtain nt5 where mv: "advance a m (note_unmapped p nt4) = Some nt5"
            "nt5 = set_at a (c\<lparr>ck_offset := ck_offset c + int m\<rparr>) (count_out m (note_unmapped p nt4))"
            "moved a (c\<lparr>ck_offset := ck_offset c + int m\<rparr>) (take m (chunk_octets files c)) nt nt5" "sends files (a # as) nt nt5"
            "ck_offset c + int m \<le> ck_file_length c"
            using file_moved [OF assms(4) _ _ _ _ m(1) same_source_refl refl assms(6,5,2), of "note_unmapped p nt4"] m(2) off(1,2) assms(4) by auto
          have "after_step False os files (coherent fs conf files) (a # as)
              (if ck_offset c + int m = ck_file_length c then Finished a 0 else Not_finished 0) nt5"
            using after_file [OF mv(3) assms(2,3)] mv(2,5) assms(5,6) off(3) g(2) by (auto simp: live_def)
          then show ?thesis using fs Sent False mv(1,2,4) off(3) sc by simp
        qed
      qed
    qed
  qed
qed

interpretation wr: chunk_sender write_step False coherent
proof
  fix os files nt a as fs conf c
  assume a: "os_ok os files" "distinct (a # as)" "all_live False os files nt (a # as)"
    "coherent fs conf files (names_of nt (a # as)) (nt_cache nt)" "at_net nt a = Some c"
  then have l: "live False os files c" "all_live False os files nt as" "a \<notin> set as" by (auto simp: all_live_def)
  show "\<exists>out nt1. write_step os fs conf a c nt = Some (out, nt1) \<and> sends files (a # as) nt nt1 \<and> cache_tree_ok (nt_cache nt1) \<and>
      after_step False os files (coherent fs conf files) (a # as) out nt1"
  proof (cases "ck_type c")
    case MEM_CHUNK
    then show ?thesis
      using write_mem_ok [where ready = "coherent fs conf files", OF a(1) l(3,2) coherent_tree [OF a(4)] a(5) MEM_CHUNK l(1) a(4)] by (simp add: write_step_def)
  next
    case FILE_CHUNK
    then show ?thesis using write_file_ok [OF a(1) l(3,2) a(5) FILE_CHUNK l(1) a(4)] by (simp add: write_step_def)
  qed (use l(1) in \<open>simp add: live_def\<close>)
qed (rule coherent_tree)

section \<open>Several memory chunks at once\<close>

definition mem_chunk :: "chunk \<Rightarrow> bool" where
  "mem_chunk c = (ck_type c = MEM_CHUNK \<and> (case ck_mem c of None \<Rightarrow> True | Some s \<Rightarrow> 0 \<le> ck_offset c \<and> ck_offset c \<le> int (length s)))"

lemma live_mem: "ck_type c = MEM_CHUNK \<Longrightarrow> live windows os files c = mem_chunk c"
  by (simp add: live_def mem_chunk_def)

definition mems :: "net \<Rightarrow> nat list \<Rightarrow> bool" where
  "mems nt ms = (\<forall>a \<in> set ms. \<exists>c. at_net nt a = Some c \<and> mem_chunk c)"

definition octets_at :: "net \<Rightarrow> nat \<Rightarrow> string" where
  "octets_at nt a = (case at_net nt a of None \<Rightarrow> [] | Some c \<Rightarrow> chunk_octets Map.empty c)"

lemma mem_octets: "mem_chunk c \<Longrightarrow> chunk_octets files c = drop (nat (ck_offset c)) (bs_str (ck_mem c))"
  by (simp add: mem_chunk_def chunk_octets_def)

lemma mem_rest_ok: "mem_chunk c \<Longrightarrow> mem_rest c = Some (chunk_octets files c)"
  by (auto simp: mem_rest_def mem_octets mem_chunk_def split: option.splits)

lemma rest_of_mems: "mems nt ms \<Longrightarrow> rest_of files nt ms = concat (map (octets_at nt) ms)"
  unfolding rest_of_def by (rule arg_cong [of _ _ concat], rule map_cong) (auto simp: mems_def octets_at_def mem_octets)

lemma mem_run_ok: "chain w p as \<Longrightarrow> mem_run w k p = Some (takeWhile (\<lambda>a. \<exists>c. chunk_at w a = Some c \<and> ck_type c = MEM_CHUNK) (take k as))"
proof (induction k arbitrary: p as)
  case (Suc k)
  then show ?case by (cases as) (auto split: option.splits)
qed simp

lemma iov_fill_ok: "mems nt ms \<Longrightarrow> m + length (rest_of files nt ms) \<le> SSIZE_MAX \<Longrightarrow>
    iov_fill (nt_world nt) m ms = Some (map (\<lambda>a. (a, octets_at nt a)) ms)"
proof (induction ms arbitrary: m)
  case (Cons a ms)
  then obtain c where c: "at_net nt a = Some c" "mem_chunk c" "mems nt ms" by (auto simp: mems_def)
  have t: "mem_rest c = Some (octets_at nt a)" using mem_rest_ok [OF c(2), of Map.empty] c(1) by (simp add: octets_at_def)
  have "length (rest_of files nt (a # ms)) = length (octets_at nt a) + length (rest_of files nt ms)"
    using Cons.prems(1) c(3) by (simp add: rest_of_mems)
  with Cons t c show ?case by simp
qed simp

lemma mem_chunk_put:
  assumes "mem_chunk c" "n \<le> length (chunk_octets files c)"
  shows "mem_chunk (c\<lparr>ck_offset := ck_offset c + int n\<rparr>)"
    "chunk_octets files c = take n (chunk_octets files c) @ chunk_octets files (c\<lparr>ck_offset := ck_offset c + int n\<rparr>)"
    "n = length (chunk_octets files c) \<Longrightarrow> chunk_finished (c\<lparr>ck_offset := ck_offset c + int n\<rparr>)"
proof -
  show "mem_chunk (c\<lparr>ck_offset := ck_offset c + int n\<rparr>)" "n = length (chunk_octets files c) \<Longrightarrow> chunk_finished (c\<lparr>ck_offset := ck_offset c + int n\<rparr>)"
    using assms by (auto simp: mem_octets [OF assms(1)] mem_chunk_def chunk_finished_def split: option.splits)
  show "chunk_octets files c = take n (chunk_octets files c) @ chunk_octets files (c\<lparr>ck_offset := ck_offset c + int n\<rparr>)"
  proof (cases "ck_mem c")
    case None
    then show ?thesis using assms(1) by (simp add: chunk_octets_def mem_chunk_def)
  next
    case (Some s)
    then show ?thesis using assms by (intro rest_split) (simp_all add: mem_chunk_def)
  qed
qed

lemma set_at_same: "at_net nt a = Some c \<Longrightarrow> same_source c d \<Longrightarrow> same_chunks nt (set_at a d nt)"
  by (simp add: same_chunks_def at_set option.rel_refl)

text \<open>Of the chunks \<open>ms\<close>, \<open>pre\<close> is done and \<open>post\<close> is not.\<close>

definition iov_result :: "nat list \<Rightarrow> nat \<Rightarrow> nat \<Rightarrow> bool \<Rightarrow> net \<Rightarrow> outcome \<Rightarrow> net \<Rightarrow> nat list \<Rightarrow> nat list \<Rightarrow> bool" where
  "iov_result ms n c fin nt out nt1 pre post = (same_chunks nt nt1 \<and> (\<forall>b. b \<notin> set ms \<longrightarrow> at_net nt1 b = at_net nt b) \<and>
     nt_sent nt1 = nt_sent nt \<and> nt_queue nt1 = nt_queue nt \<and> nt_cache nt1 = nt_cache nt \<and>
     ms = pre @ post \<and> all_done nt1 pre \<and> mems nt1 post \<and>
     concat (map (octets_at nt) ms) = take n (concat (map (octets_at nt) ms)) @ concat (map (octets_at nt1) ms) \<and>
     (case out of Give_up _ \<Rightarrow> False | Not_finished _ \<Rightarrow> True
      | Finished b j \<Rightarrow> post = [] \<and> (pre = [] \<longrightarrow> fin) \<and> b = (if pre = [] then c else last pre)))"

text \<open>The first chunk after \<open>n\<close> octets of it have been sent.\<close>

definition shifted :: "net \<Rightarrow> nat \<Rightarrow> nat \<Rightarrow> net" where
  "shifted nt a n = set_at a ((the (at_net nt a))\<lparr>ck_offset := ck_offset (the (at_net nt a)) + int n\<rparr>) nt"

lemma shifted_simps [simp]:
  "nt_sent (shifted nt a n) = nt_sent nt" "nt_queue (shifted nt a n) = nt_queue nt" "nt_cache (shifted nt a n) = nt_cache nt"
  by (simp_all add: shifted_def)

lemma shifted_ok:
  assumes "mems nt (a # ms)" "a \<notin> set ms" "n \<le> length (octets_at nt a)"
  shows "change_chunk a (\<lambda>tc. tc\<lparr>ck_offset := ck_offset tc + int n\<rparr>) nt = Some (shifted nt a n)" "same_chunks nt (shifted nt a n)"
    "\<And>b. b \<noteq> a \<Longrightarrow> at_net (shifted nt a n) b = at_net nt b" "mems (shifted nt a n) (a # ms)"
    "octets_at nt a = take n (octets_at nt a) @ octets_at (shifted nt a n) a"
    "map (octets_at (shifted nt a n)) ms = map (octets_at nt) ms" "map (\<lambda>b. (b, octets_at (shifted nt a n) b)) ms = map (\<lambda>b. (b, octets_at nt b)) ms"
    "n = length (octets_at nt a) \<Longrightarrow> all_done (shifted nt a n) [a]"
proof -
  obtain d where d: "at_net nt a = Some d" "mem_chunk d" "mems nt ms" using assms(1) by (auto simp: mems_def)
  have n: "n \<le> length (chunk_octets Map.empty d)" using assms(3) d(1) by (simp add: octets_at_def)
  let ?d = "d\<lparr>ck_offset := ck_offset d + int n\<rparr>"
  have sh: "shifted nt a n = set_at a ?d nt" using d(1) by (simp add: shifted_def)
  have same: "at_net (shifted nt a n) b = (if b = a then Some ?d else at_net nt b)" for b unfolding sh by (rule at_set [OF d(1)])
  show "change_chunk a (\<lambda>tc. tc\<lparr>ck_offset := ck_offset tc + int n\<rparr>) nt = Some (shifted nt a n)" using change_chunk_set [OF d(1)] sh by simp
  show "same_chunks nt (shifted nt a n)" unfolding sh by (rule set_at_same [OF d(1)]) (simp add: same_source_def)
  show "at_net (shifted nt a n) b = at_net nt b" if "b \<noteq> a" for b using same that by simp
  show "mems (shifted nt a n) (a # ms)" using d(3) mem_chunk_put(1) [OF d(2) n] same assms(2) by (auto simp: mems_def)
  show "octets_at nt a = take n (octets_at nt a) @ octets_at (shifted nt a n) a"
    using mem_chunk_put(2) [OF d(2) n] d(1) same by (simp add: octets_at_def)
  show "map (octets_at (shifted nt a n)) ms = map (octets_at nt) ms" "map (\<lambda>b. (b, octets_at (shifted nt a n) b)) ms = map (\<lambda>b. (b, octets_at nt b)) ms"
    using assms(2) same by (auto simp: octets_at_def)
  show "all_done (shifted nt a n) [a]" if "n = length (octets_at nt a)"
    using mem_chunk_put(3) [OF d(2) n] that d(1) same by (simp add: all_done_def octets_at_def)
qed

lemma iov_result_first:
  assumes "mems nt (a # ms)" "a \<notin> set ms" "length (octets_at nt a) \<le> n"
    and "iov_result ms (n - length (octets_at nt a)) a True (shifted nt a (length (octets_at nt a))) out nt1 pre post"
  shows "iov_result (a # ms) n c fin nt out nt1 (a # pre) post"
proof -
  note sh = shifted_ok [OF assms(1,2) order_refl]
  note r = assms(4) [unfolded iov_result_def sh(6)]
  have at1: "at_net nt1 a = at_net (shifted nt a (length (octets_at nt a))) a" using r assms(2) by blast
  then have d: "all_done nt1 [a]" using sh(8) by (simp add: all_done_def)
  then have "octets_at nt1 a = []" by (auto simp: all_done_def octets_at_def)
  then have eq: "concat (map (octets_at nt) (a # ms)) = take n (concat (map (octets_at nt) (a # ms))) @ concat (map (octets_at nt1) (a # ms))"
  proof -
    have "take (n - length (octets_at nt a)) (concat (map (octets_at nt) ms)) @ concat (map (octets_at nt1) ms) = concat (map (octets_at nt) ms)"
      using r by (metis (no_types, lifting))
    then show ?thesis using \<open>octets_at nt1 a = []\<close> assms(3) by simp
  qed
  have "same_chunks nt nt1" using same_chunks_trans [OF sh(2)] r by blast
  moreover have "\<forall>b. b \<notin> set (a # ms) \<longrightarrow> at_net nt1 b = at_net nt b" using r sh(3) by auto
  moreover have "all_done nt1 (a # pre)" using d r by (simp add: all_done_def)
  moreover have "case out of Give_up _ \<Rightarrow> False | Not_finished _ \<Rightarrow> True
      | Finished b j \<Rightarrow> post = [] \<and> (a # pre = [] \<longrightarrow> fin) \<and> b = (if a # pre = [] then c else last (a # pre))"
    using r by (cases out) simp_all
  moreover have "nt_sent nt1 = nt_sent nt" "nt_queue nt1 = nt_queue nt" "nt_cache nt1 = nt_cache nt" "a # ms = (a # pre) @ post" "mems nt1 post"
    using r by simp_all
  ultimately show ?thesis unfolding iov_result_def by (intro conjI eq)
qed

lemma iov_done_ok:
  assumes "distinct ms" "mems nt ms" "n \<le> length (concat (map (octets_at nt) ms))" "chain (nt_world nt) p (ms @ bs)"
    and "if fin then \<exists>d. at_net nt c = Some d \<and> ck_next d = p \<and> c \<notin> set ms else p = Some c"
  shows "\<exists>out nt1 pre post. iov_done (map (\<lambda>a. (a, octets_at nt a)) ms) n c k fin nt = Some (out, nt1) \<and> iov_result ms n c fin nt out nt1 pre post"
  using assms
proof (induction ms arbitrary: n c k fin nt p)
  case Nil
  then show ?case by (cases fin) (auto simp: iov_result_def all_done_def mems_def)
next
  case (Cons a ms)
  have a: "a \<notin> set ms" "distinct ms" using Cons.prems(1) by simp_all
  obtain d where d: "at_net nt a = Some d" "p = Some a" "chain (nt_world nt) (ck_next d) (ms @ bs)" using Cons.prems(2,4) by (auto simp: mems_def)
  let ?l = "length (octets_at nt a)"
  show ?case
  proof (cases "?l \<le> n")
    case True
    note sh = shifted_ok [OF Cons.prems(2) a(1) order_refl]
    let ?nt = "shifted nt a ?l"
    obtain d1 where d1: "at_net ?nt a = Some d1" "ck_next d1 = ck_next d" using same_chunksD [OF sh(2) d(1)] by (auto simp: same_source_def)
    obtain k1 where run: "iov_done (map (\<lambda>b. (b, octets_at nt b)) (a # ms)) n c k fin nt =
        iov_done (map (\<lambda>b. (b, octets_at ?nt b)) ms) (n - ?l) a k1 True ?nt"
    proof (cases fin)
      case f: True
      then obtain e where e: "at_net nt c = Some e" "ck_next e = Some a" "c \<noteq> a" using Cons.prems(5) d(2) by auto
      then have "at_net ?nt c = Some e" using sh(3) [of c] by simp
      then show thesis using that [of "Suc k"] True f sh(1,7) e(2) by simp
    next
      case False
      then show thesis using that [of k] True sh(1,7) Cons.prems(5) d(2) by simp
    qed
    have "n - ?l \<le> length (concat (map (octets_at ?nt) ms))" using Cons.prems(3) unfolding sh(6) by simp
    moreover have "chain (nt_world ?nt) (ck_next d) (ms @ bs)" using chain_same [OF sh(2)] d(3) by simp
    moreover have "mems ?nt ms" using sh(4) by (simp add: mems_def)
    ultimately obtain out nt1 pre post where "iov_done (map (\<lambda>b. (b, octets_at ?nt b)) ms) (n - ?l) a k1 True ?nt = Some (out, nt1)"
      "iov_result ms (n - ?l) a True ?nt out nt1 pre post"
      using Cons.IH [OF a(2), of ?nt "n - ?l" "ck_next d" True a k1] d1 a(1) by auto
    then show ?thesis using run iov_result_first [OF Cons.prems(2) a(1) True] by metis
  next
    case False
    then have n: "n \<le> ?l" by simp
    note sh = shifted_ok [OF Cons.prems(2) a(1) n]
    have run: "iov_done (map (\<lambda>b. (b, octets_at nt b)) (a # ms)) n c k fin nt = Some (Not_finished k, shifted nt a n)" using False sh(1) by simp
    have eq: "concat (map (octets_at nt) (a # ms)) = take n (concat (map (octets_at nt) (a # ms))) @ concat (map (octets_at (shifted nt a n)) (a # ms))"
    proof -
      have "take n (octets_at nt a @ concat (map (octets_at nt) ms)) = take n (octets_at nt a)" using n by simp
      then show ?thesis unfolding list.map concat.simps sh(6) by (metis append_assoc sh(5))
    qed
    have "iov_result (a # ms) n c fin nt (Not_finished k) (shifted nt a n) [] (a # ms)"
      unfolding iov_result_def by (intro conjI eq) (use sh(2-4) in \<open>simp_all add: all_done_def\<close>)
    with run show ?thesis by blast
  qed
qed

lemma rest_of_types:
  assumes "\<And>a. a \<in> set ms \<Longrightarrow> \<exists>c. at_net nt a = Some c \<and> ck_type c = MEM_CHUNK"
  shows "rest_of files nt ms = concat (map (octets_at nt) ms)" "names_of nt ms = []"
proof -
  show "rest_of files nt ms = concat (map (octets_at nt) ms)"
    unfolding rest_of_def by (rule arg_cong [of _ _ concat], rule map_cong) (use assms in \<open>fastforce simp: octets_at_def chunk_octets_def\<close>)+
  show "names_of nt ms = []" using assms by (fastforce simp: names_of_def)
qed

lemma mems_type: "mems nt ms \<Longrightarrow> a \<in> set ms \<Longrightarrow> \<exists>c. at_net nt a = Some c \<and> ck_type c = MEM_CHUNK"
  by (auto simp: mems_def mem_chunk_def)

lemma mem_small_length:
  assumes "mems nt ms" "mem_small nt (ms @ bs)"
  shows "length (rest_of files nt ms) \<le> SSIZE_MAX"
proof -
  have "length (rest_of files nt ms) \<le> sum_list (map (\<lambda>a. case at_net nt a of None \<Rightarrow> 0 | Some c \<Rightarrow> length (bs_str (ck_mem c))) ms)"
    using assms(1) by (induction ms) (auto simp: rest_of_def mems_def mem_octets)
  then show ?thesis using assms(2) by (simp add: mem_small_def)
qed

text \<open>The memory chunks at the head of the queue.\<close>

definition mem_head :: "net \<Rightarrow> nat list \<Rightarrow> nat list" where
  "mem_head nt as = takeWhile (\<lambda>a. \<exists>c. at_net nt a = Some c \<and> ck_type c = MEM_CHUNK) (take UIO_MAXIOV as)"

lemma mem_head_split:
  assumes "all_live windows os files nt (a # as)" "at_net nt a = Some c" "ck_type c = MEM_CHUNK"
  obtains ms bs where "mem_head nt (a # as) = ms" "a # as = ms @ bs" "ms \<noteq> []" "mems nt ms" "all_live windows os files nt bs"
proof -
  let ?ms = "mem_head nt (a # as)" and ?bs = "drop (length (mem_head nt (a # as))) (a # as)"
  have "take (length ?ms) (a # as) = ?ms"
  proof -
    have "?ms = take (length ?ms) (take UIO_MAXIOV (a # as))" unfolding mem_head_def by (rule takeWhile_eq_take)
    moreover have "length ?ms \<le> length (take UIO_MAXIOV (a # as))" unfolding mem_head_def by (rule length_takeWhile_le)
    ultimately show ?thesis by (simp only: take_take length_take min.bounded_iff min.absorb1)
  qed
  then have split: "a # as = ?ms @ ?bs" by (metis append_take_drop_id)
  have ne: "?ms \<noteq> []" using assms(2,3) by (simp add: mem_head_def UIO_MAXIOV_def)
  have live: "all_live windows os files nt ?ms" "all_live windows os files nt ?bs" using assms(1) split of_append(4) by metis+
  have "mems nt ?ms" unfolding mems_def
  proof
    fix b assume b: "b \<in> set ?ms"
    then obtain d where d: "at_net nt b = Some d" "ck_type d = MEM_CHUNK" unfolding mem_head_def by (auto dest: set_takeWhileD)
    then show "\<exists>d. at_net nt b = Some d \<and> mem_chunk d" using live(1) b live_mem by (fastforce simp: all_live_def)
  qed
  then show thesis using that [OF refl split ne] live(2) by blast
qed

lemma mems_live: "mems nt ms \<Longrightarrow> all_live windows os files nt ms"
  unfolding mems_def all_live_def using live_mem by (fastforce simp: mem_chunk_def)

lemma iov_after:
  assumes "iov_result ms n a False nt0 out nt1 pre post" "distinct (ms @ bs)" "ms \<noteq> []" "all_live windows os files nt0 bs" "ready (names_of nt0 bs) (nt_cache nt0)"
  shows "after_step windows os files ready (ms @ bs) out nt1"
proof -
  note r = assms(1) [unfolded iov_result_def]
  have eq: "\<And>b. b \<in> set bs \<Longrightarrow> at_net nt1 b = at_net nt0 b" using r assms(2) by (metis disjoint_iff distinct_append)
  have bs: "all_live windows os files nt1 bs" "names_of nt1 bs = names_of nt0 bs" using all_cong(2,3) [of bs nt1 nt0, OF eq] assms(4) by simp_all
  show ?thesis
  proof (cases out)
    case (Give_up e)
    then show ?thesis using r by simp
  next
    case (Not_finished j)
    have "ms @ bs = pre @ (post @ bs)" "all_done nt1 pre" "all_live windows os files nt1 (post @ bs)"
      using r bs(1) mems_live [of nt1 post] by (simp_all add: of_append(4))
    then show ?thesis unfolding after_step_def Not_finished outcome.case by blast
  next
    case (Finished b j)
    then have "ms = pre" "b = last pre" "all_done nt1 pre" using r by (auto split: if_splits)
    then have "ms @ bs = ms @ bs \<and> ms \<noteq> [] \<and> last ms = b \<and> all_done nt1 ms \<and> all_live windows os files nt1 bs \<and> ready (names_of nt1 bs) (nt_cache nt1)"
      using assms(3,5) bs r by simp
    then show ?thesis unfolding after_step_def Finished outcome.case by blast
  qed
qed

lemma iov_sends:
  assumes "iov_result ms n a False (count_out n nt1) out nt2 pre post" "mems nt ms" "distinct (ms @ bs)"
    and "\<And>b. at_net nt1 b = at_net nt b" "nt_queue nt1 = nt_queue nt" "nt_sent nt1 = nt_sent nt @ take n (concat (map (octets_at nt) ms))"
    and "n \<le> length (concat (map (octets_at nt) ms))"
  shows "sends files (ms @ bs) nt nt2"
proof -
  note r = assms(1) [unfolded iov_result_def]
  have oct: "octets_at (count_out n nt1) = octets_at nt" using assms(4) by (simp add: octets_at_def fun_eq_iff)
  have same: "same_chunks nt nt2" using r assms(4) by (simp add: same_chunks_def)
  have rest: "rest_of files nt ms = concat (map (octets_at nt) ms)" by (rule rest_of_types(1)) (rule mems_type [OF assms(2)])
  have "\<exists>c. at_net nt2 b = Some c \<and> ck_type c = MEM_CHUNK" if "b \<in> set ms" for b
    using mems_type [OF assms(2) that] same_chunksD [OF same] by (fastforce simp: same_source_def)
  then have rest2: "rest_of files nt2 ms = concat (map (octets_at nt2) ms)" by (rule rest_of_types(1))
  have eq: "\<And>b. b \<in> set bs \<Longrightarrow> at_net nt2 b = at_net nt b" using r assms(3,4) by (metis disjoint_iff distinct_append note_simps(3))
  have bs: "rest_of files nt2 bs = rest_of files nt bs" by (rule all_cong(1)) (rule eq)
  have sum: "concat (map (octets_at nt) ms) = take n (concat (map (octets_at nt) ms)) @ concat (map (octets_at nt2) ms)"
    using r unfolding oct by (elim conjE)
  have "nt_sent nt2 @ rest_of files nt2 (ms @ bs) = nt_sent nt @ rest_of files nt (ms @ bs)"
    unfolding of_append(1) rest rest2 bs using r assms(6) sum by (metis append_assoc note_simps(9))
  moreover have "\<forall>b. b \<notin> set (ms @ bs) \<longrightarrow> at_net nt2 b = at_net nt b" using r assms(4) by simp
  moreover have "nt_queue nt2 = (nt_queue nt)\<lparr>cq_bytes_out := cq_bytes_out (nt_queue nt) + int (length (nt_sent nt2)) - int (length (nt_sent nt))\<rparr>"
    using r assms(5-7) by simp
  ultimately show ?thesis using same unfolding sends_def by blast
qed

lemma sent_or_error_cases:
  assumes "os_ok os files" "offer os s nt = (r, nt1)"
  shows "sent_or_error r = Inl e \<Longrightarrow> e < 0 \<and> nt_sent nt1 = nt_sent nt"
    "sent_or_error r = Inr n \<Longrightarrow> n \<le> length s \<and> nt_sent nt1 = nt_sent nt @ take n s"
  using offer_cases [OF assms] by (auto simp: sent_or_error_def split: sys_answer.splits if_splits)

lemma writev_mem_ok:
  assumes "os_ok os files" "chain (nt_world nt) (Some a) (a # as)" "distinct (a # as)" "all_live windows os files nt (a # as)"
    and "mem_small nt (a # as)" "cache_tree_ok (nt_cache nt)" "at_net nt a = Some c" "ck_type c = MEM_CHUNK"
    and "ready (names_of nt (a # as)) (nt_cache nt)"
  shows "\<exists>out nt1. writev_mem UIO_MAXIOV os fs conf a c nt = Some (out, nt1) \<and> sends files (a # as) nt nt1 \<and> cache_tree_ok (nt_cache nt1) \<and>
    after_step windows os files ready (a # as) out nt1"
proof -
  obtain ms bs where ms: "mem_head nt (a # as) = ms" "a # as = ms @ bs" "ms \<noteq> []" "mems nt ms" "all_live windows os files nt bs"
    using mem_head_split [OF assms(4,7,8)] .
  have run: "mem_run (nt_world nt) UIO_MAXIOV (Some a) = Some ms" using mem_run_ok [OF assms(2), of UIO_MAXIOV] ms(1) by (simp add: mem_head_def)
  have small: "length (rest_of files nt ms) \<le> SSIZE_MAX" using mem_small_length [OF ms(4)] assms(5) ms(2) by metis
  have fill: "iov_fill (nt_world nt) 0 ms = Some (map (\<lambda>b. (b, octets_at nt b)) ms)" using iov_fill_ok [OF ms(4), of 0 files] small by simp
  let ?s = "concat (map (octets_at nt) ms)"
  obtain r nt1 where o: "offer os ?s nt = (r, nt1)" by (cases "offer os ?s nt")
  note off = offer_cases(1-3) [OF assms(1) o] and soe = sent_or_error_cases [OF assms(1) o]
  have step: "writev_mem UIO_MAXIOV os fs conf a c nt = (case sent_or_error r of Inl e \<Rightarrow> Some (Give_up e, nt1)
      | Inr n \<Rightarrow> iov_done (map (\<lambda>b. (b, octets_at nt b)) ms) n a 0 False (count_out n nt1))"
    by (simp add: writev_mem_def run fill o comp_def)
  show ?thesis
  proof (cases "sent_or_error r")
    case (Inl e)
    then show ?thesis using step soe(1) sends_still [of nt1 nt] off assms(6) by (simp add: after_step_def)
  next
    case (Inr n)
    let ?nt = "count_out n nt1"
    have oct: "octets_at ?nt = octets_at nt" using off(1) by (simp add: octets_at_def fun_eq_iff)
    have ch: "chain (nt_world ?nt) (Some a) (ms @ bs)"
      using chain_same [of nt ?nt "Some a" "ms @ bs"] off(1) assms(2) ms(2) by (simp add: same_chunks_def option.rel_refl)
    have m: "mems ?nt ms" using ms(4) off(1) by (simp add: mems_def)
    obtain out nt2 pre post where d: "iov_done (map (\<lambda>b. (b, octets_at nt b)) ms) n a 0 False ?nt = Some (out, nt2)"
      "iov_result ms n a False ?nt out nt2 pre post"
      using iov_done_ok [OF _ m _ ch, of n False a 0] soe(2) [OF Inr] assms(3) ms(2) unfolding oct by (metis distinct_append)
    have dist: "distinct (ms @ bs)" using assms(3) ms(2) by simp
    have "sends files (ms @ bs) nt nt2"
      by (rule iov_sends [OF d(2) ms(4) dist off(1,2)]) (use soe(2) [OF Inr] in simp_all)
    moreover have "names_of nt (a # as) = names_of nt bs" using rest_of_types(2) [OF mems_type [OF ms(4)]] ms(2) by (simp add: of_append(2))
    then have "ready (names_of ?nt bs) (nt_cache ?nt)" using assms(9) all_cong(2) [of bs ?nt nt] off(1,3) by simp
    then have "after_step windows os files ready (ms @ bs) out nt2"
      using iov_after [OF d(2) dist ms(3)] ms(5) all_cong(3) [of bs ?nt nt] off(1) by simp
    moreover have "nt_cache nt2 = nt_cache nt" using d(2) off(3) by (simp add: iov_result_def)
    ultimately show ?thesis using step Inr d(1) assms(6) ms(2) by simp
  qed
qed

section \<open>The step of linux-sendfile\<close>

text \<open>Only the chunk \<open>a\<close> differs, in its descriptor or its window; nothing has been sent.\<close>

definition touched :: "nat \<Rightarrow> chunk \<Rightarrow> chunk \<Rightarrow> net \<Rightarrow> net \<Rightarrow> bool" where
  "touched a c d nt nt1 = ((\<forall>b. at_net nt1 b = (if b = a then Some d else at_net nt b)) \<and> nt_sent nt1 = nt_sent nt \<and>
     nt_queue nt1 = nt_queue nt \<and> nt_cache nt1 = nt_cache nt \<and> same_source c d \<and> ck_offset d = ck_offset c)"

lemma touched_sends:
  assumes "touched a c d nt nt1" "at_net nt a = Some c" "a \<notin> set as"
  shows "sends files (a # as) nt nt1"
proof -
  have "moved a d [] nt nt1" using assms(1) by (simp add: touched_def moved_def)
  moreover have "chunk_octets files c = chunk_octets files d"
    using assms(1) by (simp add: touched_def same_source_def chunk_octets_def cong: chunk_type.case_cong)
  ultimately show ?thesis using sends_moved [of a d "[]" nt nt1 c] assms by (simp add: touched_def)
qed

lemma touched_trans: "touched a c d nt nt1 \<Longrightarrow> touched a d e nt1 nt2 \<Longrightarrow> touched a c e nt nt2"
  unfolding touched_def using same_source_trans by auto

lemma touched_change:
  assumes "at_net nt a = Some c" "same_source c (f c)" "ck_offset (f c) = ck_offset c"
    and "\<And>b. at_net nt0 b = at_net nt b" "nt_sent nt0 = nt_sent nt" "nt_queue nt0 = nt_queue nt" "nt_cache nt0 = nt_cache nt"
  shows "\<exists>nt1. change_chunk a f nt0 = Some nt1 \<and> touched a c (f c) nt nt1 \<and> nt_calls nt1 = nt_calls nt0"
proof -
  have "at_net nt0 a = Some c" using assms(1,4) by simp
  from change_chunk_set [OF this, of f] at_set [OF this, of "f c"] show ?thesis using assms by (simp add: touched_def)
qed

lemma open_chunk_ok:
  assumes "os_ok os files" "at_net nt a = Some c0" "same_source c c0" "ck_file_fd c = ck_file_fd c0" "ck_file_name c = Some n" "c_str n = n"
    and "files n = Some d" "ck_file_fd c \<noteq> -1 \<Longrightarrow> no_data os (ck_file_fd c) = d"
  shows "\<exists>fd nt1. open_chunk os a c nt = Some (fd, nt1) \<and> touched a c0 (c0\<lparr>ck_file_fd := fd\<rparr>) nt nt1 \<and> (fd \<noteq> -1 \<longrightarrow> no_data os fd = d)"
proof (cases "ck_file_fd c = -1")
  case False
  have "c0\<lparr>ck_file_fd := ck_file_fd c\<rparr> = c0" using assms(4) by simp
  then have "touched a c0 (c0\<lparr>ck_file_fd := ck_file_fd c\<rparr>) nt nt" using assms(2) by (simp add: touched_def)
  then show ?thesis using False assms(8) by (simp add: open_chunk_def)
next
  case True
  let ?fd = "no_open os (nt_calls nt) n"
  obtain nt1 where "change_chunk a (\<lambda>c. c\<lparr>ck_file_fd := ?fd\<rparr>) (nt\<lparr>nt_calls := Suc (nt_calls nt)\<rparr>) = Some nt1"
    "touched a c0 (c0\<lparr>ck_file_fd := ?fd\<rparr>) nt nt1"
    using touched_change [OF assms(2), of "\<lambda>c. c\<lparr>ck_file_fd := ?fd\<rparr>" "nt\<lparr>nt_calls := Suc (nt_calls nt)\<rparr>"] by (auto simp: same_source_def)
  moreover have "?fd \<noteq> -1 \<longrightarrow> no_data os ?fd = d" using assms(1,7) by (simp add: os_ok_def)
  ultimately show ?thesis using True assms(5,6) by (simp add: open_chunk_def Let_def)
qed

lemma sendfile_none_ok:
  assumes "cache_tree_ok (nt_cache nt)" "mime_ok (mimetypes conf)" "ck_file_name c = Some n"
  shows "\<exists>e sc. sendfile_none fs conf offset c nt = Some (Give_up e, nt\<lparr>nt_cache := sc\<rparr>) \<and> e < 0 \<and> cache_tree_ok sc"
proof -
  obtain h r sc where "stat_cache_get_entry fs conf (nt_cache nt) (Some n) = Some (h, r, sc)" "cache_tree_ok sc"
    "h = HANDLER_ERROR \<and> r = None \<or> h = HANDLER_GO_ON \<and> (\<exists>e. r = Some e)" using get_entry_total [OF assms(1,2)] .
  then have "sendfile_none fs conf offset c nt =
      Some (Give_up (if h = HANDLER_ERROR then -1 else if offset > st_size (sce_st (the r)) then -1 else -2), nt\<lparr>nt_cache := sc\<rparr>)"
    using assms(3) by (auto simp: sendfile_none_def)
  moreover have "(if h = HANDLER_ERROR then -1 else if offset > st_size (sce_st (the r)) then -1 else -2 :: int) < 0" by simp
  ultimately show ?thesis using \<open>cache_tree_ok sc\<close> by blast
qed

definition sendfile_ready :: "file_system \<Rightarrow> stat_conf \<Rightarrow> (string \<rightharpoonup> string) \<Rightarrow> string list \<Rightarrow> stat_cache \<Rightarrow> bool" where
  "sendfile_ready fs conf files ns sc = (cache_tree_ok sc \<and> mime_ok (mimetypes conf))"

text \<open>The octets that are offered begin the rest of the chunk.\<close>

lemma sendfile_octets_ok:
  assumes "ck_type c = FILE_CHUNK" "files (bs_str (ck_file_name c)) = Some d" "0 \<le> ck_file_start c" "0 \<le> ck_offset c" "ck_offset c < ck_file_length c"
  shows "\<exists>t u. sendfile_octets d (ck_file_start c + ck_offset c) (min (ck_file_length c - ck_offset c) (2 ^ 30 - 1)) = Some t \<and>
    chunk_octets files c = t @ u"
proof -
  let ?l = "ck_file_length c - ck_offset c" and ?r = "drop (nat (ck_file_start c + ck_offset c)) d"
  have "sendfile_octets d (ck_file_start c + ck_offset c) (min ?l (2 ^ 30 - 1)) = Some (take (nat (min ?l (2 ^ 30 - 1))) ?r)"
    using assms(3-5) by (simp add: sendfile_octets_def)
  moreover have "nat (min ?l (2 ^ 30 - 1)) \<le> nat ?l" by simp
  then have "chunk_octets files c = take (nat (min ?l (2 ^ 30 - 1))) ?r @ drop (nat (min ?l (2 ^ 30 - 1))) (take (nat ?l) ?r)"
    using assms(1,2) by (metis (no_types, lifting) append_take_drop_id chunk_octets_def chunk_type.simps(9) min.absorb1 option.sel take_take)
  ultimately show ?thesis by blast
qed

lemma sendfile_file_ok:
  assumes "os_ok os files" "a \<notin> set as" "all_live False os files nt as" "at_net nt a = Some c" "ck_type c = FILE_CHUNK"
    and "live False os files c" "sendfile_ready fs conf files (names_of nt (a # as)) (nt_cache nt)"
  shows "\<exists>out nt1. sendfile_file os fs conf a c nt = Some (out, nt1) \<and> sends files (a # as) nt nt1 \<and> cache_tree_ok (nt_cache nt1) \<and>
    after_step False os files (sendfile_ready fs conf files) (a # as) out nt1"
proof -
  obtain n d where f: "ck_file_name c = Some n" "c_str n = n" "files n = Some d" "0 \<le> ck_file_start c" "0 \<le> ck_offset c"
    "ck_offset c < ck_file_length c" "ck_file_start c + ck_file_length c \<le> int (length d)" "ck_file_fd c \<noteq> -1 \<longrightarrow> no_data os (ck_file_fd c) = d"
    using assms(6,5) by (rule live_fileE)
  have rdy: "cache_tree_ok (nt_cache nt)" "mime_ok (mimetypes conf)" using assms(7) by (simp_all add: sendfile_ready_def)
  obtain fd nt1 where op: "open_chunk os a c nt = Some (fd, nt1)" "touched a c (c\<lparr>ck_file_fd := fd\<rparr>) nt nt1" "fd \<noteq> -1 \<longrightarrow> no_data os fd = d"
    using open_chunk_ok [OF assms(1,4) same_source_refl refl f(1-3) f(8) [rule_format]] by blast
  note t1 = op(2) [unfolded touched_def]
  show ?thesis
  proof (cases "fd = -1")
    case True
    then show ?thesis using op(1) touched_sends [OF op(2) assms(4,2)] t1 rdy(1) by (simp add: sendfile_file_def after_step_def)
  next
    case False
    then have data: "no_data os fd = d" using op(3) by blast
    obtain t u where t: "sendfile_octets d (ck_file_start c + ck_offset c) (min (ck_file_length c - ck_offset c) (2 ^ 30 - 1)) = Some t"
      "chunk_octets files c = t @ u" using sendfile_octets_ok [OF assms(5), of files d] f by auto
    obtain r nt2 where o: "offer os t nt1 = (r, nt2)" by (cases "offer os t nt1")
    note off = offer_cases(1-3) [OF assms(1) o] and soe = sent_or_error_cases [OF assms(1) o]
    have step: "sendfile_file os fs conf a c nt = (if r = Sent 0 then sendfile_none fs conf (ck_file_start c + ck_offset c) c nt2
        else (case sent_or_error r of Inl e \<Rightarrow> Some (Give_up e, nt2)
           | Inr m \<Rightarrow> do { nt3 \<leftarrow> advance a m nt2;
               (if ck_offset c + int m = ck_file_length c then do { nt4 \<leftarrow> close_sent_fd a nt3; Some (Finished a 0, nt4) }
                else Some (Not_finished 0, nt3)) }))"
      using op(1) False data t(1) o by (simp add: sendfile_file_def Let_def del: bind_eq_Some)
    have idle: "sends files (a # as) nt nt'" if "nt_sent nt2 = nt_sent nt1" "nt' = nt2 \<or> nt' = nt2\<lparr>nt_cache := sc\<rparr>" for nt' sc
      using touched_sends [of a c "c\<lparr>ck_file_fd := fd\<rparr>" nt "nt'\<lparr>nt_cache := nt_cache nt\<rparr>"] that t1 off assms(2,4)
      by (auto simp: touched_def sends_def same_chunks_def rest_of_def)
    consider (none) "r = Sent 0" | (error) e where "r \<noteq> Sent 0" "sent_or_error r = Inl e" | (some) m where "r \<noteq> Sent 0" "sent_or_error r = Inr m"
      by (cases "sent_or_error r") blast+
    then show ?thesis
    proof cases
      case none
      have "cache_tree_ok (nt_cache nt2)" using rdy(1) off(3) t1 by simp
      then obtain e sc where "sendfile_none fs conf (ck_file_start c + ck_offset c) c nt2 = Some (Give_up e, nt2\<lparr>nt_cache := sc\<rparr>)" "e < 0" "cache_tree_ok sc"
        using sendfile_none_ok [OF _ rdy(2) f(1)] by blast
      moreover have "nt_sent nt2 = nt_sent nt1" using none o by (auto simp: offer_def Let_def)
      ultimately show ?thesis using step none idle [of "nt2\<lparr>nt_cache := sc\<rparr>" sc] by (simp add: after_step_def)
    next
      case error
      then show ?thesis using step idle [of nt2] soe(1) [OF error(2)] off(3) t1 rdy(1) by (simp add: after_step_def)
    next
      case (some m)
      have m: "m \<le> length t" "nt_sent nt2 = nt_sent nt @ take m (chunk_octets files c)" using soe(2) [OF some(2)] t1 t(2) by auto
      let ?c = "c\<lparr>ck_file_fd := fd\<rparr>"
      have at2: "at_net nt2 a = Some ?c" "\<And>b. b \<noteq> a \<Longrightarrow> at_net nt2 b = at_net nt b" using t1 off(1) by simp_all
      let ?d = "?c\<lparr>ck_offset := ck_offset c + int m\<rparr>"
      have "m \<le> length (chunk_octets files c)" using m(1) t(2) by simp
      then obtain nt3 where mv: "advance a m nt2 = Some nt3" "moved a ?d (take m (chunk_octets files c)) nt nt3" "sends files (a # as) nt nt3"
        "ck_offset c + int m \<le> ck_file_length c" "nt3 = set_at a ?d (count_out m nt2)"
        using file_moved [OF assms(4) at2 _ m(2) _ _ _ assms(6,5,2)] off(2) t1 by (auto simp: same_source_def)
      have cache: "nt_cache nt3 = nt_cache nt" using mv(5) off(3) t1 by simp
      show ?thesis
      proof (cases "ck_offset c + int m = ck_file_length c")
        case True
        have at3: "at_net nt3 a = Some ?d" using mv(2) by (simp add: moved_def)
        obtain nt4 where cl: "close_sent_fd a nt3 = Some nt4" "touched a ?d (?d\<lparr>ck_file_fd := -1\<rparr>) nt3 nt4"
          using touched_change [OF at3, of "\<lambda>c. c\<lparr>ck_file_fd := -1\<rparr>" "note_closed fd nt3"] at3 False
          by (auto simp: close_sent_fd_def same_source_def)
        have mv4: "moved a (?d\<lparr>ck_file_fd := -1\<rparr>) (take m (chunk_octets files c)) nt nt4" using mv(2) cl(2) by (auto simp: moved_def touched_def)
        have "sends files (a # as) nt nt4" using sends_trans [OF mv(3) touched_sends [OF cl(2) at3 assms(2)]] .
        moreover have "after_step False os files (sendfile_ready fs conf files) (a # as) (Finished a 0) nt4"
          using after_moved(1) [OF mv4 assms(2,3)] True assms(5) cl(2) cache rdy
          by (simp add: chunk_finished_def touched_def sendfile_ready_def)
        ultimately show ?thesis using step some mv(1) True cl cache rdy(1) by (simp add: touched_def)
      next
        case F: False
        have "live False os files ?d" using assms(5,6) f mv(4) F data by (auto simp: live_def)
        then have "after_step False os files (sendfile_ready fs conf files) (a # as) (Not_finished 0) nt3"
          using after_moved(2) [OF mv(2) assms(2,3)] by simp
        then show ?thesis using step some mv(1,3) F cache rdy(1) by simp
      qed
    qed
  qed
qed

interpretation lx: chunk_sender linuxsendfile_step False sendfile_ready
proof
  fix os files nt a as fs conf c
  assume a: "os_ok os files" "chain (nt_world nt) (Some a) (a # as)" "distinct (a # as)" "all_live False os files nt (a # as)" "mem_small nt (a # as)"
    "sendfile_ready fs conf files (names_of nt (a # as)) (nt_cache nt)" "at_net nt a = Some c"
  then have l: "live False os files c" "all_live False os files nt as" "a \<notin> set as" by (auto simp: all_live_def)
  have sc: "cache_tree_ok (nt_cache nt)" using a(6) by (simp add: sendfile_ready_def)
  show "\<exists>out nt1. linuxsendfile_step os fs conf a c nt = Some (out, nt1) \<and> sends files (a # as) nt nt1 \<and> cache_tree_ok (nt_cache nt1) \<and>
      after_step False os files (sendfile_ready fs conf files) (a # as) out nt1"
  proof (cases "ck_type c")
    case MEM_CHUNK
    then show ?thesis
      using writev_mem_ok [where ready = "sendfile_ready fs conf files", OF a(1-5) sc a(7) MEM_CHUNK a(6)] by (simp add: linuxsendfile_step_def)
  next
    case FILE_CHUNK
    then show ?thesis using sendfile_file_ok [OF a(1) l(3,2) a(7) FILE_CHUNK l(1) a(6)] by (simp add: linuxsendfile_step_def)
  qed (use l(1) in \<open>simp add: live_def\<close>)
qed (simp add: sendfile_ready_def)

section \<open>The step of writev\<close>

lemma window_start_ok: "0 \<le> off \<Longrightarrow> off \<le> start \<Longrightarrow> 0 \<le> window_start start off \<and> window_start start off \<le> start \<and> start \<le> window_start start off + WINDOW"
proof (induction start off rule: window_start.induct)
  case (1 start off)
  then show ?case by (subst (1 2 3) window_start.simps) (auto simp: WINDOW_def)
qed

text \<open>The next window holds the next octet, or ends just in front of it.\<close>

lemma next_window_ok:
  assumes "window_ok c" "0 \<le> ck_file_start c" "0 \<le> ck_offset c" "ck_offset c < ck_file_length c"
    and "ck_mmap_start c = None \<or> ck_file_start c + ck_offset c = ck_mmap_offset c + ck_mmap_length c" "fd \<noteq> -1"
  shows "window_ok (c\<lparr>ck_mmap_offset := next_window c, ck_file_fd := fd, ck_mmap_start := Some p, ck_mmap_length := window_length c (next_window c)\<rparr>)"
proof (cases "ck_mmap_start c")
  case None
  then have "ck_offset c = 0" using assms(1) by (simp add: window_ok_def)
  then show ?thesis using None assms(2,4,6) window_start_ok [of 0 "ck_file_start c"]
    by (auto simp: window_ok_def next_window_def window_length_def)
next
  case (Some q)
  then have "ck_file_start c + ck_offset c = ck_mmap_offset c + ck_mmap_length c" "ck_mmap_length c = WINDOW" "0 \<le> ck_mmap_offset c"
    using assms(1,4,5) by (auto simp: window_ok_def)
  then show ?thesis using Some assms(4,6) by (auto simp: window_ok_def next_window_def window_length_def WINDOW_def)
qed

definition mapped :: "net_os \<Rightarrow> string \<Rightarrow> chunk \<Rightarrow> bool" where
  "mapped os d c = (ck_mmap_start c \<noteq> None \<and> no_data os (ck_file_fd c) = d \<and> window_ok c)"

lemma map_window_ok:
  assumes "os_ok os files" "at_net nt a = Some c" "live True os files c" "ck_type c = FILE_CHUNK" "files (bs_str (ck_file_name c)) = Some d"
  shows "\<exists>ok nt1 e. map_window os a c nt = Some (ok, nt1) \<and> touched a c e nt nt1 \<and> (ok \<longrightarrow> mapped os d e)"
proof -
  obtain n d' where f: "ck_file_name c = Some n" "c_str n = n" "files n = Some d'" "0 \<le> ck_file_start c" "0 \<le> ck_offset c"
    "ck_offset c < ck_file_length c" "ck_file_start c + ck_file_length c \<le> int (length d')" "ck_file_fd c \<noteq> -1 \<longrightarrow> no_data os (ck_file_fd c) = d'"
    "True \<longrightarrow> window_ok c" using assms(3,4) by (rule live_fileE)
  have d: "d' = d" using f(1,3) assms(5) by simp
  have win: "window_ok c" using f(9) by simp
  show ?thesis
  proof (cases "ck_mmap_start c = None \<or> ck_file_start c + ck_offset c = ck_mmap_offset c + ck_mmap_length c")
    case False
    then have "mapped os d c" using win f(8) d by (auto simp: mapped_def window_ok_def)
    moreover have "touched a c c nt nt" using assms(2) by (simp add: touched_def)
    ultimately show ?thesis using False by (auto simp: map_window_def)
  next
    case True
    let ?w = "next_window c"
    have un: "at_net (unmap_window a c nt) b = at_net nt b" "nt_sent (unmap_window a c nt) = nt_sent nt" "nt_queue (unmap_window a c nt) = nt_queue nt"
      "nt_cache (unmap_window a c nt) = nt_cache nt" for b by (simp_all add: unmap_window_def split: option.splits)
    obtain nt1 where c1: "change_chunk a (\<lambda>c. c\<lparr>ck_mmap_offset := ?w\<rparr>) (unmap_window a c nt) = Some nt1" "touched a c (c\<lparr>ck_mmap_offset := ?w\<rparr>) nt nt1"
      using touched_change [OF assms(2), of "\<lambda>c. c\<lparr>ck_mmap_offset := ?w\<rparr>", OF _ _ un] by (auto simp: same_source_def)
    let ?c1 = "c\<lparr>ck_mmap_offset := ?w\<rparr>"
    have at1: "at_net nt1 a = Some ?c1" using c1(2) by (simp add: touched_def)
    obtain fd nt2 where op: "open_chunk os a c nt1 = Some (fd, nt2)" "touched a ?c1 (?c1\<lparr>ck_file_fd := fd\<rparr>) nt1 nt2" "fd \<noteq> -1 \<longrightarrow> no_data os fd = d'"
      using open_chunk_ok [OF assms(1) at1 _ _ f(1-3) f(8) [rule_format]] by (auto simp: same_source_def)
    let ?c2 = "?c1\<lparr>ck_file_fd := fd\<rparr>"
    note t2 = touched_trans [OF c1(2) op(2)]
    have at2: "at_net nt2 a = Some ?c2" using op(2) by (simp add: touched_def)
    let ?p = "no_mmap os (nt_calls nt2)"
    obtain nt3 where c3: "change_chunk a (\<lambda>c. c\<lparr>ck_mmap_start := ?p\<rparr>) (nt2\<lparr>nt_calls := Suc (nt_calls nt2)\<rparr>) = Some nt3"
      "touched a ?c2 (?c2\<lparr>ck_mmap_start := ?p\<rparr>) nt2 nt3"
      using touched_change [OF at2, of "\<lambda>c. c\<lparr>ck_mmap_start := ?p\<rparr>" "nt2\<lparr>nt_calls := Suc (nt_calls nt2)\<rparr>"] by (auto simp: same_source_def)
    let ?c3 = "?c2\<lparr>ck_mmap_start := ?p\<rparr>" and ?l = "window_length c ?w"
    have at3: "at_net nt3 a = Some ?c3" using c3(2) by (simp add: touched_def)
    obtain nt4 where c4: "change_chunk a (\<lambda>c. c\<lparr>ck_mmap_length := ?l\<rparr>) nt3 = Some nt4" "touched a ?c3 (?c3\<lparr>ck_mmap_length := ?l\<rparr>) nt3 nt4"
      using touched_change [OF at3, of "\<lambda>c. c\<lparr>ck_mmap_length := ?l\<rparr>" nt3] by (auto simp: same_source_def)
    note t3 = touched_trans [OF t2 c3(2)]
    note t4 = touched_trans [OF t3 c4(2)]
    have run: "map_window os a c nt = (if fd = -1 then Some (False, nt2) else if ?p = None then Some (False, nt3) else Some (True, nt4))"
      using True c1(1) op(1) c3(1) c4(1) by (simp add: map_window_def Let_def)
    have "mapped os d (?c3\<lparr>ck_mmap_length := ?l\<rparr>)" if "fd \<noteq> -1" "?p \<noteq> None"
      using that op(3) d next_window_ok [OF win f(4-6) True that(1)] by (auto simp: mapped_def)
    then show ?thesis using run t2 t3 t4 by (cases "fd = -1"; cases "?p = None") auto
  qed
qed

text \<open>What a window has of a file is the beginning of the rest of the chunk.\<close>

lemma window_octets:
  assumes "window_ok c" "ck_mmap_start c \<noteq> None" "ck_type c = FILE_CHUNK" "files (bs_str (ck_file_name c)) = Some d" "0 \<le> ck_file_start c" "0 \<le> ck_offset c"
    and "ck_file_start c + ck_file_length c \<le> int (length d)"
  shows "\<exists>t u. map_read d (ck_mmap_offset c + ck_mmap_length c) (ck_file_start c + ck_offset c)
      (ck_mmap_offset c + ck_mmap_length c - (ck_file_start c + ck_offset c)) = Some t \<and> chunk_octets files c = t @ u \<and>
    ck_file_start c + ck_offset c + int (length t) = ck_mmap_offset c + ck_mmap_length c"
proof -
  let ?n = "nat (ck_mmap_offset c + ck_mmap_length c - (ck_file_start c + ck_offset c))" and ?r = "drop (nat (ck_file_start c + ck_offset c)) d"
  have w: "ck_file_start c + ck_offset c \<le> ck_mmap_offset c + ck_mmap_length c"
    "ck_mmap_offset c + ck_mmap_length c \<le> ck_file_start c + ck_file_length c" using assms(1,2) by (auto simp: window_ok_def)
  have m: "map_read d (ck_mmap_offset c + ck_mmap_length c) (ck_file_start c + ck_offset c)
      (ck_mmap_offset c + ck_mmap_length c - (ck_file_start c + ck_offset c)) = Some (take ?n ?r)"
    using w assms(5-7) by (intro map_read_all) auto
  have "?n \<le> nat (ck_file_length c - ck_offset c)" using w by simp
  then have "chunk_octets files c = take ?n ?r @ drop ?n (take (nat (ck_file_length c - ck_offset c)) ?r)"
    using assms(3,4) by (metis (no_types, lifting) append_take_drop_id chunk_octets_def chunk_type.simps(9) min.absorb1 option.sel take_take)
  moreover have "ck_file_start c + ck_offset c + int (length (take ?n ?r)) = ck_mmap_offset c + ck_mmap_length c"
    using w assms(5-7) by simp
  ultimately show ?thesis using m by blast
qed

lemma send_window_ok:
  assumes "os_ok os files" "a \<notin> set as" "all_live True os files nt as" "at_net nt a = Some c" "ck_type c = FILE_CHUNK" "live True os files c"
    and "touched a c e nt nt1" "mapped os d e" "files (bs_str (ck_file_name c)) = Some d" "cache_tree_ok (nt_cache nt)" "ready (names_of nt as) (nt_cache nt)"
  shows "\<exists>out nt2. send_window os a nt1 = Some (out, nt2) \<and> sends files (a # as) nt nt2 \<and> cache_tree_ok (nt_cache nt2) \<and>
    after_step True os files ready (a # as) out nt2"
proof -
  note t1 = assms(7) [unfolded touched_def] and mp = assms(8) [unfolded mapped_def]
  have e: "same_source c e" "ck_offset e = ck_offset c" "at_net nt1 a = Some e" using t1 by simp_all
  obtain n d' where f: "ck_file_name c = Some n" "c_str n = n" "files n = Some d'" "0 \<le> ck_file_start c" "0 \<le> ck_offset c"
    "ck_offset c < ck_file_length c" "ck_file_start c + ck_file_length c \<le> int (length d')" using assms(6,5) by (rule live_fileE)
  have d: "d' = d" using f(1,3) assms(9) by simp
  have src: "ck_type e = FILE_CHUNK" "ck_file_name e = ck_file_name c" "ck_file_start e = ck_file_start c" "ck_file_length e = ck_file_length c"
    using e(1) assms(5) by (simp_all add: same_source_def)
  have oct: "chunk_octets files e = chunk_octets files c" using src e(2) assms(5) by (simp add: chunk_octets_def)
  obtain t u where t: "map_read d (ck_mmap_offset e + ck_mmap_length e) (ck_file_start e + ck_offset e)
      (ck_mmap_offset e + ck_mmap_length e - (ck_file_start e + ck_offset e)) = Some t" "chunk_octets files c = t @ u"
    "ck_file_start e + ck_offset e + int (length t) = ck_mmap_offset e + ck_mmap_length e"
    using window_octets [of e files d] mp src e(2) f d assms(9) oct by auto
  obtain r nt2 where o: "offer os t nt1 = (r, nt2)" by (cases "offer os t nt1")
  note off = offer_cases(1-3) [OF assms(1) o] and soe = sent_or_error_cases [OF assms(1) o]
  have step: "send_window os a nt1 = (case sent_or_error r of Inl x \<Rightarrow> Some (Give_up x, nt2)
      | Inr m \<Rightarrow> do { nt3 \<leftarrow> advance a m nt2;
          (if ck_offset e + int m = ck_file_length e then do {
             nt4 \<leftarrow> change_chunk a (\<lambda>c. c\<lparr>ck_mmap_start := None\<rparr>) (unmap_window a e nt3); Some (Finished a 0, nt4) }
           else Some (Not_finished 0, nt3)) })"
    using e(3) t(1) o mp by (simp add: send_window_def Let_def del: bind_eq_Some)
  show ?thesis
  proof (cases "sent_or_error r")
    case (Inl x)
    have "touched a c e nt nt2" using assms(7) off soe(1) [OF Inl] by (simp add: touched_def)
    then show ?thesis using step Inl soe(1) touched_sends [OF _ assms(4,2)] off(3) t1 assms(10) by (simp add: after_step_def)
  next
    case (Inr m)
    have m: "m \<le> length t" "nt_sent nt2 = nt_sent nt @ take m (chunk_octets files c)" using soe(2) [OF Inr] t1 t(2) by auto
    have at2: "at_net nt2 a = Some e" "\<And>b. b \<noteq> a \<Longrightarrow> at_net nt2 b = at_net nt b" using t1 off(1) by simp_all
    let ?d = "e\<lparr>ck_offset := ck_offset c + int m\<rparr>"
    have "m \<le> length (chunk_octets files c)" using m(1) t(2) by simp
    then obtain nt3 where mv: "advance a m nt2 = Some nt3" "moved a ?d (take m (chunk_octets files c)) nt nt3" "sends files (a # as) nt nt3"
      "ck_offset c + int m \<le> ck_file_length c" "nt3 = set_at a ?d (count_out m nt2)"
      using file_moved [OF assms(4) at2 _ m(2) _ e(1,2) assms(6,5,2)] off(2) t1 by auto
    have cache: "nt_cache nt3 = nt_cache nt" using mv(5) off(3) t1 by simp
    have at3: "at_net nt3 a = Some ?d" using mv(2) by (simp add: moved_def)
    show ?thesis
    proof (cases "ck_offset c + int m = ck_file_length c")
      case True
      have un: "at_net (unmap_window a e nt3) b = at_net nt3 b" "nt_sent (unmap_window a e nt3) = nt_sent nt3"
        "nt_queue (unmap_window a e nt3) = nt_queue nt3" "nt_cache (unmap_window a e nt3) = nt_cache nt3" for b
        by (simp_all add: unmap_window_def split: option.splits)
      obtain nt4 where cl: "change_chunk a (\<lambda>c. c\<lparr>ck_mmap_start := None\<rparr>) (unmap_window a e nt3) = Some nt4" "touched a ?d (?d\<lparr>ck_mmap_start := None\<rparr>) nt3 nt4"
        using touched_change [OF at3, of "\<lambda>c. c\<lparr>ck_mmap_start := None\<rparr>", OF _ _ un] by (auto simp: same_source_def)
      have mv4: "moved a (?d\<lparr>ck_mmap_start := None\<rparr>) (take m (chunk_octets files c)) nt nt4" using mv(2) cl(2) by (auto simp: moved_def touched_def)
      have "sends files (a # as) nt nt4" using sends_trans [OF mv(3) touched_sends [OF cl(2) at3 assms(2)]] .
      moreover have "nt_cache nt4 = nt_cache nt" using cl(2) cache by (simp add: touched_def)
      moreover have "after_step True os files ready (a # as) (Finished a 0) nt4"
        using after_moved(1) [OF mv4 assms(2,3)] True src(1,4) calculation(2) assms(11) by (simp add: chunk_finished_def)
      ultimately show ?thesis using step Inr mv(1) True cl(1) src(4) e(2) assms(10) by simp
    next
      case F: False
      have "window_ok ?d" using mp t(3) m(1) e(2) by (auto simp: window_ok_def)
      moreover have "name_ok n" using assms(5,6) f(1) by (auto simp: live_def)
      ultimately have "live True os files ?d" using src f mv(4) F mp d by (auto simp: live_def)
      then have "after_step True os files ready (a # as) (Not_finished 0) nt3" using after_moved(2) [OF mv(2) assms(2,3)] by simp
      then show ?thesis using step Inr mv(1,3) F cache src(4) e(2) assms(10) by simp
    qed
  qed
qed

lemma writev_file_ok:
  assumes "os_ok os files" "a \<notin> set as" "all_live True os files nt as" "at_net nt a = Some c" "ck_type c = FILE_CHUNK"
    and "live True os files c" "coherent fs conf files (names_of nt (a # as)) (nt_cache nt)"
  shows "\<exists>out nt1. writev_file os fs conf a c nt = Some (out, nt1) \<and> sends files (a # as) nt nt1 \<and> cache_tree_ok (nt_cache nt1) \<and>
    after_step True os files (coherent fs conf files) (a # as) out nt1"
proof -
  obtain n d where f: "ck_file_name c = Some n" "c_str n = n" "files n = Some d" "0 \<le> ck_file_start c" "0 \<le> ck_offset c"
    "ck_offset c < ck_file_length c" "ck_file_start c + ck_file_length c \<le> int (length d)" using assms(6,5) by (rule live_fileE)
  have names: "names_of nt (a # as) = n # names_of nt as" using assms(4,5) f(1) by (simp add: names_Cons)
  obtain h r sc where g: "stat_cache_get_entry fs conf (nt_cache nt) (Some n) = Some (h, r, sc)" "coherent fs conf files (names_of nt as) sc"
    "h = HANDLER_ERROR \<or> h = HANDLER_GO_ON \<and> (\<exists>e. r = Some e \<and> st_size (sce_st e) = int (length d))"
    using coherent_lookup [OF assms(7) [unfolded names] f(3)] .
  note sc = coherent_tree [OF g(2)]
  let ?nt = "nt\<lparr>nt_cache := sc\<rparr>"
  have at0: "at_net ?nt a = Some c" using assms(4) by simp
  have live0: "all_live True os files ?nt as" "names_of ?nt as = names_of nt as"
    using all_cong(2,3) [of as ?nt nt] assms(3) by simp_all
  have trans: "sends files (a # as) nt nt1" if "sends files (a # as) ?nt nt1" for nt1
    by (rule sends_trans [OF _ that], rule sends_still) simp_all
  show ?thesis
  proof (cases "h = HANDLER_ERROR")
    case True
    then show ?thesis using g(1) f(1) trans [OF sends_refl] sc by (simp add: writev_file_def after_step_def)
  next
    case False
    then obtain e where e: "h = HANDLER_GO_ON" "r = Some e" "st_size (sce_st e) = int (length d)" using g(3) by blast
    obtain ok nt1 ce where mw: "map_window os a c ?nt = Some (ok, nt1)" "touched a c ce ?nt nt1" "ok \<longrightarrow> mapped os d ce"
      using map_window_ok [OF assms(1) at0 assms(6,5)] f(1,3) by auto
    have run: "writev_file os fs conf a c nt = (if ok then send_window os a nt1 else Some (Give_up (-1), nt1))"
      using g(1) f(1,6,7) e False mw(1) by (simp add: writev_file_def Let_def)
    show ?thesis
    proof (cases ok)
      case True
      have d: "files (bs_str (ck_file_name c)) = Some d" and m: "mapped os d ce" using f(1,3) mw(3) True by simp_all
      have "cache_tree_ok (nt_cache ?nt)" "coherent fs conf files (names_of ?nt as) (nt_cache ?nt)" using sc g(2) live0(2) by simp_all
      then obtain out nt2 where "send_window os a nt1 = Some (out, nt2)" "sends files (a # as) ?nt nt2" "cache_tree_ok (nt_cache nt2)"
        "after_step True os files (coherent fs conf files) (a # as) out nt2"
        using send_window_ok [where ready = "coherent fs conf files", OF assms(1,2) live0(1) at0 assms(5,6) mw(2) m d] by blast
      then show ?thesis using run True trans by auto
    next
      case False
      have "nt_cache nt1 = sc" using mw(2) by (simp add: touched_def)
      then show ?thesis using run False trans [OF touched_sends [OF mw(2) at0 assms(2)]] sc by (simp add: after_step_def)
    qed
  qed
qed

interpretation wv: chunk_sender writev_step True coherent
proof
  fix os files nt a as fs conf c
  assume a: "os_ok os files" "chain (nt_world nt) (Some a) (a # as)" "distinct (a # as)" "all_live True os files nt (a # as)" "mem_small nt (a # as)"
    "coherent fs conf files (names_of nt (a # as)) (nt_cache nt)" "at_net nt a = Some c"
  then have l: "live True os files c" "all_live True os files nt as" "a \<notin> set as" by (auto simp: all_live_def)
  show "\<exists>out nt1. writev_step os fs conf a c nt = Some (out, nt1) \<and> sends files (a # as) nt nt1 \<and> cache_tree_ok (nt_cache nt1) \<and>
      after_step True os files (coherent fs conf files) (a # as) out nt1"
  proof (cases "ck_type c")
    case MEM_CHUNK
    then show ?thesis
      using writev_mem_ok [where ready = "coherent fs conf files", OF a(1-5) coherent_tree [OF a(6)] a(7) MEM_CHUNK a(6)] by (simp add: writev_step_def)
  next
    case FILE_CHUNK
    then show ?thesis using writev_file_ok [OF a(1) l(3,2) a(7) FILE_CHUNK l(1) a(6)] by (simp add: writev_step_def)
  qed (use l(1) in \<open>simp add: live_def\<close>)
qed (rule coherent_tree)

section \<open>Removing what has been sent\<close>

text \<open>The chunks that stay are those that are in front of no finished chunk, and they are not touched.\<close>

lemma drop_first_frame:
  assumes "queue_inv w q (a # as) us" "chunk_at w a = Some c" "chunk_finished c"
  shows "\<exists>w2 q2 us2. chunkqueue_remove_finished_chunks w q = chunkqueue_remove_finished_chunks w2 q2 \<and> queue_inv w2 q2 as us2 \<and>
    (\<forall>b. b \<noteq> a \<longrightarrow> chunk_at w2 b = chunk_at w b) \<and> cq_bytes_out q2 = cq_bytes_out q"
proof -
  obtain w1 c1 w2 q2 us2 where r: "chunk_reset w a = Some w1" "chunk_at w1 a = Some c1"
    and w2: "(if cq_unused_chunks q > 4
        then map_option (\<lambda>w2. (w2, q\<lparr>cq_first := ck_next c1, cq_last := (if cq_last q = Some a then None else cq_last q)\<rparr>)) (chunk_free w1 a)
        else map_option (\<lambda>w2. (w2, q\<lparr>cq_first := ck_next c1, cq_last := (if cq_last q = Some a then None else cq_last q),
              cq_unused := Some a, cq_unused_chunks := cq_unused_chunks q + 1\<rparr>)) (chunk_put w1 a (c1\<lparr>ck_next := cq_unused q\<rparr>))) = Some (w2, q2)"
      "queue_inv w2 q2 as us2" "pieces w2 as = pieces w as"
    using drop_first_ok [OF assms(1,2)] by (auto simp: Let_def)
  have first: "cq_first q = Some a" using assms(1) by (simp add: queue_inv_def)
  have "chunkqueue_remove_finished_chunks w q = chunkqueue_remove_finished_chunks w2 q2"
    using first assms(2,3) r w2(1) by (subst chunkqueue_remove_finished_chunks.simps) (auto simp: Let_def split: if_splits)
  moreover have "chunk_at w2 b = chunk_at w b" if "b \<noteq> a" for b
    using chunk_reset_Some [OF assms(2)] r w2(1) that
    by (auto simp: chunk_put_Some [OF r(2)] chunk_free_Some [OF r(2)] split: if_splits)
  moreover have "cq_bytes_out q2 = cq_bytes_out q" using w2(1) by (auto split: if_splits)
  ultimately show ?thesis using w2(2) by blast
qed

lemma remove_keeps:
  assumes "queue_inv w q as us"
  shows "\<exists>w1 q1 us1 pre post. chunkqueue_remove_finished_chunks w q = Some (w1, q1) \<and> as = pre @ post \<and> queue_inv w1 q1 post us1 \<and>
    (\<forall>a \<in> set post. chunk_at w1 a = chunk_at w a) \<and> (\<forall>a \<in> set pre. \<exists>c. chunk_at w a = Some c \<and> chunk_finished c) \<and>
    (post \<noteq> [] \<longrightarrow> (\<exists>c. chunk_at w (hd post) = Some c \<and> \<not> chunk_finished c)) \<and> cq_bytes_out q1 = cq_bytes_out q"
  using assms
proof (induction as arbitrary: w q us)
  case Nil
  then have "chunkqueue_remove_finished_chunks w q = Some (w, q)"
    by (subst chunkqueue_remove_finished_chunks.simps) (simp add: queue_inv_def)
  with Nil show ?case by fastforce
next
  case (Cons a as)
  then obtain c where c: "cq_first q = Some a" "chunk_at w a = Some c" by (auto simp: queue_inv_def split: option.splits)
  show ?case
  proof (cases "chunk_finished c")
    case False
    then have "chunkqueue_remove_finished_chunks w q = Some (w, q)"
      by (subst chunkqueue_remove_finished_chunks.simps) (simp add: c)
    with Cons.prems False c show ?thesis
      by (intro exI [of _ w] exI [of _ q] exI [of _ us] exI [of _ "[]"] exI [of _ "a # as"]) simp
  next
    case True
    obtain w2 q2 us2 where d: "chunkqueue_remove_finished_chunks w q = chunkqueue_remove_finished_chunks w2 q2" "queue_inv w2 q2 as us2"
      "\<forall>b. b \<noteq> a \<longrightarrow> chunk_at w2 b = chunk_at w b" "cq_bytes_out q2 = cq_bytes_out q" using drop_first_frame [OF Cons.prems c(2) True] by blast
    have a: "a \<notin> set as" using Cons.prems by (simp add: queue_inv_def)
    then have same: "chunk_at w2 b = chunk_at w b" if "b \<in> set as" for b using d(3) that by metis
    obtain w1 q1 us1 pre post where r: "chunkqueue_remove_finished_chunks w2 q2 = Some (w1, q1)" "as = pre @ post" "queue_inv w1 q1 post us1"
      "\<forall>a \<in> set post. chunk_at w1 a = chunk_at w2 a" "\<forall>a \<in> set pre. \<exists>c. chunk_at w2 a = Some c \<and> chunk_finished c"
      "post \<noteq> [] \<longrightarrow> (\<exists>c. chunk_at w2 (hd post) = Some c \<and> \<not> chunk_finished c)" "cq_bytes_out q1 = cq_bytes_out q2"
      using Cons.IH [OF d(2)] by blast
    show ?thesis using r d(1,4) same c(2) True
      by (intro exI [of _ w1] exI [of _ q1] exI [of _ us1] exI [of _ "a # pre"] exI [of _ post]) auto
  qed
qed

section \<open>The back ends\<close>

definition backend_windows :: "network_backend_t \<Rightarrow> bool" where
  "backend_windows nb = (nb = NETWORK_BACKEND_WRITEV)"

definition backend_ready :: "network_backend_t \<Rightarrow> file_system \<Rightarrow> stat_conf \<Rightarrow> (string \<rightharpoonup> string) \<Rightarrow> string list \<Rightarrow> stat_cache \<Rightarrow> bool" where
  "backend_ready nb = (if nb = NETWORK_BACKEND_LINUX_SENDFILE then sendfile_ready else coherent)"

lemma backend_ok:
  assumes "os_ok os files" "chain (nt_world nt) (cq_first (nt_queue nt)) as" "distinct as" "all_live (backend_windows nb) os files nt as" "mem_small nt as"
    and "backend_ready nb fs conf files (names_of nt as) (nt_cache nt)"
  shows "\<exists>r nt1. network_backend_write nb os fs conf nt = Some (r, nt1) \<and> sends files as nt nt1 \<and> cache_tree_ok (nt_cache nt1) \<and>
    (r \<ge> 0 \<longrightarrow> (\<exists>pre post. as = pre @ post \<and> all_done nt1 pre \<and> all_live (backend_windows nb) os files nt1 post))"
  using assms wr.loop_ok [of os files nt "cq_first (nt_queue nt)" as fs conf 0] wv.loop_ok [of os files nt "cq_first (nt_queue nt)" as fs conf 0]
    lx.loop_ok [of os files nt "cq_first (nt_queue nt)" as fs conf 0]
  by (cases nb) (simp_all add: network_backend_write_def backend_step_def backend_windows_def backend_ready_def)

text \<open>The queue \<open>wq\<close> can be sent, and \<open>s\<close> is what is to be sent.\<close>

abbreviation net_of :: "world \<times> chunkqueue \<Rightarrow> stat_cache \<Rightarrow> net" where
  "net_of wq sc \<equiv> \<lparr>nt_world = fst wq, nt_queue = snd wq, nt_cache = sc, nt_calls = 0, nt_sent = []\<rparr>"

definition pending :: "network_backend_t \<Rightarrow> net_os \<Rightarrow> (string \<rightharpoonup> string) \<Rightarrow> world \<times> chunkqueue \<Rightarrow> string list \<Rightarrow> string \<Rightarrow> bool" where
  "pending nb os files wq ns s = (\<exists>as us. queue_inv (fst wq) (snd wq) as us \<and> all_live (backend_windows nb) os files (net_of wq stat_cache_init) as \<and>
     mem_small (net_of wq stat_cache_init) as \<and> names_of (net_of wq stat_cache_init) as = ns \<and> rest_of files (net_of wq stat_cache_init) as = s)"

lemma net_of_world: "nt_world nt = fst wq \<Longrightarrow> all_live wd os files nt as = all_live wd os files (net_of wq sc) as"
  "nt_world nt = fst wq \<Longrightarrow> mem_small nt as = mem_small (net_of wq sc) as" "nt_world nt = fst wq \<Longrightarrow> names_of nt as = names_of (net_of wq sc) as"
  "nt_world nt = fst wq \<Longrightarrow> rest_of files nt as = rest_of files (net_of wq sc) as"
  by (simp_all add: all_live_def mem_small_def names_of_def rest_of_def)

text \<open>The removal of the chunks that are done leaves a queue with the same octets.\<close>

lemma removed_pending:
  assumes "queue_inv (nt_world nt) (nt_queue nt) as us" "as = pre @ post" "all_done nt pre" "all_live (backend_windows nb) os files nt post" "mem_small nt as"
  shows "\<exists>w q ns. chunkqueue_remove_finished_chunks (nt_world nt) (nt_queue nt) = Some (w, q) \<and> pending nb os files (w, q) ns (rest_of files nt as) \<and>
    (\<exists>ns0. names_of nt as = ns0 @ ns) \<and> cq_bytes_out q = cq_bytes_out (nt_queue nt) \<and> (chunkqueue_is_empty q \<longleftrightarrow> all_done nt as)"
proof -
  obtain w q us1 gone keep where r: "chunkqueue_remove_finished_chunks (nt_world nt) (nt_queue nt) = Some (w, q)" "as = gone @ keep"
    "queue_inv w q keep us1" "\<forall>a \<in> set keep. chunk_at w a = at_net nt a" "\<forall>a \<in> set gone. \<exists>c. at_net nt a = Some c \<and> chunk_finished c"
    "keep \<noteq> [] \<longrightarrow> (\<exists>c. at_net nt (hd keep) = Some c \<and> \<not> chunk_finished c)" "cq_bytes_out q = cq_bytes_out (nt_queue nt)"
    using remove_keeps [OF assms(1)] by blast
  have gone: "all_done nt gone" using r(5) by (simp add: all_done_def)
  then have rest: "rest_of files nt as = rest_of files nt keep" using r(2) done_rest by (simp add: of_append(1))
  obtain mid where mid: "post = mid @ keep"
  proof (cases "length pre \<le> length gone")
    case True
    then have "post = drop (length pre) gone @ keep" using assms(2) r(2) by (metis append_eq_conv_conj drop_append diff_is_0_eq drop0)
    then show thesis by (rule that)
  next
    case False
    then have "keep \<noteq> []" "hd keep \<in> set pre" using assms(2) r(2) by (auto simp: append_eq_append_conv2)
    then show thesis using r(6) assms(3) by (auto simp: all_done_def)
  qed
  have eq: "at_net (net_of (w, q) stat_cache_init) a = at_net nt a" if "a \<in> set keep" for a using r(4) that by simp
  note cong = all_cong [of keep "net_of (w, q) stat_cache_init" nt, OF eq]
  have "mem_small nt keep" using assms(5) r(2) of_append(3) by metis
  then have "mem_small (net_of (w, q) stat_cache_init) keep"
    unfolding mem_small_def using eq by (metis (no_types, lifting) map_eq_conv)
  moreover have "all_live (backend_windows nb) os files nt keep" using assms(4) mid of_append(4) by metis
  ultimately have "pending nb os files (w, q) (names_of nt keep) (rest_of files nt as)"
    unfolding pending_def using r(3) cong rest by (intro exI [of _ keep] exI [of _ us1]) simp
  moreover have "names_of nt as = names_of nt gone @ names_of nt keep" using r(2) of_append(2) by metis
  moreover have "chunkqueue_is_empty q \<longleftrightarrow> keep = []"
    using r(3) chain_head [of w "cq_first q" keep] by (auto simp: chunkqueue_is_empty_def queue_inv_def split: list.splits)
  then have "chunkqueue_is_empty q \<longleftrightarrow> all_done nt as" using gone r(2,6) by (cases keep) (auto simp: all_done_def)
  ultimately show ?thesis using r(1,7) by blast
qed

text \<open>One call of a back end. The octets that the chunks had before are those that were sent and those they have after it.\<close>

lemma backend_call:
  assumes "os_ok os files" "pending nb os files wq ns s" "backend_ready nb fs conf files ns sc"
  obtains r nt as us where "network_backend_write nb os fs conf (net_of wq sc) = Some (r, nt)" "s = nt_sent nt @ rest_of files nt as"
    "cache_tree_ok (nt_cache nt)" "cq_bytes_out (nt_queue nt) = cq_bytes_out (snd wq) + int (length (nt_sent nt))"
    "queue_inv (nt_world nt) (nt_queue nt) as us" "mem_small nt as" "names_of nt as = ns"
    "r \<ge> 0 \<longrightarrow> (\<exists>pre post. as = pre @ post \<and> all_done nt pre \<and> all_live (backend_windows nb) os files nt post)"
    "chain (fst wq) (cq_first (snd wq)) as" "distinct as" "all_live (backend_windows nb) os files (net_of wq sc) as" "mem_small (net_of wq sc) as"
    "names_of (net_of wq sc) as = ns"
proof -
  let ?nt = "net_of wq sc"
  obtain as us where q: "queue_inv (fst wq) (snd wq) as us" "all_live (backend_windows nb) os files ?nt as" "mem_small ?nt as" "names_of ?nt as = ns" "rest_of files ?nt as = s"
    using assms(2) unfolding pending_def all_live_def mem_small_def names_of_def rest_of_def by auto
  have ch: "chain (nt_world ?nt) (cq_first (nt_queue ?nt)) as" "distinct as" using q(1) by (simp_all add: queue_inv_def)
  have rdy: "backend_ready nb fs conf files (names_of ?nt as) (nt_cache ?nt)" using assms(3) q(4) by simp
  obtain r nt1 where b: "network_backend_write nb os fs conf ?nt = Some (r, nt1)" "sends files as ?nt nt1" "cache_tree_ok (nt_cache nt1)"
    "r \<ge> 0 \<longrightarrow> (\<exists>pre post. as = pre @ post \<and> all_done nt1 pre \<and> all_live (backend_windows nb) os files nt1 post)"
    using backend_ok [OF assms(1) ch q(2,3) rdy] by blast
  note sd = b(2) [unfolded sends_def]
  have same: "same_chunks ?nt nt1" using sd by blast
  have s: "s = nt_sent nt1 @ rest_of files nt1 as" using sd q(5) by simp
  have nq: "nt_queue nt1 = (snd wq)\<lparr>cq_bytes_out := cq_bytes_out (snd wq) + int (length (nt_sent nt1))\<rparr>" using sd by auto
  have out: "cq_bytes_out (nt_queue nt1) = cq_bytes_out (snd wq) + int (length (nt_sent nt1))" by (subst nq) simp
  have links: "cq_first (nt_queue nt1) = cq_first (snd wq)" "cq_last (nt_queue nt1) = cq_last (snd wq)" "cq_unused (nt_queue nt1) = cq_unused (snd wq)"
    "cq_unused_chunks (nt_queue nt1) = cq_unused_chunks (snd wq)" by (subst nq, simp)+
  have inv: "queue_inv (nt_world nt1) (nt_queue nt1) as us"
    using q(1) links chain_same [OF same] by (simp add: queue_inv_def)
  have small: "mem_small nt1 as" "names_of nt1 as = ns" using mem_small_same [OF same] names_same [OF same] q(3,4) by simp_all
  show thesis using ch q(2-4) by (intro that [OF b(1) s b(3) out inv small b(4)]) simp_all
qed

end
