(* ===== verification/NetOrder.thy ===== *)
theory NetOrder
  imports NetWriteProps
begin

text \<open>
  What \<open>network_write_chunkqueue\<close> promises to the connection, for every back end: the octets of the queue go out in order,
  none is lost or sent twice, over any number of calls; and a client that takes what it is offered gets everything.
\<close>

section \<open>One call\<close>

lemma pending_fd:
  assumes "pending nb os files wq ns s" "no_data os1 = no_data os"
  shows "pending nb os1 files wq ns s"
proof -
  have "live wd os1 files c = live wd os files c" for wd c unfolding live_def assms(2) by (rule refl)
  then show ?thesis using assms(1) by (simp add: pending_def all_live_def)
qed

lemma pending_frame: "pending nb os files wq ns s \<Longrightarrow> wq1 = wq \<Longrightarrow> pending nb os files wq1 ns s"
  by simp

text \<open>What the result \<open>r\<close> of a call for \<open>con\<close> says when \<open>s\<close> was to be sent.\<close>

definition write_result :: "network_backend_t \<Rightarrow> net_os \<Rightarrow> (string \<rightharpoonup> string) \<Rightarrow> (nat \<Rightarrow> int) \<Rightarrow> conn \<Rightarrow> string list \<Rightarrow> string \<Rightarrow> net_result \<Rightarrow> bool" where
  "write_result nb os files cnt con ns s r = (\<exists>rest.
     s = nr_sent r @ rest \<and> c_conf (nr_con r) = c_conf con \<and> cache_tree_ok (nr_cache r) \<and>
     c_bytes_written (nr_con r) = c_bytes_written con + int (length (nr_sent r)) \<and>
     nr_cnt r = cnt(cf_global_cnt (c_conf con) := cnt (cf_global_cnt (c_conf con)) + int (length (nr_sent r))) \<and>
     (nr_ret r \<ge> 0 \<longrightarrow> nr_ret r \<in> {0, 1} \<and> (\<exists>ns0 ns1. ns = ns0 @ ns1 \<and> pending nb os files (c_write_queue (nr_con r)) ns1 rest)) \<and>
     (nr_ret r = 0 \<longrightarrow> rest = []))"

lemma write_ok:
  assumes "os_ok os files" "pending nb os files (c_write_queue con) ns s" "backend_ready nb (we_fs env) (stat_conf_of env con) files ns sc"
  shows "\<exists>r. network_write_chunkqueue nb os env sc cnt con = Some r \<and> write_result nb os files cnt con ns s r"
proof -
  let ?wq = "c_write_queue con" and ?g = "cf_global_cnt (c_conf con)"
  have tree: "cache_tree_ok sc"
    using assms(3) by (cases "nb = NETWORK_BACKEND_LINUX_SENDFILE") (auto simp: backend_ready_def sendfile_ready_def coherent_def)
  show ?thesis
  proof (cases "over_limit (cnt ?g) (cf_global_kbytes_per_second (c_conf con))")
    case True
    then show ?thesis using assms(2) tree
      by (auto simp: network_write_chunkqueue_def Let_def write_result_def)
  next
    case False
    obtain r nt as us where b: "network_backend_write nb os (we_fs env) (stat_conf_of env con) (net_of ?wq sc) = Some (r, nt)"
      "s = nt_sent nt @ rest_of files nt as" "cache_tree_ok (nt_cache nt)"
      "cq_bytes_out (nt_queue nt) = cq_bytes_out (snd ?wq) + int (length (nt_sent nt))" "queue_inv (nt_world nt) (nt_queue nt) as us"
      "mem_small nt as" "names_of nt as = ns"
      "r \<ge> 0 \<longrightarrow> (\<exists>pre post. as = pre @ post \<and> all_done nt pre \<and> all_live (backend_windows nb) os files nt post)"
      "chain (fst ?wq) (cq_first (snd ?wq)) as" "distinct as" "all_live (backend_windows nb) os files (net_of ?wq sc) as" "mem_small (net_of ?wq sc) as"
      "names_of (net_of ?wq sc) as = ns"
      using backend_call [OF assms] .
    show ?thesis
    proof (cases "r \<ge> 0")
      case r0: True
      then obtain pre post where p: "as = pre @ post" "all_done nt pre" "all_live (backend_windows nb) os files nt post" using b(8) by blast
      obtain w q ns1 ns0 where q: "chunkqueue_remove_finished_chunks (nt_world nt) (nt_queue nt) = Some (w, q)"
        "pending nb os files (w, q) ns1 (rest_of files nt as)" "names_of nt as = ns0 @ ns1" "cq_bytes_out q = cq_bytes_out (nt_queue nt)"
        "chunkqueue_is_empty q \<longleftrightarrow> all_done nt as"
        using removed_pending [OF b(5) p b(6)] by blast
      have pen: "\<exists>ns0 ns1. ns = ns0 @ ns1 \<and> pending nb os files (w, q) ns1 (rest_of files nt as)" using q(2,3) b(7) by metis
      have fin: "chunkqueue_is_empty q \<longrightarrow> rest_of files nt as = []" using q(5) done_rest by blast
      obtain res where "network_write_chunkqueue nb os env sc cnt con = Some res" "nr_sent res = nt_sent nt" "c_conf (nr_con res) = c_conf con"
        "nr_cache res = nt_cache nt" "c_bytes_written (nr_con res) = c_bytes_written con + int (length (nt_sent nt))"
        "nr_cnt res = cnt(?g := cnt ?g + int (length (nt_sent nt)))" "nr_ret res = (if chunkqueue_is_empty q then 0 else 1)"
        "c_write_queue (nr_con res) = (w, q)"
        using False b(1,4) r0 q(1,4) by (simp add: network_write_chunkqueue_def Let_def count_written_def del: fun_upd_apply)
      then show ?thesis using b(2,3) pen fin unfolding write_result_def
        by (intro exI [of _ res] conjI exI [of _ "rest_of files nt as"]) simp_all
    next
      case r0: False
      then show ?thesis using False b(1-4)
        by (auto simp: network_write_chunkqueue_def Let_def write_result_def count_written_def simp del: fun_upd_apply)
    qed
  qed
qed

section \<open>Several calls\<close>

text \<open>The calls for a connection until everything has been sent or one of them fails, each with the answers of the system and
  the environment at its time. In between the connection is not changed. The result has all octets that were sent, and what
  the last call returned.\<close>

fun write_calls :: "network_backend_t \<Rightarrow> (net_os \<times> wenv) list \<Rightarrow> stat_cache \<Rightarrow> (nat \<Rightarrow> int) \<Rightarrow> conn \<Rightarrow> (string \<times> int) option" where
  "write_calls nb [] sc cnt con = Some ([], 1)"
| "write_calls nb ((os, env) # calls) sc cnt con = do {
     r \<leftarrow> network_write_chunkqueue nb os env sc cnt con;
     (if nr_ret r \<noteq> 1 then Some (nr_sent r, nr_ret r)
      else do {
        (sent, ret) \<leftarrow> write_calls nb calls (nr_cache r) (nr_cnt r) (nr_con r);
        Some (nr_sent r @ sent, ret)
      })
   }"

lemma stat_conf_mime: "mimetypes (stat_conf_of env con) = cf_mimetypes (c_conf con)"
  by (simp add: stat_conf_of_def)

lemma write_calls_ok:
  assumes "\<forall>(os, env) \<in> set calls. os_ok os files \<and> no_data os = data"
    and "\<And>os. no_data os = data \<Longrightarrow> pending NETWORK_BACKEND_LINUX_SENDFILE os files (c_write_queue con) ns s"
    and "cache_tree_ok sc" "mime_ok (cf_mimetypes (c_conf con))"
  shows "\<exists>sent ret. write_calls NETWORK_BACKEND_LINUX_SENDFILE calls sc cnt con = Some (sent, ret) \<and> (\<exists>rest. s = sent @ rest \<and> (ret = 0 \<longrightarrow> rest = []))"
  using assms
proof (induction calls arbitrary: sc cnt con ns s)
  case (Cons call calls)
  let ?nb = NETWORK_BACKEND_LINUX_SENDFILE
  obtain os env where call: "call = (os, env)" by (cases call)
  have os: "os_ok os files" "no_data os = data" using Cons.prems(1) call by auto
  have rdy: "backend_ready ?nb (we_fs env) (stat_conf_of env con) files ns sc"
    using Cons.prems(3,4) by (simp add: backend_ready_def sendfile_ready_def stat_conf_mime)
  obtain r where r: "network_write_chunkqueue ?nb os env sc cnt con = Some r" "write_result ?nb os files cnt con ns s r"
    using write_ok [OF os(1) Cons.prems(2) [OF os(2)] rdy] by blast
  obtain rest where w: "s = nr_sent r @ rest" "c_conf (nr_con r) = c_conf con" "cache_tree_ok (nr_cache r)" "nr_ret r = 0 \<longrightarrow> rest = []"
    "nr_ret r \<ge> 0 \<longrightarrow> (\<exists>ns0 ns1. ns = ns0 @ ns1 \<and> pending ?nb os files (c_write_queue (nr_con r)) ns1 rest)"
    using r(2) unfolding write_result_def by blast
  show ?case
  proof (cases "nr_ret r = 1")
    case False
    then show ?thesis using r(1) w(1,4) call by simp
  next
    case True
    then obtain ns1 where p: "pending ?nb os files (c_write_queue (nr_con r)) ns1 rest" using w(5) by auto
    have "pending ?nb os1 files (c_write_queue (nr_con r)) ns1 rest" if "no_data os1 = data" for os1
      using pending_fd [OF p] that os(2) by simp
    moreover have "\<forall>(os1, env1) \<in> set calls. os_ok os1 files \<and> no_data os1 = data" using Cons.prems(1) by simp
    ultimately obtain sent ret rest1 where "write_calls ?nb calls (nr_cache r) (nr_cnt r) (nr_con r) = Some (sent, ret)"
      "rest = sent @ rest1" "ret = 0 \<longrightarrow> rest1 = []"
      using Cons.IH [of "nr_con r" ns1 rest "nr_cache r" "nr_cnt r"] w(2,3) Cons.prems(4) by auto
    then show ?thesis using True r(1) w(1) call by simp
  qed
qed simp

section \<open>A client that goes on reading\<close>

text \<open>Every call for at least one octet takes one, and the files can be opened.\<close>

definition willing :: "net_os \<Rightarrow> (string \<rightharpoonup> string) \<Rightarrow> bool" where
  "willing os files = ((\<forall>k s. \<exists>n. no_send os k s = Sent n \<and> n \<le> length s \<and> (s \<noteq> [] \<longrightarrow> 0 < n)) \<and>
     (\<forall>k n d. files n = Some d \<longrightarrow> no_open os k n \<noteq> -1 \<and> no_data os (no_open os k n) = d))"

lemma willing_ok: "willing os files \<Longrightarrow> os_ok os files"
  unfolding willing_def os_ok_def by (metis sys_answer.inject(1))

lemma willing_offer:
  assumes "willing os files"
  obtains n where "offer os t nt = (Sent n, nt\<lparr>nt_calls := Suc (nt_calls nt), nt_sent := nt_sent nt @ take n t\<rparr>)" "n \<le> length t" "t \<noteq> [] \<longrightarrow> 0 < n"
  using assms unfolding willing_def by (auto simp: offer_def Let_def elim!: allE [of _ "nt_calls nt"] allE [of _ t])

lemma change_chunk_sent: "change_chunk a f nt = Some nt1 \<Longrightarrow> nt_sent nt1 = nt_sent nt"
  by (auto simp: change_chunk_def)

lemma iov_done_all: "iov_done iov n c k fin nt = Some (out, nt1) \<Longrightarrow> iov \<noteq> [] \<or> fin \<Longrightarrow>
    nt_sent nt1 = nt_sent nt \<and> ((\<exists>b j. out = Finished b j) \<or> (\<exists>j. out = Not_finished j) \<and> concat (map snd iov) \<noteq> [])"
proof (induction iov n c k fin nt rule: iov_done.induct)
  case (2 a t iov r c k fin nt)
  show ?case
  proof (cases "length t \<le> r")
    case True
    obtain nt2 where nt2: "change_chunk a (\<lambda>tc. tc\<lparr>ck_offset := ck_offset tc + int (length t)\<rparr>) nt = Some nt2" using 2(3) True by auto
    obtain c1 k1 where "iov_done iov (r - length t) c1 k1 True nt2 = Some (out, nt1)"
      "nt_sent nt1 = nt_sent nt2 \<and> ((\<exists>b j. out = Finished b j) \<or> (\<exists>j. out = Not_finished j) \<and> concat (map snd iov) \<noteq> [])"
    proof (cases fin)
      case fin: True
      obtain d c1 where d: "at_net nt2 c = Some d" "ck_next d = Some c1" "iov_done iov (r - length t) c1 (Suc k) True nt2 = Some (out, nt1)"
        using 2(3) True fin nt2 by auto
      then show thesis using that 2(1) [OF True nt2 fin d(1,2) d(3)] by blast
    next
      case fin: False
      then have d: "iov_done iov (r - length t) c k True nt2 = Some (out, nt1)" using 2(3) True nt2 by auto
      then show thesis using that 2(2) [OF True nt2 fin d] by blast
    qed
    then show ?thesis using change_chunk_sent [OF nt2] by auto
  next
    case False
    then show ?thesis using 2(3,4) by (auto dest: change_chunk_sent)
  qed
qed auto

lemma willing_step:
  assumes "willing os files" "live False os files c" "at_net nt a = Some c" "linuxsendfile_step os fs conf a c nt = Some (out, nt1)"
  shows "length (nt_sent nt) \<le> length (nt_sent nt1) \<and>
    ((\<exists>b k. out = Finished b k) \<or> (\<exists>k. out = Not_finished k) \<and> length (nt_sent nt) < length (nt_sent nt1))"
proof (cases "ck_type c")
  case MEM_CHUNK
  obtain as iov where iov: "mem_run (nt_world nt) UIO_MAXIOV (Some a) = Some as" "iov_fill (nt_world nt) 0 as = Some iov"
    using assms(4) MEM_CHUNK by (auto simp: linuxsendfile_step_def writev_mem_def)
  let ?t = "concat (map snd iov)"
  obtain n where n: "offer os ?t nt = (Sent n, nt\<lparr>nt_calls := Suc (nt_calls nt), nt_sent := nt_sent nt @ take n ?t\<rparr>)" "n \<le> length ?t" "?t \<noteq> [] \<longrightarrow> 0 < n"
    using willing_offer [OF assms(1)] .
  have run: "iov_done iov n a 0 False (count_out n (nt\<lparr>nt_calls := Suc (nt_calls nt), nt_sent := nt_sent nt @ take n ?t\<rparr>)) = Some (out, nt1)"
    using assms(4) MEM_CHUNK iov n(1) by (simp add: linuxsendfile_step_def writev_mem_def sent_or_error_def)
  have "as \<noteq> []" using iov(1) assms(3) MEM_CHUNK by (auto simp: UIO_MAXIOV_def numeral_eq_Suc)
  then have "iov \<noteq> []" using iov(2) by (cases as) (auto split: if_splits)
  then show ?thesis using iov_done_all [OF run] n(2,3) by auto
next
  case FILE_CHUNK
  obtain n d where f: "ck_file_name c = Some n" "c_str n = n" "files n = Some d" "0 \<le> ck_file_start c" "0 \<le> ck_offset c"
    "ck_offset c < ck_file_length c" "ck_file_start c + ck_file_length c \<le> int (length d)" "ck_file_fd c \<noteq> -1 \<longrightarrow> no_data os (ck_file_fd c) = d"
    using assms(2) FILE_CHUNK by (rule live_fileE)
  have opens: "no_open os k n \<noteq> -1" for k using assms(1) f(3) by (auto simp: willing_def)
  obtain fd nt2 where op: "open_chunk os a c nt = Some (fd, nt2)" "touched a c (c\<lparr>ck_file_fd := fd\<rparr>) nt nt2" "fd \<noteq> -1 \<longrightarrow> no_data os fd = d"
    using open_chunk_ok [OF willing_ok [OF assms(1)] assms(3) same_source_refl refl f(1-3) f(8) [rule_format]] by blast
  have fd: "fd \<noteq> -1" using op(1) f(1,2) opens by (auto simp: open_chunk_def Let_def split: if_splits)
  let ?t = "take (nat (min (ck_file_length c - ck_offset c) (2 ^ 30 - 1))) (drop (nat (ck_file_start c + ck_offset c)) d)"
  have oct: "sendfile_octets d (ck_file_start c + ck_offset c) (min (ck_file_length c - ck_offset c) (2 ^ 30 - 1)) = Some ?t"
    using f(4-6) by (simp add: sendfile_octets_def)
  have ne: "?t \<noteq> []" using f(4-7) by auto
  obtain m where m: "offer os ?t nt2 = (Sent m, nt2\<lparr>nt_calls := Suc (nt_calls nt2), nt_sent := nt_sent nt2 @ take m ?t\<rparr>)" "m \<le> length ?t" "0 < m"
    using willing_offer [OF assms(1)] ne by metis
  have "nt_sent nt2 = nt_sent nt" using op(2) by (simp add: touched_def)
  then show ?thesis using assms(4) FILE_CHUNK op(1,3) fd oct m
    by (auto simp: linuxsendfile_step_def sendfile_file_def Let_def sent_or_error_def advance_def change_chunk_def count_out_def close_sent_fd_def note_closed_def
        split: if_splits)
qed (use assms(2) in \<open>simp add: live_def\<close>)

text \<open>The loop sends all chunks, or at least one octet.\<close>

lemma willing_loop:
  assumes "willing os files" "chain (nt_world nt) p as" "distinct as" "all_live False os files nt as" "mem_small nt as"
    and "sendfile_ready fs conf files (names_of nt as) (nt_cache nt)" "send_loop linuxsendfile_step os fs conf p k nt = Some (r, nt1)"
  shows "r \<ge> 0 \<and> (all_done nt1 as \<or> length (nt_sent nt) < length (nt_sent nt1))"
  using assms(2-7)
proof (induction "length as" arbitrary: as p k nt rule: less_induct)
  case less
  show ?case
  proof (cases as)
    case Nil
    then show ?thesis using less.prems(1,6) by (auto simp: send_loop.simps all_done_def)
  next
    case (Cons a as')
    then obtain c where p: "p = Some a" "at_net nt a = Some c" "live False os files c" using less.prems(1,3) by (auto simp: all_live_def)
    note prems = less.prems [unfolded Cons p(1)]
    obtain out nt2 where st: "linuxsendfile_step os fs conf a c nt = Some (out, nt2)" "sends files (a # as') nt nt2"
      "after_step False os files (sendfile_ready fs conf files) (a # as') out nt2"
      using lx.step_ok [OF willing_ok [OF assms(1)] prems(1-5) p(2)] by blast
    have grow: "length (nt_sent nt) \<le> length (nt_sent nt2)" using willing_step [OF assms(1) p(3,2) st(1)] by blast
    consider (fin) b j where "out = Finished b j" | (not) j where "out = Not_finished j" "length (nt_sent nt) < length (nt_sent nt2)"
      using willing_step [OF assms(1) p(3,2) st(1)] by blast
    then show ?thesis
    proof cases
      case not
      then show ?thesis using less.prems(6) p(1,2) st(1) by (subst (asm) send_loop.simps) auto
    next
      case fin
      obtain pre post where s: "a # as' = pre @ post" "pre \<noteq> []" "last pre = b" "all_done nt2 pre" "all_live False os files nt2 post"
        "sendfile_ready fs conf files (names_of nt2 post) (nt_cache nt2)" using st(3) fin by (auto simp: after_step_def)
      have same: "same_chunks nt nt2" using st(2) by (simp add: sends_def)
      have ch: "chain (nt_world nt2) (Some a) (pre @ post)" using chain_same [OF same] prems(1) s(1) by metis
      obtain d where d: "at_net nt2 b = Some d" using s(2-4) last_in_set [OF s(2)] by (auto simp: all_done_def)
      have ch2: "chain (nt_world nt2) (ck_next d) post" using chain_behind [OF ch s(2)] s(3) d by simp
      have dist: "distinct (pre @ post)" using prems(2) s(1) by metis
      then have dpost: "distinct post" by simp
      have small: "mem_small nt2 post" using mem_small_same [OF same] prems(4) s(1) of_append(3) by metis
      have len: "length post < length as" using Cons s(1,2) by (metis length_append length_greater_0_conv less_add_same_cancel2)
      have run: "send_loop linuxsendfile_step os fs conf (ck_next d) (k + j + 1) nt2 = Some (r, nt1)"
        using less.prems(6) p(1,2) st(1) fin d by (subst (asm) send_loop.simps) simp
      have rec: "r \<ge> 0 \<and> (all_done nt1 post \<or> length (nt_sent nt2) < length (nt_sent nt1))"
        using less.hyps [OF len ch2 dpost s(5) small s(6) run] .
      obtain r' nt' where "send_loop linuxsendfile_step os fs conf (ck_next d) (k + j + 1) nt2 = Some (r', nt')" "sends files post nt2 nt'"
        using lx.loop_ok [OF willing_ok [OF assms(1)] ch2 dpost s(5) small s(6)] by blast
      then have "sends files post nt2 nt1" using run by simp
      then have "all_done nt1 pre" by (rule sends_behind(2) [OF _ s(4) dist])
      then show ?thesis using rec s(1) Cons grow by (auto simp: all_done_def)
    qed
  qed
qed

lemma willing_call:
  assumes "willing os files" "pending NETWORK_BACKEND_LINUX_SENDFILE os files (c_write_queue con) ns s" "cache_tree_ok sc" "mime_ok (cf_mimetypes (c_conf con))"
    and "cf_global_kbytes_per_second (c_conf con) = 0" "network_write_chunkqueue NETWORK_BACKEND_LINUX_SENDFILE os env sc cnt con = Some r"
  shows "nr_ret r = 0 \<or> nr_ret r = 1 \<and> nr_sent r \<noteq> []"
proof -
  let ?nb = NETWORK_BACKEND_LINUX_SENDFILE and ?wq = "c_write_queue con"
  have "sendfile_ready (we_fs env) (stat_conf_of env con) files ns' sc" for ns'
    using assms(3,4) by (simp add: sendfile_ready_def stat_conf_mime)
  then have rdy: "backend_ready ?nb (we_fs env) (stat_conf_of env con) files ns sc" by (simp add: backend_ready_def)
  obtain ret nt as us where b: "network_backend_write ?nb os (we_fs env) (stat_conf_of env con) (net_of ?wq sc) = Some (ret, nt)"
    "s = nt_sent nt @ rest_of files nt as" "cache_tree_ok (nt_cache nt)"
    "cq_bytes_out (nt_queue nt) = cq_bytes_out (snd ?wq) + int (length (nt_sent nt))" "queue_inv (nt_world nt) (nt_queue nt) as us"
    "mem_small nt as" "names_of nt as = ns"
    "ret \<ge> 0 \<longrightarrow> (\<exists>pre post. as = pre @ post \<and> all_done nt pre \<and> all_live (backend_windows ?nb) os files nt post)"
    "chain (fst ?wq) (cq_first (snd ?wq)) as" "distinct as" "all_live (backend_windows ?nb) os files (net_of ?wq sc) as" "mem_small (net_of ?wq sc) as"
    "names_of (net_of ?wq sc) as = ns"
    using backend_call [OF willing_ok [OF assms(1)] assms(2) rdy] .
  have "all_live False os files (net_of ?wq sc) as" using b(11) by (simp add: backend_windows_def)
  moreover have "send_loop linuxsendfile_step os (we_fs env) (stat_conf_of env con) (cq_first (snd ?wq)) 0 (net_of ?wq sc) = Some (ret, nt)"
    using b(1) by (simp add: network_backend_write_def backend_step_def)
  ultimately have l: "ret \<ge> 0 \<and> (all_done nt as \<or> 0 < length (nt_sent nt))"
    using willing_loop [OF assms(1), of "net_of ?wq sc" "cq_first (snd ?wq)" as "we_fs env" "stat_conf_of env con" 0 ret nt] b(9,10,12) rdy
    by (simp add: backend_ready_def sendfile_ready_def)
  then obtain pre post where p: "as = pre @ post" "all_done nt pre" "all_live (backend_windows ?nb) os files nt post" using b(8) by blast
  obtain w q where q: "chunkqueue_remove_finished_chunks (nt_world nt) (nt_queue nt) = Some (w, q)" "chunkqueue_is_empty q \<longleftrightarrow> all_done nt as"
    using removed_pending [OF b(5) p b(6)] by blast
  show ?thesis using assms(5,6) b(1) l q by (auto simp: network_write_chunkqueue_def Let_def over_limit_def)
qed

lemma willing_calls:
  assumes "\<forall>(os, env) \<in> set calls. willing os files \<and> no_data os = data"
    and "\<And>os. no_data os = data \<Longrightarrow> pending NETWORK_BACKEND_LINUX_SENDFILE os files (c_write_queue con) ns s"
    and "cache_tree_ok sc" "mime_ok (cf_mimetypes (c_conf con))" "cf_global_kbytes_per_second (c_conf con) = 0" "length s < length calls"
  shows "write_calls NETWORK_BACKEND_LINUX_SENDFILE calls sc cnt con = Some (s, 0)"
  using assms
proof (induction calls arbitrary: sc cnt con ns s)
  case (Cons call calls)
  let ?nb = NETWORK_BACKEND_LINUX_SENDFILE
  obtain os env where call: "call = (os, env)" by (cases call)
  have os: "willing os files" "no_data os = data" using Cons.prems(1) call by auto
  note pen = Cons.prems(2) [OF os(2)]
  have rdy: "backend_ready ?nb (we_fs env) (stat_conf_of env con) files ns sc"
    using Cons.prems(3,4) by (simp add: backend_ready_def sendfile_ready_def stat_conf_mime)
  obtain r where r: "network_write_chunkqueue ?nb os env sc cnt con = Some r" "write_result ?nb os files cnt con ns s r"
    using write_ok [OF willing_ok [OF os(1)] pen rdy] by blast
  obtain rest where w: "s = nr_sent r @ rest" "c_conf (nr_con r) = c_conf con" "cache_tree_ok (nr_cache r)" "nr_ret r = 0 \<longrightarrow> rest = []"
    "nr_ret r \<ge> 0 \<longrightarrow> (\<exists>ns0 ns1. ns = ns0 @ ns1 \<and> pending ?nb os files (c_write_queue (nr_con r)) ns1 rest)"
    using r(2) unfolding write_result_def by blast
  have prog: "nr_ret r = 0 \<or> nr_ret r = 1 \<and> nr_sent r \<noteq> []" using willing_call [OF os(1) pen Cons.prems(3-5) r(1)] .
  show ?case
  proof (cases "nr_ret r = 0")
    case True
    then show ?thesis using r(1) w(1,4) call by simp
  next
    case False
    then have one: "nr_ret r = 1" "nr_sent r \<noteq> []" using prog by simp_all
    then obtain ns1 where p: "pending ?nb os files (c_write_queue (nr_con r)) ns1 rest" using w(5) by auto
    have "pending ?nb os1 files (c_write_queue (nr_con r)) ns1 rest" if "no_data os1 = data" for os1
      using pending_fd [OF p] that os(2) by simp
    moreover have "\<forall>(os1, env1) \<in> set calls. willing os1 files \<and> no_data os1 = data" using Cons.prems(1) by simp
    moreover have "length rest < length calls" using Cons.prems(6) w(1) one(2) by (cases "nr_sent r") auto
    ultimately have "write_calls ?nb calls (nr_cache r) (nr_cnt r) (nr_con r) = Some (rest, 0)"
      using Cons.IH [of "nr_con r" ns1 rest "nr_cache r" "nr_cnt r"] w(2,3) Cons.prems(4,5) by auto
    then show ?thesis using one(1) r(1) w(1) call by simp
  qed
qed simp

section \<open>Properties\<close>

text \<open>A response for the concrete runs: a header in memory and a file of ten octets.\<close>

definition sample_files :: "string \<rightharpoonup> string" where
  "sample_files = [''/az'' \<mapsto> ''0123456789'']"

definition sample_queue :: "world \<times> chunkqueue" where
  "sample_queue = (\<lparr>w_heap = [Some (fresh_chunk\<lparr>ck_type := MEM_CHUNK, ck_mem := Some ''HTTP '', ck_next := Some 1\<rparr>),
       Some (fresh_chunk\<lparr>ck_type := FILE_CHUNK, ck_file_name := Some ''/az'', ck_file_length := 10\<rparr>)],
     w_unlinked = [], w_closed = [], w_unmapped = []\<rparr>,
   chunkqueue_init\<lparr>cq_first := Some 0, cq_last := Some 1\<rparr>)"

text \<open>A system that takes at most \<open>m\<close> octets in each call.\<close>

definition slow_os :: "nat \<Rightarrow> net_os" where
  "slow_os m = \<lparr>no_send = (\<lambda>k s. Sent (min m (length s))), no_open = (\<lambda>k n. 9), no_mmap = (\<lambda>k. Some 1), no_data = (\<lambda>fd. ''0123456789'')\<rparr>"

definition sample_client :: conn where
  "sample_client = sample_conn\<lparr>c_write_queue := sample_queue\<rparr>"

lemma slow_ok: "os_ok (slow_os m) sample_files" "0 < m \<Longrightarrow> willing (slow_os m) sample_files"
  by (auto simp: os_ok_def willing_def slow_os_def sample_files_def)

lemma slow_data: "no_data (slow_os m) = no_data (slow_os k)"
  by (simp add: slow_os_def)

lemma sample_pending: "pending nb (slow_os m) sample_files (c_write_queue sample_client) [''/az''] ''HTTP 0123456789''"
proof -
  let ?nt = "net_of sample_queue stat_cache_init"
  have at: "at_net ?nt 0 = Some (fresh_chunk\<lparr>ck_type := MEM_CHUNK, ck_mem := Some ''HTTP '', ck_next := Some 1\<rparr>)"
    "at_net ?nt 1 = Some (fresh_chunk\<lparr>ck_type := FILE_CHUNK, ck_file_name := Some ''/az'', ck_file_length := 10\<rparr>)"
    by (simp_all add: sample_queue_def chunk_at_def)
  have "queue_inv (fst sample_queue) (snd sample_queue) [0, 1] []"
    using at by (simp add: queue_inv_def sample_queue_def chunkqueue_init_def chunk_at_def fresh_chunk_def)
  moreover have "all_live (backend_windows nb) (slow_os m) sample_files ?nt [0, 1]"
    using at by (simp add: all_live_def live_def sample_files_def fresh_chunk_def window_ok_def name_ok_def)
  moreover have "mem_small ?nt [0, 1]" "names_of ?nt [0, 1] = [''/az'']" "rest_of sample_files ?nt [0, 1] = ''HTTP 0123456789''"
    using at by (simp_all add: mem_small_def names_of_def rest_of_def chunk_octets_def sample_files_def fresh_chunk_def SSIZE_MAX_def)
  ultimately show ?thesis unfolding pending_def sample_client_def by (intro exI [of _ "[0, 1]"] exI [of _ "[]"]) simp
qed

lemma sample_client_mime: "mime_ok (cf_mimetypes (c_conf sample_client))"
  by (simp add: sample_client_def sample_conn_def connection_init_def chunkqueue_set_tempdirs_def config_setup_connection_def no_config_def
      mime_ok_def array_init_def)

lemma empty_tree: "cache_tree_ok stat_cache_init"
  using reachable_cache_ok [OF reachable_cache.init] by simp

text \<open>C8. For a well-formed queue whose files are there and hold the octets that the chunks name, with each of the three back ends, a call of
  \<open>network_write_chunkqueue\<close> returns, and the octets it sends
  are the first of those in the queue: with those that are still in the queue after it they are exactly the octets that were in the
  queue before, from memory and from files. The counters of the connection and of all traffic grow by their number. If
  the call does not report an error the queue can be sent again, from the next octet on, and if it returns 0 everything has been sent.
  The hypotheses: the system takes at most what it is offered and \<open>open\<close> fails or gives the file of that name (\<open>os_ok\<close>); a file does not shrink
  while it is sent; the memory chunks together stay below \<open>SSIZE_MAX\<close> (\<open>pending\<close>). Of the stat cache \<open>sendfile\<close> needs only
  that it is well formed, because it asks the cache only when nothing was sent; \<open>write\<close> and \<open>writev\<close> use the size, and
  for them the cache has no entry under the hash of a name of the queue that belongs to another name, no two of these names have the same
  hash, its entries of this second agree with the file system, and the file system gives the sizes of the files (\<open>coherent\<close>).\<close>

theorem queue_sent_in_order:
  assumes "os_ok os files" "pending nb os files (c_write_queue con) ns s" "backend_ready nb (we_fs env) (stat_conf_of env con) files ns sc"
  shows "\<exists>r rest. network_write_chunkqueue nb os env sc cnt con = Some r \<and> s = nr_sent r @ rest \<and>
    c_bytes_written (nr_con r) = c_bytes_written con + int (length (nr_sent r)) \<and>
    nr_cnt r = cnt(cf_global_cnt (c_conf con) := cnt (cf_global_cnt (c_conf con)) + int (length (nr_sent r))) \<and>
    (nr_ret r \<ge> 0 \<longrightarrow> nr_ret r \<in> {0, 1} \<and> (\<exists>ns0 ns1. ns = ns0 @ ns1 \<and> pending nb os files (c_write_queue (nr_con r)) ns1 rest)) \<and>
    (nr_ret r = 0 \<longrightarrow> rest = [])"
  using write_ok [OF assms, of cnt] unfolding write_result_def by (elim exE conjE, intro exI conjI)

theorem queue_sent_in_order_witness:
  "\<exists>r rest. network_write_chunkqueue NETWORK_BACKEND_WRITEV (slow_os 7) sample_wenv stat_cache_init (\<lambda>k. 0) sample_client = Some r \<and>
     ''HTTP 0123456789'' = nr_sent r @ rest"
proof -
  have "file_key 1 ''/az'' = 2088272352" "file_key 0 ''/az'' = 2088272351" by code_simp+
  moreover have "cache_map stat_cache_init = Map.empty" by (simp add: cache_map_def stat_cache_init_def lookup_def)
  ultimately have "coherent (we_fs sample_wenv) (stat_conf_of sample_wenv sample_client) sample_files [''/az''] stat_cache_init"
    using empty_tree sample_client_mime
    by (auto simp: coherent_def stat_conf_mime name_ok_def no_collision_def this_second_def sample_wenv_def renv.defs site_def reg_def sample_files_def)
  then have "backend_ready NETWORK_BACKEND_WRITEV (we_fs sample_wenv) (stat_conf_of sample_wenv sample_client) sample_files [''/az''] stat_cache_init"
    by (simp add: backend_ready_def)
  from queue_sent_in_order [OF slow_ok(1) [of 7] sample_pending this, of "\<lambda>k. 0"] show ?thesis by blast
qed

text \<open>C10. With \<open>sendfile\<close>, over any number of calls for a response, each at its own time and with its own answers of the system,
  interrupted calls and errors among them, what the client has got is a beginning of the response, and the whole of it if the last call returned 0.\<close>

theorem response_prefix_sent:
  assumes "\<forall>(os, env) \<in> set calls. os_ok os files \<and> no_data os = no_data os0" "pending NETWORK_BACKEND_LINUX_SENDFILE os0 files (c_write_queue con) ns s"
    and "cache_tree_ok sc" "mime_ok (cf_mimetypes (c_conf con))"
  shows "\<exists>sent ret rest. write_calls NETWORK_BACKEND_LINUX_SENDFILE calls sc cnt con = Some (sent, ret) \<and> s = sent @ rest \<and> (ret = 0 \<longrightarrow> rest = [])"
  using write_calls_ok [OF assms(1) pending_fd [OF assms(2)] assms(3,4), of cnt] by blast

theorem response_prefix_sent_witness:
  "\<exists>sent ret rest. write_calls NETWORK_BACKEND_LINUX_SENDFILE [(slow_os 7, sample_wenv), (slow_os 0, sample_wenv), (slow_os 8, sample_wenv)]
     stat_cache_init (\<lambda>k. 0) sample_client = Some (sent, ret) \<and> ''HTTP 0123456789'' = sent @ rest \<and> (ret = 0 \<longrightarrow> rest = [])"
proof (rule response_prefix_sent)
  show "pending NETWORK_BACKEND_LINUX_SENDFILE (slow_os 0) sample_files (c_write_queue sample_client) [''/az''] ''HTTP 0123456789''"
    by (rule sample_pending)
qed (use slow_ok(1) slow_data empty_tree sample_client_mime in auto)

text \<open>C9. With the \<open>sendfile\<close> back end and no global limit of the traffic (\<open>global_kbytes_per_second\<close> is 0), a client that goes on
  reading gets the whole response of a well-formed queue: if every call of the system takes at least one octet of
  what it is offered and files can be opened, then after at most one call of \<open>network_write_chunkqueue\<close> more than the response has octets
  everything has been sent, and the last call has returned 0.\<close>

theorem willing_client_served:
  assumes "\<forall>(os, env) \<in> set calls. willing os files \<and> no_data os = no_data os0" "pending NETWORK_BACKEND_LINUX_SENDFILE os0 files (c_write_queue con) ns s"
    and "cache_tree_ok sc" "mime_ok (cf_mimetypes (c_conf con))" "cf_global_kbytes_per_second (c_conf con) = 0" "length s < length calls"
  shows "write_calls NETWORK_BACKEND_LINUX_SENDFILE calls sc cnt con = Some (s, 0)"
  using willing_calls [OF assms(1) pending_fd [OF assms(2)] assms(3-6)] .

theorem willing_client_served_witness:
  "write_calls NETWORK_BACKEND_LINUX_SENDFILE (replicate 16 (slow_os 1, sample_wenv)) stat_cache_init (\<lambda>k. 0) sample_client = Some (''HTTP 0123456789'', 0)"
proof -
  have "cf_global_kbytes_per_second (c_conf sample_client) = 0"
    by (simp add: sample_client_def sample_conn_def connection_init_def chunkqueue_set_tempdirs_def config_setup_connection_def no_config_def)
  then show ?thesis
    using slow_ok(2) [of 1] empty_tree sample_client_mime
    by (intro willing_client_served [OF _ sample_pending [of _ 1]]) auto
qed

end
