(* ===== verification/Spec2Isabelle.thy ===== *)
theory Spec2Isabelle
  imports StatCacheProps ConnBody FdeventPoll ServerLive ServerEvents NetOrder
begin

text \<open>
  Verification of the core of the web server lighttpd 1.4.20, \<open>src/lighttpd-1.4.20/src\<close>, the largest program of the
  repository that is kept in source and changed there.

  \<^bold>\<open>The program.\<close> Everything in the server is made of string buffers (\<open>buffer.c\<close>): requests, header fields, paths and
  responses. Header fields, configuration values and environment variables are kept in arrays of tagged elements that are
  searched through a sorted index (\<open>array.c\<close>, \<open>data_*.c\<close>). Data on its way from or to a client is a queue of memory and
  file chunks (\<open>chunk.c\<close>).

  The main loop (\<open>server.c\<close>) waits for events (\<open>fdevent.c\<close> with a back end) and calls the handler of each descriptor that
  is ready. The handler of a server socket (\<open>network.c\<close>) accepts connections, which live in a pool; the handler of a
  connection notes the events and drives a state machine (\<open>connections.c\<close>), as do the list of jobs, the queue of connections that
  wait for a descriptor (\<open>joblist.c\<close>) and the check for timeouts. The machine reads packets into the read queue until the end of a
  header has arrived; \<open>request.c\<close> cuts it into request line and header fields, inserts the fields into an array and
  decides about host, connection and body length, using the tables of \<open>keyvalue.c\<close>; the body is moved to a queue of its own, to
  temporary files when it is long. \<open>response.c\<close> turns the address into a file below the document root, with callbacks of the plugins
  in between: the path is decoded and simplified by functions of \<open>buffer.c\<close>, and the file behind it is looked up in the cache of file
  statuses (\<open>stat_cache.c\<close>), which is indexed by a splay tree (\<open>splaytree.c\<close>) and computes the entity tag (\<open>etag.c\<close>).
  A handler fills the write queue, through \<open>http_chunk.c\<close> with or without the chunked transfer encoding; \<open>connections.c\<close>,
  \<open>response.c\<close> and \<open>http-header-glue.c\<close> settle status, length and header, and the back ends of \<open>network.c\<close> send the queue.

  \<^bold>\<open>Conventions.\<close> A C computation that can fault has a result of type \<open>option\<close>: \<open>None\<close> is an access outside a
  block, a null pointer that is followed, a failing assertion or a call of \<open>SEGFAULT\<close>. A pointer that may be \<open>NULL\<close> is an
  \<open>option\<close> as well. Errors that the code reports are values of its own: HTTP status codes, \<open>-1\<close>, \<open>handler_t\<close>. Plain
  characters are signed (\<open>schar\<close>). Fresh memory holds what a parameter of type \<open>junk\<close> says, and theorems hold for all of
  them. Buffers are modelled twice: as blocks with sizes in the theories about \<open>buffer.c\<close>, and as their meaning (\<open>bstr\<close>,
  \<open>None\<close> for a buffer with \<open>used = 0\<close>) in the components above, which the refinement lemmas of theory Buffer justify.
  Loops are recursive functions with a measure, or recursion on a number the code counts down; where the end of a loop is
  itself a claim they are \<open>partial_function (option)\<close>, and a theorem that the result is \<open>Some\<close> says that the loop ends. No
  definition uses fuel. Long functions of the code are cut into definitions for their steps, which are composed in the order of the code.

  \<^bold>\<open>Theories.\<close>

  \<^item> Prelude: characters, memory blocks with checked access, C strings, shared facts.
  \<^item> Buffer: \<open>buffer.c\<close> and \<open>buffer.h\<close>, the record \<open>buffer\<close>, its allocation, \<open>buffer_copy_*\<close>, \<open>buffer_append_*\<close>, comparison,
    search, arrays of buffers. The invariants \<open>buffer_wf\<close> and \<open>buffer_ok\<close> are kept, no operation leaves its block, and each has
    its effect on the meaning \<open>buf_abs\<close>.
  \<^item> Caseless: \<open>light_is*\<close>, case conversion and \<open>buffer_caseless_compare\<close>, equal to a byte-wise reference, and an order on
    keys without the characters between \<open>Z\<close> and \<open>a\<close>.
  \<^item> Numbers: \<open>LI_ltostr\<close>, \<open>buffer_append_long\<close>, \<open>_off_t\<close>, \<open>_long_hex\<close>, \<open>buffer_copy_string_hex\<close>, with round trips.
  \<^item> UrlCodec: \<open>buffer_append_string_encoded\<close> with its tables and \<open>buffer_urldecode_*\<close>; decoding inverts encoding and leaves no
    control characters in a path.
  \<^item> PathSimplify: \<open>buffer_path_simplify\<close> and its variant in place; for a path that is not blank they agree with a reference on
    components, leave no \<open>..\<close>, and are idempotent.
  \<^item> ArrayData and Array: the element types and the indexed array; for keys without the characters between \<open>Z\<close> and \<open>a\<close>, insertion and
    search refine a list of elements with unique keys, and repeated header fields are joined in order.
  \<^item> KeyValue: the tables of \<open>keyvalue.c\<close> and their lookup functions.
  \<^item> RequestHost and Request: \<open>request.c\<close>, \<open>request_check_hostname\<close>, \<open>http_request_split_value\<close> and \<open>http_request_parse\<close>
    with the loop over the request line, the loop over the header fields and the final checks.
  \<^item> RequestSafety: the parser does not fault on a request in which no comma follows a colon at once, the chain of header names is a search in a
    table, the body length stays in its bounds, a request line is read back, and what the parser does on unusual requests.
  \<^item> Chunk and HttpChunk: \<open>chunk.c\<close> on a heap of linked nodes, refining a list of pieces of data, with the invariant of its
    three pointers and two counters, and \<open>http_chunk.c\<close>, whose output a decoder of the chunked encoding reads back.
  \<^item> SplayTree: \<open>splaytree.c\<close>; a history of calls refines a finite map on the keys of the stat cache.
  \<^item> Etag, StatCache and StatCacheProps: \<open>etag.c\<close> and \<open>stat_cache.c\<close>; the reachable caches refine a map, are transparent
    within a second and can be released; a hash collision breaks transparency.
  \<^item> ConnPool: the pool of connections with its removal by swapping, the list of jobs and the waiting queue
    (\<open>connections_get_new_connection\<close>, \<open>connection_del\<close>, \<open>joblist_append\<close>, \<open>fdwaitqueue_*\<close>), and the names of the states; the pool
    refines a set of open connections.
  \<^item> Conn: the record \<open>conn\<close>, \<open>connection_init\<close>, \<open>connection_reset\<close>; a reset forgets the request.
  \<^item> ConnRead and ConnBody: \<open>connection_handle_read\<close> and \<open>connection_handle_read_state\<close>. A header that arrives
    in packets of three octets and more is put together, one whose empty line is spread over three packets is never recognised; the body ends where
    \<open>content_length\<close> says, and an upload to temporary files loses nothing or ends with 413 after a failure of the file system.
  \<^item> Response: \<open>http-header-glue.c\<close> (fields, redirects, the cache of formatted times, conditional requests) and
    \<open>http_response_write_header\<close>, which ends at its own empty line and nowhere before it.
  \<^item> WritePrepare: \<open>connection_handle_write_prepare\<close>; the length in the header is that of the queue, or the response is chunked, or the
    connection will be closed.
  \<^item> Prepare: \<open>http_response_prepare\<close>, one definition for each stage between two callbacks; the file is below the document root.
  \<^item> NetWrite, NetWriteProps and NetOrder: \<open>network_write_chunkqueue\<close> with the back ends \<open>network_write.c\<close>,
    \<open>network_writev.c\<close>, \<open>network_linux_sendfile.c\<close> and the limits of traffic; octets go out in order, once.
  \<^item> Fdevent and FdeventPoll: the table of handlers, the back ends for \<open>select\<close> and \<open>poll\<close>, each a map from descriptors to events, and the
    loop of \<open>server.c\<close> over the events.
  \<^item> Machine: the record \<open>srv\<close>, \<open>connection_state_machine\<close> with a definition \<open>step_*\<close> for each state, \<open>connection_close\<close>,
    \<open>connection_accept\<close>, \<open>connection_handle_fdevent\<close>, the server sockets, and \<open>main_turn\<close>, one turn of the main loop.
  \<^item> MachineProps, ServerInv, ServerLive and ServerEvents: which state follows which; the invariant of the server in every state the
    turns lead to (the relation \<open>server_reaches\<close>); errors and timeouts close a connection; the handlers
    keep what \<open>select\<close> has reported, and one event too many stops the server.

  \<^bold>\<open>Interfaces.\<close> Each is a locale with an interpretation on the definitions of the model: \<open>string_buffer\<close> (copying and appending, from
  Buffer to the writers), \<open>key_order\<close> and \<open>elem_store\<close> (the order of the keys and the store of elements, Array),
  \<open>piece_queue\<close> (adding to and draining a queue: \<open>mq\<close> in Chunk, \<open>hq\<close> in HttpChunk with the encoding), \<open>key_map\<close> (SplayTree, for the stat cache),
  \<open>event_backend\<close> (\<open>sel\<close> in Fdevent, \<open>pol\<close> in FdeventPoll) and \<open>chunk_sender\<close> (the step of a network back end: \<open>wr\<close>, \<open>wv\<close>
  and \<open>lx\<close> in NetWriteProps, with the loop over the chunks as the client).

  \<^bold>\<open>Parameters.\<close> The system and the C library answer what arguments say: \<open>mkstemp\<close> (Chunk); \<open>stat\<close>, \<open>lstat\<close>, \<open>open\<close> (\<open>file_system\<close>,
  StatCache); \<open>ioctl\<close> and \<open>read\<close> (\<open>read_answer\<close>), \<open>mkstemp\<close>, \<open>open\<close> and \<open>write\<close> of an upload (\<open>upload_os\<close>); \<open>strftime\<close>, \<open>strptime\<close> with
  \<open>mktime\<close> as a function of the text, \<open>getsockname\<close> (\<open>renv\<close>); \<open>errno\<close> (\<open>penv\<close>); \<open>write\<close>, \<open>writev\<close>, \<open>sendfile\<close>, \<open>open\<close> and \<open>mmap\<close> of
  the output (\<open>net_os\<close>); \<open>accept\<close>, \<open>fcntl\<close>, \<open>shutdown\<close> (\<open>answers\<close>); \<open>select\<close>, the clock and the signals of a turn (\<open>turn\<close>);
  \<open>poll\<close>. The callbacks of the plugins and \<open>config_patch_connection\<close> are functions on the connection and the stat cache (\<open>hooks\<close> and
  \<open>machine\<close>). They cannot change the server, so \<open>mod_cgi\<close>, \<open>mod_fastcgi\<close>, \<open>mod_proxy\<close> and \<open>mod_scgi\<close>, which open descriptors,
  count them in \<open>cur_fds\<close> and register handlers, are not covered; and the theorems on the state machine ask that callbacks leave state,
  descriptor and events of the connection alone (\<open>calm_machine\<close>), which \<open>connection_reset\<close> of \<open>mod_cgi\<close> does not. The
  theorems on closing also ask that callbacks keep queues and arrays well formed (\<open>tame\<close>), and that those of the connection are
  (\<open>conn_ok\<close>).

  \<^bold>\<open>Not modelled.\<close> The functions that only release memory, print or write to the error log. In StatCache the branches for
  the FAM daemon, for extended attributes and for debugging; in KeyValue the buffers of compiled regular expressions; in
  the connections the branches for OpenSSL; in the main loop the reaction to SIGHUP, the triggers of the plugins and the start of the
  program. Sizes in the splay tree are integers without a bound, as are lengths of buffers, which memory bounds below the width
  of their types. The static files (\<open>mod_staticfile.c\<close>), the digests (\<open>md5.c\<close>, \<open>crc32.c\<close>), authentication (\<open>http_auth.c\<close>), the bit sets
  (\<open>bitset.c\<close>), the cache of host names (\<open>inet_ntop_cache.c\<close>) and the plugins themselves are left out. The other event
  and network back ends, logging and process control are wrappers of system calls; the configuration parser is generated. The other
  directories of the repository are copies of other programs (wget, lemon, cgic, ntpclient) and small exercises.
\<close>

end
